(* ===== verification/Prelude.thy ===== *)
theory Prelude
  imports Main "HOL-Library.Word"
begin

unbundle bit_operations_syntax

text \<open>
  The shared layer of the development: the outcome type and the state-passing combinators in
  which every kernel routine is written, the collections of rewrite rules that execute them,
  little-endian byte encodings, and circular doubly linked lists over index-valued pointers.
  Nothing here models a particular source file.
\<close>

section \<open>Collections of rules\<close>

named_theorems kop_simps \<open>execution of the state-passing combinators\<close>
named_theorems lock_simps \<open>acquiring and releasing spin locks\<close>
named_theorems const_defs \<open>the numeric constants of the C headers\<close>

section \<open>Outcomes of kernel code\<close>

text \<open>
  A kernel routine either returns (\<open>Inr\<close>), or ends in one of four ways that do not return to
  its caller: it calls \<open>panic\<close>; it hands the CPU to the scheduler in a given machine state and
  waits to be woken (\<open>Switch\<close>); it spins on a lock that another CPU holds (\<open>Spin\<close>); or it
  accesses memory outside every object (\<open>Fault\<close>). A pointer loop that does not reach its end
  within the fuel of the model is \<open>Diverge\<close>; the invariants exclude it.
\<close>

datatype 's stop = Panic string | Switch 's | Spin | Fault | Diverge

type_synonym ('s, 'a) kop = "'s \<Rightarrow> 's stop + ('a \<times> 's)"

definition ret :: "'a \<Rightarrow> ('s, 'a) kop" where
  "ret x = (\<lambda>s. Inr (x, s))"

definition stop :: "'s stop \<Rightarrow> ('s, 'a) kop" where
  "stop e = (\<lambda>s. Inl e)"

definition bind :: "('s, 'a) kop \<Rightarrow> ('a \<Rightarrow> ('s, 'b) kop) \<Rightarrow> ('s, 'b) kop" where
  "bind m f = (\<lambda>s. case m s of Inl e \<Rightarrow> Inl e | Inr (x, s') \<Rightarrow> f x s')"

definition get :: "('s \<Rightarrow> 'a) \<Rightarrow> ('s, 'a) kop" where
  "get f = (\<lambda>s. Inr (f s, s))"

definition upd :: "('s \<Rightarrow> 's) \<Rightarrow> ('s, unit) kop" where
  "upd f = (\<lambda>s. Inr ((), f s))"

abbreviation seq :: "('s, 'a) kop \<Rightarrow> ('s, 'b) kop \<Rightarrow> ('s, 'b) kop" where
  "seq m n \<equiv> bind m (\<lambda>_. n)"

abbreviation panic :: "string \<Rightarrow> ('s, 'a) kop" where
  "panic msg \<equiv> stop (Panic msg)"

lemma ret_run [kop_simps]: "ret x s = Inr (x, s)"
  by (simp add: ret_def)

lemma stop_run [kop_simps]: "stop e s = Inl e"
  by (simp add: stop_def)

lemma get_run [kop_simps]: "get f s = Inr (f s, s)"
  by (simp add: get_def)

lemma upd_run [kop_simps]: "upd f s = Inr ((), f s)"
  by (simp add: upd_def)

lemma bind_run_Inr [kop_simps]: "m s = Inr (x, s') \<Longrightarrow> bind m f s = f x s'"
  by (simp add: bind_def)

lemma bind_run_Inl [kop_simps]: "m s = Inl e \<Longrightarrow> bind m f s = Inl e"
  by (simp add: bind_def)

lemma bind_InrE:
  assumes "bind m f s = Inr (y, t)"
  obtains x s' where "m s = Inr (x, s')" and "f x s' = Inr (y, t)"
  using assms by (auto simp: bind_def split: sum.splits prod.splits)

lemma bind_assoc: "bind (bind m f) g = bind m (\<lambda>x. bind (f x) g)"
  by (auto simp: bind_def fun_eq_iff split: sum.splits prod.splits)

lemma bind_ret_right: "bind m ret = m"
  by (auto simp: bind_def ret_def fun_eq_iff split: sum.splits prod.splits)

lemma bind_ret_left [simp]: "bind (ret x) f = f x"
  by (simp add: bind_def ret_def)

lemma kop_case_Inr: "(\<exists>x s'. r = Inr (x, s')) \<longleftrightarrow> (\<forall>e. r \<noteq> Inl e)" for r :: "'e + 'a \<times> 's"
  by (cases r) auto

section \<open>Runs that return\<close>

text \<open>
  \<open>runs m s P\<close>: started in \<open>s\<close>, the routine \<open>m\<close> returns, with a result and a state that satisfy \<open>P\<close>.
  The rules compose such statements along \<open>bind\<close>.
\<close>

definition runs :: "('s, 'a) kop \<Rightarrow> 's \<Rightarrow> ('a \<Rightarrow> 's \<Rightarrow> bool) \<Rightarrow> bool" where
  "runs m s P \<longleftrightarrow> (\<exists>x t. m s = Inr (x, t) \<and> P x t)"

lemma runs_bind: "runs m s P \<Longrightarrow> (\<And>x t. P x t \<Longrightarrow> runs (f x) t Q) \<Longrightarrow> runs (bind m f) s Q"
  by (fastforce simp: runs_def bind_def)

lemma runs_mono: "runs m s P \<Longrightarrow> (\<And>x t. P x t \<Longrightarrow> Q x t) \<Longrightarrow> runs m s Q"
  by (auto simp: runs_def)

lemma runs_get_bind [simp]: "runs (bind (get g) f) s Q \<longleftrightarrow> runs (f (g s)) s Q"
  by (simp add: runs_def bind_def get_def)

lemma runs_upd_bind [simp]: "runs (bind (upd g) f) s Q \<longleftrightarrow> runs (f ()) (g s) Q"
  by (simp add: runs_def bind_def upd_def)

lemma runs_ret [simp]: "runs (ret x) s Q \<longleftrightarrow> Q x s"
  by (simp add: runs_def ret_def)

lemma runs_upd [simp]: "runs (upd g) s Q \<longleftrightarrow> Q () (g s)"
  by (simp add: runs_def upd_def)

section \<open>Little-endian bytes\<close>

type_synonym byte = "8 word"
type_synonym u16 = "16 word"
type_synonym u32 = "32 word"
type_synonym u64 = "64 word"

lemma unat_less_64: "unat (w :: u64) < 2 ^ 64" and unat_less_32: "unat (v :: u32) < 2 ^ 32"
  by (rule order_less_le_trans [OF unsigned_less], simp)+

lemma unat_add32: "unat a + unat b < 2 ^ 32 \<Longrightarrow> unat (a + b :: u32) = unat a + unat b"
  by (simp add: unat_add_lem [THEN iffD1])

lemma unat_add64: "unat a + unat b < 2 ^ 64 \<Longrightarrow> unat (a + b :: u64) = unat a + unat b"
  by (simp add: unat_add_lem [THEN iffD1])

lemma unat_of_nat32: "n < 2 ^ 32 \<Longrightarrow> unat (of_nat n :: u32) = n"
  by (simp add: unat_of_nat)

lemma unat_of_nat64: "n < 2 ^ 64 \<Longrightarrow> unat (of_nat n :: u64) = n"
  by (simp add: unat_of_nat)

text \<open>A structure field of \<open>n\<close> bytes lies in memory least significant byte first.\<close>

definition le_bytes :: "nat \<Rightarrow> 'a::len word \<Rightarrow> byte list" where
  "le_bytes n w = map (\<lambda>i. ucast (drop_bit (8 * i) w)) [0..<n]"

fun le_word :: "byte list \<Rightarrow> 'a::len word" where
  "le_word [] = 0"
| "le_word (b # bs) = ucast b OR push_bit 8 (le_word bs)"

lemma length_le_bytes [simp]: "length (le_bytes n w) = n"
  by (simp add: le_bytes_def)

lemma nth_le_bytes: "i < n \<Longrightarrow> le_bytes n w ! i = ucast (drop_bit (8 * i) w)"
  by (simp add: le_bytes_def)

lemma bit_le_word:
  "bit (le_word bs :: 'a::len word) k \<longleftrightarrow>
     k < LENGTH('a) \<and> k < 8 * length bs \<and> bit (bs ! (k div 8)) (k mod 8)"
proof (induction bs arbitrary: k)
  case Nil
  then show ?case by simp
next
  case (Cons b bs)
  show ?case
  proof (cases "k < 8")
    case True
    then show ?thesis
      by (auto simp: bit_or_iff bit_push_bit_iff bit_ucast_iff)
  next
    case False
    then have "k div 8 = Suc ((k - 8) div 8)" and "k mod 8 = (k - 8) mod 8"
      by (auto simp: le_div_geq le_mod_geq)
    moreover have "\<not> bit b k" using False bit_imp_le_length [of b k] by auto
    ultimately show ?thesis using False Cons.IH [of "k - 8"]
      by (auto simp: bit_or_iff bit_push_bit_iff bit_ucast_iff)
  qed
qed

lemma le_word_le_bytes [simp]:
  assumes "LENGTH('a) \<le> 8 * n"
  shows "le_word (le_bytes n (w :: 'a::len word)) = w"
proof (rule bit_word_eqI)
  fix k assume k: "k < LENGTH('a)"
  then have "k div 8 < n" using assms by (auto intro: div_less_iff_less_mult [THEN iffD2])
  moreover have "8 * (k div 8) + k mod 8 = k" by simp
  ultimately show "bit (le_word (le_bytes n w) :: 'a word) k = bit w k"
    using k assms by (auto simp: bit_le_word nth_le_bytes bit_ucast_iff bit_drop_bit_eq add.commute)
qed

lemma le_bytes_le_word [simp]:
  assumes "length bs = n" and "8 * n \<le> LENGTH('a)"
  shows "le_bytes n (le_word bs :: 'a::len word) = bs"
proof (rule nth_equalityI)
  show "length (le_bytes n (le_word bs :: 'a word)) = length bs" using assms by simp
next
  fix i assume "i < length (le_bytes n (le_word bs :: 'a word))"
  then have i: "i < n" by simp
  show "le_bytes n (le_word bs :: 'a word) ! i = bs ! i"
  proof (rule bit_word_eqI)
    fix k assume "k < LENGTH(8)"
    then have k: "k < 8" by simp
    then have "8 * i + k < 8 * n" and "(8 * i + k) div 8 = i" and "(8 * i + k) mod 8 = k"
      using i by auto
    then show "bit (le_bytes n (le_word bs :: 'a word) ! i) k = bit (bs ! i) k"
      using i k assms by (simp add: nth_le_bytes bit_ucast_iff bit_drop_bit_eq bit_le_word add.commute)
  qed
qed

section \<open>Overwriting part of a byte array\<close>

text \<open>
  \<open>splice off bs xs\<close> is the array \<open>xs\<close> after \<open>memmove(xs + off, bs, length bs)\<close>, for a copy
  that stays inside the array.
\<close>

definition splice :: "nat \<Rightarrow> 'a list \<Rightarrow> 'a list \<Rightarrow> 'a list" where
  "splice off bs xs = take off xs @ bs @ drop (off + length bs) xs"

definition slice :: "nat \<Rightarrow> nat \<Rightarrow> 'a list \<Rightarrow> 'a list" where
  "slice off n xs = take n (drop off xs)"

lemma length_splice [simp]: "off + length bs \<le> length xs \<Longrightarrow> length (splice off bs xs) = length xs"
  by (simp add: splice_def)

lemma length_slice [simp]: "off + n \<le> length xs \<Longrightarrow> length (slice off n xs) = n"
  by (simp add: slice_def)

lemma slice_splice_same [simp]:
  "off + length bs \<le> length xs \<Longrightarrow> n = length bs \<Longrightarrow> slice off n (splice off bs xs) = bs"
  by (simp add: slice_def splice_def)

lemma nth_splice:
  assumes "off + length bs \<le> length xs" and "i < length xs"
  shows "splice off bs xs ! i = (if off \<le> i \<and> i < off + length bs then bs ! (i - off) else xs ! i)"
  using assms by (auto simp: splice_def nth_append)

lemma nth_slice: "off + n \<le> length xs \<Longrightarrow> i < n \<Longrightarrow> slice off n xs ! i = xs ! (off + i)"
  by (simp add: slice_def)

lemma slice_splice_other:
  assumes "off + length bs \<le> length xs" and "o2 + n \<le> length xs"
    and "o2 + n \<le> off \<or> off + length bs \<le> o2"
  shows "slice o2 n (splice off bs xs) = slice o2 n xs"
proof (rule nth_equalityI)
  show "length (slice o2 n (splice off bs xs)) = length (slice o2 n xs)" using assms by simp
next
  fix i assume "i < length (slice o2 n (splice off bs xs))"
  then have "i < n" using assms by simp
  then show "slice o2 n (splice off bs xs) ! i = slice o2 n xs ! i"
    using assms by (auto simp: nth_slice nth_splice)
qed

section \<open>First elements\<close>

lemma find_append: "List.find P (xs @ ys) = (case List.find P xs of Some x \<Rightarrow> Some x | None \<Rightarrow> List.find P ys)"
  by (induction xs) auto

lemma find_map: "List.find P (map f xs) = map_option f (List.find (\<lambda>x. P (f x)) xs)"
  by (induction xs) auto

lemma find_cong: "(\<And>x. x \<in> set xs \<Longrightarrow> P x = Q x) \<Longrightarrow> List.find P xs = List.find Q xs"
  by (induction xs) auto

lemma takeWhile_upt: "takeWhile (\<lambda>i. b + i < z) [0..<n] = [0..<min n (z - b)]" for b z n :: nat
proof -
  let ?a = "min n (z - b)"
  have "[0..<n] = [0..<?a] @ [?a..<n]" using upt_add_eq_append [of 0 ?a "n - ?a"] by simp
  moreover have "takeWhile (\<lambda>i. b + i < z) [?a..<n] = []"
    by (cases "?a < n") (auto simp: upt_conv_Cons)
  moreover have "takeWhile (\<lambda>i. b + i < z) ([0..<?a] @ [?a..<n]) = [0..<?a] @ takeWhile (\<lambda>i. b + i < z) [?a..<n]"
    by (rule takeWhile_append2) auto
  ultimately show ?thesis by simp
qed

section \<open>Circular doubly linked lists\<close>

text \<open>
  \<open>chain nx pv a xs b\<close>: following \<open>nx\<close> from \<open>a\<close> runs through \<open>xs\<close> and arrives at \<open>b\<close>, and
  \<open>pv\<close> runs the same way back. A ring is a chain from its head to its head.
\<close>

fun chain :: "('p \<Rightarrow> 'p) \<Rightarrow> ('p \<Rightarrow> 'p) \<Rightarrow> 'p \<Rightarrow> 'p list \<Rightarrow> 'p \<Rightarrow> bool" where
  "chain nx pv a [] b \<longleftrightarrow> nx a = b \<and> pv b = a"
| "chain nx pv a (x # xs) b \<longleftrightarrow> nx a = x \<and> pv x = a \<and> chain nx pv x xs b"

definition ring :: "('p \<Rightarrow> 'p) \<Rightarrow> ('p \<Rightarrow> 'p) \<Rightarrow> 'p \<Rightarrow> 'p list \<Rightarrow> bool" where
  "ring nx pv h xs \<longleftrightarrow> distinct (h # xs) \<and> chain nx pv h xs h"

lemma chain_append:
  "chain nx pv a (xs @ y # ys) b \<longleftrightarrow> chain nx pv a xs y \<and> chain nx pv y ys b"
  by (induction xs arbitrary: a) auto

lemma chain_cong:
  assumes "\<And>x. x \<in> insert a (set xs) \<Longrightarrow> nx x = nx' x"
    and "\<And>x. x \<in> insert b (set xs) \<Longrightarrow> pv x = pv' x"
  shows "chain nx pv a xs b = chain nx' pv' a xs b"
  using assms by (induction xs arbitrary: a) auto

lemma chain_rev: "chain nx pv a xs b \<longleftrightarrow> chain pv nx b (rev xs) a"
proof (induction xs arbitrary: a)
  case Nil
  then show ?case by auto
next
  case (Cons x xs)
  have "chain pv nx b (rev (x # xs)) a \<longleftrightarrow> chain pv nx b (rev xs) x \<and> chain pv nx x [] a"
    by (simp add: chain_append)
  then show ?case using Cons.IH by auto
qed

lemma ring_rev: "ring nx pv h xs \<longleftrightarrow> ring pv nx h (rev xs)"
  by (auto simp: ring_def chain_rev [of nx])

lemma ring_distinct: "ring nx pv h xs \<Longrightarrow> distinct xs \<and> h \<notin> set xs"
  by (simp add: ring_def)

lemma ring_empty: "ring nx pv h [] \<longleftrightarrow> nx h = h \<and> pv h = h"
  by (simp add: ring_def)

lemma ring_is_empty: "ring nx pv h xs \<Longrightarrow> nx h = h \<longleftrightarrow> xs = []"
  by (cases xs) (auto simp: ring_def)

lemma ring_first: "ring nx pv h (x # xs) \<Longrightarrow> nx h = x"
  by (simp add: ring_def)

text \<open>Unlinking an element, and inserting one behind the head: four pointer writes each.\<close>

lemma ring_insert_front:
  assumes "ring nx pv h xs" and "x \<notin> set (h # xs)"
  shows "ring (nx(x := nx h, h := x)) (pv(x := h, nx h := x)) h (x # xs)"
proof (cases xs)
  case Nil
  with assms show ?thesis by (auto simp: ring_def)
next
  case (Cons y ys)
  with assms have y: "nx h = y" and ch: "chain nx pv y ys h" and d: "distinct (h # x # y # ys)"
    by (auto simp: ring_def)
  have "chain (nx(x := nx h, h := x)) (pv(x := h, nx h := x)) y ys h"
    using ch d y by (subst chain_cong [where nx' = nx and pv' = pv]) auto
  then show ?thesis using d y by (auto simp: ring_def Cons)
qed

lemma chain_last: "chain nx pv a xs b \<Longrightarrow> pv b = last (a # xs)"
  by (induction xs arbitrary: a) auto

lemma chain_first: "chain nx pv a xs b \<Longrightarrow> nx a = hd (xs @ [b])"
  by (cases xs) auto

lemma chain_unlink:
  assumes "chain nx pv a xs x" and "chain nx pv x ys b"
    and "distinct (a # xs @ x # ys)" and "b \<notin> set (xs @ x # ys)"
  shows "chain (nx(pv x := nx x)) (pv(nx x := pv x)) a (xs @ ys) b"
  using assms
proof (induction xs arbitrary: a)
  case Nil
  show ?case
  proof (cases ys)
    case Nil2: Nil
    with Nil show ?thesis by auto
  next
    case (Cons y zs)
    with Nil have "chain nx pv y zs b" and [simp]: "pv x = a" "nx x = y" by auto
    then have "chain (nx(a := y)) (pv(y := a)) y zs b"
      using Nil.prems Cons by (subst chain_cong [where nx' = nx and pv' = pv]) auto
    then show ?thesis by (simp add: Cons fun_upd_def)
  qed
next
  case (Cons w ws)
  have "chain (nx(pv x := nx x)) (pv(nx x := pv x)) w (ws @ ys) b"
    using Cons.prems by (intro Cons.IH) auto
  moreover have "pv x \<in> set (w # ws)"
    using chain_last [of nx pv w ws x] Cons.prems(1) by (cases "ws = []") auto
  moreover have "nx x \<in> set (ys @ [b])"
    using chain_first [OF Cons.prems(2)] by (cases ys) auto
  moreover from calculation have "a \<noteq> pv x" and "w \<noteq> nx x" using Cons.prems(3,4) by auto
  then have "(nx(pv x := nx x)) a = w" and "(pv(nx x := pv x)) w = a" using Cons.prems(1) by auto
  ultimately show ?case by (simp only: append_Cons chain.simps simp_thms)
qed

lemma ring_unlink:
  assumes "ring nx pv h (xs @ x # ys)"
  shows "ring (nx(pv x := nx x)) (pv(nx x := pv x)) h (xs @ ys)"
proof -
  have "distinct (h # xs @ ys)" and "chain nx pv h xs x" and "chain nx pv x ys h"
    and "distinct (h # xs @ x # ys)" and "h \<notin> set (xs @ x # ys)"
    using assms by (auto simp: ring_def chain_append)
  then show ?thesis unfolding ring_def by (blast intro: chain_unlink)
qed

lemma ring_insert_back:
  assumes "ring nx pv h xs" and "x \<notin> set (h # xs)"
  shows "ring (nx(pv h := x, x := h)) (pv(h := x, x := pv h)) h (xs @ [x])"
proof -
  have "ring pv nx h (rev xs)" by (rule ring_rev [THEN iffD1, OF assms(1)])
  then have "ring (pv(x := pv h, h := x)) (nx(x := h, pv h := x)) h (x # rev xs)"
    using assms(2) by (intro ring_insert_front) auto
  then have "ring (nx(x := h, pv h := x)) (pv(x := pv h, h := x)) h (xs @ [x])"
    by (subst ring_rev) simp
  moreover have "pv h \<noteq> x" "h \<noteq> x"
    using assms chain_last [of nx pv h xs h] by (auto simp: ring_def split: if_splits)
  moreover from this have "nx(x := h, pv h := x) = nx(pv h := x, x := h)"
    and "pv(x := pv h, h := x) = pv(h := x, x := pv h)"
    by (auto simp: fun_upd_def)
  ultimately show ?thesis by simp
qed

lemma ring_cong:
  assumes "\<And>x. x \<in> insert h (set xs) \<Longrightarrow> nx x = nx' x \<and> pv x = pv' x"
  shows "ring nx pv h xs = ring nx' pv' h xs"
  using chain_cong [of h xs nx nx' h pv pv'] assms by (simp add: ring_def)

end
