(* ===== verification/Machine.thy ===== *)
theory Machine
  imports Prelude
begin

text \<open>
  The machine state every kernel routine runs in (\<open>inc/proc.h\<close>, \<open>inc/spinlock.h\<close>,
  \<open>inc/sleeplock.h\<close>): the processor executing the routine, the process table, and the lock
  objects. Objects that the C code reaches through pointers are named by the datatypes \<open>lock\<close>,
  \<open>slock\<close> and \<open>chan\<close>, one constructor per object or array of objects, so that two names are
  equal exactly when the two pointers are. Components extend the record \<open>kstate\<close> with their own
  global variables.
\<close>

section \<open>Objects named by address\<close>

datatype slock = Sbuf nat | Sinode nat

datatype lock = Lkmem | Lbcache | Llog | Licache | Lftable | Lptable | Lsd | Lcons | Lsleep slock

datatype chan = Cslock slock | Clog | Cbuf nat | Cproc nat | Cinput

section \<open>Locks\<close>

record spinlock =
  lk_locked :: bool
  lk_name :: string
  lk_cpu :: "nat option"

text \<open>The spin lock inside a sleep lock is the object \<open>Lsleep\<close> of the sleep lock's name.\<close>

record sleeplock =
  sl_locked :: bool
  sl_pid :: int

section \<open>Processes\<close>

datatype procstate = UNUSED | EMBRYO | SLEEPING | RUNNABLE | RUNNING | ZOMBIE

definition NCPU :: nat where "NCPU = 4"
definition NPROC :: nat where "NPROC = 64"
definition NOFILE :: nat where "NOFILE = 16"
definition KSTACKSIZE :: u64 where "KSTACKSIZE = 4096"

declare NCPU_def [const_defs] NPROC_def [const_defs] NOFILE_def [const_defs]
  KSTACKSIZE_def [const_defs]

record proc =
  p_sz :: u64
  p_pgdir :: u64
  p_kstack :: u64
  p_state :: procstate
  p_pid :: int
  p_parent :: "nat option"
  p_tf :: u64
  p_context :: u64
  p_chan :: "chan option"
  p_killed :: bool
  p_name :: string
  p_ofile :: "nat option list"
  p_cwd :: "nat option"
  p_priority :: int
  p_cpus_allowed :: u32

record kstate =
  this_cpu :: nat
  cpu_proc :: "nat \<Rightarrow> nat option"
  ttbr0 :: "nat \<Rightarrow> u64"
  ptable :: "nat \<Rightarrow> proc"
  initproc :: "nat option"
  nextpid :: int
  locks :: "lock \<Rightarrow> spinlock"
  slocks :: "slock \<Rightarrow> sleeplock"

text \<open>\<open>thiscpu->proc\<close>: the index in the process table, or \<open>None\<close> for a null pointer.\<close>

definition thisproc :: "'z kstate_scheme \<Rightarrow> nat option" where
  "thisproc s = cpu_proc s (this_cpu s)"

text \<open>Going through a pointer that may be null: the null pointer faults.\<close>

definition deref :: "'p option \<Rightarrow> ('p \<Rightarrow> ('s, 'a) kop) \<Rightarrow> ('s, 'a) kop" where
  "deref p f = (case p of None \<Rightarrow> stop Fault | Some x \<Rightarrow> f x)"

definition set_proc :: "nat \<Rightarrow> (proc \<Rightarrow> proc) \<Rightarrow> ('z kstate_scheme, unit) kop" where
  "set_proc p f = upd (\<lambda>s. s\<lparr>ptable := (ptable s)(p := f (ptable s p))\<rparr>)"

lemma deref_simps [kop_simps]: "deref None f = stop Fault" "deref (Some x) f = f x"
  by (simp_all add: deref_def)

lemma set_proc_run [kop_simps]:
  "set_proc p f s = Inr ((), s\<lparr>ptable := (ptable s)(p := f (ptable s p))\<rparr>)"
  by (simp add: set_proc_def kop_simps)

section \<open>What scheduling leaves alone\<close>

text \<open>
  Sleeping and waking change only the state and the channel of processes. \<open>kframe s t\<close> says that
  \<open>t\<close> differs from \<open>s\<close> in nothing else of the machine state, sleep locks apart.
\<close>

definition proc_rest :: "proc \<Rightarrow> proc" where
  "proc_rest p = p\<lparr>p_state := UNUSED, p_chan := None\<rparr>"

definition kframe :: "'z kstate_scheme \<Rightarrow> 'z kstate_scheme \<Rightarrow> bool" where
  "kframe s t \<longleftrightarrow> this_cpu t = this_cpu s \<and> cpu_proc t = cpu_proc s \<and> ttbr0 t = ttbr0 s \<and>
     initproc t = initproc s \<and> nextpid t = nextpid s \<and> locks t = locks s \<and>
     (\<forall>q. proc_rest (ptable t q) = proc_rest (ptable s q)) \<and>
     (\<forall>q. p_state (ptable s q) = RUNNING \<longrightarrow> p_state (ptable t q) = RUNNING)"

lemma kframe_refl [simp]: "kframe s s"
  by (simp add: kframe_def)

lemma kframe_trans [trans]: "kframe s t \<Longrightarrow> kframe t u \<Longrightarrow> kframe s u"
  by (simp add: kframe_def)

lemma kframe_thisproc: "kframe s t \<Longrightarrow> thisproc t = thisproc s"
  by (simp add: kframe_def thisproc_def)

lemma kframe_pid: "kframe s t \<Longrightarrow> p_pid (ptable t q) = p_pid (ptable s q)"
proof -
  assume "kframe s t"
  then have "proc_rest (ptable t q) = proc_rest (ptable s q)" by (simp add: kframe_def)
  then have "p_pid (proc_rest (ptable t q)) = p_pid (proc_rest (ptable s q))" by simp
  then show ?thesis by (simp add: proc_rest_def)
qed

lemma kframe_pgdir: "kframe s t \<Longrightarrow> p_pgdir (ptable t q) = p_pgdir (ptable s q)"
proof -
  assume "kframe s t"
  then have "proc_rest (ptable t q) = proc_rest (ptable s q)" by (simp add: kframe_def)
  then have "p_pgdir (proc_rest (ptable t q)) = p_pgdir (proc_rest (ptable s q))" by simp
  then show ?thesis by (simp add: proc_rest_def)
qed

text \<open>The running process: what kernel code on behalf of a process may rely on.\<close>

definition running :: "'z kstate_scheme \<Rightarrow> nat \<Rightarrow> bool" where
  "running s p \<longleftrightarrow> thisproc s = Some p \<and> p_state (ptable s p) = RUNNING \<and> p_pgdir (ptable s p) \<noteq> 0 \<and>
     p < NPROC \<and> ttbr0 s (this_cpu s) = p_pgdir (ptable s p) - 0xFFFF000000000000"

lemma kframe_running: "kframe s t \<Longrightarrow> running s p \<Longrightarrow> running t p"
  by (simp add: running_def kframe_thisproc kframe_pgdir) (simp add: kframe_def)

text \<open>Every spin lock is free: the state between two kernel routines on a single CPU.\<close>

definition lk_free :: "spinlock \<Rightarrow> bool" where
  "lk_free l \<longleftrightarrow> \<not> lk_locked l \<and> lk_cpu l = None"

definition spin_free :: "'z kstate_scheme \<Rightarrow> bool" where
  "spin_free s \<longleftrightarrow> (\<forall>l. lk_free (locks s l))"

lemma kframe_spin_free: "kframe s t \<Longrightarrow> spin_free t = spin_free s"
  by (simp add: kframe_def spin_free_def)

lemma lk_free_reset [lock_simps]: "lk_free l \<Longrightarrow> l\<lparr>lk_cpu := None, lk_locked := False\<rparr> = l"
  by (cases l) (simp add: lk_free_def)

lemma spin_freeD [lock_simps]:
  "spin_free s \<Longrightarrow> lk_locked (locks s l) = False"
  "spin_free s \<Longrightarrow> lk_cpu (locks s l) = None"
  "spin_free s \<Longrightarrow> (locks s l)\<lparr>lk_cpu := None, lk_locked := False\<rparr> = locks s l"
  by (auto simp: spin_free_def lk_free_def lk_free_reset)

end
