(* ===== verification/Spinlock.thy ===== *)
theory Spinlock
  imports Machine
begin

text \<open>
  \<open>kern/spinlock.c\<close>. First the routines as they act on one CPU; then the test-and-set protocol
  as interleaved steps of several CPUs, with mutual exclusion as an invariant of all runs.
\<close>

section \<open>The routines\<close>

definition holding :: "lock \<Rightarrow> 'z kstate_scheme \<Rightarrow> bool" where
  "holding lk s \<longleftrightarrow> lk_locked (locks s lk) \<and> lk_cpu (locks s lk) = Some (this_cpu s)"

definition set_lock :: "lock \<Rightarrow> (spinlock \<Rightarrow> spinlock) \<Rightarrow> ('z kstate_scheme, unit) kop" where
  "set_lock lk f = upd (\<lambda>s. s\<lparr>locks := (locks s)(lk := f (locks s lk))\<rparr>)"

definition initlock :: "lock \<Rightarrow> string \<Rightarrow> ('z kstate_scheme, unit) kop" where
  "initlock lk nm =
     set_lock lk (\<lambda>l. l\<lparr>lk_name := nm, lk_locked := False, lk_cpu := None\<rparr>)"

definition acquire :: "lock \<Rightarrow> ('z kstate_scheme, unit) kop" where
  "acquire lk =
     bind (get (holding lk)) (\<lambda>h.
     if h then panic ''acquire: spinlock already held''
     else bind (get (\<lambda>s. lk_locked (locks s lk))) (\<lambda>l.
     if l then stop Spin
     else seq (set_lock lk (\<lambda>k. k\<lparr>lk_locked := True\<rparr>))
              (\<lambda>s. set_lock lk (\<lambda>k. k\<lparr>lk_cpu := Some (this_cpu s)\<rparr>) s)))"

definition release :: "lock \<Rightarrow> ('z kstate_scheme, unit) kop" where
  "release lk =
     bind (get (holding lk)) (\<lambda>h.
     if \<not> h then panic ''release: not locked''
     else seq (set_lock lk (\<lambda>k. k\<lparr>lk_cpu := None\<rparr>))
              (set_lock lk (\<lambda>k. k\<lparr>lk_locked := False\<rparr>)))"

lemma acquire_run [lock_simps]:
  "\<not> lk_locked (locks s lk) \<Longrightarrow>
   acquire lk s = Inr ((), s\<lparr>locks := (locks s)(lk :=
     (locks s lk)\<lparr>lk_locked := True, lk_cpu := Some (this_cpu s)\<rparr>)\<rparr>)"
  by (simp add: acquire_def holding_def set_lock_def kop_simps)

lemma release_run [lock_simps]:
  "lk_locked (locks s lk) \<Longrightarrow> lk_cpu (locks s lk) = Some (this_cpu s) \<Longrightarrow>
   release lk s = Inr ((), s\<lparr>locks := (locks s)(lk :=
     (locks s lk)\<lparr>lk_cpu := None, lk_locked := False\<rparr>)\<rparr>)"
  by (simp add: release_def holding_def set_lock_def kop_simps)

lemma holding_run [lock_simps]:
  "holding lk s \<longleftrightarrow> lk_locked (locks s lk) \<and> lk_cpu (locks s lk) = Some (this_cpu s)"
  by (simp add: holding_def)

lemma acquire_held: "holding lk s \<Longrightarrow> acquire lk s = Inl (Panic ''acquire: spinlock already held'')"
  by (simp add: acquire_def kop_simps)

lemma release_not_held: "\<not> holding lk s \<Longrightarrow> release lk s = Inl (Panic ''release: not locked'')"
  by (simp add: release_def kop_simps)

lemma acquire_other_cpu:
  "lk_locked (locks s lk) \<Longrightarrow> lk_cpu (locks s lk) \<noteq> Some (this_cpu s) \<Longrightarrow> acquire lk s = Inl Spin"
  by (simp add: acquire_def holding_def kop_simps)

section \<open>Interleaving on several CPUs\<close>

text \<open>
  One lock and any number of CPUs. Each CPU runs \<open>acquire\<close> and \<open>release\<close> in the steps the code
  takes: the check of \<open>holding\<close>, the spinning read of \<open>locked\<close>, the atomic test-and-set, the
  write of \<open>cpu\<close>, the critical section, the clearing of \<open>cpu\<close>, the atomic clear of \<open>locked\<close>.
  Between two steps of one CPU any other CPU may take a step.
\<close>

datatype lpc = Out | Checked | TAS | Taken | Crit | Cleared

record mpsys =
  mp_lock :: spinlock
  mp_pc :: "nat \<Rightarrow> lpc"

definition mp_init :: mpsys where
  "mp_init = \<lparr>mp_lock = \<lparr>lk_locked = False, lk_name = [], lk_cpu = None\<rparr>, mp_pc = (\<lambda>_. Out)\<rparr>"

definition mp_holding :: "mpsys \<Rightarrow> nat \<Rightarrow> bool" where
  "mp_holding m c \<longleftrightarrow> lk_locked (mp_lock m) \<and> lk_cpu (mp_lock m) = Some c"

inductive mp_step :: "mpsys \<Rightarrow> mpsys \<Rightarrow> bool" where
  check: "mp_pc m c = Out \<Longrightarrow> \<not> mp_holding m c \<Longrightarrow>
     mp_step m (m\<lparr>mp_pc := (mp_pc m)(c := Checked)\<rparr>)"
| spin: "mp_pc m c = Checked \<Longrightarrow> lk_locked (mp_lock m) \<Longrightarrow> mp_step m m"
| read_free: "mp_pc m c = Checked \<Longrightarrow> \<not> lk_locked (mp_lock m) \<Longrightarrow>
     mp_step m (m\<lparr>mp_pc := (mp_pc m)(c := TAS)\<rparr>)"
| tas_lost: "mp_pc m c = TAS \<Longrightarrow> lk_locked (mp_lock m) \<Longrightarrow>
     mp_step m (m\<lparr>mp_pc := (mp_pc m)(c := Checked)\<rparr>)"
| tas_won: "mp_pc m c = TAS \<Longrightarrow> \<not> lk_locked (mp_lock m) \<Longrightarrow>
     mp_step m (m\<lparr>mp_lock := (mp_lock m)\<lparr>lk_locked := True\<rparr>, mp_pc := (mp_pc m)(c := Taken)\<rparr>)"
| set_cpu: "mp_pc m c = Taken \<Longrightarrow>
     mp_step m (m\<lparr>mp_lock := (mp_lock m)\<lparr>lk_cpu := Some c\<rparr>, mp_pc := (mp_pc m)(c := Crit)\<rparr>)"
| clear_cpu: "mp_pc m c = Crit \<Longrightarrow> mp_holding m c \<Longrightarrow>
     mp_step m (m\<lparr>mp_lock := (mp_lock m)\<lparr>lk_cpu := None\<rparr>, mp_pc := (mp_pc m)(c := Cleared)\<rparr>)"
| clear_locked: "mp_pc m c = Cleared \<Longrightarrow>
     mp_step m (m\<lparr>mp_lock := (mp_lock m)\<lparr>lk_locked := False\<rparr>, mp_pc := (mp_pc m)(c := Out)\<rparr>)"

inductive mp_reach :: "mpsys \<Rightarrow> bool" where
  start: "mp_reach mp_init"
| step: "mp_reach m \<Longrightarrow> mp_step m m' \<Longrightarrow> mp_reach m'"

text \<open>
  The CPUs past the test-and-set are at most one, the lock word says whether there is one, and the
  recorded owner is the CPU in its critical section.
\<close>

definition inside :: "mpsys \<Rightarrow> nat \<Rightarrow> bool" where
  "inside m c \<longleftrightarrow> mp_pc m c \<in> {Taken, Crit, Cleared}"

definition mp_inv :: "mpsys \<Rightarrow> bool" where
  "mp_inv m \<longleftrightarrow>
     (\<forall>c d. inside m c \<longrightarrow> inside m d \<longrightarrow> c = d) \<and>
     (lk_locked (mp_lock m) \<longleftrightarrow> (\<exists>c. inside m c)) \<and>
     (\<forall>c. lk_cpu (mp_lock m) = Some c \<longleftrightarrow> mp_pc m c = Crit)"

lemma mp_inv_init: "mp_inv mp_init"
  by (simp add: mp_inv_def mp_init_def inside_def)

lemma mp_inv_pc:
  assumes "mp_inv m" and "\<not> inside m c" and "pc \<in> {Out, Checked, TAS}"
  shows "mp_inv (m\<lparr>mp_pc := (mp_pc m)(c := pc)\<rparr>)"
proof -
  have "inside (m\<lparr>mp_pc := (mp_pc m)(c := pc)\<rparr>) d \<longleftrightarrow> inside m d" for d
    using assms(2,3) by (auto simp: inside_def)
  moreover have "mp_pc m c \<noteq> Crit" using assms(2) by (auto simp: inside_def)
  ultimately show ?thesis using assms(1,3) by (auto simp: mp_inv_def)
qed

lemma mp_step_inv: "mp_step m m' \<Longrightarrow> mp_inv m \<Longrightarrow> mp_inv m'"
proof (induction rule: mp_step.induct)
  case (tas_won m c)
  then show ?case by (auto simp: mp_inv_def inside_def split: if_splits)
next
  case (set_cpu m c)
  then show ?case by (auto simp: mp_inv_def inside_def split: if_splits)
next
  case (clear_cpu m c)
  then show ?case by (auto simp: mp_inv_def inside_def split: if_splits)
next
  case (clear_locked m c)
  then have "\<And>d. inside m d \<Longrightarrow> d = c" by (auto simp: mp_inv_def inside_def)
  with clear_locked show ?case
    by (auto simp: mp_inv_def inside_def split: if_splits)
qed (auto intro!: mp_inv_pc simp: inside_def)

lemma mp_reach_inv: "mp_reach m \<Longrightarrow> mp_inv m"
  by (induction rule: mp_reach.induct) (auto intro: mp_inv_init mp_step_inv)

section \<open>Properties\<close>

text \<open>
  \<open>acquire\<close> and \<open>release\<close> as sequential routines are runs of these steps by one CPU with no other
  CPU in between.
\<close>

lemma acquire_is_run:
  assumes "acquire lk s = Inr ((), t)"
  shows "mp_step\<^sup>*\<^sup>* \<lparr>mp_lock = locks s lk, mp_pc = pc(this_cpu s := Out)\<rparr>
     \<lparr>mp_lock = locks t lk, mp_pc = pc(this_cpu s := Crit)\<rparr>"
proof -
  let ?c = "this_cpu s" and ?l = "locks s lk"
  have h: "\<not> lk_locked ?l" "\<not> holding lk s"
    using assms by (auto simp: acquire_def kop_simps holding_def bind_def get_def stop_def split: if_splits)
  then have t: "locks t lk = ?l\<lparr>lk_locked := True, lk_cpu := Some ?c\<rparr>" using assms by (auto simp: acquire_run lk_free_def holding_def
        acquire_def kop_simps set_lock_def)
  let ?m0 = "\<lparr>mp_lock = ?l, mp_pc = pc(?c := Out)\<rparr>"
  have 1: "mp_step ?m0 \<lparr>mp_lock = ?l, mp_pc = pc(?c := Checked)\<rparr>"
    using mp_step.check [of ?m0 ?c] h by (simp add: mp_holding_def)
  have 2: "mp_step \<lparr>mp_lock = ?l, mp_pc = pc(?c := Checked)\<rparr> \<lparr>mp_lock = ?l, mp_pc = pc(?c := TAS)\<rparr>"
    using mp_step.read_free [of "\<lparr>mp_lock = ?l, mp_pc = pc(?c := Checked)\<rparr>" ?c] h by simp
  have 3: "mp_step \<lparr>mp_lock = ?l, mp_pc = pc(?c := TAS)\<rparr> \<lparr>mp_lock = ?l\<lparr>lk_locked := True\<rparr>, mp_pc = pc(?c := Taken)\<rparr>"
    using mp_step.tas_won [of "\<lparr>mp_lock = ?l, mp_pc = pc(?c := TAS)\<rparr>" ?c] h by simp
  have 4: "mp_step \<lparr>mp_lock = ?l\<lparr>lk_locked := True\<rparr>, mp_pc = pc(?c := Taken)\<rparr> \<lparr>mp_lock = locks t lk, mp_pc = pc(?c := Crit)\<rparr>"
    using mp_step.set_cpu [of "\<lparr>mp_lock = ?l\<lparr>lk_locked := True\<rparr>, mp_pc = pc(?c := Taken)\<rparr>" ?c] by (simp add: t)
  from 1 2 3 4 show ?thesis by (meson converse_rtranclp_into_rtranclp rtranclp.rtrancl_refl)
qed

text \<open>
  C3. Mutual exclusion: in every state that any number of CPUs running \<open>acquire\<close> and \<open>release\<close> on
  one lock can reach, at most one CPU is past its test-and-set and not yet past its clear, and
  \<open>holding\<close> is true exactly for the CPU in its critical section.
\<close>

theorem spinlock_mutual_exclusion:
  assumes "mp_reach m"
  shows "(\<forall>c d. inside m c \<and> inside m d \<longrightarrow> c = d) \<and> (\<forall>c. mp_holding m c \<longleftrightarrow> mp_pc m c = Crit)"
proof -
  have inv: "mp_inv m" by (rule mp_reach_inv [OF assms])
  have "lk_cpu (mp_lock m) = Some c \<longleftrightarrow> mp_pc m c = Crit" for c using inv by (simp add: mp_inv_def)
  moreover have "lk_locked (mp_lock m)" if "mp_pc m c = Crit" for c
    using inv that unfolding mp_inv_def inside_def by blast
  ultimately show ?thesis using inv by (auto simp: mp_holding_def mp_inv_def)
qed

lemma mp_reach_taken:
  "mp_reach (mp_init\<lparr>mp_lock := (mp_lock mp_init)\<lparr>lk_locked := True\<rparr>, mp_pc := (mp_pc mp_init)(0 := Taken)\<rparr>)"
proof -
  have "mp_reach (mp_init\<lparr>mp_pc := (mp_pc mp_init)(0 := Checked)\<rparr>)"
    by (rule mp_reach.step [OF mp_reach.start], rule mp_step.check) (simp_all add: mp_init_def mp_holding_def)
  then have "mp_reach (mp_init\<lparr>mp_pc := (mp_pc mp_init)(0 := TAS)\<rparr>)"
    using mp_reach.step mp_step.read_free [of "mp_init\<lparr>mp_pc := (mp_pc mp_init)(0 := Checked)\<rparr>" 0]
    by (fastforce simp: mp_init_def)
  then show ?thesis
    using mp_reach.step mp_step.tas_won [of "mp_init\<lparr>mp_pc := (mp_pc mp_init)(0 := TAS)\<rparr>" 0]
    by (fastforce simp: mp_init_def)
qed

theorem spinlock_mutual_exclusion_witness:
  "\<exists>m. mp_reach m \<and> inside m 0 \<and> \<not> inside m 1 \<and> \<not> mp_holding m 0"
proof -
  let ?m = "mp_init\<lparr>mp_lock := (mp_lock mp_init)\<lparr>lk_locked := True\<rparr>, mp_pc := (mp_pc mp_init)(0 := Taken)\<rparr>"
  have i: "inside ?m 0" by (simp add: inside_def)
  have "\<not> inside ?m 1" using spinlock_mutual_exclusion [OF mp_reach_taken] i by (metis zero_neq_one)
  moreover have "\<not> mp_holding ?m 0" using spinlock_mutual_exclusion [OF mp_reach_taken] by simp
  ultimately show ?thesis using mp_reach_taken i by blast
qed

end
