(* ===== verification/Sched.thy ===== *)
theory Sched
  imports Spinlock
begin

text \<open>
  Scheduling and sleeping of \<open>kern/proc.c\<close> (with \<open>uvm_switch\<close> of \<open>kern/vm.c\<close> and \<open>timer\<close> of
  \<open>kern/timer.c\<close>). A context switch crosses from one C function into the middle of another, so
  each routine that calls \<open>swtch\<close> is split at that call: \<open>scheduler_dispatch\<close> and
  \<open>scheduler_return\<close>, \<open>sleep_enter\<close> and \<open>sleep_resume\<close>, \<open>yield_enter\<close> and \<open>yield_resume\<close>.
\<close>

section \<open>Choosing a process\<close>

definition runnable_on :: "nat \<Rightarrow> int \<Rightarrow> proc \<Rightarrow> bool" where
  "runnable_on c pri p \<longleftrightarrow>
     p_state p = RUNNABLE \<and> p_priority p = pri \<and> signed_drop_bit c (p_cpus_allowed p) AND 1 \<noteq> 0"

definition scheduler_scan :: "nat \<Rightarrow> int \<Rightarrow> (nat \<Rightarrow> proc) \<Rightarrow> nat option" where
  "scheduler_scan c pri pt = List.find (\<lambda>p. runnable_on c pri (pt p)) [0..<NPROC]"

definition scheduler_select :: "nat \<Rightarrow> (nat \<Rightarrow> proc) \<Rightarrow> nat option" where
  "scheduler_select c pt =
     (case scheduler_scan c 1 pt of Some p \<Rightarrow> Some p | None \<Rightarrow> scheduler_scan c 0 pt)"

definition uvm_switch :: "nat \<Rightarrow> ('z kstate_scheme, unit) kop" where
  "uvm_switch p =
     bind (get (\<lambda>s. p_pgdir (ptable s p))) (\<lambda>pg.
     if pg = 0 then panic ''uvm_switch: no pgdir''
     else upd (\<lambda>s. s\<lparr>ttbr0 := (ttbr0 s)(this_cpu s := pg - 0xFFFF000000000000)\<rparr>))"

definition set_cpu_proc :: "nat option \<Rightarrow> ('z kstate_scheme, unit) kop" where
  "set_cpu_proc p = upd (\<lambda>s. s\<lparr>cpu_proc := (cpu_proc s)(this_cpu s := p)\<rparr>)"

text \<open>Handing this CPU to process \<open>p\<close>: the body of the scheduler's inner loop up to \<open>swtch\<close>.\<close>

definition dispatch_to :: "nat \<Rightarrow> ('z kstate_scheme, unit) kop" where
  "dispatch_to p =
     seq (set_cpu_proc (Some p))
     (seq (uvm_switch p)
     (set_proc p (\<lambda>q. q\<lparr>p_state := RUNNING\<rparr>)))"

text \<open>One round of the scheduler's loop, up to the switch into the chosen process.\<close>

definition scheduler_dispatch :: "('z kstate_scheme, nat option) kop" where
  "scheduler_dispatch =
     seq (acquire Lptable)
     (bind (get (\<lambda>s. scheduler_select (this_cpu s) (ptable s))) (\<lambda>sel.
      case sel of
        None \<Rightarrow> seq (release Lptable) (ret None)
      | Some p \<Rightarrow> seq (dispatch_to p) (ret (Some p))))"

text \<open>The rest of the round, when the process has switched back.\<close>

definition scheduler_return :: "('z kstate_scheme, unit) kop" where
  "scheduler_return = seq (set_cpu_proc None) (release Lptable)"

definition sched :: "('z kstate_scheme, unit) kop" where
  "sched =
     bind (get thisproc) (\<lambda>p.
     bind (get (holding Lptable)) (\<lambda>h.
     if \<not> h then panic ''sched: not holding ptable lock''
     else deref p (\<lambda>p. bind (get (\<lambda>s. p_state (ptable s p))) (\<lambda>st.
     if st = RUNNING then panic ''sched: process running''
     else (\<lambda>s. stop (Switch s) s)))))"

text \<open>Code that continues in another context once \<open>m\<close> has switched away.\<close>

definition after_switch :: "('s, 'a) kop \<Rightarrow> ('s, 'b) kop \<Rightarrow> ('s, 'b) kop" where
  "after_switch m k = (\<lambda>s. case m s of
     Inl e \<Rightarrow> (case e of Switch s' \<Rightarrow> k s' | _ \<Rightarrow> Inl e) | Inr r \<Rightarrow> Inl Diverge)"

lemma after_switch_run [kop_simps]: "m s = Inl (Switch s') \<Longrightarrow> after_switch m k s = k s'"
  by (simp add: after_switch_def)

section \<open>Sleeping and waking\<close>

definition wakeup1 :: "chan \<Rightarrow> ('z kstate_scheme, unit) kop" where
  "wakeup1 ch = upd (\<lambda>s. s\<lparr>ptable := fold (\<lambda>p pt.
       if p_state (pt p) = SLEEPING \<and> p_chan (pt p) = Some ch
       then pt(p := (pt p)\<lparr>p_state := RUNNABLE\<rparr>) else pt) [0..<NPROC] (ptable s)\<rparr>)"

definition set_slock :: "slock \<Rightarrow> (sleeplock \<Rightarrow> sleeplock) \<Rightarrow> ('z kstate_scheme, unit) kop" where
  "set_slock sl f = upd (\<lambda>s. s\<lparr>slocks := (slocks s)(sl := f (slocks s sl))\<rparr>)"

text \<open>
  The straight-line stretches of the routines that sleep, wake, and release the CPU are lists of
  actions, in the order of the statements. Run one after the other they are the routine as its
  caller sees it; in \<open>Sleeplock\<close> the actions of several CPUs interleave. \<open>p\<close> is the routine's
  local variable \<open>p = thiscpu->proc\<close>; the two writes to \<open>p->chan\<close> and \<open>p->state\<close>, which a CPU does
  with the process table locked, are one action.
\<close>

datatype act =
    Must_hold lock
  | Acquire lock
  | Release lock
  | Fall_asleep "nat option" chan
  | Clear_chan "nat option"
  | Set_runnable "nat option"
  | Wakeup1 chan
  | Clear_cpu_proc
  | Take_slock slock
  | Set_slock_pid slock
  | Clear_slock slock
  | Clear_slock_pid slock

primrec act_kop :: "act \<Rightarrow> ('z kstate_scheme, unit) kop" where
  "act_kop (Must_hold lk) =
     bind (get (holding lk)) (\<lambda>h. if \<not> h then panic ''sleep: no lock held'' else ret ())"
| "act_kop (Acquire lk) = acquire lk"
| "act_kop (Release lk) = release lk"
| "act_kop (Fall_asleep p ch) = deref p (\<lambda>p. set_proc p (\<lambda>q. q\<lparr>p_chan := Some ch, p_state := SLEEPING\<rparr>))"
| "act_kop (Clear_chan p) = deref p (\<lambda>p. set_proc p (\<lambda>q. q\<lparr>p_chan := None\<rparr>))"
| "act_kop (Set_runnable p) = deref p (\<lambda>p. set_proc p (\<lambda>q. q\<lparr>p_state := RUNNABLE\<rparr>))"
| "act_kop (Wakeup1 ch) = wakeup1 ch"
| "act_kop Clear_cpu_proc = set_cpu_proc None"
| "act_kop (Take_slock sl) = set_slock sl (\<lambda>k. k\<lparr>sl_locked := True\<rparr>)"
| "act_kop (Set_slock_pid sl) = bind (get thisproc) (\<lambda>p. deref p (\<lambda>p.
     (\<lambda>s. set_slock sl (\<lambda>k. k\<lparr>sl_pid := p_pid (ptable s p)\<rparr>) s)))"
| "act_kop (Clear_slock sl) = set_slock sl (\<lambda>k. k\<lparr>sl_locked := False\<rparr>)"
| "act_kop (Clear_slock_pid sl) = set_slock sl (\<lambda>k. k\<lparr>sl_pid := 0\<rparr>)"

primrec acts_kop :: "act list \<Rightarrow> ('z kstate_scheme, unit) kop" where
  "acts_kop [] = ret ()"
| "acts_kop (a # as) = seq (act_kop a) (acts_kop as)"

definition wakeup_acts :: "chan \<Rightarrow> act list" where
  "wakeup_acts ch = [Acquire Lptable, Wakeup1 ch, Release Lptable]"

definition wakeup :: "chan \<Rightarrow> ('z kstate_scheme, unit) kop" where
  "wakeup ch = acts_kop (wakeup_acts ch)"

text \<open>\<open>sleep\<close> up to its call of \<open>sched\<close>, and from there to its end.\<close>

definition sleep_enter_acts :: "nat option \<Rightarrow> chan \<Rightarrow> lock \<Rightarrow> act list" where
  "sleep_enter_acts p ch lk =
     Must_hold lk # (if lk \<noteq> Lptable then [Acquire Lptable, Release lk] else []) @ [Fall_asleep p ch]"

definition sleep_enter :: "chan \<Rightarrow> lock \<Rightarrow> ('z kstate_scheme, unit) kop" where
  "sleep_enter ch lk = bind (get thisproc) (\<lambda>p. acts_kop (sleep_enter_acts p ch lk))"

definition sleep_resume_acts :: "nat option \<Rightarrow> lock \<Rightarrow> act list" where
  "sleep_resume_acts p lk =
     Clear_chan p # (if lk \<noteq> Lptable then [Release Lptable, Acquire lk] else [])"

definition sleep_resume :: "lock \<Rightarrow> ('z kstate_scheme, unit) kop" where
  "sleep_resume lk = bind (get thisproc) (\<lambda>p. acts_kop (sleep_resume_acts p lk))"

definition sleep :: "chan \<Rightarrow> lock \<Rightarrow> ('z kstate_scheme, unit) kop" where
  "sleep ch lk = seq (sleep_enter ch lk) (seq sched (sleep_resume lk))"

definition yield_enter_acts :: "nat option \<Rightarrow> act list" where
  "yield_enter_acts p = [Acquire Lptable, Set_runnable p]"

definition yield_enter :: "('z kstate_scheme, unit) kop" where
  "yield_enter = bind (get thisproc) (\<lambda>p. acts_kop (yield_enter_acts p))"

definition yield_resume_acts :: "act list" where
  "yield_resume_acts = [Release Lptable]"

definition yield_resume :: "('z kstate_scheme, unit) kop" where
  "yield_resume = acts_kop yield_resume_acts"

definition yield :: "('z kstate_scheme, unit) kop" where
  "yield = seq yield_enter (seq sched yield_resume)"

text \<open>The same routines with the actions spelled out.\<close>

lemma wakeup_eq: "wakeup ch = seq (acquire Lptable) (seq (wakeup1 ch) (release Lptable))"
  by (simp add: wakeup_def wakeup_acts_def bind_ret_right)

lemma sleep_enter_eq: "sleep_enter ch lk =
     bind (get thisproc) (\<lambda>p.
     bind (get (holding lk)) (\<lambda>h.
     if \<not> h then panic ''sleep: no lock held''
     else seq (if lk \<noteq> Lptable then seq (acquire Lptable) (release lk) else ret ())
          (deref p (\<lambda>p. set_proc p (\<lambda>q. q\<lparr>p_chan := Some ch, p_state := SLEEPING\<rparr>)))))"
  by (auto simp: sleep_enter_def sleep_enter_acts_def fun_eq_iff bind_def get_def ret_def stop_def
      split: sum.splits prod.splits)

lemma sleep_resume_eq: "sleep_resume lk =
     bind (get thisproc) (\<lambda>p.
     seq (deref p (\<lambda>p. set_proc p (\<lambda>q. q\<lparr>p_chan := None\<rparr>)))
         (if lk \<noteq> Lptable then seq (release Lptable) (acquire lk) else ret ()))"
  by (simp add: sleep_resume_def sleep_resume_acts_def bind_ret_right)

lemma yield_enter_eq: "yield_enter =
     bind (get thisproc) (\<lambda>p.
     seq (acquire Lptable)
     (deref p (\<lambda>p. set_proc p (\<lambda>q. q\<lparr>p_state := RUNNABLE\<rparr>))))"
  by (simp add: yield_enter_def yield_enter_acts_def bind_ret_right)

lemma yield_resume_eq: "yield_resume = release Lptable"
  by (simp add: yield_resume_def yield_resume_acts_def bind_ret_right)

section \<open>Priorities and CPU masks\<close>

definition drop_priority :: "('z kstate_scheme, unit) kop" where
  "drop_priority =
     bind (get thisproc) (\<lambda>p.
     seq (acquire Lptable)
     (seq (deref p (\<lambda>p. set_proc p (\<lambda>q.
        if p_priority q > 0 then q\<lparr>p_priority := p_priority q - 1\<rparr> else q)))
     (release Lptable)))"

definition raise_priority :: "('z kstate_scheme, unit) kop" where
  "raise_priority =
     bind (get thisproc) (\<lambda>p.
     seq (acquire Lptable)
     (seq (deref p (\<lambda>p. set_proc p (\<lambda>q.
        if p_priority q < 1 then q\<lparr>p_priority := p_priority q + 1\<rparr> else q)))
     (release Lptable)))"

definition set_cpus_allowed :: "u32 \<Rightarrow> ('z kstate_scheme, unit) kop" where
  "set_cpus_allowed m =
     bind (get thisproc) (\<lambda>p.
     seq (acquire Lptable)
     (seq (deref p (\<lambda>p. set_proc p (\<lambda>q. q\<lparr>p_cpus_allowed := m\<rparr>)))
     (release Lptable)))"

definition timer :: "('z kstate_scheme, unit) kop" where
  "timer = seq drop_priority yield"

section \<open>What the routines do\<close>

lemma find_upt_Some:
  "List.find P [0..<n] = Some p \<longleftrightarrow> p < n \<and> P p \<and> (\<forall>q<p. \<not> P q)"
  by (auto simp: find_Some_iff)

lemma find_upt_None: "List.find P [0..<n] = None \<longleftrightarrow> (\<forall>q<n. \<not> P q)"
  by (auto simp: find_None_iff)

lemma scheduler_select_Some:
  "scheduler_select c pt = Some p \<longleftrightarrow>
     p < NPROC \<and>
     (runnable_on c 1 (pt p) \<and> (\<forall>q<p. \<not> runnable_on c 1 (pt q)) \<or>
      runnable_on c 0 (pt p) \<and> (\<forall>q<p. \<not> runnable_on c 0 (pt q)) \<and>
      (\<forall>q<NPROC. \<not> runnable_on c 1 (pt q)))"
  unfolding scheduler_select_def scheduler_scan_def
  by (auto simp: find_upt_Some find_upt_None split: option.splits) (metis linorder_neqE_nat)

lemma scheduler_select_None:
  "scheduler_select c pt = None \<longleftrightarrow> (\<forall>q<NPROC. \<forall>pri\<in>{0, 1}. \<not> runnable_on c pri (pt q))"
  unfolding scheduler_select_def scheduler_scan_def
  by (auto simp: find_upt_None find_upt_Some split: option.splits)

lemma wakeup1_fold:
  "distinct ps \<Longrightarrow>
   fold (\<lambda>p pt. if p_state (pt p) = SLEEPING \<and> p_chan (pt p) = Some ch
                then pt(p := (pt p)\<lparr>p_state := RUNNABLE\<rparr>) else pt) ps pt q =
   (if q \<in> set ps \<and> p_state (pt q) = SLEEPING \<and> p_chan (pt q) = Some ch
    then (pt q)\<lparr>p_state := RUNNABLE\<rparr> else pt q)"
  by (induction ps arbitrary: pt) auto

definition woken :: "chan \<Rightarrow> (nat \<Rightarrow> proc) \<Rightarrow> (nat \<Rightarrow> proc)" where
  "woken ch pt = (\<lambda>q. if q < NPROC \<and> p_state (pt q) = SLEEPING \<and> p_chan (pt q) = Some ch
     then (pt q)\<lparr>p_state := RUNNABLE\<rparr> else pt q)"

lemma wakeup1_run [kop_simps]: "wakeup1 ch s = Inr ((), s\<lparr>ptable := woken ch (ptable s)\<rparr>)"
proof -
  have "woken ch (ptable s) = fold (\<lambda>p pt.
       if p_state (pt p) = SLEEPING \<and> p_chan (pt p) = Some ch
       then pt(p := (pt p)\<lparr>p_state := RUNNABLE\<rparr>) else pt) [0..<NPROC] (ptable s)"
    by (rule ext) (simp add: woken_def wakeup1_fold)
  then show ?thesis by (simp add: wakeup1_def kop_simps)
qed

lemma wakeup_run [lock_simps]:
  assumes "lk_free (locks s Lptable)"
  shows "wakeup ch s = Inr ((), s\<lparr>ptable := woken ch (ptable s)\<rparr>)"
  using assms by (simp add: wakeup_eq kop_simps lock_simps lk_free_def)

lemma woken_other: "p_state (pt q) \<noteq> SLEEPING \<Longrightarrow> woken ch pt q = pt q"
  by (simp add: woken_def)

lemma proc_rest_woken [simp]: "proc_rest (woken ch pt q) = proc_rest (pt q)"
  by (simp add: woken_def proc_rest_def)

lemma kframe_woken: "kframe s (s\<lparr>ptable := woken ch (ptable s)\<rparr>)"
  by (simp add: kframe_def) (simp add: woken_def)

lemma dispatch_to_run [kop_simps]:
  "p_pgdir (ptable s p) \<noteq> 0 \<Longrightarrow> dispatch_to p s = Inr ((), s\<lparr>
     cpu_proc := (cpu_proc s)(this_cpu s := Some p),
     ttbr0 := (ttbr0 s)(this_cpu s := p_pgdir (ptable s p) - 0xFFFF000000000000),
     ptable := (ptable s)(p := (ptable s p)\<lparr>p_state := RUNNING\<rparr>)\<rparr>)"
  by (simp add: dispatch_to_def set_cpu_proc_def uvm_switch_def kop_simps)

lemma scheduler_return_run [lock_simps]:
  "lk_locked (locks s Lptable) \<Longrightarrow> lk_cpu (locks s Lptable) = Some (this_cpu s) \<Longrightarrow>
   scheduler_return s = Inr ((), s\<lparr>cpu_proc := (cpu_proc s)(this_cpu s := None),
     locks := (locks s)(Lptable := (locks s Lptable)\<lparr>lk_cpu := None, lk_locked := False\<rparr>)\<rparr>)"
  by (simp add: scheduler_return_def set_cpu_proc_def kop_simps lock_simps)

section \<open>Properties\<close>

lemma scheduler_dispatch_run:
  assumes "spin_free s"
  shows "scheduler_dispatch s = (case scheduler_select (this_cpu s) (ptable s) of
     None \<Rightarrow> Inr (None, s)
   | Some p \<Rightarrow> if p_pgdir (ptable s p) = 0 then Inl (Panic ''uvm_switch: no pgdir'')
       else Inr (Some p, s\<lparr>locks := (locks s)(Lptable := (locks s Lptable)\<lparr>lk_locked := True, lk_cpu := Some (this_cpu s)\<rparr>),
         cpu_proc := (cpu_proc s)(this_cpu s := Some p),
         ttbr0 := (ttbr0 s)(this_cpu s := p_pgdir (ptable s p) - 0xFFFF000000000000),
         ptable := (ptable s)(p := (ptable s p)\<lparr>p_state := RUNNING\<rparr>)\<rparr>))"
proof (cases "scheduler_select (this_cpu s) (ptable s)")
  case None
  then show ?thesis using assms by (simp add: scheduler_dispatch_def kop_simps lock_simps)
next
  case (Some p)
  then show ?thesis using assms
    by (auto simp: scheduler_dispatch_def kop_simps lock_simps set_cpu_proc_def dispatch_to_def uvm_switch_def)
qed

text \<open>
  C11. Scheduling: a round of the scheduler that finds a process hands the CPU to the lowest-numbered
  runnable process among those of the highest occupied priority that may run on this CPU, marks
  exactly that process as running, loads its page table, and enters it with the process table
  locked by this CPU; a round that finds none leaves the state as it was.
\<close>

theorem scheduler_dispatch_correct:
  assumes "spin_free s" and "\<And>p. p < NPROC \<Longrightarrow> p_state (ptable s p) = RUNNABLE \<Longrightarrow> p_pgdir (ptable s p) \<noteq> 0"
  shows "(\<forall>q<NPROC. \<forall>pri\<in>{0, 1}. \<not> runnable_on (this_cpu s) pri (ptable s q)) \<and> scheduler_dispatch s = Inr (None, s) \<or>
     (\<exists>p pri t. p < NPROC \<and> pri \<in> {0, 1} \<and> runnable_on (this_cpu s) pri (ptable s p) \<and>
        (\<forall>q<p. \<not> runnable_on (this_cpu s) pri (ptable s q)) \<and>
        (\<forall>q<NPROC. \<forall>hi\<in>{0, 1}. hi > pri \<longrightarrow> \<not> runnable_on (this_cpu s) hi (ptable s q)) \<and>
        scheduler_dispatch s = Inr (Some p, t) \<and> thisproc t = Some p \<and> holding Lptable t \<and>
        ptable t = (ptable s)(p := (ptable s p)\<lparr>p_state := RUNNING\<rparr>) \<and>
        ttbr0 t (this_cpu t) = p_pgdir (ptable s p) - 0xFFFF000000000000)"
proof (cases "scheduler_select (this_cpu s) (ptable s)")
  case None
  then have "scheduler_dispatch s = Inr (None, s)" by (simp add: scheduler_dispatch_run [OF assms(1)])
  with None show ?thesis by (simp add: scheduler_select_None)
next
  case (Some p)
  then have p: "p < NPROC" and "runnable_on (this_cpu s) 1 (ptable s p) \<and> (\<forall>q<p. \<not> runnable_on (this_cpu s) 1 (ptable s q)) \<or>
      runnable_on (this_cpu s) 0 (ptable s p) \<and> (\<forall>q<p. \<not> runnable_on (this_cpu s) 0 (ptable s q)) \<and>
      (\<forall>q<NPROC. \<not> runnable_on (this_cpu s) 1 (ptable s q))"
    unfolding scheduler_select_Some by simp_all
  then have "\<exists>pri\<in>{0, 1}. runnable_on (this_cpu s) pri (ptable s p) \<and>
    (\<forall>q<p. \<not> runnable_on (this_cpu s) pri (ptable s q)) \<and>
    (\<forall>q<NPROC. \<forall>hi\<in>{0, 1}. hi > pri \<longrightarrow> \<not> runnable_on (this_cpu s) hi (ptable s q))"
    by (elim disjE) simp_all
  then obtain pri where pri: "p < NPROC" "pri \<in> {0, 1}" "runnable_on (this_cpu s) pri (ptable s p)"
    "\<forall>q<p. \<not> runnable_on (this_cpu s) pri (ptable s q)"
    "\<forall>q<NPROC. \<forall>hi\<in>{0, 1}. hi > pri \<longrightarrow> \<not> runnable_on (this_cpu s) hi (ptable s q)"
    using p by blast
  then have "p_pgdir (ptable s p) \<noteq> 0" using assms(2) by (simp add: runnable_on_def)
  then obtain t where "scheduler_dispatch s = Inr (Some p, t)" "thisproc t = Some p" "holding Lptable t"
    "ptable t = (ptable s)(p := (ptable s p)\<lparr>p_state := RUNNING\<rparr>)"
    "ttbr0 t (this_cpu t) = p_pgdir (ptable s p) - 0xFFFF000000000000"
    by (simp add: scheduler_dispatch_run [OF assms(1)] Some thisproc_def holding_def)
  with pri show ?thesis by blast
qed

text \<open>A process table with two runnable processes, the second of the higher priority.\<close>

definition demo_proc :: proc where
  "demo_proc = \<lparr>p_sz = 0, p_pgdir = 0xFFFF000000001000, p_kstack = 0, p_state = RUNNABLE, p_pid = 1, p_parent = None,
     p_tf = 0, p_context = 0, p_chan = None, p_killed = False, p_name = [], p_ofile = [], p_cwd = None,
     p_priority = 0, p_cpus_allowed = 15\<rparr>"

definition demo_sched :: kstate where
  "demo_sched = \<lparr>this_cpu = 0, cpu_proc = (\<lambda>_. None), ttbr0 = (\<lambda>_. 0),
     ptable = (\<lambda>q. if q = 0 then demo_proc else if q = 1 then demo_proc\<lparr>p_priority := 1\<rparr> else demo_proc\<lparr>p_state := UNUSED\<rparr>),
     initproc = None, nextpid = 3, locks = (\<lambda>_. \<lparr>lk_locked = False, lk_name = [], lk_cpu = None\<rparr>),
     slocks = (\<lambda>_. \<lparr>sl_locked = False, sl_pid = 0\<rparr>)\<rparr>"

theorem scheduler_dispatch_correct_witness:
  "spin_free demo_sched \<and> (\<exists>t. scheduler_dispatch demo_sched = Inr (Some 1, t) \<and> p_state (ptable t 1) = RUNNING)"
proof -
  have f: "spin_free demo_sched" by (simp add: spin_free_def demo_sched_def lk_free_def)
  have pg: "p < NPROC \<Longrightarrow> p_state (ptable demo_sched p) = RUNNABLE \<Longrightarrow> p_pgdir (ptable demo_sched p) \<noteq> 0" for p
    by (simp add: demo_sched_def demo_proc_def)
  have r: "runnable_on 0 1 (ptable demo_sched 1)" "this_cpu demo_sched = 0"
    by (simp_all add: runnable_on_def demo_sched_def demo_proc_def)
  have only: "runnable_on 0 pri (ptable demo_sched q) \<Longrightarrow> q = 0 \<and> pri = 0 \<or> q = 1 \<and> pri = 1" for q pri
    by (auto simp: runnable_on_def demo_sched_def demo_proc_def split: if_splits)
  obtain p pri t where p: "p < NPROC" "pri \<in> {0, 1}" "runnable_on 0 pri (ptable demo_sched p)"
    "\<forall>q<NPROC. \<forall>hi\<in>{0, 1}. hi > pri \<longrightarrow> \<not> runnable_on 0 hi (ptable demo_sched q)"
    "scheduler_dispatch demo_sched = Inr (Some p, t)"
    "ptable t = (ptable demo_sched)(p := (ptable demo_sched p)\<lparr>p_state := RUNNING\<rparr>)"
    using scheduler_dispatch_correct [OF f pg] r by (auto simp: NPROC_def)
  have "p = 1" using p(4) only [OF p(3)] r(1) by (auto simp: NPROC_def)
  then show ?thesis using f p by auto
qed

text \<open>
  Priorities: \<open>drop_priority\<close> and \<open>raise_priority\<close> move the priority of the running process by at
  most one step, never leave the two levels the scheduler scans, and change no other process.
\<close>

theorem priority_levels:
  assumes "spin_free s" and "thisproc s = Some p" and "p_priority (ptable s p) \<in> {0, 1}"
  shows "drop_priority s = Inr ((), s\<lparr>ptable := (ptable s)(p := (ptable s p)\<lparr>p_priority := 0\<rparr>)\<rparr>) \<and>
     raise_priority s = Inr ((), s\<lparr>ptable := (ptable s)(p := (ptable s p)\<lparr>p_priority := 1\<rparr>)\<rparr>)"
proof -
  have "p_priority (ptable s p) = 0 \<or> p_priority (ptable s p) = 1" using assms(3) by simp
  moreover have same: "(ptable s p)\<lparr>p_priority := x\<rparr> = ptable s p" if "p_priority (ptable s p) = x" for x
    using that by (cases "ptable s p") simp
  ultimately show ?thesis
    using assms(1,2)
    by (auto simp: drop_priority_def raise_priority_def kop_simps lock_simps same)
qed

theorem priority_levels_witness:
  "\<exists>t. drop_priority (demo_sched\<lparr>cpu_proc := (\<lambda>_. Some 1)\<rparr>) = Inr ((), t) \<and> p_priority (ptable t 1) = 0"
  using priority_levels [of "demo_sched\<lparr>cpu_proc := (\<lambda>_. Some 1)\<rparr>" 1]
  by (simp add: spin_free_def demo_sched_def lk_free_def thisproc_def demo_proc_def)

end
