(* ===== verification/Sleeplock.thy ===== *)
theory Sleeplock
  imports Sched
begin

text \<open>
  \<open>kern/sleeplock.c\<close>: long-term locks, whose waiters sleep. The waiting loop of \<open>acquiresleep\<close>
  carries fuel; since \<open>sleep\<close> never returns to its caller before a switch, two rounds are more
  than it can use (\<open>acquiresleep_not_Diverge\<close>). The second half interleaves the actions of the
  routines on several CPUs: a machine with one list of instructions per CPU, the contexts that
  \<open>swtch\<close> saves, and the scheduler of each CPU; its invariant has a part on the spin locks, one on
  the shape of the code left to run, and one on sleepers.
\<close>

section \<open>The routines\<close>

definition initsleeplock :: "slock \<Rightarrow> string \<Rightarrow> ('z kstate_scheme, unit) kop" where
  "initsleeplock sl nm =
     seq (initlock (Lsleep sl) nm) (set_slock sl (\<lambda>l. l\<lparr>sl_locked := False, sl_pid := 0\<rparr>))"

text \<open>What the loop is followed by, and what \<open>releasesleep\<close> does.\<close>

definition take_acts :: "slock \<Rightarrow> act list" where
  "take_acts sl = [Take_slock sl, Set_slock_pid sl, Release (Lsleep sl)]"

definition releasesleep_acts :: "slock \<Rightarrow> act list" where
  "releasesleep_acts sl =
     [Acquire (Lsleep sl), Clear_slock sl, Clear_slock_pid sl] @ wakeup_acts (Cslock sl) @
     [Release (Lsleep sl)]"

fun acquiresleep_loop :: "nat \<Rightarrow> slock \<Rightarrow> ('z kstate_scheme, unit) kop" where
  "acquiresleep_loop 0 sl = stop Diverge"
| "acquiresleep_loop (Suc n) sl =
     bind (get (\<lambda>s. sl_locked (slocks s sl))) (\<lambda>l.
     if l then seq (sleep (Cslock sl) (Lsleep sl)) (acquiresleep_loop n sl)
     else acts_kop (take_acts sl))"

definition acquiresleep :: "slock \<Rightarrow> ('z kstate_scheme, unit) kop" where
  "acquiresleep sl = seq (acquire (Lsleep sl)) (acquiresleep_loop 2 sl)"

definition releasesleep :: "slock \<Rightarrow> ('z kstate_scheme, unit) kop" where
  "releasesleep sl = acts_kop (releasesleep_acts sl)"

definition holdingsleep :: "slock \<Rightarrow> ('z kstate_scheme, bool) kop" where
  "holdingsleep sl =
     seq (acquire (Lsleep sl))
     (bind (bind (get (\<lambda>s. sl_locked (slocks s sl))) (\<lambda>l.
            if \<not> l then ret False
            else bind (get thisproc) (\<lambda>p. deref p (\<lambda>p.
                   get (\<lambda>s. sl_pid (slocks s sl) = p_pid (ptable s p)))))) (\<lambda>r.
     seq (release (Lsleep sl)) (ret r)))"

section \<open>Their effect\<close>

lemma acquiresleep_run:
  assumes "spin_free s" and "thisproc s = Some p" and "\<not> sl_locked (slocks s sl)"
  shows "acquiresleep sl s = Inr ((), s\<lparr>slocks := (slocks s)(sl :=
           (slocks s sl)\<lparr>sl_locked := True, sl_pid := p_pid (ptable s p)\<rparr>)\<rparr>)"
  using assms
  by (simp add: acquiresleep_def take_acts_def numeral_2_eq_2 set_slock_def kop_simps lock_simps thisproc_def)

lemma releasesleep_run:
  assumes "spin_free s"
  shows "releasesleep sl s = Inr ((), s\<lparr>ptable := woken (Cslock sl) (ptable s),
           slocks := (slocks s)(sl := (slocks s sl)\<lparr>sl_locked := False, sl_pid := 0\<rparr>)\<rparr>)"
proof -
  have "lk_free (locks s Lptable)" using assms by (simp add: spin_free_def)
  with assms show ?thesis
    by (simp add: releasesleep_def releasesleep_acts_def wakeup_acts_def set_slock_def kop_simps lock_simps)
qed

lemma holdingsleep_run:
  assumes "spin_free s" and "thisproc s = Some p"
  shows "holdingsleep sl s =
           Inr (sl_locked (slocks s sl) \<and> sl_pid (slocks s sl) = p_pid (ptable s p), s)"
  using assms
  by (cases "sl_locked (slocks s sl)")
     (simp_all add: holdingsleep_def kop_simps lock_simps thisproc_def)

lemma sleep_run:
  assumes "holding lk s" and "lk \<noteq> Lptable" and "lk_free (locks s Lptable)"
    and "thisproc s = Some p"
  shows "sleep ch lk s = Inl (Switch (s\<lparr>
           ptable := (ptable s)(p := (ptable s p)\<lparr>p_chan := Some ch, p_state := SLEEPING\<rparr>),
           locks := (locks s)(
             Lptable := (locks s Lptable)\<lparr>lk_locked := True, lk_cpu := Some (this_cpu s)\<rparr>,
             lk := (locks s lk)\<lparr>lk_cpu := None, lk_locked := False\<rparr>)\<rparr>))"
  using assms
  by (simp add: sleep_def sleep_enter_eq sched_def kop_simps lock_simps lk_free_def thisproc_def)

lemma sleep_never_returns: "sleep ch lk s \<noteq> Inr r"
  by (cases r) (auto simp: sleep_def sched_def kop_simps deref_def elim!: bind_InrE
      split: if_splits option.splits)

lemma sleep_not_Diverge: "sleep ch lk s \<noteq> Inl Diverge"
  by (auto simp: sleep_def sleep_enter_eq sleep_resume_eq sched_def deref_def acquire_def
      release_def set_lock_def set_proc_def bind_def get_def upd_def ret_def stop_def
      split: option.splits if_splits sum.splits prod.splits)

lemma acquiresleep_blocked:
  assumes "spin_free s" and "thisproc s = Some p" and "sl_locked (slocks s sl)"
  shows "acquiresleep sl s = Inl (Switch (s\<lparr>
           ptable := (ptable s)(p := (ptable s p)\<lparr>p_chan := Some (Cslock sl), p_state := SLEEPING\<rparr>),
           locks := (locks s)(
             Lptable := (locks s Lptable)\<lparr>lk_locked := True, lk_cpu := Some (this_cpu s)\<rparr>)\<rparr>))"
proof -
  let ?s = "s\<lparr>locks := (locks s)(Lsleep sl :=
     (locks s (Lsleep sl))\<lparr>lk_locked := True, lk_cpu := Some (this_cpu s)\<rparr>)\<rparr>"
  have "acquire (Lsleep sl) s = Inr ((), ?s)" using assms(1) by (simp add: lock_simps)
  moreover have eq: "(locks s)(Lsleep sl := x, Lptable := y,
      Lsleep sl := (locks s (Lsleep sl))\<lparr>lk_cpu := None, lk_locked := False\<rparr>) = (locks s)(Lptable := y)"
    for x y using assms(1) by (auto simp: fun_eq_iff lock_simps)
  have "sleep (Cslock sl) (Lsleep sl) ?s = Inl (Switch (s\<lparr>
       ptable := (ptable s)(p := (ptable s p)\<lparr>p_chan := Some (Cslock sl), p_state := SLEEPING\<rparr>),
       locks := (locks s)(
         Lptable := (locks s Lptable)\<lparr>lk_locked := True, lk_cpu := Some (this_cpu s)\<rparr>)\<rparr>))"
  proof -
    have "holding (Lsleep sl) ?s" by (simp add: holding_run)
    moreover have "lk_free (locks ?s Lptable)" using assms(1) by (simp add: spin_free_def)
    moreover have "thisproc ?s = Some p" using assms(2) by (simp add: thisproc_def)
    ultimately show ?thesis by (simp add: sleep_run eq)
  qed
  ultimately show ?thesis using assms(3)
    by (simp add: acquiresleep_def numeral_2_eq_2 kop_simps)
qed

lemma acquire_not_Diverge: "acquire lk s \<noteq> Inl Diverge"
  by (simp add: acquire_def set_lock_def kop_simps bind_def get_def upd_def stop_def)

lemma acquiresleep_not_Diverge: "acquiresleep sl s \<noteq> Inl Diverge"
proof
  assume d: "acquiresleep sl s = Inl Diverge"
  then obtain s1 where "acquire (Lsleep sl) s = Inr ((), s1)"
    using acquire_not_Diverge [of "Lsleep sl" s]
    by (cases "acquire (Lsleep sl) s") (auto simp: acquiresleep_def kop_simps)
  with d have "acquiresleep_loop 2 sl s1 = Inl Diverge" by (simp add: acquiresleep_def kop_simps)
  moreover have "bind (sleep ch lk) f s1 \<noteq> Inl Diverge" for ch lk and f :: "unit \<Rightarrow> ('a kstate_scheme, unit) kop"
    using sleep_never_returns [of ch lk s1] sleep_not_Diverge [of ch lk s1]
    by (cases "sleep ch lk s1") (auto simp: kop_simps)
  ultimately show False
    by (auto simp: numeral_2_eq_2 take_acts_def kop_simps bind_def get_def set_slock_def upd_def stop_def ret_def
        release_def set_lock_def deref_def split: if_splits option.splits sum.splits prod.splits)
qed

section \<open>Several CPUs and processes on the same sleep locks\<close>

text \<open>
  What a CPU still has to do is a list of instructions: the actions of the routine it is in, and the
  points where control depends on the state or changes hands. \<open>Test\<close> is the condition of the loop in
  \<open>acquiresleep\<close>; \<open>Call_sched\<close> is the call of \<open>sched\<close>, \<open>Switch_to p\<close> the scheduler's \<open>swtch\<close> into
  \<open>p\<close> with the assignments before it, \<open>Select\<close> its scan of the process table, \<open>Forever\<close> the head of
  its loop; in \<open>User\<close> the process is outside the kernel and may call any of the routines.
\<close>

datatype instr = Do act | Test slock | Call_sched | Select | Switch_to nat | Forever | User

datatype call = Acquiresleep slock | Releasesleep slock | Yield

definition sleep_code :: "nat option \<Rightarrow> chan \<Rightarrow> lock \<Rightarrow> instr list" where
  "sleep_code p ch lk =
     map Do (sleep_enter_acts p ch lk) @ [Call_sched] @ map Do (sleep_resume_acts p lk)"

definition yield_code :: "nat option \<Rightarrow> instr list" where
  "yield_code p = map Do (yield_enter_acts p) @ [Call_sched] @ map Do yield_resume_acts"

definition scheduler_back :: "instr list" where
  "scheduler_back = [Do Clear_cpu_proc, Do (Release Lptable), Forever]"

definition scheduler_code :: "instr list" where
  "scheduler_code = [Do (Acquire Lptable), Select, Do (Release Lptable), Forever]"

primrec call_code :: "nat option \<Rightarrow> call \<Rightarrow> instr list" where
  "call_code p (Acquiresleep sl) = [Do (Acquire (Lsleep sl)), Test sl]"
| "call_code p (Releasesleep sl) = map Do (releasesleep_acts sl)"
| "call_code p Yield = yield_code p"

text \<open>
  The system: the shared state, what each CPU still has to do, and the two kinds of context that
  \<open>swtch\<close> saves: the scheduler's, one per CPU, and the process's, one per process.
\<close>

record smp =
  smp_k :: kstate
  smp_ctx :: "nat \<Rightarrow> instr list"
  smp_sched :: "nat \<Rightarrow> instr list"
  smp_kept :: "nat \<Rightarrow> instr list"

abbreviation on_cpu :: "nat \<Rightarrow> smp \<Rightarrow> kstate" where
  "on_cpu c S \<equiv> (smp_k S)\<lparr>this_cpu := c\<rparr>"

abbreviation goto :: "nat \<Rightarrow> instr list \<Rightarrow> smp \<Rightarrow> smp" where
  "goto c as S \<equiv> S\<lparr>smp_ctx := (smp_ctx S)(c := as)\<rparr>"

text \<open>
  One step of CPU \<open>c\<close>; \<open>u\<close> is the call a process outside the kernel makes. An action that does not
  return leaves no step: a CPU that spins on a lock waits for it, a CPU that panics is stopped.
\<close>

definition smp_exec :: "nat \<Rightarrow> call \<Rightarrow> smp \<Rightarrow> smp option" where
  "smp_exec c u S = (case smp_ctx S c of
     [] \<Rightarrow> None
   | i # r \<Rightarrow> (case i of
       Do a \<Rightarrow> (case act_kop a (on_cpu c S) of
           Inl _ \<Rightarrow> None
         | Inr (_, t) \<Rightarrow> Some (goto c r S\<lparr>smp_k := t\<rparr>))
     | Test sl \<Rightarrow>
         if sl_locked (slocks (smp_k S) sl)
         then Some (goto c (sleep_code (cpu_proc (smp_k S) c) (Cslock sl) (Lsleep sl) @ Test sl # r) S)
         else Some (goto c (map Do (take_acts sl) @ r) S)
     | Call_sched \<Rightarrow> (case sched (on_cpu c S) of
           Inl (Switch t) \<Rightarrow> (case cpu_proc (smp_k S) c of
               None \<Rightarrow> None
             | Some p \<Rightarrow> Some (goto c (smp_sched S c) S\<lparr>smp_k := t, smp_kept := (smp_kept S)(p := r)\<rparr>))
         | _ \<Rightarrow> None)
     | Select \<Rightarrow> (case scheduler_select c (ptable (smp_k S)) of
           None \<Rightarrow> Some (goto c r S)
         | Some p \<Rightarrow> Some (goto c (Switch_to p # Do Clear_cpu_proc # r) S))
     | Switch_to p \<Rightarrow> (case dispatch_to p (on_cpu c S) of
           Inl _ \<Rightarrow> None
         | Inr (_, t) \<Rightarrow> Some (goto c (smp_kept S p) S\<lparr>smp_k := t, smp_sched := (smp_sched S)(c := r)\<rparr>))
     | Forever \<Rightarrow> Some (goto c scheduler_code S)
     | User \<Rightarrow> Some (goto c (call_code (cpu_proc (smp_k S) c) u @ [User]) S)))"

text \<open>
  After boot every CPU is in its scheduler, no lock is taken, and the processes are ready to
  return to user mode for the first time, through \<open>forkret\<close>, which releases the process table.
\<close>

definition booted :: "smp \<Rightarrow> bool" where
  "booted S \<longleftrightarrow> spin_free (smp_k S) \<and>
     (\<forall>p. p_state (ptable (smp_k S) p) \<noteq> SLEEPING) \<and>
     (\<forall>c. smp_ctx S c = [Forever]) \<and> (\<forall>p. smp_kept S p = [Do (Release Lptable), User])"

inductive smp_reach :: "smp \<Rightarrow> bool" where
  boot: "booted S \<Longrightarrow> smp_reach S"
| step: "smp_reach S \<Longrightarrow> smp_exec c u S = Some T \<Longrightarrow> smp_reach T"

text \<open>A run given as the list of the CPUs that step.\<close>

fun smp_run :: "(nat \<times> call) list \<Rightarrow> smp \<Rightarrow> smp option" where
  "smp_run [] S = Some S"
| "smp_run ((c, u) # es) S = (case smp_exec c u S of None \<Rightarrow> None | Some T \<Rightarrow> smp_run es T)"

lemma smp_run_reach: "smp_reach S \<Longrightarrow> smp_run es S = Some T \<Longrightarrow> smp_reach T"
  by (induction es S rule: smp_run.induct) (auto split: option.splits intro: smp_reach.step)

section \<open>No wakeup is lost\<close>

definition waits :: "slock \<Rightarrow> proc \<Rightarrow> bool" where
  "waits sl p \<longleftrightarrow> p_state p = SLEEPING \<and> p_chan p = Some (Cslock sl)"

text \<open>A CPU inside \<open>releasesleep\<close>, past the clearing of the lock and not past the wakeup.\<close>

definition waking :: "slock \<Rightarrow> instr list \<Rightarrow> bool" where
  "waking sl as \<longleftrightarrow> Do (Wakeup1 (Cslock sl)) \<in> set as \<and> Do (Clear_slock sl) \<notin> set as"

text \<open>A CPU that has decided to sleep on the lock and is not asleep yet.\<close>

definition dozing :: "slock \<Rightarrow> instr list \<Rightarrow> bool" where
  "dozing sl as \<longleftrightarrow> (\<exists>p. Do (Fall_asleep p (Cslock sl)) \<in> set as)"

text \<open>Whether a CPU with these instructions left holds a spin lock: whether it releases it first.\<close>

fun holds :: "lock \<Rightarrow> instr list \<Rightarrow> bool" where
  "holds l [] \<longleftrightarrow> False"
| "holds l (Do (Acquire k) # r) \<longleftrightarrow> k \<noteq> l \<and> holds l r"
| "holds l (Do (Release k) # r) \<longleftrightarrow> k = l \<or> holds l r"
| "holds l (Test sl # r) \<longleftrightarrow> l = Lsleep sl"
| "holds l (Call_sched # r) \<longleftrightarrow> l = Lptable"
| "holds l (Select # r) \<longleftrightarrow> l = Lptable"
| "holds l (Switch_to p # r) \<longleftrightarrow> l = Lptable"
| "holds l (Forever # r) \<longleftrightarrow> False"
| "holds l (User # r) \<longleftrightarrow> False"
| "holds l (Do a # r) \<longleftrightarrow> holds l r"

text \<open>
  The discipline of the code. Locks alternate; a CPU that is about to fall asleep on a sleep lock
  holds the process table or the lock's spin lock, and one that is about to wake its sleepers
  holds the spin lock, from the clearing of the lock on; nothing but the process table is held
  across a switch.
\<close>

definition resumable :: "instr list \<Rightarrow> bool" where
  "resumable as \<longleftrightarrow> (\<forall>l. holds l as \<longleftrightarrow> l = Lptable) \<and> Forever \<notin> set as \<and>
     (\<forall>sl. \<not> dozing sl as \<and> \<not> waking sl as)"

definition guarded :: "instr list \<Rightarrow> bool" where
  "guarded as \<longleftrightarrow> (\<forall>sl. dozing sl as \<longrightarrow> holds Lptable as \<or> holds (Lsleep sl) as) \<and>
     (\<forall>sl. waking sl as \<longrightarrow> holds (Lsleep sl) as)"

fun follows :: "instr \<Rightarrow> instr list \<Rightarrow> bool" where
  "follows (Do (Acquire l)) r \<longleftrightarrow> holds l r"
| "follows (Do (Release l)) r \<longleftrightarrow> \<not> holds l r"
| "follows (Do (Clear_slock sl)) r \<longleftrightarrow> waking sl r"
| "follows (Do (Wakeup1 ch)) r \<longleftrightarrow> holds Lptable r \<and>
     (\<forall>sl. \<not> dozing sl r \<and> (ch = Cslock sl \<longrightarrow> Do (Clear_slock sl) \<notin> set r))"
| "follows (Do a) r \<longleftrightarrow> True"
| "follows (Test sl) r \<longleftrightarrow> r = [User]"
| "follows Call_sched r \<longleftrightarrow> resumable r"
| "follows Select r \<longleftrightarrow> r = [Do (Release Lptable), Forever]"
| "follows (Switch_to p) r \<longleftrightarrow> r = scheduler_back"
| "follows Forever r \<longleftrightarrow> r = []"
| "follows User r \<longleftrightarrow> r = []"

fun disciplined :: "instr list \<Rightarrow> bool" where
  "disciplined [] \<longleftrightarrow> True"
| "disciplined (i # r) \<longleftrightarrow> follows i r \<and> guarded (i # r) \<and> disciplined r"

definition smp_locks_inv :: "smp \<Rightarrow> bool" where
  "smp_locks_inv S \<longleftrightarrow> (\<forall>c l. holds l (smp_ctx S c) \<longleftrightarrow>
     lk_locked (locks (smp_k S) l) \<and> lk_cpu (locks (smp_k S) l) = Some c)"

definition smp_code_inv :: "smp \<Rightarrow> bool" where
  "smp_code_inv S \<longleftrightarrow>
     (\<forall>c. disciplined (smp_ctx S c) \<and> (Forever \<notin> set (smp_ctx S c) \<longrightarrow> smp_sched S c = scheduler_back)) \<and>
     (\<forall>p. disciplined (smp_kept S p) \<and> resumable (smp_kept S p))"

definition smp_wake_inv :: "slock \<Rightarrow> smp \<Rightarrow> bool" where
  "smp_wake_inv sl S \<longleftrightarrow>
     (\<exists>c. dozing sl (smp_ctx S c)) \<or> (\<exists>q<NPROC. waits sl (ptable (smp_k S) q)) \<longrightarrow>
     sl_locked (slocks (smp_k S) sl) \<or> (\<exists>c. waking sl (smp_ctx S c))"

lemma waking_Cons: "waking sl (i # as) \<longleftrightarrow>
    (i = Do (Wakeup1 (Cslock sl)) \<or> Do (Wakeup1 (Cslock sl)) \<in> set as) \<and>
    i \<noteq> Do (Clear_slock sl) \<and> Do (Clear_slock sl) \<notin> set as"
  and dozing_Cons: "dozing sl (i # as) \<longleftrightarrow> (\<exists>p. i = Do (Fall_asleep p (Cslock sl))) \<or> dozing sl as"
  and waking_Nil: "\<not> waking sl []" and dozing_Nil: "\<not> dozing sl []"
  by (auto simp: waking_def dozing_def)

lemmas code_simps = waking_Cons dozing_Cons waking_Nil dozing_Nil guarded_def resumable_def
  sleep_enter_acts_def sleep_resume_acts_def sleep_code_def yield_code_def yield_enter_acts_def
  yield_resume_acts_def take_acts_def releasesleep_acts_def wakeup_acts_def scheduler_back_def
  scheduler_code_def

text \<open>The routines keep the discipline.\<close>

lemma disciplined_sleep:
  "disciplined (sleep_code p (Cslock sl) (Lsleep sl) @ [Test sl, User])"
  by (auto simp: code_simps)

lemma disciplined_take: "disciplined (map Do (take_acts sl) @ [User])"
  by (auto simp: code_simps)

lemma disciplined_call: "disciplined (call_code p u @ [User])"
  by (cases u) (auto simp: code_simps)

lemma disciplined_scheduler: "disciplined scheduler_code" "disciplined scheduler_back"
  "disciplined (Switch_to p # scheduler_back)"
  by (auto simp: code_simps)


text \<open>What an action does to the locks and to the waiters.\<close>

lemma act_acquire:
  "act_kop (Acquire l) s = Inr (x, t) \<Longrightarrow> \<not> lk_locked (locks s l) \<and>
     t = s\<lparr>locks := (locks s)(l := (locks s l)\<lparr>lk_locked := True, lk_cpu := Some (this_cpu s)\<rparr>)\<rparr>"
  by (cases "lk_locked (locks s l)")
     (auto simp: acquire_run, simp add: acquire_def bind_def get_def stop_def split: if_splits)

lemma act_release:
  "act_kop (Release l) s = Inr (x, t) \<Longrightarrow>
     t = s\<lparr>locks := (locks s)(l := (locks s l)\<lparr>lk_cpu := None, lk_locked := False\<rparr>)\<rparr>"
  by (cases "holding l s") (auto simp: release_run holding_def release_not_held)

lemma act_locks:
  "act_kop a s = Inr (x, t) \<Longrightarrow> \<forall>l. a \<noteq> Acquire l \<and> a \<noteq> Release l \<Longrightarrow> locks t = locks s"
  by (cases a) (auto simp: act_kop.simps kop_simps deref_def set_slock_def set_cpu_proc_def
      bind_def get_def ret_def stop_def upd_def split: if_splits option.splits)

lemma act_slocks:
  "act_kop a s = Inr (x, t) \<Longrightarrow> sl_locked (slocks t sl) \<longleftrightarrow>
     (a = Take_slock sl \<or> a \<noteq> Clear_slock sl \<and> sl_locked (slocks s sl))"
  by (cases a) (auto simp: kop_simps deref_def set_slock_def set_cpu_proc_def acquire_def release_def set_lock_def
      bind_def get_def ret_def stop_def upd_def split: if_splits option.splits)

lemma act_waits:
  "act_kop a s = Inr (x, t) \<Longrightarrow> waits sl (ptable t q) \<Longrightarrow> q < NPROC \<Longrightarrow>
     a = Fall_asleep (Some q) (Cslock sl) \<or> waits sl (ptable s q) \<and> a \<noteq> Wakeup1 (Cslock sl)"
  by (cases a) (auto simp: waits_def woken_def kop_simps deref_def set_slock_def set_cpu_proc_def acquire_def
      release_def set_lock_def bind_def get_def ret_def stop_def upd_def split: if_splits option.splits)

lemma dispatch_to_D:
  assumes "dispatch_to p s = Inr (x, t)"
  shows "locks t = locks s" and "slocks t = slocks s"
    and "waits sl (ptable t q) \<Longrightarrow> waits sl (ptable s q)"
proof -
  have "p_pgdir (ptable s p) \<noteq> 0"
    using assms by (auto simp: dispatch_to_def uvm_switch_def set_cpu_proc_def kop_simps bind_def get_def stop_def upd_def)
  then have "t = s\<lparr>cpu_proc := (cpu_proc s)(this_cpu s := Some p),
     ttbr0 := (ttbr0 s)(this_cpu s := p_pgdir (ptable s p) - 0xFFFF000000000000),
     ptable := (ptable s)(p := (ptable s p)\<lparr>p_state := RUNNING\<rparr>)\<rparr>"
    using assms by (simp add: dispatch_to_run)
  then show "locks t = locks s" "slocks t = slocks s" "waits sl (ptable t q) \<Longrightarrow> waits sl (ptable s q)"
    by (auto simp: waits_def split: if_splits)
qed

lemma sched_Switch: "sched s = Inl (Switch t) \<Longrightarrow> t = s"
  by (auto simp: sched_def deref_def bind_def get_def stop_def split: if_splits option.splits)

text \<open>The steps of a CPU, one case per instruction.\<close>

lemma smp_execE [consumes 1, case_names Do Sleep Take Call_sched Idle Select Switch_to Forever User]:
  assumes "smp_exec c u S = Some T"
  obtains (Do) a r x t where "smp_ctx S c = Do a # r" "act_kop a (on_cpu c S) = Inr (x, t)"
      "T = goto c r S\<lparr>smp_k := t\<rparr>"
  | (Sleep) sl r where "smp_ctx S c = Test sl # r" "sl_locked (slocks (smp_k S) sl)"
      "T = goto c (sleep_code (cpu_proc (smp_k S) c) (Cslock sl) (Lsleep sl) @ Test sl # r) S"
  | (Take) sl r where "smp_ctx S c = Test sl # r" "\<not> sl_locked (slocks (smp_k S) sl)"
      "T = goto c (map Do (take_acts sl) @ r) S"
  | (Call_sched) r p where "smp_ctx S c = Call_sched # r"
      "T = goto c (smp_sched S c) S\<lparr>smp_k := on_cpu c S, smp_kept := (smp_kept S)(p := r)\<rparr>"
  | (Idle) r where "smp_ctx S c = Select # r" "T = goto c r S"
  | (Select) r p where "smp_ctx S c = Select # r"
      "T = goto c (Switch_to p # Do Clear_cpu_proc # r) S"
  | (Switch_to) p r x t where "smp_ctx S c = Switch_to p # r" "dispatch_to p (on_cpu c S) = Inr (x, t)"
      "T = goto c (smp_kept S p) S\<lparr>smp_k := t, smp_sched := (smp_sched S)(c := r)\<rparr>"
  | (Forever) r where "smp_ctx S c = Forever # r" "T = goto c scheduler_code S"
  | (User) r where "smp_ctx S c = User # r" "T = goto c (call_code (cpu_proc (smp_k S) c) u @ [User]) S"
proof (cases "smp_ctx S c")
  case Nil
  then show thesis using assms by (simp add: smp_exec_def)
next
  case (Cons i r)
  show thesis
  proof (cases i)
    case (Do a)
    then show thesis using assms Cons that(1) by (auto simp: smp_exec_def split: sum.splits)
  next
    case (Test sl)
    then show thesis using assms Cons that(2,3) by (auto simp: smp_exec_def split: if_splits)
  next
    case Call_sched
    then obtain t p where "sched (on_cpu c S) = Inl (Switch t)"
      and T: "T = goto c (smp_sched S c) S\<lparr>smp_k := t, smp_kept := (smp_kept S)(p := r)\<rparr>"
      using assms Cons by (auto simp: smp_exec_def split: sum.splits stop.splits option.splits)
    then have "t = on_cpu c S" by (simp add: sched_Switch)
    with T Call_sched Cons that(4) show thesis by simp
  next
    case Select
    then show thesis using assms Cons that(5,6) by (auto simp: smp_exec_def split: option.splits)
  next
    case (Switch_to p)
    then show thesis using assms Cons that(7) by (auto simp: smp_exec_def split: sum.splits)
  next
    case Forever
    then show thesis using assms Cons that(8) by (simp add: smp_exec_def)
  next
    case User
    then show thesis using assms Cons that(9) by (simp add: smp_exec_def)
  qed
qed

lemma holds_act: "\<forall>k. a \<noteq> Acquire k \<and> a \<noteq> Release k \<Longrightarrow> holds l (Do a # r) \<longleftrightarrow> holds l r"
  by (cases a) auto

lemma disciplined_step:
  assumes "smp_exec c u S = Some T" and "smp_code_inv S"
  shows "smp_code_inv T"
proof -
  have c: "disciplined (smp_ctx S c)" "Forever \<notin> set (smp_ctx S c) \<Longrightarrow> smp_sched S c = scheduler_back"
    and k: "\<And>p. disciplined (smp_kept S p) \<and> resumable (smp_kept S p)"
    using assms(2) by (auto simp: smp_code_inv_def)
  have upd: "smp_code_inv T" if "\<And>d. d \<noteq> c \<Longrightarrow> smp_ctx T d = smp_ctx S d" "\<And>d. d \<noteq> c \<Longrightarrow> smp_sched T d = smp_sched S d"
      "disciplined (smp_ctx T c)" "Forever \<notin> set (smp_ctx T c) \<Longrightarrow> smp_sched T c = scheduler_back"
      "\<And>p. disciplined (smp_kept T p) \<and> resumable (smp_kept T p)"
    using that assms(2) unfolding smp_code_inv_def by metis
  from assms(1) show ?thesis
  proof (cases rule: smp_execE)
    case (Do a r x t)
    then show ?thesis using c k by (intro upd) auto
  next
    case (Sleep sl r)
    then have "r = [User]" using c(1) by simp
    with Sleep show ?thesis using c k disciplined_sleep by (intro upd) (auto simp: code_simps)
  next
    case (Take sl r)
    then have "r = [User]" using c(1) by simp
    with Take show ?thesis using c k disciplined_take by (intro upd) auto
  next
    case (Call_sched r p)
    then have r: "resumable r" "disciplined r" using c(1) by simp_all
    then have "Forever \<notin> set (smp_ctx S c)" using Call_sched(1) by (simp add: resumable_def)
    then have "smp_sched S c = scheduler_back" by (rule c(2))
    with Call_sched r show ?thesis using k disciplined_scheduler(2) by (intro upd) auto
  next
    case (Idle r)
    then show ?thesis using c k by (intro upd) auto
  next
    case (Select r p)
    then have "r = [Do (Release Lptable), Forever]" using c(1) by simp
    with Select show ?thesis using k disciplined_scheduler(3) by (intro upd) (auto simp: scheduler_back_def)
  next
    case (Switch_to p r x t)
    then have "r = scheduler_back" using c(1) by simp
    with Switch_to show ?thesis using k by (intro upd) auto
  next
    case (Forever r)
    then show ?thesis using k disciplined_scheduler(1) by (intro upd) (auto simp: scheduler_code_def)
  next
    case (User r)
    then have "r = []" using c(1) by simp
    with User show ?thesis using c k disciplined_call [of "cpu_proc (smp_k S) c" u] by (intro upd) auto
  qed
qed

lemma call_code_free: "\<not> holds l (call_code p u @ [User])"
    and call_code_quiet: "\<not> dozing sl (call_code p u @ [User])" "\<not> waking sl (call_code p u @ [User])"
  by (cases u; auto simp: code_simps)+

lemma locks_step:
  assumes "smp_exec c u S = Some T" and "smp_code_inv S" and inv: "smp_locks_inv S"
  shows "smp_locks_inv T"
proof -
  have c: "disciplined (smp_ctx S c)" "Forever \<notin> set (smp_ctx S c) \<Longrightarrow> smp_sched S c = scheduler_back"
    and k: "\<And>p. resumable (smp_kept S p)"
    using assms(2) by (auto simp: smp_code_inv_def)
  have same: "smp_locks_inv T" if "\<And>d. d \<noteq> c \<Longrightarrow> smp_ctx T d = smp_ctx S d"
      "\<And>l. holds l (smp_ctx T c) = holds l (smp_ctx S c)" "locks (smp_k T) = locks (smp_k S)"
    using that inv unfolding smp_locks_inv_def by metis
  from assms(1) show ?thesis
  proof (cases rule: smp_execE)
    case (Do a r x t)
    consider (A) l where "a = Acquire l" | (R) l where "a = Release l" | (O) "\<forall>l. a \<noteq> Acquire l \<and> a \<noteq> Release l"
      by blast
    then show ?thesis
    proof cases
      case A
      then have t: "\<not> lk_locked (locks (smp_k S) l)"
        "t = (on_cpu c S)\<lparr>locks := (locks (smp_k S))(l := (locks (smp_k S) l)\<lparr>lk_locked := True, lk_cpu := Some c\<rparr>)\<rparr>"
        using act_acquire [of l "on_cpu c S" x t] Do(2) by simp_all
      have "holds l r" using c(1) Do(1) A by simp
      moreover have "holds k (smp_ctx S c) \<longleftrightarrow> holds k r" if "k \<noteq> l" for k using Do(1) A that by simp
      ultimately show ?thesis using inv t Do(3) by (auto simp: smp_locks_inv_def)
    next
      case R
      then have t: "t = (on_cpu c S)\<lparr>locks := (locks (smp_k S))(l := (locks (smp_k S) l)\<lparr>lk_cpu := None, lk_locked := False\<rparr>)\<rparr>"
        using act_release [of l "on_cpu c S" x t] Do(2) by simp
      have h: "\<not> holds l r" "holds l (smp_ctx S c)" using c(1) Do(1) R by simp_all
      then have "lk_cpu (locks (smp_k S) l) = Some c" using inv by (simp add: smp_locks_inv_def)
      then have "\<not> holds l (smp_ctx S d)" if "d \<noteq> c" for d using inv that by (simp add: smp_locks_inv_def)
      moreover have "holds k (smp_ctx S c) \<longleftrightarrow> holds k r" if "k \<noteq> l" for k using Do(1) R that by auto
      ultimately show ?thesis using inv t Do(3) h by (auto simp: smp_locks_inv_def)
    next
      case O
      then have "locks t = locks (smp_k S)" using act_locks [OF Do(2)] by simp
      with O Do show ?thesis by (intro same) (simp_all add: holds_act)
    qed
  next
    case (Sleep sl r)
    then show ?thesis by (intro same) (auto simp: code_simps)
  next
    case (Take sl r)
    then have "r = [User]" using c(1) by simp
    with Take show ?thesis by (intro same) (auto simp: code_simps)
  next
    case (Call_sched r p)
    then have "Forever \<notin> set (smp_ctx S c)" using c(1) by (simp add: resumable_def)
    then have "smp_sched S c = scheduler_back" by (rule c(2))
    with Call_sched show ?thesis by (intro same) (auto simp: code_simps)
  next
    case (Idle r)
    then show ?thesis using c(1) by (intro same) auto
  next
    case (Select r p)
    then show ?thesis by (intro same) auto
  next
    case (Switch_to p r x t)
    then show ?thesis using k [of p] dispatch_to_D(1) [OF Switch_to(2)] by (intro same) (auto simp: resumable_def)
  next
    case (Forever r)
    then show ?thesis by (intro same) (auto simp: code_simps)
  next
    case (User r)
    then show ?thesis by (intro same) (simp_all add: call_code_free)
  qed
qed

text \<open>Two CPUs never hold the same spin lock; the one that wakes the sleepers is past every dozing one.\<close>

lemma holds_unique: "smp_locks_inv S \<Longrightarrow> holds l (smp_ctx S c) \<Longrightarrow> holds l (smp_ctx S d) \<Longrightarrow> c = d"
  by (simp add: smp_locks_inv_def)

lemma wakeup_after_dozing:
  assumes "smp_code_inv S" and "smp_locks_inv S" and "smp_ctx S c = Do (Wakeup1 (Cslock sl)) # r"
  shows "\<not> dozing sl (smp_ctx S d)"
proof
  assume z: "dozing sl (smp_ctx S d)"
  have f: "follows (Do (Wakeup1 (Cslock sl))) r" "guarded (Do (Wakeup1 (Cslock sl)) # r)"
    using assms(1,3) unfolding smp_code_inv_def by (metis disciplined.simps(2))+
  then have "holds Lptable (smp_ctx S c)" "holds (Lsleep sl) (smp_ctx S c)" "\<not> dozing sl (smp_ctx S c)"
    using assms(3) by (auto simp: guarded_def waking_Cons dozing_Cons)
  moreover have "guarded (smp_ctx S d)"
  proof (cases "smp_ctx S d")
    case Nil
    then show ?thesis using z by (simp add: dozing_Nil)
  next
    case (Cons i as)
    then show ?thesis using assms(1) unfolding smp_code_inv_def by (metis disciplined.simps(2))
  qed
  then have "holds Lptable (smp_ctx S d) \<or> holds (Lsleep sl) (smp_ctx S d)" using z by (simp add: guarded_def)
  ultimately show False using holds_unique [OF assms(2)] z by metis
qed

lemma wake_step:
  assumes "smp_exec c u S = Some T" and cinv: "smp_code_inv S" and linv: "smp_locks_inv S"
    and inv: "smp_wake_inv sl S"
  shows "smp_wake_inv sl T"
proof -
  have d: "disciplined (smp_ctx S c)" "Forever \<notin> set (smp_ctx S c) \<Longrightarrow> smp_sched S c = scheduler_back"
    and k: "\<And>p. resumable (smp_kept S p)"
    using cinv by (auto simp: smp_code_inv_def)
  have quiet: "smp_wake_inv sl T" if "\<And>e. e \<noteq> c \<Longrightarrow> smp_ctx T e = smp_ctx S e"
      "\<not> dozing sl (smp_ctx T c)" "\<not> waking sl (smp_ctx S c)"
      "slocks (smp_k T) = slocks (smp_k S)"
      "\<And>q. waits sl (ptable (smp_k T) q) \<Longrightarrow> waits sl (ptable (smp_k S) q)"
    using that inv unfolding smp_wake_inv_def by metis
  from assms(1) show ?thesis
  proof (cases rule: smp_execE)
    case (Do a r x t)
    have sl: "sl_locked (slocks t sl) \<longleftrightarrow> a = Take_slock sl \<or> a \<noteq> Clear_slock sl \<and> sl_locked (slocks (smp_k S) sl)"
      using act_slocks [OF Do(2)] by simp
    have w: "q < NPROC \<Longrightarrow> waits sl (ptable t q) \<Longrightarrow>
        a = Fall_asleep (Some q) (Cslock sl) \<or> waits sl (ptable (smp_k S) q) \<and> a \<noteq> Wakeup1 (Cslock sl)" for q
      using act_waits [OF Do(2)] by fastforce
    have f: "follows (Do a) r" using d(1) Do(1) by simp
    have ctx: "smp_ctx T e = (if e = c then r else smp_ctx S e)" for e by (simp add: Do(3))
    have kt: "smp_k T = t" by (simp add: Do(3))
    consider (W) "a = Wakeup1 (Cslock sl)" | (C) "a = Clear_slock sl" | (T) "a = Take_slock sl"
      | (O) "a \<noteq> Wakeup1 (Cslock sl)" "a \<noteq> Clear_slock sl" "a \<noteq> Take_slock sl" by blast
    then show ?thesis
    proof cases
      case W
      then have "\<not> dozing sl (smp_ctx S e)" for e using wakeup_after_dozing [OF cinv linv] Do(1) by blast
      moreover have "\<not> dozing sl r" using f W by simp
      ultimately show ?thesis using w W by (auto simp: smp_wake_inv_def ctx kt)
    next
      case C
      then have "waking sl (smp_ctx T c)" using f by (simp add: ctx)
      then show ?thesis by (auto simp: smp_wake_inv_def)
    next
      case T
      then show ?thesis using sl by (simp add: smp_wake_inv_def kt)
    next
      case O
      then have "waking sl (smp_ctx S c) \<longleftrightarrow> waking sl r" using Do(1) by (auto simp: waking_def)
      then have same: "(\<exists>e. waking sl (smp_ctx T e)) \<longleftrightarrow> (\<exists>e. waking sl (smp_ctx S e))"
        by (auto simp: ctx)
      have "dozing sl r \<Longrightarrow> dozing sl (smp_ctx S c)" using Do(1) by (simp add: dozing_Cons)
      moreover have "a = Fall_asleep (Some q) (Cslock sl) \<Longrightarrow> dozing sl (smp_ctx S c)" for q
        using Do(1) by (auto simp: dozing_Cons)
      ultimately have "(\<exists>e. dozing sl (smp_ctx T e)) \<or> (\<exists>q<NPROC. waits sl (ptable t q)) \<Longrightarrow>
          (\<exists>e. dozing sl (smp_ctx S e)) \<or> (\<exists>q<NPROC. waits sl (ptable (smp_k S) q))"
        using w by (metis ctx)
      with inv O same sl show ?thesis by (auto simp: smp_wake_inv_def kt)
    qed
  next
    case (Sleep sl' r)
    then have "r = [User]" using d(1) by simp
    with Sleep have q: "\<not> waking sl (smp_ctx T c)" "\<not> waking sl (smp_ctx S c)"
      "dozing sl (smp_ctx T c) \<Longrightarrow> sl = sl'" by (auto simp: code_simps)
    have "smp_k T = smp_k S" "\<And>e. e \<noteq> c \<Longrightarrow> smp_ctx T e = smp_ctx S e" by (simp_all add: Sleep(3))
    with q Sleep(2) inv show ?thesis unfolding smp_wake_inv_def by metis
  next
    case (Take sl' r)
    then have "r = [User]" using d(1) by simp
    with Take show ?thesis by (intro quiet) (auto simp: code_simps)
  next
    case (Call_sched r p)
    then have "Forever \<notin> set (smp_ctx S c)" "resumable r" using d(1) by (simp_all add: resumable_def)
    then have "smp_sched S c = scheduler_back" using d(2) by blast
    with Call_sched \<open>resumable r\<close> show ?thesis by (intro quiet) (auto simp: code_simps waking_def)
  next
    case (Idle r)
    then have "r = [Do (Release Lptable), Forever]" using d(1) by simp
    with Idle show ?thesis by (intro quiet) (auto simp: code_simps)
  next
    case (Select r p)
    then have "r = [Do (Release Lptable), Forever]" using d(1) by simp
    with Select show ?thesis by (intro quiet) (auto simp: code_simps)
  next
    case (Switch_to p r x t)
    then have "r = scheduler_back" using d(1) by simp
    with Switch_to dispatch_to_D(2,3) [OF Switch_to(2)] k [of p] show ?thesis
      by (intro quiet) (auto simp: code_simps)
  next
    case (Forever r)
    then have "r = []" using d(1) by simp
    with Forever show ?thesis by (intro quiet) (auto simp: code_simps)
  next
    case (User r)
    then have "r = []" using d(1) by simp
    with User show ?thesis by (intro quiet) (auto simp: call_code_quiet code_simps)
  qed
qed

lemma booted_inv:
  assumes "booted S"
  shows "smp_code_inv S" "smp_locks_inv S" "smp_wake_inv sl S"
  using assms
  by (auto simp: booted_def smp_code_inv_def smp_locks_inv_def smp_wake_inv_def waits_def
      spin_free_def lk_free_def code_simps)

lemma smp_reach_inv:
  "smp_reach S \<Longrightarrow> smp_code_inv S \<and> smp_locks_inv S \<and> smp_wake_inv sl S"
  by (induction rule: smp_reach.induct) (auto intro: booted_inv disciplined_step locks_step wake_step)

section \<open>Properties\<close>

text \<open>
  C5. No lost wakeup: from boot, whatever steps of the code any number of CPUs interleave, with
  the processes on them calling \<open>acquiresleep\<close>, \<open>releasesleep\<close> and \<open>yield\<close> and the schedulers
  switching between them, a process that sleeps on a sleep lock sleeps while the lock is held, or
  while some CPU is inside \<open>releasesleep\<close> of that lock, past the clearing of the lock and not past
  its wakeup; and when a CPU takes that wakeup step, no process sleeps on the lock any more.
\<close>

theorem sleeplock_no_lost_wakeup:
  assumes "smp_reach S" and "q < NPROC" and "waits sl (ptable (smp_k S) q)"
  shows "(sl_locked (slocks (smp_k S) sl) \<or>
      (\<exists>c. Do (Wakeup1 (Cslock sl)) \<in> set (smp_ctx S c) \<and> Do (Clear_slock sl) \<notin> set (smp_ctx S c))) \<and>
    (\<forall>c u r T. smp_ctx S c = Do (Wakeup1 (Cslock sl)) # r \<longrightarrow> smp_exec c u S = Some T \<longrightarrow>
      (\<forall>p<NPROC. \<not> waits sl (ptable (smp_k T) p)))"
proof (intro conjI allI impI)
  show "sl_locked (slocks (smp_k S) sl) \<or>
      (\<exists>c. Do (Wakeup1 (Cslock sl)) \<in> set (smp_ctx S c) \<and> Do (Clear_slock sl) \<notin> set (smp_ctx S c))"
    using smp_reach_inv [OF assms(1), of sl] assms(2,3) by (auto simp: smp_wake_inv_def waking_def)
next
  fix c u r T p
  assume "smp_ctx S c = Do (Wakeup1 (Cslock sl)) # r" "smp_exec c u S = Some T" "p < NPROC"
  then show "\<not> waits sl (ptable (smp_k T) p)"
    by (auto simp: smp_exec_def kop_simps waits_def woken_def split: if_splits)
qed

text \<open>Two CPUs, two processes: one has taken the lock, the other went to sleep on it.\<close>

definition demo_smp :: smp where
  "demo_smp = \<lparr>smp_k = demo_sched, smp_ctx = (\<lambda>_. [Forever]), smp_sched = (\<lambda>_. []),
     smp_kept = (\<lambda>_. [Do (Release Lptable), User])\<rparr>"

lemma demo_sched_fields [simp]:
  "locks demo_sched l = \<lparr>lk_locked = False, lk_name = [], lk_cpu = None\<rparr>"
  "slocks demo_sched sl = \<lparr>sl_locked = False, sl_pid = 0\<rparr>"
  "p_pgdir (ptable demo_sched q) \<noteq> 0"
  by (simp_all add: demo_sched_def demo_proc_def)

lemma demo_sched_select:
  "scheduler_select 0 (ptable demo_sched) = Some 1"
  "p_state x = RUNNING \<Longrightarrow> scheduler_select (Suc 0) ((ptable demo_sched)(Suc 0 := x)) = Some 0"
  by (auto simp: scheduler_select_Some runnable_on_def demo_sched_def demo_proc_def NPROC_def)

lemmas run_simps = smp_exec_def holding_def set_slock_def set_cpu_proc_def thisproc_def sched_def
  kop_simps lock_simps code_simps demo_sched_select numeral_eq_Suc

lemma demo_smp_run:
  "\<exists>T. smp_run (replicate 11 (0, Acquiresleep (Sbuf 0)) @ replicate 12 (Suc 0, Acquiresleep (Sbuf 0))) demo_smp = Some T \<and>
     waits (Sbuf 0) (ptable (smp_k T) 0)"
  by (simp add: demo_smp_def run_simps waits_def)

theorem sleeplock_no_lost_wakeup_witness:
  "\<exists>T. smp_reach T \<and> waits (Sbuf 0) (ptable (smp_k T) 0) \<and>
     (sl_locked (slocks (smp_k T) (Sbuf 0)) \<or>
      (\<exists>c. Do (Wakeup1 (Cslock (Sbuf 0))) \<in> set (smp_ctx T c) \<and> Do (Clear_slock (Sbuf 0)) \<notin> set (smp_ctx T c)))"
proof -
  have "booted demo_smp"
    by (simp add: booted_def demo_smp_def demo_sched_def demo_proc_def spin_free_def lk_free_def)
  then obtain T where T: "smp_reach T" "waits (Sbuf 0) (ptable (smp_k T) 0)"
    using demo_smp_run smp_run_reach [OF smp_reach.boot] by blast
  then show ?thesis using sleeplock_no_lost_wakeup [OF T(1) _ T(2)] by (auto simp: NPROC_def)
qed

end
