(* ===== verification/Klist.thy ===== *)
theory Klist
  imports Prelude
begin

text \<open>
  \<open>inc/list.h\<close>: circular doubly linked lists through embedded nodes. The nodes are a store of two
  pointer fields over addresses; a list is the ring (\<open>Prelude.ring\<close>) that starts at its head. The
  locale \<open>fifo\<close> is what the users of such a list rely on.
\<close>

section \<open>The operations\<close>

record list_heads =
  lh_next :: "nat \<Rightarrow> nat"
  lh_prev :: "nat \<Rightarrow> nat"

definition LIST_POISON1 :: nat where "LIST_POISON1 = 0x100"
definition LIST_POISON2 :: nat where "LIST_POISON2 = 0x122"

definition set_next :: "nat \<Rightarrow> nat \<Rightarrow> list_heads \<Rightarrow> list_heads" where
  "set_next a v h = h\<lparr>lh_next := (lh_next h)(a := v)\<rparr>"

definition set_prev :: "nat \<Rightarrow> nat \<Rightarrow> list_heads \<Rightarrow> list_heads" where
  "set_prev a v h = h\<lparr>lh_prev := (lh_prev h)(a := v)\<rparr>"

definition INIT_LIST_HEAD :: "nat \<Rightarrow> list_heads \<Rightarrow> list_heads" where
  "INIT_LIST_HEAD l h = set_prev l l (set_next l l h)"

definition list_add_raw :: "nat \<Rightarrow> nat \<Rightarrow> nat \<Rightarrow> list_heads \<Rightarrow> list_heads" where
  "list_add_raw new prv nxt h =
     set_next prv new (set_prev new prv (set_next new nxt (set_prev nxt new h)))"

definition list_add :: "nat \<Rightarrow> nat \<Rightarrow> list_heads \<Rightarrow> list_heads" where
  "list_add new head h = list_add_raw new head (lh_next h head) h"

definition list_add_tail :: "nat \<Rightarrow> nat \<Rightarrow> list_heads \<Rightarrow> list_heads" where
  "list_add_tail new head h = list_add_raw new (lh_prev h head) head h"

definition list_del_raw :: "nat \<Rightarrow> nat \<Rightarrow> list_heads \<Rightarrow> list_heads" where
  "list_del_raw prv nxt h = set_next prv nxt (set_prev nxt prv h)"

definition list_del :: "nat \<Rightarrow> list_heads \<Rightarrow> list_heads" where
  "list_del e h =
     set_prev e LIST_POISON2 (set_next e LIST_POISON1 (list_del_raw (lh_prev h e) (lh_next h e) h))"

definition list_empty :: "nat \<Rightarrow> list_heads \<Rightarrow> bool" where
  "list_empty head h \<longleftrightarrow> lh_next h head = head"

text \<open>\<open>list_first_entry\<close>: nodes are named by the structure they are embedded in.\<close>

definition list_first_entry :: "nat \<Rightarrow> list_heads \<Rightarrow> nat" where
  "list_first_entry head h = lh_next h head"

lemmas list_h_defs = INIT_LIST_HEAD_def list_add_raw_def list_add_def list_add_tail_def
  list_del_raw_def list_del_def list_empty_def list_first_entry_def set_next_def set_prev_def

section \<open>What they do to the list\<close>

definition lring :: "nat \<Rightarrow> list_heads \<Rightarrow> nat list \<Rightarrow> bool" where
  "lring head h xs \<longleftrightarrow> ring (lh_next h) (lh_prev h) head xs"

lemma lring_INIT: "lring l (INIT_LIST_HEAD l h) []"
  by (simp add: lring_def ring_empty list_h_defs)

lemma lring_list_add:
  assumes "lring head h xs" and "x \<notin> set (head # xs)"
  shows "lring head (list_add x head h) (x # xs)"
proof -
  have "lh_next h head \<noteq> x"
    using assms by (cases xs) (auto simp: lring_def ring_def)
  then have "(lh_prev h)(lh_next h head := x, x := head) = (lh_prev h)(x := head, lh_next h head := x)"
    by (auto simp: fun_upd_def)
  then show ?thesis
    using ring_insert_front [OF assms(1)[unfolded lring_def] assms(2)]
    by (simp add: lring_def list_h_defs)
qed

lemma lring_list_add_tail:
  assumes "lring head h xs" and "x \<notin> set (head # xs)"
  shows "lring head (list_add_tail x head h) (xs @ [x])"
proof -
  have "lh_prev h head \<noteq> x" and "head \<noteq> x"
    using assms chain_last [of "lh_next h" "lh_prev h" head xs head]
    by (auto simp: lring_def ring_def split: if_splits)
  then have "(lh_next h)(x := head, lh_prev h head := x) = (lh_next h)(lh_prev h head := x, x := head)"
    by (auto simp: fun_upd_def)
  then show ?thesis
    using ring_insert_back [OF assms(1)[unfolded lring_def] assms(2)]
    by (simp add: lring_def list_h_defs)
qed

lemma lring_list_del:
  assumes "lring head h (xs @ x # ys)"
  shows "lring head (list_del x h) (xs @ ys)"
proof -
  have "ring ((lh_next h)(lh_prev h x := lh_next h x)) ((lh_prev h)(lh_next h x := lh_prev h x)) head (xs @ ys)"
    using assms unfolding lring_def by (rule ring_unlink)
  moreover have "x \<notin> insert head (set (xs @ ys))"
    using assms by (auto simp: lring_def ring_def)
  ultimately show ?thesis
    unfolding lring_def list_h_defs by (subst ring_cong [symmetric]) auto
qed

lemma lring_list_empty: "lring head h xs \<Longrightarrow> list_empty head h \<longleftrightarrow> xs = []"
  by (simp add: lring_def list_empty_def ring_is_empty)

lemma lring_first: "lring head h (x # xs) \<Longrightarrow> list_first_entry head h = x"
  by (simp add: lring_def list_first_entry_def ring_first)

section \<open>The interface of a request queue\<close>

locale fifo =
  fixes rep :: "'q \<Rightarrow> 'a list \<Rightarrow> bool"
    and fits :: "'a \<Rightarrow> bool"
    and enq :: "'a \<Rightarrow> 'q \<Rightarrow> 'q"
    and deq :: "'q \<Rightarrow> 'q"
    and front :: "'q \<Rightarrow> 'a"
    and is_empty :: "'q \<Rightarrow> bool"
  assumes rep_enq: "rep q xs \<Longrightarrow> fits x \<Longrightarrow> x \<notin> set xs \<Longrightarrow> rep (enq x q) (xs @ [x])"
    and rep_deq: "rep q (x # xs) \<Longrightarrow> rep (deq q) xs"
    and rep_front: "rep q (x # xs) \<Longrightarrow> front q = x"
    and rep_is_empty: "rep q xs \<Longrightarrow> is_empty q \<longleftrightarrow> xs = []"
begin

text \<open>What is at the front after a request has joined, and after the front one has left.\<close>

lemma front_enq: "rep q xs \<Longrightarrow> fits x \<Longrightarrow> x \<notin> set xs \<Longrightarrow> front (enq x q) = (if xs = [] then x else hd xs)"
  using rep_front [of "enq x q" "hd (xs @ [x])" "tl (xs @ [x])"] rep_enq [of q xs x]
  by (cases xs) auto

lemma deq_is_empty: "rep q (x # xs) \<Longrightarrow> is_empty (deq q) \<longleftrightarrow> xs = []"
  using rep_is_empty rep_deq by blast

lemma front_deq: "rep q (x # y # xs) \<Longrightarrow> front (deq q) = y"
  using rep_front rep_deq by blast

end

end
