(* ===== verification/Sd.thy ===== *)
theory Sd
  imports Sleeplock Klist
begin

text \<open>
  The request side of the SD driver, \<open>kern/sd.c\<close>: the queue of buffers waiting for the card, the
  start of a transfer, the interrupt handler and \<open>sdrw\<close>. The card and its controller are outside
  the program. They appear as the fields \<open>disk\<close> (block store), \<open>card_req\<close> (transfer in flight),
  \<open>emmc_int\<close> and \<open>emmc_fifo\<close> (controller registers), \<open>sd_send\<close> and \<open>sd_wrdy\<close> (the codes
  \<open>sdSendCommandA\<close> and the wait for write-ready return), and as the step \<open>card_irq\<close> in which the
  card finishes a transfer. \<open>wlog\<close> records the blocks the card has written, oldest first; no code
  reads it.
\<close>

section \<open>Buffers and device state\<close>

definition BSIZE :: nat where "BSIZE = 512"
definition NBUF :: nat where "NBUF = 30"
definition MBR_BASE :: u32 where "MBR_BASE = 0x20800"
definition B_VALID :: u32 where "B_VALID = 0x2"
definition B_DIRTY :: u32 where "B_DIRTY = 0x4"
definition INT_DATA_DONE :: u32 where "INT_DATA_DONE = 0x2"
definition INT_READ_RDY :: u32 where "INT_READ_RDY = 0x20"

declare BSIZE_def [const_defs] NBUF_def [const_defs] MBR_BASE_def [const_defs] B_VALID_def [const_defs]
  B_DIRTY_def [const_defs] INT_DATA_DONE_def [const_defs] INT_READ_RDY_def [const_defs]

record buf =
  b_flags :: u32
  b_dev :: u32
  b_blockno :: u32
  b_refcnt :: u32
  b_data :: "byte list"
  b_prev :: nat
  b_next :: nat

record biostate = kstate +
  bufs :: "nat \<Rightarrow> buf"
  sdque :: list_heads
  disk :: "u32 \<Rightarrow> byte list"
  wlog :: "(u32 \<times> byte list) list"
  emmc_int :: u32
  emmc_fifo :: "byte list"
  card_req :: "(bool \<times> u32 \<times> byte list) option"
  sd_hc :: bool
  sd_send :: "bool \<Rightarrow> u32 \<Rightarrow> u32"
  sd_wrdy :: "u32 \<Rightarrow> u32"

text \<open>The node of buffer \<open>i\<close> is named \<open>i\<close>; the head \<open>sdque\<close> comes after the buffers.\<close>

definition SDQ :: nat where "SDQ = 30"

definition set_buf :: "nat \<Rightarrow> (buf \<Rightarrow> buf) \<Rightarrow> ('z biostate_scheme, unit) kop" where
  "set_buf i f = upd (\<lambda>s. s\<lparr>bufs := (bufs s)(i := f (bufs s i))\<rparr>)"

lemma set_buf_run [kop_simps]:
  "set_buf i f s = Inr ((), s\<lparr>bufs := (bufs s)(i := f (bufs s i))\<rparr>)"
  by (simp add: set_buf_def kop_simps)

section \<open>Starting a transfer\<close>

definition sd_start :: "nat \<Rightarrow> ('z biostate_scheme, unit) kop" where
  "sd_start i =
     bind (get (\<lambda>s. if sd_hc s then b_blockno (bufs s i) else push_bit 9 (b_blockno (bufs s i)))) (\<lambda>bno.
     bind (get (\<lambda>s. b_flags (bufs s i) AND B_DIRTY \<noteq> 0)) (\<lambda>wr.
     bind (get emmc_int) (\<lambda>irq.
     if irq \<noteq> 0 then panic ''emmc interrupt flag should be empty''
     else bind (get (\<lambda>s. sd_send s wr bno)) (\<lambda>resp.
     if resp \<noteq> 0 then panic ''* EMMC send command error.''
     else if wr then
       bind (get (\<lambda>s. sd_wrdy s bno)) (\<lambda>r.
       if r \<noteq> 0 then panic ''* EMMC ERROR: Timeout waiting for ready to write''
       else upd (\<lambda>s. s\<lparr>card_req := Some (True, bno, b_data (bufs s i))\<rparr>))
     else upd (\<lambda>s. s\<lparr>card_req := Some (False, bno, [])\<rparr>)))))"

section \<open>The card finishes a transfer\<close>

text \<open>
  A high-capacity card takes block numbers, a standard-capacity card byte addresses. A finished
  write is on the medium and raises \<open>INT_DATA_DONE\<close>; a finished read fills the FIFO and raises
  \<open>INT_READ_RDY\<close>.
\<close>

definition card_block :: "bool \<Rightarrow> u32 \<Rightarrow> u32" where
  "card_block hc a = (if hc then a else drop_bit 9 a)"

definition card_irq :: "('z biostate_scheme, unit) kop" where
  "card_irq = upd (\<lambda>s. case card_req s of
     None \<Rightarrow> s
   | Some (wr, a, d) \<Rightarrow>
       if wr then s\<lparr>disk := (disk s)(card_block (sd_hc s) a := d),
                    wlog := wlog s @ [(card_block (sd_hc s) a, d)],
                    emmc_int := INT_DATA_DONE, card_req := None\<rparr>
       else s\<lparr>emmc_fifo := disk s (card_block (sd_hc s) a), emmc_int := INT_READ_RDY, card_req := None\<rparr>)"

section \<open>The interrupt handler\<close>

text \<open>
  Writing the interrupt register clears the bits written. After a read the handler waits for the
  end of the transfer, \<open>INT_DATA_DONE\<close>, and clears it as well. The test in the source reads
  \<open>!write && INT_READ_RDY\<close>: its second operand is a non-zero constant.
\<close>

definition sd_complete :: "nat \<Rightarrow> bool \<Rightarrow> ('z biostate_scheme, unit) kop" where
  "sd_complete b wr =
     seq (if \<not> wr then (\<lambda>s. set_buf b (\<lambda>x. x\<lparr>b_data := emmc_fifo s\<rparr>) s) else ret ())
     (seq (set_buf b (\<lambda>x. x\<lparr>b_flags := b_flags x OR B_VALID\<rparr>))
     (seq (set_buf b (\<lambda>x. x\<lparr>b_flags := b_flags x AND NOT B_DIRTY\<rparr>))
     (seq (wakeup (Cbuf b))
     (seq (upd (\<lambda>s. s\<lparr>sdque := list_del (lh_next (sdque s) SDQ) (sdque s)\<rparr>))
     (bind (get (\<lambda>s. list_empty SDQ (sdque s))) (\<lambda>e.
      if \<not> e then bind (get (\<lambda>s. list_first_entry SDQ (sdque s))) sd_start else ret ()))))))"

definition sd_intr :: "('z biostate_scheme, unit) kop" where
  "sd_intr =
     bind (get (holding Lsd)) (\<lambda>h.
     seq (if \<not> h then acquire Lsd else ret ())
     (seq (bind (get (\<lambda>s. list_empty SDQ (sdque s))) (\<lambda>e.
        if e then ret ()
        else bind (get emmc_int) (\<lambda>i.
        if \<not> (i AND INT_DATA_DONE \<noteq> 0 \<or> i AND INT_READ_RDY \<noteq> 0) then panic ''unexpected sd intr''
        else seq (upd (\<lambda>s. s\<lparr>emmc_int := emmc_int s AND NOT i\<rparr>))
        (bind (get (\<lambda>s. list_first_entry SDQ (sdque s))) (\<lambda>b.
        bind (get (\<lambda>s. b_flags (bufs s b) AND B_DIRTY \<noteq> 0)) (\<lambda>wr.
        if \<not> (wr \<and> i = INT_DATA_DONE \<or> \<not> wr \<and> INT_READ_RDY \<noteq> 0) then sd_start b
        else sd_complete b wr))))))
     (release Lsd)))"

section \<open>Synchronising a buffer with the disk\<close>

text \<open>
  \<open>sdrw\<close> queues its buffer and sleeps until the buffer is up to date. While the process sleeps
  its CPU runs the scheduler, the card finishes transfers, and each interrupt runs \<open>sd_intr\<close>;
  once the process is runnable the scheduler switches back to it. Each round of \<open>irq_rounds\<close> serves
  one queued request, so the fuel is the number of buffers.
\<close>

fun irq_rounds :: "nat \<Rightarrow> nat \<Rightarrow> ('z biostate_scheme, unit) kop" where
  "irq_rounds 0 p = stop Diverge"
| "irq_rounds (Suc n) p =
     seq card_irq (seq sd_intr
     (bind (get (\<lambda>s. p_state (ptable s p))) (\<lambda>st.
      if st = RUNNABLE then ret () else irq_rounds n p)))"

definition synced :: "buf \<Rightarrow> bool" where
  "synced b \<longleftrightarrow> b_flags b AND (B_VALID OR B_DIRTY) = B_VALID"

fun sdrw_wait :: "nat \<Rightarrow> nat \<Rightarrow> ('z biostate_scheme, unit) kop" where
  "sdrw_wait 0 b = stop Diverge"
| "sdrw_wait (Suc n) b =
     bind (get (\<lambda>s. synced (bufs s b))) (\<lambda>done.
     if done then ret ()
     else bind (get thisproc) (\<lambda>p.
       after_switch (seq (sleep_enter (Cbuf b) Lsd) sched)
       (seq scheduler_return
       (deref p (\<lambda>p.
        seq (irq_rounds (Suc NBUF) p)
        (seq (acquire Lptable)
        (seq (dispatch_to p)
        (seq (sleep_resume Lsd)
        (sdrw_wait n b)))))))))"

text \<open>Joining the queue; a request that finds it empty is started at once.\<close>

definition sdrw_enqueue :: "nat \<Rightarrow> ('z biostate_scheme, unit) kop" where
  "sdrw_enqueue b =
     bind (get (\<lambda>s. list_empty SDQ (sdque s))) (\<lambda>e.
     if e then seq (upd (\<lambda>s. s\<lparr>sdque := list_add_tail b SDQ (sdque s)\<rparr>)) (sd_start b)
     else upd (\<lambda>s. s\<lparr>sdque := list_add_tail b SDQ (sdque s)\<rparr>))"

definition sdrw :: "nat \<Rightarrow> ('z biostate_scheme, unit) kop" where
  "sdrw b =
     bind (get (\<lambda>s. synced (bufs s b))) (\<lambda>clean.
     if clean then panic ''sdrw: nothing to do''
     else seq (acquire Lsd)
     (seq (sdrw_enqueue b)
     (seq (sdrw_wait (Suc NBUF) b)
     (release Lsd))))"

definition sd_init_queue :: "('z biostate_scheme, unit) kop" where
  "sd_init_queue =
     seq (upd (\<lambda>s. s\<lparr>sdque := INIT_LIST_HEAD SDQ (sdque s)\<rparr>)) (initlock Lsd ''sdcard'')"

section \<open>One request at a time\<close>

text \<open>
  With an idle card that accepts commands, \<open>sdrw\<close> brings the buffer and the disk into agreement,
  in the direction its flags ask for, and leaves everything else as it was.
\<close>

definition sd_idle :: "'z biostate_scheme \<Rightarrow> bool" where
  "sd_idle s \<longleftrightarrow> lring SDQ (sdque s) [] \<and> emmc_int s = 0 \<and> card_req s = None \<and> sd_hc s \<and>
     (\<forall>w a. sd_send s w a = 0) \<and> (\<forall>a. sd_wrdy s a = 0)"

definition is_dirty :: "buf \<Rightarrow> bool" where "is_dirty b \<longleftrightarrow> b_flags b AND B_DIRTY \<noteq> 0"
definition is_valid :: "buf \<Rightarrow> bool" where "is_valid b \<longleftrightarrow> b_flags b AND B_VALID \<noteq> 0"

lemma and_mask_bit1: "w AND 2 \<noteq> 0 \<longleftrightarrow> bit (w :: u32) 1"
  using and_exp_eq_0_iff_not_bit [of w 1] by simp

lemma and_mask_bit2: "w AND 4 \<noteq> 0 \<longleftrightarrow> bit (w :: u32) 2"
  using and_exp_eq_0_iff_not_bit [of w 2] by simp

lemma bit2u: "bit (2::u32) n \<longleftrightarrow> n = 1" 
  using bit_exp_iff [of 1 n, where 'a=u32] by (auto)
lemma bit4u: "bit (4::u32) n \<longleftrightarrow> n = 2" 
  using bit_exp_iff [of 2 n, where 'a=u32] by (auto)

lemma is_dirty_bit: "is_dirty b \<longleftrightarrow> bit (b_flags b) 2"
  unfolding is_dirty_def B_DIRTY_def by (rule and_mask_bit2)

lemma is_valid_bit: "is_valid b \<longleftrightarrow> bit (b_flags b) 1"
  unfolding is_valid_def B_VALID_def by (rule and_mask_bit1)

lemma synced_iff: "synced b \<longleftrightarrow> is_valid b \<and> \<not> is_dirty b"
proof
  assume "synced b"
  then have *: "b_flags b AND (2 OR 4) = 2" by (simp add: synced_def B_VALID_def B_DIRTY_def)
  have "bit (b_flags b AND (2 OR 4)) 1" "\<not> bit (b_flags b AND (2 OR 4)) 2"
    unfolding * by (simp_all add: bit2u)
  then show "is_valid b \<and> \<not> is_dirty b"
    by (auto simp: is_valid_bit is_dirty_bit bit_and_iff bit_or_iff bit2u bit4u)
next
  assume a: "is_valid b \<and> \<not> is_dirty b"
  have "b_flags b AND (2 OR 4) = 2"
  proof (rule bit_word_eqI)
    fix n
    show "bit (b_flags b AND (2 OR 4)) n = bit (2 :: u32) n"
      unfolding bit_and_iff bit_or_iff bit2u bit4u using a by (auto simp: is_valid_bit is_dirty_bit)
  qed
  then show "synced b" by (simp add: synced_def B_VALID_def B_DIRTY_def)
qed

lemma flags_valid_clean:
  "is_valid (b\<lparr>b_flags := (f OR B_VALID) AND NOT B_DIRTY\<rparr>)"
  "\<not> is_dirty (b\<lparr>b_flags := (f OR B_VALID) AND NOT B_DIRTY\<rparr>)"
  "is_dirty (b\<lparr>b_flags := f OR B_DIRTY\<rparr>)"
  "is_valid (b\<lparr>b_flags := f OR B_DIRTY\<rparr>) \<longleftrightarrow> bit f 1"
  by (auto simp: is_valid_bit is_dirty_bit bit_and_iff bit_or_iff bit_not_iff B_VALID_def B_DIRTY_def bit2u bit4u)

lemma sd_start_run:
  assumes "emmc_int s = 0" "sd_hc s" "\<forall>w a. sd_send s w a = 0" "\<forall>a. sd_wrdy s a = 0"
  shows "sd_start i s = Inr ((), s\<lparr>card_req := Some (is_dirty (bufs s i), b_blockno (bufs s i),
     if is_dirty (bufs s i) then b_data (bufs s i) else [])\<rparr>)"
  using assms by (simp add: sd_start_def kop_simps is_dirty_def)

text \<open>
  The laws of the queue, on the code's own way of joining it (\<open>list_add_tail\<close>) and of leaving it
  (\<open>list_del\<close> of what follows the head).
\<close>

interpretation sdq: fifo "lring SDQ" "\<lambda>b. b < NBUF" "\<lambda>b. list_add_tail b SDQ"
  "\<lambda>q. list_del (lh_next q SDQ) q" "list_first_entry SDQ" "list_empty SDQ"
proof
  show "lring SDQ (list_add_tail x SDQ q) (xs @ [x])" if "lring SDQ q xs" "x < NBUF" "x \<notin> set xs" for q xs x
    using lring_list_add_tail [of SDQ q xs x] that by (simp add: SDQ_def NBUF_def)
  show "lring SDQ (list_del (lh_next q SDQ) q) xs" if "lring SDQ q (x # xs)" for q x xs
    using lring_list_del [of SDQ q "[]" x xs] lring_first [OF that] that by (simp add: list_first_entry_def)
qed (auto intro: lring_first simp: lring_list_empty)

definition card_request :: "buf \<Rightarrow> bool \<times> u32 \<times> byte list" where
  "card_request b = (is_dirty b, b_blockno b, if is_dirty b then b_data b else [])"

definition transferred :: "byte list \<Rightarrow> buf \<Rightarrow> buf" where
  "transferred got b = b\<lparr>b_data := if is_dirty b then b_data b else got,
     b_flags := (b_flags b OR B_VALID) AND NOT B_DIRTY\<rparr>"

text \<open>The handler completes the request at the front of the queue and starts the next one.\<close>

lemma sd_complete_run:
  assumes q: "lring SDQ (sdque s) (b # cs)" and "b \<notin> set cs" and pt: "lk_free (locks s Lptable)"
    and card: "emmc_int s = 0" "sd_hc s" "\<forall>w a. sd_send s w a = 0" "\<forall>a. sd_wrdy s a = 0"
  shows "sd_complete b (is_dirty (bufs s b)) s = Inr ((), s\<lparr>
     ptable := woken (Cbuf b) (ptable s), bufs := (bufs s)(b := transferred (emmc_fifo s) (bufs s b)),
     sdque := list_del (lh_next (sdque s) SDQ) (sdque s),
     card_req := if cs = [] then card_req s else Some (card_request (bufs s (hd cs)))\<rparr>)"
proof -
  have e: "list_empty SDQ (list_del (lh_next (sdque s) SDQ) (sdque s)) \<longleftrightarrow> cs = []"
    using sdq.deq_is_empty [OF q] by simp
  have f: "list_first_entry SDQ (list_del (lh_next (sdque s) SDQ) (sdque s)) = hd cs" "hd cs \<noteq> b" if "cs \<noteq> []"
    using that q sdq.front_deq [of "sdque s" b "hd cs" "tl cs"] assms(2) by (cases cs; auto)+
  define k :: "('a biostate_scheme, unit) kop" where
    "k = bind (get (\<lambda>s. list_empty SDQ (sdque s))) (\<lambda>e.
       if \<not> e then bind (get (\<lambda>s. list_first_entry SDQ (sdque s))) sd_start else ret ())"
  define u where "u = s\<lparr>bufs := (bufs s)(b := transferred (emmc_fifo s) (bufs s b)), ptable := woken (Cbuf b) (ptable s),
     sdque := list_del (lh_next (sdque s) SDQ) (sdque s)\<rparr>"
  have "sd_complete b (is_dirty (bufs s b)) s = k u"
    using pt unfolding sd_complete_def k_def [symmetric]
    by (cases "is_dirty (bufs s b)") (simp_all add: kop_simps wakeup_run u_def transferred_def)
  also have "k u = (if cs = [] then Inr ((), u) else sd_start (hd cs) u)"
    using e f by (simp add: k_def u_def kop_simps)
  also have "\<dots> = Inr ((), u\<lparr>card_req := if cs = [] then card_req s else Some (card_request (bufs s (hd cs)))\<rparr>)"
    using card f(2) sd_start_run [of u "hd cs"] by (simp add: u_def card_request_def)
  finally show ?thesis by (auto simp: u_def intro!: biostate.equality)
qed

lemma sd_intr_serves:
  assumes free: "spin_free s" and q: "lring SDQ (sdque s) (b # cs)" and b: "b \<notin> set cs"
    and i: "emmc_int s = (if is_dirty (bufs s b) then INT_DATA_DONE else INT_READ_RDY)"
    and card: "sd_hc s" "\<forall>w a. sd_send s w a = 0" "\<forall>a. sd_wrdy s a = 0"
  shows "sd_intr s = Inr ((), s\<lparr>
     ptable := woken (Cbuf b) (ptable s), bufs := (bufs s)(b := transferred (emmc_fifo s) (bufs s b)),
     sdque := list_del (lh_next (sdque s) SDQ) (sdque s), emmc_int := 0,
     card_req := if cs = [] then card_req s else Some (card_request (bufs s (hd cs)))\<rparr>)"
proof -
  have e: "\<not> list_empty SDQ (sdque s)" and f: "list_first_entry SDQ (sdque s) = b"
    using q sdq.rep_is_empty [OF q] sdq.rep_front [OF q] by simp_all
  let ?s1 = "s\<lparr>locks := (locks s)(Lsd := (locks s Lsd)\<lparr>lk_locked := True, lk_cpu := Some (this_cpu s)\<rparr>), emmc_int := 0\<rparr>"
  have "lk_free (locks s Lptable)" using free by (simp add: spin_free_def)
  then have "sd_complete b (is_dirty (bufs s b)) ?s1 = Inr ((), ?s1\<lparr>
     ptable := woken (Cbuf b) (ptable s), bufs := (bufs s)(b := transferred (emmc_fifo s) (bufs s b)),
     sdque := list_del (lh_next (sdque s) SDQ) (sdque s),
     card_req := if cs = [] then card_req s else Some (card_request (bufs s (hd cs)))\<rparr>)"
    using sd_complete_run [of ?s1 b cs] q b card by simp
  then show ?thesis
    using free e f i
    by (cases "is_dirty (bufs s b)")
       (simp_all add: sd_intr_def kop_simps lock_simps is_dirty_def [symmetric] INT_DATA_DONE_def INT_READ_RDY_def)
qed

lemma sd_intr_run:
  assumes free: "spin_free s" and q: "lring SDQ (sdque s) [b]"
    and req: "card_req s = None"
    and i: "emmc_int s = (if is_dirty (bufs s b) then INT_DATA_DONE else INT_READ_RDY)"
    and card: "sd_hc s" "\<forall>w a. sd_send s w a = 0" "\<forall>a. sd_wrdy s a = 0"
  shows "sd_intr s = Inr ((), s\<lparr>
     ptable := woken (Cbuf b) (ptable s),
     bufs := (bufs s)(b := (bufs s b)\<lparr>b_data := if is_dirty (bufs s b) then b_data (bufs s b) else emmc_fifo s,
        b_flags := (b_flags (bufs s b) OR B_VALID) AND NOT B_DIRTY\<rparr>),
     sdque := list_del b (sdque s), emmc_int := 0\<rparr>)"
proof -
  have "lh_next (sdque s) SDQ = b" using lring_first [OF q] by (simp add: list_first_entry_def)
  then show ?thesis
    using sd_intr_serves [OF free q _ i card] by (simp add: transferred_def)
qed

lemma sdrw_run:
  assumes free: "spin_free s" and run: "running s p" and idle: "sd_idle s" and b: "b < NBUF"
    and ns: "\<not> synced (bufs s b)"
  shows "\<exists>q. lring SDQ q [] \<and> sdrw b s = Inr ((), s\<lparr>
     ptable := (woken (Cbuf b) (ptable s))(p := (ptable s p)\<lparr>p_chan := None\<rparr>),
     bufs := (bufs s)(b := (bufs s b)\<lparr>
        b_data := if is_dirty (bufs s b) then b_data (bufs s b) else disk s (b_blockno (bufs s b)),
        b_flags := (b_flags (bufs s b) OR B_VALID) AND NOT B_DIRTY\<rparr>),
     sdque := q,
     disk := if is_dirty (bufs s b) then (disk s)(b_blockno (bufs s b) := b_data (bufs s b)) else disk s,
     wlog := if is_dirty (bufs s b) then wlog s @ [(b_blockno (bufs s b), b_data (bufs s b))] else wlog s,
     emmc_fifo := if is_dirty (bufs s b) then emmc_fifo s else disk s (b_blockno (bufs s b))\<rparr>)"
proof -
  have emp: "list_empty SDQ (sdque s)" and ring0: "lring SDQ (sdque s) []" and int0: "emmc_int s = 0"
    and req0: "card_req s = None" and hc: "sd_hc s" and snd: "\<forall>w a. sd_send s w a = 0" "\<forall>a. sd_wrdy s a = 0"
    using idle lring_list_empty by (auto simp: sd_idle_def)
  let ?q1 = "list_add_tail b SDQ (sdque s)"
  have ring1: "lring SDQ ?q1 [b]"
    using lring_list_add_tail [OF ring0, of b] b by (simp add: SDQ_def NBUF_def)
  let ?q = "list_del b ?q1"
  have ring2: "lring SDQ ?q []" using lring_list_del [of SDQ ?q1 "[]" b "[]"] ring1 by simp
  have p: "thisproc s = Some p" "p_state (ptable s p) = RUNNING" "p_pgdir (ptable s p) \<noteq> 0" "p < NPROC"
    "ttbr0 s (this_cpu s) = p_pgdir (ptable s p) - 0xFFFF000000000000" "cpu_proc s (this_cpu s) = Some p"
    using run by (auto simp: running_def thisproc_def)
  let ?d = "is_dirty (bufs s b)"
  let ?req = "(?d, b_blockno (bufs s b), if ?d then b_data (bufs s b) else [])"
  define s1 where "s1 = s\<lparr>sdque := ?q1, card_req := Some ?req\<rparr>"
  define s2 where "s2 = s1\<lparr>ptable := (ptable s)(p := (ptable s p)\<lparr>p_chan := Some (Cbuf b), p_state := SLEEPING\<rparr>),
     cpu_proc := (cpu_proc s)(this_cpu s := None)\<rparr>"
  define s3 where "s3 = s2\<lparr>disk := if ?d then (disk s)(b_blockno (bufs s b) := b_data (bufs s b)) else disk s,
     wlog := if ?d then wlog s @ [(b_blockno (bufs s b), b_data (bufs s b))] else wlog s,
     emmc_fifo := if ?d then emmc_fifo s else disk s (b_blockno (bufs s b)),
     emmc_int := if ?d then INT_DATA_DONE else INT_READ_RDY, card_req := None\<rparr>"
  have c: "card_irq s2 = Inr ((), s3)" 
    by (simp add: card_irq_def kop_simps s3_def s2_def s1_def card_block_def hc)
  define s4 where "s4 = s3\<lparr>ptable := woken (Cbuf b) (ptable s3),
     bufs := (bufs s)(b := (bufs s b)\<lparr>
        b_data := if ?d then b_data (bufs s b) else disk s (b_blockno (bufs s b)),
        b_flags := (b_flags (bufs s b) OR B_VALID) AND NOT B_DIRTY\<rparr>),
     sdque := ?q, emmc_int := 0\<rparr>"
  have i: "sd_intr s3 = Inr ((), s4)"
    using sd_intr_run [of s3 b] free ring1 hc snd
    by (simp add: s4_def s3_def s2_def s1_def spin_free_def)
  have r4: "p_state (ptable s4 p) = RUNNABLE"
    using p by (simp add: s4_def s3_def s2_def s1_def woken_def)
  have irq: "irq_rounds (Suc NBUF) p s2 = Inr ((), s4)"
    by (simp add: kop_simps c i r4)
  have eqs: "(locks s)(Lptable := y, Lsd := locks s Lsd) = (locks s)(Lptable := y)" for y
    by (auto simp: fun_eq_iff)
  have sy: "synced (bufs s4 b)" by (simp add: s4_def synced_iff flags_valid_clean)
  have wait0: "sdrw_wait NBUF b t = Inr ((), t)" if "synced (bufs t b)" for t :: "'a biostate_scheme"
    using that by (simp add: NBUF_def numeral_eq_Suc kop_simps)
  let ?held = "\<lambda>l. (locks s l)\<lparr>lk_locked := True, lk_cpu := Some (this_cpu s)\<rparr>"
  let ?s1L = "s1\<lparr>locks := (locks s)(Lsd := ?held Lsd)\<rparr>"
  define s5 where "s5 = s4\<lparr>cpu_proc := cpu_proc s, ptable := (ptable s4)(p := (ptable s4 p)\<lparr>p_state := RUNNING, p_chan := None\<rparr>)\<rparr>"
  have en: "seq (sleep_enter (Cbuf b) Lsd) sched ?s1L =
     Inl (Switch (s2\<lparr>cpu_proc := cpu_proc s, locks := (locks s)(Lptable := ?held Lptable)\<rparr>))"
    using free p
    by (auto simp: sleep_enter_eq sched_def kop_simps lock_simps s2_def s1_def thisproc_def eqs
        intro!: biostate.equality)
  have ret2: "scheduler_return (s2\<lparr>cpu_proc := cpu_proc s, locks := (locks s)(Lptable := ?held Lptable)\<rparr>) = Inr ((), s2)"
    using free by (auto simp: lock_simps s2_def s1_def intro!: biostate.equality)
  have s4l: "locks s4 = locks s" "this_cpu s4 = this_cpu s" "ttbr0 s4 = ttbr0 s"
    "cpu_proc s4 = (cpu_proc s)(this_cpu s := None)"
    by (simp_all add: s4_def s3_def s2_def s1_def)
  have pg4: "p_pgdir (ptable s4 p) = p_pgdir (ptable s p)"
    using p by (simp add: s4_def s3_def s2_def s1_def woken_def)
  have cp: "(cpu_proc s)(this_cpu s := Some p) = cpu_proc s" 
    "(ttbr0 s)(this_cpu s := p_pgdir (ptable s p) - 0xFFFF000000000000) = ttbr0 s"
    using p by (auto simp: fun_eq_iff)
  have d: "seq (acquire Lptable) (seq (dispatch_to p) (seq (sleep_resume Lsd) (sdrw_wait NBUF b))) s4
     = Inr ((), s5\<lparr>locks := (locks s)(Lsd := ?held Lsd)\<rparr>)"
    using free p sy
    by (auto simp: kop_simps lock_simps sleep_resume_eq thisproc_def s4l pg4 cp s5_def wait0
        intro!: biostate.equality)
  have wait: "sdrw_wait (Suc NBUF) b ?s1L = Inr ((), s5\<lparr>locks := (locks s)(Lsd := ?held Lsd)\<rparr>)"
    using p ns en ret2 irq d
    by (simp add: kop_simps s1_def thisproc_def)
  have pre: "s\<lparr>locks := (locks s)(Lsd := ?held Lsd), sdque := ?q1, card_req := Some ?req\<rparr> = ?s1L"
    by (auto simp: s1_def intro!: biostate.equality)
  have start: "sd_start b (s\<lparr>locks := (locks s)(Lsd := ?held Lsd), sdque := ?q1\<rparr>) = Inr ((), ?s1L)"
    using int0 hc snd by (simp add: sd_start_run flip: pre)
  have s5l: "locks s5 = locks s" "this_cpu s5 = this_cpu s" by (simp_all add: s5_def s4l)
  have "sdrw b s = Inr ((), s5)"
    using emp ns free wait start
    by (auto simp: sdrw_def sdrw_enqueue_def kop_simps lock_simps s5l simp del: sdrw_wait.simps
         intro!: biostate.equality)
  moreover have "(ptable s4)(p := (ptable s4 p)\<lparr>p_state := RUNNING, p_chan := None\<rparr>) =
     (woken (Cbuf b) (ptable s))(p := (ptable s p)\<lparr>p_chan := None\<rparr>)"
    using p(2) by (auto simp: s4_def s3_def s2_def s1_def woken_def fun_eq_iff intro!: proc.equality)
  ultimately show ?thesis
    using ring2 int0 req0
    by (intro exI [of _ ?q] conjI)
       (auto simp: s5_def s4_def s3_def s2_def s1_def intro!: biostate.equality)
qed

section \<open>Many requests\<close>

text \<open>
  The driver with any number of requests under way: the events are a process queueing a buffer, up
  to where it goes to sleep and gives up the lock, and the card finishing a transfer and
  interrupting. An interrupt on an empty queue is a spurious one.
\<close>

datatype sd_event = Request nat | Interrupt

primrec sd_event_op :: "sd_event \<Rightarrow> ('z biostate_scheme, unit) kop" where
  "sd_event_op (Request b) = seq (acquire Lsd) (seq (sdrw_enqueue b) (release Lsd))"
| "sd_event_op Interrupt = seq card_irq sd_intr"

fun sd_events :: "sd_event list \<Rightarrow> ('z biostate_scheme, unit) kop" where
  "sd_events [] = ret ()"
| "sd_events (e # es) = seq (sd_event_op e) (sd_events es)"

text \<open>
  What it promises: a server that keeps its requests in a list, adds a new one at the end, and at
  each interrupt carries out the first.
\<close>

record sd_server =
  sv_queue :: "nat list"
  sv_bufs :: "nat \<Rightarrow> buf"
  sv_disk :: "u32 \<Rightarrow> byte list"
  sv_wlog :: "(u32 \<times> byte list) list"
  sv_ptable :: "nat \<Rightarrow> proc"

definition sv_serve :: "nat \<Rightarrow> sd_server \<Rightarrow> sd_server" where
  "sv_serve b v =
     (let n = b_blockno (sv_bufs v b); d = b_data (sv_bufs v b);
          w = v\<lparr>sv_bufs := (sv_bufs v)(b := transferred (sv_disk v n) (sv_bufs v b)),
                sv_ptable := woken (Cbuf b) (sv_ptable v)\<rparr> in
      if is_dirty (sv_bufs v b) then w\<lparr>sv_disk := (sv_disk v)(n := d), sv_wlog := sv_wlog v @ [(n, d)]\<rparr>
      else w)"

fun sv_event :: "sd_event \<Rightarrow> sd_server \<Rightarrow> sd_server" where
  "sv_event (Request b) v = v\<lparr>sv_queue := sv_queue v @ [b]\<rparr>"
| "sv_event Interrupt v = (case sv_queue v of [] \<Rightarrow> v | b # bs \<Rightarrow> (sv_serve b v)\<lparr>sv_queue := bs\<rparr>)"

text \<open>A buffer is queued at most once at a time: its user holds its sleep lock.\<close>

fun sv_legal :: "sd_event list \<Rightarrow> nat list \<Rightarrow> bool" where
  "sv_legal [] bs \<longleftrightarrow> True"
| "sv_legal (Request b # es) bs \<longleftrightarrow> b < NBUF \<and> b \<notin> set bs \<and> sv_legal es (bs @ [b])"
| "sv_legal (Interrupt # es) bs \<longleftrightarrow> sv_legal es (tl bs)"

text \<open>The driver in the state of the server: the card works on the first request.\<close>

definition sd_serving :: "sd_server \<Rightarrow> 'z biostate_scheme \<Rightarrow> bool" where
  "sd_serving v s \<longleftrightarrow> spin_free s \<and> distinct (sv_queue v) \<and> lring SDQ (sdque s) (sv_queue v) \<and>
     emmc_int s = 0 \<and> sd_hc s \<and> (\<forall>w a. sd_send s w a = 0) \<and> (\<forall>a. sd_wrdy s a = 0) \<and>
     card_req s = (case sv_queue v of [] \<Rightarrow> None | b # _ \<Rightarrow> Some (card_request (bufs s b))) \<and>
     bufs s = sv_bufs v \<and> disk s = sv_disk v \<and> wlog s = sv_wlog v \<and> ptable s = sv_ptable v"

lemma sd_request_run:
  assumes "spin_free s" and "lring SDQ (sdque s) bs"
    and "emmc_int s = 0" "sd_hc s" "\<forall>w a. sd_send s w a = 0" "\<forall>a. sd_wrdy s a = 0"
  shows "sd_event_op (Request b) s = Inr ((), s\<lparr>sdque := list_add_tail b SDQ (sdque s),
     card_req := if bs = [] then Some (card_request (bufs s b)) else card_req s\<rparr>)"
proof -
  let ?held = "(locks s)(Lsd := (locks s Lsd)\<lparr>lk_locked := True, lk_cpu := Some (this_cpu s)\<rparr>)"
  have e: "list_empty SDQ (sdque s) \<longleftrightarrow> bs = []" by (rule sdq.rep_is_empty [OF assms(2)])
  have "sdrw_enqueue b (s\<lparr>locks := ?held\<rparr>) = Inr ((), s\<lparr>locks := ?held, sdque := list_add_tail b SDQ (sdque s),
     card_req := if bs = [] then Some (card_request (bufs s b)) else card_req s\<rparr>)"
    using e assms by (cases "bs = []") (simp_all add: sdrw_enqueue_def sd_start_run card_request_def kop_simps)
  then show ?thesis
    using assms(1) by (simp add: kop_simps lock_simps)
qed

lemma sd_serving_request:
  assumes "sd_serving v s" and "b < NBUF" and "b \<notin> set (sv_queue v)"
  shows "\<exists>t. sd_event_op (Request b) s = Inr ((), t) \<and> sd_serving (sv_event (Request b) v) t"
proof -
  have q: "lring SDQ (sdque s) (sv_queue v)" using assms(1) by (auto simp: sd_serving_def)
  have "lring SDQ (list_add_tail b SDQ (sdque s)) (sv_queue v @ [b])"
    by (rule sdq.rep_enq [OF q assms(2,3)])
  then show ?thesis
    using assms(1,3) q sd_request_run [of s "sv_queue v" b]
    by (simp add: sd_serving_def spin_free_def split: list.split)
qed

lemma sd_serving_interrupt:
  assumes "sd_serving v s"
  shows "\<exists>t. sd_event_op Interrupt s = Inr ((), t) \<and> sd_serving (sv_event Interrupt v) t"
proof (cases "sv_queue v")
  case Nil
  then have "list_empty SDQ (sdque s)" "card_req s = None" "spin_free s"
    using assms sdq.rep_is_empty [of "sdque s" "[]"] by (auto simp: sd_serving_def)
  then have "sd_intr s = Inr ((), s)" "card_irq s = Inr ((), s)"
    by (simp_all add: sd_intr_def card_irq_def lock_simps bind_def get_def ret_def upd_def)
  with Nil assms show ?thesis by (simp add: kop_simps)
next
  case (Cons b cs)
  let ?b = "bufs s b"
  have q: "lring SDQ (sdque s) (b # cs)" and b: "b \<notin> set cs" and req: "card_req s = Some (card_request ?b)"
    using assms Cons by (auto simp: sd_serving_def)
  let ?s1 = "if is_dirty ?b then s\<lparr>disk := (disk s)(b_blockno ?b := b_data ?b), wlog := wlog s @ [(b_blockno ?b, b_data ?b)],
        emmc_int := INT_DATA_DONE, card_req := None\<rparr>
      else s\<lparr>emmc_fifo := disk s (b_blockno ?b), emmc_int := INT_READ_RDY, card_req := None\<rparr>"
  have c: "card_irq s = Inr ((), ?s1)"
    using assms req by (simp add: card_irq_def kop_simps card_request_def card_block_def sd_serving_def)
  let ?t = "?s1\<lparr>
     ptable := woken (Cbuf b) (ptable s), bufs := (bufs s)(b := transferred (emmc_fifo ?s1) ?b),
     sdque := list_del (lh_next (sdque s) SDQ) (sdque s), emmc_int := 0,
     card_req := if cs = [] then None else Some (card_request (bufs s (hd cs)))\<rparr>"
  have "sd_intr ?s1 = Inr ((), ?t)"
    using sd_intr_serves [of ?s1 b cs] q b assms by (simp add: sd_serving_def spin_free_def)
  then have "sd_event_op Interrupt s = Inr ((), ?t)" using c by (simp add: kop_simps)
  moreover have "lring SDQ (list_del (lh_next (sdque s) SDQ) (sdque s)) cs" by (rule sdq.rep_deq [OF q])
  then have "sd_serving (sv_event Interrupt v) ?t"
    using assms Cons b
    by (cases "is_dirty ?b"; cases cs)
       (simp_all add: sd_serving_def sv_serve_def Let_def spin_free_def transferred_def)
  ultimately show ?thesis by blast
qed

text \<open>
  C13. The driver serves its requests in the order of their arrival: whatever the sequence of
  requests, each joining the queue through the code of \<open>sdrw\<close>, and of interrupts, each handled by
  \<open>sd_intr\<close>, buffers, disk, the blocks written and their order, and the process table are those of
  a server that always carries out the oldest request first: it moves the data in the direction the
  buffer's flags ask for, marks the buffer valid and clean, and wakes its sleepers, and no others.
\<close>

theorem sd_queue_in_order:
  assumes "sd_serving v s" and "sv_legal es (sv_queue v)"
  shows "\<exists>t. sd_events es s = Inr ((), t) \<and> sd_serving (fold sv_event es v) t"
  using assms
proof (induction es arbitrary: s v)
  case Nil
  then show ?case by (simp add: kop_simps)
next
  case (Cons e es)
  obtain t where t: "sd_event_op e s = Inr ((), t)" "sd_serving (sv_event e v) t"
    using Cons.prems sd_serving_request sd_serving_interrupt by (cases e) fastforce+
  have "sv_legal es (sv_queue (sv_event e v))"
    using Cons.prems(2) by (cases e) (auto split: list.splits)
  from Cons.IH [OF t(2) this] t(1) show ?case by (simp add: kop_simps)
qed

text \<open>Buffer 4 is to be written to block 9, then buffer 2 to be read from it.\<close>

definition demo_sd :: biostate where
  "demo_sd = kstate.extend demo_sched
     \<lparr>bufs = (\<lambda>i. \<lparr>b_flags = if i = 4 then B_DIRTY else 0, b_dev = 1, b_blockno = 9, b_refcnt = 1,
        b_data = if i = 4 then [1, 2, 3] else [], b_prev = 0, b_next = 0\<rparr>),
      sdque = \<lparr>lh_next = (\<lambda>i. i), lh_prev = (\<lambda>i. i)\<rparr>, disk = (\<lambda>_. [7]), wlog = [], emmc_int = 0, emmc_fifo = [],
      card_req = None, sd_hc = True, sd_send = (\<lambda>_ _. 0), sd_wrdy = (\<lambda>_. 0)\<rparr>"

definition demo_server :: sd_server where
  "demo_server = \<lparr>sv_queue = [], sv_bufs = bufs demo_sd, sv_disk = disk demo_sd, sv_wlog = [],
     sv_ptable = ptable demo_sd\<rparr>"

theorem sd_queue_in_order_witness:
  "\<exists>t. sd_events [Request 4, Request 2, Interrupt, Interrupt] demo_sd = Inr ((), t) \<and>
     b_data (bufs t 2) = [1, 2, 3] \<and> wlog t = [(9, [1, 2, 3])] \<and> list_empty SDQ (sdque t)"
proof -
  have "lring SDQ (sdque demo_sd) []"
    by (simp add: demo_sd_def kstate.defs lring_def ring_empty)
  then have "sd_serving demo_server demo_sd"
    by (simp add: sd_serving_def demo_server_def demo_sd_def kstate.defs spin_free_def demo_sched_def lk_free_def)
  moreover have "sv_legal [Request 4, Request 2, Interrupt, Interrupt] (sv_queue demo_server)"
    by (simp add: demo_server_def NBUF_def)
  ultimately have "\<exists>t. sd_events [Request 4, Request 2, Interrupt, Interrupt] demo_sd = Inr ((), t) \<and>
      sd_serving (fold sv_event [Request 4, Request 2, Interrupt, Interrupt] demo_server) t"
    by (rule sd_queue_in_order)
  then obtain t where t: "sd_events [Request 4, Request 2, Interrupt, Interrupt] demo_sd = Inr ((), t)"
    "sd_serving (fold sv_event [Request 4, Request 2, Interrupt, Interrupt] demo_server) t"
    by blast
  from t(2) have "bufs t 2 = transferred [1, 2, 3] (bufs demo_sd 2)" "wlog t = [(9, [1, 2, 3])]" "lring SDQ (sdque t) []"
    by (simp_all add: sd_serving_def demo_server_def demo_sd_def kstate.defs sv_serve_def Let_def transferred_def
        is_dirty_def B_DIRTY_def)
  moreover have "b_data (transferred [1, 2, 3] (bufs demo_sd 2)) = [1, 2, 3]"
    by (simp add: demo_sd_def kstate.defs transferred_def is_dirty_def)
  ultimately show ?thesis using t(1) by (auto simp: lring_list_empty)
qed

end
