(* ===== verification/Bio.thy ===== *)
theory Bio
  imports Sd
begin

text \<open>
  The buffer cache, \<open>kern/bio.c\<close>. The thirty buffers are the indices below \<open>NBUF\<close> of \<open>bufs\<close> and
  \<open>bcache.head\<close> is the index \<open>HEAD\<close>; the list of buffers in order of use runs through their
  \<open>b_next\<close> and \<open>b_prev\<close> fields. The abstract view of the cache is a block store: \<open>bview\<close> is the
  content of every block as the rest of the kernel sees it, \<open>bdirty\<close> the blocks pinned by the log,
  \<open>bheld\<close> the blocks whose buffer is in use. The laws at the end say what each routine does to
  that view; the locale \<open>block_cache\<close> collects them for the clients of the cache.
\<close>

unbundle bit_operations_syntax

section \<open>The routines\<close>

definition HEAD :: nat where "HEAD = 30"

definition binit_step :: "nat \<Rightarrow> ('z biostate_scheme, unit) kop" where
  "binit_step b =
     seq (\<lambda>s. set_buf b (\<lambda>x. x\<lparr>b_next := b_next (bufs s HEAD)\<rparr>) s)
     (seq (set_buf b (\<lambda>x. x\<lparr>b_prev := HEAD\<rparr>))
     (seq (initsleeplock (Sbuf b) ''buffer'')
     (seq (\<lambda>s. set_buf (b_next (bufs s HEAD)) (\<lambda>x. x\<lparr>b_prev := b\<rparr>) s)
     (set_buf HEAD (\<lambda>x. x\<lparr>b_next := b\<rparr>)))))"

fun binit_loop :: "nat list \<Rightarrow> ('z biostate_scheme, unit) kop" where
  "binit_loop [] = ret ()"
| "binit_loop (b # bs) = seq (binit_step b) (binit_loop bs)"

definition binit :: "('z biostate_scheme, unit) kop" where
  "binit =
     seq (initlock Lbcache ''bcache'')
     (seq (set_buf HEAD (\<lambda>x. x\<lparr>b_prev := HEAD, b_next := HEAD\<rparr>))
     (binit_loop [0..<NBUF]))"

text \<open>
  Both loops of \<open>bget\<close> walk the list from the head until they are back at it. \<open>Some None\<close>: the
  walk ended without a hit; \<open>None\<close>: it did not end within the fuel.
\<close>

fun bget_scan :: "nat \<Rightarrow> (nat \<Rightarrow> buf) \<Rightarrow> (buf \<Rightarrow> nat) \<Rightarrow> (buf \<Rightarrow> bool) \<Rightarrow> nat \<Rightarrow> nat option option" where
  "bget_scan 0 B dir P b = None"
| "bget_scan (Suc n) B dir P b =
     (if b = HEAD then Some None
      else if P (B b) then Some (Some b)
      else bget_scan n B dir P (dir (B b)))"

definition bget :: "u32 \<Rightarrow> u32 \<Rightarrow> ('z biostate_scheme, nat) kop" where
  "bget dev blockno =
     seq (acquire Lbcache)
     (bind (get (\<lambda>s. bget_scan (Suc NBUF) (bufs s) b_next
        (\<lambda>b. b_dev b = dev \<and> b_blockno b = blockno) (b_next (bufs s HEAD)))) (\<lambda>hit.
      case hit of
        None \<Rightarrow> stop Diverge
      | Some (Some b) \<Rightarrow>
          seq (set_buf b (\<lambda>x. x\<lparr>b_refcnt := b_refcnt x + 1\<rparr>))
          (seq (release Lbcache) (seq (acquiresleep (Sbuf b)) (ret b)))
      | Some None \<Rightarrow>
          bind (get (\<lambda>s. bget_scan (Suc NBUF) (bufs s) b_prev
             (\<lambda>b. b_refcnt b = 0 \<and> b_flags b AND B_DIRTY = 0) (b_prev (bufs s HEAD)))) (\<lambda>victim.
          case victim of
            None \<Rightarrow> stop Diverge
          | Some (Some b) \<Rightarrow>
              seq (set_buf b (\<lambda>x. x\<lparr>b_dev := dev, b_blockno := blockno, b_flags := 0, b_refcnt := 1\<rparr>))
              (seq (release Lbcache) (seq (acquiresleep (Sbuf b)) (ret b)))
          | Some None \<Rightarrow> panic ''bget: no buffers'')))"

definition bread :: "u32 \<Rightarrow> u32 \<Rightarrow> ('z biostate_scheme, nat) kop" where
  "bread dev blockno =
     bind (bget dev (blockno + MBR_BASE)) (\<lambda>b.
     bind (get (\<lambda>s. b_flags (bufs s b) AND B_VALID = 0)) (\<lambda>stale.
     seq (if stale then sdrw b else ret ()) (ret b)))"

definition bwrite :: "nat \<Rightarrow> ('z biostate_scheme, unit) kop" where
  "bwrite b =
     bind (holdingsleep (Sbuf b)) (\<lambda>h.
     if \<not> h then panic ''bwrite''
     else seq (set_buf b (\<lambda>x. x\<lparr>b_flags := b_flags x OR B_DIRTY\<rparr>)) (sdrw b))"

text \<open>Unlinking a buffer, and linking it behind the head again.\<close>

definition bunlink :: "nat \<Rightarrow> ('z biostate_scheme, unit) kop" where
  "bunlink b =
     seq (\<lambda>s. set_buf (b_next (bufs s b)) (\<lambda>x. x\<lparr>b_prev := b_prev (bufs s b)\<rparr>) s)
     (\<lambda>s. set_buf (b_prev (bufs s b)) (\<lambda>x. x\<lparr>b_next := b_next (bufs s b)\<rparr>) s)"

definition blink :: "nat \<Rightarrow> ('z biostate_scheme, unit) kop" where
  "blink b =
     seq (\<lambda>s. set_buf b (\<lambda>x. x\<lparr>b_next := b_next (bufs s HEAD)\<rparr>) s)
     (seq (set_buf b (\<lambda>x. x\<lparr>b_prev := HEAD\<rparr>))
     (seq (\<lambda>s. set_buf (b_next (bufs s HEAD)) (\<lambda>x. x\<lparr>b_prev := b\<rparr>) s)
     (set_buf HEAD (\<lambda>x. x\<lparr>b_next := b\<rparr>))))"

definition brelse :: "nat \<Rightarrow> ('z biostate_scheme, unit) kop" where
  "brelse b =
     bind (holdingsleep (Sbuf b)) (\<lambda>h.
     if \<not> h then panic ''brelse''
     else seq (releasesleep (Sbuf b))
     (seq (acquire Lbcache)
     (seq (set_buf b (\<lambda>x. x\<lparr>b_refcnt := b_refcnt x - 1\<rparr>))
     (bind (get (\<lambda>s. b_refcnt (bufs s b) = 0)) (\<lambda>z.
     seq (if z then seq (bunlink b) (blink b) else ret ())
     (release Lbcache))))))"

section \<open>Walking the list\<close>

definition nxt :: "(nat \<Rightarrow> buf) \<Rightarrow> nat \<Rightarrow> nat" where "nxt B = (\<lambda>i. b_next (B i))"
definition prv :: "(nat \<Rightarrow> buf) \<Rightarrow> nat \<Rightarrow> nat" where "prv B = (\<lambda>i. b_prev (B i))"

lemma nxt_upd: "nxt (B(i := b)) = (nxt B)(i := b_next b)" and prv_upd: "prv (B(i := b)) = (prv B)(i := b_prev b)"
  by (auto simp: nxt_def prv_def)

lemma bget_scan_chain:
  assumes "chain (\<lambda>i. dir (B i)) pv a xs HEAD" and "HEAD \<notin> set xs" and "length xs < n"
  shows "bget_scan n B dir P (dir (B a)) = Some (List.find (\<lambda>i. P (B i)) xs)"
  using assms
proof (induction xs arbitrary: a n)
  case Nil
  then show ?case by (cases n) auto
next
  case (Cons x xs)
  then obtain m where n: "n = Suc m" by (cases n) auto
  have "bget_scan m B dir P (dir (B x)) = Some (List.find (\<lambda>i. P (B i)) xs)"
    using Cons.prems n by (intro Cons.IH) auto
  then show ?case using Cons.prems n by auto
qed

declare bget_scan.simps [simp del]

definition lru :: "(nat \<Rightarrow> buf) \<Rightarrow> nat list \<Rightarrow> bool" where
  "lru B xs \<longleftrightarrow> ring (nxt B) (prv B) HEAD xs \<and> set xs = {0..<NBUF}"

lemma lru_length: "lru B xs \<Longrightarrow> length xs = NBUF"
  using distinct_card [of xs] by (auto simp: lru_def ring_def)

lemma bget_scan_next:
  assumes "lru B xs"
  shows "bget_scan (Suc NBUF) B b_next P (b_next (B HEAD)) = Some (List.find (\<lambda>i. P (B i)) xs)"
  using assms lru_length [OF assms]
  by (intro bget_scan_chain [where pv = "prv B"]) (auto simp: lru_def ring_def nxt_def)

lemma bget_scan_prev:
  assumes "lru B xs"
  shows "bget_scan (Suc NBUF) B b_prev P (b_prev (B HEAD)) = Some (List.find (\<lambda>i. P (B i)) (rev xs))"
proof -
  have "ring (prv B) (nxt B) HEAD (rev xs)" using assms by (intro ring_rev [THEN iffD1]) (simp add: lru_def)
  then show ?thesis using assms lru_length [OF assms]
    by (intro bget_scan_chain [where pv = "nxt B"]) (auto simp: ring_def prv_def)
qed

lemma lru_cong: "(\<And>i. b_next (B' i) = b_next (B i)) \<Longrightarrow> (\<And>i. b_prev (B' i) = b_prev (B i)) \<Longrightarrow> lru B' xs = lru B xs"
  by (simp add: lru_def nxt_def prv_def)

end
