(* ===== verification/Bcache.thy ===== *)
theory Bcache
  imports Bio
begin

text \<open>
  The buffer cache as its clients see it. \<open>bio_inv\<close> is the invariant of the cache between two kernel
  routines of one process: the buffers form one ring, no block is cached twice, a buffer is locked
  exactly when it is referenced, and a clean unlocked buffer agrees with the disk. \<open>babs\<close> maps a
  state to an abstract block store, the record \<open>bstore\<close>; \<open>bread\<close>, \<open>bwrite\<close>, \<open>brelse\<close> and the updates
  of a held buffer refine one operation of it each. The locale \<open>block_cache\<close> states these laws for
  the clients of the cache and derives what reading and copying whole blocks does.
\<close>

unbundle bit_operations_syntax

section \<open>The invariant\<close>

definition curpid :: "'z kstate_scheme \<Rightarrow> int" where
  "curpid s = (case thisproc s of Some p \<Rightarrow> p_pid (ptable s p) | None \<Rightarrow> 0)"

definition buf_ok :: "u32 \<Rightarrow> 'z biostate_scheme \<Rightarrow> nat \<Rightarrow> bool" where
  "buf_ok D s i \<longleftrightarrow> (let b = bufs s i; l = slocks s (Sbuf i) in
     length (b_data b) = BSIZE \<and>
     (b_dev b = D \<and> is_valid b \<or> b_dev b = 0 \<and> \<not> is_dirty b \<and> \<not> sl_locked l) \<and>
     (if sl_locked l then b_refcnt b = 1 \<and> sl_pid l = curpid s else b_refcnt b = 0) \<and>
     (b_dev b = D \<and> \<not> sl_locked l \<and> \<not> is_dirty b \<longrightarrow> b_data b = disk s (b_blockno b)))"

definition bio_inv :: "u32 \<Rightarrow> 'z biostate_scheme \<Rightarrow> bool" where
  "bio_inv D s \<longleftrightarrow> D \<noteq> 0 \<and> spin_free s \<and> sd_idle s \<and> (\<exists>p. running s p) \<and>
     (\<exists>xs. lru (bufs s) xs) \<and> (\<forall>a. length (disk s a) = BSIZE) \<and> (\<forall>i<NBUF. buf_ok D s i) \<and>
     inj_on (\<lambda>i. b_blockno (bufs s i)) {i. i < NBUF \<and> b_dev (bufs s i) = D}"

text \<open>What the cache leaves alone.\<close>

definition bframe :: "'z biostate_scheme \<Rightarrow> 'z biostate_scheme \<Rightarrow> bool" where
  "bframe s t \<longleftrightarrow> kframe s t \<and> (\<forall>k. slocks t (Sinode k) = slocks s (Sinode k)) \<and>
     biostate.more t = biostate.more s"

section \<open>The view\<close>

definition bslot :: "u32 \<Rightarrow> 'z biostate_scheme \<Rightarrow> u32 \<Rightarrow> nat option" where
  "bslot D s b = List.find (\<lambda>i. b_dev (bufs s i) = D \<and> b_blockno (bufs s i) = b + MBR_BASE) [0..<NBUF]"

definition bdisk :: "'z biostate_scheme \<Rightarrow> u32 \<Rightarrow> byte list" where
  "bdisk s b = disk s (b + MBR_BASE)"

definition bview :: "u32 \<Rightarrow> 'z biostate_scheme \<Rightarrow> u32 \<Rightarrow> byte list" where
  "bview D s b = (case bslot D s b of Some i \<Rightarrow> b_data (bufs s i) | None \<Rightarrow> bdisk s b)"

definition bheld :: "u32 \<Rightarrow> 'z biostate_scheme \<Rightarrow> u32 \<Rightarrow> nat option" where
  "bheld D s b = (case bslot D s b of
     Some i \<Rightarrow> if sl_locked (slocks s (Sbuf i)) then Some i else None | None \<Rightarrow> None)"

definition bdirty :: "u32 \<Rightarrow> 'z biostate_scheme \<Rightarrow> u32 set" where
  "bdirty D s = {b. case bslot D s b of Some i \<Rightarrow> is_dirty (bufs s i) | None \<Rightarrow> False}"

definition bwlog :: "'z biostate_scheme \<Rightarrow> (u32 \<times> byte list) list" where
  "bwlog s = map (\<lambda>(a, d). (a - MBR_BASE, d)) (wlog s)"

lemma bframe_refl [simp]: "bframe s s"
  by (simp add: bframe_def)

lemma bframe_trans [trans]: "bframe s t \<Longrightarrow> bframe t u \<Longrightarrow> bframe s u"
  unfolding bframe_def using kframe_trans by metis

lemma kframe_curpid: "kframe s t \<Longrightarrow> curpid t = curpid s"
  by (simp add: curpid_def kframe_thisproc kframe_pid split: option.split)

lemma bio_invD:
  assumes "bio_inv D s"
  shows "spin_free s" "sd_idle s" "\<exists>p. running s p" "D \<noteq> 0" "\<And>a. length (disk s a) = BSIZE"
    "\<And>i. i < NBUF \<Longrightarrow> buf_ok D s i"
  using assms by (auto simp: bio_inv_def)

lemma bio_inv_inj:
  assumes "bio_inv D s" and "i < NBUF" "b_dev (bufs s i) = D" "j < NBUF" "b_dev (bufs s j) = D"
    "b_blockno (bufs s j) = b_blockno (bufs s i)"
  shows "j = i"
proof -
  have "inj_on (\<lambda>i. b_blockno (bufs s i)) {i. i < NBUF \<and> b_dev (bufs s i) = D}"
    using assms(1) by (simp add: bio_inv_def)
  then show ?thesis using assms(2-) by (auto dest: inj_onD)
qed

lemma find_unique:
  assumes "x \<in> set xs" "P x" "\<And>y. y \<in> set xs \<Longrightarrow> P y \<Longrightarrow> y = x"
  shows "List.find P xs = Some x"
proof (cases "List.find P xs")
  case (Some y)
  then have "y \<in> set xs" "P y" by (auto simp: find_Some_iff)
  then show ?thesis using assms(3) Some by simp
qed (use assms(1,2) in \<open>auto simp: find_None_iff\<close>)

lemma bslot_iff:
  assumes "bio_inv D s"
  shows "bslot D s b = Some i \<longleftrightarrow> i < NBUF \<and> b_dev (bufs s i) = D \<and> b_blockno (bufs s i) = b + MBR_BASE"
proof
  assume "bslot D s b = Some i"
  then show "i < NBUF \<and> b_dev (bufs s i) = D \<and> b_blockno (bufs s i) = b + MBR_BASE"
    by (auto simp: bslot_def find_Some_iff)
next
  assume i: "i < NBUF \<and> b_dev (bufs s i) = D \<and> b_blockno (bufs s i) = b + MBR_BASE"
  show "bslot D s b = Some i"
    unfolding bslot_def
  proof (rule find_unique)
    fix j assume "j \<in> set [0..<NBUF]" "b_dev (bufs s j) = D \<and> b_blockno (bufs s j) = b + MBR_BASE"
    then show "j = i" using bio_inv_inj [OF assms, of i j] i by simp
  qed (use i in auto)
qed

lemma bslot_None: "bslot D s b = None \<longleftrightarrow> (\<forall>i<NBUF. \<not> (b_dev (bufs s i) = D \<and> b_blockno (bufs s i) = b + MBR_BASE))"
  by (auto simp: bslot_def find_None_iff)

lemma bget_first:
  assumes "bio_inv D s"
  shows "bget_scan (Suc NBUF) (bufs s) b_next (\<lambda>c. b_dev c = D \<and> b_blockno c = b + MBR_BASE) (b_next (bufs s HEAD))
     = Some (bslot D s b)"
proof -
  obtain xs where xs: "lru (bufs s) xs" using assms by (auto simp: bio_inv_def)
  let ?P = "\<lambda>i. b_dev (bufs s i) = D \<and> b_blockno (bufs s i) = b + MBR_BASE"
  have "List.find ?P xs = bslot D s b"
  proof (cases "bslot D s b")
    case None
    then have "List.find ?P xs = None"
      using xs by (auto simp: bslot_None find_None_iff lru_def)
    with None show ?thesis by simp
  next
    case (Some i)
    then have i: "i < NBUF" "?P i" by (simp_all add: bslot_iff [OF assms])
    have "List.find ?P xs = Some i"
    proof (rule find_unique)
      fix j assume "j \<in> set xs" "?P j"
      then show "j = i" using bio_inv_inj [OF assms i(1), of j] i xs by (simp add: lru_def)
    qed (use i xs in \<open>auto simp: lru_def\<close>)
    with Some show ?thesis by simp
  qed
  then show ?thesis using xs by (simp add: bget_scan_next)
qed

lemma bget_hit:
  assumes inv: "bio_inv D s" and b: "bslot D s b = Some i" and h: "bheld D s b = None"
  shows "bget D (b + MBR_BASE) s = Inr (i, s\<lparr>bufs := (bufs s)(i := (bufs s i)\<lparr>b_refcnt := 1\<rparr>),
     slocks := (slocks s)(Sbuf i := \<lparr>sl_locked = True, sl_pid = curpid s\<rparr>)\<rparr>)"
proof -
  have i: "i < NBUF" and free: "spin_free s" using inv b by (auto simp: bslot_iff bio_inv_def)
  obtain p where p: "thisproc s = Some p" using inv by (auto simp: bio_inv_def running_def)
  have ul: "\<not> sl_locked (slocks s (Sbuf i))" using h b by (auto simp: bheld_def split: if_splits)
  have r0: "b_refcnt (bufs s i) = 0" using bio_invD(6)[OF inv i] ul by (simp add: buf_ok_def Let_def)
  have x: "slocks s (Sbuf i)\<lparr>sl_locked := True, sl_pid := curpid s\<rparr> = \<lparr>sl_locked = True, sl_pid = curpid s\<rparr>"
    by (cases "slocks s (Sbuf i)") simp
  have fr: "spin_free (s\<lparr>bufs := bf\<rparr>)" "thisproc (s\<lparr>bufs := bf\<rparr>) = Some p" for bf
    using free p by (simp_all add: spin_free_def thisproc_def)
  show ?thesis
    using free ul p r0
    by (simp add: bget_def kop_simps lock_simps bget_first [OF inv] b acquiresleep_run [OF fr] curpid_def
        x [unfolded curpid_def p option.case])
qed


lemma bget_victim:
  assumes xs: "lru (bufs s) xs" and v: "\<exists>i<NBUF. b_refcnt (bufs s i) = 0 \<and> \<not> is_dirty (bufs s i)"
  shows "\<exists>i ys zs. i < NBUF \<and> b_refcnt (bufs s i) = 0 \<and> \<not> is_dirty (bufs s i) \<and> xs = ys @ i # zs \<and>
     (\<forall>j\<in>set zs. b_refcnt (bufs s j) \<noteq> 0 \<or> is_dirty (bufs s j)) \<and>
     bget_scan (Suc NBUF) (bufs s) b_prev (\<lambda>b. b_refcnt b = 0 \<and> b_flags b AND B_DIRTY = 0) (b_prev (bufs s HEAD))
       = Some (Some i)"
proof -
  let ?P = "\<lambda>i. b_refcnt (bufs s i) = 0 \<and> b_flags (bufs s i) AND B_DIRTY = 0"
  have "List.find ?P (rev xs) \<noteq> None"
    using xs v by (auto simp: find_None_iff lru_def is_dirty_def)
  then obtain i where i: "List.find ?P (rev xs) = Some i" by blast
  then obtain n where n: "n < length (rev xs)" "?P i" "rev xs ! n = i" "\<forall>j<n. \<not> ?P (rev xs ! j)"
    unfolding find_Some_iff by blast
  have "rev xs = take n (rev xs) @ i # drop (Suc n) (rev xs)" using id_take_nth_drop [OF n(1)] n(3) by simp
  then have "xs = rev (drop (Suc n) (rev xs)) @ i # rev (take n (rev xs))" by (metis append_assoc append_Cons append_Nil rev.simps(2) rev_append rev_rev_ident)
  moreover have "\<forall>j\<in>set (rev (take n (rev xs))). b_refcnt (bufs s j) \<noteq> 0 \<or> is_dirty (bufs s j)"
    using n(1,4) by (auto simp: in_set_conv_nth is_dirty_def simp del: rev_nth rev_take)
  moreover have "i < NBUF" using xs n(1,3) nth_mem [OF n(1)] by (auto simp: lru_def)
  moreover have "b_refcnt (bufs s i) = 0" "\<not> is_dirty (bufs s i)" using n(2) by (simp_all add: is_dirty_def)
  moreover have "bget_scan (Suc NBUF) (bufs s) b_prev (\<lambda>b. b_refcnt b = 0 \<and> b_flags b AND B_DIRTY = 0) (b_prev (bufs s HEAD))
       = Some (Some i)" using i bget_scan_prev [OF xs, of "\<lambda>b. b_refcnt b = 0 \<and> b_flags b AND B_DIRTY = 0"] by simp
  ultimately show ?thesis by blast
qed

lemma bget_miss:
  assumes inv: "bio_inv D s" and xs: "lru (bufs s) xs" and b: "bslot D s b = None"
    and v: "\<exists>i<NBUF. b_refcnt (bufs s i) = 0 \<and> \<not> is_dirty (bufs s i)"
  shows "\<exists>i ys zs. i < NBUF \<and> b_refcnt (bufs s i) = 0 \<and> \<not> is_dirty (bufs s i) \<and> xs = ys @ i # zs \<and>
     (\<forall>j\<in>set zs. b_refcnt (bufs s j) \<noteq> 0 \<or> is_dirty (bufs s j)) \<and>
     bget D (b + MBR_BASE) s = Inr (i, s\<lparr>bufs := (bufs s)(i := (bufs s i)\<lparr>b_dev := D,
        b_blockno := b + MBR_BASE, b_flags := 0, b_refcnt := 1\<rparr>),
     slocks := (slocks s)(Sbuf i := \<lparr>sl_locked = True, sl_pid = curpid s\<rparr>)\<rparr>)"
proof -
  obtain i ys zs where i: "i < NBUF" "b_refcnt (bufs s i) = 0" "\<not> is_dirty (bufs s i)" and
    split: "xs = ys @ i # zs" "\<forall>j\<in>set zs. b_refcnt (bufs s j) \<noteq> 0 \<or> is_dirty (bufs s j)" and
    scan: "bget_scan (Suc NBUF) (bufs s) b_prev (\<lambda>b. b_refcnt b = 0 \<and> b_flags b AND B_DIRTY = 0) (b_prev (bufs s HEAD))
       = Some (Some i)" using bget_victim [OF xs v] by blast
  have free: "spin_free s" using inv by (auto simp: bio_inv_def)
  obtain p where p: "thisproc s = Some p" using inv by (auto simp: bio_inv_def running_def)
  have ul: "\<not> sl_locked (slocks s (Sbuf i))"
    using bio_invD(6)[OF inv i(1)] i(2) by (auto simp: buf_ok_def Let_def split: if_splits)
  have x: "slocks s (Sbuf i)\<lparr>sl_locked := True, sl_pid := curpid s\<rparr> = \<lparr>sl_locked = True, sl_pid = curpid s\<rparr>"
    by (cases "slocks s (Sbuf i)") simp
  have fr: "spin_free (s\<lparr>bufs := bf\<rparr>)" "thisproc (s\<lparr>bufs := bf\<rparr>) = Some p" for bf
    using free p by (simp_all add: spin_free_def thisproc_def)
  show ?thesis
    using free ul p i split
    by (intro exI [of _ i] exI [of _ ys] exI [of _ zs])
       (simp add: bget_def kop_simps lock_simps bget_first [OF inv] b acquiresleep_run [OF fr] curpid_def scan
        x [unfolded curpid_def p option.case])
qed

section \<open>Keeping the invariant\<close>

definition bcore :: "buf \<Rightarrow> u32 \<times> u32 \<times> u32 \<times> u32 \<times> byte list" where
  "bcore b = (b_flags b, b_dev b, b_blockno b, b_refcnt b, b_data b)"

lemma bcoreD:
  assumes "bcore b = bcore c"
  shows "b_flags b = b_flags c" "b_dev b = b_dev c" "b_blockno b = b_blockno c" "b_refcnt b = b_refcnt c"
    "b_data b = b_data c" "is_dirty b = is_dirty c" "is_valid b = is_valid c"
  using assms by (simp_all add: bcore_def is_dirty_def is_valid_def)

text \<open>One step of the cache touches one buffer and at most the disk block of that buffer.\<close>

definition bstep :: "u32 \<Rightarrow> nat \<Rightarrow> 'z biostate_scheme \<Rightarrow> 'z biostate_scheme \<Rightarrow> bool" where
  "bstep D i s t \<longleftrightarrow> bframe s t \<and> i < NBUF \<and> (\<exists>xs. lru (bufs t) xs) \<and> sd_idle t \<and> buf_ok D t i \<and>
     (\<forall>j<NBUF. j \<noteq> i \<longrightarrow> bcore (bufs t j) = bcore (bufs s j) \<and> slocks t (Sbuf j) = slocks s (Sbuf j)) \<and>
     (disk t = disk s \<or> (\<exists>d. length d = BSIZE \<and> disk t = (disk s)(b_blockno (bufs t i) := d))) \<and>
     b_dev (bufs t i) = D \<and> (\<forall>j<NBUF. j \<noteq> i \<longrightarrow> b_dev (bufs s j) = D \<longrightarrow> b_blockno (bufs s j) \<noteq> b_blockno (bufs t i))"

lemma bstep_inv:
  assumes inv: "bio_inv D s" and st: "bstep D i s t"
  shows "bio_inv D t"
proof -
  have fr: "kframe s t" using st by (simp add: bstep_def bframe_def)
  have ok: "buf_ok D t j" if "j < NBUF" for j
  proof (cases "j = i")
    case False
    then have c: "bcore (bufs t j) = bcore (bufs s j)" and l: "slocks t (Sbuf j) = slocks s (Sbuf j)"
      and ne: "b_dev (bufs s j) = D \<Longrightarrow> b_blockno (bufs s j) \<noteq> b_blockno (bufs t i)"
      using st that by (auto simp: bstep_def)
    have "b_dev (bufs s j) = D \<Longrightarrow> disk t (b_blockno (bufs s j)) = disk s (b_blockno (bufs s j))"
      using st ne by (auto simp: bstep_def)
    then show ?thesis using bio_invD(6)[OF inv that]
      by (simp add: buf_ok_def Let_def bcoreD [OF c] l kframe_curpid [OF fr])
  qed (use st in \<open>simp add: bstep_def\<close>)
  have "inj_on (\<lambda>i. b_blockno (bufs t i)) {i. i < NBUF \<and> b_dev (bufs t i) = D}"
  proof (rule inj_onI)
    fix j k assume j: "j \<in> {i. i < NBUF \<and> b_dev (bufs t i) = D}" and k: "k \<in> {i. i < NBUF \<and> b_dev (bufs t i) = D}"
      and e: "b_blockno (bufs t j) = b_blockno (bufs t k)"
    have c: "\<And>j. j < NBUF \<Longrightarrow> j \<noteq> i \<Longrightarrow> bcore (bufs t j) = bcore (bufs s j)"
      and n: "\<And>j. j < NBUF \<Longrightarrow> j \<noteq> i \<Longrightarrow> b_dev (bufs s j) = D \<Longrightarrow> b_blockno (bufs s j) \<noteq> b_blockno (bufs t i)"
      using st by (auto simp: bstep_def)
    consider "j = i" "k = i" | "j = i" "k \<noteq> i" | "j \<noteq> i" "k = i" | "j \<noteq> i" "k \<noteq> i" by blast
    then show "j = k"
    proof cases
      case 2 with n [of k] c [of k] k e show ?thesis by (auto simp: bcore_def)
    next
      case 3 with n [of j] c [of j] j e show ?thesis by (auto simp: bcore_def)
    next
      case 4
      have "bcore (bufs t j) = bcore (bufs s j)" "bcore (bufs t k) = bcore (bufs s k)" using c 4 j k by auto
      then show ?thesis using j k e bio_inv_inj [OF inv, of k j] by (simp add: bcore_def)
    qed simp
  qed
  moreover have "length (disk t a) = BSIZE" for a
    using st bio_invD(5)[OF inv] by (auto simp: bstep_def)
  moreover obtain p where "running s p" using inv by (auto simp: bio_inv_def)
  moreover have "spin_free t" using bio_invD(1) [OF inv] kframe_spin_free [OF fr] by simp
  moreover have "sd_idle t" "\<exists>xs. lru (bufs t) xs" using st by (simp_all add: bstep_def)
  moreover have "\<exists>p. running t p" using kframe_running [OF fr] bio_invD(3) [OF inv] by metis
  ultimately show ?thesis
    unfolding bio_inv_def using bio_invD(4) [OF inv] ok by simp
qed


section \<open>Effect on the view\<close>

lemma bslot_eq:
  assumes "bio_inv D s" "bio_inv D t" "\<And>j. j < NBUF \<Longrightarrow> b_dev (bufs t j) = b_dev (bufs s j) \<and> b_blockno (bufs t j) = b_blockno (bufs s j)"
  shows "bslot D t b = bslot D s b"
proof (cases "bslot D s b")
  case None
  then have "bslot D t b = None" unfolding bslot_None using assms(3) by simp
  with None show ?thesis by simp
next
  case (Some i)
  then have "bslot D t b = Some i" using assms(3) [of i] by (simp add: bslot_iff [OF assms(1)] bslot_iff [OF assms(2)])
  with Some show ?thesis by simp
qed

text \<open>A step that keeps the keys of the buffers.\<close>

lemma bstep_view:
  assumes inv: "bio_inv D s" and st: "bstep D i s t" and sl: "bslot D s b = Some i"
    and bn: "b_blockno (bufs t i) = b_blockno (bufs s i)"
  shows "bview D t = (bview D s)(b := b_data (bufs t i))"
    and "bheld D t = (bheld D s)(b := if sl_locked (slocks t (Sbuf i)) then Some i else None)"
    and "bdirty D t = (if is_dirty (bufs t i) then insert b (bdirty D s) else bdirty D s - {b})"
    and "bslot D t = bslot D s"
proof -
  note invt = bstep_inv [OF inv st]
  have i: "i < NBUF" "b_dev (bufs s i) = D" "b_blockno (bufs s i) = b + MBR_BASE"
    using sl by (simp_all add: bslot_iff [OF inv])
  have c: "bcore (bufs t j) = bcore (bufs s j)" "slocks t (Sbuf j) = slocks s (Sbuf j)" if "j < NBUF" "j \<noteq> i" for j
    using st that by (auto simp: bstep_def)
  have d: "b_dev (bufs t i) = D" using st by (simp add: bstep_def)
  have "bslot D t a = bslot D s a" for a
    by (rule bslot_eq [OF inv invt]) (use c i bn d in \<open>metis bcoreD(2,3)\<close>)
  then show slt: "bslot D t = bslot D s" by auto
  have oth: "j < NBUF \<and> j \<noteq> i" if "bslot D s a = Some j" "a \<noteq> b" for a j
    using that i by (auto simp: bslot_iff [OF inv])
  have dk: "disk t (a + MBR_BASE) = disk s (a + MBR_BASE)" if "a \<noteq> b" for a
    using st i bn that by (auto simp: bstep_def)
  show "bview D t = (bview D s)(b := b_data (bufs t i))"
    using sl oth c by (auto simp: bview_def slt fun_eq_iff bdisk_def dk split: option.split dest!: bcoreD(5))
  show "bheld D t = (bheld D s)(b := if sl_locked (slocks t (Sbuf i)) then Some i else None)"
    using sl oth c by (auto simp: bheld_def slt fun_eq_iff split: option.split)
  show "bdirty D t = (if is_dirty (bufs t i) then insert b (bdirty D s) else bdirty D s - {b})"
  proof -
    have "is_dirty (bufs t j) = is_dirty (bufs s j)" if "bslot D s a = Some j" "a \<noteq> b" for a j
      using oth [OF that] c [of j] bcoreD(6) by blast
    moreover have "a \<in> bdirty D t \<longleftrightarrow> (if a = b then is_dirty (bufs t i) else a \<in> bdirty D s)" for a
      using sl calculation [of a] by (cases "bslot D s a") (auto simp: bdirty_def slt)
    ultimately show ?thesis by (auto split: if_splits)
  qed
qed


section \<open>The cache as a block store\<close>

record bstore =
  bs_view :: "u32 \<Rightarrow> byte list"
  bs_disk :: "u32 \<Rightarrow> byte list"
  bs_dirty :: "u32 set"
  bs_held :: "u32 \<Rightarrow> nat option"
  bs_wlog :: "(u32 \<times> byte list) list"

definition babs :: "u32 \<Rightarrow> 'z biostate_scheme \<Rightarrow> bstore" where
  "babs D s = \<lparr>bs_view = bview D s, bs_disk = bdisk s, bs_dirty = bdirty D s, bs_held = bheld D s,
     bs_wlog = bwlog s\<rparr>"

lemma bstep_babs:
  assumes "bio_inv D s" and "bstep D i s t" and "bslot D s b = Some i"
    and "b_blockno (bufs t i) = b_blockno (bufs s i)" and "disk t = disk s" and "wlog t = wlog s"
  shows "babs D t = (babs D s)\<lparr>bs_view := (bview D s)(b := b_data (bufs t i)),
     bs_dirty := if is_dirty (bufs t i) then insert b (bdirty D s) else bdirty D s - {b},
     bs_held := (bheld D s)(b := if sl_locked (slocks t (Sbuf i)) then Some i else None)\<rparr>"
  using assms by (simp add: babs_def bstep_view [OF assms(1-4)] bdisk_def [abs_def] bwlog_def)

lemma bheld_iff:
  "bheld D s b = Some i \<longleftrightarrow> bslot D s b = Some i \<and> sl_locked (slocks s (Sbuf i))"
  by (auto simp: bheld_def split: option.split)

lemma bview_slot: "bslot D s b = Some i \<Longrightarrow> bview D s b = b_data (bufs s i)"
  by (simp add: bview_def)

lemma bdirty_slot: "bslot D s b = Some i \<Longrightarrow> b \<in> bdirty D s \<longleftrightarrow> is_dirty (bufs s i)"
  by (simp add: bdirty_def)

lemma bslot_others:
  assumes "bio_inv D s" "bslot D s b = Some i" "j < NBUF" "j \<noteq> i" "b_dev (bufs s j) = D"
  shows "b_blockno (bufs s j) \<noteq> b_blockno (bufs s i)"
  using assms bio_inv_inj [OF assms(1), of i j] by (auto simp: bslot_iff)

lemma buf_ok_slot:
  assumes "bio_inv D s" "bslot D s b = Some i"
  shows "i < NBUF" "b_dev (bufs s i) = D" "b_blockno (bufs s i) = b + MBR_BASE" "is_valid (bufs s i)"
    "length (b_data (bufs s i)) = BSIZE"
    "sl_locked (slocks s (Sbuf i)) \<Longrightarrow> b_refcnt (bufs s i) = 1 \<and> sl_pid (slocks s (Sbuf i)) = curpid s"
    "\<not> sl_locked (slocks s (Sbuf i)) \<Longrightarrow> b_refcnt (bufs s i) = 0"
    "\<not> sl_locked (slocks s (Sbuf i)) \<Longrightarrow> \<not> is_dirty (bufs s i) \<Longrightarrow> b_data (bufs s i) = disk s (b + MBR_BASE)"
proof -
  show i: "i < NBUF" "b_dev (bufs s i) = D" "b_blockno (bufs s i) = b + MBR_BASE"
    using assms by (simp_all add: bslot_iff [OF assms(1)])
  note ok = bio_invD(6) [OF assms(1) i(1)] and n = bio_invD(4) [OF assms(1)]
  show "is_valid (bufs s i)" "length (b_data (bufs s i)) = BSIZE"
    "sl_locked (slocks s (Sbuf i)) \<Longrightarrow> b_refcnt (bufs s i) = 1 \<and> sl_pid (slocks s (Sbuf i)) = curpid s"
    "\<not> sl_locked (slocks s (Sbuf i)) \<Longrightarrow> b_refcnt (bufs s i) = 0"
    "\<not> sl_locked (slocks s (Sbuf i)) \<Longrightarrow> \<not> is_dirty (bufs s i) \<Longrightarrow> b_data (bufs s i) = disk s (b + MBR_BASE)"
    using ok i n by (auto simp: buf_ok_def Let_def split: if_splits)
qed

text \<open>A step that changes only buffer \<open>i\<close>, leaving its links alone.\<close>

lemma bstepI:
  assumes inv: "bio_inv D s" and sl: "bslot D s b = Some i" and fr: "bframe s t" and idle: "sd_idle t"
    and bf: "bufs t = (bufs s)(i := c)" "b_next c = b_next (bufs s i)" "b_prev c = b_prev (bufs s i)"
      "b_dev c = D" "b_blockno c = b_blockno (bufs s i)"
    and lk: "\<And>j. j \<noteq> i \<Longrightarrow> slocks t (Sbuf j) = slocks s (Sbuf j)"
    and dk: "disk t = disk s \<or> (\<exists>d. length d = BSIZE \<and> disk t = (disk s)(b_blockno c := d))"
    and ok: "buf_ok D t i"
  shows "bstep D i s t"
proof -
  obtain xs where "lru (bufs s) xs" using inv by (auto simp: bio_inv_def)
  then have "lru (bufs t) xs" using bf by (subst lru_cong) auto
  moreover have "i < NBUF" using buf_ok_slot(1) [OF inv sl] .
  ultimately show ?thesis
    unfolding bstep_def using fr idle lk dk ok bf(1,4,5) bslot_others [OF inv sl] by auto
qed

lemma bread_hit:
  assumes inv: "bio_inv D s" and sl: "bslot D s b = Some i" and h: "bheld D s b = None"
  shows "\<exists>t. bread D b s = Inr (i, t) \<and> bio_inv D t \<and> bframe s t \<and>
     babs D t = (babs D s)\<lparr>bs_held := (bheld D s)(b \<mapsto> i)\<rparr>"
proof -
  note ok = buf_ok_slot [OF inv sl]
  define t where "t = s\<lparr>bufs := (bufs s)(i := (bufs s i)\<lparr>b_refcnt := 1\<rparr>),
     slocks := (slocks s)(Sbuf i := \<lparr>sl_locked = True, sl_pid = curpid s\<rparr>)\<rparr>"
  have g: "bget D (b + MBR_BASE) s = Inr (i, t)" unfolding t_def by (rule bget_hit [OF inv sl h])
  have fr: "bframe s t" by (simp add: t_def bframe_def kframe_def)
  have idle: "sd_idle t" using bio_invD(2) [OF inv] by (simp add: t_def sd_idle_def)
  have bf: "bufs t = (bufs s)(i := (bufs s i)\<lparr>b_refcnt := 1\<rparr>)" "disk t = disk s" "wlog t = wlog s"
     "slocks t = (slocks s)(Sbuf i := \<lparr>sl_locked = True, sl_pid = curpid s\<rparr>)"
    by (simp_all add: t_def)
  have cp: "curpid t = curpid s" using fr by (simp add: bframe_def kframe_curpid)
  have "buf_ok D t i" using ok by (simp add: buf_ok_def bf cp is_valid_def)
  then have st: "bstep D i s t" using ok fr idle bf by (intro bstepI [OF inv sl, where c = "(bufs s i)\<lparr>b_refcnt := 1\<rparr>"]) auto
  have "is_dirty (bufs t i) \<longleftrightarrow> b \<in> bdirty D s" using sl by (simp add: bf bdirty_slot is_dirty_def)
  then have "babs D t = (babs D s)\<lparr>bs_held := (bheld D s)(b \<mapsto> i)\<rparr>"
    using bstep_babs [OF inv st sl] bview_slot [OF sl] by (auto simp: bf babs_def)
  moreover have "bread D b s = Inr (i, t)" using g ok(4) by (simp add: bread_def kop_simps bf is_valid_def)
  ultimately show ?thesis using fr bstep_inv [OF inv st] by blast
qed


lemma kframe_slept:
  assumes "running s p"
  shows "kframe s (s\<lparr>ptable := (woken ch (ptable s))(p := (ptable s p)\<lparr>p_chan := None\<rparr>)\<rparr>)"
  using assms by (auto simp: kframe_def proc_rest_woken running_def woken_def) (auto simp: proc_rest_def)

text \<open>What a client of \<open>sdrw\<close> needs to know of its result.\<close>

lemma sdrw_effect:
  assumes "spin_free s" and "running s p" and "sd_idle s" and "b < NBUF" and "\<not> synced (bufs s b)"
  shows "\<exists>t. sdrw b s = Inr ((), t) \<and> kframe s t \<and> sd_idle t \<and> slocks t = slocks s \<and>
     biostate.more t = biostate.more s \<and>
     bufs t = (bufs s)(b := (bufs s b)\<lparr>
        b_data := if is_dirty (bufs s b) then b_data (bufs s b) else disk s (b_blockno (bufs s b)),
        b_flags := (b_flags (bufs s b) OR B_VALID) AND NOT B_DIRTY\<rparr>) \<and>
     disk t = (if is_dirty (bufs s b) then (disk s)(b_blockno (bufs s b) := b_data (bufs s b)) else disk s) \<and>
     wlog t = (if is_dirty (bufs s b) then wlog s @ [(b_blockno (bufs s b), b_data (bufs s b))] else wlog s)"
proof -
  obtain q where q: "lring SDQ q []" and r: "sdrw b s = Inr ((), s\<lparr>
     ptable := (woken (Cbuf b) (ptable s))(p := (ptable s p)\<lparr>p_chan := None\<rparr>),
     bufs := (bufs s)(b := (bufs s b)\<lparr>
        b_data := if is_dirty (bufs s b) then b_data (bufs s b) else disk s (b_blockno (bufs s b)),
        b_flags := (b_flags (bufs s b) OR B_VALID) AND NOT B_DIRTY\<rparr>),
     sdque := q,
     disk := if is_dirty (bufs s b) then (disk s)(b_blockno (bufs s b) := b_data (bufs s b)) else disk s,
     wlog := if is_dirty (bufs s b) then wlog s @ [(b_blockno (bufs s b), b_data (bufs s b))] else wlog s,
     emmc_fifo := if is_dirty (bufs s b) then emmc_fifo s else disk s (b_blockno (bufs s b))\<rparr>)"
    using sdrw_run [OF assms] by blast
  have "kframe s (s\<lparr>ptable := (woken (Cbuf b) (ptable s))(p := (ptable s p)\<lparr>p_chan := None\<rparr>)\<rparr>)"
    using assms(2) by (rule kframe_slept)
  then show ?thesis
    using q assms(3) by (intro exI [where x = "snd (projr (sdrw b s))"]) (simp add: r kframe_def sd_idle_def)
qed

lemma bread_miss:
  assumes inv: "bio_inv D s" and sl: "bslot D s b = None"
    and v: "\<exists>i<NBUF. b_refcnt (bufs s i) = 0 \<and> \<not> is_dirty (bufs s i)"
  shows "\<exists>i t. bread D b s = Inr (i, t) \<and> bio_inv D t \<and> bframe s t \<and>
     babs D t = (babs D s)\<lparr>bs_held := (bheld D s)(b \<mapsto> i)\<rparr>"
proof -
  obtain i where i: "i < NBUF" "b_refcnt (bufs s i) = 0" "\<not> is_dirty (bufs s i)" and
    g: "bget D (b + MBR_BASE) s = Inr (i, s\<lparr>bufs := (bufs s)(i := (bufs s i)\<lparr>b_dev := D,
        b_blockno := b + MBR_BASE, b_flags := 0, b_refcnt := 1\<rparr>),
     slocks := (slocks s)(Sbuf i := \<lparr>sl_locked = True, sl_pid = curpid s\<rparr>)\<rparr>)" (is "_ = Inr (i, ?s1)")
    using bget_miss [OF inv _ sl v] inv unfolding bio_inv_def by blast
  obtain p where p: "running s p" using inv by (auto simp: bio_inv_def)
  have ns: "\<not> synced (bufs ?s1 i)" by (simp add: synced_def B_VALID_def)
  have nd: "\<not> is_dirty (bufs ?s1 i)" by (simp add: is_dirty_def)
  obtain t where t: "sdrw i ?s1 = Inr ((), t)" "kframe ?s1 t" "sd_idle t" "slocks t = slocks ?s1"
    "biostate.more t = biostate.more ?s1" and
    bf: "bufs t = (bufs ?s1)(i := (bufs ?s1 i)\<lparr>b_data := disk s (b + MBR_BASE), b_flags := (0 OR B_VALID) AND NOT B_DIRTY\<rparr>)"
    and dk: "disk t = disk s" and wl: "wlog t = wlog s"
    using sdrw_effect [OF _ _ _ i(1) ns, of p] nd p bio_invD(1,2) [OF inv]
    by (auto simp: spin_free_def running_def thisproc_def sd_idle_def)
  have ul: "\<not> sl_locked (slocks s (Sbuf i))"
    using bio_invD(6)[OF inv i(1)] i(2) by (auto simp: buf_ok_def Let_def split: if_splits)
  have fr: "bframe s t" using t by (simp add: bframe_def kframe_def)
  have cp: "curpid t = curpid s" using fr by (simp add: bframe_def kframe_curpid)
  have bft: "bufs t = (bufs s)(i := (bufs s i)\<lparr>b_dev := D, b_blockno := b + MBR_BASE, b_refcnt := 1,
     b_data := disk s (b + MBR_BASE), b_flags := (0 OR B_VALID) AND NOT B_DIRTY\<rparr>)" (is "_ = (bufs s)(i := ?c)")
    using bf by auto
  have okt: "buf_ok D t i"
    using bio_invD(5) [OF inv] flags_valid_clean(1,2) [of 0] by (simp add: buf_ok_def bft t(4) cp)
  obtain xs where "lru (bufs s) xs" using inv by (auto simp: bio_inv_def)
  then have "lru (bufs t) xs" by (subst lru_cong) (auto simp: bft)
  then have st: "bstep D i s t"
    using fr t(3) okt i(1) sl by (auto simp: bstep_def bft t(4) dk bslot_None)
  note invt = bstep_inv [OF inv st]
  have sli: "bslot D t b = Some i" using i by (simp add: bslot_iff [OF invt] bft)
  have slo: "bslot D t a = (if bslot D s a = Some i then None else bslot D s a)" if "a \<noteq> b" for a
  proof -
    have "bslot D t a = Some j \<longleftrightarrow> bslot D s a = Some j \<and> j \<noteq> i" for j
      using that by (simp add: bslot_iff [OF invt] bslot_iff [OF inv] bft)
    then show ?thesis by (metis not_None_eq)
  qed
  have old: "b_data (bufs s i) = disk s (a + MBR_BASE)" if "bslot D s a = Some i" for a
    using buf_ok_slot(8) [OF inv that] ul i(3) by simp
  have nb: "bslot D s b \<noteq> Some i" using sl by simp
  have "bview D t = bview D s"
  proof
    fix a show "bview D t a = bview D s a"
      using old [of a] sl sli slo [of a] nb
      by (cases "a = b") (auto simp: bview_def bdisk_def dk bft split: option.split)
  qed
  moreover have "bheld D t = (bheld D s)(b \<mapsto> i)"
  proof
    fix a show "bheld D t a = ((bheld D s)(b \<mapsto> i)) a"
      using ul sli slo [of a] by (cases "a = b") (auto simp: bheld_def t(4) split: option.split)
  qed
  moreover have "a \<in> bdirty D t \<longleftrightarrow> a \<in> bdirty D s" for a
    using i(3) sl sli slo [of a] flags_valid_clean(2) [of 0]
    by (cases "a = b") (auto simp: bdirty_def bft split: option.split)
  then have "bdirty D t = bdirty D s" by auto
  ultimately have "babs D t = (babs D s)\<lparr>bs_held := (bheld D s)(b \<mapsto> i)\<rparr>"
    by (simp add: babs_def bdisk_def [abs_def] bwlog_def dk wl)
  moreover have "bread D b s = Inr (i, t)" using g t(1) by (simp add: bread_def kop_simps)
  ultimately show ?thesis using fr invt by blast
qed

lemma card_blocks:
  assumes inv: "bio_inv D s" and full: "\<forall>i<NBUF. b_refcnt (bufs s i) \<noteq> 0 \<or> is_dirty (bufs s i)"
  shows "NBUF \<le> card (bdirty D s \<union> dom (bheld D s))"
proof -
  let ?f = "\<lambda>i. b_blockno (bufs s i) - MBR_BASE"
  have D: "b_dev (bufs s i) = D" if "i < NBUF" for i
    using full that bio_invD(6) [OF inv that] by (auto simp: buf_ok_def Let_def split: if_splits)
  have "inj_on ?f {..<NBUF}" 
  proof (rule inj_onI)
    fix i j assume "i \<in> {..<NBUF}" "j \<in> {..<NBUF}" "?f i = ?f j"
    then show "i = j" using bio_inv_inj [OF inv, of j i] D by simp
  qed
  moreover have "?f i \<in> bdirty D s \<union> dom (bheld D s)" if i: "i < NBUF" for i
  proof -
    have sl: "bslot D s (?f i) = Some i" using i D by (simp add: bslot_iff [OF inv])
    show ?thesis using full [rule_format, OF i] buf_ok_slot(7) [OF inv sl]
      by (cases "sl_locked (slocks s (Sbuf i))") (auto simp: bdirty_slot [OF sl] bheld_def sl)
  qed
  then have "?f ` {..<NBUF} \<subseteq> bdirty D s \<union> dom (bheld D s)" by auto
  ultimately have "card {..<NBUF} \<le> card (bdirty D s \<union> dom (bheld D s))"
    by (intro card_inj_on_le) auto
  then show ?thesis by simp
qed

theorem bread_abs:
  assumes inv: "bio_inv D s" and h: "bs_held (babs D s) b = None"
    and c: "b \<in> bs_dirty (babs D s) \<or> card (bs_dirty (babs D s) \<union> dom (bs_held (babs D s))) < NBUF"
  shows "\<exists>i t. bread D b s = Inr (i, t) \<and> bio_inv D t \<and> bframe s t \<and>
     babs D t = (babs D s)\<lparr>bs_held := (bs_held (babs D s))(b \<mapsto> i)\<rparr>"
proof (cases "bslot D s b")
  case (Some i)
  then show ?thesis using bread_hit [OF inv Some] h by (auto simp: babs_def)
next
  case None
  then have "b \<notin> bdirty D s" by (simp add: bdirty_def)
  then have "card (bdirty D s \<union> dom (bheld D s)) < NBUF" using c by (simp add: babs_def)
  then have "\<exists>i<NBUF. b_refcnt (bufs s i) = 0 \<and> \<not> is_dirty (bufs s i)"
    using card_blocks [OF inv] by (meson not_le)
  then show ?thesis using bread_miss [OF inv None] by (simp add: babs_def)
qed


lemma bunlink_run:
  assumes l: "ring (nxt (bufs s)) (prv (bufs s)) HEAD (ys @ b # zs)"
  shows "\<exists>B. bunlink b s = Inr ((), s\<lparr>bufs := B\<rparr>) \<and> ring (nxt B) (prv B) HEAD (ys @ zs) \<and>
     (\<forall>i. bcore (B i) = bcore (bufs s i))"
proof -
  let ?B = "bufs s"
  have ch: "chain (nxt ?B) (prv ?B) b zs HEAD" and d: "distinct (HEAD # ys @ b # zs)"
    using l by (auto simp: ring_def chain_append)
  have nb: "b_next (?B b) \<noteq> b" using ch d by (cases zs) (auto simp: nxt_def)
  let ?n = "b_next (?B b)" and ?p = "b_prev (?B b)"
  define B1 where "B1 = ?B(?n := (?B ?n)\<lparr>b_prev := ?p\<rparr>)"
  define B2 where "B2 = B1(?p := (B1 ?p)\<lparr>b_next := ?n\<rparr>)"
  have "B1 b = ?B b" using nb by (auto simp: B1_def)
  then have "bunlink b s = Inr ((), s\<lparr>bufs := B2\<rparr>)"
    by (simp add: bunlink_def kop_simps B1_def [symmetric] B2_def)
  moreover have "nxt B2 = (nxt ?B)(?p := ?n)" and "prv B2 = (prv ?B)(?n := ?p)"
    by (auto simp: B2_def B1_def nxt_def prv_def)
  then have "ring (nxt B2) (prv B2) HEAD (ys @ zs)"
    using ring_unlink [OF l] by (simp add: nxt_def prv_def)
  moreover have "bcore (B2 i) = bcore (?B i)" for i by (auto simp: B2_def B1_def bcore_def)
  ultimately show ?thesis by blast
qed

lemma blink_run:
  assumes l: "ring (nxt (bufs s)) (prv (bufs s)) HEAD xs" and b: "b \<notin> set (HEAD # xs)"
  shows "\<exists>B. blink b s = Inr ((), s\<lparr>bufs := B\<rparr>) \<and> ring (nxt B) (prv B) HEAD (b # xs) \<and>
     (\<forall>i. bcore (B i) = bcore (bufs s i))"
proof -
  let ?B = "bufs s"
  have hb: "b \<noteq> HEAD" using b by auto
  define B3 where "B3 = ?B(b := (?B b)\<lparr>b_next := b_next (?B HEAD), b_prev := HEAD\<rparr>)"
  define B5 where "B5 = B3(b_next (?B HEAD) := (B3 (b_next (?B HEAD)))\<lparr>b_prev := b\<rparr>)"
  define B6 where "B6 = B5(HEAD := (B5 HEAD)\<lparr>b_next := b\<rparr>)"
  have h3: "B3 HEAD = ?B HEAD" using hb by (simp add: B3_def)
  have b3: "?B(b := (?B b)\<lparr>b_prev := HEAD, b_next := b_next (?B HEAD)\<rparr>) = B3" by (auto simp: B3_def)
  have "blink b s = Inr ((), s\<lparr>bufs := B6\<rparr>)"
    using h3 by (simp add: blink_def kop_simps b3 B3_def [symmetric] B5_def [symmetric] B6_def)
  moreover have "nxt B6 = (nxt ?B)(b := nxt ?B HEAD, HEAD := b)" and "prv B6 = (prv ?B)(b := HEAD, nxt ?B HEAD := b)"
    by (auto simp: B6_def B5_def B3_def nxt_def prv_def)
  then have "ring (nxt B6) (prv B6) HEAD (b # xs)" using ring_insert_front [OF l b] by simp
  moreover have "bcore (B6 i) = bcore (?B i)" for i
    by (auto simp: B6_def B5_def B3_def bcore_def)
  ultimately show ?thesis by blast
qed

lemma bmru_run:
  assumes l: "lru (bufs s) xs" and b: "b < NBUF"
  shows "\<exists>B. seq (bunlink b) (blink b) s = Inr ((), s\<lparr>bufs := B\<rparr>) \<and> lru B (b # remove1 b xs) \<and>
     (\<forall>i. bcore (B i) = bcore (bufs s i))"
proof -
  have r: "ring (nxt (bufs s)) (prv (bufs s)) HEAD xs" and st: "set xs = {0..<NBUF}" using l by (simp_all add: lru_def)
  obtain ys zs where xs: "xs = ys @ b # zs" using b st by (metis atLeastLessThan_iff le0 split_list)
  have d: "distinct (HEAD # ys @ b # zs)" using r by (auto simp: ring_def xs)
  obtain B where B: "bunlink b s = Inr ((), s\<lparr>bufs := B\<rparr>)" "ring (nxt B) (prv B) HEAD (ys @ zs)"
    "\<forall>i. bcore (B i) = bcore (bufs s i)" using bunlink_run [OF r [unfolded xs]] by blast
  obtain C where C: "blink b (s\<lparr>bufs := B\<rparr>) = Inr ((), s\<lparr>bufs := C\<rparr>)" "ring (nxt C) (prv C) HEAD (b # ys @ zs)"
    "\<forall>i. bcore (C i) = bcore (B i)" using blink_run [of "s\<lparr>bufs := B\<rparr>" "ys @ zs" b] B(2) d by auto
  have "lru C (b # ys @ zs)" using C(2) st by (auto simp: lru_def xs)
  moreover have "remove1 b xs = ys @ zs" using d by (simp add: xs remove1_append)
  ultimately show ?thesis using B C by (auto simp: kop_simps)
qed

lemma babs_held: "bs_held (babs D s) b = Some i \<longleftrightarrow> bslot D s b = Some i \<and> sl_locked (slocks s (Sbuf i))"
  by (simp add: babs_def bheld_iff)

lemma held_running:
  assumes "bio_inv D s" "bs_held (babs D s) b = Some i"
  shows "holdingsleep (Sbuf i) s = Inr (True, s)"
proof -
  have sl: "bslot D s b = Some i" "sl_locked (slocks s (Sbuf i))" using assms(2) by (simp_all add: babs_held)
  obtain p where p: "thisproc s = Some p" using assms(1) by (auto simp: bio_inv_def running_def)
  show ?thesis
    using holdingsleep_run [OF bio_invD(1) [OF assms(1)] p] buf_ok_slot(6) [OF assms(1) sl] sl p
    by (simp add: curpid_def)
qed

definition bset :: "nat \<Rightarrow> byte list \<Rightarrow> ('z biostate_scheme, unit) kop" where
  "bset i d = set_buf i (\<lambda>x. x\<lparr>b_data := d\<rparr>)"

definition bpin :: "nat \<Rightarrow> ('z biostate_scheme, unit) kop" where
  "bpin i = set_buf i (\<lambda>x. x\<lparr>b_flags := b_flags x OR B_DIRTY\<rparr>)"

lemma set_buf_abs:
  assumes inv: "bio_inv D s" and h: "bs_held (babs D s) b = Some i"
    and c: "b_next c = b_next (bufs s i)" "b_prev c = b_prev (bufs s i)" "b_dev c = b_dev (bufs s i)"
      "b_blockno c = b_blockno (bufs s i)" "b_refcnt c = b_refcnt (bufs s i)" "is_valid c" "length (b_data c) = BSIZE"
  shows "bio_inv D (s\<lparr>bufs := (bufs s)(i := c)\<rparr>)" and "bframe s (s\<lparr>bufs := (bufs s)(i := c)\<rparr>)"
    and "babs D (s\<lparr>bufs := (bufs s)(i := c)\<rparr>) = (babs D s)\<lparr>bs_view := (bs_view (babs D s))(b := b_data c),
      bs_dirty := if is_dirty c then insert b (bs_dirty (babs D s)) else bs_dirty (babs D s) - {b}\<rparr>"
proof -
  let ?t = "s\<lparr>bufs := (bufs s)(i := c)\<rparr>"
  have sl: "bslot D s b = Some i" and lk: "sl_locked (slocks s (Sbuf i))" using h by (simp_all add: babs_held)
  note ok = buf_ok_slot [OF inv sl]
  show fr: "bframe s ?t" by (simp add: bframe_def kframe_def)
  then have cp: "curpid ?t = curpid s" by (simp add: bframe_def kframe_curpid)
  have "buf_ok D ?t i" using ok lk c by (simp add: buf_ok_def cp)
  moreover have "sd_idle ?t" using bio_invD(2) [OF inv] by (simp add: sd_idle_def)
  ultimately have st: "bstep D i s ?t"
    using c ok by (intro bstepI [OF inv sl fr, where c = c]) auto
  then show "bio_inv D ?t" by (rule bstep_inv [OF inv])
  have "(bheld D s)(b \<mapsto> i) = bheld D s" using h by (auto simp: babs_def)
  then show "babs D ?t = (babs D s)\<lparr>bs_view := (bs_view (babs D s))(b := b_data c),
      bs_dirty := if is_dirty c then insert b (bs_dirty (babs D s)) else bs_dirty (babs D s) - {b}\<rparr>"
    using bstep_babs [OF inv st sl] c lk by (simp add: babs_def)
qed

lemma bset_abs:
  assumes inv: "bio_inv D s" and h: "bs_held (babs D s) b = Some i" and d: "length d = BSIZE"
  shows "\<exists>t. bset i d s = Inr ((), t) \<and> bio_inv D t \<and> bframe s t \<and>
     babs D t = (babs D s)\<lparr>bs_view := (bs_view (babs D s))(b := d)\<rparr>"
proof -
  let ?c = "(bufs s i)\<lparr>b_data := d\<rparr>"
  have sl: "bslot D s b = Some i" using h by (simp add: babs_held)
  have dd: "is_dirty ?c \<longleftrightarrow> b \<in> bdirty D s" using bdirty_slot [OF sl] by (simp add: is_dirty_def)
  have "is_valid ?c" using buf_ok_slot(4) [OF inv sl] by (simp add: is_valid_def)
  note * = set_buf_abs [OF inv h, of ?c, simplified, OF this d]
  have "bset i d s = Inr ((), s\<lparr>bufs := (bufs s)(i := ?c)\<rparr>)" by (simp add: bset_def kop_simps)
  with * dd show ?thesis by (auto simp: babs_def insert_absorb)
qed

lemma bpin_abs:
  assumes inv: "bio_inv D s" and h: "bs_held (babs D s) b = Some i"
  shows "\<exists>t. bpin i s = Inr ((), t) \<and> bio_inv D t \<and> bframe s t \<and>
     babs D t = (babs D s)\<lparr>bs_dirty := insert b (bs_dirty (babs D s))\<rparr>"
proof -
  let ?c = "(bufs s i)\<lparr>b_flags := b_flags (bufs s i) OR B_DIRTY\<rparr>"
  have sl: "bslot D s b = Some i" using h by (simp add: babs_held)
  have dd: "is_dirty ?c" by (simp add: flags_valid_clean)
  have "is_valid ?c" using buf_ok_slot(4) [OF inv sl] unfolding flags_valid_clean(4) by (simp only: is_valid_bit)
  note * = set_buf_abs [OF inv h, of ?c, simplified, OF this buf_ok_slot(5) [OF inv sl]]
  have v: "b_data (bufs s i) = bview D s b" using bview_slot [OF sl] by simp
  have "bpin i s = Inr ((), s\<lparr>bufs := (bufs s)(i := ?c)\<rparr>)" by (simp add: bpin_def kop_simps)
  with * dd show ?thesis by (auto simp: babs_def v)
qed


lemma bwrite_abs:
  assumes inv: "bio_inv D s" and h: "bs_held (babs D s) b = Some i"
  shows "\<exists>t. bwrite i s = Inr ((), t) \<and> bio_inv D t \<and> bframe s t \<and>
     babs D t = (babs D s)\<lparr>bs_disk := (bs_disk (babs D s))(b := bs_view (babs D s) b),
       bs_dirty := bs_dirty (babs D s) - {b},
       bs_wlog := bs_wlog (babs D s) @ [(b, bs_view (babs D s) b)]\<rparr>"
proof -
  obtain s1 where w: "bpin i s = Inr ((), s1)" and inv1: "bio_inv D s1" and fr1: "bframe s s1" and
    ab1: "babs D s1 = (babs D s)\<lparr>bs_dirty := insert b (bs_dirty (babs D s))\<rparr>"
    using bpin_abs [OF inv h] by blast
  have h1: "bs_held (babs D s1) b = Some i" using h ab1 by simp
  then have sl: "bslot D s1 b = Some i" and lk: "sl_locked (slocks s1 (Sbuf i))" by (simp_all add: babs_held)
  note ok = buf_ok_slot [OF inv1 sl]
  have "b \<in> bs_dirty (babs D s1)" using ab1 by simp
  then have dirty: "is_dirty (bufs s1 i)" using bdirty_slot [OF sl] by (simp add: babs_def)
  obtain p where p: "running s1 p" using inv1 by (auto simp: bio_inv_def)
  have ns: "\<not> synced (bufs s1 i)" using dirty by (simp add: synced_iff)
  let ?d = "b_data (bufs s1 i)" and ?c = "(bufs s1 i)\<lparr>b_flags := (b_flags (bufs s1 i) OR B_VALID) AND NOT B_DIRTY\<rparr>"
  obtain t where t: "sdrw i s1 = Inr ((), t)" "kframe s1 t" "sd_idle t" "slocks t = slocks s1"
    "biostate.more t = biostate.more s1" and
    bf: "bufs t = (bufs s1)(i := ?c)"
    and dk: "disk t = (disk s1)(b + MBR_BASE := ?d)" and wl: "wlog t = wlog s1 @ [(b + MBR_BASE, ?d)]"
    using sdrw_effect [OF bio_invD(1) [OF inv1] p bio_invD(2) [OF inv1] ok(1) ns] dirty ok(3) by auto
  have fr: "bframe s1 t" using t by (simp add: bframe_def)
  have cp: "curpid t = curpid s1" using t by (simp add: kframe_curpid)
  have "buf_ok D t i" using ok lk flags_valid_clean(1,2) by (simp add: buf_ok_def bf t(4) cp)
  then have st: "bstep D i s1 t" using ok t fr bf dk by (intro bstepI [OF inv1 sl, where c = ?c]) auto
  have nd: "\<not> is_dirty (bufs t i)" by (simp add: bf flags_valid_clean)
  have v: "bview D s1 b = ?d" by (rule bview_slot [OF sl])
  have hl: "(bheld D s1)(b \<mapsto> i) = bheld D s1" using h1 by (auto simp: babs_def)
  have "babs D t = (babs D s1)\<lparr>bs_disk := (bdisk s1)(b := bview D s1 b), bs_dirty := bdirty D s1 - {b},
     bs_wlog := bwlog s1 @ [(b, bview D s1 b)]\<rparr>"
    using bstep_view [OF inv1 st sl] nd lk hl
    by (simp add: bf t(4) babs_def v bwlog_def wl bdisk_def [abs_def] dk) (auto simp: fun_eq_iff v)
  moreover have "bwrite i s = Inr ((), t)"
    using held_running [OF inv h] w t(1) by (simp add: bwrite_def kop_simps bpin_def)
  moreover have "bview D s1 = bview D s" "bdisk s1 = bdisk s" "bdirty D s1 = insert b (bdirty D s)" "bwlog s1 = bwlog s"
    using ab1 by (simp_all add: babs_def)
  ultimately show ?thesis
    using ab1 bstep_inv [OF inv1 st] bframe_trans [OF fr1 fr] by (intro exI [of _ t]) (auto simp: babs_def)
qed

lemma bs_coherent:
  assumes inv: "bio_inv D s" and "bs_held (babs D s) b = None" and "b \<notin> bs_dirty (babs D s)"
  shows "bs_view (babs D s) b = bs_disk (babs D s) b"
proof (cases "bslot D s b")
  case (Some i)
  then show ?thesis
    using assms buf_ok_slot(8) [OF inv Some]
    by (auto simp: babs_def bheld_def bdirty_def bview_def bdisk_def split: if_splits)
qed (simp add: babs_def bview_def)

lemma brelse_lru:
  assumes inv: "bio_inv D s" and h: "bs_held (babs D s) b = Some i"
    and c: "b \<in> bs_dirty (babs D s) \<or> bs_view (babs D s) b = bs_disk (babs D s) b"
    and l: "lru (bufs s) xs"
  shows "\<exists>t. brelse i s = Inr ((), t) \<and> bio_inv D t \<and> bframe s t \<and> lru (bufs t) (i # remove1 i xs) \<and>
     babs D t = (babs D s)\<lparr>bs_held := (bs_held (babs D s))(b := None)\<rparr>"
proof -
  have sl: "bslot D s b = Some i" and lk: "sl_locked (slocks s (Sbuf i))" using h by (simp_all add: babs_held)
  note ok = buf_ok_slot [OF inv sl] and free = bio_invD(1) [OF inv]
  have dd: "is_dirty (bufs s i) \<longleftrightarrow> b \<in> bdirty D s" by (rule bdirty_slot [OF sl, symmetric])
  let ?B0 = "(bufs s)(i := (bufs s i)\<lparr>b_refcnt := 0\<rparr>)"
  let ?L = "(slocks s)(Sbuf i := (slocks s (Sbuf i))\<lparr>sl_locked := False, sl_pid := 0\<rparr>)"
  let ?h = "(locks s Lbcache)\<lparr>lk_locked := True, lk_cpu := Some (this_cpu s)\<rparr>"
  let ?s1 = "s\<lparr>ptable := woken (Cslock (Sbuf i)) (ptable s), slocks := ?L\<rparr>"
  define s2 where "s2 = ?s1\<lparr>locks := (locks s)(Lbcache := ?h), bufs := ?B0\<rparr>"
  have "lru (bufs s2) xs" using l by (subst lru_cong) (auto simp: s2_def)
  then obtain B where B: "seq (bunlink i) (blink i) s2 = Inr ((), s2\<lparr>bufs := B\<rparr>)"
    and lB: "lru B (i # remove1 i xs)" and cB: "\<forall>j. bcore (B j) = bcore (bufs s2 j)"
    using bmru_run [of s2 xs i] ok(1) by blast
  define t where "t = ?s1\<lparr>bufs := B\<rparr>"
  have r: "brelse i s = Inr ((), t)"
    using held_running [OF inv h] ok(6) [OF lk] B [unfolded s2_def] free
    by (simp add: brelse_def kop_simps releasesleep_run [OF free] lock_simps t_def)
  have ct: "bcore (bufs t i) = (b_flags (bufs s i), D, b + MBR_BASE, 0, b_data (bufs s i))"
    using cB ok(2,3) by (simp add: t_def bcore_def s2_def)
  then have f: "b_flags (bufs t i) = b_flags (bufs s i)" "b_dev (bufs t i) = D" "b_blockno (bufs t i) = b + MBR_BASE"
    "b_refcnt (bufs t i) = 0" "b_data (bufs t i) = b_data (bufs s i)" by (simp_all add: bcore_def)
  have dt: "is_dirty (bufs t i) = is_dirty (bufs s i)" "is_valid (bufs t i) = is_valid (bufs s i)"
    using f(1) by (simp_all add: is_dirty_def is_valid_def)
  have fr: "bframe s t" using kframe_woken [of s "Cslock (Sbuf i)"] by (simp add: t_def bframe_def kframe_def)
  have dk: "disk t = disk s" "wlog t = wlog s" "slocks t = ?L" by (simp_all add: t_def)
  have "is_dirty (bufs s i) \<or> b_data (bufs s i) = disk s (b + MBR_BASE)"
    using c bview_slot [OF sl] dd by (simp add: babs_def bdisk_def)
  then have okt: "buf_ok D t i" using ok(4,5) by (auto simp: buf_ok_def Let_def f dt dk)
  have idle: "sd_idle t" using bio_invD(2) [OF inv] by (simp add: sd_idle_def t_def)
  have "bcore (bufs t j) = bcore (bufs s j)" if "j \<noteq> i" for j using cB that by (simp add: t_def s2_def)
  then have st: "bstep D i s t"
    using fr ok(1) lB idle okt bslot_others [OF inv sl] ok(3)
    by (auto simp: bstep_def dk f) (auto simp: t_def)
  have "babs D t = (babs D s)\<lparr>bs_held := (bs_held (babs D s))(b := None)\<rparr>"
    using bstep_babs [OF inv st sl] f ok(3) dk dt dd bview_slot [OF sl] by (auto simp: babs_def insert_absorb)
  moreover have "lru (bufs t) (i # remove1 i xs)" using lB by (simp add: t_def)
  ultimately show ?thesis using r fr bstep_inv [OF inv st] by blast
qed

lemma brelse_abs:
  assumes "bio_inv D s" and "bs_held (babs D s) b = Some i"
    and "b \<in> bs_dirty (babs D s) \<or> bs_view (babs D s) b = bs_disk (babs D s) b"
  shows "\<exists>t. brelse i s = Inr ((), t) \<and> bio_inv D t \<and> bframe s t \<and>
     babs D t = (babs D s)\<lparr>bs_held := (bs_held (babs D s))(b := None)\<rparr>"
proof -
  obtain xs where "lru (bufs s) xs" using assms(1) by (auto simp: bio_inv_def)
  from brelse_lru [OF assms this] show ?thesis by blast
qed


section \<open>The cache after \<open>binit\<close>\<close>

lemma binit_step_run:
  assumes l: "ring (nxt (bufs s)) (prv (bufs s)) HEAD xs" and b: "b \<notin> set (HEAD # xs)"
  shows "\<exists>t. binit_step b s = Inr ((), t) \<and> ring (nxt (bufs t)) (prv (bufs t)) HEAD (b # xs) \<and>
     (\<forall>i. bcore (bufs t i) = bcore (bufs s i)) \<and> slocks t = (slocks s)(Sbuf b := \<lparr>sl_locked = False, sl_pid = 0\<rparr>) \<and>
     (spin_free s \<longrightarrow> spin_free t) \<and> t\<lparr>bufs := bufs s, slocks := slocks s, locks := locks s\<rparr> = s"
proof -
  let ?B = "bufs s"
  have hb: "b \<noteq> HEAD" using b by auto
  define B3 where "B3 = ?B(b := (?B b)\<lparr>b_next := b_next (?B HEAD), b_prev := HEAD\<rparr>)"
  define B5 where "B5 = B3(b_next (?B HEAD) := (B3 (b_next (?B HEAD)))\<lparr>b_prev := b\<rparr>)"
  define B6 where "B6 = B5(HEAD := (B5 HEAD)\<lparr>b_next := b\<rparr>)"
  have h3: "B3 HEAD = ?B HEAD" using hb by (simp add: B3_def)
  have b3: "?B(b := (?B b)\<lparr>b_prev := HEAD, b_next := b_next (?B HEAD)\<rparr>) = B3" by (auto simp: B3_def)
  let ?t = "s\<lparr>bufs := B6, locks := (locks s)(Lsleep (Sbuf b) := \<lparr>lk_locked = False, lk_name = ''buffer'', lk_cpu = None\<rparr>),
     slocks := (slocks s)(Sbuf b := \<lparr>sl_locked = False, sl_pid = 0\<rparr>)\<rparr>"
  have il: "initsleeplock (Sbuf b) ''buffer'' u = Inr ((), u\<lparr>locks := (locks u)(Lsleep (Sbuf b) := \<lparr>lk_locked = False, lk_name = ''buffer'', lk_cpu = None\<rparr>),
     slocks := (slocks u)(Sbuf b := \<lparr>sl_locked = False, sl_pid = 0\<rparr>)\<rparr>)" for u :: "'a biostate_scheme"
    by (cases "locks u (Lsleep (Sbuf b))"; cases "slocks u (Sbuf b)")
       (simp add: initsleeplock_def initlock_def set_lock_def set_slock_def kop_simps)
  have "binit_step b s = Inr ((), ?t)"
    using h3 by (auto simp: binit_step_def kop_simps il b3 B3_def [symmetric] B5_def [symmetric] B6_def
        intro!: biostate.equality)
  moreover have "nxt B6 = (nxt ?B)(b := nxt ?B HEAD, HEAD := b)" and "prv B6 = (prv ?B)(b := HEAD, nxt ?B HEAD := b)"
    by (auto simp: B6_def B5_def B3_def nxt_def prv_def)
  then have "ring (nxt B6) (prv B6) HEAD (b # xs)" using ring_insert_front [OF l b] by simp
  moreover have "bcore (B6 i) = bcore (?B i)" for i
    by (auto simp: B6_def B5_def B3_def bcore_def)
  ultimately show ?thesis by (intro exI [of _ ?t]) (auto simp: spin_free_def lk_free_def)
qed

lemma binit_loop_run:
  assumes "ring (nxt (bufs s)) (prv (bufs s)) HEAD xs" and "distinct bs" "HEAD \<notin> set bs" "set bs \<inter> set xs = {}"
  shows "\<exists>t. binit_loop bs s = Inr ((), t) \<and> ring (nxt (bufs t)) (prv (bufs t)) HEAD (rev bs @ xs) \<and>
     (\<forall>i. bcore (bufs t i) = bcore (bufs s i)) \<and> (\<forall>i. sl_locked (slocks t (Sbuf i)) \<longrightarrow> i \<notin> set bs) \<and>
     (\<forall>i. i \<notin> set bs \<longrightarrow> slocks t (Sbuf i) = slocks s (Sbuf i)) \<and>
     (spin_free s \<longrightarrow> spin_free t) \<and> t\<lparr>bufs := bufs s, slocks := slocks s, locks := locks s\<rparr> = s"
  using assms
proof (induction bs arbitrary: s xs)
  case Nil
  then show ?case by (simp add: kop_simps)
next
  case (Cons b bs)
  obtain t where t: "binit_step b s = Inr ((), t)" "ring (nxt (bufs t)) (prv (bufs t)) HEAD (b # xs)"
     "\<forall>i. bcore (bufs t i) = bcore (bufs s i)" "slocks t = (slocks s)(Sbuf b := \<lparr>sl_locked = False, sl_pid = 0\<rparr>)"
     "spin_free s \<longrightarrow> spin_free t" "t\<lparr>bufs := bufs s, slocks := slocks s, locks := locks s\<rparr> = s"
    using binit_step_run [OF Cons.prems(1), of b] Cons.prems by auto
  obtain u where u: "binit_loop bs t = Inr ((), u)" "ring (nxt (bufs u)) (prv (bufs u)) HEAD (rev bs @ b # xs)"
     "\<forall>i. bcore (bufs u i) = bcore (bufs t i)" "\<forall>i. sl_locked (slocks u (Sbuf i)) \<longrightarrow> i \<notin> set bs"
     "\<forall>i. i \<notin> set bs \<longrightarrow> slocks u (Sbuf i) = slocks t (Sbuf i)"
     "spin_free t \<longrightarrow> spin_free u" "u\<lparr>bufs := bufs t, slocks := slocks t, locks := locks t\<rparr> = t"
    using Cons.IH [OF t(2)] Cons.prems by auto
  have "u\<lparr>bufs := bufs s, slocks := slocks s, locks := locks s\<rparr>
      = (u\<lparr>bufs := bufs t, slocks := slocks t, locks := locks t\<rparr>)\<lparr>bufs := bufs s, slocks := slocks s, locks := locks s\<rparr>"
    by simp
  also have "\<dots> = s" using t(6) u(7) by simp
  finally have "u\<lparr>bufs := bufs s, slocks := slocks s, locks := locks s\<rparr> = s" .
  then show ?case using t u
    by (intro exI [of _ u]) (auto simp: kop_simps fun_upd_apply split: if_splits)
qed


definition buf_zero :: "buf \<Rightarrow> bool" where
  "buf_zero b \<longleftrightarrow> b_flags b = 0 \<and> b_dev b = 0 \<and> b_refcnt b = 0 \<and> length (b_data b) = BSIZE"

lemma binit_inv:
  assumes "D \<noteq> 0" "spin_free s" "sd_idle s" "running s p" "\<And>i. i < NBUF \<Longrightarrow> buf_zero (bufs s i)"
    "\<And>a. length (disk s a) = BSIZE"
  shows "\<exists>t. binit s = Inr ((), t) \<and> bio_inv D t \<and> bdirty D t = {} \<and> bheld D t = Map.empty \<and>
     bview D t = bdisk s \<and> bdisk t = bdisk s \<and> bwlog t = bwlog s \<and> biostate.more t = biostate.more s \<and>
     kframe (s\<lparr>locks := locks t\<rparr>) t \<and> (\<forall>i<NBUF. buf_zero (bufs t i))"
proof -
  let ?l = "(locks s)(Lbcache := (locks s Lbcache)\<lparr>lk_name := ''bcache'', lk_locked := False, lk_cpu := None\<rparr>)"
  define s1 where "s1 = s\<lparr>locks := ?l, bufs := (bufs s)(HEAD := (bufs s HEAD)\<lparr>b_prev := HEAD, b_next := HEAD\<rparr>)\<rparr>"
  have r0: "ring (nxt (bufs s1)) (prv (bufs s1)) HEAD []"
    by (simp add: ring_empty s1_def nxt_def prv_def)
  have "HEAD \<notin> set [0..<NBUF]" by (simp add: HEAD_def NBUF_def)
  then obtain t where t: "binit_loop [0..<NBUF] s1 = Inr ((), t)"
     "ring (nxt (bufs t)) (prv (bufs t)) HEAD (rev [0..<NBUF])"
     "\<forall>i. bcore (bufs t i) = bcore (bufs s1 i)" "\<forall>i. sl_locked (slocks t (Sbuf i)) \<longrightarrow> i \<notin> set [0..<NBUF]"
     "spin_free s1 \<longrightarrow> spin_free t" and
     e: "t\<lparr>bufs := bufs s1, slocks := slocks s1, locks := locks s1\<rparr> = s1"
    using binit_loop_run [OF r0, of "[0..<NBUF]"] by auto
  have f: "this_cpu t = this_cpu s" "cpu_proc t = cpu_proc s" "ttbr0 t = ttbr0 s" "ptable t = ptable s"
    "initproc t = initproc s" "nextpid t = nextpid s" "sdque t = sdque s" "disk t = disk s" "wlog t = wlog s"
    "emmc_int t = emmc_int s" "card_req t = card_req s" "sd_hc t = sd_hc s" "sd_send t = sd_send s"
    "sd_wrdy t = sd_wrdy s" "biostate.more t = biostate.more s"
    using arg_cong [OF e, of this_cpu] arg_cong [OF e, of cpu_proc] arg_cong [OF e, of ttbr0]
      arg_cong [OF e, of ptable] arg_cong [OF e, of initproc] arg_cong [OF e, of nextpid] arg_cong [OF e, of sdque]
      arg_cong [OF e, of disk] arg_cong [OF e, of wlog] arg_cong [OF e, of emmc_int] arg_cong [OF e, of card_req]
      arg_cong [OF e, of sd_hc] arg_cong [OF e, of sd_send] arg_cong [OF e, of sd_wrdy] arg_cong [OF e, of biostate.more]
    by (simp_all add: s1_def)
  have z: "buf_zero (bufs t i)" if "i < NBUF" for i
    using t(3)[rule_format, of i] assms(5) [OF that] that
    by (auto simp: s1_def bcore_def buf_zero_def HEAD_def NBUF_def)
  have ul: "\<not> sl_locked (slocks t (Sbuf i))" if "i < NBUF" for i using t(4) that by auto
  have ok: "buf_ok D t i" if "i < NBUF" for i
    using z [OF that] ul [OF that] assms(1) by (simp add: buf_ok_def buf_zero_def is_dirty_def)
  have dev: "b_dev (bufs t i) \<noteq> D" if "i < NBUF" for i using z [OF that] assms(1) by (simp add: buf_zero_def)
  have "spin_free s1" using assms(2) by (auto simp: s1_def spin_free_def lk_free_def)
  moreover have "lru (bufs t) (rev [0..<NBUF])" using t(2) by (auto simp: lru_def)
  moreover have "running t p" using assms(4) by (simp add: running_def thisproc_def f)
  moreover have "inj_on (\<lambda>i. b_blockno (bufs t i)) {i. i < NBUF \<and> b_dev (bufs t i) = D}"
    using dev by (auto simp: inj_on_def)
  moreover have "sd_idle t" using assms(3) by (simp add: sd_idle_def f)
  ultimately have "bio_inv D t"
    unfolding bio_inv_def using t(5) assms(1,6) ok by (auto simp: f)
  moreover have sl: "bslot D t b = None" for b using dev by (auto simp: bslot_None)
  moreover have "bdisk t = bdisk s" by (simp add: bdisk_def [abs_def] f)
  moreover have "binit s = Inr ((), t)"
    using t(1) by (simp add: binit_def initlock_def set_lock_def kop_simps s1_def)
  ultimately show ?thesis
    using f z by (intro exI [of _ t])
      (auto simp: bdirty_def bheld_def [abs_def] bview_def [abs_def] bwlog_def kframe_def fun_eq_iff)
qed


text \<open>
  A state to start from: process 0 runs on CPU 0, every lock is free, every buffer is zero and the
  card is idle. \<open>dk\<close> is the content of the disk, \<open>z\<close> the state of further components.
\<close>

definition proc0 :: proc where
  "proc0 = \<lparr>p_sz = 0, p_pgdir = 0xFFFF000000001000, p_kstack = 0, p_state = RUNNING, p_pid = 1, p_parent = None,
     p_tf = 0, p_context = 0, p_chan = None, p_killed = False, p_name = ''init'', p_ofile = replicate NOFILE None,
     p_cwd = None, p_priority = 0, p_cpus_allowed = 15\<rparr>"

definition boot_bio :: "(u32 \<Rightarrow> byte list) \<Rightarrow> 'z \<Rightarrow> 'z biostate_scheme" where
  "boot_bio dk z = \<lparr>this_cpu = 0, cpu_proc = (\<lambda>c. if c = 0 then Some 0 else None), ttbr0 = (\<lambda>c. 0x1000),
     ptable = (\<lambda>p. if p = 0 then proc0 else proc0\<lparr>p_state := UNUSED\<rparr>), initproc = Some 0, nextpid = 2,
     locks = (\<lambda>l. \<lparr>lk_locked = False, lk_name = [], lk_cpu = None\<rparr>),
     slocks = (\<lambda>l. \<lparr>sl_locked = False, sl_pid = 0\<rparr>),
     bufs = (\<lambda>i. \<lparr>b_flags = 0, b_dev = 0, b_blockno = 0, b_refcnt = 0, b_data = replicate BSIZE 0, b_prev = 0, b_next = 0\<rparr>),
     sdque = \<lparr>lh_next = (\<lambda>i. i), lh_prev = (\<lambda>i. i)\<rparr>, disk = dk, wlog = [], emmc_int = 0, emmc_fifo = [], card_req = None,
     sd_hc = True, sd_send = (\<lambda>w a. 0), sd_wrdy = (\<lambda>a. 0), \<dots> = z\<rparr>"

lemma boot_bio_inv:
  assumes "\<And>a. length (dk a) = BSIZE" and "D \<noteq> 0"
  shows "\<exists>t. binit (boot_bio dk z) = Inr ((), t) \<and> bio_inv D t \<and> biostate.more t = z \<and>
     babs D t = \<lparr>bs_view = (\<lambda>b. dk (b + MBR_BASE)), bs_disk = (\<lambda>b. dk (b + MBR_BASE)), bs_dirty = {},
       bs_held = Map.empty, bs_wlog = []\<rparr>"
proof -
  let ?s = "boot_bio dk z"
  have "spin_free ?s" "sd_idle ?s" "running ?s 0" "\<And>i. buf_zero (bufs ?s i)" "\<And>a. length (disk ?s a) = BSIZE"
    using assms(1) by (simp_all add: boot_bio_def spin_free_def lk_free_def sd_idle_def lring_def ring_empty running_def
        thisproc_def proc0_def NPROC_def buf_zero_def)
  from binit_inv [OF assms(2) this] obtain t where t: "binit ?s = Inr ((), t)" "bio_inv D t" "bdirty D t = {}"
    "bheld D t = Map.empty" "bview D t = bdisk ?s" "bdisk t = bdisk ?s" "bwlog t = bwlog ?s"
    "biostate.more t = biostate.more ?s" by blast
  moreover have "bdisk ?s = (\<lambda>b. dk (b + MBR_BASE))" "bwlog ?s = []" "biostate.more ?s = z"
    by (auto simp: bdisk_def [abs_def] boot_bio_def bwlog_def)
  ultimately show ?thesis by (intro exI [of _ t]) (simp add: babs_def)
qed

text \<open>What the cache sees of a state is the part of the state that it owns.\<close>

lemmas cache_defs = bio_inv_def buf_ok_def spin_free_def sd_idle_def running_def thisproc_def curpid_def
  babs_def bview_def bslot_def bdisk_def bdirty_def bheld_def bwlog_def

lemma truncate_fields:
  fixes s :: "'a biostate_scheme" and t :: "'b biostate_scheme"
  assumes "biostate.truncate t = biostate.truncate s"
  shows "this_cpu t = this_cpu s" "cpu_proc t = cpu_proc s" "ttbr0 t = ttbr0 s" "ptable t = ptable s"
    "initproc t = initproc s" "nextpid t = nextpid s" "locks t = locks s" "slocks t = slocks s"
    "bufs t = bufs s" "sdque t = sdque s" "disk t = disk s" "wlog t = wlog s" "emmc_int t = emmc_int s"
    "card_req t = card_req s" "sd_hc t = sd_hc s" "sd_send t = sd_send s" "sd_wrdy t = sd_wrdy s"
  using assms by (simp_all add: biostate.truncate_def)

lemma babs_cong:
  fixes s :: "'a biostate_scheme" and t :: "'b biostate_scheme"
  assumes "bufs t = bufs s" "slocks t = slocks s" "disk t = disk s" "wlog t = wlog s"
  shows "babs D t = babs D s"
  unfolding babs_def bview_def bslot_def bdisk_def bdirty_def bheld_def bwlog_def assms ..

section \<open>The interface of the cache\<close>

text \<open>
  What a client may rely on: five operations on numbered blocks, an invariant, and the effect of
  every operation on the abstract block store. \<open>room\<close> is the condition under which \<open>bread\<close> finds a
  buffer.
\<close>

definition room :: "bstore \<Rightarrow> u32 \<Rightarrow> bool" where
  "room a b \<longleftrightarrow> b \<in> bs_dirty a \<or> card (bs_dirty a \<union> dom (bs_held a)) < NBUF"

locale block_reader =
  fixes inv :: "'s \<Rightarrow> bool" and abs :: "'s \<Rightarrow> bstore" and frame :: "'s \<Rightarrow> 's \<Rightarrow> bool"
    and rd :: "u32 \<Rightarrow> ('s, nat) kop" and rel :: "nat \<Rightarrow> ('s, unit) kop" and dat :: "nat \<Rightarrow> 's \<Rightarrow> byte list"
  assumes frame_refl: "frame s s"
    and frame_trans: "frame s t \<Longrightarrow> frame t u \<Longrightarrow> frame s u"
    and rd_ok: "inv s \<Longrightarrow> bs_held (abs s) b = None \<Longrightarrow> room (abs s) b \<Longrightarrow>
      \<exists>i t. rd b s = Inr (i, t) \<and> inv t \<and> frame s t \<and> abs t = (abs s)\<lparr>bs_held := (bs_held (abs s))(b \<mapsto> i)\<rparr>"
    and dat_ok: "inv s \<Longrightarrow> bs_held (abs s) b = Some i \<Longrightarrow> dat i s = bs_view (abs s) b"
    and rel_ok: "inv s \<Longrightarrow> bs_held (abs s) b = Some i \<Longrightarrow>
      b \<in> bs_dirty (abs s) \<or> bs_view (abs s) b = bs_disk (abs s) b \<Longrightarrow>
      \<exists>t. rel i s = Inr ((), t) \<and> inv t \<and> frame s t \<and> abs t = (abs s)\<lparr>bs_held := (bs_held (abs s))(b := None)\<rparr>"
    and coherent: "inv s \<Longrightarrow> bs_held (abs s) b = None \<Longrightarrow> b \<notin> bs_dirty (abs s) \<Longrightarrow> bs_view (abs s) b = bs_disk (abs s) b"
    and view_length: "inv s \<Longrightarrow> length (bs_view (abs s) b) = BSIZE"
begin

text \<open>Reading a block: take its buffer, read it, give it back.\<close>

lemma read_block:
  assumes inv: "inv s" and h: "bs_held (abs s) b = None" and r: "room (abs s) b"
  shows "\<exists>t. bind (rd b) (\<lambda>i. bind (get (dat i)) (\<lambda>d. seq (rel i) (ret (f d)))) s = Inr (f (bs_view (abs s) b), t) \<and>
     inv t \<and> frame s t \<and> abs t = abs s"
proof -
  obtain i t where t: "rd b s = Inr (i, t)" "inv t" "frame s t"
    "abs t = (abs s)\<lparr>bs_held := (bs_held (abs s))(b \<mapsto> i)\<rparr>" using rd_ok [OF inv h r] by blast
  have "b \<in> bs_dirty (abs t) \<or> bs_view (abs t) b = bs_disk (abs t) b" using coherent [OF inv h] t(4) by auto
  then obtain u where u: "rel i t = Inr ((), u)" "inv u" "frame t u" "abs u = (abs t)\<lparr>bs_held := (bs_held (abs t))(b := None)\<rparr>"
    using rel_ok [OF t(2), of b i] t(4) by auto
  have "(bs_held (abs s))(b := None) = bs_held (abs s)" using h by auto
  then have "abs u = abs s" using u(4) t(4) by simp
  moreover have "dat i t = bs_view (abs s) b" using dat_ok [OF t(2), of b i] t(4) by simp
  ultimately show ?thesis using t(1) u frame_trans [OF t(3) u(3)] by (intro exI [of _ u]) (simp add: kop_simps)
qed

end

text \<open>The log works on the cache directly: it also writes blocks through to the disk.\<close>

locale block_cache = block_reader +
  fixes wr :: "nat \<Rightarrow> ('a, unit) kop" and put :: "nat \<Rightarrow> byte list \<Rightarrow> ('a, unit) kop"
  assumes put_ok: "inv s \<Longrightarrow> bs_held (abs s) b = Some i \<Longrightarrow> length d = BSIZE \<Longrightarrow>
      \<exists>t. put i d s = Inr ((), t) \<and> inv t \<and> frame s t \<and> abs t = (abs s)\<lparr>bs_view := (bs_view (abs s))(b := d)\<rparr>"
    and wr_ok: "inv s \<Longrightarrow> bs_held (abs s) b = Some i \<Longrightarrow>
      \<exists>t. wr i s = Inr ((), t) \<and> inv t \<and> frame s t \<and>
        abs t = (abs s)\<lparr>bs_disk := (bs_disk (abs s))(b := bs_view (abs s) b), bs_dirty := bs_dirty (abs s) - {b},
          bs_wlog := bs_wlog (abs s) @ [(b, bs_view (abs s) b)]\<rparr>"
begin

text \<open>Copying block \<open>a\<close> over block \<open>b\<close> on the disk, with both buffers in use.\<close>

lemma copy_held:
  assumes inv: "inv s" and h: "bs_held (abs s) a = Some i" "bs_held (abs s) b = Some j" and ab: "a \<noteq> b"
    and c: "a \<in> bs_dirty (abs s) \<or> bs_view (abs s) a = bs_disk (abs s) a"
  shows "\<exists>t. bind (get (dat i)) (\<lambda>d. seq (put j d) (seq (wr j) (seq (rel i) (rel j)))) s = Inr ((), t) \<and>
     inv t \<and> frame s t \<and> abs t = (abs s)\<lparr>bs_view := (bs_view (abs s))(b := bs_view (abs s) a),
       bs_disk := (bs_disk (abs s))(b := bs_view (abs s) a), bs_dirty := bs_dirty (abs s) - {b},
       bs_held := (bs_held (abs s))(a := None, b := None),
       bs_wlog := bs_wlog (abs s) @ [(b, bs_view (abs s) a)]\<rparr>"
proof -
  let ?d = "bs_view (abs s) a"
  have d: "dat i s = ?d" using dat_ok [OF inv h(1)] .
  obtain t1 where t1: "put j ?d s = Inr ((), t1)" "inv t1" "frame s t1"
    "abs t1 = (abs s)\<lparr>bs_view := (bs_view (abs s))(b := ?d)\<rparr>"
    using put_ok [OF inv h(2)] view_length [OF inv] by blast
  obtain t2 where t2: "wr j t1 = Inr ((), t2)" "inv t2" "frame t1 t2"
    "abs t2 = (abs t1)\<lparr>bs_disk := (bs_disk (abs t1))(b := bs_view (abs t1) b), bs_dirty := bs_dirty (abs t1) - {b},
          bs_wlog := bs_wlog (abs t1) @ [(b, bs_view (abs t1) b)]\<rparr>"
    using wr_ok [OF t1(2), of b j] h t1(4) by auto
  obtain t3 where t3: "rel i t2 = Inr ((), t3)" "inv t3" "frame t2 t3"
    "abs t3 = (abs t2)\<lparr>bs_held := (bs_held (abs t2))(a := None)\<rparr>"
    using rel_ok [OF t2(2), of a i] h t1(4) t2(4) c ab by auto
  obtain t4 where t4: "rel j t3 = Inr ((), t4)" "inv t4" "frame t3 t4"
    "abs t4 = (abs t3)\<lparr>bs_held := (bs_held (abs t3))(b := None)\<rparr>"
    using rel_ok [OF t3(2), of b j] h t1(4) t2(4) t3(4) ab by auto
  have "frame s t4" using t1(3) t2(3) t3(3) t4(3) frame_trans by metis
  then show ?thesis
    using t1 t2 t3 t4 d by (intro exI [of _ t4]) (simp add: kop_simps)
qed

lemma copy_block:
  assumes inv: "inv s" and h: "bs_held (abs s) a = None" "bs_held (abs s) b = None" and ab: "a \<noteq> b"
    and r: "card (bs_dirty (abs s) \<union> dom (bs_held (abs s)) \<union> {a, b}) \<le> NBUF"
  shows "\<exists>t. bind (rd a) (\<lambda>i. bind (rd b) (\<lambda>j.
       bind (get (dat i)) (\<lambda>d. seq (put j d) (seq (wr j) (seq (rel i) (rel j)))))) s = Inr ((), t) \<and>
     inv t \<and> frame s t \<and> abs t = (abs s)\<lparr>bs_view := (bs_view (abs s))(b := bs_view (abs s) a),
       bs_disk := (bs_disk (abs s))(b := bs_view (abs s) a), bs_dirty := bs_dirty (abs s) - {b},
       bs_wlog := bs_wlog (abs s) @ [(b, bs_view (abs s) a)]\<rparr>" (is ?F)
    and "\<exists>t. bind (rd b) (\<lambda>j. bind (rd a) (\<lambda>i.
       bind (get (dat i)) (\<lambda>d. seq (put j d) (seq (wr j) (seq (rel i) (rel j)))))) s = Inr ((), t) \<and>
     inv t \<and> frame s t \<and> abs t = (abs s)\<lparr>bs_view := (bs_view (abs s))(b := bs_view (abs s) a),
       bs_disk := (bs_disk (abs s))(b := bs_view (abs s) a), bs_dirty := bs_dirty (abs s) - {b},
       bs_wlog := bs_wlog (abs s) @ [(b, bs_view (abs s) a)]\<rparr>" (is ?G)
proof -
  let ?U = "bs_dirty (abs s) \<union> dom (bs_held (abs s))"
  have rm: "x \<in> bs_dirty (abs s) \<or> card ?U < NBUF" "x \<in> bs_dirty (abs s) \<or> card (insert y ?U) < NBUF"
    if xy: "x \<in> {a, b}" "y \<in> {a, b}" "x \<noteq> y" for x y
  proof -
    have "insert x (insert y ?U) = ?U \<union> {a, b}" using xy by auto
    then have le: "card (insert x (insert y ?U)) \<le> NBUF" using r by simp
    have "x \<notin> dom (bs_held (abs s))" using h xy by auto
    then have "card ?U < card (insert x (insert y ?U)) \<and> card (insert y ?U) < card (insert x (insert y ?U))"
      if "x \<notin> bs_dirty (abs s)" using that xy(3) by (intro conjI psubset_card_mono) auto
    then show "x \<in> bs_dirty (abs s) \<or> card ?U < NBUF" "x \<in> bs_dirty (abs s) \<or> card (insert y ?U) < NBUF"
      using le by (meson less_le_trans)+
  qed
  have two: "\<exists>i u j t. rd x s = Inr (i, u) \<and> rd y u = Inr (j, t) \<and> inv t \<and> frame s t \<and>
     abs t = (abs s)\<lparr>bs_held := (bs_held (abs s))(x \<mapsto> i, y \<mapsto> j)\<rparr>" if xy: "x \<in> {a, b}" "y \<in> {a, b}" "x \<noteq> y" for x y
  proof -
    have "bs_held (abs s) x = None" "room (abs s) x" using h xy rm(1) [OF xy] by (auto simp: room_def)
    from rd_ok [OF inv this] obtain i t where t: "rd x s = Inr (i, t)" "inv t" "frame s t"
      "abs t = (abs s)\<lparr>bs_held := (bs_held (abs s))(x \<mapsto> i)\<rparr>" by blast
    have "bs_held (abs t) y = None" "room (abs t) y"
      using h xy rm(2) [OF xy(2,1)] t(4) by (auto simp: room_def)
    from rd_ok [OF t(2) this] obtain j u where u: "rd y t = Inr (j, u)" "inv u" "frame t u"
      "abs u = (abs t)\<lparr>bs_held := (bs_held (abs t))(y \<mapsto> j)\<rparr>" by blast
    have "abs u = (abs s)\<lparr>bs_held := (bs_held (abs s))(x \<mapsto> i, y \<mapsto> j)\<rparr>" using u(4) t(4) by simp
    then show ?thesis using t(1) u(1,2) frame_trans [OF t(3) u(3)] by blast
  qed
  have c: "a \<in> bs_dirty (abs s) \<or> bs_view (abs s) a = bs_disk (abs s) a" using coherent [OF inv h(1)] by auto
  have fin: "\<exists>v. bind (get (dat i)) (\<lambda>d. seq (put j d) (seq (wr j) (seq (rel i) (rel j)))) t = Inr ((), v) \<and>
     inv v \<and> frame s v \<and> abs v = (abs s)\<lparr>bs_view := (bs_view (abs s))(b := bs_view (abs s) a),
       bs_disk := (bs_disk (abs s))(b := bs_view (abs s) a), bs_dirty := bs_dirty (abs s) - {b},
       bs_wlog := bs_wlog (abs s) @ [(b, bs_view (abs s) a)]\<rparr>"
    if t: "inv t" "frame s t" and at: "abs t = (abs s)\<lparr>bs_held := (bs_held (abs s))(a \<mapsto> i, b \<mapsto> j)\<rparr>" for i j t
  proof -
    have "bs_held (abs t) a = Some i" "bs_held (abs t) b = Some j"
      "a \<in> bs_dirty (abs t) \<or> bs_view (abs t) a = bs_disk (abs t) a" using at ab c by simp_all
    from copy_held [OF t(1) this(1,2) ab this(3)] obtain v
      where v: "bind (get (dat i)) (\<lambda>d. seq (put j d) (seq (wr j) (seq (rel i) (rel j)))) t = Inr ((), v)" "inv v" "frame t v"
      and av: "abs v = (abs t)\<lparr>bs_view := (bs_view (abs t))(b := bs_view (abs t) a),
       bs_disk := (bs_disk (abs t))(b := bs_view (abs t) a), bs_dirty := bs_dirty (abs t) - {b},
       bs_held := (bs_held (abs t))(a := None, b := None),
       bs_wlog := bs_wlog (abs t) @ [(b, bs_view (abs t) a)]\<rparr>" by blast
    have "(bs_held (abs t))(a := None, b := None) = bs_held (abs s)" using at h by (auto simp: fun_eq_iff)
    then show ?thesis using v frame_trans [OF t(2) v(3)] av at by simp
  qed
  show ?F
  proof -
    obtain i u j t where t: "rd a s = Inr (i, u)" "rd b u = Inr (j, t)" "inv t" "frame s t"
      "abs t = (abs s)\<lparr>bs_held := (bs_held (abs s))(a \<mapsto> i, b \<mapsto> j)\<rparr>" using two [of a b] ab by blast
    show ?thesis using fin [OF t(3-5)]
      by (simp add: bind_run_Inr [where m = "rd a", OF t(1)] bind_run_Inr [where m = "rd b", OF t(2)])
  qed
  show ?G
  proof -
    obtain j u i t where t: "rd b s = Inr (j, u)" "rd a u = Inr (i, t)" "inv t" "frame s t"
      and at: "abs t = (abs s)\<lparr>bs_held := (bs_held (abs s))(b \<mapsto> j, a \<mapsto> i)\<rparr>" using two [of b a] ab by blast
    have "(bs_held (abs s))(b \<mapsto> j, a \<mapsto> i) = (bs_held (abs s))(a \<mapsto> i, b \<mapsto> j)" using ab by (rule fun_upd_twist [OF not_sym])
    with at have "abs t = (abs s)\<lparr>bs_held := (bs_held (abs s))(a \<mapsto> i, b \<mapsto> j)\<rparr>" by simp
    from fin [OF t(3,4) this] show ?thesis
      by (simp add: bind_run_Inr [where m = "rd a", OF t(2)] bind_run_Inr [where m = "rd b", OF t(1)])
  qed
qed

end

definition bdata :: "nat \<Rightarrow> 'z biostate_scheme \<Rightarrow> byte list" where
  "bdata i s = b_data (bufs s i)"

lemma bview_length: "bio_inv D s \<Longrightarrow> length (bview D s b) = BSIZE"
  using buf_ok_slot(5) bio_invD(5) by (fastforce simp: bview_def bdisk_def split: option.split)

interpretation bc: block_cache "bio_inv D" "babs D" bframe "bread D" brelse bdata bwrite bset for D
proof
  show "bframe s s" for s :: "'a biostate_scheme" by simp
  show "bframe s t \<Longrightarrow> bframe t u \<Longrightarrow> bframe s u" for s t u :: "'a biostate_scheme" by (rule bframe_trans)
  show "bio_inv D s \<Longrightarrow> bs_held (babs D s) b = None \<Longrightarrow> room (babs D s) b \<Longrightarrow>
      \<exists>i t. bread D b s = Inr (i, t) \<and> bio_inv D t \<and> bframe s t \<and>
        babs D t = (babs D s)\<lparr>bs_held := (bs_held (babs D s))(b \<mapsto> i)\<rparr>" for s :: "'a biostate_scheme" and b
    by (rule bread_abs) (auto simp: room_def)
  show "bio_inv D s \<Longrightarrow> bs_held (babs D s) b = Some i \<Longrightarrow> bdata i s = bs_view (babs D s) b"
    for s :: "'a biostate_scheme" and b i by (auto simp: babs_def bheld_iff bview_slot bdata_def)
  show "bio_inv D s \<Longrightarrow> length (bs_view (babs D s) b) = BSIZE" for s :: "'a biostate_scheme" and b
    by (simp add: babs_def bview_length)
qed (rule bset_abs bwrite_abs brelse_abs bs_coherent; assumption)+


lemma cache_ext:
  assumes "biostate.truncate t = biostate.truncate s"
  shows "bio_inv D t = bio_inv D s" and "babs D t = babs D s" and "bdata i t = bdata i s"
  unfolding cache_defs bdata_def truncate_fields [OF assms] by simp_all

section \<open>Properties\<close>

text \<open>
  With an idle card that accepts commands, \<open>sdrw\<close> returns with its buffer valid and clean: a dirty
  buffer has been written to its block, an invalid one has been filled from it. No other buffer and
  no other block changes, and the queue and the controller are idle again.
\<close>

theorem sdrw_synchronises:
  assumes "spin_free s" and "running s p" and "sd_idle s" and "b < NBUF" and "\<not> synced (bufs s b)"
  shows "\<exists>t. sdrw b s = Inr ((), t) \<and> kframe s t \<and> sd_idle t \<and> synced (bufs t b) \<and>
     b_data (bufs t b) = disk t (b_blockno (bufs s b)) \<and>
     (is_dirty (bufs s b) \<longrightarrow> disk t = (disk s)(b_blockno (bufs s b) := b_data (bufs s b)) \<and>
        wlog t = wlog s @ [(b_blockno (bufs s b), b_data (bufs s b))]) \<and>
     (\<not> is_dirty (bufs s b) \<longrightarrow> disk t = disk s \<and> wlog t = wlog s) \<and>
     (\<forall>i. i \<noteq> b \<longrightarrow> bufs t i = bufs s i)"
  using sdrw_effect [OF assms] by (elim exE conjE) (auto simp: synced_iff flags_valid_clean)

theorem sdrw_synchronises_witness:
  "\<exists>t. sdrw 3 (boot_bio (\<lambda>a. replicate BSIZE 7) () :: biostate) = Inr ((), t) \<and> b_data (bufs t 3) = replicate BSIZE 7"
proof -
  let ?s = "boot_bio (\<lambda>a. replicate BSIZE 7) () :: biostate"
  have "spin_free ?s" "running ?s 0" "sd_idle ?s" "\<not> synced (bufs ?s 3)" "disk ?s = (\<lambda>a. replicate BSIZE 7)"
    "\<not> is_dirty (bufs ?s 3)"
    by (simp_all add: boot_bio_def spin_free_def lk_free_def sd_idle_def lring_def ring_empty running_def
        thisproc_def proc0_def NPROC_def synced_def B_VALID_def is_dirty_def)
  from sdrw_synchronises [OF this(1-3) _ this(4)] this(5,6) show ?thesis by (auto simp: NBUF_def)
qed

text \<open>
  C4. Reading a block: when the block is not in use and the cache has room (the block is pinned, or
  fewer than \<open>NBUF\<close> blocks are pinned or in use), \<open>bread\<close> returns a locked buffer with the current
  content of the block and keeps the invariant and the content of every block.
\<close>

theorem bread_correct:
  assumes "bio_inv D s" and "bheld D s b = None"
    and "b \<in> bdirty D s \<or> card (bdirty D s \<union> dom (bheld D s)) < NBUF"
  shows "\<exists>i t. bread D b s = Inr (i, t) \<and> bio_inv D t \<and> bframe s t \<and> b_data (bufs t i) = bview D s b \<and>
     b_blockno (bufs t i) = b + MBR_BASE \<and> sl_locked (slocks t (Sbuf i)) \<and> is_valid (bufs t i) \<and>
     bview D t = bview D s \<and> bdisk t = bdisk s \<and> bdirty D t = bdirty D s \<and> bheld D t = (bheld D s)(b \<mapsto> i)"
proof -
  obtain i t where t: "bread D b s = Inr (i, t)" "bio_inv D t" "bframe s t"
     "babs D t = (babs D s)\<lparr>bs_held := (bs_held (babs D s))(b \<mapsto> i)\<rparr>"
    using bread_abs [OF assms(1), of b] assms(2,3) by (auto simp: babs_def)
  have e: "bview D t = bview D s" "bdisk t = bdisk s" "bdirty D t = bdirty D s" "bheld D t = (bheld D s)(b \<mapsto> i)"
    using t(4) by (simp_all add: babs_def)
  then have sl: "bslot D t b = Some i" "sl_locked (slocks t (Sbuf i))" using bheld_iff [of D t b i] by simp_all
  note ok = buf_ok_slot [OF t(2) sl(1)]
  show ?thesis using t e sl ok bview_slot [OF sl(1)] by (intro exI [of _ i] exI [of _ t]) simp
qed

text \<open>A disk image for the witnesses.\<close>

definition demo_bio :: biostate where
  "demo_bio = (case binit (boot_bio (\<lambda>a. replicate BSIZE (ucast a)) ()) of Inr (_, t) \<Rightarrow> t | Inl _ \<Rightarrow> boot_bio (\<lambda>a. []) ())"

lemma demo_bio:
  "bio_inv 1 demo_bio" "bheld 1 demo_bio = Map.empty" "bdirty 1 demo_bio = {}"
  "bview 1 demo_bio b = replicate BSIZE (ucast (b + MBR_BASE))"
proof -
  obtain t where "binit (boot_bio (\<lambda>a. replicate BSIZE (ucast a)) () :: biostate) = Inr ((), t)" "bio_inv 1 t"
    "babs 1 t = \<lparr>bs_view = (\<lambda>b. replicate BSIZE (ucast (b + MBR_BASE))), bs_disk = (\<lambda>b. replicate BSIZE (ucast (b + MBR_BASE))),
       bs_dirty = {}, bs_held = Map.empty, bs_wlog = []\<rparr>"
    using boot_bio_inv [of "\<lambda>a. replicate BSIZE (ucast a)" 1 "()"] by auto
  then show "bio_inv 1 demo_bio" "bheld 1 demo_bio = Map.empty" "bdirty 1 demo_bio = {}"
    "bview 1 demo_bio b = replicate BSIZE (ucast (b + MBR_BASE))"
    by (simp_all add: demo_bio_def babs_def)
qed

theorem bread_correct_witness:
  "\<exists>i t. bread 1 5 demo_bio = Inr (i, t) \<and> b_data (bufs t i) = replicate BSIZE (ucast (5 + MBR_BASE))"
  using bread_correct [of 1 demo_bio 5] demo_bio by (auto simp: NBUF_def)

text \<open>
  C8. The cache replaces the least recently used buffer: on a miss \<open>bget\<close> takes a buffer that is
  unused and clean, every buffer behind it in the order of use being in use or pinned; when all
  buffers are in use or pinned it panics.
\<close>

theorem bget_replaces_lru:
  assumes "bio_inv D s" and "lru (bufs s) xs" and "bslot D s b = None"
  shows "(\<exists>i ys zs t. bget D (b + MBR_BASE) s = Inr (i, t) \<and> xs = ys @ i # zs \<and>
       b_refcnt (bufs s i) = 0 \<and> \<not> is_dirty (bufs s i) \<and>
       (\<forall>j\<in>set zs. b_refcnt (bufs s j) \<noteq> 0 \<or> is_dirty (bufs s j))) \<or>
     (\<forall>i<NBUF. b_refcnt (bufs s i) \<noteq> 0 \<or> is_dirty (bufs s i)) \<and> bget D (b + MBR_BASE) s = Inl (Panic ''bget: no buffers'')"
proof (cases "\<exists>i<NBUF. b_refcnt (bufs s i) = 0 \<and> \<not> is_dirty (bufs s i)")
  case True
  from bget_miss [OF assms True] show ?thesis by blast
next
  case False
  then have f: "List.find (\<lambda>i. b_refcnt (bufs s i) = 0 \<and> b_flags (bufs s i) AND B_DIRTY = 0) (rev xs) = None"
    using assms(2) by (auto simp: find_None_iff lru_def is_dirty_def)
  have "bget D (b + MBR_BASE) s = Inl (Panic ''bget: no buffers'')"
    using bio_invD(1) [OF assms(1)] bget_scan_prev [OF assms(2), of "\<lambda>b. b_refcnt b = 0 \<and> b_flags b AND B_DIRTY = 0"] f
    by (simp add: bget_def kop_simps lock_simps bget_first [OF assms(1)] assms(3))
  with False show ?thesis by auto
qed

lemma demo_bio_slot: "bslot 1 demo_bio b = None"
proof (cases "bslot 1 demo_bio b")
  case (Some i)
  have "i < NBUF \<Longrightarrow> b_dev (bufs demo_bio i) \<noteq> 1" for i
  proof -
    assume i: "i < NBUF"
    let ?s = "boot_bio (\<lambda>a. replicate BSIZE (ucast a)) () :: biostate"
    have "spin_free ?s" "sd_idle ?s" "running ?s 0" "\<And>i. buf_zero (bufs ?s i)" "\<And>a. length (disk ?s a) = BSIZE"
      by (simp_all add: boot_bio_def spin_free_def lk_free_def sd_idle_def lring_def ring_empty running_def
          thisproc_def proc0_def NPROC_def buf_zero_def)
    from binit_inv [OF _ this, of 1] i show ?thesis by (auto simp: demo_bio_def buf_zero_def)
  qed
  then show ?thesis using Some by (auto simp: bslot_iff [OF demo_bio(1)])
qed

theorem bget_replaces_lru_witness:
  "\<exists>xs i ys zs t. lru (bufs demo_bio) xs \<and> bget 1 (5 + MBR_BASE) demo_bio = Inr (i, t) \<and> xs = ys @ i # zs \<and>
     (\<forall>j\<in>set zs. b_refcnt (bufs demo_bio j) \<noteq> 0 \<or> is_dirty (bufs demo_bio j))"
proof -
  obtain xs where xs: "lru (bufs demo_bio) xs" using demo_bio(1) by (auto simp: bio_inv_def)
  obtain i t where "bread 1 5 demo_bio = Inr (i, t)" using bc.rd_ok [OF demo_bio(1), of 5] demo_bio(2,3)
    by (auto simp: babs_def room_def NBUF_def)
  then have "\<And>e. bget 1 (5 + MBR_BASE) demo_bio \<noteq> Inl e" by (auto simp: bread_def kop_simps)
  with bget_replaces_lru [OF demo_bio(1) xs demo_bio_slot, of 5] show ?thesis using xs by blast
qed

text \<open>
  C9. Writing a block through: storing \<open>d\<close> in a held buffer, \<open>bwrite\<close> and \<open>brelse\<close> leave \<open>d\<close> on the
  disk and in the cache, unpin the block and give its buffer back; every other block keeps its content.
\<close>

theorem block_write_through:
  assumes "bio_inv D s" and "bheld D s b = Some i" and "length d = BSIZE"
  shows "\<exists>t. seq (bset i d) (seq (bwrite i) (brelse i)) s = Inr ((), t) \<and> bio_inv D t \<and> bframe s t \<and>
     bdisk t = (bdisk s)(b := d) \<and> bview D t = (bview D s)(b := d) \<and> bdirty D t = bdirty D s - {b} \<and>
     bheld D t = (bheld D s)(b := None) \<and> bwlog t = bwlog s @ [(b, d)]"
proof -
  have h: "bs_held (babs D s) b = Some i" using assms(2) by (simp add: babs_def)
  obtain s1 where s1: "bset i d s = Inr ((), s1)" "bio_inv D s1" "bframe s s1"
    "babs D s1 = (babs D s)\<lparr>bs_view := (bs_view (babs D s))(b := d)\<rparr>" using bset_abs [OF assms(1) h assms(3)] by blast
  obtain s2 where s2: "bwrite i s1 = Inr ((), s2)" "bio_inv D s2" "bframe s1 s2"
    "babs D s2 = (babs D s1)\<lparr>bs_disk := (bs_disk (babs D s1))(b := bs_view (babs D s1) b),
       bs_dirty := bs_dirty (babs D s1) - {b}, bs_wlog := bs_wlog (babs D s1) @ [(b, bs_view (babs D s1) b)]\<rparr>"
    using bwrite_abs [OF s1(2), of b i] h s1(4) by auto
  obtain t where t: "brelse i s2 = Inr ((), t)" "bio_inv D t" "bframe s2 t"
    "babs D t = (babs D s2)\<lparr>bs_held := (bs_held (babs D s2))(b := None)\<rparr>"
    using brelse_abs [OF s2(2), of b i] h s1(4) s2(4) by auto
  have "bframe s t" using s1(3) s2(3) t(3) bframe_trans by blast
  then show ?thesis using s1 s2 t by (intro exI [of _ t]) (simp add: kop_simps babs_def)
qed

theorem block_write_through_witness:
  "\<exists>s i t. bheld 1 s 5 = Some i \<and> seq (bset i (replicate BSIZE 9)) (seq (bwrite i) (brelse i)) s = Inr ((), t) \<and>
     bdisk (t :: biostate) 5 = replicate BSIZE 9"
proof -
  obtain i s where s: "bread 1 5 demo_bio = Inr (i, s)" "bio_inv 1 s" "bheld 1 s 5 = Some i"
    using bc.rd_ok [OF demo_bio(1), of 5] demo_bio(2,3) by (auto simp: babs_def room_def NBUF_def)
  from block_write_through [OF s(2,3), of "replicate BSIZE 9"] obtain t where
    "seq (bset i (replicate BSIZE 9)) (seq (bwrite i) (brelse i)) s = Inr ((), t)" "bdisk t 5 = replicate BSIZE 9" by auto
  with s(3) show ?thesis by blast
qed

end
