(* ===== verification/Layout.thy ===== *)
theory Layout
  imports Prelude
begin

text \<open>
  The on-disk structures of \<open>inc/fs.h\<close> and the log header of \<open>kern/log.c\<close> as they lie in a block:
  super block, inode, directory entry, log header. Reading a structure is a function from the bytes
  of the block, writing one replaces its bytes. The lemmas are the round trips, and that writing one
  structure leaves the others of the block alone.
\<close>

section \<open>Words in a block\<close>

definition get16 :: "nat \<Rightarrow> byte list \<Rightarrow> u16" where "get16 off d = le_word (slice off 2 d)"
definition get32 :: "nat \<Rightarrow> byte list \<Rightarrow> u32" where "get32 off d = le_word (slice off 4 d)"
definition put16 :: "nat \<Rightarrow> u16 \<Rightarrow> byte list \<Rightarrow> byte list" where "put16 off w d = splice off (le_bytes 2 w) d"
definition put32 :: "nat \<Rightarrow> u32 \<Rightarrow> byte list \<Rightarrow> byte list" where "put32 off w d = splice off (le_bytes 4 w) d"

lemma length_put [simp]:
  "off + 2 \<le> length d \<Longrightarrow> length (put16 off w16 d) = length d"
  "off + 4 \<le> length d \<Longrightarrow> length (put32 off w32 d) = length d"
  by (simp_all add: put16_def put32_def)

lemma get_put_same [simp]:
  "off + 2 \<le> length d \<Longrightarrow> get16 off (put16 off w16 d) = w16"
  "off + 4 \<le> length d \<Longrightarrow> get32 off (put32 off w32 d) = w32"
  by (simp_all add: get16_def put16_def get32_def put32_def)

lemma slice_put:
  "off + 2 \<le> length d \<Longrightarrow> o2 + n \<le> length d \<Longrightarrow> o2 + n \<le> off \<or> off + 2 \<le> o2 \<Longrightarrow>
     slice o2 n (put16 off w16 d) = slice o2 n d"
  "off + 4 \<le> length d \<Longrightarrow> o2 + n \<le> length d \<Longrightarrow> o2 + n \<le> off \<or> off + 4 \<le> o2 \<Longrightarrow>
     slice o2 n (put32 off w32 d) = slice o2 n d"
  by (simp_all add: put16_def put32_def slice_splice_other)

lemma get_put_other:
  "off + 2 \<le> length d \<Longrightarrow> o2 + 2 \<le> length d \<Longrightarrow> o2 + 2 \<le> off \<or> off + 2 \<le> o2 \<Longrightarrow>
     get16 o2 (put16 off w16 d) = get16 o2 d"
  "off + 2 \<le> length d \<Longrightarrow> o2 + 4 \<le> length d \<Longrightarrow> o2 + 4 \<le> off \<or> off + 2 \<le> o2 \<Longrightarrow>
     get32 o2 (put16 off w16 d) = get32 o2 d"
  "off + 4 \<le> length d \<Longrightarrow> o2 + 2 \<le> length d \<Longrightarrow> o2 + 2 \<le> off \<or> off + 4 \<le> o2 \<Longrightarrow>
     get16 o2 (put32 off w32 d) = get16 o2 d"
  "off + 4 \<le> length d \<Longrightarrow> o2 + 4 \<le> length d \<Longrightarrow> o2 + 4 \<le> off \<or> off + 4 \<le> o2 \<Longrightarrow>
     get32 o2 (put32 off w32 d) = get32 o2 d"
  by (simp_all add: get16_def get32_def slice_put)

text \<open>A run of 32-bit words from offset \<open>off\<close>.\<close>

definition puts32 :: "nat \<Rightarrow> u32 list \<Rightarrow> byte list \<Rightarrow> byte list" where
  "puts32 off ws d = foldl (\<lambda>d i. put32 (off + 4 * i) (ws ! i) d) d [0..<length ws]"

definition gets32 :: "nat \<Rightarrow> nat \<Rightarrow> byte list \<Rightarrow> u32 list" where
  "gets32 off n d = map (\<lambda>i. get32 (off + 4 * i) d) [0..<n]"

lemma length_gets32 [simp]: "length (gets32 off n d) = n"
  by (simp add: gets32_def)

lemma puts32_prefix:
  assumes "k \<le> length ws" and "off + 4 * k \<le> length d"
  shows "length (foldl (\<lambda>d i. put32 (off + 4 * i) (ws ! i) d) d [0..<k]) = length d \<and>
    (\<forall>j<k. get32 (off + 4 * j) (foldl (\<lambda>d i. put32 (off + 4 * i) (ws ! i) d) d [0..<k]) = ws ! j) \<and>
    (\<forall>o2 n. o2 + n \<le> length d \<longrightarrow> o2 + n \<le> off \<or> off + 4 * k \<le> o2 \<longrightarrow>
       slice o2 n (foldl (\<lambda>d i. put32 (off + 4 * i) (ws ! i) d) d [0..<k]) = slice o2 n d)"
  using assms
proof (induction k)
  case (Suc k)
  let ?e = "foldl (\<lambda>d i. put32 (off + 4 * i) (ws ! i) d) d [0..<k]"
  have IH: "length ?e = length d" "\<forall>j<k. get32 (off + 4 * j) ?e = ws ! j"
    "\<forall>o2 n. o2 + n \<le> length d \<longrightarrow> o2 + n \<le> off \<or> off + 4 * k \<le> o2 \<longrightarrow> slice o2 n ?e = slice o2 n d"
    using Suc by auto
  have f: "foldl (\<lambda>d i. put32 (off + 4 * i) (ws ! i) d) d [0..<Suc k] = put32 (off + 4 * k) (ws ! k) ?e" by simp
  have "get32 (off + 4 * j) (put32 (off + 4 * k) (ws ! k) ?e) = ws ! j" if "j < Suc k" for j
    using that Suc.prems IH by (cases "j = k") (auto simp: get_put_other)
  moreover have "slice o2 n (put32 (off + 4 * k) (ws ! k) ?e) = slice o2 n d"
    if "o2 + n \<le> length d" "o2 + n \<le> off \<or> off + 4 * Suc k \<le> o2" for o2 n
    using that Suc.prems IH by (subst slice_put) auto
  ultimately show ?case unfolding f using IH(1) Suc.prems by auto
qed simp

lemma length_puts32 [simp]: "off + 4 * length ws \<le> length d \<Longrightarrow> length (puts32 off ws d) = length d"
  unfolding puts32_def using puts32_prefix by blast

lemma gets_puts32 [simp]: "off + 4 * length ws \<le> length d \<Longrightarrow> n = length ws \<Longrightarrow> gets32 off n (puts32 off ws d) = ws"
  unfolding puts32_def gets32_def using puts32_prefix [of "length ws" ws off d] by (auto intro: nth_equalityI)

lemma slice_puts32:
  "off + 4 * length ws \<le> length d \<Longrightarrow> o2 + n \<le> length d \<Longrightarrow> o2 + n \<le> off \<or> off + 4 * length ws \<le> o2 \<Longrightarrow>
     slice o2 n (puts32 off ws d) = slice o2 n d"
  unfolding puts32_def using puts32_prefix [of "length ws" ws off d] by blast

lemma get_puts32:
  "off + 4 * length ws \<le> length d \<Longrightarrow> o2 + 4 \<le> length d \<Longrightarrow> o2 + 4 \<le> off \<or> off + 4 * length ws \<le> o2 \<Longrightarrow>
     get32 o2 (puts32 off ws d) = get32 o2 d"
  "off + 4 * length ws \<le> length d \<Longrightarrow> o2 + 2 \<le> length d \<Longrightarrow> o2 + 2 \<le> off \<or> off + 4 * length ws \<le> o2 \<Longrightarrow>
     get16 o2 (puts32 off ws d) = get16 o2 d"
  by (simp_all add: get32_def get16_def slice_puts32)

lemma slice_slice: "k + m \<le> n \<Longrightarrow> slice k m (slice off n x) = slice (off + k) m x"
  by (simp add: slice_def drop_take add.commute)

lemma gets32_cong:
  "off + 4 * n \<le> length d \<Longrightarrow> length e = length d \<Longrightarrow> slice off (4 * n) e = slice off (4 * n) d \<Longrightarrow> gets32 off n e = gets32 off n d"
proof -
  assume a: "off + 4 * n \<le> length d" "length e = length d" "slice off (4 * n) e = slice off (4 * n) d"
  have "slice (off + 4 * i) 4 e = slice (off + 4 * i) 4 d" if "i < n" for i
  proof -
    have "slice (4 * i) 4 (slice off (4 * n) e) = slice (4 * i) 4 (slice off (4 * n) d)" using a by simp
    moreover have "slice (4 * i) 4 (slice off (4 * n) x) = slice (off + 4 * i) 4 x" for x :: "byte list"
      using \<open>i < n\<close> by (intro slice_slice) simp
    ultimately show ?thesis by simp
  qed
  then show ?thesis by (auto simp: gets32_def get32_def)
qed

section \<open>The super block\<close>

record superblock =
  sb_size :: u32
  sb_nblocks :: u32
  sb_ninodes :: u32
  sb_nlog :: u32
  sb_logstart :: u32
  sb_inodestart :: u32
  sb_bmapstart :: u32

definition read_superblock :: "byte list \<Rightarrow> superblock" where
  "read_superblock d = \<lparr>sb_size = get32 0 d, sb_nblocks = get32 4 d, sb_ninodes = get32 8 d, sb_nlog = get32 12 d,
     sb_logstart = get32 16 d, sb_inodestart = get32 20 d, sb_bmapstart = get32 24 d\<rparr>"

definition write_superblock :: "superblock \<Rightarrow> byte list \<Rightarrow> byte list" where
  "write_superblock sb d = puts32 0 [sb_size sb, sb_nblocks sb, sb_ninodes sb, sb_nlog sb, sb_logstart sb,
     sb_inodestart sb, sb_bmapstart sb] d"

lemma read_write_superblock: "28 \<le> length d \<Longrightarrow> read_superblock (write_superblock sb d) = sb"
proof -
  assume d: "28 \<le> length d"
  let ?ws = "[sb_size sb, sb_nblocks sb, sb_ninodes sb, sb_nlog sb, sb_logstart sb, sb_inodestart sb, sb_bmapstart sb]"
  have "gets32 0 7 (puts32 0 ?ws d) = ?ws" using d by (intro gets_puts32) auto
  then have "\<And>j. j < 7 \<Longrightarrow> get32 (4 * j) (puts32 0 ?ws d) = ?ws ! j" by (auto simp: gets32_def list_eq_iff_nth_eq)
  from this [of 0] this [of 1] this [of 2] this [of 3] this [of 4] this [of 5] this [of 6]
  show ?thesis by (cases sb) (simp add: read_superblock_def write_superblock_def)
qed

section \<open>Inodes on disk\<close>

definition NDIRECT :: nat where "NDIRECT = 12"
definition NINDIRECT :: nat where "NINDIRECT = 128"
definition MAXFILE :: nat where "MAXFILE = 140"
definition IPB :: u32 where "IPB = 8"
definition BPB :: u32 where "BPB = 4096"
definition DIRSIZ :: nat where "DIRSIZ = 14"

declare NDIRECT_def [const_defs] NINDIRECT_def [const_defs] MAXFILE_def [const_defs] IPB_def [const_defs]
  BPB_def [const_defs] DIRSIZ_def [const_defs]

record dinode =
  di_type :: u16
  di_major :: u16
  di_minor :: u16
  di_nlink :: u16
  di_size :: u32
  di_addrs :: "u32 list"

text \<open>The size of an inode is 64 bytes; \<open>off\<close> is where it starts in its block.\<close>

definition read_dinode :: "nat \<Rightarrow> byte list \<Rightarrow> dinode" where
  "read_dinode off d = \<lparr>di_type = get16 off d, di_major = get16 (off + 2) d, di_minor = get16 (off + 4) d,
     di_nlink = get16 (off + 6) d, di_size = get32 (off + 8) d, di_addrs = gets32 (off + 12) (NDIRECT + 1) d\<rparr>"

definition write_dinode :: "nat \<Rightarrow> dinode \<Rightarrow> byte list \<Rightarrow> byte list" where
  "write_dinode off di d =
     puts32 (off + 12) (di_addrs di) (put32 (off + 8) (di_size di) (put16 (off + 6) (di_nlink di)
       (put16 (off + 4) (di_minor di) (put16 (off + 2) (di_major di) (put16 off (di_type di) d)))))"

lemma length_write_dinode [simp]:
  "off + 64 \<le> length d \<Longrightarrow> length (di_addrs di) = NDIRECT + 1 \<Longrightarrow> length (write_dinode off di d) = length d"
  by (simp add: write_dinode_def NDIRECT_def)

lemma read_write_dinode:
  assumes "off + 64 \<le> length d" and "length (di_addrs di) = NDIRECT + 1"
  shows "read_dinode off (write_dinode off di d) = di"
  using assms
  by (cases di) (simp add: read_dinode_def write_dinode_def NDIRECT_def get_puts32 get_put_other)

lemma slice_write_dinode:
  assumes "off + 64 \<le> length d" and "length (di_addrs di) = NDIRECT + 1"
    and "o2 + n \<le> length d" and "o2 + n \<le> off \<or> off + 64 \<le> o2"
  shows "slice o2 n (write_dinode off di d) = slice o2 n d"
  using assms(4)
proof
  assume "o2 + n \<le> off"
  with assms(1-3) show ?thesis by (simp add: write_dinode_def NDIRECT_def slice_puts32 slice_put)
next
  assume "off + 64 \<le> o2"
  with assms(1-3) show ?thesis by (simp add: write_dinode_def NDIRECT_def slice_puts32 slice_put)
qed

lemma read_dinode_slice:
  assumes "off + 64 \<le> length d" "length e = length d" "\<And>o2 n. off \<le> o2 \<Longrightarrow> o2 + n \<le> off + 64 \<Longrightarrow> slice o2 n e = slice o2 n d"
  shows "read_dinode off e = read_dinode off d"
proof -
  have "gets32 (off + 12) 13 e = gets32 (off + 12) 13 d"
    using assms by (intro gets32_cong) auto
  then show ?thesis using assms(3) by (simp add: read_dinode_def get16_def get32_def NDIRECT_def)
qed

lemma read_write_dinode_other:
  assumes "off + 64 \<le> length d" and "length (di_addrs di) = NDIRECT + 1"
    and "o2 + 64 \<le> length d" and "o2 + 64 \<le> off \<or> off + 64 \<le> o2"
  shows "read_dinode o2 (write_dinode off di d) = read_dinode o2 d"
  using assms by (intro read_dinode_slice slice_write_dinode) auto

section \<open>Directory entries\<close>

record dirent =
  de_inum :: u16
  de_name :: "byte list"

definition read_dirent :: "byte list \<Rightarrow> dirent" where
  "read_dirent d = \<lparr>de_inum = get16 0 d, de_name = slice 2 DIRSIZ d\<rparr>"

definition write_dirent :: "dirent \<Rightarrow> byte list" where
  "write_dirent de = le_bytes 2 (de_inum de) @ de_name de"

lemma length_write_dirent [simp]: "length (de_name de) = DIRSIZ \<Longrightarrow> length (write_dirent de) = 16"
  by (simp add: write_dirent_def DIRSIZ_def)

lemma read_write_dirent: "length (de_name de) = DIRSIZ \<Longrightarrow> read_dirent (write_dirent de) = de"
  by (cases de) (simp add: read_dirent_def write_dirent_def get16_def slice_def)

lemma write_read_dirent: "length d = 16 \<Longrightarrow> write_dirent (read_dirent d) = d"
  by (simp add: read_dirent_def write_dirent_def get16_def slice_def DIRSIZ_def)

section \<open>The log header\<close>

definition LOGSIZE :: nat where "LOGSIZE = 30"
definition MAXOPBLOCKS :: nat where "MAXOPBLOCKS = 10"

declare LOGSIZE_def [const_defs] MAXOPBLOCKS_def [const_defs]

definition put_head :: "u32 list \<Rightarrow> byte list \<Rightarrow> byte list" where
  "put_head bl d = puts32 4 bl (put32 0 (of_nat (length bl)) d)"

lemma length_put_head [simp]: "4 + 4 * length bl \<le> length d \<Longrightarrow> length (put_head bl d) = length d"
  by (simp add: put_head_def)

lemma get_put_head:
  assumes "4 + 4 * length bl \<le> length d"
  shows "get32 0 (put_head bl d) = of_nat (length bl)" and "gets32 4 (length bl) (put_head bl d) = bl"
  using assms by (simp_all add: put_head_def get_puts32)

end
