(* ===== verification/Log.thy ===== *)
theory Log
  imports Bcache Layout
begin

text \<open>
  The redo log, \<open>kern/log.c\<close>, on top of the buffer cache. The state adds \<open>struct log\<close>; the header on
  the disk is a block whose first words are the number and the home addresses of the logged blocks.
  \<open>install_trans\<close>, \<open>write_log\<close> and \<open>write_head\<close> are described by the sequence of disk writes they
  issue. From these follow the effect of \<open>commit\<close>, the effect of \<open>recover_from_log\<close>, and that a crash
  between any two writes of a commit is repaired to the state before or after the transaction.
  Indices that would leave the array \<open>log.lh.block\<close> stop with \<open>Fault\<close>.
\<close>

unbundle bit_operations_syntax

record logstate = biostate +
  log_start :: u32
  log_size :: int
  log_outstanding :: int
  log_committing :: bool
  log_dev :: u32
  lh_n :: int
  lh_block :: "u32 list"

section \<open>The routines\<close>

text \<open>Reading and writing the bytes of a buffer.\<close>

definition buf_write :: "nat \<Rightarrow> (byte list \<Rightarrow> byte list) \<Rightarrow> ('z biostate_scheme, unit) kop" where
  "buf_write b f = (\<lambda>s. bset b (f (bdata b s)) s)"

definition readsb :: "u32 \<Rightarrow> ('z biostate_scheme, superblock) kop" where
  "readsb dev =
     bind (bread dev 1) (\<lambda>bp.
     bind (get (bdata bp)) (\<lambda>d.
     seq (brelse bp) (ret (read_superblock d))))"

fun install_trans_loop :: "nat list \<Rightarrow> ('z logstate_scheme, unit) kop" where
  "install_trans_loop [] = ret ()"
| "install_trans_loop (tail # ts) =
     bind (get (\<lambda>s. (log_dev s, log_start s, lh_block s))) (\<lambda>(dev, st, bl).
     if length bl \<le> tail then stop Fault
     else seq
       (bind (bread dev (st + of_nat tail + 1)) (\<lambda>lbuf.
        bind (bread dev (bl ! tail)) (\<lambda>dbuf.
        bind (get (bdata lbuf)) (\<lambda>d.
        seq (bset dbuf d)
        (seq (bwrite dbuf)
        (seq (brelse lbuf)
        (brelse dbuf)))))))
       (install_trans_loop ts))"

definition install_trans :: "('z logstate_scheme, unit) kop" where
  "install_trans = bind (get lh_n) (\<lambda>n. install_trans_loop [0..<nat n])"

fun read_head_loop :: "byte list \<Rightarrow> nat list \<Rightarrow> ('z logstate_scheme, unit) kop" where
  "read_head_loop d [] = ret ()"
| "read_head_loop d (i # is) =
     bind (get lh_block) (\<lambda>bl.
     if length bl \<le> i then stop Fault
     else seq (upd (\<lambda>s. s\<lparr>lh_block := bl[i := get32 (4 + 4 * i) d]\<rparr>)) (read_head_loop d is))"

definition read_head :: "('z logstate_scheme, unit) kop" where
  "read_head =
     bind (get (\<lambda>s. (log_dev s, log_start s))) (\<lambda>(dev, st).
     bind (bread dev st) (\<lambda>buf.
     bind (get (bdata buf)) (\<lambda>lh.
     seq (upd (\<lambda>s. s\<lparr>lh_n := sint (get32 0 lh)\<rparr>))
     (seq (bind (get lh_n) (\<lambda>n. read_head_loop lh [0..<nat n]))
     (brelse buf)))))"

fun write_head_loop :: "nat \<Rightarrow> nat list \<Rightarrow> ('z logstate_scheme, unit) kop" where
  "write_head_loop buf [] = ret ()"
| "write_head_loop buf (i # is) =
     bind (get lh_block) (\<lambda>bl.
     if length bl \<le> i then stop Fault
     else seq (buf_write buf (put32 (4 + 4 * i) (bl ! i))) (write_head_loop buf is))"

definition write_head :: "('z logstate_scheme, unit) kop" where
  "write_head =
     bind (get (\<lambda>s. (log_dev s, log_start s))) (\<lambda>(dev, st).
     bind (bread dev st) (\<lambda>buf.
     bind (get lh_n) (\<lambda>n.
     seq (buf_write buf (put32 0 (of_int n)))
     (seq (write_head_loop buf [0..<nat n])
     (seq (bwrite buf)
     (brelse buf))))))"

definition recover_from_log :: "('z logstate_scheme, unit) kop" where
  "recover_from_log =
     seq read_head
     (seq install_trans
     (seq (upd (\<lambda>s. s\<lparr>lh_n := 0\<rparr>))
     write_head))"

definition initlog :: "u32 \<Rightarrow> ('z logstate_scheme, unit) kop" where
  "initlog dev =
     (if 4 + 4 * LOGSIZE \<ge> BSIZE then panic ''initlog: logheader too big''
      else seq (initlock Llog ''log'')
      (bind (readsb dev) (\<lambda>sb.
      seq (upd (\<lambda>s. s\<lparr>log_start := sb_logstart sb\<rparr>))
      (seq (upd (\<lambda>s. s\<lparr>log_size := sint (sb_nlog sb)\<rparr>))
      (seq (upd (\<lambda>s. s\<lparr>log_dev := dev\<rparr>))
      recover_from_log)))))"

fun begin_op_loop :: "nat \<Rightarrow> ('z logstate_scheme, unit) kop" where
  "begin_op_loop 0 = stop Diverge"
| "begin_op_loop (Suc fuel) =
     bind (get log_committing) (\<lambda>c.
     if c then seq (sleep Clog Llog) (begin_op_loop fuel)
     else bind (get (\<lambda>s. lh_n s + (log_outstanding s + 1) * int MAXOPBLOCKS > int LOGSIZE)) (\<lambda>full.
       if full then seq (sleep Clog Llog) (begin_op_loop fuel)
       else seq (upd (\<lambda>s. s\<lparr>log_outstanding := log_outstanding s + 1\<rparr>)) (release Llog)))"

definition begin_op :: "('z logstate_scheme, unit) kop" where
  "begin_op = seq (acquire Llog) (begin_op_loop 2)"

fun write_log_loop :: "nat list \<Rightarrow> ('z logstate_scheme, unit) kop" where
  "write_log_loop [] = ret ()"
| "write_log_loop (tail # ts) =
     bind (get (\<lambda>s. (log_dev s, log_start s, lh_block s))) (\<lambda>(dev, st, bl).
     if length bl \<le> tail then stop Fault
     else seq
       (bind (bread dev (st + of_nat tail + 1)) (\<lambda>to.
        bind (bread dev (bl ! tail)) (\<lambda>from.
        bind (get (bdata from)) (\<lambda>d.
        seq (bset to d)
        (seq (bwrite to)
        (seq (brelse from)
        (brelse to)))))))
       (write_log_loop ts))"

definition write_log :: "('z logstate_scheme, unit) kop" where
  "write_log = bind (get lh_n) (\<lambda>n. write_log_loop [0..<nat n])"

definition commit :: "('z logstate_scheme, unit) kop" where
  "commit =
     bind (get (\<lambda>s. lh_n s > 0)) (\<lambda>c.
     if c then
       seq write_log
       (seq write_head
       (seq install_trans
       (seq (upd (\<lambda>s. s\<lparr>lh_n := 0\<rparr>))
       write_head)))
     else ret ())"

definition end_op :: "('z logstate_scheme, unit) kop" where
  "end_op =
     seq (acquire Llog)
     (seq (upd (\<lambda>s. s\<lparr>log_outstanding := log_outstanding s - 1\<rparr>))
     (bind (get log_committing) (\<lambda>c.
     if c then panic ''end_op: log.committing''
     else bind (get (\<lambda>s. log_outstanding s = 0)) (\<lambda>do_commit.
       seq (if do_commit then upd (\<lambda>s. s\<lparr>log_committing := True\<rparr>) else wakeup Clog)
       (seq (release Llog)
       (if do_commit then
          seq commit
          (seq (acquire Llog)
          (seq (upd (\<lambda>s. s\<lparr>log_committing := False\<rparr>))
          (seq (wakeup Clog)
          (release Llog))))
        else ret ()))))))"

text \<open>The first position below \<open>n\<close> that holds block \<open>b\<close>, or \<open>n\<close>.\<close>

fun log_slot :: "u32 list \<Rightarrow> u32 \<Rightarrow> nat \<Rightarrow> nat \<Rightarrow> nat" where
  "log_slot bl b n 0 = n"
| "log_slot bl b n (Suc k) = (if bl ! (n - Suc k) = b then n - Suc k else log_slot bl b n k)"

definition log_write :: "nat \<Rightarrow> ('z logstate_scheme, unit) kop" where
  "log_write b =
     bind (get (\<lambda>s. lh_n s \<ge> int LOGSIZE \<or> lh_n s \<ge> log_size s - 1)) (\<lambda>big.
     if big then panic ''log_write: too big a transaction''
     else seq (acquire Llog)
     (bind (get (\<lambda>s. b_blockno (bufs s b) - MBR_BASE)) (\<lambda>bno.
      bind (get (\<lambda>s. log_slot (lh_block s) bno (nat (lh_n s)) (nat (lh_n s)))) (\<lambda>i.
      seq (upd (\<lambda>s. s\<lparr>lh_block := (lh_block s)[i := bno]\<rparr>))
      (seq (upd (\<lambda>s. if int i = lh_n s then s\<lparr>lh_n := lh_n s + 1\<rparr> else s))
      (seq (set_buf b (\<lambda>x. x\<lparr>b_flags := b_flags x OR B_DIRTY\<rparr>))
      (release Llog)))))))"

section \<open>State frames\<close>

lemma more_fields:
  fixes s t :: "'z logstate_scheme"
  assumes "biostate.more t = biostate.more s"
  shows "log_start t = log_start s" "log_size t = log_size s" "log_outstanding t = log_outstanding s"
    "log_committing t = log_committing s" "log_dev t = log_dev s" "lh_n t = lh_n s" "lh_block t = lh_block s"
    "logstate.more t = logstate.more s"
  using assms by (cases s; cases t; simp)+

lemma more_lh_n:
  "biostate.more t = biostate.more s \<Longrightarrow> biostate.more (t\<lparr>lh_n := n\<rparr>) = biostate.more (s\<lparr>lh_n := n\<rparr>)"
  by (cases s; cases t) simp

lemma truncate_log [simp]:
  "biostate.truncate (s\<lparr>lh_n := n\<rparr>) = biostate.truncate s" "biostate.truncate (s\<lparr>lh_block := bl\<rparr>) = biostate.truncate s"
  "biostate.truncate (s\<lparr>log_outstanding := k\<rparr>) = biostate.truncate s" "biostate.truncate (s\<lparr>log_committing := c\<rparr>) = biostate.truncate s"
  "biostate.truncate (s\<lparr>log_start := st\<rparr>) = biostate.truncate s" "biostate.truncate (s\<lparr>log_size := z\<rparr>) = biostate.truncate s"
  "biostate.truncate (s\<lparr>log_dev := dv\<rparr>) = biostate.truncate s"
  by (simp_all add: biostate.truncate_def)

lemmas cache_log [simp] = truncate_log [THEN cache_ext(1)] truncate_log [THEN cache_ext(2)] truncate_log [THEN cache_ext(3)]


section \<open>Sequences of disk writes\<close>

definition writes :: "(u32 \<times> byte list) list \<Rightarrow> (u32 \<Rightarrow> byte list) \<Rightarrow> u32 \<Rightarrow> byte list" where
  "writes ws v = foldl (\<lambda>v (b, d). v(b := d)) v ws"

lemma writes_simps [simp]: "writes [] v = v" "writes ((b, d) # ws) v = writes ws (v(b := d))"
  "writes (us @ ws) v = writes ws (writes us v)"
  by (simp_all add: writes_def)

lemma writes_other: "b \<notin> fst ` set ws \<Longrightarrow> writes ws v b = v b"
  by (induction ws arbitrary: v) (auto simp: image_iff)

lemma writes_mem: "distinct (map fst ws) \<Longrightarrow> (b, d) \<in> set ws \<Longrightarrow> writes ws v b = d"
proof (induction ws arbitrary: v)
  case (Cons w ws)
  show ?case
  proof (cases "(b, d) = w")
    case True
    then have "b \<notin> fst ` set ws" using Cons.prems(1) by (simp add: True [symmetric])
    then show ?thesis by (simp add: True [symmetric] writes_other)
  next
    case False
    then show ?thesis using Cons by (cases w) auto
  qed
qed simp

definition bs_writes :: "(u32 \<times> byte list) list \<Rightarrow> bstore \<Rightarrow> bstore" where
  "bs_writes ws a = a\<lparr>bs_view := writes ws (bs_view a), bs_disk := writes ws (bs_disk a),
     bs_dirty := bs_dirty a - fst ` set ws, bs_wlog := bs_wlog a @ ws\<rparr>"

lemma bs_writes_simps [simp]:
  "bs_view (bs_writes ws a) = writes ws (bs_view a)" "bs_disk (bs_writes ws a) = writes ws (bs_disk a)"
  "bs_dirty (bs_writes ws a) = bs_dirty a - fst ` set ws" "bs_held (bs_writes ws a) = bs_held a"
  "bs_wlog (bs_writes ws a) = bs_wlog a @ ws"
  by (simp_all add: bs_writes_def)

lemma bs_writes_append [simp]: "bs_writes ws (bs_writes us a) = bs_writes (us @ ws) a"
  by (simp add: bs_writes_def image_Un Diff_eq Int_assoc)

lemma bs_writes_Nil [simp]: "bs_writes [] a = a"
  by (simp add: bs_writes_def)

lemma bs_writes_one:
  "a\<lparr>bs_view := (bs_view a)(b := d), bs_disk := (bs_disk a)(b := d), bs_dirty := bs_dirty a - {b},
     bs_wlog := bs_wlog a @ [(b, d)]\<rparr> = bs_writes [(b, d)] a"
  by (simp add: bs_writes_def)

section \<open>The loops\<close>

definition lblk :: "u32 \<Rightarrow> nat \<Rightarrow> u32" where
  "lblk st k = st + of_nat k + 1"

text \<open>The log is at rest: the cache is consistent and no buffer is in use.\<close>

definition quiet :: "'z logstate_scheme \<Rightarrow> bool" where
  "quiet s \<longleftrightarrow> bio_inv (log_dev s) s \<and> bs_held (babs (log_dev s) s) = Map.empty"

abbreviation "lview s \<equiv> bs_view (babs (log_dev s) s)"
abbreviation "ldisk s \<equiv> bs_disk (babs (log_dev s) s)"
abbreviation "ldirty s \<equiv> bs_dirty (babs (log_dev s) s)"

definition after_writes :: "(u32 \<times> byte list) list \<Rightarrow> 'z logstate_scheme \<Rightarrow> 'z logstate_scheme \<Rightarrow> bool" where
  "after_writes ws s t \<longleftrightarrow> quiet t \<and> bframe s t \<and> babs (log_dev s) t = bs_writes ws (babs (log_dev s) s)"

lemma after_writes_fields:
  assumes "after_writes ws s t"
  shows "log_start t = log_start s" "log_dev t = log_dev s" "lh_n t = lh_n s" "lh_block t = lh_block s"
    "log_size t = log_size s" "log_outstanding t = log_outstanding s" "log_committing t = log_committing s"
    "quiet t" "bframe s t" "babs (log_dev s) t = bs_writes ws (babs (log_dev s) s)"
  using assms by (auto simp: after_writes_def bframe_def dest: more_fields)

lemma after_writes_trans:
  assumes "after_writes us s t" "after_writes ws t u"
  shows "after_writes (us @ ws) s u"
  using assms after_writes_fields(2) [OF assms(1)] bframe_trans
  by (auto simp: after_writes_def)

lemma copy_after:
  assumes q: "quiet s" and ab: "a \<noteq> b" and r: "card (ldirty s \<union> {a, b}) \<le> NBUF"
  shows "\<exists>t. bind (bread (log_dev s) a) (\<lambda>i. bind (bread (log_dev s) b) (\<lambda>j. bind (get (bdata i)) (\<lambda>d.
       seq (bset j d) (seq (bwrite j) (seq (brelse i) (brelse j)))))) s = Inr ((), t) \<and>
     after_writes [(b, lview s a)] s t" (is ?F)
    and "\<exists>t. bind (bread (log_dev s) b) (\<lambda>j. bind (bread (log_dev s) a) (\<lambda>i. bind (get (bdata i)) (\<lambda>d.
       seq (bset j d) (seq (bwrite j) (seq (brelse i) (brelse j)))))) s = Inr ((), t) \<and>
     after_writes [(b, lview s a)] s t" (is ?G)
proof -
  let ?D = "log_dev s"
  have inv: "bio_inv ?D s" and h: "bs_held (babs ?D s) = Map.empty" using q by (auto simp: quiet_def)
  have r': "card (bs_dirty (babs ?D s) \<union> dom (bs_held (babs ?D s)) \<union> {a, b}) \<le> NBUF" using r h by simp
  have fin: "after_writes [(b, lview s a)] s t" if t: "bio_inv ?D t" "bframe s t"
     "babs ?D t = (babs ?D s)\<lparr>bs_view := (lview s)(b := lview s a), bs_disk := (ldisk s)(b := lview s a),
       bs_dirty := ldirty s - {b}, bs_wlog := bs_wlog (babs ?D s) @ [(b, lview s a)]\<rparr>" for t
  proof -
    have "log_dev t = ?D" using t(2) by (auto simp: bframe_def dest: more_fields)
    moreover have "babs ?D t = bs_writes [(b, lview s a)] (babs ?D s)" unfolding t(3) by (rule bs_writes_one)
    ultimately show ?thesis using t h by (simp add: after_writes_def quiet_def)
  qed
  show ?F using bc.copy_block(1) [OF inv _ _ ab r'] h fin by auto
  show ?G using bc.copy_block(2) [OF inv _ _ ab r'] h fin by auto
qed


lemma card_two:
  assumes "card A \<le> 29" "x \<in> A" "B \<subseteq> A" "finite A"
  shows "card (B \<union> {x, y}) \<le> NBUF"
proof -
  have "B \<union> {x, y} \<subseteq> insert y A" using assms by auto
  then have "card (B \<union> {x, y}) \<le> card (insert y A)" using assms by (intro card_mono) auto
  also have "\<dots> \<le> Suc (card A)" by (simp add: card_insert_if assms)
  finally show ?thesis using assms by (simp add: NBUF_def)
qed

lemma install_loop_run:
  assumes "quiet s" and "\<And>k. k \<in> set ks \<Longrightarrow> k < length (lh_block s)"
    and "\<And>k j. k \<in> set ks \<Longrightarrow> j \<in> set ks \<Longrightarrow> lh_block s ! k \<noteq> lblk (log_start s) j"
    and "card (ldirty s \<union> (\<lambda>k. lh_block s ! k) ` set ks) \<le> 29"
  shows "\<exists>t. install_trans_loop ks s = Inr ((), t) \<and>
     after_writes (map (\<lambda>k. (lh_block s ! k, lview s (lblk (log_start s) k))) ks) s t"
  using assms
proof (induction ks arbitrary: s)
  case Nil
  then show ?case by (auto simp: kop_simps after_writes_def)
next
  case (Cons k ks)
  let ?a = "lblk (log_start s) k" and ?b = "lh_block s ! k"
  let ?A = "ldirty s \<union> (\<lambda>k. lh_block s ! k) ` set (k # ks)"
  have "?a \<noteq> ?b" using Cons.prems(3) [of k k] by auto
  moreover have "card (ldirty s \<union> {?a, ?b}) \<le> NBUF"
    using card_two [OF Cons.prems(4), of ?b "ldirty s" ?a] by (auto simp: insert_commute)
  ultimately obtain u where u: "bind (bread (log_dev s) ?a) (\<lambda>i. bind (bread (log_dev s) ?b) (\<lambda>j. bind (get (bdata i)) (\<lambda>d.
       seq (bset j d) (seq (bwrite j) (seq (brelse i) (brelse j)))))) s = Inr ((), u)" 
     and au: "after_writes [(?b, lview s ?a)] s u"
    using copy_after(1) [OF Cons.prems(1)] by blast
  note f = after_writes_fields [OF au]
  have "ldirty u \<union> (\<lambda>k. lh_block u ! k) ` set ks \<subseteq> ?A" by (auto simp: f)
  then have "card (ldirty u \<union> (\<lambda>k. lh_block u ! k) ` set ks) \<le> card ?A" by (intro card_mono) auto
  then obtain t where t: "install_trans_loop ks u = Inr ((), t)"
     and at: "after_writes (map (\<lambda>k. (lh_block u ! k, lview u (lblk (log_start u) k))) ks) u t"
    using Cons.IH [of u] Cons.prems f by fastforce
  have v: "lview u (lblk (log_start s) j) = lview s (lblk (log_start s) j)" if "j \<in> set ks" for j
    using Cons.prems(3) [of k j] that by (auto simp: f)
  have e: "map (\<lambda>k. (lh_block u ! k, lview u (lblk (log_start u) k))) ks =
     map (\<lambda>k. (lh_block s ! k, lview s (lblk (log_start s) k))) ks"
    using v by (simp add: f(1,4))
  have "after_writes (map (\<lambda>k. (lh_block s ! k, lview s (lblk (log_start s) k))) (k # ks)) s t"
    using after_writes_trans [OF au at [unfolded e]] by simp
  moreover have "install_trans_loop (k # ks) s = Inr ((), t)"
    using Cons.prems(2) [of k] u t
    by (simp add: kop_simps lblk_def bind_run_Inr)
  ultimately show ?case by blast
qed


lemma write_log_loop_run:
  assumes "quiet s" and "\<And>k. k \<in> set ks \<Longrightarrow> k < length (lh_block s)"
    and "\<And>k j. k \<in> set ks \<Longrightarrow> j \<in> set ks \<Longrightarrow> lh_block s ! k \<noteq> lblk (log_start s) j"
    and "card (ldirty s \<union> (\<lambda>k. lh_block s ! k) ` set ks) \<le> 29"
  shows "\<exists>t. write_log_loop ks s = Inr ((), t) \<and>
     after_writes (map (\<lambda>k. (lblk (log_start s) k, lview s (lh_block s ! k))) ks) s t"
  using assms
proof (induction ks arbitrary: s)
  case Nil
  then show ?case by (auto simp: kop_simps after_writes_def)
next
  case (Cons k ks)
  let ?b = "lblk (log_start s) k" and ?a = "lh_block s ! k"
  let ?A = "ldirty s \<union> (\<lambda>k. lh_block s ! k) ` set (k # ks)"
  have "?a \<noteq> ?b" using Cons.prems(3) [of k k] by auto
  moreover have "card (ldirty s \<union> {?a, ?b}) \<le> NBUF"
    using card_two [OF Cons.prems(4), of ?a "ldirty s" ?b] by auto
  ultimately obtain u where u: "bind (bread (log_dev s) ?b) (\<lambda>j. bind (bread (log_dev s) ?a) (\<lambda>i. bind (get (bdata i)) (\<lambda>d.
       seq (bset j d) (seq (bwrite j) (seq (brelse i) (brelse j)))))) s = Inr ((), u)" 
     and au: "after_writes [(?b, lview s ?a)] s u"
    using copy_after(2) [OF Cons.prems(1)] by blast
  note f = after_writes_fields [OF au]
  have "ldirty u \<union> (\<lambda>k. lh_block u ! k) ` set ks \<subseteq> ?A" by (auto simp: f)
  then have "card (ldirty u \<union> (\<lambda>k. lh_block u ! k) ` set ks) \<le> card ?A" by (intro card_mono) auto
  then obtain t where t: "write_log_loop ks u = Inr ((), t)"
     and at: "after_writes (map (\<lambda>k. (lblk (log_start u) k, lview u (lh_block u ! k))) ks) u t"
    using Cons.IH [of u] Cons.prems f by fastforce
  have v: "lview u (lh_block s ! j) = lview s (lh_block s ! j)" if "j \<in> set ks" for j
    using Cons.prems(3) [of j k] that by (auto simp: f)
  have e: "map (\<lambda>k. (lblk (log_start u) k, lview u (lh_block u ! k))) ks =
     map (\<lambda>k. (lblk (log_start s) k, lview s (lh_block s ! k))) ks"
    using v by (simp add: f(1,4))
  have "after_writes (map (\<lambda>k. (lblk (log_start s) k, lview s (lh_block s ! k))) (k # ks)) s t"
    using after_writes_trans [OF au at [unfolded e]] by simp
  moreover have "write_log_loop (k # ks) s = Inr ((), t)"
    using Cons.prems(2) [of k] u t
    by (simp add: kop_simps lblk_def bind_run_Inr)
  ultimately show ?case by blast
qed

text \<open>While one buffer is held its bytes change under the loop of \<open>write_head\<close>.\<close>

lemma buf_write_run:
  assumes inv: "bio_inv D s" and h: "bs_held (babs D s) b = Some i" and d: "length (f (bs_view (babs D s) b)) = BSIZE"
  shows "\<exists>t. buf_write i f s = Inr ((), t) \<and> bio_inv D t \<and> bframe s t \<and>
     babs D t = (babs D s)\<lparr>bs_view := (bs_view (babs D s))(b := f (bs_view (babs D s) b))\<rparr>"
  using bset_abs [OF inv h d] bc.dat_ok [OF inv h] by (simp add: buf_write_def)

lemma write_head_loop_run:
  assumes "bio_inv D s" "bs_held (babs D s) st = Some i" "\<And>k. k \<in> set ks \<Longrightarrow> k < length (lh_block s) \<and> 8 + 4 * k \<le> BSIZE"
  shows "\<exists>t. write_head_loop i ks s = Inr ((), t) \<and> bio_inv D t \<and> bframe s t \<and>
     babs D t = (babs D s)\<lparr>bs_view := (bs_view (babs D s))(st :=
       foldl (\<lambda>d k. put32 (4 + 4 * k) (lh_block s ! k) d) (bs_view (babs D s) st) ks)\<rparr>"
  using assms
proof (induction ks arbitrary: s)
  case Nil
  then show ?case by (auto simp: kop_simps)
next
  case (Cons k ks)
  have k: "k < length (lh_block s)" "8 + 4 * k \<le> BSIZE" using Cons.prems(3) [of k] by auto
  obtain u where u: "buf_write i (put32 (4 + 4 * k) (lh_block s ! k)) s = Inr ((), u)" "bio_inv D u" "bframe s u"
     "babs D u = (babs D s)\<lparr>bs_view := (bs_view (babs D s))(st := put32 (4 + 4 * k) (lh_block s ! k) (bs_view (babs D s) st))\<rparr>"
    using buf_write_run [OF Cons.prems(1,2), of "put32 (4 + 4 * k) (lh_block s ! k)"] k
      bc.view_length [OF Cons.prems(1), of st] by auto
  have b: "lh_block u = lh_block s" using u(3) by (auto simp: bframe_def dest: more_fields)
  have hu: "bs_held (babs D u) st = Some i" using u(4) Cons.prems(2) by simp
  have kb: "\<And>k. k \<in> set ks \<Longrightarrow> k < length (lh_block u) \<and> 8 + 4 * k \<le> BSIZE" using Cons.prems(3) b by simp
  obtain t where t: "write_head_loop i ks u = Inr ((), t)" "bio_inv D t" "bframe u t"
     "babs D t = (babs D u)\<lparr>bs_view := (bs_view (babs D u))(st :=
       foldl (\<lambda>d k. put32 (4 + 4 * k) (lh_block u ! k) d) (bs_view (babs D u) st) ks)\<rparr>"
    using Cons.IH [OF u(2) hu kb] by blast
  have "babs D t = (babs D s)\<lparr>bs_view := (bs_view (babs D s))(st :=
       foldl (\<lambda>d k. put32 (4 + 4 * k) (lh_block s ! k) d) (bs_view (babs D s) st) (k # ks))\<rparr>"
    using t(4) u(4) b by simp
  moreover have "write_head_loop i (k # ks) s = Inr ((), t)" using t(1) u(1) k by (simp add: kop_simps)
  ultimately show ?case using t(2) bframe_trans [OF u(3) t(3)] by blast
qed

lemma write_head_run:
  assumes q: "quiet s" and n: "0 \<le> lh_n s" "nat (lh_n s) \<le> length (lh_block s)" "nat (lh_n s) \<le> 126"
    and r: "log_start s \<in> ldirty s \<or> card (ldirty s) < NBUF"
  shows "\<exists>t. write_head s = Inr ((), t) \<and>
     after_writes [(log_start s, put_head (take (nat (lh_n s)) (lh_block s)) (lview s (log_start s)))] s t"
proof -
  let ?D = "log_dev s" and ?b = "log_start s" and ?n = "nat (lh_n s)"
  have inv: "bio_inv ?D s" and h: "bs_held (babs ?D s) = Map.empty" using q by (auto simp: quiet_def)
  obtain i s1 where s1: "bread ?D ?b s = Inr (i, s1)" "bio_inv ?D s1" "bframe s s1"
    "babs ?D s1 = (babs ?D s)\<lparr>bs_held := [?b \<mapsto> i]\<rparr>"
    using bc.rd_ok [OF inv, of ?b] h r by (auto simp: room_def)
  have f1: "lh_n s1 = lh_n s" "lh_block s1 = lh_block s" using s1(3) by (auto simp: bframe_def dest: more_fields)
  have len: "length (lview s ?b) = 512" using bc.view_length [OF inv] by (simp add: BSIZE_def)
  obtain s2 where s2: "buf_write i (put32 0 (of_int (lh_n s))) s1 = Inr ((), s2)" "bio_inv ?D s2" "bframe s1 s2"
    "babs ?D s2 = (babs ?D s1)\<lparr>bs_view := (lview s)(?b := put32 0 (of_int (lh_n s)) (lview s ?b))\<rparr>"
    using buf_write_run [OF s1(2), of ?b i "put32 0 (of_int (lh_n s))"] s1(4) len by (auto simp: BSIZE_def)
  have f2: "lh_block s2 = lh_block s" using s2(3) f1 by (auto simp: bframe_def dest: more_fields)
  obtain s3 where s3: "write_head_loop i [0..<?n] s2 = Inr ((), s3)" "bio_inv ?D s3" "bframe s2 s3"
    "babs ?D s3 = (babs ?D s2)\<lparr>bs_view := (bs_view (babs ?D s2))(?b :=
       foldl (\<lambda>d k. put32 (4 + 4 * k) (lh_block s2 ! k) d) (bs_view (babs ?D s2) ?b) [0..<?n])\<rparr>"
    using write_head_loop_run [OF s2(2), of ?b i "[0..<?n]"] s2(4) s1(4) n f2 by (auto simp: BSIZE_def)
  have fold: "foldl (\<lambda>d k. put32 (4 + 4 * k) (lh_block s ! k) d) e [0..<?n] = puts32 4 (take ?n (lh_block s)) e" for e
    unfolding puts32_def using n by (intro foldl_cong) auto
  let ?H = "put_head (take ?n (lh_block s)) (lview s ?b)"
  have "(of_int (lh_n s) :: u32) = of_nat (length (take ?n (lh_block s)))" using n by simp
  then have "babs ?D s3 = (babs ?D s)\<lparr>bs_held := [?b \<mapsto> i], bs_view := (lview s)(?b := ?H)\<rparr>"
    by (simp add: s3(4) s2(4) s1(4) f2 fold put_head_def)
  then obtain s4 where s4: "bwrite i s3 = Inr ((), s4)" "bio_inv ?D s4" "bframe s3 s4"
    "babs ?D s4 = (babs ?D s)\<lparr>bs_held := [?b \<mapsto> i], bs_view := (lview s)(?b := ?H), bs_disk := (ldisk s)(?b := ?H),
       bs_dirty := ldirty s - {?b}, bs_wlog := bs_wlog (babs ?D s) @ [(?b, ?H)]\<rparr>"
    using bc.wr_ok [OF s3(2), of ?b i] by auto
  then obtain s5 where s5: "brelse i s4 = Inr ((), s5)" "bio_inv ?D s5" "bframe s4 s5"
    "babs ?D s5 = bs_writes [(?b, ?H)] (babs ?D s)"
    using bc.rel_ok [OF s4(2), of ?b i] h by (auto simp: bs_writes_def)
  have fr: "bframe s s5" using s1(3) s2(3) s3(3) s4(3) s5(3) bframe_trans by metis
  then have "log_dev s5 = ?D" by (auto simp: bframe_def dest: more_fields)
  then have "after_writes [(?b, ?H)] s s5" using s5 fr h by (simp add: after_writes_def quiet_def)
  moreover have "write_head s = Inr ((), s5)"
    using s1(1) s2(1) s3(1) s4(1) s5(1) f1 by (simp add: write_head_def kop_simps)
  ultimately show ?thesis by blast
qed


section \<open>Commit\<close>

text \<open>
  The blocks of the running transaction, the blocks of the log, and the invariant of the log while
  a transaction is open: the transaction is exactly the set of pinned buffers, it fits into the log,
  it does not touch the log, and the header on the disk is empty.
\<close>

definition txn :: "'z logstate_scheme \<Rightarrow> u32 list" where
  "txn s = take (nat (lh_n s)) (lh_block s)"

definition log_region :: "u32 \<Rightarrow> u32 set" where
  "log_region st = {st + of_nat k | k. k < LOGSIZE}"

definition log_inv :: "'z logstate_scheme \<Rightarrow> bool" where
  "log_inv s \<longleftrightarrow> bio_inv (log_dev s) s \<and> 0 \<le> lh_n s \<and> lh_n s \<le> log_size s - 1 \<and> log_size s \<le> int LOGSIZE \<and>
     length (lh_block s) = LOGSIZE \<and> distinct (txn s) \<and> ldirty s = set (txn s) \<and>
     set (txn s) \<inter> log_region (log_start s) = {} \<and> get32 0 (ldisk s (log_start s)) = 0 \<and>
     get32 0 (lview s (log_start s)) = 0"

lemma lblk_region: "k < 29 \<Longrightarrow> lblk st k \<in> log_region st" "st \<in> log_region st"
  unfolding log_region_def lblk_def
  by (auto simp: LOGSIZE_def intro: exI [of _ "Suc k"] exI [of _ 0])

lemma of_nat_inj32: "of_nat j = (of_nat k :: u32) \<longleftrightarrow> j = k" if "j < 2 ^ 32" "k < 2 ^ 32"
  using that by (auto simp: of_nat_eq_iff word_of_nat_eq_iff take_bit_nat_eq_self)

lemma lblk_inj: "j < 29 \<Longrightarrow> k < 29 \<Longrightarrow> lblk st j = lblk st k \<longleftrightarrow> j = k"
  by (simp add: lblk_def of_nat_inj32)

lemma lblk_start: "k < 29 \<Longrightarrow> lblk st k \<noteq> st"
proof
  assume k: "k < 29" and "lblk st k = st"
  then have "(of_nat (Suc k) :: u32) = of_nat 0" by (simp add: lblk_def add.commute)
  then show False using k by (subst (asm) of_nat_inj32) auto
qed

definition log_copies :: "'z logstate_scheme \<Rightarrow> (u32 \<times> byte list) list" where
  "log_copies s = map (\<lambda>k. (lblk (log_start s) k, lview s (txn s ! k))) [0..<length (txn s)]"

definition home_copies :: "'z logstate_scheme \<Rightarrow> (u32 \<times> byte list) list" where
  "home_copies s = map (\<lambda>b. (b, lview s b)) (txn s)"

definition head_full :: "'z logstate_scheme \<Rightarrow> byte list" where
  "head_full s = put_head (txn s) (lview s (log_start s))"

definition commit_writes :: "'z logstate_scheme \<Rightarrow> (u32 \<times> byte list) list" where
  "commit_writes s = log_copies s @ [(log_start s, head_full s)] @ home_copies s @
     [(log_start s, put_head [] (head_full s))]"

lemma log_inv_txn:
  assumes "log_inv s"
  shows "length (txn s) = nat (lh_n s)" "length (txn s) \<le> 29" "nat (lh_n s) \<le> length (lh_block s)"
    "\<And>k. k < length (txn s) \<Longrightarrow> txn s ! k = lh_block s ! k"
    "\<And>k j. k < length (txn s) \<Longrightarrow> j < 29 \<Longrightarrow> txn s ! k \<noteq> lblk (log_start s) j"
    "\<And>k. k < length (txn s) \<Longrightarrow> txn s ! k \<noteq> log_start s"
proof -
  show "length (txn s) = nat (lh_n s)" "length (txn s) \<le> 29" "nat (lh_n s) \<le> length (lh_block s)"
    using assms by (auto simp: log_inv_def txn_def LOGSIZE_def)
  show "\<And>k. k < length (txn s) \<Longrightarrow> txn s ! k = lh_block s ! k" by (simp add: txn_def)
  have "txn s ! k \<notin> log_region (log_start s)" if "k < length (txn s)" for k
    using assms nth_mem [OF that] unfolding log_inv_def by blast
  then show "\<And>k j. k < length (txn s) \<Longrightarrow> j < 29 \<Longrightarrow> txn s ! k \<noteq> lblk (log_start s) j"
    "\<And>k. k < length (txn s) \<Longrightarrow> txn s ! k \<noteq> log_start s"
    using lblk_region by metis+
qed

lemma fst_copies:
  "fst ` set (log_copies s) = lblk (log_start s) ` {..<length (txn s)}"
  "fst ` set (home_copies s) = set (txn s)"
  by (auto simp: log_copies_def home_copies_def image_image)

lemma card_txn: "log_inv s \<Longrightarrow> card (set (txn s)) \<le> 29"
  using card_length [of "txn s"] log_inv_txn(2) by (meson le_trans)

lemma write_log_run:
  assumes inv: "log_inv s" and q: "quiet s"
  shows "\<exists>t. write_log s = Inr ((), t) \<and> after_writes (log_copies s) s t"
proof -
  note x = log_inv_txn [OF inv]
  have im: "(\<lambda>k. lh_block s ! k) ` set [0..<nat (lh_n s)] = set (txn s)"
    using x(3) by (simp add: txn_def nth_image)
  have "map (\<lambda>k. (lblk (log_start s) k, lview s (lh_block s ! k))) [0..<nat (lh_n s)] = log_copies s"
    using x by (auto simp: log_copies_def)
  moreover have "card (ldirty s \<union> (\<lambda>k. lh_block s ! k) ` set [0..<nat (lh_n s)]) \<le> 29"
    unfolding im using inv card_txn [OF inv] by (simp add: log_inv_def)
  moreover have "lh_block s ! k \<noteq> lblk (log_start s) j" if "k \<in> set [0..<nat (lh_n s)]" "j \<in> set [0..<nat (lh_n s)]" for k j
    using x(4) [of k] x(5) [of k j] x(1,2) that by auto
  ultimately show ?thesis
    using write_log_loop_run [OF q, of "[0..<nat (lh_n s)]"] x by (auto simp: write_log_def kop_simps)
qed


lemma distinct_copies:
  assumes "log_inv s"
  shows "distinct (map fst (log_copies s))" "distinct (map fst (home_copies s))"
proof -
  have "inj_on (lblk (log_start s)) {0..<length (txn s)}"
    using log_inv_txn(2) [OF assms] by (auto simp: inj_on_def lblk_inj)
  then show "distinct (map fst (log_copies s))"
    by (simp add: log_copies_def o_def distinct_map)
  show "distinct (map fst (home_copies s))" using assms by (simp add: home_copies_def o_def log_inv_def)
qed

lemma view_log_copies:
  assumes inv: "log_inv s"
  shows "\<And>k. k < length (txn s) \<Longrightarrow> writes (log_copies s) v (lblk (log_start s) k) = lview s (txn s ! k)"
    "\<And>b. b \<notin> log_region (log_start s) \<Longrightarrow> writes (log_copies s) v b = v b"
    "writes (log_copies s) v (log_start s) = v (log_start s)"
proof -
  show "writes (log_copies s) v (lblk (log_start s) k) = lview s (txn s ! k)" if "k < length (txn s)" for k
    using that by (intro writes_mem distinct_copies [OF inv]) (auto simp: log_copies_def)
  show "writes (log_copies s) v b = v b" if "b \<notin> log_region (log_start s)" for b
  proof (rule writes_other)
    have "lblk (log_start s) k \<in> log_region (log_start s)" if "k < length (txn s)" for k
      using that lblk_region(1) log_inv_txn(2) [OF inv] by simp
    then show "b \<notin> fst ` set (log_copies s)" using that by (auto simp: fst_copies)
  qed
  show "writes (log_copies s) v (log_start s) = v (log_start s)"
  proof (rule writes_other)
    have "log_start s \<noteq> lblk (log_start s) k" if "k < length (txn s)" for k
      using that lblk_start [of k "log_start s"] log_inv_txn(2) [OF inv] by simp
    then show "log_start s \<notin> fst ` set (log_copies s)" by (auto simp: fst_copies)
  qed
qed

lemma view_home_copies:
  assumes inv: "log_inv s"
  shows "\<And>b. b \<in> set (txn s) \<Longrightarrow> writes (home_copies s) v b = lview s b"
    "\<And>b. b \<notin> set (txn s) \<Longrightarrow> writes (home_copies s) v b = v b"
proof -
  show "writes (home_copies s) v b = lview s b" if "b \<in> set (txn s)" for b
    using that by (intro writes_mem distinct_copies [OF inv]) (auto simp: home_copies_def)
  show "writes (home_copies s) v b = v b" if "b \<notin> set (txn s)" for b
    using that by (intro writes_other) (simp add: fst_copies)
qed

lemma set_lh_n_after:
  assumes "after_writes ws s t"
  shows "quiet (t\<lparr>lh_n := n\<rparr>)" "babs (log_dev s) (t\<lparr>lh_n := n\<rparr>) = bs_writes ws (babs (log_dev s) s)"
    "bframe (s\<lparr>lh_n := n\<rparr>) (t\<lparr>lh_n := n\<rparr>)"
  using assms after_writes_fields [OF assms]
  by (auto simp: after_writes_def quiet_def bframe_def kframe_def intro: more_lh_n)

text \<open>Every write of a commit, in order, and the state it ends in.\<close>

lemma commit_run:
  assumes inv: "log_inv s" and q: "quiet s" and n: "lh_n s > 0"
  shows "\<exists>t. commit s = Inr ((), t) \<and> quiet t \<and> bframe (s\<lparr>lh_n := 0\<rparr>) t \<and>
     babs (log_dev s) t = bs_writes (commit_writes s) (babs (log_dev s) s)"
proof -
  note x = log_inv_txn [OF inv]
  let ?st = "log_start s"
  obtain s1 where s1: "write_log s = Inr ((), s1)" and a1: "after_writes (log_copies s) s s1"
    using write_log_run [OF inv q] by blast
  note f1 = after_writes_fields [OF a1]
  have d1: "ldirty s1 = set (txn s)" and c1: "card (ldirty s1) \<le> 29"
  proof -
    have "set (txn s) \<inter> fst ` set (log_copies s) = {}"
      using x(2) x(5) by (auto simp: fst_copies in_set_conv_nth)
    then show "ldirty s1 = set (txn s)" using inv by (auto simp: f1 log_inv_def)
    then show "card (ldirty s1) \<le> 29" using card_txn [OF inv] by simp
  qed
  have v1: "lview s1 ?st = lview s ?st" by (simp add: f1 view_log_copies [OF inv])
  have h1: "put_head (take (nat (lh_n s1)) (lh_block s1)) (lview s1 (log_start s1)) = head_full s"
    using v1 by (simp add: f1 head_full_def txn_def)
  obtain s2 where s2: "write_head s1 = Inr ((), s2)" and a2: "after_writes [(?st, head_full s)] s1 s2"
    using write_head_run [OF f1(8)] x c1 n h1 by (auto simp: f1 NBUF_def)
  note f2 = after_writes_fields [OF a2]
  have e2: "babs (log_dev s) s2 = bs_writes (log_copies s @ [(?st, head_full s)]) (babs (log_dev s) s)"
    using f2(10) by (simp add: f1)
  have bl: "\<And>k. k < nat (lh_n s) \<Longrightarrow> lh_block s2 ! k = txn s ! k" using x(1,4) by (simp add: f2 f1)
  have im: "(\<lambda>k. lh_block s2 ! k) ` set [0..<nat (lh_n s)] = set (txn s)"
    using x(3) by (simp add: txn_def nth_image f2 f1)
  have v2: "lview s2 (lblk ?st k) = lview s (txn s ! k)" if "k < length (txn s)" for k
    using that x(2) lblk_start [of k ?st] view_log_copies(1) [OF inv that]
    by (simp add: f2(2) f1(2) e2)
  have w3: "map (\<lambda>k. (lh_block s2 ! k, lview s2 (lblk (log_start s2) k))) [0..<nat (lh_n s)] = home_copies s"
    using x(1) v2 bl by (intro nth_equalityI) (auto simp: home_copies_def f2(1) f1(1))
  have d2: "ldirty s2 \<subseteq> set (txn s)" using d1 by (auto simp: f2)
  have n3: "lh_block s2 ! k \<noteq> lblk (log_start s2) j" if "k \<in> set [0..<nat (lh_n s)]" "j \<in> set [0..<nat (lh_n s)]" for k j
    using bl [of k] x(5) [of k j] x(1,2) that by (auto simp: f2(1) f1(1))
  have "card (ldirty s2 \<union> set (txn s)) \<le> 29" using d2 card_txn [OF inv] by (simp add: Un_absorb1)
  then obtain s3 where s3: "install_trans s2 = Inr ((), s3)" and a3: "after_writes (home_copies s) s2 s3"
    using install_loop_run [OF f2(8), of "[0..<nat (lh_n s)]"] n3 im w3 x(3)
    by (auto simp: install_trans_def kop_simps f2(3,4) f1(3,4))
  note f3 = after_writes_fields [OF a3]
  let ?s4 = "s3\<lparr>lh_n := 0\<rparr>"
  have a13: "after_writes (log_copies s @ [(?st, head_full s)] @ home_copies s) s s3"
    using after_writes_trans [OF a1 after_writes_trans [OF a2 a3]] by simp
  note a4 = set_lh_n_after [OF a13, of 0]
  note f13 = after_writes_fields [OF a13]
  have st3: "?st \<notin> set (txn s)" using x(6) by (auto simp: in_set_conv_nth)
  have v4: "bs_view (babs (log_dev s) ?s4) ?st = head_full s"
    using st3 by (simp add: a4(2) view_home_copies [OF inv] del: cache_log)
  have d4: "bs_dirty (babs (log_dev s) ?s4) = {}"
    using inv by (auto simp: a4(2) fst_copies image_Un log_inv_def simp del: cache_log)
  have "card (ldirty ?s4) < NBUF" using d4 by (simp add: f13(2) NBUF_def)
  then obtain s5 where s5: "write_head ?s4 = Inr ((), s5)" and a5: "after_writes [(?st, put_head [] (head_full s))] ?s4 s5"
    using write_head_run [OF a4(1)] v4 by (auto simp: f13)
  have "babs (log_dev s) s5 = bs_writes (commit_writes s) (babs (log_dev s) s)"
    using after_writes_fields(10) [OF a5] a4(2) by (simp add: f13 commit_writes_def)
  moreover have "commit s = Inr ((), s5)"
    using n s1 s2 s3 s5 by (simp add: commit_def kop_simps)
  ultimately show ?thesis
    using after_writes_fields(8,9) [OF a5] bframe_trans [OF a4(3)] by blast
qed


text \<open>What a transaction leaves alone: everything but the cache and the header in memory.\<close>

definition lframe :: "'z logstate_scheme \<Rightarrow> 'z logstate_scheme \<Rightarrow> bool" where
  "lframe s t \<longleftrightarrow> bframe (s\<lparr>lh_n := 0, lh_block := []\<rparr>) (t\<lparr>lh_n := 0, lh_block := []\<rparr>)"

lemma lframe_refl [simp]: "lframe s s" by (simp add: lframe_def)

lemma lframe_trans [trans]: "lframe s t \<Longrightarrow> lframe t u \<Longrightarrow> lframe s u"
  unfolding lframe_def by (rule bframe_trans)

lemma bframe_lframe: "bframe s t \<Longrightarrow> lframe s t"
proof -
  assume b: "bframe s t"
  then have "biostate.more t = biostate.more s" by (simp add: bframe_def)
  then have "biostate.more (t\<lparr>lh_n := 0, lh_block := []\<rparr>) = biostate.more (s\<lparr>lh_n := 0, lh_block := []\<rparr>)"
    by (cases s; cases t) simp
  then show "lframe s t" using b by (simp add: lframe_def bframe_def kframe_def)
qed

lemma lframe_fields:
  assumes "lframe s t"
  shows "log_start t = log_start s" "log_size t = log_size s" "log_outstanding t = log_outstanding s"
    "log_committing t = log_committing s" "log_dev t = log_dev s" "logstate.more t = logstate.more s" "kframe s t"
    "\<And>k. slocks t (Sinode k) = slocks s (Sinode k)"
proof -
  have "biostate.more (t\<lparr>lh_n := 0, lh_block := []\<rparr>) = biostate.more (s\<lparr>lh_n := 0, lh_block := []\<rparr>)"
    using assms by (simp add: lframe_def bframe_def)
  from more_fields [OF this] show "log_start t = log_start s" "log_size t = log_size s" "log_outstanding t = log_outstanding s"
    "log_committing t = log_committing s" "log_dev t = log_dev s" "logstate.more t = logstate.more s" by simp_all
  show "kframe s t" "\<And>k. slocks t (Sinode k) = slocks s (Sinode k)" using assms by (simp_all add: lframe_def bframe_def kframe_def)
qed

lemma lframe_lh [simp]: "lframe s (s\<lparr>lh_n := n\<rparr>)" "lframe s (s\<lparr>lh_block := bl\<rparr>)"
  by (simp_all add: lframe_def)

section \<open>Recovery\<close>

lemma read_head_loop_run:
  assumes "\<And>i. i \<in> set is \<Longrightarrow> i < length (lh_block s)"
  shows "read_head_loop d is s = Inr ((), s\<lparr>lh_block := foldl (\<lambda>bl i. bl[i := get32 (4 + 4 * i) d]) (lh_block s) is\<rparr>)"
  using assms
proof (induction "is" arbitrary: s)
  case (Cons i "is")
  then have "\<not> length (lh_block s) \<le> i" by (simp add: not_le)
  moreover have "\<And>k. k \<in> set is \<Longrightarrow> k < length (lh_block (s\<lparr>lh_block := (lh_block s)[i := get32 (4 + 4 * i) d]\<rparr>))"
    using Cons.prems by simp
  note Cons.IH [OF this]
  ultimately show ?case by (simp add: kop_simps)
qed (simp add: kop_simps)

lemma foldl_list_update:
  "m \<le> length xs \<Longrightarrow> foldl (\<lambda>bl i. bl[i := f i]) xs [0..<m] = map f [0..<m] @ drop m xs"
proof (induction m)
  case (Suc m)
  then have "drop m xs = xs ! m # drop (Suc m) xs" by (simp add: Cons_nth_drop_Suc)
  then show ?case using Suc by (simp add: list_update_append)
qed simp

lemma read_head_run:
  assumes q: "quiet s" and m: "get32 0 (lview s (log_start s)) = of_nat m" "m \<le> length (lh_block s)" "m < 2 ^ 31"
    and r: "room (babs (log_dev s) s) (log_start s)"
  shows "\<exists>t. read_head s = Inr ((), t) \<and> quiet t \<and> babs (log_dev s) t = babs (log_dev s) s \<and>
     log_dev t = log_dev s \<and> log_start t = log_start s \<and> lh_n t = int m \<and> lframe s t \<and>
     lh_block t = gets32 4 m (lview s (log_start s)) @ drop m (lh_block s)"
proof -
  let ?D = "log_dev s" and ?b = "log_start s"
  have inv: "bio_inv ?D s" and h: "bs_held (babs ?D s) = Map.empty" using q by (auto simp: quiet_def)
  obtain i s1 where s1: "bread ?D ?b s = Inr (i, s1)" "bio_inv ?D s1" "bframe s s1"
    "babs ?D s1 = (babs ?D s)\<lparr>bs_held := [?b \<mapsto> i]\<rparr>"
    using bc.rd_ok [OF inv, of ?b] h r by auto
  have f: "log_dev s1 = ?D" "log_start s1 = ?b" "lh_block s1 = lh_block s"
    using s1(3) by (auto simp: bframe_def dest: more_fields)
  let ?d = "lview s ?b"
  have d: "bdata i s1 = ?d" using bc.dat_ok [OF s1(2), of ?b i] s1(4) by simp
  have "sint (of_nat m :: u32) = int m" using m(3) by (simp add: signed_of_nat signed_take_bit_int_eq_self)
  then have n: "sint (get32 0 ?d) = int m" using m(1) by simp
  let ?bl = "gets32 4 m ?d @ drop m (lh_block s)"
  define s2 where "s2 = s1\<lparr>lh_n := int m, lh_block := ?bl\<rparr>"
  have "read_head_loop ?d [0..<m] (s1\<lparr>lh_n := int m\<rparr>) = Inr ((), s2)"
    using m(2) foldl_list_update [of m "lh_block s" "\<lambda>i. get32 (4 + 4 * i) ?d"]
    by (subst read_head_loop_run) (auto simp: f s2_def gets32_def)
  moreover have s2: "bio_inv ?D s2" "babs ?D s2 = (babs ?D s)\<lparr>bs_held := [?b \<mapsto> i]\<rparr>"
    using s1 by (simp_all add: s2_def)
  moreover have "?b \<in> bs_dirty (babs ?D s) \<or> lview s ?b = ldisk s ?b"
    using bc.coherent [OF inv, of ?b] h by auto
  then obtain t where t: "brelse i s2 = Inr ((), t)" "bio_inv ?D t" "bframe s2 t" "babs ?D t = babs ?D s"
    using bc.rel_ok [OF s2(1), of ?b i] s2(2) h by auto
  moreover have "log_dev t = ?D" "log_start t = ?b" "lh_n t = int m" "lh_block t = ?bl"
    using t(3) f more_fields [of t s2] by (auto simp: bframe_def s2_def)
  moreover have "lframe s1 s2" unfolding s2_def by (rule lframe_trans [OF lframe_lh(1) lframe_lh(2)])
  then have "lframe s t" using bframe_lframe [OF s1(3)] bframe_lframe [OF t(3)] lframe_trans by blast
  ultimately show ?thesis
    using s1(1) h n d by (intro exI [of _ t]) (simp add: read_head_def kop_simps quiet_def)
qed

text \<open>
  A log header is sound when its blocks lie outside the log. \<open>recover_writes\<close> are the writes of a
  recovery from the header found on the disk.
\<close>

definition head_sound :: "u32 \<Rightarrow> byte list \<Rightarrow> nat \<Rightarrow> bool" where
  "head_sound st h m \<longleftrightarrow> get32 0 h = of_nat m \<and> m \<le> 29 \<and> set (gets32 4 m h) \<inter> log_region st = {}"

definition recover_writes :: "u32 \<Rightarrow> (u32 \<Rightarrow> byte list) \<Rightarrow> nat \<Rightarrow> (u32 \<times> byte list) list" where
  "recover_writes st dk m =
     map (\<lambda>k. (gets32 4 m (dk st) ! k, dk (lblk st k))) [0..<m] @ [(st, put_head [] (dk st))]"

lemma recover_run:
  assumes q: "quiet s" and c: "ldirty s = {}" and l: "length (lh_block s) = LOGSIZE"
    and h: "head_sound (log_start s) (ldisk s (log_start s)) m"
  shows "\<exists>t. recover_from_log s = Inr ((), t) \<and> quiet t \<and> lh_n t = 0 \<and> log_dev t = log_dev s \<and> log_start t = log_start s \<and>
     length (lh_block t) = LOGSIZE \<and> lframe s t \<and>
     babs (log_dev s) t = bs_writes (recover_writes (log_start s) (ldisk s) m) (babs (log_dev s) s)"
proof -
  let ?D = "log_dev s" and ?st = "log_start s"
  let ?bl = "gets32 4 m (ldisk s ?st)"
  have inv: "bio_inv ?D s" and he: "bs_held (babs ?D s) = Map.empty" using q by (auto simp: quiet_def)
  have vd: "lview s = ldisk s" using bc.coherent [OF inv] he c by (auto simp: fun_eq_iff)
  have m: "get32 0 (lview s ?st) = of_nat m" "m \<le> 29" using h vd by (auto simp: head_sound_def)
  have "room (babs ?D s) ?st" using c he by (simp add: room_def NBUF_def)
  then obtain s1 where s1: "read_head s = Inr ((), s1)" "quiet s1" "babs ?D s1 = babs ?D s" "log_dev s1 = ?D"
    "log_start s1 = ?st" "lh_n s1 = int m" "lh_block s1 = ?bl @ drop m (lh_block s)" and l1: "lframe s s1"
    using read_head_run [OF q m(1)] m(2) l vd by (auto simp: LOGSIZE_def)
  have bl: "lh_block s1 ! k = ?bl ! k" if "k < m" for k using that s1(7) by (simp add: nth_append)
  have len: "length (lh_block s1) = LOGSIZE" using s1(7) l m(2) by (simp add: LOGSIZE_def)
  have n3: "lh_block s1 ! k \<noteq> lblk (log_start s1) j" if "k \<in> set [0..<m]" "j \<in> set [0..<m]" for k j
  proof -
    have "?bl ! k \<in> set ?bl" using that by (intro nth_mem) simp
    then have "?bl ! k \<notin> log_region ?st" using h by (auto simp: head_sound_def)
    then show ?thesis using bl [of k] that lblk_region(1) [of j ?st] m(2) s1(5) by auto
  qed
  have "card (ldirty s1 \<union> (\<lambda>k. lh_block s1 ! k) ` set [0..<m]) \<le> 29"
    using c s1(3,4) m(2) card_image_le [of "set [0..<m]" "\<lambda>k. lh_block s1 ! k"] by simp
  moreover have e: "map (\<lambda>k. (lh_block s1 ! k, lview s1 (lblk (log_start s1) k))) [0..<m]
      = map (\<lambda>k. (?bl ! k, ldisk s (lblk ?st k))) [0..<m]"
    using bl by (auto simp: s1(3,4,5) vd)
  moreover have "\<And>k. k \<in> set [0..<m] \<Longrightarrow> k < length (lh_block s1)" using m(2) len by (simp add: LOGSIZE_def)
  ultimately obtain s2 where "install_trans_loop [0..<m] s1 = Inr ((), s2)"
    and a2: "after_writes (map (\<lambda>k. (?bl ! k, ldisk s (lblk ?st k))) [0..<m]) s1 s2"
    using install_loop_run [OF s1(2), of "[0..<m]", unfolded e] n3 by blast
  then have s2: "install_trans s1 = Inr ((), s2)" by (simp add: install_trans_def kop_simps s1(6))
  note f2 = after_writes_fields [OF a2] and a3 = set_lh_n_after [OF a2, of 0]
  let ?s3 = "s2\<lparr>lh_n := 0\<rparr>"
  have st: "?st \<notin> fst ` set (map (\<lambda>k. (?bl ! k, ldisk s (lblk ?st k))) [0..<m])"
  proof -
    have "?st \<notin> set ?bl" using h lblk_region(2) by (auto simp: head_sound_def)
    then show ?thesis by (auto simp: in_set_conv_nth)
  qed
  have v3: "bs_view (babs ?D s2) ?st = ldisk s ?st"
    using writes_other [OF st] f2(10) by (simp add: s1(3,4) vd)
  have "card (ldirty ?s3) < NBUF" using f2(10) c by (simp add: s1(3,4) f2(2) NBUF_def)
  then obtain t where t: "write_head ?s3 = Inr ((), t)" and at: "after_writes [(?st, put_head [] (ldisk s ?st))] ?s3 t"
    using write_head_run [OF a3(1)] v3 by (auto simp: f2 s1)
  note ft = after_writes_fields [OF at]
  have "babs ?D t = bs_writes (recover_writes ?st (ldisk s) m) (babs ?D s)"
    using ft(10) f2(10) by (simp add: f2(2) s1(3,4) recover_writes_def)
  moreover have "recover_from_log s = Inr ((), t)"
    using s1(1) s2 t by (simp add: recover_from_log_def kop_simps)
  moreover have "lframe s t"
    using l1 bframe_lframe [OF f2(9)] lframe_lh(1) bframe_lframe [OF ft(9)] lframe_trans by blast
  ultimately show ?thesis using ft f2 s1 len by auto
qed


section \<open>Crashes\<close>

lemma take_commit_writes:
  assumes "j \<le> length (commit_writes s)"
  obtains "j \<le> length (txn s)" "take j (commit_writes s) = take j (log_copies s)"
  | k where "length (txn s) < j" "take j (commit_writes s) = log_copies s @ [(log_start s, head_full s)] @ take k (home_copies s)"
  | "length (txn s) < j" "take j (commit_writes s) = commit_writes s"
proof -
  let ?n = "length (txn s)"
  have l: "length (log_copies s) = ?n" "length (home_copies s) = ?n" by (simp_all add: log_copies_def home_copies_def)
  consider "j \<le> ?n" | "?n < j" "j \<le> 2 * ?n + 1" | "j = 2 * ?n + 2"
    using assms l by (auto simp: commit_writes_def) linarith
  then show thesis
  proof cases
    case 2
    then have "take j (commit_writes s) = log_copies s @ [(log_start s, head_full s)] @ take (j - ?n - 1) (home_copies s)"
      using l by (simp add: commit_writes_def take_Cons')
    with 2 that show ?thesis by blast
  qed (use l that in \<open>auto simp: commit_writes_def\<close>)
qed

lemma head_full_props:
  assumes inv: "log_inv s"
  shows "get32 0 (head_full s) = of_nat (length (txn s))" "gets32 4 (length (txn s)) (head_full s) = txn s"
    "get32 0 (put_head [] (head_full s)) = 0" "length (head_full s) = BSIZE"
proof -
  have "length (lview s (log_start s)) = BSIZE" using inv bc.view_length by (auto simp: log_inv_def)
  moreover have "length (txn s) \<le> 29" using log_inv_txn(2) [OF inv] .
  ultimately show "get32 0 (head_full s) = of_nat (length (txn s))" "gets32 4 (length (txn s)) (head_full s) = txn s"
    "get32 0 (put_head [] (head_full s)) = 0" "length (head_full s) = BSIZE"
    by (simp_all add: head_full_def get_put_head BSIZE_def)
qed

text \<open>
  Where a crash leaves the disk: before the header is written the old header is there, after that
  the full one, and after the last write the empty one again.
\<close>

lemma crash_disk:
  assumes inv: "log_inv s" and q: "quiet s" and j: "j \<le> length (commit_writes s)"
    and dk: "dk = writes (take j (commit_writes s)) (ldisk s)"
  shows "\<exists>m. head_sound (log_start s) (dk (log_start s)) m \<and>
     (\<forall>b. b \<notin> log_region (log_start s) \<longrightarrow>
        writes (recover_writes (log_start s) dk m) dk b = (if j \<le> length (txn s) then ldisk s b else lview s b))"
proof -
  let ?st = "log_start s" and ?n = "length (txn s)"
  have st: "?st \<in> log_region ?st" "?st \<notin> set (txn s)"
    using lblk_region(2) log_inv_txn(6) [OF inv] by (auto simp: in_set_conv_nth)
  have clean: "lview s b = ldisk s b" if "b \<notin> set (txn s)" for b
    using that inv q bc.coherent [of "log_dev s" s b] by (auto simp: log_inv_def quiet_def)
  have sub: "fst ` set (take k xs) \<subseteq> fst ` set xs" for k and xs :: "(u32 \<times> byte list) list"
    by (auto dest: in_set_takeD)
  have log: "lblk ?st k \<notin> set (txn s)" "lblk ?st k \<noteq> ?st" if "k < ?n" for k
    using log_inv_txn(2,5) [OF inv] that lblk_start [of k ?st] by (auto simp: in_set_conv_nth)
  show ?thesis
    using j
  proof (cases rule: take_commit_writes)
    case 1
    have "?st \<notin> fst ` set (log_copies s)" using log(2) unfolding fst_copies(1) by (metis imageE lessThan_iff)
    then have "dk ?st = ldisk s ?st" using sub [of j "log_copies s"] unfolding dk 1(2) by (intro writes_other) auto
    then have "head_sound ?st (dk ?st) 0" using inv by (simp add: head_sound_def log_inv_def gets32_def)
    moreover have "dk b = ldisk s b" if "b \<notin> log_region ?st" for b
    proof -
      have "b \<notin> fst ` set (log_copies s)" using that lblk_region(1) log_inv_txn(2) [OF inv] by (auto simp: fst_copies)
      then show ?thesis using sub [of j "log_copies s"] unfolding dk 1(2) by (intro writes_other) auto
    qed
    ultimately show ?thesis using 1(1) st(1) by (intro exI [of _ 0]) (auto simp: recover_writes_def)
  next
    case (2 k)
    let ?v = "(writes (log_copies s) (ldisk s))(?st := head_full s)"
    have d: "dk b = ?v b" if "b \<notin> set (txn s)" for b
    proof -
      have "b \<notin> fst ` set (take k (home_copies s))" using that sub [of k "home_copies s"] by (auto simp: fst_copies)
      then show ?thesis unfolding dk 2(2) by (simp add: writes_other)
    qed
    have h: "dk ?st = head_full s" using d st(2) by simp
    have s: "head_sound ?st (dk ?st) ?n"
      using inv log_inv_txn(2) [OF inv] by (simp add: h head_sound_def head_full_props [OF inv] log_inv_def)
    have "dk (lblk ?st i) = lview s (txn s ! i)" if "i < ?n" for i
      using d log [OF that] view_log_copies(1) [OF inv that] by simp
    then have "map (\<lambda>k. (gets32 4 ?n (dk ?st) ! k, dk (lblk ?st k))) [0..<?n] = home_copies s"
      by (intro nth_equalityI) (auto simp: h head_full_props [OF inv] home_copies_def)
    then have r: "recover_writes ?st dk ?n = home_copies s @ [(?st, put_head [] (head_full s))]"
      by (simp add: recover_writes_def h)
    have "writes (recover_writes ?st dk ?n) dk b = lview s b" if b: "b \<notin> log_region ?st" for b
    proof (cases "b \<in> set (txn s)")
      case True
      then show ?thesis using st by (auto simp: r view_home_copies [OF inv])
    next
      case False
      then show ?thesis using b st d view_log_copies(2) [OF inv b] clean by (auto simp: r view_home_copies [OF inv])
    qed
    then show ?thesis using s 2(1) by (intro exI [of _ ?n]) simp
  next
    case 3
    have h: "dk ?st = put_head [] (head_full s)" unfolding dk 3(2) by (simp add: commit_writes_def)
    then have s: "head_sound ?st (dk ?st) 0" using head_full_props(3) [OF inv] by (simp add: head_sound_def gets32_def)
    have "dk b = lview s b" if b: "b \<notin> log_region ?st" for b
      using b st(1) view_log_copies(2) [OF inv b] clean view_home_copies [OF inv]
      unfolding dk 3(2) by (cases "b \<in> set (txn s)") (auto simp: commit_writes_def)
    then show ?thesis using s 3(1) st(1) by (intro exI [of _ 0]) (auto simp: recover_writes_def)
  qed
qed

end
