(* ===== verification/Txn.thy ===== *)
theory Txn
  imports Log
begin

text \<open>
  Transactions: what \<open>log_write\<close>, \<open>begin_op\<close>, \<open>end_op\<close> and \<open>initlog\<close> of \<open>kern/log.c\<close> do to the invariant of
  the log, and to the space in it while operations interleave. The locale \<open>log_store\<close> is the interface the file system uses between \<open>begin_op\<close> and
  \<open>end_op\<close>; its interpretation discharges the laws for \<open>bread\<close>, \<open>brelse\<close> and \<open>log_write\<close>.
\<close>

unbundle bit_operations_syntax

lemma log_slot_cases:
  assumes "k \<le> n"
  shows "log_slot bl b n k \<le> n \<and> (log_slot bl b n k < n \<longrightarrow> bl ! log_slot bl b n k = b) \<and>
    (log_slot bl b n k = n \<longrightarrow> (\<forall>i<n. n - k \<le> i \<longrightarrow> bl ! i \<noteq> b))"
  using assms
proof (induction k)
  case (Suc k)
  then have "\<forall>i. n - Suc k \<le> i \<longrightarrow> i = n - Suc k \<or> n - k \<le> i" by auto
  with Suc show ?case by auto
qed simp

text \<open>The invariant survives every change of the cache that keeps the log's blocks and the pins.\<close>

lemma log_inv_bframe:
  assumes "log_inv s" "bframe s t" "bio_inv (log_dev s) t" "bs_dirty (babs (log_dev s) t) = ldirty s"
    "bs_disk (babs (log_dev s) t) (log_start s) = ldisk s (log_start s)"
    "bs_view (babs (log_dev s) t) (log_start s) = lview s (log_start s)"
  shows "log_inv t"
  using assms more_fields [of t s] by (auto simp: bframe_def log_inv_def txn_def)

lemma log_write_run:
  assumes inv: "log_inv s" and h: "bs_held (babs (log_dev s) s) b = Some i"
    and b: "b \<notin> log_region (log_start s)" and n: "lh_n s < log_size s - 1"
  shows "\<exists>t. log_write i s = Inr ((), t) \<and> log_inv t \<and> lframe s t \<and>
     babs (log_dev s) t = (babs (log_dev s) s)\<lparr>bs_dirty := insert b (ldirty s)\<rparr> \<and>
     txn t = (if b \<in> set (txn s) then txn s else txn s @ [b])"
proof -
  let ?D = "log_dev s" and ?n = "nat (lh_n s)"
  note x = log_inv_txn [OF inv]
  have bi: "bio_inv ?D s" and len: "length (lh_block s) = 30" and n0: "0 \<le> lh_n s" and nl: "lh_n s < 29"
    using inv n by (auto simp: log_inv_def LOGSIZE_def)
  have bn: "b_blockno (bufs s i) - MBR_BASE = b" using h buf_ok_slot(3) [OF bi] by (auto simp: babs_held)
  define k where "k = log_slot (lh_block s) b ?n ?n"
  have k: "k \<le> ?n" "k < ?n \<Longrightarrow> lh_block s ! k = b" "k = ?n \<Longrightarrow> (\<forall>j<?n. lh_block s ! j \<noteq> b)"
    using log_slot_cases [of ?n ?n "lh_block s" b] by (auto simp: k_def)
  let ?n' = "if int k = lh_n s then lh_n s + 1 else lh_n s"
  obtain u where u: "bpin i s = Inr ((), u)" "bio_inv ?D u" "bframe s u" "babs ?D u = (babs ?D s)\<lparr>bs_dirty := insert b (ldirty s)\<rparr>"
    using bpin_abs [OF bi h] by blast
  have uu: "u = s\<lparr>bufs := (bufs s)(i := (bufs s i)\<lparr>b_flags := b_flags (bufs s i) OR B_DIRTY\<rparr>)\<rparr>"
    using u(1) by (simp add: bpin_def kop_simps)
  define t where "t = u\<lparr>lh_n := ?n', lh_block := (lh_block s)[k := b]\<rparr>"
  have f: "lh_n u = lh_n s" "lh_block u = lh_block s" "log_dev u = ?D" "log_start u = log_start s" "log_size u = log_size s"
    by (simp_all add: uu)
  have r: "log_write i s = Inr ((), t)"
  proof -
    have "\<not> (lh_n s \<ge> int LOGSIZE \<or> lh_n s \<ge> log_size s - 1)" using n nl by (simp add: LOGSIZE_def)
    then show ?thesis
      using bio_invD(1) [OF bi] unfolding t_def uu
      by (cases "int k = lh_n s")
         (auto simp: log_write_def kop_simps lock_simps bn k_def [symmetric] intro!: logstate.equality)
  qed
  have tx: "txn t = (if b \<in> set (txn s) then txn s else txn s @ [b])"
  proof (cases "k = ?n")
    case True
    then have "b \<notin> set (txn s)" using k(3) x by (auto simp: in_set_conv_nth)
    then show ?thesis using True n0 nl len by (simp add: t_def txn_def nat_add_distrib take_Suc_conv_app_nth)
  next
    case False
    then have "k < ?n" "lh_block s ! k = b" using k by auto
    moreover from this have "b \<in> set (txn s)" using x(1) nth_mem [of k "txn s"] x(4) [of k] by auto
    moreover have "int k \<noteq> lh_n s" using False by auto
    ultimately show ?thesis using list_update_id [of "lh_block s" k] by (simp add: t_def txn_def f)
  qed
  have at: "babs ?D t = (babs ?D s)\<lparr>bs_dirty := insert b (ldirty s)\<rparr>" "bio_inv ?D t" using u by (simp_all add: t_def)
  have "lframe s t" using bframe_lframe [OF u(3)] by (simp add: lframe_def t_def)
  moreover have "log_inv t"
    using inv at tx b n n0 len nl by (auto simp: log_inv_def t_def f LOGSIZE_def)
  ultimately show ?thesis using r at tx by blast
qed


section \<open>The interface of a transaction\<close>

text \<open>
  Between \<open>begin_op\<close> and \<open>end_op\<close> the file system reads blocks, changes them in their buffers and
  hands them to \<open>log_write\<close>. \<open>free\<close> are the blocks outside the log, \<open>cap\<close> the number of blocks a
  transaction may hold.
\<close>

locale log_store = block_reader +
  fixes put :: "nat \<Rightarrow> byte list \<Rightarrow> ('a, unit) kop" and lw :: "nat \<Rightarrow> ('a, unit) kop"
    and free :: "u32 \<Rightarrow> bool" and cap :: nat
  assumes lput_ok: "inv s \<Longrightarrow> bs_held (abs s) b = Some i \<Longrightarrow> free b \<Longrightarrow> length d = BSIZE \<Longrightarrow>
      \<exists>t. put i d s = Inr ((), t) \<and> inv t \<and> frame s t \<and> abs t = (abs s)\<lparr>bs_view := (bs_view (abs s))(b := d)\<rparr>"
    and lw_ok: "inv s \<Longrightarrow> bs_held (abs s) b = Some i \<Longrightarrow> free b \<Longrightarrow> card (bs_dirty (abs s)) < cap \<Longrightarrow>
      \<exists>t. lw i s = Inr ((), t) \<and> inv t \<and> frame s t \<and> abs t = (abs s)\<lparr>bs_dirty := insert b (bs_dirty (abs s))\<rparr>"
begin

text \<open>Changing a held block, logging it and giving it back.\<close>

lemma finish_block:
  assumes inv: "inv s" and h: "bs_held (abs s) b = Some i" and f: "free b" and c: "card (bs_dirty (abs s)) < cap"
    and l: "length d = BSIZE"
  shows "\<exists>t. seq (put i d) (seq (lw i) (rel i)) s = Inr ((), t) \<and> inv t \<and> frame s t \<and>
     abs t = (abs s)\<lparr>bs_view := (bs_view (abs s))(b := d), bs_dirty := insert b (bs_dirty (abs s)),
       bs_held := (bs_held (abs s))(b := None)\<rparr>"
proof -
  obtain s1 where s1: "put i d s = Inr ((), s1)" "inv s1" "frame s s1" "abs s1 = (abs s)\<lparr>bs_view := (bs_view (abs s))(b := d)\<rparr>"
    using lput_ok [OF inv h f l] by blast
  have "bs_held (abs s1) b = Some i" "card (bs_dirty (abs s1)) < cap" using s1(4) h c by simp_all
  from lw_ok [OF s1(2) this(1) f this(2)] obtain s2 where s2: "lw i s1 = Inr ((), s2)" "inv s2" "frame s1 s2"
    "abs s2 = (abs s1)\<lparr>bs_dirty := insert b (bs_dirty (abs s1))\<rparr>" by blast
  have "bs_held (abs s2) b = Some i" "b \<in> bs_dirty (abs s2) \<or> bs_view (abs s2) b = bs_disk (abs s2) b"
    using s1(4) s2(4) h by simp_all
  from rel_ok [OF s2(2) this] obtain s3 where s3: "rel i s2 = Inr ((), s3)" "inv s3" "frame s2 s3"
    "abs s3 = (abs s2)\<lparr>bs_held := (bs_held (abs s2))(b := None)\<rparr>" by blast
  have "frame s s3" using s1(3) s2(3) s3(3) frame_trans by metis
  moreover have "abs s3 = (abs s)\<lparr>bs_view := (bs_view (abs s))(b := d), bs_dirty := insert b (bs_dirty (abs s)),
       bs_held := (bs_held (abs s))(b := None)\<rparr>" using s1(4) s2(4) s3(4) by simp
  ultimately show ?thesis using s1(1) s2(1) s3(1,2) by (intro exI [of _ s3]) (simp add: kop_simps)
qed

lemma update_block:
  assumes inv: "inv s" and h: "bs_held (abs s) b = None" and r: "room (abs s) b" and f: "free b"
    and c: "card (bs_dirty (abs s)) < cap" and l: "length (f (bs_view (abs s) b)) = BSIZE"
  shows "\<exists>t. bind (rd b) (\<lambda>i. seq (\<lambda>s. put i (f (dat i s)) s) (seq (lw i) (rel i))) s = Inr ((), t) \<and>
     inv t \<and> frame s t \<and> abs t = (abs s)\<lparr>bs_view := (bs_view (abs s))(b := f (bs_view (abs s) b)),
       bs_dirty := insert b (bs_dirty (abs s))\<rparr>"
proof -
  obtain i s1 where s1: "rd b s = Inr (i, s1)" "inv s1" "frame s s1" "abs s1 = (abs s)\<lparr>bs_held := (bs_held (abs s))(b \<mapsto> i)\<rparr>"
    using rd_ok [OF inv h r] by blast
  have d: "dat i s1 = bs_view (abs s) b" using dat_ok [OF s1(2), of b i] s1(4) by simp
  have "bs_held (abs s1) b = Some i" "card (bs_dirty (abs s1)) < cap" using s1(4) c by simp_all
  from finish_block [OF s1(2) this(1) \<open>free b\<close> this(2) l] obtain s2 where
    s2: "seq (put i (f (bs_view (abs s) b))) (seq (lw i) (rel i)) s1 = Inr ((), s2)" "inv s2" "frame s1 s2"
    "abs s2 = (abs s1)\<lparr>bs_view := (bs_view (abs s1))(b := f (bs_view (abs s) b)), bs_dirty := insert b (bs_dirty (abs s1)),
       bs_held := (bs_held (abs s1))(b := None)\<rparr>" by blast
  have "(bs_held (abs s))(b := None) = bs_held (abs s)" using h by auto
  then have "abs s2 = (abs s)\<lparr>bs_view := (bs_view (abs s))(b := f (bs_view (abs s) b)),
       bs_dirty := insert b (bs_dirty (abs s))\<rparr>" using s2(4) s1(4) by simp
  moreover have "bind (rd b) (\<lambda>i. seq (\<lambda>s. put i (f (dat i s)) s) (seq (lw i) (rel i))) s = Inr ((), s2)"
    using s1(1) s2(1) d by (auto simp: bind_def)
  ultimately show ?thesis using s2(2) frame_trans [OF s1(3) s2(3)] by blast
qed

end

definition log_ok :: "u32 \<Rightarrow> u32 \<Rightarrow> nat \<Rightarrow> 'z logstate_scheme \<Rightarrow> bool" where
  "log_ok D st cap s \<longleftrightarrow> log_inv s \<and> log_dev s = D \<and> log_start s = st \<and> log_size s = int cap + 1"

definition log_free :: "u32 \<Rightarrow> u32 \<Rightarrow> bool" where
  "log_free st b \<longleftrightarrow> b \<notin> log_region st"

lemma log_ok_bframe:
  assumes "log_ok D st cap s" "bframe s t" "bio_inv D t" "bs_dirty (babs D t) = bs_dirty (babs D s)"
    "bs_disk (babs D t) = bs_disk (babs D s)" "bs_view (babs D t) st = bs_view (babs D s) st"
  shows "log_ok D st cap t"
  using assms log_inv_bframe [of s t] more_fields [of t s] by (auto simp: log_ok_def bframe_def)

lemma card_dirty_txn: "log_inv s \<Longrightarrow> card (ldirty s) = nat (lh_n s)"
  using distinct_card [of "txn s"] log_inv_txn(1) by (auto simp: log_inv_def)

interpretation ls: log_store "log_ok D st cap" "babs D" lframe "bread D" brelse bdata bset log_write "log_free st" cap
  for D st cap
proof
  fix s t u :: "'a logstate_scheme" and b i d
  show "lframe s s" by simp
  show "lframe s t \<Longrightarrow> lframe t u \<Longrightarrow> lframe s u" by (rule lframe_trans)
  assume ok: "log_ok D st cap s"
  then have bi: "bio_inv D s" by (auto simp: log_ok_def log_inv_def)
  show "\<exists>i t. bread D b s = Inr (i, t) \<and> log_ok D st cap t \<and> lframe s t \<and>
      babs D t = (babs D s)\<lparr>bs_held := (bs_held (babs D s))(b \<mapsto> i)\<rparr>"
    if "bs_held (babs D s) b = None" "room (babs D s) b"
  proof -
    from bc.rd_ok [OF bi that] obtain i t where t: "bread D b s = Inr (i, t)" "bio_inv D t" "bframe s t"
      "babs D t = (babs D s)\<lparr>bs_held := (bs_held (babs D s))(b \<mapsto> i)\<rparr>" by blast
    moreover have "log_ok D st cap t" using log_ok_bframe [OF ok t(3,2)] t(4) by simp
    ultimately show ?thesis using bframe_lframe by blast
  qed
  show "bdata i s = bs_view (babs D s) b" if "bs_held (babs D s) b = Some i" using bc.dat_ok [OF bi that] .
  show "\<exists>t. brelse i s = Inr ((), t) \<and> log_ok D st cap t \<and> lframe s t \<and>
      babs D t = (babs D s)\<lparr>bs_held := (bs_held (babs D s))(b := None)\<rparr>"
    if "bs_held (babs D s) b = Some i" "b \<in> bs_dirty (babs D s) \<or> bs_view (babs D s) b = bs_disk (babs D s) b"
  proof -
    from bc.rel_ok [OF bi that] obtain t where t: "brelse i s = Inr ((), t)" "bio_inv D t" "bframe s t"
      "babs D t = (babs D s)\<lparr>bs_held := (bs_held (babs D s))(b := None)\<rparr>" by blast
    moreover have "log_ok D st cap t" using log_ok_bframe [OF ok t(3,2)] t(4) by simp
    ultimately show ?thesis using bframe_lframe by blast
  qed
  show "bs_view (babs D s) b = bs_disk (babs D s) b" if "bs_held (babs D s) b = None" "b \<notin> bs_dirty (babs D s)"
    using bc.coherent [OF bi that] .
  show "length (bs_view (babs D s) b) = BSIZE" using bc.view_length [OF bi] .
  show "\<exists>t. bset i d s = Inr ((), t) \<and> log_ok D st cap t \<and> lframe s t \<and>
      babs D t = (babs D s)\<lparr>bs_view := (bs_view (babs D s))(b := d)\<rparr>"
    if "bs_held (babs D s) b = Some i" "log_free st b" "length d = BSIZE"
  proof -
    from bc.put_ok [OF bi that(1,3)] obtain t where t: "bset i d s = Inr ((), t)" "bio_inv D t" "bframe s t"
      "babs D t = (babs D s)\<lparr>bs_view := (bs_view (babs D s))(b := d)\<rparr>" by blast
    have "st \<noteq> b" using that(2) lblk_region(2) by (auto simp: log_free_def)
    then have "log_ok D st cap t" using log_ok_bframe [OF ok t(3,2)] t(4) by simp
    then show ?thesis using t bframe_lframe by blast
  qed
  show "\<exists>t. log_write i s = Inr ((), t) \<and> log_ok D st cap t \<and> lframe s t \<and>
      babs D t = (babs D s)\<lparr>bs_dirty := insert b (bs_dirty (babs D s))\<rparr>"
    if "bs_held (babs D s) b = Some i" "log_free st b" "card (bs_dirty (babs D s)) < cap"
  proof -
    note h = that
    have inv: "log_inv s" and D: "log_dev s = D" and st: "log_start s = st" and z: "log_size s = int cap + 1"
      using ok by (auto simp: log_ok_def)
    have n: "lh_n s < log_size s - 1"
      using that(3) card_dirty_txn [OF inv] z D by simp
    obtain t where t: "log_write i s = Inr ((), t)" "log_inv t" "lframe s t"
      "babs D t = (babs D s)\<lparr>bs_dirty := insert b (bs_dirty (babs D s))\<rparr>"
      using log_write_run [OF inv _ _ n, of b i] h(1,2) D st by (auto simp: log_free_def)
    have "log_ok D st cap t" using t(2) lframe_fields(1,2,5) [OF t(3)] D st z by (simp add: log_ok_def)
    then show ?thesis using t by blast
  qed
qed


section \<open>Beginning and ending operations\<close>

lemma log_inv_flags [simp]:
  "log_inv (s\<lparr>log_outstanding := k\<rparr>) = log_inv s" "log_inv (s\<lparr>log_committing := c\<rparr>) = log_inv s"
  "quiet (s\<lparr>log_outstanding := k\<rparr>) = quiet s" "quiet (s\<lparr>log_committing := c\<rparr>) = quiet s"
  "txn (s\<lparr>log_outstanding := k\<rparr>) = txn s" "txn (s\<lparr>log_committing := c\<rparr>) = txn s"
  by (simp_all add: log_inv_def quiet_def txn_def)

definition log_admits :: "'z logstate_scheme \<Rightarrow> bool" where
  "log_admits s \<longleftrightarrow> \<not> log_committing s \<and> lh_n s + (log_outstanding s + 1) * int MAXOPBLOCKS \<le> int LOGSIZE"

lemma begin_op_admit:
  assumes "spin_free s" "log_admits s"
  shows "begin_op s = Inr ((), s\<lparr>log_outstanding := log_outstanding s + 1\<rparr>)"
  using assms
  by (auto simp: begin_op_def numeral_2_eq_2 kop_simps lock_simps log_admits_def intro!: logstate.equality)

lemma begin_op_block:
  assumes "spin_free s" "\<not> log_admits s" "thisproc s = Some p"
  shows "begin_op s = Inl (Switch (s\<lparr>
     ptable := (ptable s)(p := (ptable s p)\<lparr>p_chan := Some Clog, p_state := SLEEPING\<rparr>),
     locks := (locks s)(Lptable := (locks s Lptable)\<lparr>lk_locked := True, lk_cpu := Some (this_cpu s)\<rparr>)\<rparr>))"
proof -
  let ?L = "(locks s Llog)\<lparr>lk_locked := True, lk_cpu := Some (this_cpu s)\<rparr>"
  let ?s1 = "s\<lparr>locks := (locks s)(Llog := ?L)\<rparr>"
  have a: "acquire Llog s = Inr ((), ?s1)" using assms(1) by (simp add: lock_simps)
  have "lk_free (locks s Lptable)" "(locks s Llog)\<lparr>lk_cpu := None, lk_locked := False\<rparr> = locks s Llog"
    using assms(1) by (simp_all add: spin_free_def lk_free_reset)
  moreover have "holding Llog ?s1" by (simp add: holding_def)
  moreover have "(locks s)(Lptable := y, Llog := locks s Llog) = (locks s)(Lptable := y)" for y by (auto simp: fun_eq_iff)
  ultimately have sl: "sleep Clog Llog ?s1 = Inl (Switch (s\<lparr>
     ptable := (ptable s)(p := (ptable s p)\<lparr>p_chan := Some Clog, p_state := SLEEPING\<rparr>),
     locks := (locks s)(Lptable := (locks s Lptable)\<lparr>lk_locked := True, lk_cpu := Some (this_cpu s)\<rparr>)\<rparr>))"
    using sleep_run [of Llog ?s1 p Clog] assms(3)
    by (auto simp: thisproc_def fun_upd_twist intro!: logstate.equality)
  show ?thesis
    using a sl assms(2) by (auto simp: begin_op_def numeral_2_eq_2 kop_simps log_admits_def)
qed

lemma commit_effect:
  assumes inv: "log_inv s" and q: "quiet s"
  shows "\<exists>t. commit s = Inr ((), t) \<and> log_inv t \<and> quiet t \<and> txn t = [] \<and> lframe s t \<and>
     (\<forall>b. b \<notin> log_region (log_start s) \<longrightarrow> ldisk t b = lview s b \<and> lview t b = lview s b)"
proof (cases "lh_n s > 0")
  case True
  obtain t where t: "commit s = Inr ((), t)" "quiet t" "bframe (s\<lparr>lh_n := 0\<rparr>) t"
     and ab: "babs (log_dev s) t = bs_writes (commit_writes s) (babs (log_dev s) s)"
    using commit_run [OF inv q True] by blast
  let ?st = "log_start s"
  have f: "log_dev t = log_dev s" "log_start t = ?st" "lh_n t = 0" "lh_block t = lh_block s" "log_size t = log_size s"
    using t(3) more_fields [of t "s\<lparr>lh_n := 0\<rparr>"] by (auto simp: bframe_def)
  have st: "?st \<in> log_region ?st" by (rule lblk_region(2))
  have hd: "writes (commit_writes s) v ?st = put_head [] (head_full s)" for v by (simp add: commit_writes_def)
  have dirty: "bs_dirty (babs (log_dev s) t) = {}"
    using inv by (auto simp: ab commit_writes_def fst_copies image_Un log_inv_def)
  have v: "writes (commit_writes s) w b = lview s b" if b: "b \<notin> log_region ?st" and w: "b \<notin> set (txn s) \<Longrightarrow> w b = lview s b" for b w
    using b st w view_log_copies(2) [OF inv b] view_home_copies [OF inv]
    by (cases "b \<in> set (txn s)") (auto simp: commit_writes_def)
  have clean: "ldisk s b = lview s b" if "b \<notin> set (txn s)" for b
    using that inv q bc.coherent [of "log_dev s" s b] by (auto simp: log_inv_def quiet_def)
  have "log_inv t"
    using inv t(2) dirty head_full_props(3) [OF inv] True
    by (auto simp: log_inv_def f txn_def quiet_def ab hd)
  moreover have "lframe s t"
    using bframe_lframe [OF t(3)] by (simp add: lframe_def)
  moreover have "ldisk t b = lview s b \<and> lview t b = lview s b" if "b \<notin> log_region ?st" for b
    using v [OF that] clean by (simp add: f ab)
  ultimately show ?thesis using t(1,2) f(3) by (auto simp: txn_def)
next
  case False
  then have n: "lh_n s = 0" using inv by (auto simp: log_inv_def)
  then have tx: "txn s = []" by (simp add: txn_def)
  have "ldisk s b = lview s b" for b
    using tx inv q bc.coherent [of "log_dev s" s b] by (auto simp: log_inv_def quiet_def)
  moreover have "commit s = Inr ((), s)" using n by (simp add: commit_def bind_def get_def ret_def)
  ultimately show ?thesis using inv q tx by (intro exI [of _ s]) simp
qed

lemma bio_inv_woken:
  assumes "bio_inv D s"
  shows "bio_inv D (s\<lparr>ptable := woken ch (ptable s)\<rparr>)" "babs D (s\<lparr>ptable := woken ch (ptable s)\<rparr>) = babs D s"
proof -
  let ?t = "s\<lparr>ptable := woken ch (ptable s)\<rparr>"
  have k: "kframe s ?t" by (rule kframe_woken)
  have c: "curpid ?t = curpid s" by (rule kframe_curpid [OF k])
  have "buf_ok D ?t i = buf_ok D s i" for i unfolding buf_ok_def c by simp
  then show "bio_inv D ?t" using assms kframe_running [OF k] kframe_spin_free [OF k]
    by (auto simp: bio_inv_def sd_idle_def)
  show "babs D ?t = babs D s" by (rule babs_cong) simp_all
qed

lemma log_inv_woken:
  "log_inv s \<Longrightarrow> log_inv (s\<lparr>ptable := woken ch (ptable s)\<rparr>)"
  "quiet s \<Longrightarrow> quiet (s\<lparr>ptable := woken ch (ptable s)\<rparr>)"
  using bio_inv_woken [of "log_dev s" s ch] by (simp_all add: log_inv_def quiet_def txn_def)

lemma end_op_last:
  assumes inv: "log_inv s" and q: "quiet s" and o: "log_outstanding s = 1" and c: "\<not> log_committing s"
  shows "\<exists>t u. commit (s\<lparr>log_outstanding := 0, log_committing := True\<rparr>) = Inr ((), u) \<and>
     t = u\<lparr>log_committing := False, ptable := woken Clog (ptable u)\<rparr> \<and> end_op s = Inr ((), t) \<and>
     log_inv t \<and> quiet t \<and> txn t = [] \<and> log_outstanding t = 0 \<and> \<not> log_committing t \<and>
     (\<forall>b. b \<notin> log_region (log_start s) \<longrightarrow> ldisk t b = lview s b \<and> lview t b = lview s b)"
proof -
  let ?s1 = "s\<lparr>log_outstanding := 0, log_committing := True\<rparr>"
  have "log_inv ?s1" "quiet ?s1" using inv q by simp_all
  from commit_effect [OF this] obtain u where u: "commit ?s1 = Inr ((), u)" "log_inv u" "quiet u" "txn u = []" "lframe ?s1 u"
     "\<forall>b. b \<notin> log_region (log_start s) \<longrightarrow> ldisk u b = lview s b \<and> lview u b = lview s b" by auto
  let ?t = "u\<lparr>log_committing := False, ptable := woken Clog (ptable u)\<rparr>"
  have fs: "spin_free s" "spin_free u" using inv u(2) bio_invD(1) by (auto simp: log_inv_def)
  have o0: "log_outstanding u = 0" using lframe_fields(3) [OF u(5)] by simp
  have pt: "lk_free (locks u Lptable)" using fs(2) by (simp add: spin_free_def)
  have r: "end_op s = Inr ((), ?t)"
    using o c fs u(1) pt
    by (auto simp: end_op_def kop_simps lock_simps intro!: logstate.equality)
  have e2: "?t = (u\<lparr>ptable := woken Clog (ptable u)\<rparr>)\<lparr>log_committing := False\<rparr>" by simp
  have inv_t: "log_inv ?t" "quiet ?t" using log_inv_woken [of u Clog] u(2,3) by (simp_all add: e2)
  have bt: "babs D ?t = babs D u" for D
    by (rule babs_cong) simp_all
  show ?thesis using u r inv_t o0 by (intro exI [of _ ?t] exI [of _ u]) (simp add: bt txn_def)
qed

lemma end_op_more:
  assumes f: "spin_free s" and o: "log_outstanding s \<noteq> 1" and c: "\<not> log_committing s"
  shows "end_op s = Inr ((), s\<lparr>log_outstanding := log_outstanding s - 1, ptable := woken Clog (ptable s)\<rparr>)"
proof -
  have "lk_free (locks s Lptable)" using f by (simp add: spin_free_def)
  then show ?thesis using assms by (auto simp: end_op_def kop_simps lock_simps intro!: logstate.equality)
qed


section \<open>Initialisation\<close>

lemma bio_inv_initlock:
  assumes "bio_inv D s"
  shows "\<exists>t. initlock lk nm s = Inr ((), t) \<and> bio_inv D t \<and> babs D t = babs D s \<and> biostate.more t = biostate.more s"
proof -
  let ?l = "(locks s)(lk := (locks s lk)\<lparr>lk_name := nm, lk_locked := False, lk_cpu := None\<rparr>)"
  let ?t = "s\<lparr>locks := ?l\<rparr>"
  have c: "curpid ?t = curpid s" by (simp add: curpid_def thisproc_def cong: option.case_cong)
  have "buf_ok D ?t i = buf_ok D s i" for i unfolding buf_ok_def c by simp
  moreover have "spin_free ?t" using bio_invD(1) [OF assms] by (simp add: spin_free_def lk_free_def)
  ultimately have "bio_inv D ?t" using assms by (simp add: bio_inv_def sd_idle_def running_def thisproc_def)
  moreover have "babs D ?t = babs D s" by (rule babs_cong) simp_all
  ultimately show ?thesis by (simp add: initlock_def set_lock_def kop_simps)
qed

lemma initlog_run:
  assumes inv: "bio_inv dev s" and a: "bs_held (babs dev s) = Map.empty" "bs_dirty (babs dev s) = {}"
    and sb: "read_superblock (bs_disk (babs dev s) 1) = sb" "1 \<le> sint (sb_nlog sb)" "sint (sb_nlog sb) \<le> int LOGSIZE"
    and h: "head_sound (sb_logstart sb) (bs_disk (babs dev s) (sb_logstart sb)) m" and l: "length (lh_block s) = LOGSIZE"
  shows "\<exists>t. initlog dev s = Inr ((), t) \<and> log_ok dev (sb_logstart sb) (nat (sint (sb_nlog sb) - 1)) t \<and> quiet t \<and> txn t = [] \<and>
     log_outstanding t = log_outstanding s \<and> log_committing t = log_committing s \<and> logstate.more t = logstate.more s \<and>
     babs dev t = bs_writes (recover_writes (sb_logstart sb) (bs_disk (babs dev s)) m) (babs dev s)"
proof -
  obtain s1 where s1: "initlock Llog ''log'' s = Inr ((), s1)" "bio_inv dev s1" "babs dev s1 = babs dev s"
     "biostate.more s1 = biostate.more s" using bio_inv_initlock [OF inv] by blast
  have vd: "bs_view (babs dev s) b = bs_disk (babs dev s) b" for b using bc.coherent [OF inv] a by auto
  have "room (babs dev s1) 1" using a s1(3) by (simp add: room_def NBUF_def)
  then obtain s2 where s2: "readsb dev s1 = Inr (sb, s2)" "bio_inv dev s2" "bframe s1 s2" "babs dev s2 = babs dev s"
    using bc.read_block [OF s1(2), of 1 read_superblock] a s1(3) vd sb(1) by (auto simp: readsb_def)
  let ?z = "sint (sb_nlog sb)"
  let ?s3 = "s2\<lparr>log_start := sb_logstart sb, log_size := ?z, log_dev := dev\<rparr>"
  have m2: "biostate.more s2 = biostate.more s" using s2(3) s1(4) by (simp add: bframe_def)
  then have l2: "length (lh_block ?s3) = LOGSIZE" using l more_fields(7) [of s2 s] by simp
  have q3: "quiet ?s3" "ldirty ?s3 = {}" "head_sound (log_start ?s3) (ldisk ?s3 (log_start ?s3)) m"
    using s2 a h by (simp_all add: quiet_def)
  obtain t where t: "recover_from_log ?s3 = Inr ((), t)" "quiet t" "lh_n t = 0" "log_dev t = dev" "log_start t = sb_logstart sb"
    "length (lh_block t) = LOGSIZE" "log_size t = ?z" and lf: "lframe ?s3 t" and
    bt: "babs dev t = bs_writes (recover_writes (sb_logstart sb) (bs_disk (babs dev s)) m) (babs dev s)"
    using recover_run [OF q3(1,2) l2 q3(3)] s2(4) lframe_fields(2) by fastforce
  have len: "length (bs_disk (babs dev s) (sb_logstart sb)) = BSIZE" using vd bc.view_length [OF inv] by metis
  have hd: "writes (recover_writes (sb_logstart sb) (bs_disk (babs dev s)) m) v (sb_logstart sb) = put_head [] (bs_disk (babs dev s) (sb_logstart sb))" for v
    by (simp add: recover_writes_def)
  have "get32 0 (put_head [] (bs_disk (babs dev s) (sb_logstart sb))) = 0"
    using len get_put_head(1) [of "[]"] by (simp add: BSIZE_def)
  then have "log_inv t"
    using t bt sb a by (auto simp: log_inv_def quiet_def txn_def hd)
  moreover have "log_outstanding t = log_outstanding s" "log_committing t = log_committing s" "logstate.more t = logstate.more s"
    using lframe_fields(3,4,6) [OF lf] more_fields [OF m2] by simp_all
  ultimately show ?thesis
    using t bt s1(1) s2(1) sb
    by (intro exI [of _ t]) (auto simp: initlog_def kop_simps LOGSIZE_def BSIZE_def log_ok_def txn_def)
qed

section \<open>A small disk\<close>

text \<open>
  The layout \<open>mkfs\<close> writes: the log in blocks 2 to 31, the inodes from block 32, the bitmap in block
  58. Inode 1 is the root directory with the entries \<open>.\<close> and \<open>..\<close> in block 59. All other blocks are
  zero. \<open>demo_log\<close> is the state after \<open>binit\<close> and \<open>initlog\<close> on this disk.
\<close>

definition demo_sb :: superblock where
  "demo_sb = \<lparr>sb_size = 1000, sb_nblocks = 941, sb_ninodes = 200, sb_nlog = 30, sb_logstart = 2, sb_inodestart = 32,
     sb_bmapstart = 58\<rparr>"

definition demo_root :: dinode where
  "demo_root = \<lparr>di_type = 1, di_major = 0, di_minor = 0, di_nlink = 1, di_size = 32, di_addrs = 59 # replicate NDIRECT 0\<rparr>"

definition demo_dir :: "byte list" where
  "demo_dir = write_dirent \<lparr>de_inum = 1, de_name = 46 # replicate 13 0\<rparr> @
     write_dirent \<lparr>de_inum = 1, de_name = 46 # 46 # replicate 12 0\<rparr>"

definition demo_block :: "u32 \<Rightarrow> byte list" where
  "demo_block b =
     (if b = 1 then write_superblock demo_sb (replicate BSIZE 0)
      else if b = 32 then write_dinode 64 demo_root (replicate BSIZE 0)
      else if b = 58 then replicate 7 255 @ 15 # replicate 504 0
      else if b = 59 then demo_dir @ replicate 480 0
      else replicate BSIZE 0)"

definition demo_disk :: "u32 \<Rightarrow> byte list" where
  "demo_disk a = demo_block (a - MBR_BASE)"

lemma length_demo_block: "length (demo_block b) = BSIZE"
  by (simp add: demo_block_def write_superblock_def demo_dir_def demo_root_def DIRSIZ_def BSIZE_def NDIRECT_def)

definition zero_log :: "'z \<Rightarrow> 'z logstate_ext" where
  "zero_log z = \<lparr>log_start = 0, log_size = 0, log_outstanding = 0, log_committing = False, log_dev = 0, lh_n = 0,
     lh_block = replicate LOGSIZE 0, \<dots> = z\<rparr>"

definition demo_boot :: "'z \<Rightarrow> 'z logstate_scheme" where
  "demo_boot z = boot_bio demo_disk (zero_log z)"

definition demo_log :: logstate where
  "demo_log = (case bind binit (\<lambda>_. initlog 1) (demo_boot ()) of Inr (_, t) \<Rightarrow> t | Inl _ \<Rightarrow> demo_boot ())"

lemma demo_boot_run:
  "\<exists>t. bind binit (\<lambda>_. initlog 1) (demo_boot z) = Inr ((), t) \<and> log_ok 1 2 29 t \<and> quiet t \<and> txn t = [] \<and>
     log_outstanding t = 0 \<and> \<not> log_committing t \<and> logstate.more t = z \<and>
     (\<forall>b. b \<noteq> 2 \<longrightarrow> bs_view (babs 1 t) b = demo_disk (b + MBR_BASE) \<and> bs_disk (babs 1 t) b = demo_disk (b + MBR_BASE))"
proof -
  let ?s = "demo_boot z"
  have len: "length (demo_disk a) = BSIZE" for a
    by (simp add: demo_disk_def length_demo_block)
  obtain t where t: "binit ?s = Inr ((), t)" "bio_inv 1 t" "biostate.more t = zero_log z"
    "babs 1 t = \<lparr>bs_view = (\<lambda>b. demo_disk (b + MBR_BASE)), bs_disk = (\<lambda>b. demo_disk (b + MBR_BASE)), bs_dirty = {},
       bs_held = Map.empty, bs_wlog = []\<rparr>"
    using boot_bio_inv [where dk = demo_disk and D = 1 and z = "zero_log z", OF len] by (auto simp: demo_boot_def)
  have f: "length (lh_block t) = LOGSIZE" "log_outstanding t = 0" "\<not> log_committing t" "logstate.more t = z"
    using t(3) by (cases t, simp add: zero_log_def)+
  have sb: "read_superblock (bs_disk (babs 1 t) 1) = demo_sb"
    using read_write_superblock [of "replicate BSIZE 0" demo_sb] by (simp add: t(4) demo_disk_def demo_block_def BSIZE_def)
  have m: "demo_disk (2 + MBR_BASE) = replicate BSIZE 0" by (simp add: demo_disk_def demo_block_def)
  have "get32 0 (replicate BSIZE 0) = 0"
    by (simp add: get32_def slice_def BSIZE_def numeral_eq_Suc)
  then have hs: "head_sound (sb_logstart demo_sb) (bs_disk (babs 1 t) (sb_logstart demo_sb)) 0"
    by (simp add: head_sound_def demo_sb_def t(4) m gets32_def)
  obtain u where u: "initlog 1 t = Inr ((), u)" "log_ok 1 2 29 u" "quiet u" "txn u = []"
     "log_outstanding u = log_outstanding t" "log_committing u = log_committing t" "logstate.more u = logstate.more t"
     "babs 1 u = bs_writes (recover_writes 2 (bs_disk (babs 1 t)) 0) (babs 1 t)"
    using initlog_run [OF t(2) _ _ sb _ _ hs f(1)] t(4) by (auto simp: demo_sb_def LOGSIZE_def)
  show ?thesis using t(1) u f by (intro exI [of _ u]) (auto simp: kop_simps t(4) recover_writes_def)
qed

lemma demo_log:
  "log_ok 1 2 29 demo_log" "quiet demo_log" "txn demo_log = []" "log_outstanding demo_log = 0" "\<not> log_committing demo_log"
  "b \<noteq> 2 \<Longrightarrow> bs_view (babs 1 demo_log) b = demo_disk (b + MBR_BASE)"
  "log_dev demo_log = 1" "bs_held (babs 1 demo_log) = Map.empty" "bs_dirty (babs 1 demo_log) = {}" "log_inv demo_log"
proof -
  obtain t where t: "bind binit (\<lambda>_. initlog 1) (demo_boot ()) = Inr ((), t)" "log_ok 1 2 29 t" "quiet t" "txn t = []"
     "log_outstanding t = 0" "\<not> log_committing t"
     "\<forall>b. b \<noteq> 2 \<longrightarrow> bs_view (babs 1 t) b = demo_disk (b + MBR_BASE)" using demo_boot_run [of "()"] by blast
  have e: "demo_log = t" using t(1) by (simp add: demo_log_def)
  show a: "log_ok 1 2 29 demo_log" "quiet demo_log" "txn demo_log = []" "log_outstanding demo_log = 0" "\<not> log_committing demo_log"
    "b \<noteq> 2 \<Longrightarrow> bs_view (babs 1 demo_log) b = demo_disk (b + MBR_BASE)" using t by (simp_all add: e)
  show d: "log_dev demo_log = 1" "log_inv demo_log" using a(1) by (simp_all add: log_ok_def)
  show "bs_held (babs 1 demo_log) = Map.empty" using a(2) d by (simp add: quiet_def)
  show "bs_dirty (babs 1 demo_log) = {}" using d a(3) by (simp add: log_inv_def)
qed

text \<open>A transaction with one block in it.\<close>

lemma demo_txn:
  "\<exists>s :: logstate. log_inv s \<and> quiet s \<and> lh_n s > 0 \<and> log_dev s = 1 \<and> log_start s = 2 \<and> lview s 100 = replicate BSIZE 9 \<and>
     txn s = [100] \<and> log_outstanding s = 0 \<and> \<not> log_committing s"
proof -
  have lf: "log_free 2 100"
  proof -
    have "(100 :: u32) \<noteq> 2 + of_nat k" if "k < 30" for k
    proof
      assume "(100 :: u32) = 2 + of_nat k"
      then have "(of_nat 98 :: u32) = of_nat k" by (simp add: algebra_simps)
      then show False using that by (subst (asm) of_nat_inj32) auto
    qed
    then show ?thesis by (auto simp: log_free_def log_region_def LOGSIZE_def)
  qed
  let ?f = "\<lambda>_. replicate BSIZE 9" and ?s = demo_log
  have r: "room (babs 1 ?s) 100" using demo_log(8,9) by (simp add: room_def NBUF_def)
  obtain t where t: "log_ok 1 2 29 t" "lframe ?s t"
     "babs 1 t = (babs 1 ?s)\<lparr>bs_view := (bs_view (babs 1 ?s))(100 := replicate BSIZE 9), bs_dirty := insert 100 (bs_dirty (babs 1 ?s))\<rparr>"
    using ls.update_block [OF demo_log(1) _ r lf, of ?f] demo_log(8,9) by auto
  have inv: "log_inv t" and d: "log_dev t = 1" "log_start t = 2" using t(1) by (auto simp: log_ok_def)
  have di: "ldirty t = {100}" using t(3) demo_log(9) by (simp add: d)
  have tx: "set (txn t) = {100}" "distinct (txn t)" using inv di by (auto simp: log_inv_def)
  then have "length (txn t) = 1" using distinct_card [of "txn t"] by simp
  then have one: "txn t = [100]" using tx by (cases "txn t") auto
  have "quiet t" using t(3) demo_log(8) inv d by (simp add: quiet_def log_inv_def)
  moreover have "lh_n t > 0" using card_dirty_txn [OF inv] di by simp
  moreover have "log_outstanding t = 0" "\<not> log_committing t" using lframe_fields(3,4) [OF t(2)] demo_log(4,5) by simp_all
  ultimately show ?thesis using inv d one t(3) by (intro exI [of _ t]) simp
qed

section \<open>Properties\<close>

text \<open>
  C1. Crash atomicity: \<open>commit\<close> issues a sequence of block writes such that, if the machine stops
  after any number of them and \<open>recover_from_log\<close> runs on the disk as it is then, the recovery
  succeeds and every block outside the log has its content from before the transaction, or every
  block outside the log has its content from after the transaction, according to whether the
  header write was reached.
\<close>

theorem commit_crash_atomic:
  fixes s r :: "'z logstate_scheme"
  assumes "log_inv s" and "quiet s" and "lh_n s > 0"
  shows "\<exists>t ws. commit s = Inr ((), t) \<and>
     bs_wlog (babs (log_dev s) t) = bs_wlog (babs (log_dev s) s) @ ws \<and>
     (\<forall>j (r :: 'z logstate_scheme). j \<le> length ws \<and> quiet r \<and> ldirty r = {} \<and> length (lh_block r) = LOGSIZE \<and>
        log_start r = log_start s \<and> ldisk r = writes (take j ws) (ldisk s) \<longrightarrow>
        (\<exists>u. recover_from_log r = Inr ((), u) \<and> quiet u \<and>
           (\<forall>b. b \<notin> log_region (log_start s) \<longrightarrow> lview u b = ldisk u b \<and>
              ldisk u b = (if j \<le> length (txn s) then ldisk s b else lview s b))))"
proof -
  obtain t where t: "commit s = Inr ((), t)" "babs (log_dev s) t = bs_writes (commit_writes s) (babs (log_dev s) s)"
    using commit_run [OF assms] by blast
  have "\<exists>u. recover_from_log r = Inr ((), u) \<and> quiet u \<and>
       (\<forall>b. b \<notin> log_region (log_start s) \<longrightarrow> lview u b = ldisk u b \<and>
          ldisk u b = (if j \<le> length (txn s) then ldisk s b else lview s b))"
    if r: "j \<le> length (commit_writes s)" "quiet r" "ldirty r = {}" "length (lh_block r) = LOGSIZE"
      "log_start r = log_start s" "ldisk r = writes (take j (commit_writes s)) (ldisk s)" for j and r :: "'z logstate_scheme"
  proof -
    obtain m where m: "head_sound (log_start s) (ldisk r (log_start s)) m"
      "\<forall>b. b \<notin> log_region (log_start s) \<longrightarrow>
        writes (recover_writes (log_start s) (ldisk r) m) (ldisk r) b = (if j \<le> length (txn s) then ldisk s b else lview s b)"
      using crash_disk [OF assms(1,2) r(1,6)] by blast
    obtain u where u: "recover_from_log r = Inr ((), u)" "quiet u" "log_dev u = log_dev r"
      "babs (log_dev r) u = bs_writes (recover_writes (log_start s) (ldisk r) m) (babs (log_dev r) r)"
      using recover_run [OF r(2,3,4)] m(1) r(5) by auto
    have "lview r = ldisk r" using r(2,3) bc.coherent [of "log_dev r" r] by (auto simp: quiet_def fun_eq_iff)
    then show ?thesis using u m(2) by (intro exI [of _ u]) simp
  qed
  then show ?thesis using t by (intro exI [of _ t] exI [of _ "commit_writes s"]) auto
qed

theorem commit_crash_atomic_witness:
  "\<exists>s t :: logstate. lh_n s > 0 \<and> commit s = Inr ((), t)"
proof -
  obtain s :: logstate where s: "log_inv s" "quiet s" "lh_n s > 0" using demo_txn by blast
  from commit_crash_atomic [OF this] s(3) show ?thesis by blast
qed

text \<open>
  C2. Durability: when the last operation of a transaction ends, \<open>end_op\<close> returns with every block
  outside the log on the disk as the operations left it in the cache, an empty log, and every
  process that waited for the log woken.
\<close>

theorem end_op_durable:
  assumes "log_inv s" and "quiet s" and "log_outstanding s = 1" and "\<not> log_committing s"
  shows "\<exists>t. end_op s = Inr ((), t) \<and> log_inv t \<and> quiet t \<and> txn t = [] \<and> log_outstanding t = 0 \<and> \<not> log_committing t \<and>
     (\<forall>b. b \<notin> log_region (log_start s) \<longrightarrow> ldisk t b = lview s b \<and> lview t b = lview s b) \<and>
     (\<forall>q<NPROC. \<not> (p_state (ptable t q) = SLEEPING \<and> p_chan (ptable t q) = Some Clog))"
proof -
  obtain t u where t: "t = u\<lparr>log_committing := False, ptable := woken Clog (ptable u)\<rparr>" "end_op s = Inr ((), t)"
     "log_inv t" "quiet t" "txn t = []" "log_outstanding t = 0" "\<not> log_committing t"
     "\<forall>b. b \<notin> log_region (log_start s) \<longrightarrow> ldisk t b = lview s b \<and> lview t b = lview s b"
    using end_op_last [OF assms] by blast
  moreover have "\<not> (p_state (ptable t q) = SLEEPING \<and> p_chan (ptable t q) = Some Clog)" if "q < NPROC" for q
    using that by (auto simp: t(1) woken_def)
  ultimately show ?thesis by blast
qed

theorem end_op_durable_witness:
  "\<exists>s t :: logstate. lview s 100 = replicate BSIZE 9 \<and> end_op s = Inr ((), t) \<and> ldisk t 100 = replicate BSIZE 9"
proof -
  obtain s :: logstate where s: "log_inv s" "quiet s" "log_dev s = 1" "log_start s = 2" "lview s 100 = replicate BSIZE 9"
     "txn s = [100]" "\<not> log_committing s" using demo_txn by blast
  let ?s = "s\<lparr>log_outstanding := 1\<rparr>"
  have "100 \<notin> log_region (2 :: u32)" using s(1,4,6) by (auto simp: log_inv_def)
  then obtain t where "end_op ?s = Inr ((), t)" "ldisk t 100 = lview ?s 100"
    using end_op_durable [of ?s] s by auto
  moreover have "lview ?s 100 = replicate BSIZE 9" using s(3,5) by simp
  ultimately show ?thesis by metis
qed

text \<open>
  C6. Logging a block: \<open>log_write\<close> of a held buffer outside the log, with room in the transaction,
  pins the block and adds it to the transaction once (a block already logged is absorbed), keeps
  the invariant, and leaves every block's content alone.
\<close>

theorem log_write_absorbs:
  assumes "log_inv s" and "bs_held (babs (log_dev s) s) b = Some i" and "b \<notin> log_region (log_start s)"
    and "lh_n s < log_size s - 1"
  shows "\<exists>t. log_write i s = Inr ((), t) \<and> log_inv t \<and> lframe s t \<and>
     txn t = (if b \<in> set (txn s) then txn s else txn s @ [b]) \<and> b \<in> ldirty t \<and>
     lview t = lview s \<and> ldisk t = ldisk s"
proof -
  obtain t where t: "log_write i s = Inr ((), t)" "log_inv t" "lframe s t"
     "babs (log_dev s) t = (babs (log_dev s) s)\<lparr>bs_dirty := insert b (ldirty s)\<rparr>"
     "txn t = (if b \<in> set (txn s) then txn s else txn s @ [b])" using log_write_run [OF assms] by blast
  then show ?thesis using lframe_fields(5) [OF t(3)] by (intro exI [of _ t]) simp
qed

theorem log_write_absorbs_witness:
  "\<exists>i s t. log_write i (s :: logstate) = Inr ((), t) \<and> txn t = [100]"
proof -
  have "room (babs 1 demo_log) 100" using demo_log(8,9) by (simp add: room_def NBUF_def)
  then obtain i and s :: logstate where s: "log_ok 1 2 29 s" "babs 1 s = (babs 1 demo_log)\<lparr>bs_held := [100 \<mapsto> i]\<rparr>"
    using ls.rd_ok [OF demo_log(1), of 100] demo_log(8) by auto
  have inv: "log_inv s" "log_dev s = 1" "log_start s = 2" "log_size s = 30" using s(1) by (auto simp: log_ok_def)
  have di: "ldirty s = {}" using s(2) demo_log(9) inv by simp
  then have n: "lh_n s < log_size s - 1" "txn s = []"
    using card_dirty_txn [OF inv(1)] inv(4) log_inv_txn(1) [OF inv(1)] inv(1) by (auto simp: log_inv_def)
  obtain u :: logstate where "log_inv u" "log_start u = 2" "txn u = [100]" using demo_txn by blast
  then have "100 \<notin> log_region (2 :: u32)" by (auto simp: log_inv_def)
  then show ?thesis using log_write_absorbs [OF inv(1) _ _ n(1), of 100 i] s(2) inv n(2) by auto
qed

text \<open>
  The file system's use of the log, as interleaved calls of any number of operations. \<open>W p\<close> are the
  blocks operation \<open>p\<close> has logged so far, at most \<open>MAXOPBLOCKS\<close> of them. The last operation to end
  has given its buffers back; everything else the kernel does leaves the variables of the log alone
  and keeps its invariant.
\<close>

inductive log_used :: "'z logstate_scheme \<Rightarrow> (nat \<rightharpoonup> u32 set) \<Rightarrow> bool" where
  idle: "log_inv s \<Longrightarrow> log_size s = int LOGSIZE \<Longrightarrow> log_outstanding s = 0 \<Longrightarrow> \<not> log_committing s \<Longrightarrow> txn s = [] \<Longrightarrow>
     log_used s Map.empty"
| begins: "log_used s W \<Longrightarrow> W p = None \<Longrightarrow> begin_op s = Inr ((), t) \<Longrightarrow> log_used t (W(p \<mapsto> {}))"
| logs: "log_used s W \<Longrightarrow> W p = Some B \<Longrightarrow> bs_held (babs (log_dev s) s) b = Some i \<Longrightarrow> b \<notin> log_region (log_start s) \<Longrightarrow>
     card (insert b B) \<le> MAXOPBLOCKS \<Longrightarrow> log_write i s = Inr ((), t) \<Longrightarrow> log_used t (W(p \<mapsto> insert b B))"
| ends: "log_used s W \<Longrightarrow> W p = Some B \<Longrightarrow> (dom W = {p} \<longrightarrow> bs_held (babs (log_dev s) s) = Map.empty) \<Longrightarrow>
     end_op s = Inr ((), t) \<Longrightarrow> log_used t (W(p := None))"
| others: "log_used s W \<Longrightarrow> biostate.more t = biostate.more s \<Longrightarrow> log_inv t \<Longrightarrow> log_used t W"

text \<open>The blocks that the operations in progress may still log.\<close>

definition reserved :: "(nat \<rightharpoonup> u32 set) \<Rightarrow> nat" where
  "reserved W = (\<Sum>p\<in>dom W. MAXOPBLOCKS - card (the (W p)))"

definition use_inv :: "'z logstate_scheme \<Rightarrow> (nat \<rightharpoonup> u32 set) \<Rightarrow> bool" where
  "use_inv s W \<longleftrightarrow> log_inv s \<and> log_size s = int LOGSIZE \<and> \<not> log_committing s \<and> finite (dom W) \<and>
     log_outstanding s = int (card (dom W)) \<and> (\<forall>p B. W p = Some B \<longrightarrow> finite B \<and> card B \<le> MAXOPBLOCKS \<and> B \<subseteq> set (txn s)) \<and>
     lh_n s + int (reserved W) \<le> int LOGSIZE"

lemma reserved_upd:
  assumes "finite (dom W)"
  shows "W p = None \<Longrightarrow> reserved (W(p \<mapsto> B)) = reserved W + (MAXOPBLOCKS - card B)"
    and "W p = Some A \<Longrightarrow> reserved (W(p \<mapsto> B)) + (MAXOPBLOCKS - card A) = reserved W + (MAXOPBLOCKS - card B)"
    and "W p = Some A \<Longrightarrow> reserved (W(p := None)) + (MAXOPBLOCKS - card A) = reserved W"
proof -
  have other: "(\<Sum>q\<in>dom W - {p}. MAXOPBLOCKS - card (the ((W(p := x)) q))) = (\<Sum>q\<in>dom W - {p}. MAXOPBLOCKS - card (the (W q)))" for x
    by (rule sum.cong) auto
  show "reserved (W(p \<mapsto> B)) = reserved W + (MAXOPBLOCKS - card B)" if "W p = None"
  proof -
    have p: "dom W - {p} = dom W" "p \<notin> dom W" using that by auto
    then show ?thesis using other [of "Some B"] assms unfolding reserved_def p(1) by simp
  qed
  have rem: "reserved W = (MAXOPBLOCKS - card A) + (\<Sum>q\<in>dom W - {p}. MAXOPBLOCKS - card (the (W q)))" if "W p = Some A"
    using that assms by (simp add: reserved_def domIff sum.remove [of _ p])
  show "reserved (W(p \<mapsto> B)) + (MAXOPBLOCKS - card A) = reserved W + (MAXOPBLOCKS - card B)" if "W p = Some A"
  proof -
    have "insert p (dom W) = dom W" using that by auto
    then show ?thesis using other [of "Some B"] assms that rem [OF that]
      by (simp add: reserved_def domIff sum.remove [of "dom W" p])
  qed
  show "reserved (W(p := None)) + (MAXOPBLOCKS - card A) = reserved W" if "W p = Some A"
    using other [of None] rem [OF that] by (simp add: reserved_def)
qed

lemma use_inv_begin:
  assumes inv: "use_inv s W" and p: "W p = None" and r: "begin_op s = Inr ((), t)"
  shows "use_inv t (W(p \<mapsto> {}))"
proof -
  have l: "log_inv s" and fin: "finite (dom W)" using inv by (simp_all add: use_inv_def)
  then have bi: "bio_inv (log_dev s) s" by (simp add: log_inv_def)
  have ad: "log_admits s"
  proof (rule ccontr)
    assume "\<not> log_admits s"
    moreover obtain q where "thisproc s = Some q" using bio_invD(3) [OF bi] by (auto simp: running_def)
    ultimately show False using begin_op_block [OF bio_invD(1) [OF bi]] r by simp
  qed
  then have t: "t = s\<lparr>log_outstanding := log_outstanding s + 1\<rparr>"
    using begin_op_admit [OF bio_invD(1) [OF bi]] r by simp
  have d: "card (dom (W(p \<mapsto> {}))) = Suc (card (dom W))" using p fin by (simp add: domIff)
  have "reserved W \<le> card (dom W) * MAXOPBLOCKS"
    unfolding reserved_def by (rule sum_bounded_above [of "dom W" _ MAXOPBLOCKS, simplified]) simp
  then have "lh_n s + int (reserved (W(p \<mapsto> {}))) \<le> int LOGSIZE"
    using ad inv by (simp add: reserved_upd(1) [OF fin p] log_admits_def use_inv_def MAXOPBLOCKS_def LOGSIZE_def)
  then show ?thesis using inv d fin by (auto simp: use_inv_def t)
qed

lemma log_write_full: "log_size s - 1 \<le> lh_n s \<Longrightarrow> log_write i s = Inl (Panic ''log_write: too big a transaction'')"
  by (simp add: log_write_def kop_simps)

lemma use_inv_write:
  assumes inv: "use_inv s W" and p: "W p = Some B" and h: "bs_held (babs (log_dev s) s) b = Some i"
    and b: "b \<notin> log_region (log_start s)" and c: "card (insert b B) \<le> MAXOPBLOCKS" and r: "log_write i s = Inr ((), t)"
  shows "use_inv t (W(p \<mapsto> insert b B))"
proof -
  have l: "log_inv s" and fin: "finite (dom W)" and B: "finite B" "card B \<le> MAXOPBLOCKS" "B \<subseteq> set (txn s)"
    using inv p by (auto simp: use_inv_def)
  have room: "lh_n s < log_size s - 1" using log_write_full [of s i] r by (cases "lh_n s < log_size s - 1") simp_all
  have t: "log_inv t" "lframe s t" "txn t = (if b \<in> set (txn s) then txn s else txn s @ [b])"
    using log_write_run [OF l h b room] r by auto
  have n: "lh_n s = int (length (txn s))" "lh_n t = int (length (txn t))"
    using log_inv_txn(1) [OF l] log_inv_txn(1) [OF t(1)] l t(1) by (auto simp: log_inv_def)
  have sub: "set (txn s) \<subseteq> set (txn t)" "insert b B \<subseteq> set (txn t)" using t(3) B(3) by auto
  have "lh_n t + int (reserved (W(p \<mapsto> insert b B))) \<le> lh_n s + int (reserved W)"
  proof (cases "b \<in> B")
    case True
    then have "insert b B = B" "txn t = txn s" using B(3) t(3) by auto
    then show ?thesis using reserved_upd(2) [OF fin p, of B] n by simp
  next
    case False
    then have "card (insert b B) = Suc (card B)" using B(1) by simp
    moreover have "length (txn t) \<le> Suc (length (txn s))" using t(3) by simp
    ultimately show ?thesis using reserved_upd(2) [OF fin p, of "insert b B"] n c by linarith
  qed
  moreover have "insert p (dom W) = dom W" using p by auto
  moreover have "\<forall>q A. (W(p \<mapsto> insert b B)) q = Some A \<longrightarrow> finite A \<and> card A \<le> MAXOPBLOCKS \<and> A \<subseteq> set (txn t)"
  proof (intro allI impI)
    fix q A assume "(W(p \<mapsto> insert b B)) q = Some A"
    then have "A = insert b B \<or> W q = Some A" by (cases "q = p") auto
    then consider "A = insert b B" | "W q = Some A" by blast
    then show "finite A \<and> card A \<le> MAXOPBLOCKS \<and> A \<subseteq> set (txn t)"
    proof cases
      case 1
      then show ?thesis using B(1) c sub(2) by simp
    next
      case 2
      then have "finite A \<and> card A \<le> MAXOPBLOCKS \<and> A \<subseteq> set (txn s)" using inv unfolding use_inv_def by blast
      then show ?thesis using sub(1) by blast
    qed
  qed
  ultimately show ?thesis using inv t(1) lframe_fields(2-4) [OF t(2)] by (simp add: use_inv_def)
qed

lemma use_inv_end:
  assumes inv: "use_inv s W" and p: "W p = Some B" and r: "end_op s = Inr ((), t)"
    and h: "dom W = {p} \<longrightarrow> bs_held (babs (log_dev s) s) = Map.empty"
  shows "use_inv t (W(p := None))"
proof -
  have l: "log_inv s" and fin: "finite (dom W)" and c: "\<not> log_committing s" and o: "log_outstanding s = int (card (dom W))"
    using inv by (simp_all add: use_inv_def)
  have sf: "spin_free s" using l bio_invD(1) by (auto simp: log_inv_def)
  have pd: "p \<in> dom W" using p by auto
  show ?thesis
  proof (cases "dom W = {p}")
    case True
    then have q: "quiet s" and o1: "log_outstanding s = 1" using h l o by (simp_all add: quiet_def log_inv_def)
    obtain u where u: "commit (s\<lparr>log_outstanding := 0, log_committing := True\<rparr>) = Inr ((), u)"
      "t = u\<lparr>log_committing := False, ptable := woken Clog (ptable u)\<rparr>" "log_inv t" "txn t = []"
      "log_outstanding t = 0" "\<not> log_committing t"
      using end_op_last [OF l q o1 c] r by auto
    have "lframe (s\<lparr>log_outstanding := 0, log_committing := True\<rparr>) u"
      using commit_effect [of "s\<lparr>log_outstanding := 0, log_committing := True\<rparr>"] l q u(1) by simp
    then have "log_size t = log_size s" using lframe_fields(2) by (fastforce simp: u(2))
    moreover have "lh_n t = 0" using log_inv_txn(1) [OF u(3)] u(3,4) by (simp add: log_inv_def)
    moreover have "W(p := None) = Map.empty" using True by (auto simp: fun_eq_iff)
    ultimately show ?thesis using inv u by (simp add: use_inv_def reserved_def)
  next
    case False
    then have "log_outstanding s \<noteq> 1" using o pd fin by (metis card_1_singletonE of_nat_eq_1_iff singletonD)
    then have t: "t = s\<lparr>log_outstanding := log_outstanding s - 1, ptable := woken Clog (ptable s)\<rparr>"
      using end_op_more [OF sf _ c] r by simp
    have e: "t = (s\<lparr>ptable := woken Clog (ptable s)\<rparr>)\<lparr>log_outstanding := log_outstanding s - 1\<rparr>" by (simp add: t)
    have "log_inv t" unfolding e log_inv_flags by (rule log_inv_woken(1) [OF l])
    moreover have "card (dom W) \<ge> 1" using pd fin by (metis One_nat_def Suc_leI card_gt_0_iff empty_iff)
    ultimately show ?thesis
      using inv reserved_upd(3) [OF fin p] pd by (auto simp: use_inv_def t txn_def card_Diff_singleton split: if_splits)
  qed
qed

lemma log_used_inv: "log_used s W \<Longrightarrow> use_inv s W"
proof (induction rule: log_used.induct)
  case (idle s)
  then have "lh_n s = 0" using log_inv_txn(1) [of s] by (simp add: log_inv_def)
  then show ?case using idle by (simp add: use_inv_def reserved_def LOGSIZE_def)
next
  case (others s W t)
  then show ?case using more_fields [of t s] by (auto simp: use_inv_def txn_def)
qed (blast intro: use_inv_begin use_inv_write use_inv_end)+



text \<open>
  C7. Recovery at boot: \<open>initlog\<close> on a consistent, clean cache reads the super block, replays the
  logged blocks named by the header it finds, empties the header on the disk and leaves the log in
  its invariant with no transaction open.
\<close>

theorem initlog_recovers:
  assumes "bio_inv dev s" and "bs_held (babs dev s) = Map.empty" and "bs_dirty (babs dev s) = {}"
    and "read_superblock (bs_disk (babs dev s) 1) = sb" and "1 \<le> sint (sb_nlog sb)" and "sint (sb_nlog sb) \<le> int LOGSIZE"
    and "head_sound (sb_logstart sb) (bs_disk (babs dev s) (sb_logstart sb)) m" and "length (lh_block s) = LOGSIZE"
  shows "\<exists>t. initlog dev s = Inr ((), t) \<and> log_inv t \<and> quiet t \<and> txn t = [] \<and> log_start t = sb_logstart sb \<and>
     get32 0 (bs_disk (babs dev t) (sb_logstart sb)) = 0 \<and>
     bs_disk (babs dev t) = writes (recover_writes (sb_logstart sb) (bs_disk (babs dev s)) m) (bs_disk (babs dev s))"
proof -
  obtain t where t: "initlog dev s = Inr ((), t)" "log_ok dev (sb_logstart sb) (nat (sint (sb_nlog sb) - 1)) t" "quiet t" "txn t = []"
     "babs dev t = bs_writes (recover_writes (sb_logstart sb) (bs_disk (babs dev s)) m) (babs dev s)"
    using initlog_run [OF assms] by blast
  have d: "log_dev t = dev" "log_inv t" "log_start t = sb_logstart sb" using t(2) by (auto simp: log_ok_def)
  have "get32 0 (bs_disk (babs dev t) (sb_logstart sb)) = 0" using d by (auto simp: log_inv_def)
  then show ?thesis using t d by (intro exI [of _ t]) auto
qed

theorem initlog_recovers_witness:
  "\<exists>s t :: logstate. initlog 1 s = Inr ((), t) \<and> txn t = [] \<and> log_start t = 2"
proof -
  let ?s = "demo_boot () :: logstate"
  have len: "length (demo_disk a) = BSIZE" for a by (simp add: demo_disk_def length_demo_block)
  obtain t :: logstate where t: "binit ?s = Inr ((), t)" "bio_inv 1 t" "biostate.more t = zero_log ()"
    "babs 1 t = \<lparr>bs_view = (\<lambda>b. demo_disk (b + MBR_BASE)), bs_disk = (\<lambda>b. demo_disk (b + MBR_BASE)), bs_dirty = {},
       bs_held = Map.empty, bs_wlog = []\<rparr>"
    using boot_bio_inv [where dk = demo_disk and D = 1 and z = "zero_log ()", OF len] by (auto simp: demo_boot_def)
  have l: "length (lh_block t) = LOGSIZE" using t(3) by (cases t) (simp add: zero_log_def)
  have sb: "read_superblock (bs_disk (babs 1 t) 1) = demo_sb"
    using read_write_superblock [of "replicate BSIZE 0" demo_sb] by (simp add: t(4) demo_disk_def demo_block_def BSIZE_def)
  have "get32 0 (replicate BSIZE 0) = 0" by (simp add: get32_def slice_def BSIZE_def numeral_eq_Suc)
  then have "head_sound (sb_logstart demo_sb) (bs_disk (babs 1 t) (sb_logstart demo_sb)) 0"
    by (simp add: head_sound_def demo_sb_def t(4) demo_disk_def demo_block_def gets32_def)
  from initlog_recovers [OF t(2) _ _ sb _ _ this l] t(4) show ?thesis by (auto simp: demo_sb_def LOGSIZE_def)
qed

text \<open>
  Three operations that each use the blocks \<open>begin_op\<close> reserves for them need one block more than
  \<open>log_write\<close> accepts in the log that \<open>mkfs\<close> lays out.
\<close>

lemma log_reservation_gap:
  fixes s :: "'z logstate_scheme"
  assumes "spin_free s" and "\<not> log_committing s" and "lh_n s = 0" and "log_outstanding s = 2" and "log_size s = int LOGSIZE"
  shows "begin_op s = Inr ((), s\<lparr>log_outstanding := 3\<rparr>)" and "lh_n t = 3 * int MAXOPBLOCKS - 1 \<Longrightarrow> log_size t = int LOGSIZE \<Longrightarrow>
     log_write b t = Inl (Panic ''log_write: too big a transaction'')"
  using begin_op_admit [of s] assms
  by (simp_all add: log_admits_def MAXOPBLOCKS_def LOGSIZE_def log_write_def kop_simps)

end
