(* ===== verification/CString.thy ===== *)
theory CString
  imports Prelude
begin

text \<open>
  The string and memory routines of \<open>inc/string.h\<close>. A pointer to bytes that are only read is the
  list of bytes from there to the end of the object; moving the pointer is dropping elements, and
  reading at the end of the object is the value \<open>None\<close>. A destination array is the list of its
  bytes. \<open>memmove\<close> and \<open>memset\<close> work on a memory from addresses to bytes, because their arguments may
  overlap. The lemmas state the results of the routines in terms of the string a pointer points
  to, \<open>cstr\<close>.
\<close>

type_synonym mem = "u64 \<Rightarrow> byte"

section \<open>Reading\<close>

fun strlen :: "byte list \<Rightarrow> nat option" where
  "strlen [] = None"
| "strlen (c # s) = (if c \<noteq> 0 then map_option Suc (strlen s) else Some 0)"

fun strnlen :: "byte list \<Rightarrow> nat \<Rightarrow> nat option" where
  "strnlen s 0 = Some 0"
| "strnlen [] (Suc sz) = None"
| "strnlen (c # s) (Suc sz) = (if c \<noteq> 0 then map_option Suc (strnlen s sz) else Some 0)"

fun strcmp :: "byte list \<Rightarrow> byte list \<Rightarrow> int option" where
  "strcmp (a # p) (b # q) = (if a \<noteq> 0 \<and> a = b then strcmp p q else Some (uint a - uint b))"
| "strcmp p q = None"

fun strncmp :: "byte list \<Rightarrow> byte list \<Rightarrow> nat \<Rightarrow> int option" where
  "strncmp p q 0 = Some 0"
| "strncmp (a # p) (b # q) (Suc n) = (if a \<noteq> 0 \<and> a = b then strncmp p q n else Some (uint a - uint b))"
| "strncmp p q (Suc n) = None"

text \<open>\<open>strchr\<close> and \<open>strfind\<close> return the rest of the string from the byte found.\<close>

fun strchr :: "byte list \<Rightarrow> byte \<Rightarrow> byte list option option" where
  "strchr [] c = None"
| "strchr (a # s) c = (if a = 0 then Some None else if a = c then Some (Some (a # s)) else strchr s c)"

fun strfind :: "byte list \<Rightarrow> byte \<Rightarrow> byte list option" where
  "strfind [] c = None"
| "strfind (a # s) c = (if a = 0 \<or> a = c then Some (a # s) else strfind s c)"

fun memcmp :: "byte list \<Rightarrow> byte list \<Rightarrow> nat \<Rightarrow> int option" where
  "memcmp s1 s2 0 = Some 0"
| "memcmp (a # s1) (b # s2) (Suc n) = (if a \<noteq> b then Some (uint a - uint b) else memcmp s1 s2 n)"
| "memcmp s1 s2 (Suc n) = None"

fun memfind :: "byte list \<Rightarrow> byte \<Rightarrow> nat \<Rightarrow> byte list option" where
  "memfind s c 0 = Some s"
| "memfind [] c (Suc n) = None"
| "memfind (a # s) c (Suc n) = (if a = c then Some (a # s) else memfind s c n)"

text \<open>The value of a digit character, or \<open>None\<close> for any other character.\<close>

definition digit_of :: "byte \<Rightarrow> int option" where
  "digit_of c =
     (if 48 \<le> c \<and> c \<le> 57 then Some (uint c - 48)
      else if 97 \<le> c \<and> c \<le> 122 then Some (uint c - 97 + 10)
      else if 65 \<le> c \<and> c \<le> 90 then Some (uint c - 65 + 10)
      else None)"

fun strtol_blanks :: "byte list \<Rightarrow> byte list" where
  "strtol_blanks [] = []"
| "strtol_blanks (c # s) = (if c = 32 \<or> c = 9 then strtol_blanks s else c # s)"

definition strtol_sign :: "byte list \<Rightarrow> bool \<times> byte list" where
  "strtol_sign s = (case s of [] \<Rightarrow> (False, [])
     | c # r \<Rightarrow> if c = 43 then (False, r) else if c = 45 then (True, r) else (False, s))"

definition strtol_base :: "byte list \<Rightarrow> int \<Rightarrow> int \<times> byte list" where
  "strtol_base s base =
     (if (base = 0 \<or> base = 16) \<and> take 2 s = [48, 120] then (16, drop 2 s)
      else if base = 0 \<and> take 1 s = [48] then (8, drop 1 s)
      else if base = 0 then (10, s) else (base, s))"

fun strtol_digits :: "byte list \<Rightarrow> int \<Rightarrow> 64 word \<Rightarrow> (64 word \<times> byte list) option" where
  "strtol_digits [] base val = None"
| "strtol_digits (c # s) base val =
     (case digit_of c of None \<Rightarrow> Some (val, c # s)
      | Some dig \<Rightarrow> if dig \<ge> base then Some (val, c # s) else strtol_digits s base (val * of_int base + of_int dig))"

text \<open>The result and where the number ends; the arithmetic of \<open>long\<close> wraps.\<close>

definition strtol :: "byte list \<Rightarrow> int \<Rightarrow> (64 word \<times> byte list) option" where
  "strtol s base =
     (let s1 = strtol_blanks s; (neg, s2) = strtol_sign s1; (base', s3) = strtol_base s2 base
      in map_option (\<lambda>(v, e). (if neg then - v else v, e)) (strtol_digits s3 base' 0))"

section \<open>Writing\<close>

fun strcpy :: "byte list \<Rightarrow> byte list \<Rightarrow> byte list option" where
  "strcpy (d # dst) (c # src) = (if c \<noteq> 0 then map_option (Cons c) (strcpy dst src) else Some (0 # dst))"
| "strcpy dst src = None"

definition strcat :: "byte list \<Rightarrow> byte list \<Rightarrow> byte list option" where
  "strcat dst src =
     (case strlen dst of None \<Rightarrow> None | Some len \<Rightarrow> map_option (\<lambda>r. take len dst @ r) (strcpy (drop len dst) src))"

fun strncpy :: "byte list \<Rightarrow> byte list \<Rightarrow> nat \<Rightarrow> byte list option" where
  "strncpy dst src 0 = Some dst"
| "strncpy (d # dst) (c # src) (Suc sz) =
     map_option (Cons c) (strncpy dst (if c \<noteq> 0 then src else c # src) sz)"
| "strncpy dst src (Suc sz) = None"

text \<open>The new destination and the number of characters copied.\<close>

fun strlcpy_loop :: "byte list \<Rightarrow> byte list \<Rightarrow> nat \<Rightarrow> (byte list \<times> nat) option" where
  "strlcpy_loop (d # dst) (c # src) (Suc sz) =
     (if c \<noteq> 0 then map_option (\<lambda>(r, k). (c # r, Suc k)) (strlcpy_loop dst src sz) else Some (0 # dst, 0))"
| "strlcpy_loop (d # dst) src 0 = Some (0 # dst, 0)"
| "strlcpy_loop dst src sz = None"

definition strlcpy :: "byte list \<Rightarrow> byte list \<Rightarrow> nat \<Rightarrow> (byte list \<times> nat) option" where
  "strlcpy dst src sz = (if sz > 0 then strlcpy_loop dst src (sz - 1) else Some (dst, 0))"

fun memset_loop :: "mem \<Rightarrow> u64 \<Rightarrow> byte \<Rightarrow> nat \<Rightarrow> mem" where
  "memset_loop m p c 0 = m"
| "memset_loop m p c (Suc n) = memset_loop (m(p := c)) (p + 1) c n"

text \<open>The counter of \<open>memset\<close> is an \<open>int\<close>: the length is cut to 32 bits and read as signed.\<close>

definition memset :: "mem \<Rightarrow> u64 \<Rightarrow> u32 \<Rightarrow> u64 \<Rightarrow> mem" where
  "memset m v c n = memset_loop m v (ucast c) (nat (sint (ucast n :: u32)))"

fun copy_up :: "mem \<Rightarrow> u64 \<Rightarrow> u64 \<Rightarrow> nat \<Rightarrow> mem" where
  "copy_up m d s 0 = m"
| "copy_up m d s (Suc n) = copy_up (m(d := m s)) (d + 1) (s + 1) n"

fun copy_down :: "mem \<Rightarrow> u64 \<Rightarrow> u64 \<Rightarrow> nat \<Rightarrow> mem" where
  "copy_down m d s 0 = m"
| "copy_down m d s (Suc n) = copy_down (m(d - 1 := m (s - 1))) (d - 1) (s - 1) n"

definition memmove :: "mem \<Rightarrow> u64 \<Rightarrow> u64 \<Rightarrow> u64 \<Rightarrow> mem" where
  "memmove m dst src n =
     (if src < dst \<and> src + n > dst then copy_down m (dst + n) (src + n) (unat n)
      else copy_up m dst src (unat n))"

definition memcpy :: "mem \<Rightarrow> u64 \<Rightarrow> u64 \<Rightarrow> u64 \<Rightarrow> mem" where
  "memcpy m dst src n = memmove m dst src n"

section \<open>Strings\<close>

lemma uint_eq_simps: "uint a = uint b \<longleftrightarrow> a = b" "uint a = 0 \<longleftrightarrow> a = 0" "0 = uint a \<longleftrightarrow> a = 0" for a b :: byte
  by (auto simp: word_uint_eq_iff)

text \<open>\<open>cstr s xs\<close>: the pointer \<open>s\<close> points to the string \<open>xs\<close>, terminated by a zero byte.\<close>

definition cstr :: "byte list \<Rightarrow> byte list \<Rightarrow> bool" where
  "cstr s xs \<longleftrightarrow> (\<exists>r. s = xs @ 0 # r) \<and> 0 \<notin> set xs"

lemma cstr_Nil: "cstr s [] \<longleftrightarrow> (\<exists>r. s = 0 # r)"
  by (simp add: cstr_def)

lemma cstr_Cons: "cstr s (x # xs) \<longleftrightarrow> (\<exists>s'. s = x # s' \<and> x \<noteq> 0 \<and> cstr s' xs)"
  by (auto simp: cstr_def)

lemma strlen_cstr: "cstr s xs \<Longrightarrow> strlen s = Some (length xs)"
  by (induction xs arbitrary: s) (auto simp: cstr_Nil cstr_Cons)

lemma strnlen_cstr: "cstr s xs \<Longrightarrow> strnlen s n = Some (min n (length xs))"
proof (induction xs arbitrary: s n)
  case Nil
  then show ?case by (cases n) (auto simp: cstr_Nil)
next
  case (Cons x xs)
  then show ?case by (cases n) (auto simp: cstr_Cons)
qed

lemma strcmp_cstr: "cstr s xs \<Longrightarrow> cstr t ys \<Longrightarrow> \<exists>r. strcmp s t = Some r \<and> (r = 0 \<longleftrightarrow> xs = ys)"
proof (induction xs arbitrary: s t ys)
  case Nil
  then show ?case by (cases ys) (auto simp: cstr_Nil cstr_Cons uint_eq_simps)
next
  case (Cons x xs)
  then show ?case by (cases ys) (auto simp: cstr_Nil cstr_Cons uint_eq_simps)
qed

text \<open>
  \<open>strncmp\<close> compares up to \<open>n\<close> bytes of two strings that are terminated, or at least \<open>n\<close> bytes
  long as a name in a directory entry is.
\<close>

definition readable_n :: "nat \<Rightarrow> byte list \<Rightarrow> bool" where
  "readable_n n s \<longleftrightarrow> n \<le> length s \<or> 0 \<in> set s"

text \<open>The bytes before the first zero, at most \<open>n\<close>.\<close>

definition name_of :: "nat \<Rightarrow> byte list \<Rightarrow> byte list" where
  "name_of n s = take n (takeWhile (\<lambda>c. c \<noteq> 0) s)"

lemma strncmp_names:
  "readable_n n s \<Longrightarrow> readable_n n t \<Longrightarrow> \<exists>r. strncmp s t n = Some r \<and> (r = 0 \<longleftrightarrow> name_of n s = name_of n t)"
proof (induction s t n rule: strncmp.induct)
  case (2 a p b q n)
  then show ?case by (auto simp: readable_n_def name_of_def uint_eq_simps)
qed (auto simp: readable_n_def name_of_def)

lemma memcmp_eq:
  "n \<le> length s \<Longrightarrow> n \<le> length t \<Longrightarrow> \<exists>r. memcmp s t n = Some r \<and> (r = 0 \<longleftrightarrow> take n s = take n t)"
  by (induction s t n rule: memcmp.induct) (auto simp: uint_eq_simps)

lemma strncpy_zeros: "n \<le> length dst \<Longrightarrow> strncpy dst (0 # r) n = Some (replicate n 0 @ drop n dst)"
proof (induction n arbitrary: dst)
  case (Suc n)
  then show ?case by (cases dst) auto
qed simp

lemma strncpy_cstr:
  assumes "cstr s xs" and "n \<le> length dst"
  shows "strncpy dst s n = Some (take n (xs @ replicate n 0) @ drop n dst)"
  using assms
proof (induction xs arbitrary: s n dst)
  case Nil
  then show ?case by (auto simp: cstr_Nil strncpy_zeros)
next
  case (Cons x xs)
  show ?case
  proof (cases n)
    case (Suc k)
    then obtain d ds where "dst = d # ds" using Cons.prems by (cases dst) auto
    moreover have "take k (xs @ replicate k 0) = take k (xs @ replicate (Suc k) (0 :: byte))"
      by (simp add: replicate_append_same [symmetric] del: replicate_Suc)
    ultimately show ?thesis using Cons Suc by (auto simp: cstr_Cons)
  qed simp
qed

lemma strcpy_cstr:
  "cstr s xs \<Longrightarrow> length xs < length dst \<Longrightarrow> strcpy dst s = Some (xs @ 0 # drop (Suc (length xs)) dst)"
proof (induction xs arbitrary: s dst)
  case Nil
  then show ?case by (cases dst) (auto simp: cstr_Nil)
next
  case (Cons x xs)
  then show ?case by (cases dst) (auto simp: cstr_Cons)
qed

lemma strlcpy_loop_cstr:
  assumes "cstr s xs" and "n < length dst"
  shows "strlcpy_loop dst s n = Some (take n xs @ 0 # drop (Suc (min n (length xs))) dst, min n (length xs))"
  using assms
proof (induction xs arbitrary: s n dst)
  case Nil
  then show ?case by (cases n; cases dst) (auto simp: cstr_Nil)
next
  case (Cons x xs)
  then show ?case by (cases n; cases dst) (auto simp: cstr_Cons)
qed

section \<open>Memory\<close>

lemma word_add_1_unat: "unat (a :: u64) + Suc n < 2 ^ 64 \<Longrightarrow> unat (a + 1) = Suc (unat a)"
  by (simp add: unat_word_ariths)

lemma memset_loop_at:
  assumes "unat p + n < 2 ^ 64"
  shows "memset_loop m p c n a = (if unat p \<le> unat a \<and> unat a < unat p + n then c else m a)"
  using assms
proof (induction n arbitrary: p m)
  case (Suc n)
  have u: "unat (p + 1) = Suc (unat p)" using Suc.prems by (intro word_add_1_unat) simp
  have "a = p \<longleftrightarrow> unat a = unat p" by (simp add: word_unat_eq_iff)
  then show ?case using Suc u by (auto)
qed auto

text \<open>The address \<open>i\<close> bytes after \<open>a\<close>.\<close>

lemma copy_up_at:
  assumes "unat d + n < 2 ^ 64" "unat s + n < 2 ^ 64" and "unat d \<le> unat s \<or> unat s + n \<le> unat d"
  shows "copy_up m d s n a = (if unat d \<le> unat a \<and> unat a < unat d + n then m (s + (a - d)) else m a)"
  using assms
proof (induction n arbitrary: d s m)
  case (Suc n)
  have u: "unat (d + 1) = Suc (unat d)" "unat (s + 1) = Suc (unat s)"
    using Suc.prems by (auto intro!: word_add_1_unat)
  have eq: "a = d \<longleftrightarrow> unat a = unat d" for a by (simp add: word_unat_eq_iff)
  have ih: "copy_up (m(d := m s)) (d + 1) (s + 1) n a =
     (if unat (d + 1) \<le> unat a \<and> unat a < unat (d + 1) + n then (m(d := m s)) (s + 1 + (a - (d + 1))) else (m(d := m s)) a)"
    using Suc.prems u by (intro Suc.IH) auto
  have ar: "s + 1 + (a - (d + 1)) = s + (a - d)" by simp
  have ne: "s + (a - d) \<noteq> d" if "unat d < unat a" "unat a < unat d + Suc n"
  proof -
    have "unat (a - d) = unat a - unat d" using that by (simp add: unat_sub_if')
    then have "unat (s + (a - d)) = unat s + (unat a - unat d)"
      using that Suc.prems by (simp add: unat_add_lem [THEN iffD1])
    then have "unat (s + (a - d)) \<noteq> unat d" using that Suc.prems(3) by auto
    then show ?thesis by metis
  qed
  show ?case using ih ar u eq [of a] ne by auto
qed auto

lemma copy_down_at:
  assumes "n \<le> unat d" "n \<le> unat s" and "unat s \<le> unat d"
  shows "copy_down m d s n a = (if unat d - n \<le> unat a \<and> unat a < unat d then m (s + (a - d)) else m a)"
  using assms
proof (induction n arbitrary: d s m)
  case (Suc n)
  have u: "unat (d - 1) = unat d - 1" "unat (s - 1) = unat s - 1"
    using Suc.prems by (auto simp: unat_sub_if')
  have eq: "a = d - 1 \<longleftrightarrow> unat a = unat d - 1" for a using u by (metis word_unat_eq_iff)
  have ih: "copy_down (m(d - 1 := m (s - 1))) (d - 1) (s - 1) n a =
     (if unat (d - 1) - n \<le> unat a \<and> unat a < unat (d - 1) then (m(d - 1 := m (s - 1))) (s - 1 + (a - (d - 1)))
      else (m(d - 1 := m (s - 1))) a)"
    using Suc.prems u by (intro Suc.IH) auto
  have ar: "s - 1 + (a - (d - 1)) = s + (a - d)" by simp
  have ne: "s + (a - d) \<noteq> d - 1" if "unat a < unat d - 1" "unat d - Suc n \<le> unat a"
  proof -
    have "unat (d - a) = unat d - unat a" using that by (simp add: unat_sub_if')
    then have "unat (s - (d - a)) = unat s - (unat d - unat a)"
      using that Suc.prems by (simp add: unat_sub_if')
    then have "unat (s - (d - a)) \<noteq> unat (d - 1)" using that Suc.prems u by auto
    moreover have "s + (a - d) = s - (d - a)" by simp
    ultimately show ?thesis by metis
  qed
  have sa: "s + (a - d) = s - 1" if "a = d - 1" using that by simp
  show ?case using ih ar u eq [of a] ne sa Suc.prems by auto
qed auto


lemma memmove_at:
  assumes "unat dst + unat n < 2 ^ 64" and "unat src + unat n < 2 ^ 64"
  shows "memmove m dst src n a =
     (if unat dst \<le> unat a \<and> unat a < unat dst + unat n then m (src + (a - dst)) else m a)"
proof (cases "src < dst \<and> src + n > dst")
  case True
  have u: "unat (dst + n) = unat dst + unat n" "unat (src + n) = unat src + unat n"
    using assms by (simp_all add: unat_add_lem [THEN iffD1])
  have "unat src < unat dst" using True by (simp add: word_less_nat_alt)
  then have "copy_down m (dst + n) (src + n) (unat n) a =
     (if unat (dst + n) - unat n \<le> unat a \<and> unat a < unat (dst + n) then m (src + n + (a - (dst + n))) else m a)"
    using u by (intro copy_down_at) auto
  moreover have "src + n + (a - (dst + n)) = src + (a - dst)" by simp
  ultimately show ?thesis using True u by (simp add: memmove_def)
next
  case False
  have "unat (src + n) = unat src + unat n" using assms by (simp add: unat_add_lem [THEN iffD1])
  then have "unat dst \<le> unat src \<or> unat src + unat n \<le> unat dst" using False by (auto simp: word_less_nat_alt)
  then show ?thesis unfolding memmove_def if_not_P [OF False] using assms by (intro copy_up_at) auto
qed

section \<open>Properties\<close>

text \<open>
  \<open>memmove\<close> copies correctly whether or not the areas overlap: after it the destination holds the
  bytes the source held before, and every other byte is unchanged.
\<close>

theorem memmove_overlap_safe:
  assumes "unat dst + unat n < 2 ^ 64" and "unat src + unat n < 2 ^ 64"
  shows "(\<forall>i. unat i < unat n \<longrightarrow> memmove m dst src n (dst + i) = m (src + i)) \<and>
     (\<forall>a. \<not> (dst \<le> a \<and> a < dst + n) \<longrightarrow> memmove m dst src n a = m a)"
proof -
  have u: "unat (dst + n) = unat dst + unat n" using assms by (simp add: unat_add_lem [THEN iffD1])
  have "memmove m dst src n (dst + i) = m (src + i)" if "unat i < unat n" for i
  proof -
    have "unat (dst + i) = unat dst + unat i" using assms that by (simp add: unat_add_lem [THEN iffD1])
    then show ?thesis using that by (simp add: memmove_at [OF assms])
  qed
  then show ?thesis using u by (simp add: memmove_at [OF assms] word_le_nat_alt word_less_nat_alt)
qed

theorem memmove_overlap_safe_witness:
  "memmove (\<lambda>a. ucast a) 0x102 0x100 8 0x105 = 3 \<and> memmove (\<lambda>a. ucast a) 0x102 0x100 8 0x101 = 1"
proof -
  have "unat (0x102 :: u64) + unat (8 :: u64) < 2 ^ 64" "unat (0x100 :: u64) + unat (8 :: u64) < 2 ^ 64" by simp_all
  note * = memmove_overlap_safe [OF this, of "\<lambda>a. ucast a"]
  have "memmove (\<lambda>a. ucast a) 0x102 0x100 8 (0x102 + 3) = ucast ((0x100 :: u64) + 3)"
    by (rule * [THEN conjunct1, rule_format]) simp
  moreover have "memmove (\<lambda>a. ucast a) 0x102 0x100 8 0x101 = ucast (0x101 :: u64)" using * by simp
  ultimately show ?thesis by simp
qed

text \<open>
  Copying and comparing names: \<open>strncpy\<close> of a string into an array of \<open>n\<close> bytes fills it with the
  string cut to \<open>n\<close> bytes and padded with zeros, and \<open>strncmp\<close> of the result with a string is zero
  exactly when the two strings agree in their first \<open>n\<close> bytes.
\<close>

theorem strncpy_strncmp:
  assumes "cstr s xs" and "cstr t ys" and "length dst = n"
  shows "\<exists>r c. strncpy dst s n = Some r \<and> length r = n \<and> r = take n (xs @ replicate n 0) \<and>
     strncmp t r n = Some c \<and> (c = 0 \<longleftrightarrow> take n xs = take n ys)"
proof -
  let ?r = "take n (xs @ replicate n (0 :: byte))"
  have r: "strncpy dst s n = Some ?r" using strncpy_cstr [OF assms(1), of n dst] assms(3) by simp
  have l: "length ?r = n" by simp
  have "readable_n n t" "readable_n n ?r" using assms(2) by (auto simp: readable_n_def cstr_def)
  then obtain c where c: "strncmp t ?r n = Some c" "c = 0 \<longleftrightarrow> name_of n t = name_of n ?r" using strncmp_names by blast
  have "takeWhile (\<lambda>c. c \<noteq> 0) t = ys" using assms(2) by (auto simp: cstr_def takeWhile_append)
  then have "name_of n t = take n ys" by (simp add: name_of_def)
  moreover have "name_of n ?r = take n xs"
  proof -
    have nz: "\<forall>x\<in>set xs. x \<noteq> 0" using assms(1) by (auto simp: cstr_def)
    have "takeWhile (\<lambda>c. c \<noteq> 0) (xs @ replicate n 0) = xs" using nz by (cases n) (auto simp: takeWhile_append)
    moreover have "takeWhile P (take k zs) = take k (takeWhile P zs)" for P k and zs :: "byte list"
      by (induction zs arbitrary: k) (auto simp: take_Cons')
    ultimately have "takeWhile (\<lambda>c. c \<noteq> 0) ?r = take n xs" by metis
    then show ?thesis by (simp add: name_of_def)
  qed
  ultimately show ?thesis using r l c by auto
qed

theorem strncpy_strncmp_witness:
  "\<exists>r. strncpy [1, 1, 1] [104, 105, 0] 3 = Some r \<and> strncmp [104, 105, 0] r 3 = Some 0"
proof -
  have "cstr [104, 105, 0] [104, 105]" by (simp add: cstr_def)
  from strncpy_strncmp [OF this this, of "[1, 1, 1]" 3] show ?thesis by auto
qed

end
