(* ===== verification/Fs.thy ===== *)
theory Fs
  imports Txn CString
begin

text \<open>
  The file system, \<open>kern/fs.c\<close>: allocation of blocks and inodes, the inode cache, the content of
  inodes, directories and path names. The state adds the super block and the inode cache; an inode
  pointer is an index into the cache, a pointer that may be null an option. Data that is copied to
  or from the caller's memory is passed as a list of bytes: \<open>readi\<close> returns the bytes it stores at
  \<open>dst\<close>, \<open>writei\<close> takes the bytes at \<open>src\<close>. The device table \<open>devsw\<close> is an argument of the routines
  that reach it. Messages printed by \<open>cprintf\<close> are left out.
\<close>

unbundle bit_operations_syntax

section \<open>The state\<close>

definition NDEV :: nat where "NDEV = 10"
definition NINODE :: nat where "NINODE = 50"
definition ROOTDEV :: u32 where "ROOTDEV = 1"
definition ROOTINO :: u32 where "ROOTINO = 1"
definition T_DIR :: u16 where "T_DIR = 1"
definition T_FILE :: u16 where "T_FILE = 2"
definition T_DEV :: u16 where "T_DEV = 3"

declare NDEV_def [const_defs] NINODE_def [const_defs] T_DIR_def [const_defs] T_FILE_def [const_defs] T_DEV_def [const_defs]

record inode =
  i_dev :: u32
  i_inum :: u32
  i_ref :: int
  i_valid :: bool
  i_type :: u16
  i_major :: u16
  i_minor :: u16
  i_nlink :: u16
  i_size :: u32
  i_addrs :: "u32 list"

record fsstate = logstate +
  fs_sb :: superblock
  icache :: "nat \<Rightarrow> inode"

text \<open>The functions of a device: how it reads and writes on behalf of an inode.\<close>

record 's devsw =
  dev_read :: "(nat \<Rightarrow> u64 \<Rightarrow> ('s, int \<times> byte list) kop) option"
  dev_write :: "(nat \<Rightarrow> byte list \<Rightarrow> u64 \<Rightarrow> ('s, int) kop) option"

definition set_inode :: "nat \<Rightarrow> (inode \<Rightarrow> inode) \<Rightarrow> ('z fsstate_scheme, unit) kop" where
  "set_inode ip f = upd (\<lambda>s. s\<lparr>icache := (icache s)(ip := f (icache s ip))\<rparr>)"

abbreviation inode_of :: "nat \<Rightarrow> ('z fsstate_scheme, inode) kop" where
  "inode_of ip \<equiv> get (\<lambda>s. icache s ip)"

lemma set_inode_run [kop_simps]:
  "set_inode ip f s = Inr ((), s\<lparr>icache := (icache s)(ip := f (icache s ip))\<rparr>)"
  by (simp add: set_inode_def kop_simps)

definition IBLOCK :: "u32 \<Rightarrow> superblock \<Rightarrow> u32" where
  "IBLOCK i sb = i div IPB + sb_inodestart sb"

definition BBLOCK :: "u32 \<Rightarrow> superblock \<Rightarrow> u32" where
  "BBLOCK b sb = b div BPB + sb_bmapstart sb"

text \<open>\<open>(struct dinode *)bp->data + inum % IPB\<close>\<close>

definition dinode_off :: "u32 \<Rightarrow> nat" where
  "dinode_off inum = 64 * unat (inum mod IPB)"

section \<open>Blocks\<close>

definition bzero :: "u32 \<Rightarrow> u32 \<Rightarrow> ('z logstate_scheme, unit) kop" where
  "bzero dev bno =
     bind (bread dev bno) (\<lambda>bp.
     seq (buf_write bp (\<lambda>_. replicate BSIZE 0))
     (seq (log_write bp)
     (brelse bp)))"

text \<open>The bit of the bitmap for the block \<open>bi\<close> of its bitmap block.\<close>

definition bm_mask :: "nat \<Rightarrow> byte" where
  "bm_mask bi = push_bit (bi mod 8) 1"

definition bm_used :: "byte list \<Rightarrow> nat \<Rightarrow> bool" where
  "bm_used d bi \<longleftrightarrow> d ! (bi div 8) AND bm_mask bi \<noteq> 0"

definition bm_set :: "nat \<Rightarrow> byte list \<Rightarrow> byte list" where
  "bm_set bi d = d[bi div 8 := d ! (bi div 8) OR bm_mask bi]"

definition bm_clear :: "nat \<Rightarrow> byte list \<Rightarrow> byte list" where
  "bm_clear bi d = d[bi div 8 := d ! (bi div 8) AND NOT (bm_mask bi)]"

text \<open>The inner loop of \<open>balloc\<close>: the first clear bit for a block below \<open>sz\<close>.\<close>

definition balloc_bit :: "byte list \<Rightarrow> u32 \<Rightarrow> u32 \<Rightarrow> nat option" where
  "balloc_bit d sz b =
     List.find (\<lambda>bi. \<not> bm_used d bi) (takeWhile (\<lambda>bi. unat b + bi < unat sz) [0..<unat BPB])"

fun balloc_loop :: "u32 \<Rightarrow> u32 list \<Rightarrow> ('z fsstate_scheme, u32) kop" where
  "balloc_loop dev [] = panic ''balloc: out of blocks''"
| "balloc_loop dev (b # bs) =
     bind (get fs_sb) (\<lambda>sb.
     bind (bread dev (BBLOCK b sb)) (\<lambda>bp.
     bind (get (bdata bp)) (\<lambda>d.
     case balloc_bit d (sb_size sb) b of
       Some bi \<Rightarrow>
         seq (buf_write bp (bm_set bi))
         (seq (log_write bp)
         (seq (brelse bp)
         (seq (bzero dev (b + of_nat bi))
         (ret (b + of_nat bi)))))
     | None \<Rightarrow> seq (brelse bp) (balloc_loop dev bs))))"

text \<open>\<open>for (b = 0; b < sb.size; b += BPB)\<close>\<close>

definition bitmap_steps :: "superblock \<Rightarrow> u32 list" where
  "bitmap_steps sb = map (\<lambda>k. of_nat k * BPB) [0..<(unat (sb_size sb) + unat BPB - 1) div unat BPB]"

definition balloc :: "u32 \<Rightarrow> ('z fsstate_scheme, u32) kop" where
  "balloc dev = bind (get fs_sb) (\<lambda>sb. balloc_loop dev (bitmap_steps sb))"

definition bfree :: "u32 \<Rightarrow> u32 \<Rightarrow> ('z fsstate_scheme, unit) kop" where
  "bfree dev b =
     bind (get fs_sb) (\<lambda>sb.
     bind (bread dev (BBLOCK b sb)) (\<lambda>bp.
     bind (get (bdata bp)) (\<lambda>d.
     let bi = unat (b mod BPB) in
     if \<not> bm_used d bi then panic ''bfree: freeing a free block''
     else seq (buf_write bp (bm_clear bi))
     (seq (log_write bp)
     (brelse bp)))))"

section \<open>The inode cache\<close>

fun iinit_loop :: "nat list \<Rightarrow> ('z kstate_scheme, unit) kop" where
  "iinit_loop [] = ret ()"
| "iinit_loop (i # is) = seq (initsleeplock (Sinode i) ''inode'') (iinit_loop is)"

definition iinit :: "u32 \<Rightarrow> ('z fsstate_scheme, unit) kop" where
  "iinit dev =
     seq (initlock Licache ''icache'')
     (seq (iinit_loop [0..<NINODE])
     (bind (readsb dev) (\<lambda>sb. upd (\<lambda>s. s\<lparr>fs_sb := sb\<rparr>))))"

text \<open>
  The scan of \<open>iget\<close>: \<open>Inr ip\<close> when the inode is cached, otherwise \<open>Inl\<close> of the first empty slot
  seen, if any.
\<close>

fun iget_scan :: "(nat \<Rightarrow> inode) \<Rightarrow> u32 \<Rightarrow> u32 \<Rightarrow> nat list \<Rightarrow> nat option \<Rightarrow> nat option + nat" where
  "iget_scan c dev inum [] free = Inl free"
| "iget_scan c dev inum (ip # ips) free =
     (if i_ref (c ip) > 0 \<and> i_dev (c ip) = dev \<and> i_inum (c ip) = inum then Inr ip
      else iget_scan c dev inum ips (if free = None \<and> i_ref (c ip) = 0 then Some ip else free))"

definition iget :: "u32 \<Rightarrow> u32 \<Rightarrow> ('z fsstate_scheme, nat) kop" where
  "iget dev inum =
     seq (acquire Licache)
     (bind (get (\<lambda>s. iget_scan (icache s) dev inum [0..<NINODE] None)) (\<lambda>r.
      case r of
        Inr ip \<Rightarrow>
          seq (set_inode ip (\<lambda>i. i\<lparr>i_ref := i_ref i + 1\<rparr>))
          (seq (release Licache) (ret ip))
      | Inl None \<Rightarrow> panic ''iget: no inodes''
      | Inl (Some ip) \<Rightarrow>
          seq (set_inode ip (\<lambda>i. i\<lparr>i_dev := dev, i_inum := inum, i_ref := 1, i_valid := False\<rparr>))
          (seq (release Licache) (ret ip))))"

fun ialloc_loop :: "u32 \<Rightarrow> u16 \<Rightarrow> u32 list \<Rightarrow> ('z fsstate_scheme, nat) kop" where
  "ialloc_loop dev type [] = panic ''ialloc: no inodes''"
| "ialloc_loop dev type (inum # is) =
     bind (get fs_sb) (\<lambda>sb.
     bind (bread dev (IBLOCK inum sb)) (\<lambda>bp.
     bind (get (bdata bp)) (\<lambda>d.
     if di_type (read_dinode (dinode_off inum) d) = 0 then
       seq (buf_write bp (\<lambda>d. put16 (dinode_off inum) type (splice (dinode_off inum) (replicate 64 0) d)))
       (seq (log_write bp)
       (seq (brelse bp)
       (iget dev inum)))
     else seq (brelse bp) (ialloc_loop dev type is))))"

definition ialloc :: "u32 \<Rightarrow> u16 \<Rightarrow> ('z fsstate_scheme, nat) kop" where
  "ialloc dev type = bind (get fs_sb) (\<lambda>sb. ialloc_loop dev type (map of_nat [1..<unat (sb_ninodes sb)]))"

text \<open>The part of an inode that lives on the disk.\<close>

definition disk_part :: "inode \<Rightarrow> dinode" where
  "disk_part i = \<lparr>di_type = i_type i, di_major = i_major i, di_minor = i_minor i, di_nlink = i_nlink i,
     di_size = i_size i, di_addrs = i_addrs i\<rparr>"

definition load_part :: "dinode \<Rightarrow> inode \<Rightarrow> inode" where
  "load_part di i = i\<lparr>i_type := di_type di, i_major := di_major di, i_minor := di_minor di, i_nlink := di_nlink di,
     i_size := di_size di, i_addrs := di_addrs di\<rparr>"

definition iupdate :: "nat \<Rightarrow> ('z fsstate_scheme, unit) kop" where
  "iupdate ip =
     bind (inode_of ip) (\<lambda>i.
     bind (get fs_sb) (\<lambda>sb.
     bind (bread (i_dev i) (IBLOCK (i_inum i) sb)) (\<lambda>bp.
     seq (buf_write bp (write_dinode (dinode_off (i_inum i)) (disk_part i)))
     (seq (log_write bp)
     (brelse bp)))))"

definition idup :: "nat option \<Rightarrow> ('z fsstate_scheme, nat) kop" where
  "idup ipp =
     seq (acquire Licache)
     (deref ipp (\<lambda>ip.
      seq (set_inode ip (\<lambda>i. i\<lparr>i_ref := i_ref i + 1\<rparr>))
      (seq (release Licache)
      (ret ip))))"

text \<open>The message printed before the panic reads \<open>ip->ref\<close>, which faults on a null pointer.\<close>

definition ilock :: "nat option \<Rightarrow> ('z fsstate_scheme, unit) kop" where
  "ilock ipp = deref ipp (\<lambda>ip.
     bind (inode_of ip) (\<lambda>i.
     if i_ref i < 1 then panic ''ilock: invalid inode''
     else seq (acquiresleep (Sinode ip))
     (bind (inode_of ip) (\<lambda>i.
      if i_valid i then ret ()
      else bind (get fs_sb) (\<lambda>sb.
        bind (bread (i_dev i) (IBLOCK (i_inum i) sb)) (\<lambda>bp.
        bind (get (bdata bp)) (\<lambda>d.
        seq (set_inode ip (load_part (read_dinode (dinode_off (i_inum i)) d)))
        (seq (brelse bp)
        (seq (set_inode ip (\<lambda>i. i\<lparr>i_valid := True\<rparr>))
        (bind (inode_of ip) (\<lambda>i. if i_type i = 0 then panic ''ilock: no type'' else ret ())))))))))))"

definition iunlock :: "nat option \<Rightarrow> ('z fsstate_scheme, unit) kop" where
  "iunlock ipp = (case ipp of None \<Rightarrow> panic ''iunlock'' | Some ip \<Rightarrow>
     bind (holdingsleep (Sinode ip)) (\<lambda>h.
     bind (inode_of ip) (\<lambda>i.
     if \<not> h \<or> i_ref i < 1 then panic ''iunlock''
     else releasesleep (Sinode ip))))"

section \<open>Inode content\<close>

definition bmap :: "nat \<Rightarrow> u32 \<Rightarrow> ('z fsstate_scheme, u32) kop" where
  "bmap ip bn =
     bind (inode_of ip) (\<lambda>i.
     if bn < of_nat NDIRECT then
       let addr = i_addrs i ! unat bn in
       if addr = 0 then
         bind (balloc (i_dev i)) (\<lambda>addr.
         seq (set_inode ip (\<lambda>i. i\<lparr>i_addrs := (i_addrs i)[unat bn := addr]\<rparr>))
         (ret addr))
       else ret addr
     else let bn = bn - of_nat NDIRECT in
     if bn < of_nat NINDIRECT then
       bind (if i_addrs i ! NDIRECT = 0 then
           bind (balloc (i_dev i)) (\<lambda>addr.
           seq (set_inode ip (\<lambda>i. i\<lparr>i_addrs := (i_addrs i)[NDIRECT := addr]\<rparr>))
           (ret addr))
         else ret (i_addrs i ! NDIRECT)) (\<lambda>addr.
       bind (bread (i_dev i) addr) (\<lambda>bp.
       bind (get (bdata bp)) (\<lambda>a.
       let addr = get32 (4 * unat bn) a in
       bind (if addr = 0 then
           bind (balloc (i_dev i)) (\<lambda>addr.
           seq (buf_write bp (put32 (4 * unat bn) addr))
           (seq (log_write bp)
           (ret addr)))
         else ret addr) (\<lambda>addr.
       seq (brelse bp) (ret addr)))))
     else panic ''bmap: out of range'')"

fun itrunc_direct :: "nat \<Rightarrow> nat list \<Rightarrow> ('z fsstate_scheme, unit) kop" where
  "itrunc_direct ip [] = ret ()"
| "itrunc_direct ip (k # ks) =
     bind (inode_of ip) (\<lambda>i.
     seq (if i_addrs i ! k \<noteq> 0 then
         seq (bfree (i_dev i) (i_addrs i ! k))
         (set_inode ip (\<lambda>i. i\<lparr>i_addrs := (i_addrs i)[k := 0]\<rparr>))
       else ret ())
     (itrunc_direct ip ks))"

fun itrunc_indirect :: "u32 \<Rightarrow> nat \<Rightarrow> nat list \<Rightarrow> ('z fsstate_scheme, unit) kop" where
  "itrunc_indirect dev bp [] = ret ()"
| "itrunc_indirect dev bp (j # js) =
     bind (get (bdata bp)) (\<lambda>a.
     seq (if get32 (4 * j) a \<noteq> 0 then bfree dev (get32 (4 * j) a) else ret ())
     (itrunc_indirect dev bp js))"

definition itrunc :: "nat \<Rightarrow> ('z fsstate_scheme, unit) kop" where
  "itrunc ip =
     seq (itrunc_direct ip [0..<NDIRECT])
     (bind (inode_of ip) (\<lambda>i.
     seq (if i_addrs i ! NDIRECT \<noteq> 0 then
         bind (bread (i_dev i) (i_addrs i ! NDIRECT)) (\<lambda>bp.
         seq (itrunc_indirect (i_dev i) bp [0..<NINDIRECT])
         (seq (brelse bp)
         (seq (bfree (i_dev i) (i_addrs i ! NDIRECT))
         (set_inode ip (\<lambda>i. i\<lparr>i_addrs := (i_addrs i)[NDIRECT := 0]\<rparr>)))))
       else ret ())
     (seq (set_inode ip (\<lambda>i. i\<lparr>i_size := 0\<rparr>))
     (iupdate ip))))"

definition iput :: "nat \<Rightarrow> ('z fsstate_scheme, unit) kop" where
  "iput ip =
     seq (acquiresleep (Sinode ip))
     (bind (inode_of ip) (\<lambda>i.
     seq (if i_valid i \<and> i_nlink i = 0 then
         seq (acquire Licache)
         (bind (inode_of ip) (\<lambda>i.
         let r = i_ref i in
         seq (release Licache)
         (if r = 1 then
            seq (itrunc ip)
            (seq (set_inode ip (\<lambda>i. i\<lparr>i_type := 0\<rparr>))
            (seq (iupdate ip)
            (set_inode ip (\<lambda>i. i\<lparr>i_valid := False\<rparr>))))
          else ret ())))
       else ret ())
     (seq (releasesleep (Sinode ip))
     (seq (acquire Licache)
     (seq (set_inode ip (\<lambda>i. i\<lparr>i_ref := i_ref i - 1\<rparr>))
     (release Licache))))))"

definition iunlockput :: "nat \<Rightarrow> ('z fsstate_scheme, unit) kop" where
  "iunlockput ip = seq (iunlock (Some ip)) (iput ip)"

record stat =
  st_dev :: u32
  st_ino :: u32
  st_nlink :: u16
  st_size :: u32
  st_mode :: u32

definition S_IFREG :: u32 where "S_IFREG = 0x8000"
definition S_IFDIR :: u32 where "S_IFDIR = 0x4000"

definition stati :: "nat \<Rightarrow> ('z fsstate_scheme, stat) kop" where
  "stati ip =
     bind (inode_of ip) (\<lambda>i.
     let st = \<lparr>st_dev = i_dev i, st_ino = i_inum i, st_nlink = i_nlink i, st_size = i_size i, st_mode = 0\<rparr> in
     if i_type i = T_FILE then ret (st\<lparr>st_mode := S_IFREG\<rparr>)
     else if i_type i = T_DIR then ret (st\<lparr>st_mode := S_IFDIR\<rparr>)
     else if i_type i = T_DEV then ret (st\<lparr>st_mode := 0\<rparr>)
     else panic ''unexpected stat type'')"

text \<open>\<open>min(n - tot, BSIZE - off%BSIZE)\<close>\<close>

definition chunk :: "u64 \<Rightarrow> u64 \<Rightarrow> u64 \<Rightarrow> u64" where
  "chunk off n tot = min (n - tot) (of_nat BSIZE - off mod of_nat BSIZE)"

lemma mod_BSIZE: "off mod (of_nat BSIZE :: u64) < 512" "of_nat BSIZE - off mod (of_nat BSIZE :: u64) \<noteq> 0"
proof -
  show a: "off mod (of_nat BSIZE :: u64) < 512"
    by (simp add: BSIZE_def word_less_nat_alt unat_mod_distrib)
  show "of_nat BSIZE - off mod (of_nat BSIZE :: u64) \<noteq> 0" using a by (auto simp: BSIZE_def)
qed

lemma chunk_bounds:
  assumes "tot < n"
  shows "0 < unat (chunk off n tot)" "unat tot + unat (chunk off n tot) \<le> unat n"
    "unat (tot + chunk off n tot) = unat tot + unat (chunk off n tot)"
proof -
  have d: "unat (n - tot) = unat n - unat tot" using assms by (simp add: unat_sub_if' word_less_nat_alt)
  have "n - tot \<noteq> 0" using assms by auto
  then have "chunk off n tot \<noteq> 0" using mod_BSIZE(2) [of off] by (simp add: chunk_def min_def)
  then show "0 < unat (chunk off n tot)" by (simp add: unat_gt_0)
  have "chunk off n tot \<le> n - tot" by (simp add: chunk_def)
  then have "unat (chunk off n tot) \<le> unat n - unat tot" using d by (simp add: word_le_nat_alt)
  then show b: "unat tot + unat (chunk off n tot) \<le> unat n" using assms by (simp add: word_less_nat_alt)
  then show "unat (tot + chunk off n tot) = unat tot + unat (chunk off n tot)"
    using unat_less_64 [of n] by (simp add: unat_word_ariths)
qed

function readi_loop :: "nat \<Rightarrow> u64 \<Rightarrow> u64 \<Rightarrow> u64 \<Rightarrow> ('z fsstate_scheme, byte list) kop" where
  "readi_loop ip off n tot =
     (if \<not> tot < n then ret []
      else let m = chunk off n tot in
        bind (bmap ip (ucast (off div of_nat BSIZE))) (\<lambda>addr.
        bind (inode_of ip) (\<lambda>i.
        bind (bread (i_dev i) addr) (\<lambda>bp.
        bind (get (bdata bp)) (\<lambda>d.
        seq (brelse bp)
        (bind (readi_loop ip (off + m) n (tot + m)) (\<lambda>rest.
        ret (slice (unat (off mod of_nat BSIZE)) (unat m) d @ rest))))))))"
  by pat_completeness auto
termination
proof (relation "measure (\<lambda>(ip, off, n, tot). unat n - unat tot)", goal_cases)
  case (2 ip off n tot m)
  then show ?case using chunk_bounds [of tot n off] by simp
qed simp

definition readi :: "(nat \<Rightarrow> 'z fsstate_scheme devsw) \<Rightarrow> nat \<Rightarrow> u64 \<Rightarrow> u64 \<Rightarrow> ('z fsstate_scheme, int \<times> byte list) kop" where
  "readi dsw ip off n =
     bind (inode_of ip) (\<lambda>i.
     if i_type i = T_DEV then
       (if unat (i_major i) \<ge> NDEV then ret (-1, [])
        else case dev_read (dsw (unat (i_major i))) of
          None \<Rightarrow> ret (-1, [])
        | Some rd \<Rightarrow> rd ip n)
     else if off > ucast (i_size i) \<or> off + n < off then ret (-1, [])
     else let n = (if off + n > ucast (i_size i) then ucast (i_size i) - off else n) in
       bind (readi_loop ip off n 0) (\<lambda>bs.
       ret (sint n, bs)))"

function writei_loop :: "nat \<Rightarrow> byte list \<Rightarrow> u64 \<Rightarrow> u64 \<Rightarrow> u64 \<Rightarrow> ('z fsstate_scheme, u64) kop" where
  "writei_loop ip src off n tot =
     (if \<not> tot < n then ret off
      else let m = chunk off n tot in
        bind (bmap ip (ucast (off div of_nat BSIZE))) (\<lambda>addr.
        bind (inode_of ip) (\<lambda>i.
        bind (bread (i_dev i) addr) (\<lambda>bp.
        if length src < unat m then stop Fault
        else seq (buf_write bp (splice (unat (off mod of_nat BSIZE)) (take (unat m) src)))
        (seq (log_write bp)
        (seq (brelse bp)
        (writei_loop ip (drop (unat m) src) (off + m) n (tot + m))))))))"
  by pat_completeness auto
termination
proof (relation "measure (\<lambda>(ip, src, off, n, tot). unat n - unat tot)", goal_cases)
  case (2 ip src off n tot m)
  then show ?case using chunk_bounds [of tot n off] by simp
qed simp

declare readi_loop.simps [simp del] writei_loop.simps [simp del]

definition writei :: "(nat \<Rightarrow> 'z fsstate_scheme devsw) \<Rightarrow> nat \<Rightarrow> byte list \<Rightarrow> u64 \<Rightarrow> u64 \<Rightarrow> ('z fsstate_scheme, int) kop" where
  "writei dsw ip src off n =
     bind (inode_of ip) (\<lambda>i.
     if i_type i = T_DEV then
       (if unat (i_major i) \<ge> NDEV then ret (-1)
        else case dev_write (dsw (unat (i_major i))) of
          None \<Rightarrow> ret (-1)
        | Some wr \<Rightarrow> wr ip src n)
     else if off > ucast (i_size i) \<or> off + n < off then ret (-1)
     else if off + n > of_nat (MAXFILE * BSIZE) then ret (-1)
     else bind (writei_loop ip src off n 0) (\<lambda>off.
       bind (inode_of ip) (\<lambda>i.
       seq (if n > 0 \<and> off > ucast (i_size i) then
           seq (set_inode ip (\<lambda>i. i\<lparr>i_size := ucast off\<rparr>)) (iupdate ip)
         else ret ())
       (ret (sint n)))))"

section \<open>Directories\<close>

definition namecmp :: "byte list \<Rightarrow> byte list \<Rightarrow> int option" where
  "namecmp s t = strncmp s t DIRSIZ"

text \<open>
  The scan of a directory, entry by entry. \<open>fuel\<close> bounds the number of entries; the size of the
  directory divided by the size of an entry is enough.
\<close>

fun dirlookup_loop :: "(nat \<Rightarrow> 'z fsstate_scheme devsw) \<Rightarrow> nat \<Rightarrow> nat \<Rightarrow> byte list \<Rightarrow> u64 \<Rightarrow>
    ('z fsstate_scheme, (nat \<times> u64) option) kop" where
  "dirlookup_loop dsw 0 dp name off = stop Diverge"
| "dirlookup_loop dsw (Suc fuel) dp name off =
     bind (inode_of dp) (\<lambda>d.
     if \<not> off < ucast (i_size d) then ret None
     else bind (readi dsw dp off 16) (\<lambda>(r, bs).
       if r \<noteq> 16 then panic ''dirlookup read''
       else let de = read_dirent bs in
       if de_inum de = 0 then dirlookup_loop dsw fuel dp name (off + 16)
       else case namecmp name (de_name de) of
         None \<Rightarrow> stop Fault
       | Some c \<Rightarrow>
           if c = 0 then
             bind (inode_of dp) (\<lambda>d.
             bind (iget (i_dev d) (ucast (de_inum de))) (\<lambda>ip. ret (Some (ip, off))))
           else dirlookup_loop dsw fuel dp name (off + 16)))"

definition dirlookup :: "(nat \<Rightarrow> 'z fsstate_scheme devsw) \<Rightarrow> nat \<Rightarrow> byte list \<Rightarrow>
    ('z fsstate_scheme, (nat \<times> u64) option) kop" where
  "dirlookup dsw dp name =
     bind (inode_of dp) (\<lambda>d.
     if i_type d \<noteq> T_DIR then panic ''dirlookup not DIR''
     else dirlookup_loop dsw (unat (i_size d) div 16 + 2) dp name 0)"

fun dirlink_slot :: "(nat \<Rightarrow> 'z fsstate_scheme devsw) \<Rightarrow> nat \<Rightarrow> nat \<Rightarrow> u64 \<Rightarrow> ('z fsstate_scheme, u64) kop" where
  "dirlink_slot dsw 0 dp off = stop Diverge"
| "dirlink_slot dsw (Suc fuel) dp off =
     bind (inode_of dp) (\<lambda>d.
     if \<not> off < ucast (i_size d) then ret off
     else bind (readi dsw dp off 16) (\<lambda>(r, bs).
       if r \<noteq> 16 then panic ''dirlink read''
       else if de_inum (read_dirent bs) = 0 then ret off
       else dirlink_slot dsw fuel dp (off + 16)))"

text \<open>Both fields of the entry are overwritten whole, so its content before does not matter.\<close>

definition dirlink :: "(nat \<Rightarrow> 'z fsstate_scheme devsw) \<Rightarrow> nat \<Rightarrow> byte list \<Rightarrow> u32 \<Rightarrow> ('z fsstate_scheme, int) kop" where
  "dirlink dsw dp name inum =
     bind (dirlookup dsw dp name) (\<lambda>r.
     case r of
       Some (ip, _) \<Rightarrow> seq (iput ip) (ret (-1))
     | None \<Rightarrow>
         bind (inode_of dp) (\<lambda>d.
         bind (dirlink_slot dsw (unat (i_size d) div 16 + 2) dp 0) (\<lambda>off.
         case strncpy (replicate DIRSIZ 0) name DIRSIZ of
           None \<Rightarrow> stop Fault
         | Some nm \<Rightarrow>
             bind (writei dsw dp (write_dirent \<lparr>de_inum = ucast inum, de_name = nm\<rparr>) off 16) (\<lambda>r.
             if r \<noteq> 16 then panic ''dirlink'' else ret 0))))"

section \<open>Paths\<close>

text \<open>
  \<open>skipelem\<close> splits a path. The result is \<open>None\<close> when the routine reads past the end of the string,
  \<open>Some None\<close> when there is no element, and otherwise the rest of the path and the array \<open>name\<close>.
\<close>

definition SLASH :: byte where "SLASH = 47"

definition skipelem :: "byte list \<Rightarrow> byte list \<Rightarrow> (byte list \<times> byte list) option option" where
  "skipelem path name =
     (let s = dropWhile (\<lambda>c. c = SLASH) path in
      case s of
        [] \<Rightarrow> None
      | c # _ \<Rightarrow>
          if c = 0 then Some None
          else let elem = takeWhile (\<lambda>c. c \<noteq> SLASH \<and> c \<noteq> 0) s;
                   rest = dropWhile (\<lambda>c. c \<noteq> SLASH \<and> c \<noteq> 0) s;
                   len = length elem;
                   name' = (if len \<ge> DIRSIZ then splice 0 (take DIRSIZ s) name
                            else (splice 0 (take len s) name)[len := 0]);
                   path' = dropWhile (\<lambda>c. c = SLASH) rest in
            if rest = [] \<or> path' = [] then None else Some (Some (path', name')))"

text \<open>The loop of \<open>namex\<close>; every round consumes at least one character of the path.\<close>

fun namex_loop :: "(nat \<Rightarrow> 'z fsstate_scheme devsw) \<Rightarrow> nat \<Rightarrow> byte list \<Rightarrow> bool \<Rightarrow> byte list \<Rightarrow> nat \<Rightarrow>
    ('z fsstate_scheme, nat option \<times> byte list) kop" where
  "namex_loop dsw 0 path nameiparent name ip = stop Diverge"
| "namex_loop dsw (Suc fuel) path nameiparent name ip =
     (case skipelem path name of
        None \<Rightarrow> stop Fault
      | Some None \<Rightarrow>
          if nameiparent then seq (iput ip) (ret (None, name))
          else ret (Some ip, name)
      | Some (Some (path, name)) \<Rightarrow>
          seq (ilock (Some ip))
          (bind (inode_of ip) (\<lambda>i.
          if i_type i \<noteq> T_DIR then seq (iunlockput ip) (ret (None, name))
          else if nameiparent \<and> hd path = 0 then seq (iunlock (Some ip)) (ret (Some ip, name))
          else bind (dirlookup dsw ip name) (\<lambda>r.
            case r of
              None \<Rightarrow> seq (iunlockput ip) (ret (None, name))
            | Some (child, _) \<Rightarrow>
                seq (iunlockput ip)
                (namex_loop dsw fuel path nameiparent name child)))))"

definition namex :: "(nat \<Rightarrow> 'z fsstate_scheme devsw) \<Rightarrow> byte list \<Rightarrow> bool \<Rightarrow> byte list \<Rightarrow>
    ('z fsstate_scheme, nat option \<times> byte list) kop" where
  "namex dsw path nameiparent name =
     (case path of
        [] \<Rightarrow> stop Fault
      | c # _ \<Rightarrow>
          bind (if c = SLASH then iget ROOTDEV ROOTINO
            else bind (get thisproc) (\<lambda>p. deref p (\<lambda>p. bind (get (\<lambda>s. p_cwd (ptable s p))) idup))) (\<lambda>ip.
          namex_loop dsw (Suc (length path)) path nameiparent name ip))"

definition namei :: "(nat \<Rightarrow> 'z fsstate_scheme devsw) \<Rightarrow> byte list \<Rightarrow> ('z fsstate_scheme, nat option) kop" where
  "namei dsw path = bind (namex dsw path False (replicate DIRSIZ 0)) (\<lambda>(ip, _). ret ip)"

definition nameiparent :: "(nat \<Rightarrow> 'z fsstate_scheme devsw) \<Rightarrow> byte list \<Rightarrow> byte list \<Rightarrow>
    ('z fsstate_scheme, nat option \<times> byte list) kop" where
  "nameiparent dsw path name = namex dsw path True name"

end
