(* ===== verification/Falloc.thy ===== *)
theory Falloc
  imports Fs
begin

text \<open>
  Allocation of disk blocks: rules for the steps of a transaction (reading, changing and releasing
  a block under the log), the meaning of the bitmap, the layout of the disk, and the effect of
  \<open>balloc\<close> and \<open>bfree\<close> of \<open>kern/fs.c\<close> on the view of the blocks.
\<close>

unbundle bit_operations_syntax

lemma runs_set_inode [simp]:
  "runs (set_inode ip g) s Q \<longleftrightarrow> Q () (s\<lparr>icache := (icache s)(ip := g (icache s ip))\<rparr>)"
  "runs (bind (set_inode ip g) f) s R \<longleftrightarrow> runs (f ()) (s\<lparr>icache := (icache s)(ip := g (icache s ip))\<rparr>) R"
  by (simp_all add: set_inode_def)

section \<open>Room in the transaction\<close>

definition spare :: "nat \<Rightarrow> bstore \<Rightarrow> nat \<Rightarrow> bool" where
  "spare cap a k \<longleftrightarrow> finite (bs_dirty a) \<and> finite (dom (bs_held a)) \<and> card (bs_dirty a \<union> dom (bs_held a)) + k \<le> cap"

lemma spare_less: "spare cap a (Suc k) \<Longrightarrow> card (bs_dirty a) < cap"
proof -
  assume s: "spare cap a (Suc k)"
  then have "card (bs_dirty a) \<le> card (bs_dirty a \<union> dom (bs_held a))" by (intro card_mono) (auto simp: spare_def)
  then show ?thesis using s by (simp add: spare_def)
qed

lemma spare_mono: "spare cap a k \<Longrightarrow> j \<le> k \<Longrightarrow> spare cap a j"
  by (simp add: spare_def)

lemma log_ok_cap: "log_ok D st cap s \<Longrightarrow> cap < NBUF"
  by (simp add: log_ok_def log_inv_def LOGSIZE_def NBUF_def)

lemma spare_room: "log_ok D st cap s \<Longrightarrow> spare cap a k \<Longrightarrow> room a b"
  using log_ok_cap [of D st cap s] by (simp add: room_def spare_def)

lemma spare_dirty:
  assumes "spare cap a (Suc k)" and "bs_dirty a' = insert b (bs_dirty a)" and "dom (bs_held a') = dom (bs_held a)"
  shows "spare cap a' k"
  using assms card_insert_le_m1 [of "Suc (card (bs_dirty a \<union> dom (bs_held a)))" "bs_dirty a \<union> dom (bs_held a)" b]
  by (auto simp: spare_def card_insert_if split: if_splits)

lemma spare_held:
  assumes "spare cap a (Suc k)" and "bs_dirty a' = bs_dirty a" and "dom (bs_held a') = insert b (dom (bs_held a))"
  shows "spare cap a' k"
  using assms by (auto simp: spare_def card_insert_if split: if_splits)

lemma spare_same:
  assumes "spare cap a k" and "bs_dirty a' = insert b (bs_dirty a)" "b \<in> dom (bs_held a)" and "dom (bs_held a') = dom (bs_held a)"
  shows "spare cap a' k"
  using assms by (simp add: spare_def insert_absorb)

section \<open>Steps of a transaction\<close>

definition txs :: "u32 \<Rightarrow> u32 \<Rightarrow> nat \<Rightarrow> 'z logstate_scheme \<Rightarrow> bstore \<Rightarrow> 'z logstate_scheme \<Rightarrow> bool" where
  "txs D st cap s a t \<longleftrightarrow> log_ok D st cap t \<and> lframe s t \<and> babs D t = a"

lemma txs_refl: "log_ok D st cap s \<Longrightarrow> txs D st cap s (babs D s) s"
  by (simp add: txs_def)

lemma txs_trans: "txs D st cap s a t \<Longrightarrow> txs D st cap t b u \<Longrightarrow> txs D st cap s b u"
  using lframe_trans by (auto simp: txs_def)

lemma txsD: "txs D st cap s a t \<Longrightarrow> log_ok D st cap t" "txs D st cap s a t \<Longrightarrow> lframe s t" "txs D st cap s a t \<Longrightarrow> babs D t = a"
  by (simp_all add: txs_def)

lemma more_fs:
  fixes s t :: "'z fsstate_scheme"
  assumes "logstate.more t = logstate.more s"
  shows "fs_sb t = fs_sb s" "icache t = icache s" "fsstate.more t = fsstate.more s"
  using assms by (cases s; cases t; simp)+

lemma txs_fs:
  fixes s t :: "'z fsstate_scheme"
  assumes "txs D st cap s a t"
  shows "fs_sb t = fs_sb s" "icache t = icache s" "fsstate.more t = fsstate.more s"
  using more_fs [OF lframe_fields(6) [OF txsD(2) [OF assms]]] .

lemma bread_tx:
  assumes "log_ok D st cap s" "bs_held (babs D s) b = None" "spare cap (babs D s) k"
  shows "runs (bread D b) s (\<lambda>i t. txs D st cap s ((babs D s)\<lparr>bs_held := (bs_held (babs D s))(b \<mapsto> i)\<rparr>) t \<and>
     bdata i t = bs_view (babs D s) b)"
proof -
  from ls.rd_ok [OF assms(1,2) spare_room [OF assms(1,3)]] obtain i t where
    t: "bread D b s = Inr (i, t)" "log_ok D st cap t" "lframe s t" "babs D t = (babs D s)\<lparr>bs_held := (bs_held (babs D s))(b \<mapsto> i)\<rparr>" by blast
  have "bdata i t = bs_view (babs D s) b" using ls.dat_ok [OF t(2), of b i] t(4) by simp
  then show ?thesis using t by (auto simp: runs_def txs_def)
qed

lemma brelse_tx:
  assumes "log_ok D st cap s" "bs_held (babs D s) b = Some i"
    "b \<in> bs_dirty (babs D s) \<or> bs_view (babs D s) b = bs_disk (babs D s) b"
  shows "runs (brelse i) s (\<lambda>_ t. txs D st cap s ((babs D s)\<lparr>bs_held := (bs_held (babs D s))(b := None)\<rparr>) t)"
  using ls.rel_ok [OF assms] by (auto simp: runs_def txs_def)

lemma read_tx:
  assumes "log_ok D st cap s" "bs_held (babs D s) b = None" "spare cap (babs D s) k"
    and "\<And>i t u. txs D st cap s (babs D s) u \<Longrightarrow> runs (g (bs_view (babs D s) b)) u Q"
  shows "runs (bind (bread D b) (\<lambda>i. bind (get (bdata i)) (\<lambda>d. seq (brelse i) (g d)))) s Q"
proof -
  have r: "room (babs D s) b" by (rule spare_room [OF assms(1,3)])
  from ls.read_block [OF assms(1,2) r, of "\<lambda>d. d"] obtain u where
    u: "bind (bread D b) (\<lambda>i. bind (get (bdata i)) (\<lambda>d. seq (brelse i) (ret d))) s = Inr (bs_view (babs D s) b, u)"
    "log_ok D st cap u" "lframe s u" "babs D u = babs D s" by blast
  have "txs D st cap s (babs D s) u" using u by (simp add: txs_def)
  then have "runs (g (bs_view (babs D s) b)) u Q" by (rule assms(4))
  moreover have "bind (bread D b) (\<lambda>i. bind (get (bdata i)) (\<lambda>d. seq (brelse i) (g d))) s =
     bind (bind (bread D b) (\<lambda>i. bind (get (bdata i)) (\<lambda>d. seq (brelse i) (ret d)))) g s"
    by (simp add: bind_assoc)
  ultimately show ?thesis using u(1) by (simp add: runs_def bind_run_Inr)
qed

lemma write_tx:
  assumes "log_ok D st cap s" "bs_held (babs D s) b = Some i" "log_free st b" "spare cap (babs D s) (Suc k)"
    "length (f (bs_view (babs D s) b)) = BSIZE"
  shows "runs (seq (buf_write i f) (seq (log_write i) (brelse i))) s
     (\<lambda>_ t. txs D st cap s ((babs D s)\<lparr>bs_view := (bs_view (babs D s))(b := f (bs_view (babs D s) b)),
        bs_dirty := insert b (bs_dirty (babs D s)), bs_held := (bs_held (babs D s))(b := None)\<rparr>) t)"
proof -
  have d: "bdata i s = bs_view (babs D s) b" by (rule ls.dat_ok [OF assms(1,2)])
  from ls.finish_block [OF assms(1-3) spare_less [OF assms(4)] assms(5)] show ?thesis
    by (auto simp: runs_def txs_def buf_write_def d bind_def)
qed

lemma modify_tx:
  assumes "log_ok D st cap s" "bs_held (babs D s) b = None" "log_free st b" "spare cap (babs D s) (Suc k)"
    "length (f (bs_view (babs D s) b)) = BSIZE"
  shows "runs (bind (bread D b) (\<lambda>i. seq (buf_write i f) (seq (log_write i) (brelse i)))) s
     (\<lambda>_ t. txs D st cap s ((babs D s)\<lparr>bs_view := (bs_view (babs D s))(b := f (bs_view (babs D s) b)),
        bs_dirty := insert b (bs_dirty (babs D s))\<rparr>) t)"
  using ls.update_block [where f = f, OF assms(1,2) spare_room [OF assms(1,4)] assms(3) spare_less [OF assms(4)] assms(5)]
  by (auto simp: runs_def txs_def buf_write_def)

lemma bzero_tx:
  assumes "log_ok D st cap s" "bs_held (babs D s) b = None" "log_free st b" "spare cap (babs D s) (Suc k)"
  shows "runs (bzero D b) s (\<lambda>_ t. txs D st cap s ((babs D s)\<lparr>bs_view := (bs_view (babs D s))(b := replicate BSIZE 0),
        bs_dirty := insert b (bs_dirty (babs D s))\<rparr>) t)"
  unfolding bzero_def using modify_tx [OF assms, of "\<lambda>_. replicate BSIZE 0"] by simp

section \<open>The bitmap\<close>

text \<open>Whether a block is marked in use, and the first block that is not.\<close>

definition blk_used :: "(u32 \<Rightarrow> byte list) \<Rightarrow> superblock \<Rightarrow> u32 \<Rightarrow> bool" where
  "blk_used v sb b = bm_used (v (BBLOCK b sb)) (unat (b mod BPB))"

definition first_free :: "(u32 \<Rightarrow> byte list) \<Rightarrow> superblock \<Rightarrow> nat option" where
  "first_free v sb = List.find (\<lambda>n. \<not> blk_used v sb (of_nat n)) [0..<unat (sb_size sb)]"

lemma div_mod_BPB:
  assumes "k * 4096 + bi < 2 ^ 32" and "bi < 4096"
  shows "(of_nat (k * 4096 + bi) :: u32) div BPB = of_nat k" "unat ((of_nat (k * 4096 + bi) :: u32) mod BPB) = bi"
proof -
  have u: "unat (of_nat (k * 4096 + bi) :: u32) = k * 4096 + bi" using assms(1) by (rule unat_of_nat32)
  have k: "k < 2 ^ 32" using assms by simp
  have "unat ((of_nat (k * 4096 + bi) :: u32) div BPB) = k"
    unfolding unat_div_distrib u using assms by (simp add: BPB_def)
  also have "\<dots> = unat (of_nat k :: u32)" using k by (simp add: unat_of_nat)
  finally show "(of_nat (k * 4096 + bi) :: u32) div BPB = of_nat k" by (rule unsigned_word_eqI)
  show "unat ((of_nat (k * 4096 + bi) :: u32) mod BPB) = bi"
    unfolding unat_mod_distrib u using assms by (simp add: BPB_def)
qed

text \<open>One step of the outer loop decides the blocks of one bitmap block.\<close>

lemma balloc_bit_find:
  assumes "k * 4096 < unat sz"
  shows "map_option (\<lambda>bi. k * 4096 + bi) (balloc_bit (v (BBLOCK (of_nat k * BPB) sb)) sz (of_nat k * BPB)) =
     List.find (\<lambda>n. \<not> blk_used v sb (of_nat n)) [k * 4096..<min (Suc k * 4096) (unat sz)]"
proof -
  have lim: "unat sz < 2 ^ 32" by (rule unat_less_32)
  then have kb: "of_nat k * BPB = (of_nat (k * 4096 + 0) :: u32)" "k * 4096 < 2 ^ 32" using assms by (simp_all add: BPB_def)
  have ub: "unat (of_nat k * BPB :: u32) = k * 4096" unfolding kb(1) using unat_of_nat32 [of "k * 4096 + 0"] kb(2) by simp
  have up: "[k * 4096..<min (Suc k * 4096) (unat sz)] = map (\<lambda>bi. k * 4096 + bi) [0..<min 4096 (unat sz - k * 4096)]"
    proof -
    have "min (Suc k * 4096) (unat sz) = min 4096 (unat sz - k * 4096) + k * 4096" using assms by auto
    then show ?thesis using map_add_upt [of "k * 4096" "min 4096 (unat sz - k * 4096)"] by (simp add: add.commute)
  qed
  have eq: "(\<not> bm_used (v (BBLOCK (of_nat k * BPB) sb)) bi) = (\<not> blk_used v sb (of_nat (k * 4096 + bi)))"
    if "bi \<in> set [0..<min 4096 (unat sz - k * 4096)]" for bi
  proof -
    have b: "k * 4096 + bi < 2 ^ 32" "bi < 4096" using that lim by auto
    have "(of_nat k * BPB :: u32) div BPB = of_nat k" unfolding kb(1) using div_mod_BPB(1) [of k 0] kb(2) by simp
    then show ?thesis unfolding blk_used_def BBLOCK_def div_mod_BPB [OF b] by simp
  qed
  have fc: "List.find (\<lambda>bi. \<not> bm_used (v (BBLOCK (of_nat k * BPB) sb)) bi) [0..<min 4096 (unat sz - k * 4096)] =
      List.find (\<lambda>bi. \<not> blk_used v sb (of_nat (k * 4096 + bi))) [0..<min 4096 (unat sz - k * 4096)]"
    by (rule find_cong) (rule eq)
  have "unat BPB = 4096" by (simp add: BPB_def)
  then show ?thesis unfolding balloc_bit_def ub up takeWhile_upt find_map by (simp only: fc)
qed

lemma balloc_skip:
  assumes ok: "log_ok D st cap s" and h: "bs_held (babs D s) (BBLOCK b (fs_sb s)) = None" and sp: "spare cap (babs D s) k"
    and n: "balloc_bit (bs_view (babs D s) (BBLOCK b (fs_sb s))) (sb_size (fs_sb s)) b = None"
  shows "\<exists>u. txs D st cap s (babs D s) u \<and> balloc_loop D (b # bs) s = balloc_loop D bs u"
proof -
  let ?b = "BBLOCK b (fs_sb s)"
  from bread_tx [OF ok h sp] obtain i t where t: "bread D ?b s = Inr (i, t)"
    "txs D st cap s ((babs D s)\<lparr>bs_held := (bs_held (babs D s))(?b \<mapsto> i)\<rparr>) t" "bdata i t = bs_view (babs D s) ?b"
    by (auto simp: runs_def)
  note ab = txsD(3) [OF t(2)]
  have "?b \<in> bs_dirty (babs D t) \<or> bs_view (babs D t) ?b = bs_disk (babs D t) ?b"
    using ls.coherent [OF ok h] by (auto simp: ab)
  from brelse_tx [OF txsD(1) [OF t(2)] _ this, of i] obtain u where u: "brelse i t = Inr ((), u)"
    "txs D st cap t ((babs D t)\<lparr>bs_held := (bs_held (babs D t))(?b := None)\<rparr>) u"
    by (auto simp: runs_def ab)
  have "(bs_held (babs D s))(?b := None) = bs_held (babs D s)" using h by auto
  then have "txs D st cap s (babs D s) u" using txs_trans [OF t(2) u(2)] by (simp add: ab)
  moreover have "balloc_loop D (b # bs) s = balloc_loop D bs u"
    using t(1,3) u(1) n by (simp add: kop_simps)
  ultimately show ?thesis by blast
qed

definition alloc_effect :: "superblock \<Rightarrow> u32 \<Rightarrow> bstore \<Rightarrow> bstore" where
  "alloc_effect sb b a = a\<lparr>bs_view := (bs_view a)(BBLOCK b sb := bm_set (unat (b mod BPB)) (bs_view a (BBLOCK b sb)),
     b := replicate BSIZE 0), bs_dirty := bs_dirty a \<union> {BBLOCK b sb, b}\<rparr>"

lemma length_bm_set [simp]: "length (bm_set i d) = length d" "length (bm_clear i d) = length d"
  by (simp_all add: bm_set_def bm_clear_def)

lemma balloc_hit:
  assumes ok: "log_ok D st cap s" and h: "bs_held (babs D s) (BBLOCK b (fs_sb s)) = None" "bs_held (babs D s) x = None"
    and sp: "spare cap (babs D s) 2" and x: "x = b + of_nat bi" "BBLOCK x (fs_sb s) = BBLOCK b (fs_sb s)" "unat (x mod BPB) = bi"
    and n: "balloc_bit (bs_view (babs D s) (BBLOCK b (fs_sb s))) (sb_size (fs_sb s)) b = Some bi"
    and fr: "log_free st x" "log_free st (BBLOCK b (fs_sb s))" "x \<noteq> BBLOCK b (fs_sb s)"
  shows "runs (balloc_loop D (b # bs)) s (\<lambda>y t. y = x \<and> txs D st cap s (alloc_effect (fs_sb s) x (babs D s)) t)"
proof -
  let ?b = "BBLOCK b (fs_sb s)" and ?a = "babs D s"
  have two: "spare cap ?a (Suc (Suc 0))" using sp by (simp add: numeral_2_eq_2)
  have len: "length (bs_view ?a ?b) = BSIZE" by (rule ls.view_length [OF ok])
  show ?thesis unfolding balloc_loop.simps runs_get_bind
  proof (rule runs_bind [OF bread_tx [OF ok h(1) sp]], elim conjE)
    fix i t
    assume t: "txs D st cap s (?a\<lparr>bs_held := (bs_held ?a)(?b \<mapsto> i)\<rparr>) t" and d: "bdata i t = bs_view ?a ?b"
    note ab = txsD(3) [OF t]
    have st: "spare cap (babs D t) (Suc 0)" by (rule spare_held [OF two, of _ ?b]) (simp_all add: ab)
    have w: "runs (seq (buf_write i (bm_set bi)) (seq (log_write i) (brelse i))) t
       (\<lambda>_ u. txs D st cap s (?a\<lparr>bs_view := (bs_view ?a)(?b := bm_set bi (bs_view ?a ?b)), bs_dirty := insert ?b (bs_dirty ?a)\<rparr>) u)"
    proof -
      have "(bs_held ?a)(?b := None) = bs_held ?a" using h(1) by auto
      then show ?thesis using write_tx [OF txsD(1) [OF t] _ fr(2) st, of i "bm_set bi"] len txs_trans [OF t]
        by (auto simp: ab elim!: runs_mono)
    qed
    have z: "runs (seq (bzero D (b + of_nat bi)) (ret (b + of_nat bi))) u
        (\<lambda>y t. y = x \<and> txs D st cap s (alloc_effect (fs_sb s) x ?a) t)"
      if u: "txs D st cap s (?a\<lparr>bs_view := (bs_view ?a)(?b := bm_set bi (bs_view ?a ?b)), bs_dirty := insert ?b (bs_dirty ?a)\<rparr>) u" for u
    proof -
      note au = txsD(3) [OF u]
      have s1: "spare cap (babs D u) (Suc 0)" by (rule spare_dirty [OF two, of _ ?b]) (simp_all add: au)
      have hx: "bs_held (babs D u) x = None" using h(2) by (simp add: au)
      have e: "(babs D u)\<lparr>bs_view := (bs_view (babs D u))(x := replicate BSIZE 0), bs_dirty := insert x (bs_dirty (babs D u))\<rparr> =
          alloc_effect (fs_sb s) x ?a" by (simp add: au x(2,3) alloc_effect_def insert_commute)
      have "runs (bzero D x) u (\<lambda>_ t. txs D st cap s (alloc_effect (fs_sb s) x ?a) t)"
        by (rule runs_mono [OF bzero_tx [OF txsD(1) [OF u] hx fr(1) s1]]) (simp add: e txs_trans [OF u])
      then show ?thesis unfolding x(1) [symmetric] by (rule runs_bind) simp
    qed
    from runs_bind [OF w, of "\<lambda>_. seq (bzero D (b + of_nat bi)) (ret (b + of_nat bi))"] z
    show "runs (bind (get (bdata i)) (\<lambda>d. case balloc_bit d (sb_size (fs_sb s)) b of
         Some bi \<Rightarrow> seq (buf_write i (bm_set bi)) (seq (log_write i) (seq (brelse i) (seq (bzero D (b + of_nat bi)) (ret (b + of_nat bi)))))
       | None \<Rightarrow> seq (brelse i) (balloc_loop D bs))) t
       (\<lambda>y t. y = x \<and> txs D st cap s (alloc_effect (fs_sb s) x ?a) t)"
      by (simp add: d n bind_assoc)
  qed
qed

section \<open>The layout of the disk\<close>

text \<open>
  The blocks below \<open>size - nblocks\<close> hold the boot block, the super block, the log, the inodes and the
  bitmap, in this order; \<open>mkfs\<close> marks them all as used.
\<close>

definition nmeta :: "superblock \<Rightarrow> nat" where
  "nmeta sb = unat (sb_size sb) - unat (sb_nblocks sb)"

definition sb_wf :: "superblock \<Rightarrow> bool" where
  "sb_wf sb \<longleftrightarrow> 1 < unat (sb_logstart sb) \<and> unat (sb_logstart sb) + LOGSIZE \<le> unat (sb_inodestart sb) \<and>
     unat (sb_inodestart sb) + unat (sb_ninodes sb) div 8 + 1 \<le> unat (sb_bmapstart sb) \<and>
     unat (sb_bmapstart sb) + unat (sb_size sb) div 4096 + 1 \<le> nmeta sb"

definition bmap_blocks :: "superblock \<Rightarrow> u32 set" where
  "bmap_blocks sb = {b. unat (sb_bmapstart sb) \<le> unat b \<and> unat b \<le> unat (sb_bmapstart sb) + unat (sb_size sb) div 4096}"

definition meta_used :: "(u32 \<Rightarrow> byte list) \<Rightarrow> superblock \<Rightarrow> bool" where
  "meta_used v sb \<longleftrightarrow> (\<forall>n<nmeta sb. blk_used v sb (of_nat n))"

lemma nmeta_le: "nmeta sb \<le> unat (sb_size sb)"
  by (simp add: nmeta_def)

lemma unat_BBLOCK:
  assumes "sb_wf sb" "b < sb_size sb"
  shows "unat (BBLOCK b sb) = unat (sb_bmapstart sb) + unat b div 4096"
proof -
  have u: "unat (b div BPB) = unat b div 4096" by (simp add: unat_div_distrib BPB_def)
  have "unat b div 4096 \<le> unat (sb_size sb) div 4096" using assms(2) by (intro div_le_mono) (simp add: word_less_nat_alt)
  then have "unat (sb_bmapstart sb) + unat b div 4096 \<le> unat (sb_bmapstart sb) + unat (sb_size sb) div 4096" by simp
  also have "\<dots> < nmeta sb" using assms(1) by (simp add: sb_wf_def)
  also have "\<dots> \<le> unat (sb_size sb)" by (rule nmeta_le)
  also have "\<dots> < 2 ^ 32" by (rule unat_less_32)
  finally have "unat (sb_bmapstart sb) + unat b div 4096 < 2 ^ 32" .
  then show ?thesis using u unat_add32 [of "sb_bmapstart sb" "b div BPB"] by (simp add: BBLOCK_def add.commute)
qed

lemma BBLOCK_in: "sb_wf sb \<Longrightarrow> b < sb_size sb \<Longrightarrow> BBLOCK b sb \<in> bmap_blocks sb"
  by (auto simp: bmap_blocks_def unat_BBLOCK word_less_nat_alt div_le_mono)

lemma log_free_above:
  assumes "sb_wf sb" "unat (sb_inodestart sb) \<le> unat b"
  shows "log_free (sb_logstart sb) b"
proof -
  have "b \<noteq> sb_logstart sb + of_nat k" if "k < LOGSIZE" for k
  proof -
    have s: "unat (sb_logstart sb) + k < unat (sb_inodestart sb)" using that assms(1) by (simp add: sb_wf_def)
    moreover have "unat (sb_logstart sb + of_nat k) = unat (sb_logstart sb) + k"
      using s unat_less_32 [of "sb_inodestart sb"] by (simp add: unat_word_ariths unat_of_nat)
    ultimately show ?thesis using assms(2) by auto
  qed
  then show ?thesis by (auto simp: log_free_def log_region_def)
qed

lemma bmap_block_free: "sb_wf sb \<Longrightarrow> b \<in> bmap_blocks sb \<Longrightarrow> log_free (sb_logstart sb) b"
  by (rule log_free_above) (auto simp: bmap_blocks_def sb_wf_def)

lemma data_block:
  assumes "sb_wf sb" "nmeta sb \<le> unat b"
  shows "log_free (sb_logstart sb) b" "b \<notin> bmap_blocks sb"
  using assms log_free_above [OF assms(1), of b] by (auto simp: bmap_blocks_def sb_wf_def)

lemma first_free_data:
  assumes "meta_used v sb" "first_free v sb = Some n"
  shows "nmeta sb \<le> n" "n < unat (sb_size sb)" "\<not> blk_used v sb (of_nat n)" "unat (of_nat n :: u32) = n"
    "\<forall>m<n. blk_used v sb (of_nat m)"
proof -
  have f: "n < unat (sb_size sb) \<and> \<not> blk_used v sb (of_nat n) \<and> (\<forall>m<n. blk_used v sb (of_nat m))"
    using assms(2) unfolding first_free_def find_upt_Some by auto
  then show "n < unat (sb_size sb)" "\<not> blk_used v sb (of_nat n)" "\<forall>m<n. blk_used v sb (of_nat m)" by simp_all
  show "nmeta sb \<le> n" using f assms(1) by (auto simp: meta_used_def not_le [symmetric])
  show "unat (of_nat n :: u32) = n" using f unat_less_32 [of "sb_size sb"] by (intro unat_of_nat32) simp
qed

lemma balloc_loop_run:
  assumes "log_ok D (sb_logstart sb) cap s" "fs_sb s = sb" "sb_wf sb" "spare cap (babs D s) 2"
    "\<forall>b\<in>bmap_blocks sb. bs_held (babs D s) b = None" "k \<le> (unat (sb_size sb) + 4095) div 4096"
    "List.find (\<lambda>n. \<not> blk_used (bs_view (babs D s)) sb (of_nat n)) [k * 4096..<unat (sb_size sb)] = r"
    "\<And>n. r = Some n \<Longrightarrow> bs_held (babs D s) (of_nat n) = None \<and> nmeta sb \<le> n"
  shows "case r of
      None \<Rightarrow> \<exists>msg. balloc_loop D (map (\<lambda>k. of_nat k * BPB) [k..<(unat (sb_size sb) + 4095) div 4096]) s = Inl (Panic msg)
    | Some n \<Rightarrow> runs (balloc_loop D (map (\<lambda>k. of_nat k * BPB) [k..<(unat (sb_size sb) + 4095) div 4096])) s
        (\<lambda>y t. y = of_nat n \<and> txs D (sb_logstart sb) cap s (alloc_effect sb (of_nat n) (babs D s)) t)"
  using assms
proof (induction "(unat (sb_size sb) + 4095) div 4096 - k" arbitrary: k s)
  case 0
  then have "[k..<(unat (sb_size sb) + 4095) div 4096] = []" "unat (sb_size sb) \<le> k * 4096" by auto
  then show ?case using 0 by (auto simp: kop_simps)
next
  case (Suc j)
  let ?K = "(unat (sb_size sb) + 4095) div 4096" and ?a = "babs D s" and ?z = "unat (sb_size sb)"
  let ?P = "\<lambda>n. \<not> blk_used (bs_view ?a) sb (of_nat n)" and ?b = "of_nat k * BPB :: u32"
  let ?bb = "balloc_bit (bs_view ?a (BBLOCK ?b sb)) (sb_size sb) ?b"
  note sb = Suc.prems(2) and wf = Suc.prems(3)
  have k: "k < ?K" using Suc by simp
  then have kz: "k * 4096 < ?z" by linarith
  have up: "[k..<?K] = k # [Suc k..<?K]" using k by (simp add: upt_conv_Cons)
  have ub: "unat ?b = k * 4096" using kz unat_less_32 [of "sb_size sb"] unat_of_nat32 [of "k * 4096"] by (simp add: BPB_def)
  have bz: "?b < sb_size sb" using kz ub by (simp add: word_less_nat_alt)
  have hb: "bs_held ?a (BBLOCK ?b sb) = None" using Suc.prems(5) BBLOCK_in [OF wf bz] by simp
  have spl: "[k * 4096..<?z] = [k * 4096..<min (Suc k * 4096) ?z] @ [Suc k * 4096..<?z]"
  proof (cases "Suc k * 4096 \<le> ?z")
    case True
    then show ?thesis using upt_add_eq_append [of "k * 4096" "Suc k * 4096" "?z - Suc k * 4096"] by simp
  qed auto
  have find: "List.find ?P [k * 4096..<?z] = (case ?bb of Some bi \<Rightarrow> Some (k * 4096 + bi) | None \<Rightarrow> List.find ?P [Suc k * 4096..<?z])"
    unfolding spl find_append balloc_bit_find [OF kz, symmetric] by (cases ?bb) simp_all
  show ?case
  proof (cases ?bb)
    case None
    obtain u where u: "txs D (sb_logstart sb) cap s ?a u"
      "balloc_loop D (?b # map (\<lambda>k. of_nat k * BPB) [Suc k..<?K]) s = balloc_loop D (map (\<lambda>k. of_nat k * BPB) [Suc k..<?K]) u"
      using balloc_skip [OF Suc.prems(1) _ Suc.prems(4), of ?b] hb None sb by blast
    note ab = txsD(3) [OF u(1)]
    have "case r of None \<Rightarrow> \<exists>msg. balloc_loop D (map (\<lambda>k. of_nat k * BPB) [Suc k..<?K]) u = Inl (Panic msg)
      | Some n \<Rightarrow> runs (balloc_loop D (map (\<lambda>k. of_nat k * BPB) [Suc k..<?K])) u
          (\<lambda>y t. y = of_nat n \<and> txs D (sb_logstart sb) cap u (alloc_effect sb (of_nat n) (babs D u)) t)"
      using Suc.prems Suc.hyps(2) k find None txsD(1) [OF u(1)] txs_fs(1) [OF u(1)] by (intro Suc.hyps(1)) (simp_all add: ab)
    then show ?thesis using u txs_trans [OF u(1)] by (cases r) (auto simp: up ab runs_def)
  next
    case (Some bi)
    then have r: "r = Some (k * 4096 + bi)" using find Suc.prems(7) by simp
    let ?x = "of_nat (k * 4096 + bi) :: u32"
    have "bi \<in> set (takeWhile (\<lambda>bi. unat ?b + bi < ?z) [0..<unat BPB])"
      using Some by (auto simp: balloc_bit_def find_Some_iff)
    then have bi: "bi < 4096" "k * 4096 + bi < ?z" unfolding ub by (auto dest: set_takeWhileD simp: BPB_def)
    then have l: "k * 4096 + bi < 2 ^ 32" using unat_less_32 [of "sb_size sb"] by simp
    note dm = div_mod_BPB [OF l bi(1)]
    have x: "?x = ?b + of_nat bi" "BBLOCK ?x sb = BBLOCK ?b sb" "unat (?x mod BPB) = bi"
      using dm div_mod_BPB(1) [of k 0] l by (simp_all add: BBLOCK_def BPB_def)
    have ux: "unat ?x = k * 4096 + bi" using l by (rule unat_of_nat32)
    have "nmeta sb \<le> unat ?x" "bs_held ?a ?x = None" using Suc.prems(8) [OF r] ux by simp_all
    moreover note data_block [OF wf this(1)]
    moreover have "log_free (sb_logstart sb) (BBLOCK ?b sb)" "BBLOCK ?b sb \<in> bmap_blocks sb"
      using bmap_block_free [OF wf BBLOCK_in [OF wf bz]] BBLOCK_in [OF wf bz] by simp_all
    moreover from calculation have "?x \<noteq> BBLOCK ?b sb" by auto
    ultimately show ?thesis
      using balloc_hit [OF Suc.prems(1) _ _ Suc.prems(4), of ?b ?x bi "map (\<lambda>k. of_nat k * BPB) [Suc k..<?K]"] hb x Some sb r
      by (simp add: up)
  qed
qed


section \<open>What the cache and the log do not see\<close>

lemma log_ok_inode [simp]:
  fixes s :: "'z fsstate_scheme"
  shows "log_ok D st cap (s\<lparr>icache := c\<rparr>) = log_ok D st cap s" "log_ok D st cap (s\<lparr>fs_sb := b\<rparr>) = log_ok D st cap s"
    "babs D (s\<lparr>icache := c\<rparr>) = babs D s" "babs D (s\<lparr>fs_sb := b\<rparr>) = babs D s"
proof -
  have t: "biostate.truncate (s\<lparr>icache := c\<rparr>) = biostate.truncate s" "biostate.truncate (s\<lparr>fs_sb := b\<rparr>) = biostate.truncate s"
    by (simp_all add: biostate.truncate_def)
  show "babs D (s\<lparr>icache := c\<rparr>) = babs D s" "babs D (s\<lparr>fs_sb := b\<rparr>) = babs D s"
    by (rule t [THEN cache_ext(2)])+
  then show "log_ok D st cap (s\<lparr>icache := c\<rparr>) = log_ok D st cap s" "log_ok D st cap (s\<lparr>fs_sb := b\<rparr>) = log_ok D st cap s"
    unfolding log_ok_def log_inv_def txn_def using t [THEN cache_ext(1)] t [THEN cache_ext(2)] by simp_all
qed

lemma bio_inv_inode_lock:
  assumes "\<And>k. slocks t (Sbuf k) = slocks s (Sbuf k)" and "t = s\<lparr>slocks := slocks t\<rparr>"
  shows "bio_inv D t = bio_inv D s" "babs D t = babs D s"
proof -
  let ?t = "s\<lparr>slocks := slocks t\<rparr>"
  have c: "curpid ?t = curpid s" "spin_free ?t = spin_free s" "\<And>p. running ?t p = running s p" "sd_idle ?t = sd_idle s"
    by (simp_all add: curpid_def thisproc_def spin_free_def running_def sd_idle_def cong: option.case_cong)
  have b: "buf_ok D ?t i = buf_ok D s i" for i unfolding buf_ok_def c using assms(1) by simp
  show "bio_inv D t = bio_inv D s" by (subst assms(2)) (simp add: bio_inv_def b c)
  show "babs D t = babs D s"
    by (subst assms(2)) (simp add: babs_def bview_def [abs_def] bslot_def bdisk_def [abs_def] bdirty_def bheld_def [abs_def]
        bwlog_def assms(1) cong: option.case_cong)
qed

lemma log_ok_inode_lock [simp]:
  "log_ok D st cap (s\<lparr>slocks := (slocks s)(Sinode k := l)\<rparr>) = log_ok D st cap s"
  "babs D (s\<lparr>slocks := (slocks s)(Sinode k := l)\<rparr>) = babs D s"
  using bio_inv_inode_lock [of "s\<lparr>slocks := (slocks s)(Sinode k := l)\<rparr>" s]
  by (simp_all add: log_ok_def log_inv_def txn_def)

lemma log_ok_woken [simp]:
  "log_ok D st cap s \<Longrightarrow> log_ok D st cap (s\<lparr>ptable := woken ch (ptable s)\<rparr>)"
  "babs D (s\<lparr>ptable := woken ch (ptable s)\<rparr>) = babs D s"
proof -
  show "log_ok D st cap (s\<lparr>ptable := woken ch (ptable s)\<rparr>)" if "log_ok D st cap s"
    using that log_inv_woken(1) [of s ch] by (simp add: log_ok_def)
  show "babs D (s\<lparr>ptable := woken ch (ptable s)\<rparr>) = babs D s" by (rule babs_cong) simp_all
qed

lemma log_ok_spin_free: "log_ok D st cap s \<Longrightarrow> spin_free s"
  by (simp add: log_ok_def log_inv_def bio_inv_def)

lemma log_ok_running: "log_ok D st cap s \<Longrightarrow> \<exists>p. running s p"
  by (simp add: log_ok_def log_inv_def bio_inv_def)

lemma log_ok_bio: "log_ok D st cap s \<Longrightarrow> bio_inv D s"
  by (auto simp: log_ok_def log_inv_def)

lemma log_ok_initlock:
  assumes ok: "log_ok D st cap s"
  shows "\<exists>t. initlock lk nm s = Inr ((), t) \<and> log_ok D st cap t \<and> babs D t = babs D s \<and>
    t = s\<lparr>locks := locks t\<rparr>"
proof -
  from bio_inv_initlock [OF log_ok_bio [OF ok], of lk nm] obtain t where
    t: "initlock lk nm s = Inr ((), t)" "bio_inv D t" "babs D t = babs D s" "biostate.more t = biostate.more s" by blast
  have e: "t = s\<lparr>locks := locks t\<rparr>" using t(1) by (auto simp: initlock_def set_lock_def kop_simps)
  have "log_ok D st cap t" using ok t(2,3) more_fields [OF t(4)] by (auto simp: log_ok_def log_inv_def txn_def)
  then show ?thesis using t e by blast
qed

lemma log_ok_initsleeplock:
  assumes ok: "log_ok D st cap s"
  shows "\<exists>t. initsleeplock (Sinode i) nm s = Inr ((), t) \<and> log_ok D st cap t \<and> babs D t = babs D s \<and>
    t = s\<lparr>locks := locks t, slocks := (slocks s)(Sinode i := \<lparr>sl_locked = False, sl_pid = 0\<rparr>)\<rparr>"
proof -
  obtain u where u: "initlock (Lsleep (Sinode i)) nm s = Inr ((), u)" "log_ok D st cap u" "babs D u = babs D s" "u = s\<lparr>locks := locks u\<rparr>"
    using log_ok_initlock [OF ok] by blast
  let ?t = "u\<lparr>slocks := (slocks u)(Sinode i := \<lparr>sl_locked = False, sl_pid = 0\<rparr>)\<rparr>"
  have "slocks u = slocks s" by (subst u(4)) simp
  then have "?t = s\<lparr>locks := locks ?t, slocks := (slocks s)(Sinode i := \<lparr>sl_locked = False, sl_pid = 0\<rparr>)\<rparr>"
    by (subst u(4)) simp
  moreover have r: "(slocks u (Sinode i))\<lparr>sl_locked := False, sl_pid := 0\<rparr> = \<lparr>sl_locked = False, sl_pid = 0\<rparr>"
    by (cases "slocks u (Sinode i)") simp
  have "initsleeplock (Sinode i) nm s = Inr ((), u\<lparr>slocks := (slocks u)(Sinode i := (slocks u (Sinode i))\<lparr>sl_locked := False, sl_pid := 0\<rparr>)\<rparr>)"
    using u(1) by (simp add: initsleeplock_def set_slock_def kop_simps)
  then have "initsleeplock (Sinode i) nm s = Inr ((), ?t)" unfolding r .
  moreover have "log_ok D st cap ?t" "babs D ?t = babs D s" using u(2,3) by simp_all
  ultimately show ?thesis by blast
qed

lemma iinit_loop_run:
  assumes "log_ok D st cap s"
  shows "\<exists>t. iinit_loop is s = Inr ((), t) \<and> log_ok D st cap t \<and> babs D t = babs D s \<and>
    t = s\<lparr>locks := locks t, slocks := slocks t\<rparr> \<and> (\<forall>k. slocks t (Sinode k) = (if k \<in> set is then \<lparr>sl_locked = False, sl_pid = 0\<rparr> else slocks s (Sinode k)))"
  using assms
proof (induction "is" arbitrary: s)
  case (Cons i js)
  obtain u where u: "initsleeplock (Sinode i) ''inode'' s = Inr ((), u)" "log_ok D st cap u" "babs D u = babs D s" and
    ue: "u = s\<lparr>locks := locks u, slocks := (slocks s)(Sinode i := \<lparr>sl_locked = False, sl_pid = 0\<rparr>)\<rparr>"
    using log_ok_initsleeplock [OF Cons.prems] by blast
  obtain t where t: "iinit_loop js u = Inr ((), t)" "log_ok D st cap t" "babs D t = babs D u" and
    te: "t = u\<lparr>locks := locks t, slocks := slocks t\<rparr>" and
    l: "\<forall>k. slocks t (Sinode k) = (if k \<in> set js then \<lparr>sl_locked = False, sl_pid = 0\<rparr> else slocks u (Sinode k))"
    using Cons.IH [OF u(2)] by blast
  have "t = s\<lparr>locks := locks t, slocks := slocks t\<rparr>" by (subst te, subst ue) simp
  moreover have "slocks u (Sinode k) = (if k = i then \<lparr>sl_locked = False, sl_pid = 0\<rparr> else slocks s (Sinode k))" for k
    by (subst ue) simp
  ultimately show ?case using u t l by (intro exI [of _ t]) (auto simp: kop_simps)
qed (auto simp: kop_simps)

lemma iinit_run:
  fixes s :: "'z fsstate_scheme"
  assumes ok: "log_ok D st cap s" and h: "bs_held (babs D s) 1 = None" and sp: "spare cap (babs D s) k"
  shows "\<exists>t. iinit D s = Inr ((), t) \<and> log_ok D st cap t \<and> babs D t = babs D s \<and>
    fs_sb t = read_superblock (bs_view (babs D s) 1) \<and> icache t = icache s \<and>
    (\<forall>i<NINODE. \<not> sl_locked (slocks t (Sinode i)))"
proof -
  obtain u where u: "initlock Licache ''icache'' s = Inr ((), u)" "log_ok D st cap u" "babs D u = babs D s" "u = s\<lparr>locks := locks u\<rparr>"
    using log_ok_initlock [OF ok] by blast
  obtain w where w: "iinit_loop [0..<NINODE] u = Inr ((), w)" "log_ok D st cap w" "babs D w = babs D u"
    "w = u\<lparr>locks := locks w, slocks := slocks w\<rparr>"
    "\<forall>k. slocks w (Sinode k) = (if k \<in> set [0..<NINODE] then \<lparr>sl_locked = False, sl_pid = 0\<rparr> else slocks u (Sinode k))"
    using iinit_loop_run [OF u(2)] by blast
  have "icache w = icache s" by (subst w(4), subst u(4)) simp
  moreover have aw: "babs D w = babs D s" using u w by simp
  have "bs_held (babs D w) 1 = None" "room (babs D w) 1" using h spare_room [OF ok sp] by (simp_all add: aw)
  from ls.read_block [OF w(2) this, of read_superblock] obtain t where
    t: "readsb D w = Inr (read_superblock (bs_view (babs D s) 1), t)" "log_ok D st cap t" "lframe w t" "babs D t = babs D w"
    by (auto simp: readsb_def aw)
  ultimately show ?thesis
    using u(1) w(1,5) lframe_fields(8) [OF t(3)] more_fs(2) [OF lframe_fields(6) [OF t(3)]]
    by (intro exI [of _ "t\<lparr>fs_sb := read_superblock (bs_view (babs D s) 1)\<rparr>"]) (simp add: iinit_def kop_simps aw)
qed


section \<open>A file system to start from\<close>

definition zero_fs :: "unit fsstate_ext" where
  "zero_fs = \<lparr>fs_sb = demo_sb\<lparr>sb_size := 0\<rparr>,
     icache = (\<lambda>i. \<lparr>i_dev = 0, i_inum = 0, i_ref = 0, i_valid = False, i_type = 0, i_major = 0, i_minor = 0, i_nlink = 0,
       i_size = 0, i_addrs = replicate 13 0\<rparr>)\<rparr>"

definition demo_fs :: fsstate where
  "demo_fs = (case seq binit (seq (initlog 1) (iinit 1)) (demo_boot zero_fs) of Inr (_, t) \<Rightarrow> t | Inl _ \<Rightarrow> demo_boot zero_fs)"

lemma demo_fs:
  "log_ok 1 2 29 demo_fs" "fs_sb demo_fs = demo_sb" "icache demo_fs = icache (demo_boot zero_fs)"
  "bs_held (babs 1 demo_fs) = Map.empty" "bs_dirty (babs 1 demo_fs) = {}"
  "b \<noteq> 2 \<Longrightarrow> bs_view (babs 1 demo_fs) b = demo_block b"
  "i < NINODE \<Longrightarrow> \<not> sl_locked (slocks demo_fs (Sinode i))"
proof -
  obtain u where u: "seq binit (initlog 1) (demo_boot zero_fs) = Inr ((), u)" "log_ok 1 2 29 u" "quiet u" "txn u = []"
     "logstate.more u = zero_fs" "\<forall>b. b \<noteq> 2 \<longrightarrow> bs_view (babs 1 u) b = demo_disk (b + MBR_BASE)"
    using demo_boot_run [of zero_fs] by blast
  have d: "log_dev u = 1" "log_inv u" using u(2) by (simp_all add: log_ok_def)
  have h: "bs_held (babs 1 u) = Map.empty" "bs_dirty (babs 1 u) = {}"
    using u(3,4) d by (simp_all add: quiet_def log_inv_def)
  then have sp: "spare 29 (babs 1 u) 29" by (simp add: spare_def)
  have v1: "bs_view (babs 1 u) 1 = write_superblock demo_sb (replicate BSIZE 0)"
    using u(6) by (simp add: demo_disk_def demo_block_def)
  obtain t where t: "iinit 1 u = Inr ((), t)" "log_ok 1 2 29 t" "babs 1 t = babs 1 u"
     "fs_sb t = read_superblock (bs_view (babs 1 u) 1)" "icache t = icache u" "\<forall>i<NINODE. \<not> sl_locked (slocks t (Sinode i))"
    using iinit_run [OF u(2) _ sp] h by auto
  have "seq binit (seq (initlog 1) (iinit 1)) (demo_boot zero_fs) = seq (seq binit (initlog 1)) (iinit 1) (demo_boot zero_fs)"
    by (simp add: bind_assoc)
  also have "\<dots> = iinit 1 u" by (rule bind_run_Inr) (rule u(1))
  also note t(1)
  finally have e: "demo_fs = t" by (simp add: demo_fs_def)
  have "logstate.more u = logstate.more (demo_boot zero_fs)" using u(5) by (simp add: demo_boot_def boot_bio_def zero_log_def)
  then show "icache demo_fs = icache (demo_boot zero_fs)" using t(5) more_fs(2) [of u "demo_boot zero_fs"] by (simp add: e)
  show "log_ok 1 2 29 demo_fs" "bs_held (babs 1 demo_fs) = Map.empty" "bs_dirty (babs 1 demo_fs) = {}"
    "i < NINODE \<Longrightarrow> \<not> sl_locked (slocks demo_fs (Sinode i))" using t h by (simp_all add: e)
  show "b \<noteq> 2 \<Longrightarrow> bs_view (babs 1 demo_fs) b = demo_block b" using u(6) t(3) by (simp add: e demo_disk_def)
  show "fs_sb demo_fs = demo_sb"
    using t(4) read_write_superblock [of "replicate BSIZE 0" demo_sb] by (simp add: e v1 BSIZE_def)
qed

lemma demo_spare: "spare 29 (babs 1 demo_fs) k \<longleftrightarrow> k \<le> 29"
  by (simp add: spare_def demo_fs(4,5))

lemma demo_wf: "sb_wf demo_sb" "nmeta demo_sb = 59" "bmap_blocks demo_sb = {58}"
proof -
  show "sb_wf demo_sb" "nmeta demo_sb = 59" by (simp_all add: sb_wf_def demo_sb_def nmeta_def LOGSIZE_def)
  have "b = 58" if "unat b = 58" for b :: u32 using that by (simp add: word_unat_eq_iff)
  then show "bmap_blocks demo_sb = {58}" by (auto simp: bmap_blocks_def demo_sb_def)
qed

lemma bm_used_bit: "bm_used d n \<longleftrightarrow> bit (d ! (n div 8)) (n mod 8)"
  by (simp add: bm_used_def bm_mask_def bit_iff_and_push_bit_not_eq_0)

lemma demo_blk_used: "n < 1000 \<Longrightarrow> blk_used (bs_view (babs 1 demo_fs)) demo_sb (of_nat n) \<longleftrightarrow> n < 60"
proof -
  assume n: "n < 1000"
  have m: "(255 :: byte) = mask 8" "(15 :: byte) = mask 4" by (simp_all add: mask_eq_exp_minus_1)
  have q: "n div 8 = 7 \<Longrightarrow> n mod 8 < 4 \<longleftrightarrow> n < 60" using div_mult_mod_eq [of n 8] by linarith
  have "n div 8 < 7 \<or> n div 8 = 7 \<or> 8 \<le> n div 8 \<and> n div 8 - 8 < 504" using n by auto
  then have "bm_used (demo_block 58) n = (n < 60)"
    unfolding bm_used_bit using q by (auto simp: demo_block_def nth_append m bit_mask_iff nth_Cons')
  moreover have "(of_nat n :: u32) div BPB = 0" "unat ((of_nat n :: u32) mod BPB) = n"
    using div_mod_BPB [of 0 n] n by simp_all
  ultimately show ?thesis by (simp add: blk_used_def BBLOCK_def demo_sb_def demo_fs(6))
qed

lemma demo_meta_used: "meta_used (bs_view (babs 1 demo_fs)) demo_sb"
  by (simp add: meta_used_def demo_wf demo_blk_used)

lemma demo_first_free: "first_free (bs_view (babs 1 demo_fs)) demo_sb = Some 60"
proof -
  have "unat (sb_size demo_sb) = 1000" by (simp add: demo_sb_def)
  then show ?thesis unfolding first_free_def find_upt_Some using demo_blk_used [of 60] by (auto simp: demo_blk_used)
qed


section \<open>Properties of the allocator\<close>

definition free_effect :: "superblock \<Rightarrow> u32 \<Rightarrow> bstore \<Rightarrow> bstore" where
  "free_effect sb b a = a\<lparr>bs_view := (bs_view a)(BBLOCK b sb := bm_clear (unat (b mod BPB)) (bs_view a (BBLOCK b sb))),
     bs_dirty := insert (BBLOCK b sb) (bs_dirty a)\<rparr>"

lemma bitmap_steps: "bitmap_steps sb = map (\<lambda>k. of_nat k * BPB) [0..<(unat (sb_size sb) + 4095) div 4096]"
proof -
  have "unat BPB = 4096" by (simp add: BPB_def)
  then show ?thesis by (simp only: bitmap_steps_def) (simp add: add.commute)
qed

lemma balloc_run:
  fixes s :: "'z fsstate_scheme"
  assumes "log_ok D (sb_logstart (fs_sb s)) cap s" "sb_wf (fs_sb s)" "spare cap (babs D s) 2"
    "meta_used (bs_view (babs D s)) (fs_sb s)" "first_free (bs_view (babs D s)) (fs_sb s) = Some n"
    "\<And>b. b \<in> dom (bs_held (babs D s)) \<Longrightarrow> b \<notin> bmap_blocks (fs_sb s) \<and> b \<noteq> of_nat n"
  shows "runs (balloc D) s (\<lambda>y t. y = of_nat n \<and>
     txs D (sb_logstart (fs_sb s)) cap s (alloc_effect (fs_sb s) (of_nat n) (babs D s)) t)"
proof -
  note f = first_free_data [OF assms(4,5)]
  have h: "\<forall>b\<in>bmap_blocks (fs_sb s). bs_held (babs D s) b = None" "bs_held (babs D s) (of_nat n) = None"
    using assms(6) by blast+
  have "0 * 4096 = (0 :: nat)" by simp
  then show ?thesis
    using balloc_loop_run [OF assms(1) refl assms(2,3) h(1), of 0 "Some n"] h(2) f(1) assms(5)
    by (simp add: balloc_def bitmap_steps first_free_def)
qed

lemma touch_tx:
  assumes ok: "log_ok D st cap s" "bs_held (babs D s) b = None" "log_free st b" "spare cap (babs D s) (Suc k)"
    "length (f (bs_view (babs D s) b)) = BSIZE"
    and g: "\<And>i. g i (bs_view (babs D s) b) = seq (buf_write i f) (seq (log_write i) (brelse i))"
  shows "runs (bind (bread D b) (\<lambda>i. bind (get (bdata i)) (g i))) s
     (\<lambda>_ t. txs D st cap s ((babs D s)\<lparr>bs_view := (bs_view (babs D s))(b := f (bs_view (babs D s) b)),
        bs_dirty := insert b (bs_dirty (babs D s))\<rparr>) t)"
proof -
  obtain i t where t: "bread D b s = Inr (i, t)" "bdata i t = bs_view (babs D s) b"
    using bread_tx [OF ok(1,2,4)] by (auto simp: runs_def)
  have "bind (bread D b) (\<lambda>i. bind (get (bdata i)) (g i)) s = bind (bread D b) (\<lambda>i. seq (buf_write i f) (seq (log_write i) (brelse i))) s"
    using t g by (simp add: kop_simps)
  then show ?thesis using modify_tx [where f = f, OF ok] by (simp add: runs_def)
qed

lemma bfree_run:
  fixes s :: "'z fsstate_scheme"
  assumes "log_ok D (sb_logstart (fs_sb s)) cap s" "sb_wf (fs_sb s)" "spare cap (babs D s) (Suc k)"
    "b < sb_size (fs_sb s)" "bs_held (babs D s) (BBLOCK b (fs_sb s)) = None" "blk_used (bs_view (babs D s)) (fs_sb s) b"
  shows "runs (bfree D b) s (\<lambda>_ t. txs D (sb_logstart (fs_sb s)) cap s (free_effect (fs_sb s) b (babs D s)) t)"
  unfolding bfree_def runs_get_bind free_effect_def
  using touch_tx [OF assms(1,5) bmap_block_free [OF assms(2) BBLOCK_in [OF assms(2,4)]] assms(3), of "bm_clear (unat (b mod BPB))"]
    assms(6) ls.view_length [OF assms(1)] by (simp add: blk_used_def)

lemma bm_bits:
  assumes "i div 8 < length d"
  shows "bm_used (bm_clear i d) j \<longleftrightarrow> bm_used d j \<and> i \<noteq> j" "bm_used (bm_set i d) j \<longleftrightarrow> bm_used d j \<or> i = j"
    and "\<not> bm_used d i \<Longrightarrow> bm_clear i (bm_set i d) = d"
proof -
  have m: "bit (bm_mask i) k \<longleftrightarrow> k = i mod 8" for k
    by (simp add: bm_mask_def bit_push_bit_iff bit_1_iff del: push_bit_of_1) auto
  have ij: "i = j \<longleftrightarrow> i div 8 = j div 8 \<and> i mod 8 = j mod 8" by (metis div_mult_mod_eq)
  show "bm_used (bm_clear i d) j \<longleftrightarrow> bm_used d j \<and> i \<noteq> j"
    using assms by (cases "j div 8 = i div 8") (auto simp: bm_used_bit bm_clear_def m bit_and_iff bit_not_iff ij)
  show "bm_used (bm_set i d) j \<longleftrightarrow> bm_used d j \<or> i = j"
    using assms by (cases "j div 8 = i div 8") (auto simp: bm_used_bit bm_set_def m bit_or_iff ij)
  assume "\<not> bm_used d i"
  then have "(d ! (i div 8) OR bm_mask i) AND NOT (bm_mask i) = d ! (i div 8)"
    by (intro bit_word_eqI) (auto simp: bm_used_bit m bit_and_iff bit_or_iff bit_not_iff)
  then show "bm_clear i (bm_set i d) = d" using assms by (simp add: bm_clear_def bm_set_def)
qed

lemma bm_index: "unat (b mod BPB) div 8 < BSIZE"
  by (simp add: unat_mod_distrib BPB_def BSIZE_def div_less_iff_less_mult)

lemma bitmap_index:
  assumes "sb_wf sb" "b < sb_size sb" "x < sb_size sb" "BBLOCK b sb = BBLOCK x sb"
  shows "b = x \<longleftrightarrow> unat (b mod BPB) = unat (x mod BPB)"
proof
  assume m: "unat (b mod BPB) = unat (x mod BPB)"
  have "unat b div 4096 = unat x div 4096"
    using assms(4) unat_BBLOCK [OF assms(1,2)] unat_BBLOCK [OF assms(1,3)] by (simp only: add_left_cancel)
  moreover have "unat b mod 4096 = unat x mod 4096" using m by (simp add: unat_mod_distrib BPB_def)
  ultimately have "unat b = unat x" by (metis div_mult_mod_eq)
  then show "b = x" by (rule unsigned_word_eqI)
qed simp

lemma alloc_effect_facts:
  fixes a :: bstore
  defines "v \<equiv> bs_view a"
  assumes wf: "sb_wf sb" and len: "\<And>b. length (v b) = BSIZE" and mu: "meta_used v sb" and ff: "first_free v sb = Some n"
  shows "bs_view (alloc_effect sb (of_nat n) a) (of_nat n) = replicate BSIZE 0"
    and "\<And>b. b < sb_size sb \<Longrightarrow> blk_used (bs_view (alloc_effect sb (of_nat n) a)) sb b \<longleftrightarrow> blk_used v sb b \<or> b = of_nat n"
    and "\<And>b. b \<noteq> of_nat n \<Longrightarrow> b \<notin> bmap_blocks sb \<Longrightarrow> bs_view (alloc_effect sb (of_nat n) a) b = v b"
    and "meta_used (bs_view (alloc_effect sb (of_nat n) a)) sb"
    and "bs_dirty (alloc_effect sb (of_nat n) a) = bs_dirty a \<union> {BBLOCK (of_nat n) sb, of_nat n}"
    and "bs_held (alloc_effect sb (of_nat n) a) = bs_held a" "bs_disk (alloc_effect sb (of_nat n) a) = bs_disk a"
proof -
  let ?x = "of_nat n :: u32" and ?w = "bs_view (alloc_effect sb (of_nat n) a)"
  note f = first_free_data [OF mu ff]
  have xs: "?x < sb_size sb" using f by (simp add: word_less_nat_alt)
  note bx = BBLOCK_in [OF wf xs]
  have w: "?w = v(BBLOCK ?x sb := bm_set (unat (?x mod BPB)) (v (BBLOCK ?x sb)), ?x := replicate BSIZE 0)"
    by (simp add: alloc_effect_def v_def)
  have ne: "BBLOCK b sb \<noteq> ?x" if "b < sb_size sb" for b
    using BBLOCK_in [OF wf that] data_block(2) [OF wf, of ?x] f by auto
  show u: "blk_used ?w sb b \<longleftrightarrow> blk_used v sb b \<or> b = ?x" if b: "b < sb_size sb" for b
  proof (cases "BBLOCK b sb = BBLOCK ?x sb")
    case True
    then have "b = ?x \<longleftrightarrow> unat (b mod BPB) = unat (?x mod BPB)" by (rule bitmap_index [OF wf b xs])
    then show ?thesis
      using True ne [OF b] bm_bits(2) [of "unat (?x mod BPB)" "v (BBLOCK ?x sb)" "unat (b mod BPB)"] bm_index [of ?x] len
      by (auto simp: blk_used_def w)
  next
    case False
    then have "b \<noteq> ?x" by auto
    then show ?thesis using False ne [OF b] by (simp add: blk_used_def w)
  qed
  show "?w ?x = replicate BSIZE 0" by (simp add: w)
  show "?w b = v b" if "b \<noteq> ?x" "b \<notin> bmap_blocks sb" for b using that bx by (auto simp: w)
  show "meta_used ?w sb" unfolding meta_used_def
  proof (intro allI impI)
    fix k assume k: "k < nmeta sb"
    then have l: "k < unat (sb_size sb)" using nmeta_le [of sb] by simp
    then have "unat (of_nat k :: u32) = k" using unat_less_32 [of "sb_size sb"] by (intro unat_of_nat32) simp
    then have "(of_nat k :: u32) < sb_size sb" using l by (simp add: word_less_nat_alt)
    then show "blk_used ?w sb (of_nat k)" using u mu k by (simp add: meta_used_def)
  qed
qed (simp_all add: alloc_effect_def)

text \<open>The number of free blocks, which every allocation lowers by one.\<close>

definition nfree :: "(u32 \<Rightarrow> byte list) \<Rightarrow> superblock \<Rightarrow> nat" where
  "nfree v sb = card {n. n < unat (sb_size sb) \<and> \<not> blk_used v sb (of_nat n)}"

lemma first_free_nfree: "0 < nfree v sb \<Longrightarrow> \<exists>n. first_free v sb = Some n"
proof (rule ccontr)
  assume "0 < nfree v sb" "\<nexists>n. first_free v sb = Some n"
  then have "first_free v sb = None" by (cases "first_free v sb") auto
  then have "{n. n < unat (sb_size sb) \<and> \<not> blk_used v sb (of_nat n)} = {}" by (auto simp: first_free_def find_upt_None)
  then have "nfree v sb = 0" unfolding nfree_def by (metis card.empty)
  then show False using \<open>0 < nfree v sb\<close> by simp
qed

lemma nfree_alloc:
  assumes "n < unat (sb_size sb)" "\<not> blk_used v sb (of_nat n)"
    "\<And>b. b < sb_size sb \<Longrightarrow> blk_used w sb b \<longleftrightarrow> blk_used v sb b \<or> b = of_nat n"
  shows "nfree w sb = nfree v sb - 1"
proof -
  have u: "unat (of_nat k :: u32) = k" if "k < unat (sb_size sb)" for k
    using that unat_less_32 [of "sb_size sb"] by (intro unat_of_nat32) simp
  have "blk_used w sb (of_nat k) \<longleftrightarrow> blk_used v sb (of_nat k) \<or> k = n" if k: "k < unat (sb_size sb)" for k
    using assms(3) [of "of_nat k"] u [OF k] u [OF assms(1)] k by (metis word_less_nat_alt)
  then have "{k. k < unat (sb_size sb) \<and> \<not> blk_used w sb (of_nat k)} = {k. k < unat (sb_size sb) \<and> \<not> blk_used v sb (of_nat k)} - {n}"
    by auto
  then show ?thesis using assms(1,2) by (simp add: nfree_def)
qed

text \<open>
  C21. \<open>balloc\<close> returns the first block whose bit in the bitmap is clear, marks it as used and fills it
  with zeros; the other blocks, their bits, and everything outside the cache and the log stay as
  they are, and the block is a data block. When every block is in use it panics.
\<close>

theorem balloc_fresh:
  fixes s :: "'z fsstate_scheme"
  assumes "log_ok D (sb_logstart (fs_sb s)) cap s" "sb_wf (fs_sb s)" "spare cap (babs D s) 2"
    and "meta_used (bs_view (babs D s)) (fs_sb s)" "bs_held (babs D s) = Map.empty"
  shows "case first_free (bs_view (babs D s)) (fs_sb s) of
      None \<Rightarrow> \<exists>msg. balloc D s = Inl (Panic msg)
    | Some n \<Rightarrow> \<exists>t. balloc D s = Inr (of_nat n, t) \<and> log_ok D (sb_logstart (fs_sb s)) cap t \<and> lframe s t \<and>
        nmeta (fs_sb s) \<le> n \<and> bs_view (babs D t) (of_nat n) = replicate BSIZE 0 \<and> bs_disk (babs D t) = bs_disk (babs D s) \<and>
        (\<forall>b. b < sb_size (fs_sb s) \<longrightarrow>
          (blk_used (bs_view (babs D t)) (fs_sb s) b \<longleftrightarrow> blk_used (bs_view (babs D s)) (fs_sb s) b \<or> b = of_nat n)) \<and>
        (\<forall>b. b \<noteq> of_nat n \<longrightarrow> b \<notin> bmap_blocks (fs_sb s) \<longrightarrow> bs_view (babs D t) b = bs_view (babs D s) b)"
proof (cases "first_free (bs_view (babs D s)) (fs_sb s)")
  case None
  then show ?thesis
    using balloc_loop_run [OF assms(1) refl assms(2,3), of 0 None] assms(5)
    by (simp add: balloc_def bitmap_steps first_free_def bind_def get_def)
next
  case (Some n)
  let ?a = "babs D s" and ?sb = "fs_sb s" and ?x = "of_nat n :: u32"
  note f = first_free_data [OF assms(4) Some]
  note e = alloc_effect_facts [OF assms(2) ls.view_length [OF assms(1)] assms(4) Some]
  obtain t where t: "balloc D s = Inr (?x, t)" "txs D (sb_logstart ?sb) cap s (alloc_effect ?sb ?x ?a) t"
    using balloc_run [OF assms(1-4) Some] assms(5) by (auto simp: runs_def)
  show ?thesis using t(1) txsD [OF t(2)] f(1) e(1-3,7) by (simp add: Some)
qed

theorem balloc_fresh_witness:
  "\<exists>t. balloc 1 demo_fs = Inr (60, t) \<and> bs_view (babs 1 t) 60 = replicate BSIZE 0 \<and> blk_used (bs_view (babs 1 t)) demo_sb 60"
proof -
  have s: "sb_logstart demo_sb = 2" "sb_size demo_sb = 1000" by (simp_all add: demo_sb_def)
  from balloc_fresh [of 1 demo_fs 29] demo_fs(1,2,4) demo_wf(1) demo_spare demo_meta_used demo_first_free s
  show ?thesis by auto
qed

text \<open>
  C22. \<open>bfree\<close> clears the bit of a block in use and changes no other bit and no block outside the
  bitmap; freeing a block that is free already is a panic.
\<close>

theorem bfree_correct:
  fixes s :: "'z fsstate_scheme"
  assumes "log_ok D (sb_logstart (fs_sb s)) cap s" "sb_wf (fs_sb s)" "spare cap (babs D s) 1"
    and "b < sb_size (fs_sb s)" "bs_held (babs D s) = Map.empty"
  shows "if blk_used (bs_view (babs D s)) (fs_sb s) b
    then \<exists>t. bfree D b s = Inr ((), t) \<and> log_ok D (sb_logstart (fs_sb s)) cap t \<and> lframe s t \<and>
        (\<forall>c. c < sb_size (fs_sb s) \<longrightarrow>
          (blk_used (bs_view (babs D t)) (fs_sb s) c \<longleftrightarrow> blk_used (bs_view (babs D s)) (fs_sb s) c \<and> c \<noteq> b)) \<and>
        (\<forall>c. c \<notin> bmap_blocks (fs_sb s) \<longrightarrow> bs_view (babs D t) c = bs_view (babs D s) c)
    else \<exists>msg. bfree D b s = Inl (Panic msg)"
proof (cases "blk_used (bs_view (babs D s)) (fs_sb s) b")
  case True
  let ?a = "babs D s" and ?sb = "fs_sb s"
  obtain t where t: "bfree D b s = Inr ((), t)" "txs D (sb_logstart ?sb) cap s (free_effect ?sb b ?a) t"
    using bfree_run [OF assms(1,2) _ assms(4) _ True] assms(3,5) by (auto simp: runs_def)
  have v: "bs_view (babs D t) = (bs_view ?a)(BBLOCK b ?sb := bm_clear (unat (b mod BPB)) (bs_view ?a (BBLOCK b ?sb)))"
    using txsD(3) [OF t(2)] by (simp add: free_effect_def)
  have "blk_used (bs_view (babs D t)) ?sb c \<longleftrightarrow> blk_used (bs_view ?a) ?sb c \<and> c \<noteq> b" if c: "c < sb_size ?sb" for c
    using bm_bits(1) [of "unat (b mod BPB)" "bs_view ?a (BBLOCK b ?sb)" "unat (c mod BPB)"] bm_index [of b]
      ls.view_length [OF assms(1)] bitmap_index [OF assms(2) c assms(4)]
    by (cases "BBLOCK c ?sb = BBLOCK b ?sb") (auto simp: blk_used_def v)
  then show ?thesis using True t(1) txsD(1,2) [OF t(2)] BBLOCK_in [OF assms(2,4)] by (auto simp: v)
next
  case False
  obtain i t where "bread D (BBLOCK b (fs_sb s)) s = Inr (i, t)" "bdata i t = bs_view (babs D s) (BBLOCK b (fs_sb s))"
    using bread_tx [OF assms(1) _ assms(3), of "BBLOCK b (fs_sb s)"] assms(5) by (auto simp: runs_def)
  then show ?thesis using False by (simp add: bfree_def kop_simps blk_used_def)
qed

theorem bfree_correct_witness:
  "\<exists>t. bfree 1 59 demo_fs = Inr ((), t) \<and> \<not> blk_used (bs_view (babs 1 t)) demo_sb 59"
proof -
  have s: "sb_logstart demo_sb = 2" "sb_size demo_sb = 1000" by (simp_all add: demo_sb_def)
  from bfree_correct [of 1 demo_fs 29 59] demo_fs(1,2,4) demo_wf(1) demo_spare demo_blk_used [of 59] s
  show ?thesis by auto
qed

end
