(* ===== verification/Finode.thy ===== *)
theory Finode
  imports Falloc
begin

text \<open>
  The inode cache and the inodes on the disk: \<open>iget\<close>, \<open>iupdate\<close>, \<open>ilock\<close> and \<open>iunlock\<close> of \<open>kern/fs.c\<close>,
  the invariant of the cache (one slot per inode), the place of every inode on the disk, and what
  locking an inode loads.
\<close>

unbundle bit_operations_syntax

section \<open>Finding and counting references\<close>

definition cached :: "(nat \<Rightarrow> inode) \<Rightarrow> u32 \<Rightarrow> u32 \<Rightarrow> nat \<Rightarrow> bool" where
  "cached c dev inum ip \<longleftrightarrow> ip < NINODE \<and> i_ref (c ip) > 0 \<and> i_dev (c ip) = dev \<and> i_inum (c ip) = inum"

text \<open>Every inode has at most one slot of the cache, and no count is negative.\<close>

definition icache_ok :: "(nat \<Rightarrow> inode) \<Rightarrow> bool" where
  "icache_ok c \<longleftrightarrow> (\<forall>dev inum i j. cached c dev inum i \<longrightarrow> cached c dev inum j \<longrightarrow> i = j) \<and> (\<forall>i<NINODE. 0 \<le> i_ref (c i))"

lemma iget_scan_find:
  "iget_scan c dev inum ips free =
     (case List.find (\<lambda>ip. i_ref (c ip) > 0 \<and> i_dev (c ip) = dev \<and> i_inum (c ip) = inum) ips of
        Some ip \<Rightarrow> Inr ip
      | None \<Rightarrow> Inl (if free \<noteq> None then free else List.find (\<lambda>ip. i_ref (c ip) = 0) ips))"
  by (induction ips arbitrary: free) (auto split: option.splits)

lemma iget_cases:
  assumes "spin_free s"
  shows "(\<exists>ip. cached (icache s) dev inum ip \<and>
       iget dev inum s = Inr (ip, s\<lparr>icache := (icache s)(ip := (icache s ip)\<lparr>i_ref := i_ref (icache s ip) + 1\<rparr>)\<rparr>)) \<or>
     (\<forall>ip. \<not> cached (icache s) dev inum ip) \<and> (\<exists>ip<NINODE. i_ref (icache s ip) = 0 \<and>
       iget dev inum s = Inr (ip, s\<lparr>icache := (icache s)(ip := (icache s ip)\<lparr>i_dev := dev, i_inum := inum, i_ref := 1, i_valid := False\<rparr>)\<rparr>)) \<or>
     (\<forall>ip. \<not> cached (icache s) dev inum ip) \<and> (\<forall>ip<NINODE. i_ref (icache s ip) \<noteq> 0) \<and>
       iget dev inum s = Inl (Panic ''iget: no inodes'')"
proof -
  let ?P = "\<lambda>ip. i_ref (icache s ip) > 0 \<and> i_dev (icache s ip) = dev \<and> i_inum (icache s ip) = inum"
  show ?thesis
  proof (cases "List.find ?P [0..<NINODE]")
    case (Some ip)
    then have "cached (icache s) dev inum ip" by (auto simp: find_upt_Some cached_def)
    moreover have "iget dev inum s = Inr (ip, s\<lparr>icache := (icache s)(ip := (icache s ip)\<lparr>i_ref := i_ref (icache s ip) + 1\<rparr>)\<rparr>)"
      using Some assms by (simp add: iget_def iget_scan_find kop_simps lock_simps)
    ultimately show ?thesis by blast
  next
    case None
    then have n: "\<forall>ip. \<not> cached (icache s) dev inum ip" by (auto simp: find_upt_None cached_def)
    show ?thesis
    proof (cases "List.find (\<lambda>ip. i_ref (icache s ip) = 0) [0..<NINODE]")
      case (Some ip)
      then have "ip < NINODE" "i_ref (icache s ip) = 0" by (simp_all add: find_upt_Some)
      moreover have "iget dev inum s = Inr (ip, s\<lparr>icache := (icache s)(ip := (icache s ip)\<lparr>i_dev := dev, i_inum := inum, i_ref := 1, i_valid := False\<rparr>)\<rparr>)"
        using None Some assms by (simp add: iget_def iget_scan_find kop_simps lock_simps)
      ultimately show ?thesis using n by blast
    next
      case None
      then have "\<forall>ip<NINODE. i_ref (icache s ip) \<noteq> 0" by (simp add: find_upt_None)
      moreover have "iget dev inum s = Inl (Panic ''iget: no inodes'')"
        using None \<open>List.find ?P [0..<NINODE] = None\<close> assms by (simp add: iget_def iget_scan_find kop_simps lock_simps)
      ultimately show ?thesis using n by blast
    qed
  qed
qed

text \<open>
  C23. \<open>iget\<close> keeps at most one slot per inode: it returns the slot that already holds the inode with
  its count raised by one, or takes a slot that nobody refers to, marks it as not read yet and gives
  it one reference; the other slots do not change. With neither it panics.
\<close>

theorem iget_unique:
  assumes "spin_free s" and "icache_ok (icache s)"
  shows "if (\<exists>ip. cached (icache s) dev inum ip) \<or> (\<exists>ip<NINODE. i_ref (icache s ip) = 0)
    then \<exists>ip c. iget dev inum s = Inr (ip, s\<lparr>icache := c\<rparr>) \<and> icache_ok c \<and> cached c dev inum ip \<and>
        (\<forall>j. j \<noteq> ip \<longrightarrow> c j = icache s j) \<and>
        (if cached (icache s) dev inum ip then c ip = (icache s ip)\<lparr>i_ref := i_ref (icache s ip) + 1\<rparr>
         else i_ref (icache s ip) = 0 \<and> i_ref (c ip) = 1 \<and> \<not> i_valid (c ip))
    else iget dev inum s = Inl (Panic ''iget: no inodes'')"
  using iget_cases [OF assms(1), of dev inum]
proof (elim disjE exE conjE)
  fix ip assume h: "cached (icache s) dev inum ip"
    and r: "iget dev inum s = Inr (ip, s\<lparr>icache := (icache s)(ip := (icache s ip)\<lparr>i_ref := i_ref (icache s ip) + 1\<rparr>)\<rparr>)"
  let ?c = "(icache s)(ip := (icache s ip)\<lparr>i_ref := i_ref (icache s ip) + 1\<rparr>)"
  have "cached ?c d n j = cached (icache s) d n j" for d n j using h by (auto simp: cached_def)
  then have "icache_ok ?c" "cached ?c dev inum ip" using assms(2) h by (auto simp: icache_ok_def cached_def)
  then show ?thesis using h r by (subst if_P) (blast, intro exI [of _ ip] exI [of _ ?c], simp)
next
  fix ip assume n: "\<forall>ip. \<not> cached (icache s) dev inum ip" and z: "ip < NINODE" "i_ref (icache s ip) = 0"
    and r: "iget dev inum s = Inr (ip, s\<lparr>icache := (icache s)(ip := (icache s ip)\<lparr>i_dev := dev, i_inum := inum, i_ref := 1, i_valid := False\<rparr>)\<rparr>)"
  let ?c = "(icache s)(ip := (icache s ip)\<lparr>i_dev := dev, i_inum := inum, i_ref := 1, i_valid := False\<rparr>)"
  have c: "cached ?c d m j \<longleftrightarrow> j = ip \<and> d = dev \<and> m = inum \<or> cached (icache s) d m j" for d m j
    using z n by (auto simp: cached_def)
  then have "icache_ok ?c" using assms(2) n z unfolding icache_ok_def c by auto
  then show ?thesis using n r z c by (subst if_P) (blast, intro exI [of _ ip] exI [of _ ?c], simp)
next
  assume "\<forall>ip. \<not> cached (icache s) dev inum ip" "\<forall>ip<NINODE. i_ref (icache s ip) \<noteq> 0"
    "iget dev inum s = Inl (Panic ''iget: no inodes'')"
  then show ?thesis by simp
qed

lemma demo_icache: "icache_ok (icache demo_fs)" "i_ref (icache demo_fs i) = 0" "i_valid (icache demo_fs i) = False"
  by (simp_all add: demo_fs(3) demo_boot_def boot_bio_def zero_log_def zero_fs_def icache_ok_def cached_def)

theorem iget_unique_witness:
  "\<exists>ip c. iget 1 1 demo_fs = Inr (ip, demo_fs\<lparr>icache := c\<rparr>) \<and> cached c 1 1 ip"
proof -
  have "(0 :: nat) < NINODE" by (simp add: NINODE_def)
  then show ?thesis
    using iget_unique [OF log_ok_spin_free [OF demo_fs(1)] demo_icache(1), of 1 1] demo_icache(2) by (auto split: if_splits)
qed

section \<open>Inodes on the disk\<close>

definition dinode_at :: "(u32 \<Rightarrow> byte list) \<Rightarrow> superblock \<Rightarrow> u32 \<Rightarrow> dinode" where
  "dinode_at v sb inum = read_dinode (dinode_off inum) (v (IBLOCK inum sb))"

lemma dinode_off_bound: "dinode_off inum + 64 \<le> BSIZE"
proof -
  have "unat (inum mod IPB) < 8" by (simp add: unat_mod_distrib IPB_def)
  then show ?thesis by (simp add: dinode_off_def BSIZE_def)
qed

lemma unat_IBLOCK:
  assumes "sb_wf sb" "b < sb_ninodes sb"
  shows "unat (IBLOCK b sb) = unat (sb_inodestart sb) + unat b div 8"
proof -
  have u: "unat (b div IPB) = unat b div 8" by (simp add: unat_div_distrib IPB_def)
  have "unat b div 8 \<le> unat (sb_ninodes sb) div 8" using assms(2) by (intro div_le_mono) (simp add: word_less_nat_alt)
  then have "unat (sb_inodestart sb) + unat b div 8 \<le> unat (sb_inodestart sb) + unat (sb_ninodes sb) div 8" by simp
  also have "\<dots> < unat (sb_bmapstart sb)" using assms(1) by (simp add: sb_wf_def)
  also have "\<dots> < 2 ^ 32" by (rule unat_less_32)
  finally have "unat (sb_inodestart sb) + unat b div 8 < 2 ^ 32" .
  then show ?thesis using u unat_add32 [of "sb_inodestart sb" "b div IPB"] by (simp add: IBLOCK_def add.commute)
qed

lemma IBLOCK_range:
  assumes "sb_wf sb" "b < sb_ninodes sb"
  shows "unat (IBLOCK b sb) < unat (sb_bmapstart sb)" "log_free (sb_logstart sb) (IBLOCK b sb)" "IBLOCK b sb \<notin> bmap_blocks sb"
proof -
  have "unat b div 8 \<le> unat (sb_ninodes sb) div 8" using assms(2) by (intro div_le_mono) (simp add: word_less_nat_alt)
  then show l: "unat (IBLOCK b sb) < unat (sb_bmapstart sb)" using assms(1) by (simp add: unat_IBLOCK [OF assms] sb_wf_def)
  show "log_free (sb_logstart sb) (IBLOCK b sb)" by (rule log_free_above [OF assms(1)]) (simp add: unat_IBLOCK [OF assms])
  show "IBLOCK b sb \<notin> bmap_blocks sb" using l by (auto simp: bmap_blocks_def)
qed

lemma dinode_place:
  assumes "sb_wf sb" "b < sb_ninodes sb" "c < sb_ninodes sb" "b \<noteq> c" "IBLOCK b sb = IBLOCK c sb"
  shows "dinode_off b + 64 \<le> dinode_off c \<or> dinode_off c + 64 \<le> dinode_off b"
proof -
  have "unat b div 8 = unat c div 8" using assms(5) unat_IBLOCK [OF assms(1,2)] unat_IBLOCK [OF assms(1,3)] by (simp only: add_left_cancel)
  then have "unat b mod 8 \<noteq> unat c mod 8" using assms(4) by (metis div_mult_mod_eq unsigned_word_eqI)
  then show ?thesis by (auto simp: dinode_off_def unat_mod_distrib IPB_def)
qed

lemma dinode_at_write:
  assumes "sb_wf sb" "b < sb_ninodes sb" "length (v (IBLOCK b sb)) = BSIZE" "length (di_addrs di) = NDIRECT + 1" "c < sb_ninodes sb"
  shows "dinode_at (v(IBLOCK b sb := write_dinode (dinode_off b) di (v (IBLOCK b sb)))) sb c =
    (if c = b then di else dinode_at v sb c)"
proof (cases "c = b")
  case True
  then show ?thesis using assms dinode_off_bound [of b] by (simp add: dinode_at_def read_write_dinode)
next
  case False
  show ?thesis
  proof (cases "IBLOCK c sb = IBLOCK b sb")
    case True
    then show ?thesis using False assms dinode_off_bound [of b] dinode_off_bound [of c] dinode_place [OF assms(1,2,5)]
      by (auto simp: dinode_at_def read_write_dinode_other)
  next
    case c: False
    then show ?thesis using False by (simp add: dinode_at_def)
  qed
qed

definition update_effect :: "superblock \<Rightarrow> inode \<Rightarrow> bstore \<Rightarrow> bstore" where
  "update_effect sb i a = a\<lparr>bs_view := (bs_view a)(IBLOCK (i_inum i) sb :=
       write_dinode (dinode_off (i_inum i)) (disk_part i) (bs_view a (IBLOCK (i_inum i) sb))),
     bs_dirty := insert (IBLOCK (i_inum i) sb) (bs_dirty a)\<rparr>"

lemma iupdate_run:
  fixes s :: "'z fsstate_scheme"
  assumes "log_ok D (sb_logstart (fs_sb s)) cap s" "sb_wf (fs_sb s)" "spare cap (babs D s) (Suc k)"
    "i_dev (icache s ip) = D" "i_inum (icache s ip) < sb_ninodes (fs_sb s)" "length (i_addrs (icache s ip)) = NDIRECT + 1"
    "bs_held (babs D s) (IBLOCK (i_inum (icache s ip)) (fs_sb s)) = None"
  shows "runs (iupdate ip) s (\<lambda>_ t. txs D (sb_logstart (fs_sb s)) cap s (update_effect (fs_sb s) (icache s ip) (babs D s)) t)"
  unfolding iupdate_def runs_get_bind update_effect_def assms(4)
  using dinode_off_bound [of "i_inum (icache s ip)"] assms(6) ls.view_length [OF assms(1)]
  by (intro modify_tx [OF assms(1,7) IBLOCK_range(2) [OF assms(2,5)] assms(3)]) (simp add: disk_part_def BSIZE_def)

section \<open>Locking an inode\<close>

text \<open>What the routines on inodes leave alone, besides the cache of blocks and of inodes.\<close>

definition fframe :: "'z fsstate_scheme \<Rightarrow> 'z fsstate_scheme \<Rightarrow> bool" where
  "fframe s t \<longleftrightarrow> kframe s t \<and> fs_sb t = fs_sb s \<and> fsstate.more t = fsstate.more s \<and>
     log_outstanding t = log_outstanding s \<and> log_committing t = log_committing s"

lemma fframe_refl [simp]: "fframe s s"
  by (simp add: fframe_def)

lemma fframe_trans [trans]: "fframe s t \<Longrightarrow> fframe t u \<Longrightarrow> fframe s u"
  using kframe_trans by (auto simp: fframe_def)

lemma lframe_fframe: "lframe s t \<Longrightarrow> fframe s t"
  using lframe_fields(3,4,6,7) [of s t] more_fs(1,3) [of t s] by (simp add: fframe_def)

lemma fframe_curpid: "fframe s t \<Longrightarrow> curpid t = curpid s"
  by (simp add: fframe_def kframe_curpid)

definition holds_inode :: "'z fsstate_scheme \<Rightarrow> nat \<Rightarrow> bool" where
  "holds_inode s ip \<longleftrightarrow> sl_locked (slocks s (Sinode ip)) \<and> sl_pid (slocks s (Sinode ip)) = curpid s"

definition loaded :: "(u32 \<Rightarrow> byte list) \<Rightarrow> superblock \<Rightarrow> inode \<Rightarrow> inode" where
  "loaded v sb i = (if i_valid i then i else (load_part (dinode_at v sb (i_inum i)) i)\<lparr>i_valid := True\<rparr>)"

lemma kframe_slocks [simp]: "kframe s (s\<lparr>slocks := l\<rparr>)" "kframe s (s\<lparr>icache := c\<rparr>)"
  by (simp_all add: kframe_def)

lemma fframe_upd [simp]: "fframe s (s\<lparr>slocks := l\<rparr>)" "fframe s (s\<lparr>icache := c\<rparr>)" "fframe s (s\<lparr>ptable := woken ch (ptable s)\<rparr>)"
  by (simp_all add: fframe_def kframe_woken)

lemma log_ok_thisproc: "log_ok D st cap s \<Longrightarrow> \<exists>p. thisproc s = Some p \<and> curpid s = p_pid (ptable s p)"
  using log_ok_running [of D st cap s] by (auto simp: running_def curpid_def)

lemma ilock_run:
  fixes s :: "'z fsstate_scheme"
  assumes ok: "log_ok D st cap s" and r: "i_ref (icache s ip) > 0" and u: "\<not> sl_locked (slocks s (Sinode ip))"
    and d: "\<not> i_valid (icache s ip) \<Longrightarrow> i_dev (icache s ip) = D \<and> spare cap (babs D s) k \<and>
      bs_held (babs D s) (IBLOCK (i_inum (icache s ip)) (fs_sb s)) = None \<and>
      di_type (dinode_at (bs_view (babs D s)) (fs_sb s) (i_inum (icache s ip))) \<noteq> 0"
  shows "runs (ilock (Some ip)) s (\<lambda>_ t. log_ok D st cap t \<and> babs D t = babs D s \<and> fframe s t \<and> holds_inode t ip \<and>
     icache t = (icache s)(ip := loaded (bs_view (babs D s)) (fs_sb s) (icache s ip)) \<and>
     (\<forall>j. j \<noteq> ip \<longrightarrow> slocks t (Sinode j) = slocks s (Sinode j)))"
proof -
  obtain p where p: "thisproc s = Some p" "curpid s = p_pid (ptable s p)" using log_ok_thisproc [OF ok] by blast
  let ?l = "(slocks s (Sinode ip))\<lparr>sl_locked := True, sl_pid := p_pid (ptable s p)\<rparr>"
  let ?s1 = "s\<lparr>slocks := (slocks s)(Sinode ip := ?l)\<rparr>"
  have a: "acquiresleep (Sinode ip) s = Inr ((), ?s1)"
    by (rule acquiresleep_run [OF log_ok_spin_free [OF ok] p(1) u])
  have ok1: "log_ok D st cap ?s1" using ok by simp
  have h1: "holds_inode ?s1 ip" using p by (simp add: holds_inode_def curpid_def thisproc_def)
  let ?i = "icache s ip" and ?v = "bs_view (babs D s)"
  show ?thesis
  proof (cases "i_valid ?i")
    case True
    then have "ilock (Some ip) s = Inr ((), ?s1)" using a r by (simp add: ilock_def kop_simps)
    then show ?thesis using ok1 h1 True by (simp add: runs_def loaded_def)
  next
    case False
    note d = d [OF False]
    have "bs_held (babs D ?s1) (IBLOCK (i_inum ?i) (fs_sb s)) = None" "spare cap (babs D ?s1) k" using d by simp_all
    from bread_tx [OF ok1 this] obtain bp s2 where s2: "bread D (IBLOCK (i_inum ?i) (fs_sb s)) ?s1 = Inr (bp, s2)"
      "txs D st cap ?s1 ((babs D s)\<lparr>bs_held := (bs_held (babs D s))(IBLOCK (i_inum ?i) (fs_sb s) \<mapsto> bp)\<rparr>) s2"
      "bdata bp s2 = ?v (IBLOCK (i_inum ?i) (fs_sb s))" by (auto simp: runs_def)
    let ?j = "load_part (dinode_at ?v (fs_sb s) (i_inum ?i)) ?i"
    let ?s3 = "s2\<lparr>icache := (icache s)(ip := ?j)\<rparr>"
    have ic: "icache s2 = icache s" "fs_sb s2 = fs_sb s" using txs_fs [OF s2(2)] by simp_all
    have ok3: "log_ok D st cap ?s3" and ab3: "babs D ?s3 = (babs D s)\<lparr>bs_held := (bs_held (babs D s))(IBLOCK (i_inum ?i) (fs_sb s) \<mapsto> bp)\<rparr>"
      using txsD(1,3) [OF s2(2)] by simp_all
    have hb: "bs_held (babs D ?s3) (IBLOCK (i_inum ?i) (fs_sb s)) = Some bp" by (subst ab3) simp
    have bd: "IBLOCK (i_inum ?i) (fs_sb s) \<in> bs_dirty (babs D ?s3) \<or>
        bs_view (babs D ?s3) (IBLOCK (i_inum ?i) (fs_sb s)) = bs_disk (babs D ?s3) (IBLOCK (i_inum ?i) (fs_sb s))"
      using ls.coherent [OF ok, of "IBLOCK (i_inum ?i) (fs_sb s)"] d unfolding ab3 by auto
    from brelse_tx [OF ok3 hb bd] obtain s4 where s4: "brelse bp ?s3 = Inr ((), s4)"
      "txs D st cap ?s3 ((babs D ?s3)\<lparr>bs_held := (bs_held (babs D ?s3))(IBLOCK (i_inum ?i) (fs_sb s) := None)\<rparr>) s4"
      by (auto simp: runs_def)
    have "(bs_held (babs D s))(IBLOCK (i_inum ?i) (fs_sb s) := None) = bs_held (babs D s)" using d by auto
    then have ab4: "babs D s4 = babs D s" using txsD(3) [OF s4(2)] by (simp add: txsD(3) [OF s2(2)])
    let ?t = "s4\<lparr>icache := (icache s4)(ip := ?j\<lparr>i_valid := True\<rparr>)\<rparr>"
    have ic4: "icache s4 = (icache s)(ip := ?j)" using txs_fs(2) [OF s4(2)] by simp
    have run: "ilock (Some ip) s = Inr ((), ?t)"
      using a r False d s2(1,3) s4(1) ic ic4 by (simp add: ilock_def kop_simps dinode_at_def load_part_def)
    have "fframe s ?s1" by simp
    also have "fframe ?s1 s2" using txsD(2) [OF s2(2)] by (rule lframe_fframe)
    also have "fframe s2 ?s3" by simp
    also have "fframe ?s3 s4" using txsD(2) [OF s4(2)] by (rule lframe_fframe)
    finally have fr: "fframe s s4" .
    have sl: "slocks s4 (Sinode j) = slocks ?s1 (Sinode j)" for j
      using lframe_fields(8) [OF txsD(2) [OF s2(2)]] lframe_fields(8) [OF txsD(2) [OF s4(2)]] by simp
    have "holds_inode ?t ip"
      using h1 sl fframe_curpid [OF fr] fframe_curpid [of s4 ?t] fframe_curpid [of s ?s1] by (simp add: holds_inode_def)
    then show ?thesis
      using run txsD(1) [OF s4(2)] ab4 ic4 fr sl False fframe_trans [OF fr, of ?t]
      by (simp add: runs_def loaded_def)
  qed
qed

lemma iunlock_run:
  fixes s :: "'z fsstate_scheme"
  assumes ok: "log_ok D st cap s" and r: "i_ref (icache s ip) > 0" and h: "holds_inode s ip"
  shows "runs (iunlock (Some ip)) s (\<lambda>_ t. log_ok D st cap t \<and> babs D t = babs D s \<and> fframe s t \<and> icache t = icache s \<and>
     \<not> sl_locked (slocks t (Sinode ip)) \<and> (\<forall>j. j \<noteq> ip \<longrightarrow> slocks t (Sinode j) = slocks s (Sinode j)))"
proof -
  obtain p where p: "thisproc s = Some p" "curpid s = p_pid (ptable s p)" using log_ok_thisproc [OF ok] by blast
  note sf = log_ok_spin_free [OF ok]
  let ?l = "(slocks s (Sinode ip))\<lparr>sl_locked := False, sl_pid := 0\<rparr>"
  let ?w = "s\<lparr>ptable := woken (Cslock (Sinode ip)) (ptable s)\<rparr>"
  let ?t = "?w\<lparr>slocks := (slocks ?w)(Sinode ip := ?l)\<rparr>"
  have "iunlock (Some ip) s = Inr ((), ?t)"
    using holdingsleep_run [OF sf p(1), of "Sinode ip"] releasesleep_run [OF sf, of "Sinode ip"] h r p
    by (simp add: iunlock_def kop_simps holds_inode_def)
  moreover have "log_ok D st cap ?t" unfolding log_ok_inode_lock by (rule log_ok_woken(1) [OF ok])
  moreover have "babs D ?t = babs D s" unfolding log_ok_inode_lock by (rule log_ok_woken(2))
  moreover have "fframe s ?t" using fframe_trans [of s ?w ?t] by simp
  ultimately show ?thesis by (simp add: runs_def)
qed

text \<open>
  C24. \<open>iupdate\<close> and \<open>ilock\<close> agree on the format of inodes: after \<open>iupdate\<close> the inode's place on the
  disk reads back as the copy in memory and every other inode reads as before; and when the slot of
  the cache is unlocked and has been given to the inode anew, whatever else it contains, \<open>ilock\<close> fills
  it with exactly that copy and holds its lock.
\<close>

theorem inode_roundtrip:
  fixes s :: "'z fsstate_scheme"
  assumes "log_ok D (sb_logstart (fs_sb s)) cap s" "sb_wf (fs_sb s)" "spare cap (babs D s) 2" "bs_held (babs D s) = Map.empty"
    and "i_dev (icache s ip) = D" "i_inum (icache s ip) < sb_ninodes (fs_sb s)" "length (i_addrs (icache s ip)) = NDIRECT + 1"
    and "i_type (icache s ip) \<noteq> 0"
  shows "\<exists>t. iupdate ip s = Inr ((), t) \<and>
     (\<forall>c. c < sb_ninodes (fs_sb s) \<longrightarrow> dinode_at (bs_view (babs D t)) (fs_sb s) c =
        (if c = i_inum (icache s ip) then disk_part (icache s ip) else dinode_at (bs_view (babs D s)) (fs_sb s) c)) \<and>
     (\<forall>i l. i_dev i = D \<and> i_inum i = i_inum (icache s ip) \<and> i_ref i > 0 \<and> \<not> i_valid i \<and> \<not> sl_locked l \<longrightarrow>
        (\<exists>u. ilock (Some ip) (t\<lparr>slocks := (slocks t)(Sinode ip := l), icache := (icache t)(ip := i)\<rparr>) = Inr ((), u) \<and>
           holds_inode u ip \<and> i_valid (icache u ip) \<and> disk_part (icache u ip) = disk_part (icache s ip) \<and> babs D u = babs D t))"
proof -
  let ?sb = "fs_sb s" and ?i = "icache s ip" and ?a = "babs D s"
  obtain t where t: "iupdate ip s = Inr ((), t)" "txs D (sb_logstart ?sb) cap s (update_effect ?sb ?i ?a) t"
    using iupdate_run [OF assms(1,2) _ assms(5-7), of 1] assms(3,4) by (auto simp: runs_def numeral_2_eq_2)
  note f = txs_fs [OF t(2)] and ab = txsD(3) [OF t(2)]
  have v: "bs_view (babs D t) = (bs_view ?a)(IBLOCK (i_inum ?i) ?sb := write_dinode (dinode_off (i_inum ?i)) (disk_part ?i) (bs_view ?a (IBLOCK (i_inum ?i) ?sb)))"
    by (simp add: ab update_effect_def)
  have di: "dinode_at (bs_view (babs D t)) ?sb c = (if c = i_inum ?i then disk_part ?i else dinode_at (bs_view ?a) ?sb c)"
    if "c < sb_ninodes ?sb" for c
    unfolding v using assms(7) ls.view_length [OF assms(1)]
    by (intro dinode_at_write [OF assms(2,6) _ _ that]) (simp_all add: disk_part_def)
  have sp: "spare cap (babs D t) 1"
    using assms(3) by (intro spare_dirty [of cap ?a 1 _ "IBLOCK (i_inum ?i) ?sb"]) (simp_all add: ab update_effect_def numeral_2_eq_2)
  have h: "bs_held (babs D t) = Map.empty" using assms(4) by (simp add: ab update_effect_def)
  have ty: "di_type (disk_part ?i) \<noteq> 0" using assms(8) by (simp add: disk_part_def)
  have "\<exists>u. ilock (Some ip) (t\<lparr>slocks := (slocks t)(Sinode ip := l), icache := (icache t)(ip := i)\<rparr>) = Inr ((), u) \<and>
      holds_inode u ip \<and> i_valid (icache u ip) \<and> disk_part (icache u ip) = disk_part ?i \<and> babs D u = babs D t"
    if i: "i_dev i = D" "i_inum i = i_inum ?i" "i_ref i > 0" "\<not> i_valid i" "\<not> sl_locked l" for i l
  proof -
    let ?t = "t\<lparr>slocks := (slocks t)(Sinode ip := l), icache := (icache t)(ip := i)\<rparr>"
    have ok: "log_ok D (sb_logstart ?sb) cap ?t" and abt: "babs D ?t = babs D t" using txsD(1) [OF t(2)] by simp_all
    obtain u where u: "ilock (Some ip) ?t = Inr ((), u)" "holds_inode u ip" "babs D u = babs D t"
      "icache u = (icache ?t)(ip := loaded (bs_view (babs D t)) ?sb i)"
      using ilock_run [OF ok, of ip 1] i sp h ty di [OF assms(6)] f abt by (auto simp: runs_def)
    have "i_valid (icache u ip) \<and> disk_part (icache u ip) = disk_part ?i"
      using u(4) i di [OF assms(6)] by (simp add: loaded_def load_part_def disk_part_def)
    then show ?thesis using u(1-3) by blast
  qed
  then show ?thesis using t(1) di by blast
qed

theorem inode_roundtrip_witness:
  "\<exists>s t :: fsstate. iupdate 0 s = Inr ((), t) \<and> i_size (icache s 0) = 77 \<and> di_size (dinode_at (bs_view (babs 1 t)) demo_sb 5) = 77"
proof -
  let ?i = "(icache demo_fs 0)\<lparr>i_dev := 1, i_inum := 5, i_type := 2, i_size := 77\<rparr>"
  let ?s = "demo_fs\<lparr>icache := (icache demo_fs)(0 := ?i)\<rparr>"
  have l: "length (i_addrs (icache demo_fs 0)) = NDIRECT + 1"
    by (simp add: demo_fs(3) demo_boot_def boot_bio_def zero_log_def zero_fs_def NDIRECT_def)
  have s: "sb_logstart demo_sb = 2" "sb_ninodes demo_sb = 200" by (simp_all add: demo_sb_def)
  have i: "icache ?s 0 = ?i" "fs_sb ?s = demo_sb" using demo_fs(2) by simp_all
  have "\<exists>t. iupdate 0 ?s = Inr ((), t) \<and> dinode_at (bs_view (babs 1 t)) demo_sb 5 = disk_part ?i"
    using inode_roundtrip [of 1 ?s 29 0, unfolded i] demo_fs(1,4) demo_wf(1) demo_spare l s by fastforce
  then obtain t where "iupdate 0 ?s = Inr ((), t)" "dinode_at (bs_view (babs 1 t)) demo_sb 5 = disk_part ?i" by blast
  then show ?thesis by (intro exI [of _ ?s] exI [of _ t]) (simp add: disk_part_def)
qed

end
