(* ===== verification/Fcontent.thy ===== *)
theory Fcontent
  imports Finode
begin

text \<open>
  The content of a file, \<open>kern/fs.c\<close>: the block map of an inode (\<open>bmap\<close>), and the transfer of bytes
  (\<open>readi\<close>, \<open>writei\<close>) over it. \<open>fb v i m\<close> is block \<open>m\<close> of the file of inode \<open>i\<close> on a store \<open>v\<close>,
  \<open>fbyte\<close> its bytes.
\<close>

unbundle bit_operations_syntax


section \<open>The blocks of a file\<close>

text \<open>
  Block \<open>m\<close> of a file for \<open>m < 140\<close>, and its indirect block for \<open>m = 140\<close>; zero when there is none.
\<close>

definition fb :: "(u32 \<Rightarrow> byte list) \<Rightarrow> inode \<Rightarrow> nat \<Rightarrow> u32" where
  "fb v i m = (if m = 140 then i_addrs i ! NDIRECT else if m < NDIRECT then i_addrs i ! m
     else if i_addrs i ! NDIRECT = 0 then 0 else get32 (4 * (m - NDIRECT)) (v (i_addrs i ! NDIRECT)))"

definition data_blk :: "(u32 \<Rightarrow> byte list) \<Rightarrow> superblock \<Rightarrow> u32 \<Rightarrow> bool" where
  "data_blk v sb b \<longleftrightarrow> nmeta sb \<le> unat b \<and> b < sb_size sb \<and> blk_used v sb b"

text \<open>The blocks of a file are data blocks in use, and no block occurs twice.\<close>

definition file_ok :: "(u32 \<Rightarrow> byte list) \<Rightarrow> superblock \<Rightarrow> inode \<Rightarrow> bool" where
  "file_ok v sb i \<longleftrightarrow> length (i_addrs i) = NDIRECT + 1 \<and> (\<forall>m\<le>140. fb v i m \<noteq> 0 \<longrightarrow> data_blk v sb (fb v i m)) \<and>
     (\<forall>m\<le>140. \<forall>k\<le>140. fb v i m \<noteq> 0 \<longrightarrow> fb v i m = fb v i k \<longrightarrow> m = k)"

lemma fb_140: "fb v i 140 = i_addrs i ! NDIRECT"
  by (simp add: fb_def)

lemma file_okD:
  assumes "file_ok v sb i"
  shows "length (i_addrs i) = NDIRECT + 1" "m \<le> 140 \<Longrightarrow> fb v i m \<noteq> 0 \<Longrightarrow> data_blk v sb (fb v i m)"
    "m \<le> 140 \<Longrightarrow> k \<le> 140 \<Longrightarrow> fb v i m \<noteq> 0 \<Longrightarrow> fb v i m = fb v i k \<Longrightarrow> m = k"
  using assms by (simp_all add: file_ok_def)

lemma fb_ind_zero: "fb v i 140 = 0 \<Longrightarrow> NDIRECT \<le> m \<Longrightarrow> fb v i m = 0"
  by (simp add: fb_def)

text \<open>Blocks in use keep their content while a block that is free is allocated.\<close>

lemma used_same:
  assumes "sb_wf sb" "data_blk v sb b" "\<not> blk_used v sb x" "\<And>b. b \<noteq> x \<Longrightarrow> b \<notin> bmap_blocks sb \<Longrightarrow> w b = v b"
  shows "w b = v b"
proof -
  have "b \<notin> bmap_blocks sb" using data_block(2) [OF assms(1)] assms(2) by (simp add: data_blk_def)
  moreover have "b \<noteq> x" using assms(2,3) by (auto simp: data_blk_def)
  ultimately show ?thesis by (rule assms(4) [rotated])
qed

lemma data_blk_nz: "sb_wf sb \<Longrightarrow> data_blk v sb b \<Longrightarrow> b \<noteq> 0 \<and> b \<notin> bmap_blocks sb \<and> log_free (sb_logstart sb) b"
  using data_block [of sb b] by (auto simp: data_blk_def sb_wf_def)

text \<open>Setting one entry of the block map.\<close>

lemma file_ok_set:
  assumes "file_ok v sb i" "length (i_addrs j) = NDIRECT + 1" "m \<le> 140" "x \<noteq> 0"
    and f: "\<And>k. k \<le> 140 \<Longrightarrow> fb w j k = (if k = m then x else fb v i k)"
    and u: "\<And>b. b < sb_size sb \<Longrightarrow> blk_used w sb b \<longleftrightarrow> blk_used v sb b \<or> b = x"
    and x: "nmeta sb \<le> unat x" "x < sb_size sb" "\<not> blk_used v sb x"
  shows "file_ok w sb j"
proof -
  have ne: "fb v i k \<noteq> x" if "k \<le> 140" for k using assms(1) that x(3) assms(4) by (auto simp: file_ok_def data_blk_def)
  have mono: "data_blk v sb b \<Longrightarrow> data_blk w sb b" for b using u by (auto simp: data_blk_def)
  have "data_blk w sb (fb w j k)" if "k \<le> 140" "fb w j k \<noteq> 0" for k
    using that assms(1) mono x u by (auto simp: f file_ok_def data_blk_def)
  moreover have "k = l" if "k \<le> 140" "l \<le> 140" "fb w j k \<noteq> 0" "fb w j k = fb w j l" for k l
    using that assms(1) ne [of k] ne [of l] by (auto simp: f file_ok_def split: if_splits)
  ultimately show ?thesis using assms(2) by (auto simp: file_ok_def)
qed

lemma get32_zeros: "off + 4 \<le> BSIZE \<Longrightarrow> get32 off (replicate BSIZE 0) = 0"
proof -
  assume "off + 4 \<le> BSIZE"
  then have "slice off 4 (replicate BSIZE (0 :: byte)) = replicate 4 0" by (simp add: slice_def drop_replicate)
  then show ?thesis by (simp add: get32_def numeral_eq_Suc)
qed

lemma fb_set_direct:
  assumes "file_ok v sb i" "sb_wf sb" "m < NDIRECT" "\<not> blk_used v sb x" "\<And>b. b \<noteq> x \<Longrightarrow> b \<notin> bmap_blocks sb \<Longrightarrow> w b = v b" "k \<le> 140"
  shows "fb w (i\<lparr>i_addrs := (i_addrs i)[m := x]\<rparr>) k = (if k = m then x else fb v i k)"
proof -
  have "w (i_addrs i ! NDIRECT) = v (i_addrs i ! NDIRECT)" if "i_addrs i ! NDIRECT \<noteq> 0"
  proof (rule used_same [OF assms(2) _ assms(4,5)])
    show "data_blk v sb (i_addrs i ! NDIRECT)" using file_okD(2) [OF assms(1), of 140] that by (simp add: fb_140)
  qed
  then show ?thesis using file_okD(1) [OF assms(1)] assms(3,6) by (auto simp: fb_def NDIRECT_def)
qed

lemma fb_set_indirect:
  assumes "file_ok v sb i" "fb v i 140 = 0" "w x = replicate BSIZE 0" "k \<le> 140"
  shows "fb w (i\<lparr>i_addrs := (i_addrs i)[NDIRECT := x]\<rparr>) k = (if k = 140 then x else fb v i k)"
  using file_okD(1) [OF assms(1)] assms(2-4) get32_zeros [of "4 * (k - NDIRECT)"]
  by (auto simp: fb_def NDIRECT_def BSIZE_def)

lemma fb_set_entry:
  assumes "file_ok v sb i" "sb_wf sb" "NDIRECT \<le> m" "m < 140" "fb v i 140 = a" "a \<noteq> 0" "\<not> blk_used v sb x"
    "\<And>b. b \<noteq> x \<Longrightarrow> b \<notin> bmap_blocks sb \<Longrightarrow> w b = v b" "length (v a) = BSIZE" "k \<le> 140"
  shows "fb (w(a := put32 (4 * (m - NDIRECT)) x (w a))) i k = (if k = m then x else fb v i k)"
proof -
  have a: "i_addrs i ! NDIRECT = a" using assms(5) by (simp add: fb_def)
  have wa: "w a = v a"
  proof (rule used_same [OF assms(2) _ assms(7,8)])
    show "data_blk v sb a" using file_okD(2) [OF assms(1), of 140] assms(5,6) by simp
  qed
  have "k \<noteq> m \<Longrightarrow> NDIRECT \<le> k \<Longrightarrow> k < 140 \<Longrightarrow>
      get32 (4 * (k - NDIRECT)) (put32 (4 * (m - NDIRECT)) x (v a)) = get32 (4 * (k - NDIRECT)) (v a)"
    using assms(3,4,9) by (intro get_put_other) (auto simp: NDIRECT_def BSIZE_def)
  then show ?thesis using assms(3,4,6,9,10) a wa by (auto simp: fb_def BSIZE_def NDIRECT_def)
qed

section \<open>The block map\<close>

lemma balloc_tx:
  fixes s :: "'z fsstate_scheme"
  assumes "log_ok D (sb_logstart (fs_sb s)) cap s" "sb_wf (fs_sb s)" "spare cap (babs D s) 2"
    "meta_used (bs_view (babs D s)) (fs_sb s)" "0 < nfree (bs_view (babs D s)) (fs_sb s)"
    "\<And>b. b \<in> dom (bs_held (babs D s)) \<Longrightarrow> b \<notin> bmap_blocks (fs_sb s) \<and> blk_used (bs_view (babs D s)) (fs_sb s) b"
  shows "runs (balloc D) s (\<lambda>x t. \<exists>n. x = of_nat n \<and> first_free (bs_view (babs D s)) (fs_sb s) = Some n \<and>
     txs D (sb_logstart (fs_sb s)) cap s (alloc_effect (fs_sb s) x (babs D s)) t)"
proof -
  obtain n where n: "first_free (bs_view (babs D s)) (fs_sb s) = Some n" using first_free_nfree [OF assms(5)] by blast
  have "b \<notin> bmap_blocks (fs_sb s) \<and> b \<noteq> of_nat n" if "b \<in> dom (bs_held (babs D s))" for b
    using assms(6) [OF that] first_free_data(3) [OF assms(4) n] by auto
  from balloc_run [OF assms(1-4) n this] show ?thesis by (rule runs_mono) (auto simp: n)
qed

text \<open>
  What one call of \<open>bmap\<close> for block \<open>m\<close> of the file in slot \<open>ip\<close> does, when it returns \<open>a\<close>.
\<close>

definition mapped :: "u32 \<Rightarrow> nat \<Rightarrow> 'z fsstate_scheme \<Rightarrow> nat \<Rightarrow> nat \<Rightarrow> u32 \<Rightarrow> 'z fsstate_scheme \<Rightarrow> bool" where
  "mapped D cap s ip m a t \<longleftrightarrow> (let v = bs_view (babs D s); w = bs_view (babs D t); sb = fs_sb s; i = icache s ip; j = icache t ip in
     log_ok D (sb_logstart sb) cap t \<and> fframe s t \<and> (\<forall>k. slocks t (Sinode k) = slocks s (Sinode k)) \<and>
     bs_held (babs D t) = bs_held (babs D s) \<and> bs_disk (babs D t) = bs_disk (babs D s) \<and> meta_used w sb \<and>
     icache t = (icache s)(ip := i\<lparr>i_addrs := i_addrs j\<rparr>) \<and> file_ok w sb j \<and>
     a \<noteq> 0 \<and> (\<forall>k<140. fb w j k = (if k = m then a else fb v i k)) \<and>
     (\<forall>k\<le>140. fb w j k = fb v i k \<or> \<not> blk_used v sb (fb w j k)) \<and>
     (if fb v i m = 0 then w a = replicate BSIZE 0 else babs D t = babs D s \<and> j = i) \<and>
     (\<forall>b. b < sb_size sb \<longrightarrow> blk_used v sb b \<longrightarrow> blk_used w sb b \<and> (b \<notin> bmap_blocks sb \<longrightarrow> b \<noteq> fb v i 140 \<longrightarrow> w b = v b)) \<and>
     nfree v sb \<le> nfree w sb + 2 \<and> (\<exists>X. finite X \<and> card X \<le> 4 \<and> bs_dirty (babs D t) = bs_dirty (babs D s) \<union> X))"


definition entry_effect :: "superblock \<Rightarrow> nat \<Rightarrow> u32 \<Rightarrow> u32 \<Rightarrow> bstore \<Rightarrow> bstore" where
  "entry_effect sb m a x b = (let c = alloc_effect sb x b in
     c\<lparr>bs_view := (bs_view c)(a := put32 (4 * (m - NDIRECT)) x (bs_view c a)), bs_dirty := insert a (bs_dirty c)\<rparr>)"

lemma bmap_entry:
  fixes t :: "'z fsstate_scheme"
  assumes ok: "log_ok D (sb_logstart (fs_sb t)) cap t" and wf: "sb_wf (fs_sb t)" and mu: "meta_used (bs_view (babs D t)) (fs_sb t)"
    and a: "data_blk (bs_view (babs D t)) (fs_sb t) a" and h: "bs_held (babs D t) = Map.empty"
    and m: "NDIRECT \<le> m" "m < 140" and nf: "get32 (4 * (m - NDIRECT)) (bs_view (babs D t) a) = 0 \<Longrightarrow> 0 < nfree (bs_view (babs D t)) (fs_sb t)" and sp: "spare cap (babs D t) (k + 4)"
  defines "e \<equiv> get32 (4 * (m - NDIRECT)) (bs_view (babs D t) a)"
  shows "runs (bind (bread D a) (\<lambda>bp. bind (get (bdata bp)) (\<lambda>d. bind (if get32 (4 * (m - NDIRECT)) d = 0 then
           bind (balloc D) (\<lambda>x. seq (buf_write bp (put32 (4 * (m - NDIRECT)) x)) (seq (log_write bp) (ret x)))
         else ret (get32 (4 * (m - NDIRECT)) d)) (\<lambda>x. seq (brelse bp) (ret x))))) t
      (\<lambda>x u. if e \<noteq> 0 then x = e \<and> txs D (sb_logstart (fs_sb t)) cap t (babs D t) u
         else \<exists>n. first_free (bs_view (babs D t)) (fs_sb t) = Some n \<and> x = of_nat n \<and>
           txs D (sb_logstart (fs_sb t)) cap t (entry_effect (fs_sb t) m a x (babs D t)) u \<and> spare cap (babs D u) (k + 1))"
proof (rule runs_bind [OF bread_tx [OF ok _ sp]])
  show "bs_held (babs D t) a = None" by (simp add: h)
  fix bp s1 assume *: "txs D (sb_logstart (fs_sb t)) cap t ((babs D t)\<lparr>bs_held := (bs_held (babs D t))(a \<mapsto> bp)\<rparr>) s1 \<and>
     bdata bp s1 = bs_view (babs D t) a"
  let ?sb = "fs_sb t" and ?o = "4 * (m - NDIRECT)" and ?v = "bs_view (babs D t)"
  have s1: "txs D (sb_logstart ?sb) cap t ((babs D t)\<lparr>bs_held := (bs_held (babs D t))(a \<mapsto> bp)\<rparr>) s1" and d: "bdata bp s1 = ?v a"
    using * by blast+
  note ab = txsD(3) [OF s1] and fs = txs_fs [OF s1]
  have ab2: "bs_view (babs D s1) = ?v" "bs_dirty (babs D s1) = bs_dirty (babs D t)" "bs_held (babs D s1) = [a \<mapsto> bp]"
    by (simp_all add: ab h)
  have ad: "a \<notin> bmap_blocks ?sb" "log_free (sb_logstart ?sb) a" "blk_used ?v ?sb a"
    using a data_blk_nz [OF wf a] by (simp_all add: data_blk_def)
  show "runs (bind (get (bdata bp)) (\<lambda>d. bind (if get32 ?o d = 0 then
           bind (balloc D) (\<lambda>x. seq (buf_write bp (put32 ?o x)) (seq (log_write bp) (ret x)))
         else ret (get32 ?o d)) (\<lambda>x. seq (brelse bp) (ret x)))) s1
      (\<lambda>x u. if e \<noteq> 0 then x = e \<and> txs D (sb_logstart ?sb) cap t (babs D t) u
         else \<exists>n. first_free ?v ?sb = Some n \<and> x = of_nat n \<and>
           txs D (sb_logstart ?sb) cap t (entry_effect ?sb m a x (babs D t)) u \<and> spare cap (babs D u) (k + 1))"
  proof (cases "e = 0")
    case False
    have hb: "bs_held (babs D s1) a = Some bp" by (simp add: ab2)
    have co: "a \<in> bs_dirty (babs D s1) \<or> bs_view (babs D s1) a = bs_disk (babs D s1) a"
      using ls.coherent [OF ok, of a] by (auto simp: ab h)
    have un: "(babs D s1)\<lparr>bs_held := (bs_held (babs D s1))(a := None)\<rparr> = babs D t" using h by (simp add: ab)
    show ?thesis using False d runs_bind [OF brelse_tx [OF txsD(1) [OF s1] hb co], of "\<lambda>_. ret e"] txs_trans [OF s1]
      by (simp add: e_def un)
  next
    case True
    have sp1: "spare cap (babs D s1) (k + 3)" using sp by (intro spare_held [of cap "babs D t" "k + 3" _ a]) (simp_all add: ab2 h add.commute)
    have us: "b \<notin> bmap_blocks (fs_sb s1) \<and> blk_used (bs_view (babs D s1)) (fs_sb s1) b" if "b \<in> dom (bs_held (babs D s1))" for b
      using that ad by (simp add: ab2 fs split: if_splits)
    have al: "runs (balloc D) s1 (\<lambda>x w. \<exists>n. x = of_nat n \<and> first_free ?v ?sb = Some n \<and>
        txs D (sb_logstart ?sb) cap s1 (alloc_effect ?sb x (babs D s1)) w)"
      using balloc_tx [of D s1 cap] txsD(1) [OF s1] wf spare_mono [OF sp1, of 2] mu nf True us unfolding e_def by (simp add: fs ab2)
    have fin: "runs (seq (buf_write bp (put32 ?o x)) (seq (log_write bp) (seq (brelse bp) (ret x)))) w
        (\<lambda>x u. \<exists>n. first_free ?v ?sb = Some n \<and> x = of_nat n \<and>
           txs D (sb_logstart ?sb) cap t (entry_effect ?sb m a x (babs D t)) u \<and> spare cap (babs D u) (k + 1))"
      if n: "x = of_nat n" "first_free ?v ?sb = Some n" "txs D (sb_logstart ?sb) cap s1 (alloc_effect ?sb x (babs D s1)) w" for x w n
    proof -
      note f = first_free_data [OF mu n(2)]
      have "a \<noteq> x" using ad(3) f(3) n(1) by auto
      note aw = txsD(3) [OF n(3)]
      have vw: "bs_dirty (babs D w) = bs_dirty (babs D t) \<union> {BBLOCK x ?sb, x}" "bs_held (babs D w) = [a \<mapsto> bp]"
        by (simp_all add: aw alloc_effect_def ab2)
      have sp2: "spare cap (babs D w) (Suc k)"
      proof (rule spare_dirty [where b = x])
        show "spare cap ((babs D s1)\<lparr>bs_dirty := insert (BBLOCK x ?sb) (bs_dirty (babs D s1))\<rparr>) (Suc (Suc k))"
          by (rule spare_dirty [where b = "BBLOCK x ?sb" and a = "babs D s1"]) (use sp1 in \<open>simp_all add: numeral_3_eq_3\<close>)
      qed (auto simp: vw ab2)
      have "runs (seq (buf_write bp (put32 ?o x)) (seq (log_write bp) (brelse bp))) w
         (\<lambda>_ u. txs D (sb_logstart ?sb) cap w ((babs D w)\<lparr>bs_view := (bs_view (babs D w))(a := put32 ?o x (bs_view (babs D w) a)),
            bs_dirty := insert a (bs_dirty (babs D w)), bs_held := (bs_held (babs D w))(a := None)\<rparr>) u)"
        using m ls.view_length [OF txsD(1) [OF n(3)], of a]
        by (intro write_tx [OF txsD(1) [OF n(3)] _ ad(2) sp2]) (simp_all add: vw BSIZE_def NDIRECT_def)
      moreover have "(babs D w)\<lparr>bs_view := (bs_view (babs D w))(a := put32 ?o x (bs_view (babs D w) a)),
            bs_dirty := insert a (bs_dirty (babs D w)), bs_held := (bs_held (babs D w))(a := None)\<rparr> = entry_effect ?sb m a x (babs D t)"
        by (simp add: aw alloc_effect_def entry_effect_def ab h Let_def)
      ultimately have "runs (seq (buf_write bp (put32 ?o x)) (seq (log_write bp) (brelse bp))) w
         (\<lambda>_ u. txs D (sb_logstart ?sb) cap w (entry_effect ?sb m a x (babs D t)) u)" by simp
      then have "runs (bind (seq (buf_write bp (put32 ?o x)) (seq (log_write bp) (brelse bp))) (\<lambda>_. ret x)) w
         (\<lambda>y u. y = x \<and> txs D (sb_logstart ?sb) cap t (entry_effect ?sb m a x (babs D t)) u)"
        by (rule runs_bind) (auto dest: txs_trans [OF txs_trans [OF s1 n(3)]])
      moreover have "spare cap (babs D u) (k + 1)" if "txs D (sb_logstart ?sb) cap t (entry_effect ?sb m a x (babs D t)) u" for u
      proof (rule spare_mono [of cap _ "Suc k"])
        have "bs_dirty (babs D u) \<union> dom (bs_held (babs D u)) = bs_dirty (babs D w) \<union> dom (bs_held (babs D w))"
          using txsD(3) [OF that] by (auto simp: entry_effect_def alloc_effect_def vw h Let_def)
        moreover have "finite (bs_dirty (babs D u))" "finite (dom (bs_held (babs D u)))"
          using txsD(3) [OF that] sp2 by (auto simp: entry_effect_def alloc_effect_def vw h Let_def spare_def)
        ultimately show "spare cap (babs D u) (Suc k)" using sp2 by (simp add: spare_def)
      qed simp
      ultimately show ?thesis using n(1,2) by (fastforce simp: bind_assoc elim!: runs_mono)
    qed
    have "runs (bind (balloc D) (\<lambda>x. seq (buf_write bp (put32 ?o x)) (seq (log_write bp) (seq (brelse bp) (ret x))))) s1
        (\<lambda>x u. \<exists>n. first_free ?v ?sb = Some n \<and> x = of_nat n \<and>
           txs D (sb_logstart ?sb) cap t (entry_effect ?sb m a x (babs D t)) u \<and> spare cap (babs D u) (k + 1))"
      by (rule runs_bind [OF al]) (blast intro: fin)
    then show ?thesis using True d by (simp add: e_def bind_assoc)
  qed
qed


text \<open>The file system between two operations, and the slot of a file that the running process works on.\<close>

definition fs_inv :: "u32 \<Rightarrow> nat \<Rightarrow> 'z fsstate_scheme \<Rightarrow> bool" where
  "fs_inv D cap s \<longleftrightarrow> log_ok D (sb_logstart (fs_sb s)) cap s \<and> sb_wf (fs_sb s) \<and>
     meta_used (bs_view (babs D s)) (fs_sb s) \<and> bs_held (babs D s) = Map.empty"

definition file_inv :: "u32 \<Rightarrow> nat \<Rightarrow> 'z fsstate_scheme \<Rightarrow> nat \<Rightarrow> bool" where
  "file_inv D cap s ip \<longleftrightarrow> fs_inv D cap s \<and> i_dev (icache s ip) = D \<and>
     file_ok (bs_view (babs D s)) (fs_sb s) (icache s ip)"

lemma fs_invD:
  assumes "fs_inv D cap s"
  shows "log_ok D (sb_logstart (fs_sb s)) cap s" "sb_wf (fs_sb s)" "meta_used (bs_view (babs D s)) (fs_sb s)"
    "bs_held (babs D s) = Map.empty"
  using assms by (simp_all add: fs_inv_def)

lemma alloc_nz:
  assumes "sb_wf sb" "meta_used v sb" "first_free v sb = Some n"
  shows "(of_nat n :: u32) \<noteq> 0" "(of_nat n :: u32) < sb_size sb" "nmeta sb \<le> unat (of_nat n :: u32)"
  using first_free_data [OF assms(2,3)] assms(1) by (auto simp: sb_wf_def word_less_nat_alt)

lemma spare_union:
  assumes "spare cap a (k + c)" "finite X" "card X \<le> c" "bs_dirty b = bs_dirty a \<union> X" "bs_held b = bs_held a"
  shows "spare cap b k"
proof -
  have "bs_dirty b \<union> dom (bs_held b) = (bs_dirty a \<union> dom (bs_held a)) \<union> X" using assms(4,5) by auto
  then have "card (bs_dirty b \<union> dom (bs_held b)) \<le> card (bs_dirty a \<union> dom (bs_held a)) + card X"
    by (simp add: card_Un_le)
  then show ?thesis using assms by (simp add: spare_def)
qed

text \<open>Allocating a block and entering it in the inode itself.\<close>

lemma mapped_direct:
  fixes s :: "'z fsstate_scheme"
  assumes fi: "file_inv D cap s ip" and m: "m < NDIRECT \<or> m = 140" and z: "fb (bs_view (babs D s)) (icache s ip) m = 0"
    and ff: "first_free (bs_view (babs D s)) (fs_sb s) = Some n" and x: "x = of_nat n"
    and t: "txs D (sb_logstart (fs_sb s)) cap s (alloc_effect (fs_sb s) x (babs D s)) t"
    and j: "j = (if m = 140 then NDIRECT else m)"
    and u: "u = t\<lparr>icache := (icache t)(ip := (icache t ip)\<lparr>i_addrs := (i_addrs (icache t ip))[j := x]\<rparr>)\<rparr>"
  shows "file_inv D cap u ip" "fframe s u" "\<forall>k. slocks u (Sinode k) = slocks s (Sinode k)"
    "icache u = (icache s)(ip := (icache s ip)\<lparr>i_addrs := i_addrs (icache u ip)\<rparr>)"
    "k \<le> 140 \<Longrightarrow> fb (bs_view (babs D u)) (icache u ip) k = (if k = m then x else fb (bs_view (babs D s)) (icache s ip) k)"
    "x \<noteq> 0" "babs D u = alloc_effect (fs_sb s) x (babs D s)"
proof -
  let ?v = "bs_view (babs D s)" and ?sb = "fs_sb s" and ?i = "icache s ip" and ?w = "bs_view (babs D t)"
  have inv: "fs_inv D cap s" and dev: "i_dev ?i = D" and fok: "file_ok ?v ?sb ?i" using fi by (simp_all add: file_inv_def)
  note I = fs_invD [OF inv] and ab = txsD(3) [OF t] and fs = txs_fs [OF t]
  note e = alloc_effect_facts [OF I(2) ls.view_length [OF I(1)] I(3) ff, folded x]
  note nz = alloc_nz [OF I(2,3) ff, folded x] and un = first_free_data(3) [OF I(3) ff, folded x]
  have w: "?w = bs_view (alloc_effect ?sb x (babs D s))" by (simp add: ab)
  have other: "\<And>b. b \<noteq> x \<Longrightarrow> b \<notin> bmap_blocks ?sb \<Longrightarrow> ?w b = ?v b" unfolding w by (rule e(3))
  show au: "babs D u = alloc_effect ?sb x (babs D s)" by (simp add: u ab)
  have iu: "icache u ip = ?i\<lparr>i_addrs := (i_addrs ?i)[j := x]\<rparr>" by (simp add: u fs)
  show F: "fb (bs_view (babs D u)) (icache u ip) k = (if k = m then x else fb ?v ?i k)" if k: "k \<le> 140" for k
    using m
  proof
    assume md: "m < NDIRECT"
    then have "m \<noteq> 140" by (simp add: NDIRECT_def)
    then show ?thesis using fb_set_direct [OF fok I(2) md un other k] by (simp add: iu j au w [symmetric])
  next
    assume md: "m = 140"
    then show ?thesis using fb_set_indirect [OF fok _ _ k, of ?w x] z e(1) by (simp add: iu j au w)
  qed
  have "file_ok (bs_view (babs D u)) ?sb (icache u ip)"
  proof (rule file_ok_set [OF fok _ _ nz(1) F _ nz(3,2) un])
    show "length (i_addrs (icache u ip)) = NDIRECT + 1" using file_okD(1) [OF fok] by (simp add: iu)
    show "m \<le> 140" using m by (auto simp: NDIRECT_def)
    show "blk_used (bs_view (babs D u)) ?sb b \<longleftrightarrow> blk_used ?v ?sb b \<or> b = x" if "b < sb_size ?sb" for b
      unfolding au by (rule e(2) [OF that])
  qed
  then show "file_inv D cap u ip"
    using dev I(2,4) e(4,6) txsD(1) [OF t] by (simp add: file_inv_def fs_inv_def au iu) (simp add: u fs)
  show "fframe s u" using fframe_trans [OF lframe_fframe [OF txsD(2) [OF t]], of u] by (simp add: u)
  show "\<forall>k. slocks u (Sinode k) = slocks s (Sinode k)" using lframe_fields(8) [OF txsD(2) [OF t]] by (simp add: u)
  show "icache u = (icache s)(ip := ?i\<lparr>i_addrs := i_addrs (icache u ip)\<rparr>)" by (simp add: u fs)
  show "x \<noteq> 0" by (rule nz(1))
qed

lemma mapped_alloc:
  fixes s :: "'z fsstate_scheme"
  assumes fi: "file_inv D cap s ip" and m: "m < NDIRECT" and z: "fb (bs_view (babs D s)) (icache s ip) m = 0"
    and ff: "first_free (bs_view (babs D s)) (fs_sb s) = Some n" and x: "x = of_nat n"
    and t: "txs D (sb_logstart (fs_sb s)) cap s (alloc_effect (fs_sb s) x (babs D s)) t"
    and u: "u = t\<lparr>icache := (icache t)(ip := (icache t ip)\<lparr>i_addrs := (i_addrs (icache t ip))[m := x]\<rparr>)\<rparr>"
  shows "mapped D cap s ip m x u"
proof -
  have j: "m = (if m = 140 then NDIRECT else m)" using m by (simp add: NDIRECT_def)
  note M = mapped_direct [OF fi disjI1 [OF m] z ff x t j u]
  have inv: "fs_inv D cap s" using fi by (simp add: file_inv_def)
  note I = fs_invD [OF inv]
  note e = alloc_effect_facts [OF I(2) ls.view_length [OF I(1)] I(3) ff, folded x]
  note un = first_free_data(2,3) [OF I(3) ff, folded x]
  have sb: "fs_sb u = fs_sb s" using M(2) by (simp add: fframe_def)
  have nf: "nfree (bs_view (babs D u)) (fs_sb s) = nfree (bs_view (babs D s)) (fs_sb s) - 1"
    unfolding M(7) using e(2) un unfolding x by (intro nfree_alloc) auto
  have sp: "\<exists>X. finite X \<and> card X \<le> 4 \<and> bs_dirty (babs D u) = bs_dirty (babs D s) \<union> X"
    unfolding M(7) using e(5) by (intro exI [of _ "{BBLOCK x (fs_sb s), x}"]) (simp add: card_insert_if)
  have keep: "bs_view (babs D u) b = bs_view (babs D s) b"
    if "blk_used (bs_view (babs D s)) (fs_sb s) b" "b \<notin> bmap_blocks (fs_sb s)" for b
    unfolding M(7) using e(3) [of b] that un by auto
  have us: "blk_used (bs_view (babs D u)) (fs_sb s) b" if "blk_used (bs_view (babs D s)) (fs_sb s) b" "b < sb_size (fs_sb s)" for b
    unfolding M(7) using e(2) that by simp
  have z': "bs_view (babs D u) x = replicate BSIZE 0" "bs_held (babs D u) = bs_held (babs D s)" "bs_disk (babs D u) = bs_disk (babs D s)"
    unfolding M(7) by (fact e(1) e(6) e(7))+
  have new: "\<forall>k\<le>140. fb (bs_view (babs D u)) (icache u ip) k = fb (bs_view (babs D s)) (icache s ip) k \<or>
      \<not> blk_used (bs_view (babs D s)) (fs_sb s) (fb (bs_view (babs D u)) (icache u ip) k)"
    using M(5) un(2) by simp
  show ?thesis unfolding mapped_def Let_def
    using M(1-4,6) M(5) [OF less_imp_le] sp keep us z' z nf sb new
    by (simp add: file_inv_def fs_inv_def)
qed

text \<open>Allocating a block and entering it in the indirect block.\<close>

lemma mapped_entry:
  fixes s :: "'z fsstate_scheme"
  assumes fi: "file_inv D cap s ip" and m: "NDIRECT \<le> m" "m < 140"
    and a: "fb (bs_view (babs D s)) (icache s ip) 140 = a" "a \<noteq> 0"
    and ff: "first_free (bs_view (babs D s)) (fs_sb s) = Some n" and x: "x = of_nat n"
    and t: "txs D (sb_logstart (fs_sb s)) cap s (entry_effect (fs_sb s) m a x (babs D s)) t"
  shows "file_inv D cap t ip" "fframe s t" "\<forall>k. slocks t (Sinode k) = slocks s (Sinode k)" "icache t = icache s"
    "k \<le> 140 \<Longrightarrow> fb (bs_view (babs D t)) (icache t ip) k = (if k = m then x else fb (bs_view (babs D s)) (icache s ip) k)"
    "x \<noteq> 0" "bs_view (babs D t) x = replicate BSIZE 0" "bs_disk (babs D t) = bs_disk (babs D s)"
    "bs_dirty (babs D t) = bs_dirty (babs D s) \<union> {BBLOCK x (fs_sb s), x, a}"
    "blk_used (bs_view (babs D s)) (fs_sb s) b \<Longrightarrow> b \<notin> bmap_blocks (fs_sb s) \<Longrightarrow> b \<noteq> a \<Longrightarrow> bs_view (babs D t) b = bs_view (babs D s) b"
    "b < sb_size (fs_sb s) \<Longrightarrow> blk_used (bs_view (babs D t)) (fs_sb s) b \<longleftrightarrow> blk_used (bs_view (babs D s)) (fs_sb s) b \<or> b = x"
    "\<not> blk_used (bs_view (babs D s)) (fs_sb s) x"
proof -
  let ?v = "bs_view (babs D s)" and ?sb = "fs_sb s" and ?i = "icache s ip" and ?w = "bs_view (alloc_effect (fs_sb s) x (babs D s))"
  have inv: "fs_inv D cap s" and dev: "i_dev ?i = D" and fok: "file_ok ?v ?sb ?i" using fi by (simp_all add: file_inv_def)
  note I = fs_invD [OF inv] and ab = txsD(3) [OF t] and fs = txs_fs [OF t]
  note e = alloc_effect_facts [OF I(2) ls.view_length [OF I(1)] I(3) ff, folded x]
  note nz = alloc_nz [OF I(2,3) ff, folded x]
  show un: "\<not> blk_used ?v ?sb x" using first_free_data(3) [OF I(3) ff] by (simp add: x)
  have da: "data_blk ?v ?sb a" using file_okD(2) [OF fok, of 140] a by simp
  then have an: "a \<noteq> x" "a \<notin> bmap_blocks ?sb" using un data_blk_nz [OF I(2) da] by (auto simp: data_blk_def)
  have w: "bs_view (babs D t) = ?w(a := put32 (4 * (m - NDIRECT)) x (?w a))" by (simp add: ab entry_effect_def Let_def)
  show F: "fb (bs_view (babs D t)) (icache t ip) k = (if k = m then x else fb ?v ?i k)" if k: "k \<le> 140" for k
    unfolding w fs(2) using fb_set_entry [OF fok I(2) m a un e(3) ls.view_length [OF I(1)] k] by simp
  show us: "blk_used (bs_view (babs D t)) ?sb b \<longleftrightarrow> blk_used ?v ?sb b \<or> b = x" if b: "b < sb_size ?sb" for b
  proof -
    have "BBLOCK b ?sb \<noteq> a" using BBLOCK_in [OF I(2) b] an(2) by auto
    then have "blk_used (bs_view (babs D t)) ?sb b = blk_used ?w ?sb b" by (simp add: blk_used_def w)
    then show ?thesis using e(2) [OF b] by simp
  qed
  have "file_ok (bs_view (babs D t)) ?sb (icache t ip)"
  proof (rule file_ok_set [OF fok _ _ nz(1) F us nz(3,2) un])
    show "length (i_addrs (icache t ip)) = NDIRECT + 1" using file_okD(1) [OF fok] by (simp add: fs)
    show "m \<le> 140" using m by simp
  qed
  moreover have "meta_used (bs_view (babs D t)) ?sb"
  proof -
    have "blk_used (bs_view (babs D t)) ?sb (of_nat k)" if k: "k < nmeta ?sb" for k
    proof -
      have l: "k < unat (sb_size ?sb)" using k nmeta_le [of ?sb] by simp
      then have "unat (of_nat k :: u32) = k" using unat_less_32 [of "sb_size ?sb"] by (intro unat_of_nat32) simp
      then show ?thesis using us [of "of_nat k"] l I(3) k by (simp add: word_less_nat_alt meta_used_def)
    qed
    then show ?thesis by (simp add: meta_used_def)
  qed
  moreover have "bs_held (babs D t) = Map.empty" using I(4) e(6) by (simp add: ab entry_effect_def Let_def)
  ultimately show "file_inv D cap t ip" using dev I(2) txsD(1) [OF t] by (simp add: file_inv_def fs_inv_def fs)
  show "fframe s t" by (rule lframe_fframe [OF txsD(2) [OF t]])
  show "\<forall>k. slocks t (Sinode k) = slocks s (Sinode k)" using lframe_fields(8) [OF txsD(2) [OF t]] by simp
  show "icache t = icache s" by (rule fs(2))
  show "x \<noteq> 0" by (rule nz(1))
  show "bs_view (babs D t) x = replicate BSIZE 0" using an e(1) by (simp add: w)
  show "bs_disk (babs D t) = bs_disk (babs D s)" "bs_dirty (babs D t) = bs_dirty (babs D s) \<union> {BBLOCK x ?sb, x, a}"
    using e(5,7) by (auto simp: ab entry_effect_def Let_def)
  show "bs_view (babs D t) b = ?v b" if "blk_used ?v ?sb b" "b \<notin> bmap_blocks ?sb" "b \<noteq> a" for b
    using that un e(3) [of b] by (auto simp: w)
qed


lemma mapped_hit:
  fixes s :: "'z fsstate_scheme"
  assumes fi: "file_inv D cap s ip" and t: "txs D (sb_logstart (fs_sb s)) cap s (babs D s) t"
    and a: "fb (bs_view (babs D s)) (icache s ip) m = a" "a \<noteq> 0"
  shows "mapped D cap s ip m a t"
proof -
  note fs = txs_fs [OF t]
  have "finite {} \<and> card ({} :: u32 set) \<le> 4 \<and> bs_dirty (babs D t) = bs_dirty (babs D s) \<union> {}" using txsD(3) [OF t] by simp
  then have sp: "\<exists>X. finite X \<and> card X \<le> 4 \<and> bs_dirty (babs D t) = bs_dirty (babs D s) \<union> X" by (rule exI)
  show ?thesis
    using fi a txsD(1,3) [OF t] lframe_fframe [OF txsD(2) [OF t]] lframe_fields(8) [OF txsD(2) [OF t]] fs sp
    by (simp add: mapped_def file_inv_def fs_inv_def)
qed

lemma mapped_chain:
  fixes s :: "'z fsstate_scheme"
  assumes fi: "file_inv D cap s ip" and m: "NDIRECT \<le> m" "m < 140" and z: "fb (bs_view (babs D s)) (icache s ip) m = 0"
    and u: "file_inv D cap u ip" "fframe s u" "\<forall>k. slocks u (Sinode k) = slocks s (Sinode k)"
      "icache u = (icache s)(ip := (icache s ip)\<lparr>i_addrs := i_addrs (icache u ip)\<rparr>)"
      "\<And>k. k < 140 \<Longrightarrow> fb (bs_view (babs D u)) (icache u ip) k = fb (bs_view (babs D s)) (icache s ip) k"
      "bs_disk (babs D u) = bs_disk (babs D s)"
      "\<And>b. b < sb_size (fs_sb s) \<Longrightarrow> blk_used (bs_view (babs D s)) (fs_sb s) b \<Longrightarrow>
         blk_used (bs_view (babs D u)) (fs_sb s) b \<and> (b \<notin> bmap_blocks (fs_sb s) \<longrightarrow> bs_view (babs D u) b = bs_view (babs D s) b)"
      "\<And>b. b < sb_size (fs_sb s) \<Longrightarrow> blk_used (bs_view (babs D s)) (fs_sb s) b \<Longrightarrow> b \<noteq> fb (bs_view (babs D s)) (icache s ip) 140 \<Longrightarrow> b \<noteq> a"
      "nfree (bs_view (babs D s)) (fs_sb s) \<le> nfree (bs_view (babs D u)) (fs_sb s) + 1"
      "finite X" "card (insert a X) \<le> 2" "bs_dirty (babs D u) = bs_dirty (babs D s) \<union> X"
    and a: "fb (bs_view (babs D u)) (icache u ip) 140 = a" "a \<noteq> 0"
    and ff: "first_free (bs_view (babs D u)) (fs_sb u) = Some n" and x: "x = of_nat n"
    and t: "txs D (sb_logstart (fs_sb u)) cap u (entry_effect (fs_sb u) m a x (babs D u)) t"
  shows "mapped D cap s ip m x t"
proof -
  note M = mapped_entry [OF u(1) m a ff x t]
  have sb: "fs_sb u = fs_sb s" using u(2) by (simp add: fframe_def)
  have inv: "fs_inv D cap s" "fs_inv D cap t" using fi M(1) by (simp_all add: file_inv_def)
  note I = fs_invD [OF inv(1)] fs_invD [OF inv(2)]
  have mu: "meta_used (bs_view (babs D u)) (fs_sb u)" using u(1) by (simp add: file_inv_def fs_inv_def)
  have sbt: "fs_sb t = fs_sb s" using u(2) M(2) by (simp add: fframe_def)
  have nf: "nfree (bs_view (babs D s)) (fs_sb s) \<le> nfree (bs_view (babs D t)) (fs_sb s) + 2"
  proof -
    have "nfree (bs_view (babs D t)) (fs_sb s) = nfree (bs_view (babs D u)) (fs_sb s) - 1"
      using M(11,12) first_free_data(2) [OF mu ff] unfolding x sb by (intro nfree_alloc) auto
    then show ?thesis using u(9) by simp
  qed
  have sp: "\<exists>X. finite X \<and> card X \<le> 4 \<and> bs_dirty (babs D t) = bs_dirty (babs D s) \<union> X"
  proof (intro exI conjI)
    show "finite (insert a X \<union> {BBLOCK x (fs_sb s), x})" using u(10) by simp
    have "card (insert a X \<union> {BBLOCK x (fs_sb s), x}) \<le> card (insert a X) + card {BBLOCK x (fs_sb s), x}" by (rule card_Un_le)
    also have "\<dots> \<le> 4" using u(11) card_insert_le_m1 [of 2 "{x}" "BBLOCK x (fs_sb s)"] by simp
    finally show "card (insert a X \<union> {BBLOCK x (fs_sb s), x}) \<le> 4" .
    show "bs_dirty (babs D t) = bs_dirty (babs D s) \<union> (insert a X \<union> {BBLOCK x (fs_sb s), x})"
      using M(9) u(12) by (auto simp: sb)
  qed
  have us: "blk_used (bs_view (babs D t)) (fs_sb s) b \<and>
      (b \<notin> bmap_blocks (fs_sb s) \<longrightarrow> b \<noteq> fb (bs_view (babs D s)) (icache s ip) 140 \<longrightarrow> bs_view (babs D t) b = bs_view (babs D s) b)"
    if "b < sb_size (fs_sb s)" "blk_used (bs_view (babs D s)) (fs_sb s) b" for b
    using u(7) [OF that] u(8) [OF that] M(10) [of b] M(11) [of b] that(1) by (auto simp: sb)
  have h: "bs_held (babs D t) = bs_held (babs D s)" using I(4,8) by simp
  have f: "fframe s t" by (rule fframe_trans [OF u(2) M(2)])
  have fbt: "\<forall>k<140. fb (bs_view (babs D t)) (icache t ip) k = (if k = m then x else fb (bs_view (babs D s)) (icache s ip) k)"
    using M(5) [OF less_imp_le] u(5) by simp
  have ufree: "\<not> blk_used (bs_view (babs D u)) (fs_sb s) x" "x < sb_size (fs_sb s)"
    using first_free_data(3) [OF mu ff] alloc_nz(2) [OF _ mu ff] I(2) unfolding x sb by auto
  have asz: "a < sb_size (fs_sb s)"
    using u(1) a file_okD(2) [of "bs_view (babs D u)" "fs_sb u" "icache u ip" 140] by (simp add: file_inv_def data_blk_def sb)
  have new: "\<forall>k\<le>140. fb (bs_view (babs D t)) (icache t ip) k = fb (bs_view (babs D s)) (icache s ip) k \<or>
      \<not> blk_used (bs_view (babs D s)) (fs_sb s) (fb (bs_view (babs D t)) (icache t ip) k)"
  proof (intro allI impI)
    fix k :: nat assume k: "k \<le> 140"
    consider "k = m" | "k = 140" "k \<noteq> m" | "k < 140" "k \<noteq> m" using k by fastforce
    then show "fb (bs_view (babs D t)) (icache t ip) k = fb (bs_view (babs D s)) (icache s ip) k \<or>
      \<not> blk_used (bs_view (babs D s)) (fs_sb s) (fb (bs_view (babs D t)) (icache t ip) k)"
      using M(5) [OF k] u(5) u(7) [OF ufree(2)] u(8) [OF asz] ufree(1) a(1) by cases auto
  qed
  show ?thesis unfolding mapped_def Let_def
    using new I(5,7) f M(1) [unfolded file_inv_def M(4)] M(3,6,7) u(3,6) M(8) u(4) us nf sp h fbt z sbt unfolding M(4) by simp
qed

lemma bmap_run:
  fixes s :: "'z fsstate_scheme"
  assumes fi: "file_inv D cap s ip" and m: "m < 140" and sp: "spare cap (babs D s) (k + 6)"
    and nf: "fb (bs_view (babs D s)) (icache s ip) m = 0 \<Longrightarrow> 2 \<le> nfree (bs_view (babs D s)) (fs_sb s)"
  shows "runs (bmap ip (of_nat m)) s (mapped D cap s ip m)"
proof -
  let ?v = "bs_view (babs D s)" and ?i = "icache s ip" and ?sb = "fs_sb s"
  have inv: "fs_inv D cap s" and dev: "i_dev ?i = D" and fok: "file_ok ?v ?sb ?i" using fi by (simp_all add: file_inv_def)
  note I = fs_invD [OF inv]
  have um: "unat (of_nat m :: u32) = m" using m by (simp add: unat_of_nat)
  have lt: "(of_nat m :: u32) < of_nat NDIRECT \<longleftrightarrow> m < NDIRECT" using um by (simp add: word_less_nat_alt NDIRECT_def)
  have hn: "\<And>b. b \<in> dom (bs_held (babs D s)) \<Longrightarrow> b \<notin> bmap_blocks ?sb \<and> blk_used ?v ?sb b" using I(4) by simp
  have al: "0 < nfree ?v ?sb \<Longrightarrow> runs (balloc D) s (\<lambda>x t. \<exists>n. x = of_nat n \<and> first_free ?v ?sb = Some n \<and>
     txs D (sb_logstart ?sb) cap s (alloc_effect ?sb x (babs D s)) t)"
    using balloc_tx [OF I(1,2) spare_mono [OF sp, of 2] I(3) _ hn] by simp
  show ?thesis
  proof (cases "m < NDIRECT")
    case True
    then have f: "fb ?v ?i m = i_addrs ?i ! m" by (simp add: fb_def NDIRECT_def)
    show ?thesis
    proof (cases "fb ?v ?i m = 0")
      case False
      then show ?thesis using True f lt um mapped_hit [OF fi txs_refl [OF I(1)] refl False] by (simp add: bmap_def Let_def)
    next
      case z: True
      have "runs (bind (balloc D) (\<lambda>addr. seq (set_inode ip (\<lambda>i. i\<lparr>i_addrs := (i_addrs i)[m := addr]\<rparr>)) (ret addr))) s (mapped D cap s ip m)"
        using nf [OF z] by (intro runs_bind [OF al]) (auto intro: mapped_alloc [OF fi True z _ refl _ refl])
      then show ?thesis using True z f lt um dev by (simp add: bmap_def Let_def)
    qed
  next
    case False
    then have mi: "NDIRECT \<le> m" by simp
    have ub: "unat (of_nat m - of_nat NDIRECT :: u32) = m - NDIRECT" using um mi by (simp add: unat_sub_if' NDIRECT_def)
    have lt2: "of_nat m - of_nat NDIRECT < (of_nat NINDIRECT :: u32)"
      using m by (simp add: word_less_nat_alt ub) (simp add: NINDIRECT_def NDIRECT_def)
    let ?rest = "\<lambda>addr. bind (bread D addr) (\<lambda>bp. bind (get (bdata bp)) (\<lambda>d. bind (if get32 (4 * (m - NDIRECT)) d = 0 then
           bind (balloc D) (\<lambda>x. seq (buf_write bp (put32 (4 * (m - NDIRECT)) x)) (seq (log_write bp) (ret x)))
         else ret (get32 (4 * (m - NDIRECT)) d)) (\<lambda>x. seq (brelse bp) (ret x))))"
    have code: "bmap ip (of_nat m) s = bind (if i_addrs ?i ! NDIRECT = 0 then
          bind (balloc D) (\<lambda>addr. seq (set_inode ip (\<lambda>i. i\<lparr>i_addrs := (i_addrs i)[NDIRECT := addr]\<rparr>)) (ret addr))
        else ret (i_addrs ?i ! NDIRECT)) ?rest s"
      using False lt lt2 ub dev by (simp add: bmap_def Let_def kop_simps cong: if_cong)
    show ?thesis
    proof (cases "i_addrs ?i ! NDIRECT = 0")
      case False
      let ?a = "i_addrs ?i ! NDIRECT"
      have da: "data_blk ?v ?sb ?a" using file_okD(2) [OF fok, of 140] False by (simp add: fb_140)
      have e: "get32 (4 * (m - NDIRECT)) (?v ?a) = fb ?v ?i m" using mi m False by (simp add: fb_def)
      have z0: "fb ?v ?i m = 0 \<Longrightarrow> 0 < nfree ?v ?sb" using nf by simp
      have sp4: "spare cap (babs D s) ((k + 2) + 4)" using sp by (simp add: add.commute)
      have "runs (?rest ?a) s (mapped D cap s ip m)"
      proof (rule runs_mono [OF bmap_entry [OF I(1-3) da I(4) mi m _ sp4]], unfold e)
        fix x u assume *: "if fb ?v ?i m \<noteq> 0 then x = fb ?v ?i m \<and> txs D (sb_logstart ?sb) cap s (babs D s) u
           else \<exists>n. first_free ?v ?sb = Some n \<and> x = of_nat n \<and>
             txs D (sb_logstart ?sb) cap s (entry_effect ?sb m ?a x (babs D s)) u \<and> spare cap (babs D u) (k + 2 + 1)"
        show "mapped D cap s ip m x u"
        proof (cases "fb ?v ?i m = 0")
          case z: True
          then obtain n where n: "first_free ?v ?sb = Some n" "x = of_nat n"
             "txs D (sb_logstart ?sb) cap s (entry_effect ?sb m ?a x (babs D s)) u" using * by auto
          show ?thesis using False mi m fi z
            by (intro mapped_chain [where X = "{}", OF fi mi m z fi _ _ _ _ _ _ _ _ _ _ _ _ _ n]) (simp_all add: fb_140)
        qed (use * mapped_hit [OF fi] in auto)
      qed (use z0 in simp)
      then show ?thesis using code False by (simp add: runs_def)
    next
      case True
      have z: "fb ?v ?i m = 0" "fb ?v ?i 140 = 0" using True mi m by (simp_all add: fb_def)
      note nf2 = nf [OF z(1)]
      have step: "runs (?rest x) u (mapped D cap s ip m)"
        if n: "first_free ?v ?sb = Some n" "x = of_nat n" and t: "txs D (sb_logstart ?sb) cap s (alloc_effect ?sb x (babs D s)) t"
          and u: "u = t\<lparr>icache := (icache t)(ip := (icache t ip)\<lparr>i_addrs := (i_addrs (icache t ip))[NDIRECT := x]\<rparr>)\<rparr>" for x n t u
      proof -
        note M = mapped_direct [OF fi disjI2 [OF refl] z(2) n t _ u, simplified]
        note e = alloc_effect_facts [OF I(2) ls.view_length [OF I(1)] I(3) n(1), folded n(2)]
        note un = first_free_data(2,3) [OF I(3) n(1), folded n(2)]
        have sb: "fs_sb u = ?sb" using M(2) by (simp add: fframe_def)
        have iu: "fs_inv D cap u" "file_ok (bs_view (babs D u)) (fs_sb u) (icache u ip)" using M(1) by (simp_all add: file_inv_def)
        note U = fs_invD [OF iu(1)]
        have f140: "fb (bs_view (babs D u)) (icache u ip) 140 = x" using M(5) [of 140] by simp
        have da: "data_blk (bs_view (babs D u)) (fs_sb u) x" using file_okD(2) [OF iu(2), of 140] M(6) f140 by simp
        have nfu: "nfree (bs_view (babs D u)) ?sb = nfree ?v ?sb - 1"
          unfolding M(7) using e(2) un unfolding n(2) by (intro nfree_alloc) auto
        have z32: "get32 (4 * (m - NDIRECT)) (bs_view (babs D u) x) = 0"
          unfolding M(7) e(1) using m mi by (intro get32_zeros) (simp add: BSIZE_def NDIRECT_def)
        let ?X = "{BBLOCK x ?sb, x}"
        have dX: "bs_dirty (babs D u) = bs_dirty (babs D s) \<union> ?X" "bs_held (babs D u) = bs_held (babs D s)"
          unfolding M(7) using e(5,6) by simp_all
        have cX: "card ?X \<le> 2" by (simp add: card_insert_if)
        have "spare cap (babs D s) (k + 4 + 2)" using sp by (simp add: add.commute)
        then have sp4: "spare cap (babs D u) (k + 4)" by (rule spare_union [OF _ _ cX dX]) simp
        have keep: "blk_used (bs_view (babs D u)) ?sb b \<and> (b \<notin> bmap_blocks ?sb \<longrightarrow> bs_view (babs D u) b = ?v b)"
          if "b < sb_size ?sb" "blk_used ?v ?sb b" for b
          unfolding M(7) using e(2,3) [of b] that un by auto
        have bx: "b \<noteq> x" if "blk_used ?v ?sb b" for b using un that by auto
        show ?thesis
        proof (rule runs_mono [OF bmap_entry [OF U(1-3) da U(4) mi m _ sp4]])
          show "0 < nfree (bs_view (babs D u)) (fs_sb u)" using nf2 nfu sb by simp
          fix y w assume *: "if get32 (4 * (m - NDIRECT)) (bs_view (babs D u) x) \<noteq> 0 then
               y = get32 (4 * (m - NDIRECT)) (bs_view (babs D u) x) \<and> txs D (sb_logstart (fs_sb u)) cap u (babs D u) w
             else \<exists>n. first_free (bs_view (babs D u)) (fs_sb u) = Some n \<and> y = of_nat n \<and>
               txs D (sb_logstart (fs_sb u)) cap u (entry_effect (fs_sb u) m x y (babs D u)) w \<and> spare cap (babs D w) (k + 1)"
          then obtain l where l: "first_free (bs_view (babs D u)) (fs_sb u) = Some l" "y = of_nat l"
            "txs D (sb_logstart (fs_sb u)) cap u (entry_effect (fs_sb u) m x y (babs D u)) w" using z32 by auto
          have fbu: "fb (bs_view (babs D u)) (icache u ip) k = fb ?v ?i k" if "k < 140" for k using M(5) [of k] that by simp
          have dk: "bs_disk (babs D u) = bs_disk (babs D s)" unfolding M(7) by (rule e(7))
          show "mapped D cap s ip m y w"
            by (rule mapped_chain [where X = ?X, OF fi mi m z(1) M(1-4) fbu dk keep _ _ _ _ dX(1) f140 M(6) l])
              (use bx nfu cX in \<open>simp_all add: insert_commute\<close>)
        qed
      qed
      have "runs (bind (balloc D) (\<lambda>addr. seq (set_inode ip (\<lambda>i. i\<lparr>i_addrs := (i_addrs i)[NDIRECT := addr]\<rparr>)) (?rest addr))) s (mapped D cap s ip m)"
        using nf2 by (intro runs_bind [OF al]) (auto intro: step)
      then show ?thesis using code True by (simp add: runs_def bind_assoc)
    qed
  qed
qed


section \<open>The bytes of a file\<close>

definition fbyte :: "(u32 \<Rightarrow> byte list) \<Rightarrow> inode \<Rightarrow> nat \<Rightarrow> byte" where
  "fbyte v i k = (if fb v i (k div BSIZE) = 0 then 0 else v (fb v i (k div BSIZE)) ! (k mod BSIZE))"

definition max_bytes :: nat where "max_bytes = MAXFILE * BSIZE"

text \<open>Every block below the size of the file exists.\<close>

definition no_holes :: "(u32 \<Rightarrow> byte list) \<Rightarrow> inode \<Rightarrow> bool" where
  "no_holes v i \<longleftrightarrow> unat (i_size i) \<le> max_bytes \<and> (\<forall>m. m * BSIZE < unat (i_size i) \<longrightarrow> fb v i m \<noteq> 0)"

definition same :: "u32 \<Rightarrow> nat \<Rightarrow> 'z fsstate_scheme \<Rightarrow> 'z fsstate_scheme \<Rightarrow> bool" where
  "same D cap s t \<longleftrightarrow> log_ok D (sb_logstart (fs_sb s)) cap t \<and> babs D t = babs D s \<and> icache t = icache s \<and> fframe s t \<and>
     (\<forall>k. slocks t (Sinode k) = slocks s (Sinode k))"

lemma same_trans: "same D cap s t \<Longrightarrow> same D cap t u \<Longrightarrow> same D cap s u"
proof -
  assume a: "same D cap s t" "same D cap t u"
  then have "fs_sb t = fs_sb s" by (simp add: same_def fframe_def)
  then show ?thesis using a fframe_trans [of s t u] by (auto simp: same_def)
qed

lemma same_file: "same D cap s t \<Longrightarrow> file_inv D cap s ip \<Longrightarrow> file_inv D cap t ip"
  by (simp add: same_def file_inv_def fs_inv_def fframe_def)

lemma same_fields: "same D cap s t \<Longrightarrow> babs D t = babs D s" "same D cap s t \<Longrightarrow> icache t = icache s" "same D cap s t \<Longrightarrow> fs_sb t = fs_sb s"
  by (simp_all add: same_def fframe_def)

lemma mapped_same: "mapped D cap s ip m a t \<Longrightarrow> fb (bs_view (babs D s)) (icache s ip) m \<noteq> 0 \<Longrightarrow> m < 140 \<Longrightarrow>
    same D cap s t \<and> a = fb (bs_view (babs D s)) (icache s ip) m"
  by (fastforce simp: mapped_def same_def Let_def)

lemma txs_same:
  fixes s t :: "'z fsstate_scheme"
  shows "txs D (sb_logstart (fs_sb s)) cap s (babs D s) t \<Longrightarrow> same D cap s t"
  using txs_fs [of D "sb_logstart (fs_sb s)" cap s "babs D s" t] lframe_fframe [of s t] lframe_fields(8) [of s t]
  by (simp add: same_def txs_def)

lemma off_parts:
  assumes "unat off < 2 ^ 40"
  shows "ucast (off div of_nat BSIZE) = (of_nat (unat off div BSIZE) :: u32)" "unat (off mod of_nat BSIZE :: u64) = unat off mod BSIZE"
proof -
  have "unat (of_nat BSIZE :: u64) = 512" by (simp add: BSIZE_def)
  then show "unat (off mod of_nat BSIZE :: u64) = unat off mod BSIZE" by (simp only: unat_mod_distrib) (simp add: BSIZE_def)
  have d: "unat (off div of_nat BSIZE :: u64) = unat off div BSIZE"
    using \<open>unat (of_nat BSIZE :: u64) = 512\<close> by (simp only: unat_div_distrib) (simp add: BSIZE_def)
  have l: "unat off div BSIZE < 2 ^ 32" using assms by (simp add: BSIZE_def)
  have "(ucast (off div of_nat BSIZE) :: u32) = of_nat (unat (off div of_nat BSIZE :: u64))" by simp
  then show "ucast (off div of_nat BSIZE) = (of_nat (unat off div BSIZE) :: u32)" unfolding d .
qed

lemma unat_chunk:
  assumes "tot < n" "unat off < 2 ^ 40"
  shows "unat (chunk off n tot) = min (unat n - unat tot) (BSIZE - unat off mod BSIZE)"
proof -
  have "unat (n - tot) = unat n - unat tot" using assms(1) by (simp add: unat_sub_if' word_less_nat_alt)
  moreover have "unat (of_nat BSIZE - off mod of_nat BSIZE :: u64) = BSIZE - unat off mod BSIZE"
    using off_parts(2) [OF assms(2)] mod_BSIZE(1) [of off] by (simp add: unat_sub_if' BSIZE_def)
  ultimately show ?thesis by (simp add: chunk_def min_def word_le_nat_alt)
qed

lemma same_block:
  assumes "p mod BSIZE + j < BSIZE"
  shows "(p + j) div BSIZE = p div BSIZE" "(p + j) mod BSIZE = p mod BSIZE + j"
proof -
  have "p + j = (p mod BSIZE + j) + BSIZE * (p div BSIZE)" by (metis add.assoc add.commute mod_mult_div_eq)
  then have e: "(p + j) div BSIZE = (p mod BSIZE + j) div BSIZE + p div BSIZE" "(p + j) mod BSIZE = (p mod BSIZE + j) mod BSIZE"
    by (metis BSIZE_def div_mult_self2 zero_neq_numeral add.commute, metis mod_mult_self2)
  show "(p + j) div BSIZE = p div BSIZE" "(p + j) mod BSIZE = p mod BSIZE + j" using assms unfolding e by simp_all
qed

lemma block_bytes:
  assumes "fb v i (p div BSIZE) = b" "b \<noteq> 0" "p mod BSIZE + c \<le> BSIZE" "length (v b) = BSIZE"
  shows "slice (p mod BSIZE) c (v b) = map (fbyte v i) [p..<p + c]"
proof (rule nth_equalityI)
  show "length (slice (p mod BSIZE) c (v b)) = length (map (fbyte v i) [p..<p + c])" using assms(3,4) by simp
  fix j assume "j < length (slice (p mod BSIZE) c (v b))"
  then have j: "j < c" using assms(3,4) by simp
  have "p mod BSIZE + j < BSIZE" using j assms(3) by simp
  then have "(p + j) div BSIZE = p div BSIZE" "(p + j) mod BSIZE = p mod BSIZE + j" by (rule same_block)+
  then show "slice (p mod BSIZE) c (v b) ! j = map (fbyte v i) [p..<p + c] ! j"
    using j assms by (simp add: nth_slice fbyte_def)
qed



lemma same_refl: "fs_inv D cap s \<Longrightarrow> same D cap s s"
  by (simp add: same_def fs_inv_def)

lemma readi_block:
  fixes s :: "'z fsstate_scheme"
  assumes fi: "file_inv D cap s ip" and sp: "spare cap (babs D s) 6" and m: "m < 140"
    and b: "fb (bs_view (babs D s)) (icache s ip) m \<noteq> 0"
    and g: "\<And>u. same D cap s u \<Longrightarrow> runs (g (bs_view (babs D s) (fb (bs_view (babs D s)) (icache s ip) m))) u Q"
  shows "runs (bind (bmap ip (of_nat m)) (\<lambda>addr. bind (inode_of ip) (\<lambda>i. bind (bread (i_dev i) addr) (\<lambda>bp.
    bind (get (bdata bp)) (\<lambda>d. seq (brelse bp) (g d)))))) s Q"
proof (rule runs_bind [OF bmap_run [OF fi m, of 0]])
  show "spare cap (babs D s) (0 + 6)" using sp by simp
  show "2 \<le> nfree (bs_view (babs D s)) (fs_sb s)" if "fb (bs_view (babs D s)) (icache s ip) m = 0" using that b by simp
  fix x t assume M: "mapped D cap s ip m x t"
  from mapped_same [OF M b m] have t: "same D cap s t" and x: "x = fb (bs_view (babs D s)) (icache s ip) m" by blast+
  note ft = same_file [OF t fi]
  then have it: "fs_inv D cap t" "i_dev (icache t ip) = D" by (simp_all add: file_inv_def)
  note I = fs_invD [OF it(1)]
  have spt: "spare cap (babs D t) 6" using sp by (simp add: same_fields [OF t])
  have "runs (bind (bread D x) (\<lambda>bp. bind (get (bdata bp)) (\<lambda>d. seq (brelse bp) (g d)))) t Q"
  proof (rule read_tx [OF I(1) _ spt])
    show "bs_held (babs D t) x = None" by (simp add: I(4))
    fix u assume "txs D (sb_logstart (fs_sb t)) cap t (babs D t) u"
    then have "same D cap s u" using same_trans [OF t txs_same] by blast
    from g [OF this] show "runs (g (bs_view (babs D t) x)) u Q" by (simp add: x same_fields [OF t])
  qed
  then show "runs (bind (inode_of ip) (\<lambda>i. bind (bread (i_dev i) x) (\<lambda>bp. bind (get (bdata bp)) (\<lambda>d. seq (brelse bp) (g d))))) t Q"
    by (simp add: it(2))
qed

lemma block_index: "p < max_bytes \<Longrightarrow> p div BSIZE < 140" "p < max_bytes \<Longrightarrow> p < 2 ^ 40"
  by (simp_all add: max_bytes_def MAXFILE_def NDIRECT_def NINDIRECT_def BSIZE_def)

lemma upt_append: "a \<le> b \<Longrightarrow> b \<le> c \<Longrightarrow> [a..<b] @ [b..<c] = [a..<c]"
  by (metis le_add_diff_inverse upt_add_eq_append)

lemma readi_loop_run:
  fixes s :: "'z fsstate_scheme"
  assumes "file_inv D cap s ip" "spare cap (babs D s) 6" "no_holes (bs_view (babs D s)) (icache s ip)"
    "unat tot \<le> unat n" "unat off + (unat n - unat tot) \<le> unat (i_size (icache s ip))"
  shows "runs (readi_loop ip off n tot) s (\<lambda>bs t. same D cap s t \<and>
     bs = map (fbyte (bs_view (babs D s)) (icache s ip)) [unat off..<unat off + (unat n - unat tot)])"
  using assms
proof (induction ip off n tot arbitrary: s rule: readi_loop.induct)
  case (1 ip off n tot)
  note fi = "1.prems"(1) and sp = "1.prems"(2) and nh = "1.prems"(3)
  let ?v = "bs_view (babs D s)" and ?i = "icache s ip"
  have inv: "fs_inv D cap s" and fok: "file_ok ?v (fs_sb s) ?i" using fi by (simp_all add: file_inv_def)
  note I = fs_invD [OF inv]
  show ?case
  proof (cases "tot < n")
    case False
    then have "unat n - unat tot = 0" by (simp add: word_less_nat_alt)
    then show ?thesis using False same_refl [OF inv] by (simp add: readi_loop.simps [of ip off n tot])
  next
    case True
    define m where "m = chunk off n tot"
    have lt: "unat tot < unat n" using True by (simp add: word_less_nat_alt)
    have p: "unat off < unat (i_size ?i)" using "1.prems"(5) lt by simp
    have pm: "unat off < max_bytes" using p nh by (simp add: no_holes_def)
    note bi = block_index [OF pm]
    have nz: "fb ?v ?i (unat off div BSIZE) \<noteq> 0"
    proof -
      have "unat off div BSIZE * BSIZE < unat (i_size ?i)" using p by (simp add: BSIZE_def)
      then show ?thesis using nh by (simp add: no_holes_def)
    qed
    note op = off_parts [OF bi(2)] and um = unat_chunk [OF True bi(2), folded m_def] and cb = chunk_bounds [OF True, of off, folded m_def]
    have add: "unat (off + m) = unat off + unat m" using pm cb(2) "1.prems"(5) lt
      by (intro unat_add64) (use unat_less_32 [of "i_size ?i"] in simp)
    have sl: "slice (unat (off mod of_nat BSIZE)) (unat m) (?v (fb ?v ?i (unat off div BSIZE))) =
        map (fbyte ?v ?i) [unat off..<unat off + unat m]"
      unfolding op(2) using nz ls.view_length [OF I(1)] um by (intro block_bytes) (auto simp: BSIZE_def)
    have "runs (bind (readi_loop ip (off + m) n (tot + m)) (\<lambda>rest. ret (slice (unat (off mod of_nat BSIZE)) (unat m)
        (?v (fb ?v ?i (unat off div BSIZE))) @ rest))) u (\<lambda>bs t. same D cap s t \<and>
          bs = map (fbyte ?v ?i) [unat off..<unat off + (unat n - unat tot)])" if u: "same D cap s u" for u
    proof -
      note f = same_fields [OF u]
      have "runs (readi_loop ip (off + m) n (tot + m)) u (\<lambda>bs t. same D cap u t \<and>
         bs = map (fbyte (bs_view (babs D u)) (icache u ip)) [unat (off + m)..<unat (off + m) + (unat n - unat (tot + m))])"
        using True cb add "1.prems"(5) nh sp unfolding m_def
        by (intro "1.IH" [OF _ refl]) (auto simp: f same_file [OF u fi])
      then show ?thesis
        by (rule runs_bind) (use cb(2) in \<open>auto simp: f sl add cb(3) same_trans [OF u] upt_append simp flip: map_append\<close>)
    qed
    from readi_block [where g = "\<lambda>d. bind (readi_loop ip (off + m) n (tot + m)) (\<lambda>rest. ret (slice (unat (off mod of_nat BSIZE)) (unat m) d @ rest))",
        OF fi sp bi(1) nz this] show ?thesis
      using True by (simp add: readi_loop.simps [of ip off n tot] op(1) Let_def m_def)
  qed
qed

lemma unat_end:
  fixes off n :: u64
  shows "off + n < off \<longleftrightarrow> 2 ^ 64 \<le> unat off + unat n"
proof (cases "unat off + unat n < 2 ^ 64")
  case True
  then show ?thesis by (simp add: word_less_nat_alt unat_add64)
next
  case False
  then have "unat (off + n) = unat off + unat n - 2 ^ 64"
    using unat_less_64 [of off] unat_less_64 [of n] by (simp add: unat_word_ariths mod_if)
  then show ?thesis using False unat_less_64 [of n] by (simp add: word_less_nat_alt)
qed

lemma unat_ucast_64 [simp]: "unat (ucast (x :: u32) :: u64) = unat x"
  by (simp add: unsigned_ucast_eq take_bit_nat_eq_self_iff unsigned_take_bit_eq
      order_less_trans [OF unat_less_32])

lemma sint_small: "unat (n :: u64) < 2 ^ 63 \<Longrightarrow> sint n = int (unat n)"
proof -
  assume "unat n < 2 ^ 63"
  then have "int (unat n) < int (2 ^ 63)" by (simp only: of_nat_less_iff)
  then have l: "uint n < 2 ^ 63" by simp
  have "signed_take_bit 63 (uint n) = uint n"
    using l order_trans [of "- (2 ^ 63)" 0 "uint n"] by (intro signed_take_bit_int_eq_self) simp_all
  then have "sint n = uint n" using sint_uint [of n] by simp
  then show ?thesis by simp
qed

text \<open>
  C16. Reading a file returns its bytes from \<open>off\<close>, cut at the end of the file, and their number;
  an offset past the end, or a range that wraps around, is refused with \<open>-1\<close>. The disk, the
  inodes and the buffers the transaction has changed are as before.
\<close>

theorem readi_correct:
  fixes s :: "'z fsstate_scheme"
  assumes "file_inv D cap s ip" "spare cap (babs D s) 6" "no_holes (bs_view (babs D s)) (icache s ip)"
    and "i_type (icache s ip) \<noteq> T_DEV"
  shows "runs (readi dsw ip off n) s (\<lambda>(r, bs) t. same D cap s t \<and>
     (if unat (i_size (icache s ip)) < unat off \<or> 2 ^ 64 \<le> unat off + unat n then r = -1 \<and> bs = []
      else r = int (length bs) \<and>
        bs = map (fbyte (bs_view (babs D s)) (icache s ip)) [unat off..<min (unat off + unat n) (unat (i_size (icache s ip)))]))"
proof -
  let ?z = "ucast (i_size (icache s ip)) :: u64"
  have inv: "fs_inv D cap s" using assms(1) by (simp add: file_inv_def)
  have z: "unat ?z < 2 ^ 32" using unat_less_32 [of "i_size (icache s ip)"] by simp
  show ?thesis
  proof (cases "unat ?z < unat off \<or> 2 ^ 64 \<le> unat off + unat n")
    case True
    then have "?z < off \<or> off + n < off" unfolding unat_end by (simp add: word_less_nat_alt)
    then show ?thesis using assms(4) True same_refl [OF inv] by (auto simp: readi_def)
  next
    case False
    then have g: "\<not> (?z < off \<or> off + n < off)" and le: "off \<le> ?z" and s64: "unat off + unat n < 2 ^ 64"
      unfolding unat_end by (simp_all add: word_less_nat_alt word_le_nat_alt)
    define k where "k = (if off + n > ?z then ?z - off else n)"
    have k: "unat k = min (unat off + unat n) (unat ?z) - unat off"
      using s64 le by (auto simp: k_def word_less_nat_alt unat_add64 unat_sub word_le_nat_alt)
    have l: "unat off + unat k = min (unat off + unat n) (unat ?z)" using k le by (auto simp: word_le_nat_alt)
    have "runs (readi_loop ip off k 0) s (\<lambda>bs t. same D cap s t \<and>
       bs = map (fbyte (bs_view (babs D s)) (icache s ip)) [unat off..<unat off + (unat k - unat (0 :: u64))])"
      using l by (intro readi_loop_run [OF assms(1-3)]) auto
    then have "runs (bind (readi_loop ip off k 0) (\<lambda>bs. ret (sint k, bs))) s (\<lambda>(r, bs) t. same D cap s t \<and> r = int (length bs) \<and>
       bs = map (fbyte (bs_view (babs D s)) (icache s ip)) [unat off..<min (unat off + unat n) (unat ?z)])"
    proof (rule runs_bind)
      have "unat k < 2 ^ 63" using k z by simp
      then show "runs (ret (sint k, x)) t (\<lambda>(r, bs) t. same D cap s t \<and> r = int (length bs) \<and>
          bs = map (fbyte (bs_view (babs D s)) (icache s ip)) [unat off..<min (unat off + unat n) (unat ?z)])"
        if "same D cap s t \<and> x = map (fbyte (bs_view (babs D s)) (icache s ip)) [unat off..<unat off + (unat k - unat (0 :: u64))]" for x t
      proof -
        have "length x = unat k" using that by simp
        moreover have "sint k = int (unat k)" by (rule sint_small) fact
        ultimately show ?thesis using that l by simp
      qed
    qed
    then show ?thesis using g False assms(4) by (simp add: readi_def k_def Let_def)
  qed
qed

end
