(* ===== verification/Fwrite.thy ===== *)
theory Fwrite
  imports Fcontent
begin

text \<open>
  Writing a file (\<open>writei\<close>, \<open>kern/fs.c\<close>) over the block map of \<open>Fcontent\<close>: one block, the loop over
  the blocks, the size and the copy of the inode on the disk; and the demonstration file system with
  an open file, at which the properties of file content are applied.
\<close>

unbundle bit_operations_syntax

section \<open>Writing one block\<close>

lemma mappedD:
  fixes s :: "'z fsstate_scheme"
  assumes "mapped D cap s ip m a t"
  defines "v \<equiv> bs_view (babs D s)" and "w \<equiv> bs_view (babs D t)" and "i \<equiv> icache s ip" and "j \<equiv> icache t ip"
  shows "log_ok D (sb_logstart (fs_sb s)) cap t" "fframe s t" "\<forall>k. slocks t (Sinode k) = slocks s (Sinode k)"
    "bs_held (babs D t) = bs_held (babs D s)" "bs_disk (babs D t) = bs_disk (babs D s)" "meta_used w (fs_sb s)"
    "icache t = (icache s)(ip := i\<lparr>i_addrs := i_addrs j\<rparr>)" "file_ok w (fs_sb s) j" "a \<noteq> 0"
    "k < 140 \<Longrightarrow> fb w j k = (if k = m then a else fb v i k)"
    "k \<le> 140 \<Longrightarrow> fb w j k = fb v i k \<or> \<not> blk_used v (fs_sb s) (fb w j k)"
    "fb v i m = 0 \<Longrightarrow> w a = replicate BSIZE 0" "fb v i m \<noteq> 0 \<Longrightarrow> babs D t = babs D s \<and> j = i"
    "b < sb_size (fs_sb s) \<Longrightarrow> blk_used v (fs_sb s) b \<Longrightarrow> blk_used w (fs_sb s) b"
    "b < sb_size (fs_sb s) \<Longrightarrow> blk_used v (fs_sb s) b \<Longrightarrow> b \<notin> bmap_blocks (fs_sb s) \<Longrightarrow> b \<noteq> fb v i 140 \<Longrightarrow> w b = v b"
    "nfree v (fs_sb s) \<le> nfree w (fs_sb s) + 2"
    "\<exists>X. finite X \<and> card X \<le> 4 \<and> bs_dirty (babs D t) = bs_dirty (babs D s) \<union> X"
  using assms unfolding mapped_def Let_def by (simp_all split: if_splits)

lemma store_block:
  assumes f: "file_ok w sb j" and wf: "sb_wf sb" and m: "m < 140" "fb w j m = a" "a \<noteq> 0"
  shows "k \<le> 140 \<Longrightarrow> fb (w(a := d)) j k = fb w j k" "b < sb_size sb \<Longrightarrow> blk_used (w(a := d)) sb b = blk_used w sb b"
    "file_ok (w(a := d)) sb j"
proof -
  have a: "data_blk w sb a" "a \<noteq> fb w j 140" using file_okD(2,3) [OF f, of m] m by auto
  have nb: "a \<notin> bmap_blocks sb" using data_blk_nz [OF wf a(1)] by blast
  show F: "fb (w(a := d)) j k = fb w j k" if "k \<le> 140" for k using a(2) by (auto simp: fb_def)
  show U: "blk_used (w(a := d)) sb b = blk_used w sb b" if "b < sb_size sb" for b
  proof -
    have "BBLOCK b sb \<in> bmap_blocks sb" by (rule BBLOCK_in [OF wf that])
    then show ?thesis using nb by (auto simp: blk_used_def)
  qed
  show "file_ok (w(a := d)) sb j" using f U by (auto simp: file_ok_def F data_blk_def)
qed

text \<open>
  What writing \<open>d\<close> at byte \<open>off\<close> of the file in slot \<open>ip\<close>, which touches \<open>c\<close> blocks, does to the store:
  the bytes, the blocks that are there, and the blocks of everything else.
\<close>

definition wrote :: "u32 \<Rightarrow> nat \<Rightarrow> nat \<Rightarrow> 'z fsstate_scheme \<Rightarrow> nat \<Rightarrow> nat \<Rightarrow> byte list \<Rightarrow> 'z fsstate_scheme \<Rightarrow> bool" where
  "wrote D cap c s ip off d t \<longleftrightarrow> (let v = bs_view (babs D s); w = bs_view (babs D t); sb = fs_sb s; i = icache s ip; j = icache t ip in
     file_inv D cap t ip \<and> fframe s t \<and> (\<forall>k. slocks t (Sinode k) = slocks s (Sinode k)) \<and> bs_disk (babs D t) = bs_disk (babs D s) \<and>
     icache t = (icache s)(ip := i\<lparr>i_addrs := i_addrs j\<rparr>) \<and>
     (\<forall>p<max_bytes. fbyte w j p = (if off \<le> p \<and> p < off + length d then d ! (p - off) else fbyte v i p)) \<and>
     (\<forall>m<140. fb v i m \<noteq> 0 \<longrightarrow> fb w j m = fb v i m) \<and> (\<forall>p<max_bytes. off \<le> p \<longrightarrow> p < off + length d \<longrightarrow> fb w j (p div BSIZE) \<noteq> 0) \<and>
     ((\<forall>p<max_bytes. off \<le> p \<longrightarrow> p < off + length d \<longrightarrow> fb v i (p div BSIZE) \<noteq> 0) \<longrightarrow> icache t = icache s) \<and>
     (\<forall>k\<le>140. fb w j k = fb v i k \<or> \<not> blk_used v sb (fb w j k)) \<and>
     (\<forall>b. b < sb_size sb \<longrightarrow> blk_used v sb b \<longrightarrow> blk_used w sb b \<and> (b \<notin> bmap_blocks sb \<longrightarrow> (\<forall>k\<le>140. fb v i k \<noteq> b) \<longrightarrow> w b = v b)) \<and>
     nfree v sb \<le> nfree w sb + 2 * c \<and> (\<exists>X. finite X \<and> card X \<le> 5 * c \<and> bs_dirty (babs D t) = bs_dirty (babs D s) \<union> X))"

lemma wroteD:
  fixes s :: "'z fsstate_scheme"
  assumes "wrote D cap c s ip off d t"
  defines "v \<equiv> bs_view (babs D s)" and "w \<equiv> bs_view (babs D t)" and "i \<equiv> icache s ip" and "j \<equiv> icache t ip"
  shows "file_inv D cap t ip" "fframe s t" "\<forall>k. slocks t (Sinode k) = slocks s (Sinode k)" "bs_disk (babs D t) = bs_disk (babs D s)"
    "icache t = (icache s)(ip := i\<lparr>i_addrs := i_addrs j\<rparr>)"
    "p < max_bytes \<Longrightarrow> fbyte w j p = (if off \<le> p \<and> p < off + length d then d ! (p - off) else fbyte v i p)"
    "m < 140 \<Longrightarrow> fb v i m \<noteq> 0 \<Longrightarrow> fb w j m = fb v i m" "p < max_bytes \<Longrightarrow> off \<le> p \<Longrightarrow> p < off + length d \<Longrightarrow> fb w j (p div BSIZE) \<noteq> 0"
    "(\<And>p. p < max_bytes \<Longrightarrow> off \<le> p \<Longrightarrow> p < off + length d \<Longrightarrow> fb v i (p div BSIZE) \<noteq> 0) \<Longrightarrow> icache t = icache s"
    "k \<le> 140 \<Longrightarrow> fb w j k = fb v i k \<or> \<not> blk_used v (fs_sb s) (fb w j k)"
    "b < sb_size (fs_sb s) \<Longrightarrow> blk_used v (fs_sb s) b \<Longrightarrow> blk_used w (fs_sb s) b"
    "b < sb_size (fs_sb s) \<Longrightarrow> blk_used v (fs_sb s) b \<Longrightarrow> b \<notin> bmap_blocks (fs_sb s) \<Longrightarrow> (\<And>k. k \<le> 140 \<Longrightarrow> fb v i k \<noteq> b) \<Longrightarrow> w b = v b"
    "nfree v (fs_sb s) \<le> nfree w (fs_sb s) + 2 * c"
    "\<exists>X. finite X \<and> card X \<le> 5 * c \<and> bs_dirty (babs D t) = bs_dirty (babs D s) \<union> X"
  using assms(1) unfolding wrote_def Let_def v_def w_def i_def j_def by blast+

lemma wrote_nil: "file_inv D cap s ip \<Longrightarrow> wrote D cap 0 s ip off [] s"
  by (auto simp: wrote_def Let_def)

lemma wrote_sb: "wrote D cap c s ip off d t \<Longrightarrow> fs_sb t = fs_sb s"
  using wroteD(2) [of D cap c s ip off d t] by (simp add: fframe_def)

lemma wrote_append:
  fixes s :: "'z fsstate_scheme"
  assumes a: "wrote D cap c s ip off d t" and b: "wrote D cap e t ip (off + length d) f u"
  shows "wrote D cap (c + e) s ip off (d @ f) u"
proof -
  note A = wroteD [OF a] and B = wroteD [OF b, unfolded wrote_sb [OF a]]
  let ?v = "bs_view (babs D s)" and ?w = "bs_view (babs D t)" and ?z = "bs_view (babs D u)" and ?sb = "fs_sb s"
  let ?i = "icache s ip" and ?j = "icache t ip" and ?l = "icache u ip"
  obtain x y where xy: "icache t = (icache s)(ip := ?i\<lparr>i_addrs := x\<rparr>)" "icache u = (icache t)(ip := ?j\<lparr>i_addrs := y\<rparr>)"
    using A(5) B(5) by blast
  then have ic: "icache u = (icache s)(ip := ?i\<lparr>i_addrs := i_addrs ?l\<rparr>)" by simp
  have bytes: "fbyte ?z ?l p = (if off \<le> p \<and> p < off + length (d @ f) then (d @ f) ! (p - off) else fbyte ?v ?i p)" if "p < max_bytes" for p
    using A(6) [OF that] B(6) [OF that] by (auto simp: nth_append)
  have old: "fb ?v ?i m \<noteq> 0 \<Longrightarrow> fb ?z ?l m = fb ?v ?i m" if "m < 140" for m using A(7) [OF that] B(7) [OF that] by simp
  have fok: "file_ok ?z ?sb ?l" "file_ok ?w ?sb ?j"
    using B(1) A(1) wrote_sb [OF a] wrote_sb [OF b] by (simp_all add: file_inv_def)
  have there: "fb ?z ?l (p div BSIZE) \<noteq> 0" if "off \<le> p" "p < off + length (d @ f)" "p < max_bytes" for p
    using A(8) [OF that(3,1)] B(7) [OF block_index(1) [OF that(3)]] B(8) [OF that(3)] that by (cases "p < off + length d") auto
  have us: "blk_used ?z ?sb b" if "b < sb_size ?sb" "blk_used ?v ?sb b" for b by (rule B(11) [OF that(1) A(11) [OF that]])
  have new: "fb ?z ?l k = fb ?v ?i k \<or> \<not> blk_used ?v ?sb (fb ?z ?l k)" if "k \<le> 140" for k
  proof -
    have "0 < sb_size ?sb" using A(1) nmeta_le [of ?sb] wrote_sb [OF a]
      by (simp add: file_inv_def fs_inv_def sb_wf_def word_less_nat_alt)
    then have "fb ?z ?l k < sb_size ?sb" using file_okD(2) [OF fok(1) that] by (cases "fb ?z ?l k = 0") (auto simp: data_blk_def)
    then show ?thesis using A(10) [OF that] B(10) [OF that] A(11) by auto
  qed
  have keep: "?z b = ?v b" if b: "b < sb_size ?sb" "blk_used ?v ?sb b" "b \<notin> bmap_blocks ?sb" "\<And>k. k \<le> 140 \<Longrightarrow> fb ?v ?i k \<noteq> b" for b
  proof -
    have "fb ?w ?j k \<noteq> b" if "k \<le> 140" for k using A(10) [OF that] b(2) b(4) [OF that] by auto
    then show ?thesis using B(12) [OF b(1) A(11) [OF b(1,2)] b(3)] A(12) [OF b] by simp
  qed
  have unch: "icache u = icache s" if h: "\<And>p. p < max_bytes \<Longrightarrow> off \<le> p \<Longrightarrow> p < off + length (d @ f) \<Longrightarrow> fb ?v ?i (p div BSIZE) \<noteq> 0"
  proof -
    have "icache t = icache s" by (rule A(9)) (use h in auto)
    moreover have "icache u = icache t"
      by (rule B(9)) (use h A(7) [OF block_index(1)] in \<open>metis (no_types, lifting) add.assoc add_leE length_append\<close>)
    ultimately show ?thesis by simp
  qed
  obtain X Y where X: "finite X" "card X \<le> 5 * c" "bs_dirty (babs D t) = bs_dirty (babs D s) \<union> X"
    "finite Y" "card Y \<le> 5 * e" "bs_dirty (babs D u) = bs_dirty (babs D t) \<union> Y" using A(14) B(14) by blast
  then have dirty: "\<exists>X. finite X \<and> card X \<le> 5 * (c + e) \<and> bs_dirty (babs D u) = bs_dirty (babs D s) \<union> X"
    using card_Un_le [of X Y] by (intro exI [of _ "X \<union> Y"]) auto
  show ?thesis unfolding wrote_def Let_def
    using B(1,3,4) A(3,4) fframe_trans [OF A(2) B(2)] ic bytes old there us new keep unch dirty A(13) B(13) by (intro conjI) (blast | simp)+
qed

lemma fbyte_zero_block: "fb v i m = 0 \<Longrightarrow> p div BSIZE = m \<Longrightarrow> fbyte v i p = 0"
  by (simp add: fbyte_def)

lemma write_block:
  fixes s :: "'z fsstate_scheme"
  assumes fi: "file_inv D cap s ip" and m: "m < 140" and sp: "spare cap (babs D s) 6"
    and nf: "2 \<le> nfree (bs_view (babs D s)) (fs_sb s)" and ro: "r + length d \<le> BSIZE" "d \<noteq> []"
  shows "runs (bind (bmap ip (of_nat m)) (\<lambda>addr. bind (inode_of ip) (\<lambda>i. bind (bread (i_dev i) addr) (\<lambda>bp.
    seq (buf_write bp (splice r d)) (seq (log_write bp) (brelse bp)))))) s (\<lambda>_ t. wrote D cap 1 s ip (m * BSIZE + r) d t)"
proof (rule runs_bind [OF bmap_run [OF fi m, of 0]])
  show "spare cap (babs D s) (0 + 6)" "2 \<le> nfree (bs_view (babs D s)) (fs_sb s)" using sp nf by simp_all
  fix a t assume map: "mapped D cap s ip m a t"
  note M = mappedD [OF map]
  let ?v = "bs_view (babs D s)" and ?w = "bs_view (babs D t)" and ?sb = "fs_sb s" and ?i = "icache s ip" and ?j = "icache t ip"
  have sb: "fs_sb t = ?sb" using M(2) by (simp add: fframe_def)
  have wf: "sb_wf ?sb" and fok: "file_ok ?v ?sb ?i" and dev: "i_dev ?i = D" and h: "bs_held (babs D s) = Map.empty"
    and ok: "log_ok D (sb_logstart ?sb) cap s" using fi by (simp_all add: file_inv_def fs_inv_def)
  obtain x where icx: "icache t = (icache s)(ip := ?i\<lparr>i_addrs := x\<rparr>)" using M(7) by blast
  then have devt: "i_dev ?j = D" using dev by simp
  have fa: "fb ?w ?j m = a" using M(10) [OF m] by simp
  have da: "data_blk ?w ?sb a" using file_okD(2) [OF M(8), of m] fa M(9) m by simp
  note na = data_blk_nz [OF wf da]
  have len: "length (?w a) = BSIZE" by (rule ls.view_length [OF M(1)])
  obtain X where X: "finite X" "card X \<le> 4" "bs_dirty (babs D t) = bs_dirty (babs D s) \<union> X" using M(17) by blast
  have spt: "spare cap (babs D t) (Suc 1)"
    by (rule spare_union [where c = 4, OF _ X(1,2,3) M(4)]) (use sp in simp)
  have "runs (bind (bread D a) (\<lambda>bp. seq (buf_write bp (splice r d)) (seq (log_write bp) (brelse bp)))) t
     (\<lambda>_ u. txs D (sb_logstart ?sb) cap t ((babs D t)\<lparr>bs_view := (bs_view (babs D t))(a := splice r d (bs_view (babs D t) a)),
        bs_dirty := insert a (bs_dirty (babs D t))\<rparr>) u)"
    using na ro len h M(4) by (intro modify_tx [OF M(1) _ _ spt]) (simp_all add: BSIZE_def)
  moreover have "wrote D cap 1 s ip (m * BSIZE + r) d u"
    if u: "txs D (sb_logstart ?sb) cap t ((babs D t)\<lparr>bs_view := (bs_view (babs D t))(a := splice r d (bs_view (babs D t) a)),
        bs_dirty := insert a (bs_dirty (babs D t))\<rparr>) u" for u
  proof -
    note ab = txsD(3) [OF u] and fs = txs_fs [OF u]
    let ?z = "bs_view (babs D u)"
    have z: "?z = ?w(a := splice r d (?w a))" by (simp add: ab)
    note S = store_block [where d = "splice r d (?w a)", OF M(8) wf m fa M(9), folded z]
    have fbz: "fb ?z ?j k = (if k = m then a else fb ?v ?i k)" if "k < 140" for k using S(1) [of k] M(10) [OF that] that by simp
    have wa: "?w a ! q = fbyte ?v ?i (m * BSIZE + q)" if "q < BSIZE" for q
    proof -
      have "(m * BSIZE + q) div BSIZE = m" "(m * BSIZE + q) mod BSIZE = q" using that by simp_all
      then show ?thesis using M(12,13) fa that by (cases "fb ?v ?i m = 0") (auto simp: fbyte_def)
    qed
    have wk: "?z (fb ?v ?i k) = ?v (fb ?v ?i k)" if "k < 140" "k \<noteq> m" "fb ?v ?i k \<noteq> 0" for k
    proof -
      have dk: "data_blk ?v ?sb (fb ?v ?i k)" using file_okD(2) [OF fok, of k] that by simp
      have "fb ?v ?i k \<noteq> a" using file_okD(3) [OF M(8), of m k] fa M(9) M(10) [OF that(1)] that m by auto
      moreover have "fb ?v ?i k \<noteq> fb ?v ?i 140" using file_okD(3) [OF fok, of k 140] that by auto
      ultimately show ?thesis using M(15) [of "fb ?v ?i k"] dk data_blk_nz [OF wf dk] by (simp add: z data_blk_def)
    qed
    have bytes: "fbyte ?z ?j p = (if m * BSIZE + r \<le> p \<and> p < m * BSIZE + r + length d then d ! (p - (m * BSIZE + r)) else fbyte ?v ?i p)"
      if p: "p < max_bytes" for p
    proof (cases "p div BSIZE = m")
      case True
      then have pm: "p = m * BSIZE + p mod BSIZE" by (metis div_mult_mod_eq)
      obtain q where q: "p = m * BSIZE + q" "q < BSIZE" using pm by (metis BSIZE_def mod_less_divisor zero_less_numeral)
      have qq: "(m * BSIZE + q) div BSIZE = m" "(m * BSIZE + q) mod BSIZE = q" using q(2) by simp_all
      have "fbyte ?z ?j p = splice r d (?w a) ! q" using fbz [OF m] M(9) by (simp add: fbyte_def q qq z)
      also have "\<dots> = (if r \<le> q \<and> q < r + length d then d ! (q - r) else fbyte ?v ?i p)"
        using ro(1) len q wa [OF q(2)] by (simp add: nth_splice)
      finally show ?thesis by (simp add: q)
    next
      case False
      then have out: "\<not> (m * BSIZE + r \<le> p \<and> p < m * BSIZE + r + length d)" using ro(1) by (auto simp: BSIZE_def)
      have "fb ?z ?j (p div BSIZE) = fb ?v ?i (p div BSIZE)" using fbz [OF block_index(1) [OF p]] False by simp
      then show ?thesis using wk [OF block_index(1) [OF p] False] out unfolding fbyte_def by auto
    qed
    have inv: "file_inv D cap u ip"
    proof -
      have "meta_used ?z ?sb"
        unfolding meta_used_def
      proof (intro allI impI)
        fix n assume n: "n < nmeta ?sb"
        then have l: "n < unat (sb_size ?sb)" using nmeta_le [of ?sb] by simp
        then have "unat (of_nat n :: u32) = n" using unat_less_32 [of "sb_size ?sb"] by (intro unat_of_nat32) simp
        then show "blk_used ?z ?sb (of_nat n)" using S(2) [of "of_nat n"] l M(6) n by (simp add: word_less_nat_alt meta_used_def)
      qed
      then show ?thesis using txsD(1) [OF u] wf S(3) devt M(4) h by (simp add: file_inv_def fs_inv_def fs sb) (simp add: ab)
    qed
    have out: "(m * BSIZE + r \<le> p \<and> p < m * BSIZE + r + length d) \<longrightarrow> p div BSIZE = m" for p
      using ro(1) by (auto simp: BSIZE_def)
    have there: "\<forall>p<max_bytes. m * BSIZE + r \<le> p \<longrightarrow> p < m * BSIZE + r + length d \<longrightarrow> fb ?z ?j (p div BSIZE) \<noteq> 0"
      using out fbz [OF m] M(9) by simp
    have old: "\<forall>k<140. fb ?v ?i k \<noteq> 0 \<longrightarrow> fb ?z ?j k = fb ?v ?i k" using fbz M(13) fa by auto
    have new: "\<forall>k\<le>140. fb ?z ?j k = fb ?v ?i k \<or> \<not> blk_used ?v ?sb (fb ?z ?j k)" using M(11) S(1) by simp
    have us: "blk_used ?z ?sb b" if "b < sb_size ?sb" "blk_used ?v ?sb b" for b using M(14) [OF that] S(2) [OF that(1)] by simp
    have keep: "?z b = ?v b" if "b < sb_size ?sb" "blk_used ?v ?sb b" "b \<notin> bmap_blocks ?sb" "\<forall>k\<le>140. fb ?v ?i k \<noteq> b" for b
    proof -
      have "b \<noteq> a" using M(11) [of m] fa that(2) that(4) [rule_format, of m] m by auto
      moreover have "b \<noteq> fb ?v ?i 140" using that(4) by auto
      ultimately show ?thesis using M(15) [OF that(1-3)] by (simp add: z)
    qed
    have nfr: "nfree ?v ?sb \<le> nfree ?z ?sb + 2 * 1"
    proof -
      have eq: "{n. n < unat (sb_size ?sb) \<and> \<not> blk_used ?z ?sb (of_nat n)} = {n. n < unat (sb_size ?sb) \<and> \<not> blk_used ?w ?sb (of_nat n)}"
      proof (rule Collect_cong)
        fix n
        have "n < unat (sb_size ?sb) \<Longrightarrow> (of_nat n :: u32) < sb_size ?sb"
          using unat_less_32 [of "sb_size ?sb"] by (simp add: word_less_nat_alt unat_of_nat32)
        then show "(n < unat (sb_size ?sb) \<and> \<not> blk_used ?z ?sb (of_nat n)) = (n < unat (sb_size ?sb) \<and> \<not> blk_used ?w ?sb (of_nat n))"
          using S(2) [of "of_nat n"] by auto
      qed
      then show ?thesis using M(16) by (simp add: nfree_def)
    qed
    have dirty: "\<exists>X. finite X \<and> card X \<le> 5 * 1 \<and> bs_dirty (babs D u) = bs_dirty (babs D s) \<union> X"
      using X by (intro exI [of _ "insert a X"]) (auto simp: ab card_insert_if)
    have same: "icache u = icache s" if "\<forall>p<max_bytes. m * BSIZE + r \<le> p \<longrightarrow> p < m * BSIZE + r + length d \<longrightarrow> fb ?v ?i (p div BSIZE) \<noteq> 0"
    proof -
      have l: "0 < length d" using ro(2) by simp
      then have l2: "r < BSIZE" using ro(1) by linarith
      have "m * BSIZE + r < max_bytes" using l2 m by (simp add: max_bytes_def MAXFILE_def NDIRECT_def NINDIRECT_def BSIZE_def)
      moreover have "(m * BSIZE + r) div BSIZE = m" using l2 by simp
      ultimately have "fb ?v ?i m \<noteq> 0" using that l by fastforce
      then have "?j = ?i" using M(13) by simp
      then show ?thesis using icx by (simp add: fs)
    qed
    have sl: "\<forall>k. slocks u (Sinode k) = slocks s (Sinode k)" using lframe_fields(8) [OF txsD(2) [OF u]] M(3) by simp
    have "wrote D cap 1 s ip (m * BSIZE + r) d u"
      unfolding wrote_def Let_def fs(2)
      using inv fframe_trans [OF M(2) lframe_fframe [OF txsD(2) [OF u]]] sl M(5,7) bytes old there same new us keep nfr dirty
      by (intro conjI) (blast | simp add: ab fs)+
    then show ?thesis .
  qed
  ultimately show "runs (bind (inode_of ip) (\<lambda>i. bind (bread (i_dev i) a) (\<lambda>bp.
    seq (buf_write bp (splice r d)) (seq (log_write bp) (brelse bp))))) t (\<lambda>_ t. wrote D cap 1 s ip (m * BSIZE + r) d t)"
    by (simp add: devt) (blast intro: runs_mono)
qed


section \<open>The property of the block map\<close>

text \<open>
  C20. \<open>bmap\<close> returns the block of the file that is there, changing nothing, or gives the file a block
  that was free and is now zero; every other block of the file stays where it was, blocks of other
  files keep their content, and no block gets two owners.
\<close>

theorem bmap_correct:
  fixes s :: "'z fsstate_scheme"
  assumes "file_inv D cap s ip" "m < 140" "spare cap (babs D s) 6"
    and "fb (bs_view (babs D s)) (icache s ip) m = 0 \<longrightarrow> 2 \<le> nfree (bs_view (babs D s)) (fs_sb s)"
  shows "runs (bmap ip (of_nat m)) s (\<lambda>a t. file_inv D cap t ip \<and> a \<noteq> 0 \<and>
     (\<forall>k<140. fb (bs_view (babs D t)) (icache t ip) k = (if k = m then a else fb (bs_view (babs D s)) (icache s ip) k)) \<and>
     (if fb (bs_view (babs D s)) (icache s ip) m \<noteq> 0 then babs D t = babs D s \<and> icache t = icache s
      else \<not> blk_used (bs_view (babs D s)) (fs_sb s) a \<and> bs_view (babs D t) a = replicate BSIZE 0) \<and>
     (\<forall>b. b < sb_size (fs_sb s) \<longrightarrow> blk_used (bs_view (babs D s)) (fs_sb s) b \<longrightarrow> b \<notin> bmap_blocks (fs_sb s) \<longrightarrow>
        b \<noteq> fb (bs_view (babs D s)) (icache s ip) 140 \<longrightarrow> bs_view (babs D t) b = bs_view (babs D s) b))"
proof (rule runs_mono [OF bmap_run [OF assms(1,2), of 0]])
  show "spare cap (babs D s) (0 + 6)" using assms(3) by simp
  show "2 \<le> nfree (bs_view (babs D s)) (fs_sb s)" if "fb (bs_view (babs D s)) (icache s ip) m = 0" using assms(4) that by blast
  fix a t assume map: "mapped D cap s ip m a t"
  note M = mappedD [OF map]
  have sb: "fs_sb t = fs_sb s" using M(2) by (simp add: fframe_def)
  obtain x where x: "icache t = (icache s)(ip := (icache s ip)\<lparr>i_addrs := x\<rparr>)" using M(7) by blast
  have "file_inv D cap t ip" using M(1,4,6,8) assms(1) x by (simp add: file_inv_def fs_inv_def sb)
  moreover have "icache t = icache s" if "icache t ip = icache s ip" using x that by (metis fun_upd_same fun_upd_triv)
  ultimately show "file_inv D cap t ip \<and> a \<noteq> 0 \<and>
     (\<forall>k<140. fb (bs_view (babs D t)) (icache t ip) k = (if k = m then a else fb (bs_view (babs D s)) (icache s ip) k)) \<and>
     (if fb (bs_view (babs D s)) (icache s ip) m \<noteq> 0 then babs D t = babs D s \<and> icache t = icache s
      else \<not> blk_used (bs_view (babs D s)) (fs_sb s) a \<and> bs_view (babs D t) a = replicate BSIZE 0) \<and>
     (\<forall>b. b < sb_size (fs_sb s) \<longrightarrow> blk_used (bs_view (babs D s)) (fs_sb s) b \<longrightarrow> b \<notin> bmap_blocks (fs_sb s) \<longrightarrow>
        b \<noteq> fb (bs_view (babs D s)) (icache s ip) 140 \<longrightarrow> bs_view (babs D t) b = bs_view (babs D s) b)"
    using M(9,10,12,13,15) M(10) [OF assms(2)] M(11) [of m] assms(2) by auto
qed

section \<open>Writing a file\<close>

text \<open>The number of blocks that \<open>n\<close> bytes at \<open>off\<close> touch.\<close>

definition nblk :: "nat \<Rightarrow> nat \<Rightarrow> nat" where
  "nblk off n = (if n = 0 then 0 else (off mod BSIZE + n + (BSIZE - 1)) div BSIZE)"

lemma nblk_step:
  assumes "0 < n"
  shows "nblk off n = Suc (nblk (off + min n (BSIZE - off mod BSIZE)) (n - min n (BSIZE - off mod BSIZE)))"
proof (cases "n \<le> BSIZE - off mod BSIZE")
  case True
  then have "off mod BSIZE + n + (BSIZE - 1) = BSIZE * 1 + (off mod BSIZE + n - 1)" "off mod BSIZE + n - 1 < BSIZE"
    using assms by (simp_all add: BSIZE_def)
  then have "(off mod BSIZE + n + (BSIZE - 1)) div BSIZE = 1" by (simp add: BSIZE_def)
  then show ?thesis using True assms by (simp add: nblk_def)
next
  case False
  have lt: "off mod BSIZE < BSIZE" by (simp add: BSIZE_def)
  have "(off + (BSIZE - off mod BSIZE)) mod BSIZE = (off mod BSIZE + (BSIZE - off mod BSIZE)) mod BSIZE" by (simp add: mod_simps)
  also have "\<dots> = 0" using lt by simp
  finally have z: "(off + (BSIZE - off mod BSIZE)) mod BSIZE = 0" .
  have "off mod BSIZE + n + (BSIZE - 1) = (n - (BSIZE - off mod BSIZE) + (BSIZE - 1)) + BSIZE * 1" using False lt by simp
  then have "(off mod BSIZE + n + (BSIZE - 1)) div BSIZE = Suc ((n - (BSIZE - off mod BSIZE) + (BSIZE - 1)) div BSIZE)"
    by (simp add: BSIZE_def)
  then show ?thesis using False assms z by (simp add: nblk_def)
qed

lemma writei_loop_run:
  fixes s :: "'z fsstate_scheme"
  assumes "file_inv D cap s ip" "spare cap (babs D s) (5 * nblk (unat off) (unat n - unat tot) + 1)"
    "2 * nblk (unat off) (unat n - unat tot) \<le> nfree (bs_view (babs D s)) (fs_sb s)"
    "unat tot \<le> unat n" "length src = unat n - unat tot" "unat off + length src \<le> max_bytes"
  shows "runs (writei_loop ip src off n tot) s (\<lambda>r t. unat r = unat off + length src \<and>
     wrote D cap (nblk (unat off) (length src)) s ip (unat off) src t)"
  using assms
proof (induction ip src off n tot arbitrary: s rule: writei_loop.induct)
  case (1 ip src off n tot)
  note fi = "1.prems"(1) and sp = "1.prems"(2)[folded "1.prems"(5)] and nf = "1.prems"(3)[folded "1.prems"(5)] and len = "1.prems"(5) and mx = "1.prems"(6)
  show ?case
  proof (cases "tot < n")
    case False
    then have "unat n - unat tot = 0" by (simp add: word_less_nat_alt)
    then show ?thesis using False wrote_nil [OF fi] len by (subst writei_loop.simps) (simp add: nblk_def)
  next
    case True
    define m where "m = chunk off n tot"
    have lt: "unat tot < unat n" using True by (simp add: word_less_nat_alt)
    have pm: "unat off < max_bytes" using mx len lt by simp
    note bi = block_index [OF pm]
    note op = off_parts [OF bi(2)] and cb = chunk_bounds [OF True, of off, folded m_def]
    have um: "unat m = min (length src) (BSIZE - unat off mod BSIZE)" using unat_chunk [OF True bi(2)] len by (simp add: m_def)
    have add: "unat (off + m) = unat off + unat m"
      using pm um mx by (intro unat_add64) (simp add: max_bytes_def MAXFILE_def NDIRECT_def NINDIRECT_def BSIZE_def)
    let ?d = "take (unat m) src" and ?p = "unat off div BSIZE * BSIZE + unat off mod BSIZE"
    have ld: "length ?d = unat m" using um by simp
    have st: "nblk (unat off) (length src) = Suc (nblk (unat off + unat m) (length src - unat m))"
      using nblk_step [of "length src" "unat off"] len lt um by simp
    have "runs (bind (bmap ip (of_nat (unat off div BSIZE))) (\<lambda>addr. bind (inode_of ip) (\<lambda>i. bind (bread (i_dev i) addr) (\<lambda>bp.
      seq (buf_write bp (splice (unat off mod BSIZE) ?d)) (seq (log_write bp) (brelse bp)))))) s (\<lambda>_ t. wrote D cap 1 s ip ?p ?d t)"
    proof (rule write_block [OF fi bi(1)])
      show "spare cap (babs D s) 6" using spare_mono [OF sp, of 6] st by simp
      show "2 \<le> nfree (bs_view (babs D s)) (fs_sb s)" using nf st by simp
      show "unat off mod BSIZE + length ?d \<le> BSIZE" "?d \<noteq> []" using ld um cb(1) by (auto simp: BSIZE_def)
    qed
    then have blk: "runs (bind (bmap ip (of_nat (unat off div BSIZE))) (\<lambda>addr. bind (inode_of ip) (\<lambda>i. bind (bread (i_dev i) addr) (\<lambda>bp.
      seq (buf_write bp (splice (unat off mod BSIZE) ?d)) (seq (log_write bp) (brelse bp)))))) s (\<lambda>_ t. wrote D cap 1 s ip (unat off) ?d t)"
      by simp
    have rest: "runs (writei_loop ip (drop (unat m) src) (off + m) n (tot + m)) t (\<lambda>r u. unat r = unat off + length src \<and>
        wrote D cap (nblk (unat off) (length src)) s ip (unat off) src u)" if t: "wrote D cap 1 s ip (unat off) ?d t" for t
    proof -
      note W = wroteD [OF t]
      let ?n = "nblk (unat off + unat m) (length src - unat m)"
      have ln: "unat n - unat (tot + m) = length src - unat m" using cb len by simp
      obtain X where X: "finite X" "card X \<le> 5" "bs_dirty (babs D t) = bs_dirty (babs D s) \<union> X" using W(14) by auto
      have h: "bs_held (babs D t) = bs_held (babs D s)" using W(1) fi by (simp add: file_inv_def fs_inv_def)
      have "spare cap (babs D t) (5 * ?n + 1)" by (rule spare_union [where c = 5, OF _ X h]) (use sp st in simp)
      then have "runs (writei_loop ip (drop (unat m) src) (off + m) n (tot + m)) t (\<lambda>r u. unat r = unat (off + m) + length (drop (unat m) src) \<and>
          wrote D cap (nblk (unat (off + m)) (length (drop (unat m) src))) t ip (unat (off + m)) (drop (unat m) src) u)"
      proof (intro "1.IH" [OF _ m_def] W(1))
        show "\<not> \<not> tot < n" using True by simp
        show "\<not> length src < unat m" using um by simp
        show "spare cap (babs D t) (5 * nblk (unat (off + m)) (unat n - unat (tot + m)) + 1)" if "spare cap (babs D t) (5 * ?n + 1)"
          using that by (simp only: ln add)
        show "2 * nblk (unat (off + m)) (unat n - unat (tot + m)) \<le> nfree (bs_view (babs D t)) (fs_sb t)"
          unfolding ln add using nf st W(13) by (simp add: wrote_sb [OF t])
        show "unat (tot + m) \<le> unat n" using cb(2,3) by simp
        show "length (drop (unat m) src) = unat n - unat (tot + m)" using ln by simp
        show "unat (off + m) + length (drop (unat m) src) \<le> max_bytes" using add mx um by simp
      qed
      then show ?thesis
        by (rule runs_mono) (use wrote_append [where e = ?n and f = "drop (unat m) src", OF t] add ld um st in auto)
    qed
    have "runs (bind (bind (bmap ip (of_nat (unat off div BSIZE))) (\<lambda>addr. bind (inode_of ip) (\<lambda>i. bind (bread (i_dev i) addr) (\<lambda>bp.
      seq (buf_write bp (splice (unat off mod BSIZE) ?d)) (seq (log_write bp) (brelse bp))))))
      (\<lambda>_. writei_loop ip (drop (unat m) src) (off + m) n (tot + m))) s (\<lambda>r u. unat r = unat off + length src \<and>
        wrote D cap (nblk (unat off) (length src)) s ip (unat off) src u)"
      by (rule runs_bind [OF blk rest])
    moreover have "\<not> length src < unat m" using um by simp
    ultimately show ?thesis
      using True unfolding bind_assoc op [symmetric] m_def by (subst writei_loop.simps) (simp only: Let_def if_False not_True_eq_False if_True)
  qed
qed

lemma iblock_data:
  assumes "sb_wf sb" "meta_used v sb" "file_ok v sb i" "c < sb_ninodes sb"
  shows "IBLOCK c sb < sb_size sb" "blk_used v sb (IBLOCK c sb)" "IBLOCK c sb \<notin> bmap_blocks sb" "IBLOCK c sb \<noteq> 0" "k \<le> 140 \<Longrightarrow> fb v i k \<noteq> IBLOCK c sb"
proof -
  note r = IBLOCK_range [OF assms(1,4)] unat_IBLOCK [OF assms(1,4)]
  have l: "unat (IBLOCK c sb) < nmeta sb" using r(1) assms(1) by (simp add: sb_wf_def)
  then show "IBLOCK c sb < sb_size sb" using nmeta_le [of sb] by (simp add: word_less_nat_alt)
  show "blk_used v sb (IBLOCK c sb)" using assms(2) l by (auto simp: meta_used_def dest: spec [of _ "unat (IBLOCK c sb)"])
  show "IBLOCK c sb \<notin> bmap_blocks sb" by (rule r(3))
  have "0 < unat (IBLOCK c sb)" using r(4) assms(1) by (simp add: sb_wf_def)
  then show nz: "IBLOCK c sb \<noteq> 0" by auto
  show "fb v i k \<noteq> IBLOCK c sb" if "k \<le> 140"
  proof
    assume e: "fb v i k = IBLOCK c sb"
    then have "data_blk v sb (IBLOCK c sb)" using file_okD(2) [OF assms(3) that] nz by simp
    then show False using l by (simp add: data_blk_def)
  qed
qed

lemma wrote_dinode:
  fixes s :: "'z fsstate_scheme"
  assumes w: "wrote D cap c s ip off d t" and fi: "file_inv D cap s ip" and n: "e < sb_ninodes (fs_sb s)"
  shows "dinode_at (bs_view (babs D t)) (fs_sb s) e = dinode_at (bs_view (babs D s)) (fs_sb s) e"
proof -
  have i: "sb_wf (fs_sb s)" "meta_used (bs_view (babs D s)) (fs_sb s)" "file_ok (bs_view (babs D s)) (fs_sb s) (icache s ip)"
    using fi by (simp_all add: file_inv_def fs_inv_def)
  note b = iblock_data [OF i n]
  show ?thesis using wroteD(12) [OF w b(1-3)] b(5) by (simp add: dinode_at_def)
qed

text \<open>
  \<open>writei\<close> refuses a write that starts beyond the end of the file or ends beyond the largest file,
  also when the end wraps around, and then changes nothing.
\<close>

theorem writei_refuses:
  fixes s :: "'z fsstate_scheme"
  assumes "i_type (icache s ip) \<noteq> T_DEV" "unat (i_size (icache s ip)) < unat off \<or> max_bytes < unat off + unat n"
  shows "writei dsw ip src off n s = Inr (-1, s)"
proof -
  have mb: "unat (of_nat (MAXFILE * BSIZE) :: u64) = max_bytes"
    by (simp add: max_bytes_def MAXFILE_def NDIRECT_def NINDIRECT_def BSIZE_def)
  consider "ucast (i_size (icache s ip)) < off" | "off + n < off" | "of_nat (MAXFILE * BSIZE) < off + n"
    using assms(2) unat_end [of off n] unat_add64 [of off n] mb by (fastforce simp: word_less_nat_alt)
  then show ?thesis using assms(1) by cases (simp_all add: writei_def kop_simps)
qed

lemma wrote_no_holes:
  fixes s :: "'z fsstate_scheme"
  assumes w: "wrote D cap c s ip off d t" and nh: "no_holes (bs_view (babs D s)) (icache s ip)"
    and b: "off \<le> unat (i_size (icache s ip))" "off + length d \<le> max_bytes"
  shows "m * BSIZE < max (unat (i_size (icache s ip))) (off + length d) \<Longrightarrow> fb (bs_view (babs D t)) (icache t ip) m \<noteq> 0"
proof -
  assume m: "m * BSIZE < max (unat (i_size (icache s ip))) (off + length d)"
  have zm: "unat (i_size (icache s ip)) \<le> max_bytes" using nh by (simp add: no_holes_def)
  have "m * BSIZE < max_bytes" using m zm b(2) by linarith
  from block_index(1) [OF this] have m140: "m < 140" by (simp add: BSIZE_def)
  show ?thesis
  proof (cases "m * BSIZE < unat (i_size (icache s ip))")
    case True
    then have "fb (bs_view (babs D s)) (icache s ip) m \<noteq> 0" using nh by (simp add: no_holes_def)
    then show ?thesis using wroteD(7) [OF w m140] by simp
  next
    case False
    then have g: "off \<le> m * BSIZE" "m * BSIZE < off + length d" using m b(1) by simp_all
    then show ?thesis using wroteD(8) [OF w _ g] b(2) by (simp add: BSIZE_def)
  qed
qed

lemma iupdate_file:
  fixes s :: "'z fsstate_scheme"
  assumes fi: "file_inv D cap s ip" and n: "i_inum (icache s ip) < sb_ninodes (fs_sb s)" and sp: "spare cap (babs D s) (Suc k)"
  shows "runs (iupdate ip) s (\<lambda>_ t. file_inv D cap t ip \<and> fframe s t \<and> icache t = icache s \<and>
     (\<forall>k\<le>140. fb (bs_view (babs D t)) (icache s ip) k = fb (bs_view (babs D s)) (icache s ip) k) \<and>
     (\<forall>p<max_bytes. fbyte (bs_view (babs D t)) (icache s ip) p = fbyte (bs_view (babs D s)) (icache s ip) p) \<and>
     (\<forall>c. c < sb_ninodes (fs_sb s) \<longrightarrow> dinode_at (bs_view (babs D t)) (fs_sb s) c =
        (if c = i_inum (icache s ip) then disk_part (icache s ip) else dinode_at (bs_view (babs D s)) (fs_sb s) c)))"
proof -
  let ?sb = "fs_sb s" and ?i = "icache s ip" and ?v = "bs_view (babs D s)"
  have I: "log_ok D (sb_logstart ?sb) cap s" "sb_wf ?sb" "meta_used ?v ?sb" "bs_held (babs D s) = Map.empty" "i_dev ?i = D" "file_ok ?v ?sb ?i"
    using fi by (simp_all add: file_inv_def fs_inv_def)
  note b = iblock_data [OF I(2,3,6) n]
  have "runs (iupdate ip) s (\<lambda>_ t. txs D (sb_logstart ?sb) cap s (update_effect ?sb ?i (babs D s)) t)"
    using file_okD(1) [OF I(6)] by (intro iupdate_run [OF I(1,2) sp I(5) n]) (simp_all add: I(4))
  then show ?thesis
  proof (rule runs_mono)
    fix x t assume t: "txs D (sb_logstart ?sb) cap s (update_effect ?sb ?i (babs D s)) t"
    note ab = txsD(3) [OF t] and fs = txs_fs [OF t]
    let ?w = "bs_view (babs D t)"
    have w: "?w = ?v(IBLOCK (i_inum ?i) ?sb := write_dinode (dinode_off (i_inum ?i)) (disk_part ?i) (?v (IBLOCK (i_inum ?i) ?sb)))"
      by (simp add: ab update_effect_def)
    have U: "blk_used ?w ?sb c = blk_used ?v ?sb c" if "c < sb_size ?sb" for c
      using BBLOCK_in [OF I(2) that] b(3) by (auto simp: blk_used_def w)
    have F: "fb ?w ?i k = fb ?v ?i k" if "k \<le> 140" for k using b(5) [of 140] by (auto simp: fb_def w)
    have B: "fbyte ?w ?i p = fbyte ?v ?i p" if "p < max_bytes" for p
      using block_index(1) [OF that] F [of "p div BSIZE"] b(5) [of "p div BSIZE"] by (auto simp: fbyte_def w)
    have "meta_used ?w ?sb"
      unfolding meta_used_def
    proof (intro allI impI)
      fix n assume n: "n < nmeta ?sb"
      then have l: "n < unat (sb_size ?sb)" using nmeta_le [of ?sb] by simp
      then have "unat (of_nat n :: u32) = n" using unat_less_32 [of "sb_size ?sb"] by (intro unat_of_nat32) simp
      then show "blk_used ?w ?sb (of_nat n)" using U [of "of_nat n"] l I(3) n by (simp add: word_less_nat_alt meta_used_def)
    qed
    moreover have "file_ok ?w ?sb ?i" using I(6) U by (auto simp: file_ok_def F data_blk_def)
    moreover have "bs_held (babs D t) = Map.empty" by (simp add: ab update_effect_def I(4))
    ultimately have "file_inv D cap t ip" using txsD(1) [OF t] I(2,5) by (simp add: file_inv_def fs_inv_def fs)
    moreover have "dinode_at ?w ?sb c = (if c = i_inum ?i then disk_part ?i else dinode_at ?v ?sb c)" if "c < sb_ninodes ?sb" for c
      unfolding w using file_okD(1) [OF I(6)] ls.view_length [OF I(1)]
      by (intro dinode_at_write [OF I(2) n _ _ that]) (simp_all add: disk_part_def)
    ultimately show "file_inv D cap t ip \<and> fframe s t \<and> icache t = icache s \<and> (\<forall>k\<le>140. fb ?w ?i k = fb ?v ?i k) \<and>
     (\<forall>p<max_bytes. fbyte ?w ?i p = fbyte ?v ?i p) \<and>
     (\<forall>c. c < sb_ninodes ?sb \<longrightarrow> dinode_at ?w ?sb c = (if c = i_inum ?i then disk_part ?i else dinode_at ?v ?sb c))"
      using lframe_fframe [OF txsD(2) [OF t]] fs F B by simp
  qed
qed

text \<open>
  What \<open>writei\<close> leaves: content, size, blocks, and the inodes on the disk. The inode written to is
  copied to the disk when the file grew; else the disk keeps the inode as it was, which differs from
  the copy in memory once a block pointer has been set there: when the write filled a hole.
\<close>

definition written :: "u32 \<Rightarrow> nat \<Rightarrow> 'z fsstate_scheme \<Rightarrow> nat \<Rightarrow> nat \<Rightarrow> byte list \<Rightarrow> 'z fsstate_scheme \<Rightarrow> bool" where
  "written D cap s ip off d t \<longleftrightarrow> (let v = bs_view (babs D s); w = bs_view (babs D t); sb = fs_sb s; i = icache s ip; j = icache t ip in
     file_inv D cap t ip \<and> fframe s t \<and> (no_holes v i \<longrightarrow> no_holes w j) \<and>
     unat (i_size j) = max (unat (i_size i)) (off + length d) \<and>
     icache t = (icache s)(ip := i\<lparr>i_addrs := i_addrs j, i_size := i_size j\<rparr>) \<and>
     (\<forall>p<max_bytes. fbyte w j p = (if off \<le> p \<and> p < off + length d then d ! (p - off) else fbyte v i p)) \<and>
     (\<forall>c. c < sb_ninodes sb \<longrightarrow> dinode_at w sb c =
        (if c = i_inum i \<and> unat (i_size i) < off + length d then disk_part j else dinode_at v sb c)) \<and>
     ((\<forall>p. off \<le> p \<and> p < off + length d \<longrightarrow> fb v i (p div BSIZE) \<noteq> 0) \<longrightarrow> i_addrs j = i_addrs i) \<and>
     ((\<exists>p. off \<le> p \<and> p < off + length d \<and> p div BSIZE < NDIRECT \<and> fb v i (p div BSIZE) = 0) \<longrightarrow> i_addrs j \<noteq> i_addrs i))"

lemma wrote_addrs:
  fixes s :: "'z fsstate_scheme"
  assumes w: "wrote D cap c s ip off d t" and mx: "off + length d \<le> max_bytes"
  defines "v \<equiv> bs_view (babs D s)" and "i \<equiv> icache s ip" and "j \<equiv> icache t ip"
  shows "\<forall>p. off \<le> p \<and> p < off + length d \<longrightarrow> fb v i (p div BSIZE) \<noteq> 0 \<Longrightarrow> i_addrs j = i_addrs i"
    and "off \<le> p \<Longrightarrow> p < off + length d \<Longrightarrow> p div BSIZE < NDIRECT \<Longrightarrow> fb v i (p div BSIZE) = 0 \<Longrightarrow> i_addrs j \<noteq> i_addrs i"
proof -
  show "i_addrs j = i_addrs i" if "\<forall>p. off \<le> p \<and> p < off + length d \<longrightarrow> fb v i (p div BSIZE) \<noteq> 0"
  proof -
    have "icache t = icache s" by (rule wroteD(9) [OF w]) (use that in \<open>simp add: v_def i_def\<close>)
    then show ?thesis by (simp add: i_def j_def)
  qed
  show "i_addrs j \<noteq> i_addrs i" if p: "off \<le> p" "p < off + length d" "p div BSIZE < NDIRECT" "fb v i (p div BSIZE) = 0"
  proof -
    have d: "p div BSIZE \<noteq> 140" using p(3) by (simp add: NDIRECT_def)
    have "fb (bs_view (babs D t)) j (p div BSIZE) \<noteq> 0" using wroteD(8) [OF w _ p(1,2)] p(2) mx by (simp add: j_def)
    then show ?thesis using p(3,4) d by (auto simp: fb_def)
  qed
qed

lemma small_sizes:
  "unat (of_nat (MAXFILE * BSIZE) :: u64) = max_bytes" "max_bytes < 2 ^ 31"
  by (simp_all add: max_bytes_def MAXFILE_def NDIRECT_def NINDIRECT_def BSIZE_def)

lemma written_grown:
  fixes s :: "'z fsstate_scheme" and r :: u64
  assumes w: "wrote D cap c s ip off src t" and fi: "file_inv D cap s ip"
    and n: "i_inum (icache s ip) < sb_ninodes (fs_sb s)" and le: "off \<le> unat (i_size (icache s ip))"
    and mx: "off + length src \<le> max_bytes" and sp: "spare cap (babs D s) (5 * c + 1)"
    and r: "unat r = off + length src" and big: "unat (i_size (icache s ip)) < off + length src"
  shows "runs (seq (set_inode ip (\<lambda>i. i\<lparr>i_size := ucast r\<rparr>)) (iupdate ip)) t (\<lambda>_. written D cap s ip off src)"
proof -
  let ?i = "icache s ip" and ?v = "bs_view (babs D s)" and ?j = "icache t ip"
  note W = wroteD [OF w] and sb = wrote_sb [OF w] and nh = wrote_no_holes [OF w _ le mx]
  obtain x where x: "icache t = (icache s)(ip := ?i\<lparr>i_addrs := x\<rparr>)" using W(5) by blast
  have zr: "unat (ucast r :: u32) = off + length src"
  proof -
    have "(ucast r :: u32) = of_nat (unat r)" by simp
    moreover have "unat (of_nat (unat r) :: u32) = unat r" by (rule unat_of_nat32) (use r mx small_sizes(2) in simp)
    ultimately show ?thesis using r by simp
  qed
  let ?t = "t\<lparr>icache := (icache t)(ip := ?j\<lparr>i_size := ucast r\<rparr>)\<rparr>"
  have ti: "icache ?t ip = ?j\<lparr>i_size := ucast r\<rparr>" "fs_sb ?t = fs_sb s" "babs D ?t = babs D t" using sb by simp_all
  have fbj: "fb v (?j\<lparr>i_size := z\<rparr>) k = fb v ?j k" "fbyte v (?j\<lparr>i_size := z\<rparr>) k = fbyte v ?j k" for v z k
    by (simp_all add: fb_def fbyte_def)
  have it: "file_inv D cap ?t ip" using W(1) by (simp add: file_inv_def fs_inv_def file_ok_def fbj)
  obtain X where X: "finite X" "card X \<le> 5 * c" "bs_dirty (babs D t) = bs_dirty (babs D s) \<union> X" using W(14) by blast
  have h: "bs_held (babs D t) = bs_held (babs D s)" using W(1) fi by (simp add: file_inv_def fs_inv_def)
  have spt: "spare cap (babs D ?t) (Suc 0)"
    unfolding ti by (rule spare_union [OF _ X h]) (use sp in \<open>simp add: add.commute\<close>)
  have nt: "i_inum (icache ?t ip) < sb_ninodes (fs_sb ?t)" using n x sb by simp
  have "runs (iupdate ip) ?t (\<lambda>_. written D cap s ip (off) src)"
  proof (rule runs_mono [OF iupdate_file [OF it nt spt]], elim conjE)
    fix y u
    assume u: "file_inv D cap u ip" "fframe ?t u" "icache u = icache ?t"
      "\<forall>k\<le>140. fb (bs_view (babs D u)) (icache ?t ip) k = fb (bs_view (babs D ?t)) (icache ?t ip) k"
      "\<forall>p<max_bytes. fbyte (bs_view (babs D u)) (icache ?t ip) p = fbyte (bs_view (babs D ?t)) (icache ?t ip) p"
      "\<forall>c. c < sb_ninodes (fs_sb ?t) \<longrightarrow> dinode_at (bs_view (babs D u)) (fs_sb ?t) c =
        (if c = i_inum (icache ?t ip) then disk_part (icache ?t ip) else dinode_at (bs_view (babs D ?t)) (fs_sb ?t) c)"
    have "fframe s u" by (rule fframe_trans [OF W(2) fframe_trans [of t ?t u]]) (simp_all add: u(2))
    moreover have "no_holes (bs_view (babs D u)) (icache u ip)" if nholes: "no_holes ?v ?i"
    proof -
      have "fb (bs_view (babs D u)) (?j\<lparr>i_size := ucast r\<rparr>) m \<noteq> 0" if m: "m * BSIZE < off + length src" for m
      proof -
        have "m * BSIZE < max_bytes" using m mx by simp
        from block_index(1) [OF this] have "m \<le> 140" by (simp add: BSIZE_def)
        then show ?thesis using u(4) nh [OF nholes, of m] m unfolding ti fbj by simp
      qed
      then show ?thesis unfolding no_holes_def u(3) ti using zr mx by simp
    qed
    moreover have "icache u = (icache s)(ip := ?i\<lparr>i_addrs := x, i_size := ucast r\<rparr>)" using u(3) x by simp
    moreover have "fbyte (bs_view (babs D u)) (icache u ip) p = (if off \<le> p \<and> p < off + length src then src ! (p - off) else fbyte ?v ?i p)"
      if "p < max_bytes" for p using u(5) W(6) [OF that] that unfolding u(3) ti fbj by simp
    moreover have "dinode_at (bs_view (babs D u)) (fs_sb s) c = (if c = i_inum ?i then disk_part (icache u ip) else dinode_at ?v (fs_sb s) c)"
      if "c < sb_ninodes (fs_sb s)" for c using u(6) wrote_dinode [OF w fi that] that x unfolding ti u(3) by simp
    moreover have "i_addrs (icache u ip) = i_addrs ?j" using u(3) by simp
    ultimately show "written D cap s ip (off) src u"
      using u(1) zr big wrote_addrs [OF w mx] by (simp add: written_def Let_def max_def) blast
  qed
  then show ?thesis by simp
qed

lemma written_kept:
  fixes s :: "'z fsstate_scheme"
  assumes w: "wrote D cap c s ip off src t" and fi: "file_inv D cap s ip"
    and mx: "off + length src \<le> max_bytes" and le: "off + length src \<le> unat (i_size (icache s ip))"
  shows "written D cap s ip off src t"
proof -
  let ?i = "icache s ip" and ?v = "bs_view (babs D s)"
  have lo: "off \<le> unat (i_size ?i)" using le by simp
  note W = wroteD [OF w] and nh = wrote_no_holes [OF w _ lo mx] and dn = wrote_dinode [OF w fi]
  obtain x where x: "icache t = (icache s)(ip := ?i\<lparr>i_addrs := x\<rparr>)" using W(5) by blast
  have "no_holes (bs_view (babs D t)) (icache t ip)" if "no_holes ?v ?i"
    using nh [OF that] that le x by (simp add: no_holes_def max_def)
  then show "written D cap s ip (off) src t"
    using W(1,2,6) le x wrote_addrs [OF w mx] dn by (simp add: written_def Let_def max_def) blast
qed

text \<open>
  C15. A write inside the bounds of \<open>writei\<close>, on a file with or without holes, stores exactly the given
  bytes at \<open>off\<close>, keeps every other byte, grows the size when it ends beyond it, and makes no hole; it
  needs at most two free blocks and five log slots for each block touched. The inode is copied to
  the disk only when the file grew: a write that ends inside the file leaves the inode on the disk
  as it was, also when it filled a hole and so changed the block pointers in memory, although the
  comment above \<open>iupdate\<close> asks for a copy after every such change.
\<close>

theorem writei_correct:
  fixes s :: "'z fsstate_scheme"
  assumes "file_inv D cap s ip" "i_type (icache s ip) \<noteq> T_DEV"
    and "i_inum (icache s ip) < sb_ninodes (fs_sb s)" "length src = unat n" "0 < n" "unat off \<le> unat (i_size (icache s ip))"
    and "unat off + unat n \<le> max_bytes" "spare cap (babs D s) (5 * nblk (unat off) (unat n) + 1)"
    and "2 * nblk (unat off) (unat n) \<le> nfree (bs_view (babs D s)) (fs_sb s)"
  shows "runs (writei dsw ip src off n) s (\<lambda>r t. r = int (unat n) \<and> written D cap s ip (unat off) src t)"
proof -
  let ?i = "icache s ip" and ?off = "unat off"
  note sz = small_sizes
  have add: "unat (off + n) = unat off + unat n" using assms(7) sz by (intro unat_add64) simp
  have go: "\<not> (ucast (i_size ?i) < off \<or> off + n < off)" "\<not> of_nat (MAXFILE * BSIZE) < off + n"
    unfolding unat_end using assms(6,7) sz add by (simp_all add: word_less_nat_alt)
  have sn: "sint n = int (unat n)" using assms(7) sz by (intro sint_small) simp
  have mx: "?off + length src \<le> max_bytes" and sp: "spare cap (babs D s) (5 * nblk ?off (length src) + 1)" using assms(4,7,8) by simp_all
  have loop: "runs (writei_loop ip src off n 0) s (\<lambda>r t. unat r = ?off + length src \<and> wrote D cap (nblk ?off (length src)) s ip ?off src t)"
    using assms by (intro writei_loop_run) simp_all
  have fin: "runs (bind (inode_of ip) (\<lambda>i. seq (if n > 0 \<and> r > ucast (i_size i) then
        seq (set_inode ip (\<lambda>i. i\<lparr>i_size := ucast r\<rparr>)) (iupdate ip) else ret ()) (ret (sint n)))) t
      (\<lambda>r u. r = int (unat n) \<and> written D cap s ip ?off src u)"
    if r: "unat r = ?off + length src" and w: "wrote D cap (nblk ?off (length src)) s ip ?off src t" for r :: u64 and t
  proof -
    obtain x where x: "icache t = (icache s)(ip := ?i\<lparr>i_addrs := x\<rparr>)" using wroteD(5) [OF w] by blast
    show ?thesis
    proof (cases "r > ucast (i_size ?i)")
      case True
      then have big: "unat (i_size ?i) < ?off + length src" using r by (simp add: word_less_nat_alt)
      note grown = written_grown [OF w assms(1,3,6) mx sp r big]
      have "runs (seq (seq (set_inode ip (\<lambda>i. i\<lparr>i_size := ucast r\<rparr>)) (iupdate ip)) (ret (sint n))) t
          (\<lambda>r u. r = int (unat n) \<and> written D cap s ip ?off src u)"
        by (rule runs_bind [OF grown]) (simp add: sn)
      then show ?thesis using True x assms(5) by simp
    next
      case False
      then have le: "?off + length src \<le> unat (i_size ?i)" using r by (simp add: word_less_nat_alt)
      show ?thesis using False x written_kept [OF w assms(1) mx le] by (simp add: sn)
    qed
  qed
  show ?thesis
    using runs_bind [OF loop, of "\<lambda>r. bind (inode_of ip) (\<lambda>i. seq (if n > 0 \<and> r > ucast (i_size i) then
        seq (set_inode ip (\<lambda>i. i\<lparr>i_size := ucast r\<rparr>)) (iupdate ip) else ret ()) (ret (sint n)))"] fin go assms(2)
    by (auto simp: writei_def)
qed

section \<open>An open file\<close>

text \<open>The demonstration file system with its root directory in slot 0 of the cache.\<close>

definition demo_inode :: inode where
  "demo_inode = load_part demo_root \<lparr>i_dev = 1, i_inum = 1, i_ref = 1, i_valid = True, i_type = 0, i_major = 0, i_minor = 0,
     i_nlink = 0, i_size = 0, i_addrs = []\<rparr>"

definition demo_devsw :: "nat \<Rightarrow> fsstate devsw" where
  "demo_devsw = (\<lambda>_. \<lparr>dev_read = None, dev_write = None\<rparr>)"

definition demo_open :: fsstate where
  "demo_open = demo_fs\<lparr>icache := (icache demo_fs)(0 := demo_inode)\<rparr>"

lemma demo_inode: "i_addrs demo_inode = 59 # replicate 12 0" "unat (i_size demo_inode) = 32" "i_type demo_inode = T_DIR"
  "i_inum demo_inode = 1" "i_dev demo_inode = 1"
  by (simp_all add: demo_inode_def load_part_def demo_root_def NDIRECT_def T_DIR_def)

lemma demo_fb: "m \<le> 140 \<Longrightarrow> fb v demo_inode m = (if m = 0 then 59 else 0)"
  by (auto simp: fb_def demo_inode NDIRECT_def nth_Cons')

lemma demo_open:
  "file_inv 1 29 demo_open 0" "no_holes (bs_view (babs 1 demo_open)) (icache demo_open 0)" "icache demo_open 0 = demo_inode"
  "fs_sb demo_open = demo_sb" "k \<le> 29 \<Longrightarrow> spare 29 (babs 1 demo_open) k" "babs 1 demo_open = babs 1 demo_fs"
proof -
  show i: "icache demo_open 0 = demo_inode" and sb: "fs_sb demo_open = demo_sb" and b: "babs 1 demo_open = babs 1 demo_fs"
    by (simp_all add: demo_open_def demo_fs)
  show "k \<le> 29 \<Longrightarrow> spare 29 (babs 1 demo_open) k" by (simp add: b demo_spare)
  have s: "sb_logstart demo_sb = 2" "sb_size demo_sb = 1000" by (simp_all add: demo_sb_def)
  have d: "data_blk (bs_view (babs 1 demo_fs)) demo_sb 59"
    using demo_blk_used [of 59] by (simp add: data_blk_def demo_wf s)
  then have "file_ok (bs_view (babs 1 demo_fs)) demo_sb demo_inode"
    by (auto simp: file_ok_def demo_fb demo_inode(1) NDIRECT_def)
  moreover have "log_ok 1 2 29 demo_open" using demo_fs(1) by (simp add: demo_open_def)
  ultimately show "file_inv 1 29 demo_open 0"
    using demo_wf(1) demo_meta_used demo_fs(4) by (simp add: file_inv_def fs_inv_def i sb b s demo_inode)
  have "fb v demo_inode m \<noteq> 0" if "m * BSIZE < 32" for m v using that demo_fb [of m v] by (cases m) (simp_all add: BSIZE_def)
  then show "no_holes (bs_view (babs 1 demo_open)) (icache demo_open 0)"
    by (simp add: no_holes_def i demo_inode max_bytes_def MAXFILE_def NDIRECT_def NINDIRECT_def BSIZE_def)
qed

lemma demo_nfree: "2 \<le> nfree (bs_view (babs 1 demo_open)) demo_sb"
proof -
  have "{60, 61 :: nat} \<subseteq> {n. n < unat (sb_size demo_sb) \<and> \<not> blk_used (bs_view (babs 1 demo_fs)) demo_sb (of_nat n)}"
    using demo_blk_used [of 60] demo_blk_used [of 61] by (simp add: demo_sb_def)
  then have "card {60, 61 :: nat} \<le> nfree (bs_view (babs 1 demo_fs)) demo_sb"
    unfolding nfree_def by (intro card_mono) simp_all
  then show ?thesis by (simp add: demo_open(6))
qed

lemma demo_bytes: "k < 512 \<Longrightarrow> fbyte (bs_view (babs 1 demo_open)) demo_inode k = demo_block 59 ! k"
  using demo_fb [of 0] by (simp add: fbyte_def BSIZE_def demo_open(6) demo_fs(6))

theorem bmap_correct_witness:
  "\<exists>a t. bmap 0 (of_nat 20) demo_open = Inr (a, t) \<and> a \<noteq> 0 \<and> fb (bs_view (babs 1 t)) (icache t 0) 20 = a \<and>
     bs_view (babs 1 t) a = replicate BSIZE 0"
proof -
  have "runs (bmap 0 (of_nat 20)) demo_open (\<lambda>a t. a \<noteq> 0 \<and> fb (bs_view (babs 1 t)) (icache t 0) 20 = a \<and>
     bs_view (babs 1 t) a = replicate BSIZE 0)"
    by (rule runs_mono [OF bmap_correct [OF demo_open(1)]])
      (use demo_open(5) demo_nfree in \<open>auto simp: demo_open(3,4) demo_fb\<close>)
  then show ?thesis by (auto simp: runs_def)
qed

theorem readi_correct_witness:
  "\<exists>t. readi demo_devsw 0 16 100 demo_open = Inr ((16, write_dirent \<lparr>de_inum = 1, de_name = 46 # 46 # replicate 12 0\<rparr>), t)"
proof -
  have l: "length (take 16 demo_dir) = 16" "length demo_dir = 32" by (simp_all add: demo_dir_def DIRSIZ_def)
  have "map (fbyte (bs_view (babs 1 demo_open)) demo_inode) [16..<32] = drop 16 demo_dir"
    by (rule nth_equalityI) (simp_all add: demo_bytes demo_block_def nth_append l del: upt_rec_numeral)
  moreover have "drop 16 demo_dir = write_dirent \<lparr>de_inum = 1, de_name = 46 # 46 # replicate 12 0\<rparr>" by (simp add: demo_dir_def DIRSIZ_def)
  moreover have "length (drop 16 demo_dir) = 16" using l by simp
  ultimately show ?thesis
    using readi_correct [OF demo_open(1), of demo_devsw 16 100] demo_open(2,5) 
    by (auto simp: runs_def demo_open(3) demo_inode T_DIR_def T_DEV_def)
qed

theorem writei_correct_witness:
  "\<exists>t. writei demo_devsw 0 [7, 8, 9] 32 3 demo_open = Inr (3, t) \<and> unat (i_size (icache t 0)) = 35 \<and>
     fbyte (bs_view (babs 1 t)) (icache t 0) 33 = 8"
proof -
  have s: "sb_ninodes demo_sb = 200" by (simp add: demo_sb_def)
  have mx: "35 \<le> max_bytes" "33 < max_bytes" by (simp_all add: max_bytes_def MAXFILE_def NDIRECT_def NINDIRECT_def BSIZE_def)
  have nb: "nblk 32 3 = 1" by (simp add: nblk_def BSIZE_def)
  have "runs (writei demo_devsw 0 [7, 8, 9] 32 3) demo_open (\<lambda>r t. r = int (unat (3 :: u64)) \<and> written 1 29 demo_open 0 (unat (32 :: u64)) [7, 8, 9] t)"
    using demo_open(1,5) demo_nfree mx s
    by (intro writei_correct) (simp_all add: demo_open(3,4) demo_inode T_DIR_def T_DEV_def nb)
  then show ?thesis using mx by (auto simp: runs_def written_def Let_def demo_open(3) demo_inode)
qed

theorem writei_refuses_witness: "writei demo_devsw 0 [7] 33 1 demo_open = Inr (-1, demo_open)"
  by (rule writei_refuses) (simp_all add: demo_open(3) demo_inode T_DIR_def T_DEV_def)

end
