(* ===== verification/Fpath.thy ===== *)
theory Fpath
  imports Fwrite
begin

text \<open>
  Path names and directories, \<open>kern/fs.c\<close>: \<open>skipelem\<close> against a definition of the elements of a path,
  \<open>namex\<close> as a recursion over these elements, and \<open>dirlookup\<close> over the entries of a directory.
\<close>

unbundle bit_operations_syntax

section \<open>Path elements\<close>

text \<open>
  The elements of a path, defined apart from the code: the maximal runs of characters other than the
  slash in the string before its terminating zero.
\<close>

function elements :: "byte list \<Rightarrow> byte list list" where
  "elements str = (let s = dropWhile (\<lambda>c. c = SLASH) str in
     if s = [] then [] else takeWhile (\<lambda>c. c \<noteq> SLASH) s # elements (dropWhile (\<lambda>c. c \<noteq> SLASH) s))"
  by pat_completeness auto
termination
proof (relation "measure length", goal_cases)
  case (2 str s)
  have "length s \<le> length str" using 2(1) by (simp add: length_dropWhile_le)
  moreover obtain c cs where "s = c # cs" using 2(2) by (cases s) auto
  moreover have "c \<noteq> SLASH" using calculation(2) 2(1) hd_dropWhile [of "\<lambda>c. c = SLASH" str] by auto
  ultimately show ?case using length_dropWhile_le [of "\<lambda>c. c \<noteq> SLASH" cs] by simp
qed simp

declare elements.simps [simp del]

fun walk :: "nat \<Rightarrow> byte list \<Rightarrow> byte list \<Rightarrow> byte list list option" where
  "walk 0 path name = None"
| "walk (Suc fuel) path name =
     (case skipelem path name of
        None \<Rightarrow> None
      | Some None \<Rightarrow> Some []
      | Some (Some (path', name')) \<Rightarrow> map_option ((#) (name_of DIRSIZ name')) (walk fuel path' name'))"

lemma skipelem_split:
  assumes "0 \<notin> set str" "length name = DIRSIZ"
  shows "skipelem (str @ 0 # rest) name = (case elements str of [] \<Rightarrow> Some None
    | e # es \<Rightarrow> Some (Some (dropWhile (\<lambda>c. c = SLASH) (dropWhile (\<lambda>c. c \<noteq> SLASH) (dropWhile (\<lambda>c. c = SLASH) str)) @ 0 # rest,
         if DIRSIZ \<le> length e then take DIRSIZ e else (e @ drop (length e) name)[length e := 0])))"
proof -
  define s where "s = dropWhile (\<lambda>c. c = SLASH) str"
  have z: "(0 :: byte) \<noteq> SLASH" by (simp add: SLASH_def)
  have d: "dropWhile (\<lambda>c. c = SLASH) (xs @ 0 # rest) = dropWhile (\<lambda>c. c = SLASH) xs @ 0 # rest" for xs
    using z by (induction xs) auto
  have s0: "0 \<notin> set s" using assms(1) set_dropWhileD by (fastforce simp: s_def)
  then have t: "takeWhile (\<lambda>c. c \<noteq> SLASH \<and> c \<noteq> 0) (s @ 0 # rest) = takeWhile (\<lambda>c. c \<noteq> SLASH) s"
    "dropWhile (\<lambda>c. c \<noteq> SLASH \<and> c \<noteq> 0) (s @ 0 # rest) = dropWhile (\<lambda>c. c \<noteq> SLASH) s @ 0 # rest"
    by (induction s) auto
  have tk: "take n (s @ 0 # rest) = take n (takeWhile (\<lambda>c. c \<noteq> SLASH) s)" if "n \<le> length (takeWhile (\<lambda>c. c \<noteq> SLASH) s)" for n
    using that by (metis append_assoc le_add1 length_append take_append takeWhile_dropWhile_id diff_is_0_eq' take_0 append_Nil2)
  show ?thesis
  proof (cases s)
    case Nil
    then show ?thesis by (simp add: skipelem_def d elements.simps [of str] flip: s_def)
  next
    case (Cons c cs)
    then have "c \<noteq> 0" using s0 by auto
    then show ?thesis using Cons assms(2) tk t z
      by (auto simp: skipelem_def Let_def d elements.simps [of str] splice_def simp flip: s_def)
  qed
qed

lemma elements_split:
  assumes "elements str = e # es"
  shows "e \<noteq> []" "set e \<subseteq> set str" "length (dropWhile (\<lambda>c. c \<noteq> SLASH) (dropWhile (\<lambda>c. c = SLASH) str)) < length str"
    "elements (dropWhile (\<lambda>c. c = SLASH) (dropWhile (\<lambda>c. c \<noteq> SLASH) (dropWhile (\<lambda>c. c = SLASH) str))) = es"
proof -
  define s where "s = dropWhile (\<lambda>c. c = SLASH) str"
  have el: "elements str = (if s = [] then [] else takeWhile (\<lambda>c. c \<noteq> SLASH) s # elements (dropWhile (\<lambda>c. c \<noteq> SLASH) s))"
    by (subst elements.simps) (simp only: s_def Let_def)
  then have n: "s \<noteq> []" using assms by auto
  then have h: "hd s \<noteq> SLASH" using hd_dropWhile [of "\<lambda>c. c = SLASH" str] by (simp add: s_def)
  have e: "e = takeWhile (\<lambda>c. c \<noteq> SLASH) s" "es = elements (dropWhile (\<lambda>c. c \<noteq> SLASH) s)" using assms n unfolding el by simp_all
  show "e \<noteq> []" using n h by (cases s) (auto simp: e)
  have "set s \<subseteq> set str" unfolding s_def using set_dropWhileD by fastforce
  then show "set e \<subseteq> set str" unfolding e using set_takeWhileD by fastforce
  have "length (dropWhile (\<lambda>c. c \<noteq> SLASH) s) < length s"
    using n h by (cases s) (simp_all add: le_imp_less_Suc length_dropWhile_le)
  also have "\<dots> \<le> length str" unfolding s_def by (rule length_dropWhile_le)
  finally show "length (dropWhile (\<lambda>c. c \<noteq> SLASH) (dropWhile (\<lambda>c. c = SLASH) str)) < length str" by (simp add: s_def)
  have "elements (dropWhile (\<lambda>c. c = SLASH) t) = elements t" for t
    unfolding elements.simps [of t] elements.simps [of "dropWhile (\<lambda>c. c = SLASH) t"] by simp
  then show "elements (dropWhile (\<lambda>c. c = SLASH) (dropWhile (\<lambda>c. c \<noteq> SLASH) (dropWhile (\<lambda>c. c = SLASH) str))) = es"
    by (simp add: e s_def)
qed

lemma name_of_elem:
  assumes "0 \<notin> set e" "length name = DIRSIZ"
  shows "name_of DIRSIZ (if DIRSIZ \<le> length e then take DIRSIZ e else (e @ drop (length e) name)[length e := 0]) = take DIRSIZ e"
proof -
  have a: "takeWhile (\<lambda>c. c \<noteq> 0) xs = xs" if "set xs \<subseteq> set e" for xs using assms(1) that by (auto simp: takeWhile_eq_all_conv)
  show ?thesis
  proof (cases "DIRSIZ \<le> length e")
    case True
    have "takeWhile (\<lambda>c. c \<noteq> 0) (take DIRSIZ e) = take DIRSIZ e" by (rule a) (rule set_take_subset)
    then show ?thesis using True by (simp only: name_of_def if_True take_take min.idem)
  next
    case False
    have "drop (length e) name = name ! length e # drop (Suc (length e)) name" using False assms(2) by (simp add: Cons_nth_drop_Suc)
    then have "(e @ drop (length e) name)[length e := 0] = e @ 0 # drop (Suc (length e)) name" by (simp add: list_update_append)
    then show ?thesis using False a [of e] assms by (simp add: name_of_def takeWhile_append take_Cons' )
  qed
qed

text \<open>
  \<open>skipelem\<close> splits a path as specified: applied until it reports the end, it yields the elements
  of the path in order, each cut to the length of a directory entry's name, whatever the array
  \<open>name\<close> held; it never reads past the end of the string.
\<close>

theorem skipelem_elements:
  assumes "0 \<notin> set str" "length name = DIRSIZ" "length str < fuel"
  shows "walk fuel (str @ 0 # rest) name = Some (map (take DIRSIZ) (elements str))"
  using assms
proof (induction fuel arbitrary: str name)
  case (Suc fuel)
  show ?case
  proof (cases "elements str")
    case Nil
    then show ?thesis using skipelem_split [OF Suc.prems(1,2)] by simp
  next
    case (Cons e es)
    let ?t = "dropWhile (\<lambda>c. c = SLASH) (dropWhile (\<lambda>c. c \<noteq> SLASH) (dropWhile (\<lambda>c. c = SLASH) str))"
    let ?n = "if DIRSIZ \<le> length e then take DIRSIZ e else (e @ drop (length e) name)[length e := 0]"
    note E = elements_split [OF Cons]
    have "0 \<notin> set ?t" using Suc.prems(1) by (metis set_dropWhileD)
    moreover have "length ?n = DIRSIZ" using Suc.prems(2) by simp
    moreover have "length ?t < fuel"
      using E(3) Suc.prems(3) length_dropWhile_le [of "\<lambda>c. c = SLASH" "dropWhile (\<lambda>c. c \<noteq> SLASH) (dropWhile (\<lambda>c. c = SLASH) str)"] by linarith
    ultimately have "walk fuel (?t @ 0 # rest) ?n = Some (map (take DIRSIZ) es)" using Suc.IH E(4) by simp
    moreover have "name_of DIRSIZ ?n = take DIRSIZ e" by (rule name_of_elem) (use E(2) Suc.prems in auto)
    ultimately show ?thesis using Cons by (simp add: skipelem_split [OF Suc.prems(1,2)])
  qed
qed simp

text \<open>The example of the comment above \<open>skipelem\<close>: \<open>a/bb/c\<close>.\<close>

theorem skipelem_elements_witness:
  "walk 9 ([97, 47, 98, 98, 47, 47, 99] @ 0 # []) (replicate DIRSIZ 0) = Some [[97], [98, 98], [99]]"
  using skipelem_elements [of "[97, 47, 98, 98, 47, 47, 99]" "replicate DIRSIZ 0" 9 "[]"]
  by (simp add: elements.simps SLASH_def DIRSIZ_def)

section \<open>The walk of a path\<close>

text \<open>
  The walk apart from the code: by recursion over the elements of the path, one directory for each
  of them and no other end than theirs. \<open>next_name\<close> is what the array \<open>name\<close> holds after an element
  has been copied into it.
\<close>

definition next_name :: "byte list \<Rightarrow> byte list \<Rightarrow> byte list" where
  "next_name e name = (if DIRSIZ \<le> length e then take DIRSIZ e else (e @ drop (length e) name)[length e := 0])"

primrec namex_walk :: "(nat \<Rightarrow> 'z fsstate_scheme devsw) \<Rightarrow> bool \<Rightarrow> byte list list \<Rightarrow> byte list \<Rightarrow> nat \<Rightarrow>
    ('z fsstate_scheme, nat option \<times> byte list) kop" where
  "namex_walk dsw par [] name ip = (if par then seq (iput ip) (ret (None, name)) else ret (Some ip, name))"
| "namex_walk dsw par (e # es) name ip =
     seq (ilock (Some ip))
     (bind (inode_of ip) (\<lambda>i.
     if i_type i \<noteq> T_DIR then seq (iunlockput ip) (ret (None, next_name e name))
     else if par \<and> es = [] then seq (iunlock (Some ip)) (ret (Some ip, next_name e name))
     else bind (dirlookup dsw ip (next_name e name)) (\<lambda>r.
       case r of
         None \<Rightarrow> seq (iunlockput ip) (ret (None, next_name e name))
       | Some (child, _) \<Rightarrow> seq (iunlockput ip) (namex_walk dsw par es (next_name e name) child))))"

lemma elements_Nil: "elements str = [] \<longleftrightarrow> dropWhile (\<lambda>c. c = SLASH) str = []"
  by (subst elements.simps) (simp add: Let_def)

lemma next_name_length: "length name = DIRSIZ \<Longrightarrow> length (next_name e name) = DIRSIZ"
  by (simp add: next_name_def)

lemma namex_loop_walk:
  assumes "0 \<notin> set str" "length name = DIRSIZ" "length str < fuel"
  shows "namex_loop dsw fuel (str @ 0 # rest) par name ip = namex_walk dsw par (elements str) name ip"
  using assms
proof (induction fuel arbitrary: str name ip)
  case (Suc fuel)
  note split = skipelem_split [OF Suc.prems(1,2)]
  show ?case
  proof (cases "elements str")
    case Nil
    then show ?thesis by (simp add: split)
  next
    case (Cons e es)
    define t where "t = dropWhile (\<lambda>c. c = SLASH) (dropWhile (\<lambda>c. c \<noteq> SLASH) (dropWhile (\<lambda>c. c = SLASH) str))"
    note E = elements_split [OF Cons]
    have t0: "0 \<notin> set t" using Suc.prems(1) unfolding t_def by (metis set_dropWhileD)
    have tl: "length t < fuel"
      using E(3) Suc.prems(3) length_dropWhile_le [of "\<lambda>c. c = SLASH" "dropWhile (\<lambda>c. c \<noteq> SLASH) (dropWhile (\<lambda>c. c = SLASH) str)"]
      unfolding t_def by linarith
    have te: "elements t = es" using E(4) by (simp add: t_def)
    have "es = [] \<longleftrightarrow> t = []" unfolding te [symmetric] elements_Nil by (simp add: t_def)
    then have last: "hd (t @ 0 # rest) = 0 \<longleftrightarrow> es = []" using t0 by (cases t) auto
    have sk: "skipelem (str @ 0 # rest) name = Some (Some (t @ 0 # rest, next_name e name))"
      using split Cons by (simp add: t_def next_name_def)
    have IH: "namex_loop dsw fuel (t @ 0 # rest) par (next_name e name) = namex_walk dsw par es (next_name e name)"
      using Suc.IH [OF t0 next_name_length [OF Suc.prems(2)] tl] unfolding te by (rule ext)
    show ?thesis
      unfolding Cons namex_loop.simps namex_walk.simps sk option.case prod.case last IH ..
  qed
qed simp

text \<open>
  C26. The walk of a path ends, after one directory for each element of the path: on every path, with any
  number of slashes anywhere, \<open>namex\<close> is the recursion over the list of its elements, from the root
  when the path starts with a slash and else from the process's directory; the bound on the rounds
  in its model never decides the result.
\<close>

theorem namex_terminates:
  assumes "0 \<notin> set str" "length name = DIRSIZ"
  shows "namex dsw (str @ 0 # rest) par name =
    bind (if hd (str @ [0]) = SLASH then iget ROOTDEV ROOTINO
      else bind (get thisproc) (\<lambda>p. deref p (\<lambda>p. bind (get (\<lambda>s. p_cwd (ptable s p))) idup)))
    (namex_walk dsw par (elements str) name)"
proof -
  have "namex_loop dsw (Suc (length (str @ 0 # rest))) (str @ 0 # rest) par name = namex_walk dsw par (elements str) name"
    by (intro ext namex_loop_walk [OF assms]) simp
  then show ?thesis by (cases str) (simp_all add: namex_def)
qed

text \<open>The path \<open>/a/\<close>: the root is locked and looked into for \<open>a\<close>, then its inode is the result.\<close>

theorem namex_terminates_witness:
  "namex demo_devsw [47, 97, 47, 0] False (replicate DIRSIZ 0) =
     bind (iget ROOTDEV ROOTINO) (namex_walk demo_devsw False [[97]] (replicate DIRSIZ 0))"
  using namex_terminates [of "[47, 97, 47]" "replicate DIRSIZ 0" demo_devsw "[]" False]
  by (simp add: elements.simps SLASH_def)

section \<open>Directories\<close>

definition entry :: "(u32 \<Rightarrow> byte list) \<Rightarrow> inode \<Rightarrow> nat \<Rightarrow> dirent" where
  "entry v i k = read_dirent (map (fbyte v i) [16 * k..<16 * k + 16])"

definition matches :: "(u32 \<Rightarrow> byte list) \<Rightarrow> inode \<Rightarrow> byte list \<Rightarrow> nat \<Rightarrow> bool" where
  "matches v i name k \<longleftrightarrow> de_inum (entry v i k) \<noteq> 0 \<and> name_of DIRSIZ name = name_of DIRSIZ (de_name (entry v i k))"

text \<open>What a lookup that finds entry \<open>k\<close> returns.\<close>

definition found :: "u32 \<Rightarrow> 'z fsstate_scheme \<Rightarrow> nat \<Rightarrow> nat \<Rightarrow> (nat \<times> u64) option \<Rightarrow> 'z fsstate_scheme \<Rightarrow> bool" where
  "found D s dp k r t \<longleftrightarrow> (\<exists>ip. r = Some (ip, of_nat (16 * k)) \<and>
     cached (icache t) D (ucast (de_inum (entry (bs_view (babs D s)) (icache s dp) k))) ip \<and> icache_ok (icache t) \<and>
     babs D t = babs D s \<and> (\<forall>j. j \<noteq> ip \<longrightarrow> icache t j = icache s j))"

lemma dirlookup_loop_run:
  fixes s :: "'z fsstate_scheme"
  assumes "file_inv D cap s dp" "spare cap (babs D s) 6" "no_holes (bs_view (babs D s)) (icache s dp)"
    and "i_type (icache s dp) = T_DIR" "unat (i_size (icache s dp)) = 16 * n" "readable_n DIRSIZ name"
    and "icache_ok (icache s)" "\<exists>ip<NINODE. i_ref (icache s ip) = 0" "k \<le> n" "n - k < fuel"
  shows "runs (dirlookup_loop dsw fuel dp name (of_nat (16 * k))) s (\<lambda>r t.
     case List.find (matches (bs_view (babs D s)) (icache s dp) name) [k..<n] of
       None \<Rightarrow> r = None \<and> same D cap s t
     | Some j \<Rightarrow> found D s dp j r t)"
  using assms
proof (induction fuel arbitrary: s k)
  case (Suc fuel)
  let ?v = "bs_view (babs D s)" and ?i = "icache s dp" and ?off = "of_nat (16 * k) :: u64"
  have inv: "fs_inv D cap s" and dev: "i_dev ?i = D" using Suc.prems(1) by (simp_all add: file_inv_def)
  have n: "16 * n < 2 ^ 32" using unat_less_32 [of "i_size ?i"] Suc.prems(5) by simp
  then have off: "unat ?off = 16 * k" using Suc.prems(9) by (intro unat_of_nat64) simp
  have lt: "?off < ucast (i_size ?i) \<longleftrightarrow> k < n" using Suc.prems(5) by (simp add: word_less_nat_alt off del: of_nat_mult)
  show ?case
  proof (cases "k < n")
    case False
    then show ?thesis using lt same_refl [OF inv] by (simp del: of_nat_mult)
  next
    case True
    let ?P = "matches ?v ?i name" and ?de = "entry ?v ?i k" and ?bs = "map (fbyte ?v ?i) [16 * k..<16 * k + 16]"
    have up: "[k..<n] = k # [Suc k..<n]" using True by (simp add: upt_conv_Cons)
    have rd: "runs (readi dsw dp ?off 16) s (\<lambda>x t. same D cap s t \<and> x = (16, ?bs))"
    proof -
      have ty: "i_type ?i \<noteq> T_DEV" using Suc.prems(4) by (simp add: T_DIR_def T_DEV_def)
      have m: "min (16 * k + 16) (16 * n) = 16 * k + 16" using True by simp
      show ?thesis
        by (rule runs_mono [OF readi_correct [OF Suc.prems(1-3) ty, of dsw ?off 16]])
          (use True n in \<open>auto simp: off Suc.prems(5) m simp del: of_nat_mult upt_Suc\<close>)
    qed
    have dn: "readable_n DIRSIZ (de_name ?de)" by (simp add: entry_def read_dirent_def readable_n_def DIRSIZ_def slice_def)
    obtain c where c: "namecmp name (de_name ?de) = Some c" "c = 0 \<longleftrightarrow> name_of DIRSIZ name = name_of DIRSIZ (de_name ?de)"
      using strncmp_names [OF Suc.prems(6) dn] by (auto simp: namecmp_def)
    have step: "runs (let de = read_dirent ?bs in
       if de_inum de = 0 then dirlookup_loop dsw fuel dp name (?off + 16)
       else case namecmp name (de_name de) of None \<Rightarrow> stop Fault
       | Some c \<Rightarrow> if c = 0 then bind (inode_of dp) (\<lambda>d. bind (iget (i_dev d) (ucast (de_inum de))) (\<lambda>ip. ret (Some (ip, ?off))))
           else dirlookup_loop dsw fuel dp name (?off + 16)) u
      (\<lambda>r t. case List.find ?P [k..<n] of None \<Rightarrow> r = None \<and> same D cap s t | Some j \<Rightarrow> found D s dp j r t)"
      if u: "same D cap s u" for u
    proof -
      note f = same_fields [OF u]
      have nxt16: "?off + 16 = of_nat (16 * Suc k)" by simp
      have rest: "runs (dirlookup_loop dsw fuel dp name (?off + 16)) u
         (\<lambda>r t. case List.find ?P [k..<n] of None \<Rightarrow> r = None \<and> same D cap s t | Some j \<Rightarrow> found D s dp j r t)" if np: "\<not> ?P k"
      proof -
        have "runs (dirlookup_loop dsw fuel dp name (of_nat (16 * Suc k))) u (\<lambda>r t.
          case List.find (matches (bs_view (babs D u)) (icache u dp) name) [Suc k..<n] of
            None \<Rightarrow> r = None \<and> same D cap u t | Some j \<Rightarrow> found D u dp j r t)"
          using Suc.prems True by (intro Suc.IH) (simp_all add: f same_file [OF u])
        then show ?thesis unfolding nxt16 f up
          by (rule runs_mono) (use np same_trans [OF u] in \<open>auto simp: found_def f split: option.splits\<close>)
      qed
      show ?thesis
      proof (cases "?P k")
        case False
        then have "de_inum ?de = 0 \<or> c \<noteq> 0" using c(2) by (auto simp: matches_def)
        then show ?thesis using rest [OF False] c(1) unfolding Let_def entry_def [symmetric] by auto
      next
        case P: True
        have sf: "spin_free u" using u log_ok_spin_free by (auto simp: same_def)
        have ok: "icache_ok (icache u)" and fr: "\<exists>ip<NINODE. i_ref (icache u ip) = 0" using Suc.prems(7,8) by (simp_all add: f)
        obtain ip c' where g: "iget D (ucast (de_inum ?de)) u = Inr (ip, u\<lparr>icache := c'\<rparr>)" "icache_ok c'" "cached c' D (ucast (de_inum ?de)) ip"
          "\<forall>j. j \<noteq> ip \<longrightarrow> c' j = icache u j" using iget_unique [OF sf ok, of D "ucast (de_inum ?de)"] fr by auto
        have "runs (bind (iget D (ucast (de_inum ?de))) (\<lambda>ip. ret (Some (ip, ?off)))) u (found D s dp k)"
          using g by (auto simp: runs_def bind_def ret_def found_def f)
        then show ?thesis using P c dev unfolding Let_def entry_def [symmetric] by (simp add: matches_def f up del: of_nat_mult)
      qed
    qed
    have go: "\<not> \<not> ?off < ucast (i_size ?i)" "\<not> (16 :: int) \<noteq> 16" using lt True by (simp_all del: of_nat_mult)
    show ?thesis
      unfolding dirlookup_loop.simps runs_get_bind if_not_P [OF go(1)]
      by (rule runs_bind [OF rd], elim conjE, simp only: prod.case if_not_P [OF go(2)], rule step)
  qed
qed simp

text \<open>
  C25. Looking a name up in a directory finds the first entry in use whose name is equal to it, at its
  offset, and references its inode in the cache; without such an entry it returns null. The disk and
  every other inode stay as they are.
\<close>

theorem dirlookup_correct:
  fixes s :: "'z fsstate_scheme"
  assumes "file_inv D cap s dp" "spare cap (babs D s) 6" "no_holes (bs_view (babs D s)) (icache s dp)"
    and "i_type (icache s dp) = T_DIR" "unat (i_size (icache s dp)) = 16 * n" "readable_n DIRSIZ name"
    and "icache_ok (icache s)" "\<exists>ip<NINODE. i_ref (icache s ip) = 0"
  shows "runs (dirlookup dsw dp name) s (\<lambda>r t.
     case List.find (matches (bs_view (babs D s)) (icache s dp) name) [0..<n] of
       None \<Rightarrow> r = None \<and> same D cap s t
     | Some k \<Rightarrow> found D s dp k r t)"
  using dirlookup_loop_run [OF assms, of 0 "unat (i_size (icache s dp)) div 16 + 2" dsw] assms(4,5)
  by (simp add: dirlookup_def)

lemma demo_entries:
  "entry (bs_view (babs 1 demo_open)) demo_inode 0 = \<lparr>de_inum = 1, de_name = 46 # replicate 13 0\<rparr>"
  "entry (bs_view (babs 1 demo_open)) demo_inode 1 = \<lparr>de_inum = 1, de_name = 46 # 46 # replicate 12 0\<rparr>"
proof -
  have l: "length (take 16 demo_dir) = 16" "length demo_dir = 32" by (simp_all add: demo_dir_def DIRSIZ_def)
  have "map (fbyte (bs_view (babs 1 demo_open)) demo_inode) [a..<a + 16] = take 16 (drop a demo_dir)" if "a \<le> 16" for a
    using that by (intro nth_equalityI) (simp_all add: demo_bytes demo_block_def nth_append l del: upt_rec_numeral)
  from this [of 0] this [of 16] have m: "map (fbyte (bs_view (babs 1 demo_open)) demo_inode) [0..<16] = take 16 demo_dir"
    "map (fbyte (bs_view (babs 1 demo_open)) demo_inode) [16..<32] = take 16 (drop 16 demo_dir)" by (simp_all del: upt_rec_numeral)
  have "take 16 demo_dir = write_dirent \<lparr>de_inum = 1, de_name = 46 # replicate 13 0\<rparr>"
    "take 16 (drop 16 demo_dir) = write_dirent \<lparr>de_inum = 1, de_name = 46 # 46 # replicate 12 0\<rparr>" by (simp_all add: demo_dir_def DIRSIZ_def)
  then show "entry (bs_view (babs 1 demo_open)) demo_inode 0 = \<lparr>de_inum = 1, de_name = 46 # replicate 13 0\<rparr>"
    "entry (bs_view (babs 1 demo_open)) demo_inode 1 = \<lparr>de_inum = 1, de_name = 46 # 46 # replicate 12 0\<rparr>"
    using m by (simp_all add: entry_def read_write_dirent DIRSIZ_def del: upt_rec_numeral)
qed

lemma demo_open_icache: "icache_ok (icache demo_open)" "\<exists>ip<NINODE. i_ref (icache demo_open ip) = 0"
proof -
  have "cached (icache demo_open) d n ip \<longleftrightarrow> ip = 0 \<and> d = 1 \<and> n = 1" for d n ip
    using demo_icache(2) [of ip] by (auto simp: cached_def demo_open_def demo_inode_def load_part_def NINODE_def)
  then show "icache_ok (icache demo_open)"
    using demo_icache(2) by (auto simp: icache_ok_def) (simp add: demo_open_def demo_inode_def load_part_def)
  show "\<exists>ip<NINODE. i_ref (icache demo_open ip) = 0"
    using demo_icache(2) [of 1] by (intro exI [of _ 1]) (simp add: demo_open_def NINODE_def)
qed

theorem dirlookup_correct_witness:
  "\<exists>ip t. dirlookup demo_devsw 0 [46, 46, 0] demo_open = Inr (Some (ip, 16), t)"
proof -
  have u: "[0..<2] = [0, 1 :: nat]" by (simp add: numeral_2_eq_2)
  have "List.find (matches (bs_view (babs 1 demo_open)) demo_inode [46, 46, 0]) [0..<2] = Some 1"
    by (simp add: u matches_def demo_entries [unfolded One_nat_def] demo_entries name_of_def DIRSIZ_def)
  then show ?thesis
    using demo_open_icache dirlookup_correct [OF demo_open(1), of 2 "[46, 46, 0]" demo_devsw] demo_open(2,5)
    by (auto simp: demo_open(3) demo_inode readable_n_def runs_def found_def)
qed

end
