(* ===== verification/Mmu.thy ===== *)
theory Mmu
  imports Prelude
begin

text \<open>
  Constants and macros of \<open>inc/mmu.h\<close>, \<open>inc/memlayout.h\<close> and \<open>inc/types.h\<close>: page sizes, indices into
  translation tables, attributes of table entries, the two views of physical memory, rounding.
\<close>

unbundle bit_operations_syntax

definition PGSIZE :: u64 where "PGSIZE = 0x1000"
definition BKSIZE :: u64 where "BKSIZE = 0x200000"
definition ENTRYSZ :: nat where "ENTRYSZ = 512"
definition PHYSTOP :: u64 where "PHYSTOP = 0x3F000000"
definition EXTMEM :: u64 where "EXTMEM = 0x80000"
definition KERNBASE :: u64 where "KERNBASE = 0xFFFF000000000000"
definition UADDR_SZ :: u64 where "UADDR_SZ = 0x10000000"

definition PTE_P :: u64 where "PTE_P = 1"
definition PTE_TABLE :: u64 where "PTE_TABLE = 2"
definition PTE_PAGE :: u64 where "PTE_PAGE = 2"
definition PTE_USER :: u64 where "PTE_USER = 0x40"
definition PTE_RW :: u64 where "PTE_RW = 0"
definition PTE_RO :: u64 where "PTE_RO = 0x80"
definition PTE_SH :: u64 where "PTE_SH = 0x300"
definition PTE_AF :: u64 where "PTE_AF = 0x400"
definition MT_NORMAL :: u64 where "MT_NORMAL = 1"
definition MT_DEVICE_nGnRnE :: u64 where "MT_DEVICE_nGnRnE = 0"
definition PTE_NORMAL :: u64 where "PTE_NORMAL = PTE_P OR push_bit 2 MT_NORMAL OR PTE_AF"
definition PTE_DEVICE :: u64 where "PTE_DEVICE = PTE_P OR push_bit 2 MT_DEVICE_nGnRnE OR PTE_AF"

lemmas mmu_defs = PGSIZE_def BKSIZE_def ENTRYSZ_def PHYSTOP_def EXTMEM_def KERNBASE_def UADDR_SZ_def PTE_P_def
  PTE_TABLE_def PTE_PAGE_def PTE_USER_def PTE_RW_def PTE_RO_def PTE_SH_def PTE_AF_def MT_NORMAL_def
  MT_DEVICE_nGnRnE_def PTE_NORMAL_def PTE_DEVICE_def

definition PTX :: "nat \<Rightarrow> u64 \<Rightarrow> u64" where
  "PTX level va = drop_bit (39 - 9 * level) va AND 0x1FF"

definition PTE_ADDR :: "u64 \<Rightarrow> u64" where "PTE_ADDR pte = pte AND NOT 0xFFF"
definition PTE_FLAGS :: "u64 \<Rightarrow> u64" where "PTE_FLAGS pte = pte AND 0xFFF"
definition V2P :: "u64 \<Rightarrow> u64" where "V2P a = a - KERNBASE"
definition P2V :: "u64 \<Rightarrow> u64" where "P2V a = a + KERNBASE"

definition ROUNDDOWN :: "u64 \<Rightarrow> u64 \<Rightarrow> u64" where "ROUNDDOWN a n = a - a mod n"
definition ROUNDUP :: "u64 \<Rightarrow> u64 \<Rightarrow> u64" where "ROUNDUP a n = ROUNDDOWN (a + n - 1) n"

lemma V2P_P2V [simp]: "V2P (P2V a) = a" "P2V (V2P a) = a"
  by (simp_all add: V2P_def P2V_def)

lemma PTX_less: "PTX level va < 512"
proof -
  have "PTX level va \<le> 0x1FF" unfolding PTX_def by (rule word_and_le1)
  then show ?thesis by (rule le_less_trans) simp
qed

lemma unat_ROUNDDOWN: "unat (ROUNDDOWN a n) = unat a div unat n * unat n"
proof -
  have "unat (a mod n) \<le> unat a" by (simp add: unat_mod_distrib)
  then have "unat (ROUNDDOWN a n) = unat a - unat a mod unat n"
    by (simp add: ROUNDDOWN_def unat_sub_if' unat_mod_distrib)
  then show ?thesis by (simp add: minus_mod_eq_div_mult)
qed

lemma unat_ROUNDUP:
  assumes "0 < unat n" and "unat a + unat n < 2 ^ 64"
  shows "unat (ROUNDUP a n) = (unat a + unat n - 1) div unat n * unat n"
proof -
  have "unat (a + n) = unat a + unat n" using assms(2) by (simp add: unat_add_lem [THEN iffD1])
  then have "unat (a + n - 1) = unat a + unat n - 1" using assms(1) by (simp add: unat_sub_if')
  then show ?thesis by (simp add: ROUNDUP_def unat_ROUNDDOWN)
qed

end
