(* ===== verification/Kalloc.thy ===== *)
theory Kalloc
  imports Falloc Mmu
begin

text \<open>
  The page allocator, \<open>kern/kalloc.c\<close>. The state adds the memory as the kernel addresses it, byte by
  byte, the head of the free list and the linker symbol \<open>end\<close>. A free page holds the address of the
  next one in its first eight bytes; the null pointer is 0.
\<close>

unbundle bit_operations_syntax

section \<open>Memory\<close>

record memstate = fsstate +
  mem :: mem
  free_list :: u64
  kend :: u64

text \<open>Eight bytes of memory as a machine word, and an area of memory as a list of bytes.\<close>

definition read64 :: "mem \<Rightarrow> u64 \<Rightarrow> u64" where
  "read64 m a = le_word (map (\<lambda>i. m (a + of_nat i)) [0..<8])"

definition store :: "u64 \<Rightarrow> byte list \<Rightarrow> mem \<Rightarrow> mem" where
  "store a bs m = (\<lambda>x. if unat (x - a) < length bs then bs ! unat (x - a) else m x)"

definition write64 :: "mem \<Rightarrow> u64 \<Rightarrow> u64 \<Rightarrow> mem" where
  "write64 m a w = store a (le_bytes 8 w) m"

definition load :: "mem \<Rightarrow> u64 \<Rightarrow> nat \<Rightarrow> byte list" where
  "load m a n = map (\<lambda>i. m (a + of_nat i)) [0..<n]"

abbreviation set_mem :: "(mem \<Rightarrow> mem) \<Rightarrow> ('z memstate_scheme, unit) kop" where
  "set_mem f \<equiv> upd (\<lambda>s. s\<lparr>mem := f (mem s)\<rparr>)"

section \<open>The routines\<close>

definition kfree :: "u64 \<Rightarrow> ('z memstate_scheme, unit) kop" where
  "kfree v =
     bind (get kend) (\<lambda>e.
     if v mod PGSIZE \<noteq> 0 \<or> v < e \<or> V2P v \<ge> PHYSTOP then panic ''kfree''
     else seq (acquire Lkmem)
     (seq (upd (\<lambda>s. s\<lparr>mem := write64 (mem s) v (free_list s)\<rparr>))
     (seq (upd (\<lambda>s. s\<lparr>free_list := v\<rparr>))
     (release Lkmem))))"

function free_range_loop :: "u64 \<Rightarrow> u64 \<Rightarrow> ('z memstate_scheme, unit) kop" where
  "free_range_loop p vend =
     (if unat p + unat PGSIZE \<le> unat vend then seq (kfree p) (free_range_loop (p + PGSIZE) vend)
      else ret ())"
  by pat_completeness auto
termination
proof (relation "measure (\<lambda>(p, vend). unat vend - unat p)", goal_cases)
  case (2 p vend)
  then have "unat (p + PGSIZE) = unat p + unat PGSIZE" using unat_less_64 [of vend] by (intro unat_add64) simp
  then show ?case using 2 by (simp add: PGSIZE_def)
qed simp

declare free_range_loop.simps [simp del]

definition free_range :: "u64 \<Rightarrow> u64 \<Rightarrow> ('z memstate_scheme, unit) kop" where
  "free_range vstart vend = free_range_loop (ROUNDUP vstart PGSIZE) vend"

definition alloc_init :: "('z memstate_scheme, unit) kop" where
  "alloc_init =
     seq (initlock Lkmem ''kmem'')
     (bind (get kend) (\<lambda>e. free_range e (P2V PHYSTOP)))"

definition kalloc :: "('z memstate_scheme, u64) kop" where
  "kalloc =
     seq (acquire Lkmem)
     (bind (get free_list) (\<lambda>r.
     seq (if r \<noteq> 0 then upd (\<lambda>s. s\<lparr>free_list := read64 (mem s) r\<rparr>) else ret ())
     (seq (release Lkmem)
     (seq (if r \<noteq> 0 then set_mem (\<lambda>m. memset m r 5 PGSIZE) else ret ())
     (ret r)))))"

text \<open>The walk of the free list; \<open>fuel\<close> bounds the number of pages.\<close>

fun check_free_loop :: "nat \<Rightarrow> u64 \<Rightarrow> ('z memstate_scheme, unit) kop" where
  "check_free_loop 0 p = stop Diverge"
| "check_free_loop (Suc fuel) p =
     (if p = 0 then ret ()
      else bind (get kend) (\<lambda>e.
        if \<not> p > e then panic ''assertion failed''
        else bind (get mem) (\<lambda>m. check_free_loop fuel (read64 m p))))"

definition check_free_list :: "nat \<Rightarrow> ('z memstate_scheme, unit) kop" where
  "check_free_list fuel =
     bind (get free_list) (\<lambda>p.
     if p = 0 then panic ''kmem.free_list is a null pointer!'' else check_free_loop fuel p)"

declare check_free_loop.simps [simp del]


section \<open>Words in memory\<close>

text \<open>Addresses of kernel objects do not come near the end of the address space.\<close>

lemma read64_load: "read64 m a = le_word (load m a 8)"
  by (simp add: read64_def load_def)

lemma length_load [simp]: "length (load m a n) = n"
  by (simp add: load_def)

lemma nth_load: "i < n \<Longrightarrow> load m a n ! i = m (a + of_nat i)"
  by (simp add: load_def)

lemma load_store_same:
  assumes "length bs < 2 ^ 64"
  shows "load (store a bs m) a (length bs) = bs"
proof (rule nth_equalityI)
  fix i assume i: "i < length (load (store a bs m) a (length bs))"
  then have "unat (of_nat i :: u64) = i" using assms by (intro unat_of_nat64) simp
  then show "load (store a bs m) a (length bs) ! i = bs ! i" using i by (simp add: nth_load store_def)
qed simp

text \<open>Areas that do not overlap.\<close>

definition apart :: "u64 \<Rightarrow> nat \<Rightarrow> u64 \<Rightarrow> nat \<Rightarrow> bool" where
  "apart a n b k \<longleftrightarrow> unat a + n \<le> unat b \<or> unat b + k \<le> unat a"

lemma unat_diff64: "unat (x - a :: u64) = (if unat a \<le> unat x then unat x - unat a else unat x + 2 ^ 64 - unat a)"
  by (simp add: unat_sub_if')

lemma store_other:
  assumes "unat a + length bs \<le> 2 ^ 64" "unat x < unat a \<or> unat a + length bs \<le> unat x"
  shows "store a bs m x = m x"
  using assms unat_diff64 [of x a] unat_less_64 [of a] by (auto simp: store_def split: if_splits)

lemma load_store_other:
  assumes "apart a (length bs) b n" "unat a + length bs \<le> 2 ^ 64" "unat b + n \<le> 2 ^ 64"
  shows "load (store a bs m) b n = load m b n"
proof (rule nth_equalityI)
  fix i assume "i < length (load (store a bs m) b n)"
  then have i: "i < n" by simp
  have "unat (b + of_nat i) = unat b + i"
    using i assms(3) unat_of_nat64 [of i] by (subst unat_add64) simp_all
  then have "store a bs m (b + of_nat i) = m (b + of_nat i)"
    using assms i by (intro store_other) (auto simp: apart_def)
  then show "load (store a bs m) b n ! i = load m b n ! i" using i by (simp add: nth_load)
qed simp

lemma read_write64 [simp]: "read64 (write64 m a w) a = w"
  using load_store_same [of "le_bytes 8 w" a m] by (simp add: read64_load write64_def)

lemma read_write64_other:
  assumes "apart a 8 b 8" "unat a + 8 \<le> 2 ^ 64" "unat b + 8 \<le> 2 ^ 64"
  shows "read64 (write64 m a w) b = read64 m b"
  using load_store_other [of a "le_bytes 8 w" b 8 m] assms by (simp add: read64_load write64_def)

lemma write64_other:
  assumes "unat a + 8 \<le> 2 ^ 64" "unat x < unat a \<or> unat a + 8 \<le> unat x"
  shows "write64 m a w x = m x"
  using store_other [of a "le_bytes 8 w" x m] assms by (simp add: write64_def)

lemma memset_page_at:
  assumes "unat p + 4096 < 2 ^ 64"
  shows "memset m p c PGSIZE a = (if unat p \<le> unat a \<and> unat a < unat p + 4096 then ucast c else m a)"
proof -
  have "nat (sint (ucast PGSIZE :: u32)) = 4096" by (simp add: PGSIZE_def)
  then show ?thesis using assms by (simp add: memset_def memset_loop_at)
qed

lemma read64_memset_other:
  assumes "unat p + 4096 < 2 ^ 64" "apart p 4096 b 8" "unat b + 8 \<le> 2 ^ 64"
  shows "read64 (memset m p c PGSIZE) b = read64 m b"
proof -
  have "memset m p c PGSIZE (b + of_nat i) = m (b + of_nat i)" if "i < 8" for i
  proof -
    have "unat (b + of_nat i) = unat b + i" using that assms(3) unat_of_nat64 [of i] by (subst unat_add64) simp_all
    then show ?thesis using assms that by (auto simp: memset_page_at apart_def)
  qed
  then show ?thesis unfolding read64_def by (intro arg_cong [where f = le_word] map_cong) simp_all
qed

lemma read64_memset_zero:
  assumes "unat p + 4096 < 2 ^ 64" "unat p \<le> unat b" "unat b + 8 \<le> unat p + 4096"
  shows "read64 (memset m p 0 PGSIZE) b = 0"
proof -
  have "memset m p 0 PGSIZE (b + of_nat i) = 0" if "i < 8" for i
  proof -
    have "unat (b + of_nat i) = unat b + i" using that assms unat_of_nat64 [of i] by (subst unat_add64) simp_all
    then show ?thesis using assms that by (auto simp: memset_page_at)
  qed
  then have "read64 (memset m p 0 PGSIZE) b = le_word (map (\<lambda>i. 0) [0..<8])"
    unfolding read64_def by (intro arg_cong [where f = le_word] map_cong) simp_all
  then show ?thesis by (simp add: upt_rec_numeral numeral_eq_Suc)
qed

section \<open>Pages\<close>

definition page :: "u64 \<Rightarrow> u64 \<Rightarrow> bool" where
  "page e v \<longleftrightarrow> v mod PGSIZE = 0 \<and> e \<le> v \<and> V2P v < PHYSTOP \<and> KERNBASE < v"

lemma pageD:
  assumes "page e v"
  shows "v \<noteq> 0" "unat v + 4096 < 2 ^ 64" "unat v mod 4096 = 0"
proof -
  have "unat (v mod PGSIZE) = 0" using assms by (simp add: page_def)
  then show "unat v mod 4096 = 0" by (simp add: unat_mod_distrib PGSIZE_def)
  have k: "unat KERNBASE < unat v" "unat (V2P v) < unat PHYSTOP" using assms by (simp_all add: page_def word_less_nat_alt)
  then have "unat (V2P v) = unat v - unat KERNBASE" by (simp add: V2P_def unat_sub_if')
  then have "unat v < unat PHYSTOP + unat KERNBASE" using k by simp
  then show "unat v + 4096 < 2 ^ 64" by (simp add: PHYSTOP_def KERNBASE_def)
  show "v \<noteq> 0" using k(1) by auto
qed

lemma page_apart:
  assumes "page e p" "page e q" "p \<noteq> q"
  shows "apart p 4096 q 4096"
proof -
  have "unat p \<noteq> unat q" using assms(3) by (simp add: word_unat_eq_iff)
  moreover obtain a b where "unat p = a * 4096" "unat q = b * 4096"
    using pageD(3) [OF assms(1)] pageD(3) [OF assms(2)] by (metis div_mult_mod_eq add.right_neutral)
  ultimately show ?thesis by (auto simp: apart_def)
qed

lemma apart_part: "apart p n q k \<Longrightarrow> unat p \<le> unat a \<Longrightarrow> unat a + i \<le> unat p + n \<Longrightarrow> unat q \<le> unat b \<Longrightarrow> unat b + j \<le> unat q + k \<Longrightarrow> apart a i b j"
  by (auto simp: apart_def)

text \<open>The free list in memory.\<close>

fun flist :: "mem \<Rightarrow> u64 \<Rightarrow> u64 list \<Rightarrow> bool" where
  "flist m p [] \<longleftrightarrow> p = 0"
| "flist m p (q # qs) \<longleftrightarrow> p = q \<and> q \<noteq> 0 \<and> flist m (read64 m q) qs"

definition kmem_ok :: "'z memstate_scheme \<Rightarrow> u64 list \<Rightarrow> bool" where
  "kmem_ok s ps \<longleftrightarrow> spin_free s \<and> flist (mem s) (free_list s) ps \<and> distinct ps \<and> (\<forall>p\<in>set ps. page (kend s) p)"

lemma flist_frame: "(\<And>q. q \<in> set ps \<Longrightarrow> read64 m' q = read64 m q) \<Longrightarrow> flist m' p ps \<longleftrightarrow> flist m p ps"
  by (induction ps arbitrary: p) auto

lemma spin_free_mem [simp]: "spin_free (s\<lparr>mem := m\<rparr>) = spin_free s" "spin_free (s\<lparr>free_list := p\<rparr>) = spin_free s"
  by (simp_all add: spin_free_def)

lemma kalloc_run:
  assumes "kmem_ok s ps"
  shows "kalloc s = Inr (case ps of [] \<Rightarrow> (0, s)
      | p # qs \<Rightarrow> (p, s\<lparr>free_list := read64 (mem s) p, mem := memset (mem s) p 5 PGSIZE\<rparr>))"
  using assms by (cases ps) (simp_all add: kmem_ok_def kalloc_def kop_simps lock_simps)

lemma kmem_ok_memset:
  assumes "kmem_ok s ps" "page (kend s) p" "p \<notin> set ps"
  shows "kmem_ok (s\<lparr>mem := memset (mem s) p c PGSIZE\<rparr>) ps"
proof -
  have "read64 (memset (mem s) p c PGSIZE) q = read64 (mem s) q" if "q \<in> set ps" for q
  proof -
    have q: "page (kend s) q" "q \<noteq> p" using assms that by (auto simp: kmem_ok_def)
    have "apart p 4096 q 8" using page_apart [OF assms(2) q(1)] q(2) by (auto intro: apart_part)
    then show ?thesis using pageD(2) [OF assms(2)] pageD(2) [OF q(1)] by (intro read64_memset_other) simp_all
  qed
  then show ?thesis using assms(1) flist_frame [of ps "memset (mem s) p c PGSIZE" "mem s"] by (simp add: kmem_ok_def)
qed

lemma kalloc_ok:
  assumes "kmem_ok s (p # ps)"
  shows "kmem_ok (s\<lparr>free_list := read64 (mem s) p, mem := memset (mem s) p 5 PGSIZE\<rparr>) ps"
proof -
  have "kmem_ok (s\<lparr>free_list := read64 (mem s) p\<rparr>) ps" using assms by (simp add: kmem_ok_def)
  from kmem_ok_memset [OF this, of p 5] assms show ?thesis by (simp add: kmem_ok_def)
qed

lemma kfree_run:
  assumes "kmem_ok s ps" "page (kend s) p" "p \<notin> set ps"
  defines "t \<equiv> s\<lparr>free_list := p, mem := write64 (mem s) p (free_list s)\<rparr>"
  shows "kfree p s = Inr ((), t)" "kmem_ok t (p # ps)"
proof -
  show "kfree p s = Inr ((), t)"
    using assms(1,2) by (simp add: kfree_def kop_simps lock_simps kmem_ok_def page_def not_less t_def linorder_not_le)
  have "read64 (write64 (mem s) p (free_list s)) q = read64 (mem s) q" if "q \<in> set ps" for q
  proof -
    have q: "page (kend s) q" "q \<noteq> p" using assms that by (auto simp: kmem_ok_def)
    have "apart p 8 q 8" using page_apart [OF assms(2) q(1)] q(2) by (auto intro: apart_part)
    then show ?thesis using pageD(2) [OF assms(2)] pageD(2) [OF q(1)] by (intro read_write64_other) simp_all
  qed
  then show "kmem_ok t (p # ps)"
    using assms(1-3) pageD(1) [OF assms(2)] flist_frame [of ps "write64 (mem s) p (free_list s)" "mem s"] by (simp add: kmem_ok_def t_def)
qed

section \<open>The interface of the allocator\<close>

text \<open>
  What a user of pages relies on: \<open>free s ps\<close> says that \<open>ps\<close> are the free pages. Allocation takes the
  first of them and changes only its content, or returns 0 when there is none; a page that was
  allocated can be given back. \<open>cell\<close> is the content of memory.
\<close>

definition same_outside :: "(u64 \<Rightarrow> byte) \<Rightarrow> (u64 \<Rightarrow> byte) \<Rightarrow> u64 \<Rightarrow> bool" where
  "same_outside m m' p \<longleftrightarrow> (\<forall>x. unat x < unat p \<or> unat p + 4096 \<le> unat x \<longrightarrow> m' x = m x)"

locale page_allocator =
  fixes alloc :: "('s, u64) kop" and dealloc :: "u64 \<Rightarrow> ('s, unit) kop"
    and avail :: "'s \<Rightarrow> u64 list \<Rightarrow> bool" and ispage :: "'s \<Rightarrow> u64 \<Rightarrow> bool" and cell :: "'s \<Rightarrow> u64 \<Rightarrow> byte"
  assumes alloc_none: "avail s [] \<Longrightarrow> alloc s = Inr (0, s)"
    and alloc_some: "avail s (p # ps) \<Longrightarrow> \<exists>t. alloc s = Inr (p, t) \<and> avail t ps \<and> ispage t = ispage s \<and> same_outside (cell s) (cell t) p"
    and dealloc_ok: "avail s ps \<Longrightarrow> ispage s p \<Longrightarrow> p \<notin> set ps \<Longrightarrow>
      \<exists>t. dealloc p s = Inr ((), t) \<and> avail t (p # ps) \<and> ispage t = ispage s \<and> same_outside (cell s) (cell t) p"
    and avail_pages: "avail s ps \<Longrightarrow> distinct ps \<and> (\<forall>p\<in>set ps. ispage s p \<and> p \<noteq> 0)"

text \<open>Allocating \<open>n\<close> pages.\<close>

fun alloc_many :: "('s, u64) kop \<Rightarrow> nat \<Rightarrow> ('s, u64 list) kop" where
  "alloc_many a 0 = ret []"
| "alloc_many a (Suc n) = bind a (\<lambda>p. bind (alloc_many a n) (\<lambda>ps. ret (p # ps)))"

context page_allocator
begin

lemma alloc_many_takes:
  assumes "avail s ps" "n \<le> length ps"
  shows "\<exists>t. alloc_many alloc n s = Inr (take n ps, t) \<and> avail t (drop n ps) \<and> ispage t = ispage s \<and>
    (\<forall>x. (\<forall>p\<in>set (take n ps). unat x < unat p \<or> unat p + 4096 \<le> unat x) \<longrightarrow> cell t x = cell s x)"
  using assms
proof (induction n arbitrary: s ps)
  case 0
  then show ?case by (intro exI [of _ s]) (simp add: ret_def)
next
  case (Suc n)
  then obtain p qs where ps: "ps = p # qs" by (cases ps) auto
  obtain t where t: "alloc s = Inr (p, t)" "avail t qs" "ispage t = ispage s" "same_outside (cell s) (cell t) p"
    using alloc_some Suc.prems(1) unfolding ps by blast
  obtain u where u: "alloc_many alloc n t = Inr (take n qs, u)" "avail u (drop n qs)" "ispage u = ispage t"
    "\<forall>x. (\<forall>p\<in>set (take n qs). unat x < unat p \<or> unat p + 4096 \<le> unat x) \<longrightarrow> cell u x = cell t x"
    using Suc.IH [OF t(2)] Suc.prems(2) ps by auto
  have c: "cell u x = cell s x" if "\<forall>q\<in>set (take (Suc n) ps). unat x < unat q \<or> unat q + 4096 \<le> unat x" for x
  proof -
    have "cell u x = cell t x" using u(4) that ps by simp
    also have "\<dots> = cell s x" using t(4) that ps by (auto simp: same_outside_def)
    finally show ?thesis .
  qed
  show ?case
  proof (intro exI [of _ u] conjI allI impI)
    show "alloc_many alloc (Suc n) s = Inr (take (Suc n) ps, u)" using t(1) u(1) by (simp add: ps kop_simps)
  qed (use u(2,3) t(3) c in \<open>simp_all add: ps\<close>)
qed

lemma alloc_many_distinct:
  assumes "avail s ps" "n \<le> length ps"
  shows "\<exists>qs t. alloc_many alloc n s = Inr (qs, t) \<and> length qs = n \<and> distinct qs \<and> 0 \<notin> set qs \<and> avail t (drop n ps)"
  using alloc_many_takes [OF assms] avail_pages [OF assms(1)] assms(2) by (auto simp: distinct_take dest!: in_set_takeD)

end

interpretation km: page_allocator kalloc kfree kmem_ok "\<lambda>s. page (kend s)" mem
proof (unfold_locales, goal_cases)
  case (1 s)
  then show ?case by (simp add: kalloc_run)
next
  case (2 s p ps)
  then have "page (kend s) p" by (simp add: kmem_ok_def)
  from pageD(2) [OF this] show ?case
    by (intro exI [of _ "s\<lparr>free_list := read64 (mem s) p, mem := memset (mem s) p 5 PGSIZE\<rparr>"])
      (auto simp: kalloc_run [OF 2] kalloc_ok [OF 2] same_outside_def memset_page_at)
next
  case (3 s ps p)
  note p = pageD(2) [OF 3(2)]
  have "same_outside (mem s) (write64 (mem s) p (free_list s)) p"
    unfolding same_outside_def using p by (intro allI impI write64_other) auto
  then show ?case using kfree_run [OF 3]
    by (intro exI [of _ "s\<lparr>free_list := p, mem := write64 (mem s) p (free_list s)\<rparr>"]) simp
next
  case (4 s ps)
  then show ?case using pageD(1) by (auto simp: kmem_ok_def)
qed

section \<open>Initialisation\<close>

lemma page_step:
  assumes "v mod PGSIZE = 0" "p mod PGSIZE = 0" "unat p < unat v"
  shows "unat p + 4096 \<le> unat v"
proof -
  have "unat (v mod PGSIZE) = 0" "unat (p mod PGSIZE) = 0" using assms by simp_all
  then have "unat v mod 4096 = 0" "unat p mod 4096 = 0" by (simp_all add: unat_mod_distrib PGSIZE_def)
  then obtain a b where "unat v = a * 4096" "unat p = b * 4096" by (metis div_mult_mod_eq add.right_neutral)
  then show ?thesis using assms(3) by simp
qed

lemma free_range_run:
  assumes "kmem_ok s ps" "KERNBASE < p" "p mod PGSIZE = 0" "kend s \<le> p" "unat vend \<le> unat KERNBASE + unat PHYSTOP"
    and "\<forall>q\<in>set ps. unat q < unat p"
  shows "\<exists>t qs. free_range_loop p vend s = Inr ((), t) \<and> kmem_ok t qs \<and> kend t = kend s \<and>
     set qs = set ps \<union> {v. v mod PGSIZE = 0 \<and> p \<le> v \<and> unat v + 4096 \<le> unat vend}"
  using assms
proof (induction p vend arbitrary: s ps rule: free_range_loop.induct)
  case (1 p vend)
  show ?case
  proof (cases "unat p + unat PGSIZE \<le> unat vend")
    case False
    then have e: "{v. v mod PGSIZE = 0 \<and> p \<le> v \<and> unat v + 4096 \<le> unat vend} = {}" by (auto simp: PGSIZE_def word_le_nat_alt)
    show ?thesis unfolding e using False "1.prems"(1) by (intro exI [of _ s] exI [of _ ps]) (simp add: free_range_loop.simps [of p vend] kop_simps)
  next
    case True
    have add: "unat (p + PGSIZE) = unat p + 4096"
      using True unat_less_64 [of vend] by (subst unat_add64) (simp_all add: PGSIZE_def)
    have k: "unat KERNBASE < unat p" using "1.prems"(2) by (simp add: word_less_nat_alt)
    then have "unat (V2P p) = unat p - unat KERNBASE" by (simp add: V2P_def unat_sub_if')
    then have "V2P p < PHYSTOP" using True k "1.prems"(5) by (simp add: word_less_nat_alt PGSIZE_def)
    then have pg: "page (kend s) p" using "1.prems" by (simp add: page_def)
    have np: "p \<notin> set ps" using "1.prems"(6) by auto
    note f = kfree_run [OF "1.prems"(1) pg np]
    let ?t = "s\<lparr>free_list := p, mem := write64 (mem s) p (free_list s)\<rparr>"
    have al: "(p + PGSIZE) mod PGSIZE = 0"
    proof -
      have "unat (p mod PGSIZE) = 0" using "1.prems"(3) by simp
      then have "unat p mod 4096 = 0" by (simp add: unat_mod_distrib PGSIZE_def)
      then have "unat ((p + PGSIZE) mod PGSIZE) = 0" unfolding unat_mod_distrib add by (simp add: PGSIZE_def)
      then show ?thesis by (simp only: unsigned_eq_0_iff)
    qed
    have "\<exists>u qs. free_range_loop (p + PGSIZE) vend ?t = Inr ((), u) \<and> kmem_ok u qs \<and> kend u = kend ?t \<and>
        set qs = set (p # ps) \<union> {v. v mod PGSIZE = 0 \<and> p + PGSIZE \<le> v \<and> unat v + 4096 \<le> unat vend}"
      using True "1.prems" al add k f(2) np
      by (intro "1.IH") (auto simp: word_less_nat_alt word_le_nat_alt)
    moreover have "{v. v mod PGSIZE = 0 \<and> p \<le> v \<and> unat v + 4096 \<le> unat vend} =
        insert p {v. v mod PGSIZE = 0 \<and> p + PGSIZE \<le> v \<and> unat v + 4096 \<le> unat vend}"
      using page_step [OF _ "1.prems"(3)] True "1.prems"(3)
      by (auto simp: word_le_nat_alt add PGSIZE_def [THEN arg_cong [where f = unat]] order_le_less word_unat_eq_iff)
    ultimately show ?thesis using True f(1) by (simp add: free_range_loop.simps [of p vend] kop_simps)
  qed
qed

lemma km_init:
  assumes "spin_free s" "free_list s = 0" "KERNBASE < kend s" "kend s \<le> P2V PHYSTOP"
  shows "\<exists>t ps. alloc_init s = Inr ((), t) \<and> kmem_ok t ps \<and> set ps = {v. page (kend s) v}"
proof -
  let ?s = "s\<lparr>locks := (locks s)(Lkmem := (locks s Lkmem)\<lparr>lk_name := ''kmem'', lk_locked := False, lk_cpu := None\<rparr>)\<rparr>"
  let ?p = "ROUNDUP (kend s) PGSIZE"
  have P: "unat PGSIZE = 4096" by (simp add: PGSIZE_def)
  have top: "unat (P2V PHYSTOP) = unat KERNBASE + unat PHYSTOP" by (simp add: P2V_def PHYSTOP_def KERNBASE_def)
  have e: "unat KERNBASE < unat (kend s)" "unat (kend s) \<le> unat KERNBASE + unat PHYSTOP"
    using assms(3,4) top by (simp_all add: word_less_nat_alt word_le_nat_alt)
  then have up: "unat ?p = (unat (kend s) + 4095) div 4096 * 4096"
    using unat_ROUNDUP [of PGSIZE "kend s"] by (simp add: P KERNBASE_def PHYSTOP_def)
  then have ge: "unat (kend s) \<le> unat ?p" by linarith
  have al: "?p mod PGSIZE = 0"
  proof -
    have "unat (?p mod PGSIZE) = 0" unfolding unat_mod_distrib up P by simp
    then show ?thesis by (simp only: unsigned_eq_0_iff)
  qed
  have ini: "initlock Lkmem ''kmem'' s = Inr ((), ?s)" by (simp add: initlock_def set_lock_def kop_simps)
  have ok: "kmem_ok ?s []" using assms(1,2) by (simp add: kmem_ok_def spin_free_def lk_free_def)
  obtain t qs where t: "free_range_loop ?p (P2V PHYSTOP) ?s = Inr ((), t)" "kmem_ok t qs"
     "set qs = {v. v mod PGSIZE = 0 \<and> ?p \<le> v \<and> unat v + 4096 \<le> unat (P2V PHYSTOP)}"
    using free_range_run [OF ok, of ?p "P2V PHYSTOP"] al ge e(1) top by (auto simp: word_less_nat_alt word_le_nat_alt)
  have "page (kend s) v \<longleftrightarrow> v mod PGSIZE = 0 \<and> ?p \<le> v \<and> unat v + 4096 \<le> unat (P2V PHYSTOP)" for v
  proof
    assume p: "page (kend s) v"
    then have v: "v mod PGSIZE = 0" "unat (kend s) \<le> unat v" "unat KERNBASE < unat v" "unat (V2P v) < unat PHYSTOP"
      by (simp_all add: page_def word_less_nat_alt word_le_nat_alt)
    have "unat (V2P v) = unat v - unat KERNBASE" using v(3) by (simp add: V2P_def unat_sub_if')
    then have "unat v < unat (P2V PHYSTOP)" using v(3,4) top by simp
    moreover have "P2V PHYSTOP mod PGSIZE = 0" by (simp add: P2V_def PHYSTOP_def KERNBASE_def PGSIZE_def)
    moreover have "unat ?p \<le> unat v"
    proof -
      obtain a where a: "unat v = a * 4096" using pageD(3) [OF p] by (metis div_mult_mod_eq add.right_neutral)
      then have "(unat (kend s) + 4095) div 4096 \<le> (a * 4096 + 4095) div 4096" using v(2) by (intro div_le_mono) simp
      then show ?thesis unfolding up a by simp
    qed
    ultimately show "v mod PGSIZE = 0 \<and> ?p \<le> v \<and> unat v + 4096 \<le> unat (P2V PHYSTOP)"
      using v(1) page_step [of "P2V PHYSTOP" v] by (simp add: word_le_nat_alt)
  next
    assume v: "v mod PGSIZE = 0 \<and> ?p \<le> v \<and> unat v + 4096 \<le> unat (P2V PHYSTOP)"
    then have k: "unat (kend s) \<le> unat v" "unat KERNBASE < unat v" using ge e(1) by (simp_all add: word_le_nat_alt)
    then have "unat (V2P v) = unat v - unat KERNBASE" by (simp add: V2P_def unat_sub_if')
    then show "page (kend s) v" using v k top by (auto simp: page_def word_le_nat_alt word_less_nat_alt)
  qed
  then have "set qs = {v. page (kend s) v}" using t(3) by simp
  then show ?thesis using t ini by (auto simp: alloc_init_def free_range_def kop_simps)
qed

section \<open>Properties of the allocator\<close>

text \<open>
  C28. As long as pages are free, \<open>kalloc\<close> hands out each of them once: \<open>n\<close> calls return \<open>n\<close> different
  pages, none of them null, that are no longer free.
\<close>

theorem kalloc_distinct:
  assumes "kmem_ok s ps" "n \<le> length ps"
  shows "\<exists>qs t. alloc_many kalloc n s = Inr (qs, t) \<and> length qs = n \<and> distinct qs \<and> 0 \<notin> set qs \<and>
    kmem_ok t (drop n ps)"
  by (rule km.alloc_many_distinct [OF assms])

text \<open>
  \<open>kfree\<close> gives a page back that the next \<open>kalloc\<close> returns, and accepts nothing but pages: an
  address that is not aligned, below the kernel's end or beyond the memory is a panic.
\<close>

theorem kfree_kalloc:
  assumes "kmem_ok s ps"
  shows "if v mod PGSIZE \<noteq> 0 \<or> v < kend s \<or> V2P v \<ge> PHYSTOP then kfree v s = Inl (Panic ''kfree'')
    else v \<notin> set ps \<and> KERNBASE < v \<longrightarrow> (\<exists>t u. kfree v s = Inr ((), t) \<and> kmem_ok t (v # ps) \<and> kalloc t = Inr (v, u) \<and> kmem_ok u ps)"
proof (cases "v mod PGSIZE \<noteq> 0 \<or> v < kend s \<or> V2P v \<ge> PHYSTOP")
  case True
  then show ?thesis by (simp add: kfree_def kop_simps)
next
  case False
  have "\<exists>t u. kfree v s = Inr ((), t) \<and> kmem_ok t (v # ps) \<and> kalloc t = Inr (v, u) \<and> kmem_ok u ps" if "v \<notin> set ps" "KERNBASE < v"
  proof -
    have p: "page (kend s) v" using False that(2) by (simp add: page_def not_less not_le)
    note k = kfree_run [OF assms p that(1)]
    show ?thesis using k(1) kalloc_run [OF k(2)] kalloc_ok [OF k(2)] k(2) by auto
  qed
  then show ?thesis using False by simp
qed

text \<open>
  After \<open>alloc_init\<close> the free pages are exactly the whole pages between the end of the kernel and
  the end of the memory.
\<close>

theorem alloc_init_pages:
  assumes "spin_free s" "free_list s = 0" "KERNBASE < kend s" "kend s \<le> P2V PHYSTOP"
  shows "\<exists>t ps. alloc_init s = Inr ((), t) \<and> kmem_ok t ps \<and> set ps = {v. page (kend s) v}"
  by (rule km_init [OF assms])

text \<open>A machine with 512 KB of kernel and otherwise empty memory.\<close>

definition demo_mem :: memstate where
  "demo_mem = fsstate.extend demo_fs (memstate.fields (\<lambda>_. 0) 0 (P2V EXTMEM))"

lemma demo_mem: "spin_free demo_mem" "free_list demo_mem = 0" "kend demo_mem = P2V EXTMEM" "icache demo_mem = icache demo_fs"
  using log_ok_spin_free [OF demo_fs(1)] by (simp_all add: demo_mem_def fsstate.extend_def memstate.fields_def spin_free_def)

theorem alloc_init_pages_witness:
  "\<exists>t ps. alloc_init demo_mem = Inr ((), t) \<and> kmem_ok t ps \<and> P2V 0x80000 \<in> set ps \<and> P2V 0x81000 \<in> set ps"
proof -
  have k: "KERNBASE < kend demo_mem" "kend demo_mem \<le> P2V PHYSTOP"
    by (simp_all add: demo_mem P2V_def KERNBASE_def EXTMEM_def PHYSTOP_def)
  have "page (kend demo_mem) (P2V 0x80000)" "page (kend demo_mem) (P2V 0x81000)"
    by (simp_all add: page_def demo_mem P2V_def V2P_def KERNBASE_def EXTMEM_def PHYSTOP_def PGSIZE_def)
  then show ?thesis using alloc_init_pages [OF demo_mem(1,2) k] by blast
qed

definition demo_kmem :: memstate where
  "demo_kmem = (case alloc_init demo_mem of Inr (_, t) \<Rightarrow> t | Inl _ \<Rightarrow> demo_mem)"

lemma demo_kmem: "\<exists>ps. kmem_ok demo_kmem ps \<and> set ps = {v. page (P2V EXTMEM) v} \<and> 2 \<le> length ps"
proof -
  have k: "KERNBASE < kend demo_mem" "kend demo_mem \<le> P2V PHYSTOP"
    by (simp_all add: demo_mem P2V_def KERNBASE_def EXTMEM_def PHYSTOP_def)
  obtain t ps where t: "alloc_init demo_mem = Inr ((), t)" "kmem_ok t ps" "set ps = {v. page (P2V EXTMEM) v}"
    using km_init [OF demo_mem(1,2) k] by (auto simp: demo_mem)
  have "{P2V 0x80000, P2V 0x81000} \<subseteq> set ps"
    by (simp add: t(3) page_def P2V_def V2P_def KERNBASE_def EXTMEM_def PHYSTOP_def PGSIZE_def)
  then have "card {P2V 0x80000, P2V 0x81000} \<le> card (set ps)" by (intro card_mono) simp_all
  then have "2 \<le> length ps" using card_length [of ps] by (simp add: P2V_def)
  then show ?thesis using t by (auto simp: demo_kmem_def)
qed

theorem kalloc_distinct_witness:
  "\<exists>qs t. alloc_many kalloc 2 demo_kmem = Inr (qs, t) \<and> distinct qs \<and> length qs = 2"
proof -
  obtain ps where "kmem_ok demo_kmem ps" "2 \<le> length ps" using demo_kmem by blast
  from kalloc_distinct [OF this] show ?thesis by blast
qed

theorem kfree_kalloc_witness: "kfree 0x1001 demo_kmem = Inl (Panic ''kfree'')"
proof -
  obtain ps where "kmem_ok demo_kmem ps" using demo_kmem by blast
  from kfree_kalloc [OF this, of "0x1001"] show ?thesis by (simp add: PGSIZE_def)
qed


end
