(* ===== verification/Vm.thy ===== *)
theory Vm
  imports Kalloc
begin

text \<open>
  Virtual memory of user processes, \<open>kern/vm.c\<close>: the walk of a four-level table in memory, mapping,
  growing, shrinking, copying and freeing an address space. Pointers are addresses, a null pointer
  is 0 and reading through it a fault. The functions that return an \<open>int\<close> return 32 bits.
\<close>

unbundle bit_operations_syntax

section \<open>Tables\<close>

text \<open>The loop over the levels of \<open>pgdir_walk\<close>; \<open>pte_at t i\<close> is \<open>&t[i]\<close>.\<close>

definition pte_at :: "u64 \<Rightarrow> u64 \<Rightarrow> u64" where
  "pte_at t i = t + 8 * i"

fun pgdir_walk_loop :: "nat list \<Rightarrow> u64 \<Rightarrow> u64 \<Rightarrow> bool \<Rightarrow> ('z memstate_scheme, u64) kop" where
  "pgdir_walk_loop [] pgdir va alloc = ret (pte_at pgdir (PTX 3 va))"
| "pgdir_walk_loop (level # levels) pgdir va alloc =
     (let pte = pte_at pgdir (PTX level va) in
      bind (get (\<lambda>s. read64 (mem s) pte)) (\<lambda>e.
      if e AND PTE_P \<noteq> 0 then pgdir_walk_loop levels (P2V (PTE_ADDR e)) va alloc
      else if \<not> alloc then ret 0
      else bind kalloc (\<lambda>t.
        if t = 0 then ret 0
        else seq (set_mem (\<lambda>m. memset m t 0 PGSIZE))
        (seq (set_mem (\<lambda>m. write64 m pte (V2P (PTE_ADDR t) OR PTE_P OR PTE_TABLE)))
        (pgdir_walk_loop levels t va alloc)))))"

definition pgdir_walk :: "u64 \<Rightarrow> u64 \<Rightarrow> bool \<Rightarrow> ('z memstate_scheme, u64) kop" where
  "pgdir_walk pgdir va alloc = pgdir_walk_loop [0..<3] pgdir va alloc"

text \<open>Reading and writing through a pointer to an entry.\<close>

definition read_pte :: "u64 \<Rightarrow> ('z memstate_scheme, u64) kop" where
  "read_pte pte = (if pte = 0 then stop Fault else get (\<lambda>s. read64 (mem s) pte))"

definition write_pte :: "u64 \<Rightarrow> u64 \<Rightarrow> ('z memstate_scheme, unit) kop" where
  "write_pte pte e = set_mem (\<lambda>m. write64 m pte e)"

text \<open>The pages from \<open>a\<close> to \<open>lst\<close>, at most \<open>fuel\<close> of them.\<close>

fun map_region_loop :: "nat \<Rightarrow> u64 \<Rightarrow> u64 \<Rightarrow> u64 \<Rightarrow> u64 \<Rightarrow> u64 \<Rightarrow> ('z memstate_scheme, int) kop" where
  "map_region_loop 0 pgdir a lst pa perm = stop Diverge"
| "map_region_loop (Suc fuel) pgdir a lst pa perm =
     bind (pgdir_walk pgdir a True) (\<lambda>pte.
     if pte = 0 then ret (-1)
     else bind (read_pte pte) (\<lambda>e.
       if e AND PTE_P \<noteq> 0 then panic ''remap''
       else seq (write_pte pte (PTE_ADDR pa OR perm OR PTE_P OR PTE_TABLE OR PTE_AF OR PTE_NORMAL))
       (if a = lst then ret 0 else map_region_loop fuel pgdir (a + PGSIZE) lst (pa + PGSIZE) perm)))"

definition map_region :: "u64 \<Rightarrow> u64 \<Rightarrow> u64 \<Rightarrow> u64 \<Rightarrow> u64 \<Rightarrow> ('z memstate_scheme, int) kop" where
  "map_region pgdir va sz pa perm =
     (let a = ROUNDDOWN va PGSIZE; lst = ROUNDDOWN (va + sz - 1) PGSIZE in
      map_region_loop (Suc (unat (lst - a) div unat PGSIZE)) pgdir a lst pa perm)"

text \<open>The loop over the entries of a table that frees what the present ones refer to.\<close>

fun for_ptes :: "(u64 \<Rightarrow> ('z memstate_scheme, unit) kop) \<Rightarrow> u64 \<Rightarrow> nat list \<Rightarrow> ('z memstate_scheme, unit) kop" where
  "for_ptes f pgdir [] = ret ()"
| "for_ptes f pgdir (i # is) =
     bind (get (\<lambda>s. read64 (mem s) (pte_at pgdir (of_nat i)))) (\<lambda>e.
     seq (if e AND PTE_P \<noteq> 0 then f (P2V (PTE_ADDR e)) else ret ())
     (for_ptes f pgdir is))"

function vm_free :: "u64 \<Rightarrow> int \<Rightarrow> ('z memstate_scheme, unit) kop" where
  "vm_free pgdir level =
     (if level = 3 then for_ptes kfree pgdir [0..<512]
      else if level \<ge> 0 \<and> level \<le> 2 then
        seq (for_ptes (\<lambda>p. vm_free p (level + 1)) pgdir [0..<512]) (kfree pgdir)
      else panic ''vm_free: unexpected level'')"
  by pat_completeness auto
termination by (relation "measure (\<lambda>(p, level). nat (4 - level))") auto

declare vm_free.simps [simp del]

definition pgdir_init :: "('z memstate_scheme, u64) kop" where
  "pgdir_init =
     bind kalloc (\<lambda>pgt.
     if pgt = 0 then panic ''pgdir_init: kalloc failed''
     else seq (set_mem (\<lambda>m. memset m pgt 0 PGSIZE)) (ret pgt))"

section \<open>User memory\<close>

text \<open>\<open>sz\<close> is an \<open>int\<close>, compared as signed; \<open>memmove\<close> takes it as 64 bits, sign extended.\<close>

definition uvm_init :: "u64 \<Rightarrow> u64 \<Rightarrow> u32 \<Rightarrow> ('z memstate_scheme, unit) kop" where
  "uvm_init pgdir binary sz =
     (if sint sz > uint PGSIZE then panic ''uvm_init: page overflow!''
      else bind kalloc (\<lambda>p.
        if p = 0 then stop Fault
        else seq (set_mem (\<lambda>m. memset m p 0 PGSIZE))
        (seq (map_region pgdir 0 PGSIZE (V2P p) (PTE_USER OR PTE_RW OR PTE_PAGE))
        (set_mem (\<lambda>m. memmove m p binary (scast sz))))))"

fun uvm_dealloc_loop :: "nat \<Rightarrow> u64 \<Rightarrow> u64 \<Rightarrow> u64 \<Rightarrow> ('z memstate_scheme, unit) kop" where
  "uvm_dealloc_loop 0 pgdir a oldsz = stop Diverge"
| "uvm_dealloc_loop (Suc fuel) pgdir a oldsz =
     (if \<not> a < oldsz then ret ()
      else bind (pgdir_walk pgdir a False) (\<lambda>pte.
        if pte = 0 then uvm_dealloc_loop fuel pgdir (ROUNDUP a BKSIZE + PGSIZE) oldsz
        else bind (read_pte pte) (\<lambda>e.
          if e AND PTE_P \<noteq> 0 then
            (if PTE_ADDR e = 0 then panic ''uvm_dealloc''
             else seq (kfree (P2V (PTE_ADDR e))) (seq (write_pte pte 0) (uvm_dealloc_loop fuel pgdir (a + PGSIZE) oldsz)))
          else uvm_dealloc_loop fuel pgdir (a + PGSIZE) oldsz)))"

definition uvm_dealloc :: "u64 \<Rightarrow> u64 \<Rightarrow> u64 \<Rightarrow> ('z memstate_scheme, u32) kop" where
  "uvm_dealloc pgdir oldsz newsz =
     (if newsz \<ge> oldsz then ret (ucast oldsz)
      else seq (uvm_dealloc_loop (unat oldsz div unat PGSIZE + 2) pgdir (ROUNDUP newsz PGSIZE) oldsz) (ret (ucast newsz)))"

fun uvm_alloc_loop :: "nat \<Rightarrow> u64 \<Rightarrow> u64 \<Rightarrow> u64 \<Rightarrow> u64 \<Rightarrow> ('z memstate_scheme, u32) kop" where
  "uvm_alloc_loop 0 pgdir a oldsz newsz = stop Diverge"
| "uvm_alloc_loop (Suc fuel) pgdir a oldsz newsz =
     (if \<not> a < newsz then ret (ucast newsz)
      else bind kalloc (\<lambda>p.
        if p = 0 then seq (uvm_dealloc pgdir newsz oldsz) (ret 0)
        else seq (set_mem (\<lambda>m. memset m p 0 PGSIZE))
        (bind (map_region pgdir a PGSIZE (V2P p) (PTE_RW OR PTE_USER)) (\<lambda>r.
         if r < 0 then seq (uvm_dealloc pgdir newsz oldsz) (seq (kfree p) (ret 0))
         else uvm_alloc_loop fuel pgdir (a + PGSIZE) oldsz newsz))))"

definition uvm_alloc :: "u64 \<Rightarrow> u64 \<Rightarrow> u64 \<Rightarrow> ('z memstate_scheme, u32) kop" where
  "uvm_alloc pgdir oldsz newsz =
     (if newsz \<ge> UADDR_SZ then ret 0
      else if newsz < oldsz then ret (ucast oldsz)
      else uvm_alloc_loop (unat newsz div unat PGSIZE + 2) pgdir (ROUNDUP oldsz PGSIZE) oldsz newsz)"

text \<open>\<open>readi\<close> into memory: the bytes it returns are stored at the kernel address \<open>dst\<close>.\<close>

definition readi_at :: "(nat \<Rightarrow> 'z memstate_scheme devsw) \<Rightarrow> nat \<Rightarrow> u64 \<Rightarrow> u64 \<Rightarrow> u64 \<Rightarrow> ('z memstate_scheme, int) kop" where
  "readi_at dsw ip dst off n =
     bind (readi dsw ip off n) (\<lambda>(r, bs).
     seq (set_mem (store dst bs)) (ret r))"

fun uvm_load_loop :: "nat \<Rightarrow> (nat \<Rightarrow> 'z memstate_scheme devsw) \<Rightarrow> u64 \<Rightarrow> u64 \<Rightarrow> nat \<Rightarrow> u64 \<Rightarrow> u64 \<Rightarrow> u64 \<Rightarrow>
    ('z memstate_scheme, int) kop" where
  "uvm_load_loop 0 dsw pgdir addr ip offset sz i = stop Diverge"
| "uvm_load_loop (Suc fuel) dsw pgdir addr ip offset sz i =
     (if \<not> i < sz then ret 0
      else bind (pgdir_walk pgdir (addr + i) False) (\<lambda>pte.
        if pte = 0 then panic ''uvm_load: address should exist''
        else bind (read_pte pte) (\<lambda>e.
          let n = (if sz - i < PGSIZE then sz - i else PGSIZE) in
          bind (readi_at dsw ip (P2V (PTE_ADDR e)) (offset + i) n) (\<lambda>r.
          if (of_int r :: u64) \<noteq> n then ret (-1)
          else uvm_load_loop fuel dsw pgdir addr ip offset sz (i + PGSIZE)))))"

definition uvm_load :: "(nat \<Rightarrow> 'z memstate_scheme devsw) \<Rightarrow> u64 \<Rightarrow> u64 \<Rightarrow> nat \<Rightarrow> u64 \<Rightarrow> u64 \<Rightarrow> ('z memstate_scheme, int) kop" where
  "uvm_load dsw pgdir addr ip offset sz =
     (if (addr - offset) mod PGSIZE \<noteq> 0 then panic ''uvm_load: addr must be page aligned''
      else let va = ROUNDDOWN addr PGSIZE in
        bind (pgdir_walk pgdir va False) (\<lambda>pte.
        if pte = 0 then panic ''loaduvm: addr should exist''
        else bind (read_pte pte) (\<lambda>e.
          let start = addr mod PGSIZE; n = min sz (PGSIZE - start) in
          bind (readi_at dsw ip (P2V (PTE_ADDR e + start)) offset n) (\<lambda>r.
          if (of_int r :: u64) \<noteq> n then ret (-1)
          else uvm_load_loop (unat (sz - n) div unat PGSIZE + 2) dsw pgdir (addr + n) ip (offset + n) (sz - n) 0))))"

definition clearpteu :: "u64 \<Rightarrow> u64 \<Rightarrow> ('z memstate_scheme, unit) kop" where
  "clearpteu pgdir uva =
     bind (pgdir_walk pgdir uva False) (\<lambda>pte.
     if pte = 0 then panic ''clearpteu''
     else bind (read_pte pte) (\<lambda>e. write_pte pte (e AND NOT PTE_USER)))"

definition uva2ka :: "u64 \<Rightarrow> u64 \<Rightarrow> ('z memstate_scheme, u64) kop" where
  "uva2ka pgdir uva =
     bind (pgdir_walk pgdir uva False) (\<lambda>pte.
     bind (read_pte pte) (\<lambda>e.
     if e AND PTE_P = 0 then ret 0
     else if e AND PTE_USER = 0 then ret 0
     else ret (P2V (PTE_ADDR e))))"

text \<open>The bytes copied by \<open>copyout\<close> are those at \<open>p\<close> in kernel memory when each page is reached.\<close>

fun copyout_loop :: "nat \<Rightarrow> u64 \<Rightarrow> u64 \<Rightarrow> u64 \<Rightarrow> u64 \<Rightarrow> ('z memstate_scheme, int) kop" where
  "copyout_loop 0 pgdir va buf len = stop Diverge"
| "copyout_loop (Suc fuel) pgdir va buf len =
     (if \<not> len > 0 then ret 0
      else let va0 = ROUNDDOWN va PGSIZE in
        bind (uva2ka pgdir va0) (\<lambda>pa0.
        if pa0 = 0 then ret (-1)
        else let n = (if PGSIZE - (va - va0) > len then len else PGSIZE - (va - va0)) in
          seq (set_mem (\<lambda>m. memmove m (pa0 + (va - va0)) buf n))
          (copyout_loop fuel pgdir (va0 + PGSIZE) (buf + n) (len - n))))"

definition copyout :: "u64 \<Rightarrow> u64 \<Rightarrow> u64 \<Rightarrow> u64 \<Rightarrow> ('z memstate_scheme, int) kop" where
  "copyout pgdir va p len = copyout_loop (unat len div unat PGSIZE + 3) pgdir va p len"

fun copyuvm_loop :: "nat \<Rightarrow> u64 \<Rightarrow> u64 \<Rightarrow> u64 \<Rightarrow> u64 \<Rightarrow> ('z memstate_scheme, u64) kop" where
  "copyuvm_loop 0 new_pgdir pgdir sz i = stop Diverge"
| "copyuvm_loop (Suc fuel) new_pgdir pgdir sz i =
     (if \<not> i < sz then ret new_pgdir
      else bind (pgdir_walk pgdir i False) (\<lambda>pte.
        if pte = 0 then panic ''copyuvm''
        else bind (read_pte pte) (\<lambda>e.
          if e AND (PTE_PAGE OR PTE_P) = 0 then panic ''copyuvm''
          else let pa = PTE_ADDR e; perm = e AND (PTE_USER OR PTE_RO) in
            bind kalloc (\<lambda>page.
            if page = 0 then seq (kfree new_pgdir) (ret 0)
            else seq (set_mem (\<lambda>m. memcpy m page (P2V pa) PGSIZE))
            (bind (map_region new_pgdir i PGSIZE (V2P page) perm) (\<lambda>r.
             if r < 0 then seq (kfree new_pgdir) (ret 0)
             else copyuvm_loop fuel new_pgdir pgdir sz (i + PGSIZE)))))))"

definition copyuvm :: "u64 \<Rightarrow> u64 \<Rightarrow> ('z memstate_scheme, u64) kop" where
  "copyuvm pgdir sz =
     bind pgdir_init (\<lambda>new_pgdir.
     if new_pgdir = 0 then ret 0
     else copyuvm_loop (unat sz div unat PGSIZE + 2) new_pgdir pgdir sz 0)"

end
