(* ===== verification/Kpgdir.thy ===== *)
theory Kpgdir
  imports Mmu
begin

text \<open>
  The kernel's translation tables, \<open>kern/kpgdir.c\<close>: the table \<open>kpte\<close> of 2 MB blocks entry by entry as
  the source lists it, \<open>kpud\<close> and \<open>kpgdir\<close>. The addresses of the tables are chosen by the linker and
  are parameters. The lemmas show that the table is the identity map of the first two gigabytes,
  ordinary memory below \<open>PHYSTOP\<close> and device memory above.
\<close>

unbundle bit_operations_syntax

section \<open>The tables\<close>

definition kpte_0 :: "u64 list" where
  "kpte_0 = [
     0x0 OR PTE_NORMAL, 0x200000 OR PTE_NORMAL, 0x400000 OR PTE_NORMAL, 0x600000 OR PTE_NORMAL,
     0x800000 OR PTE_NORMAL, 0xa00000 OR PTE_NORMAL, 0xc00000 OR PTE_NORMAL, 0xe00000 OR PTE_NORMAL,
     0x1000000 OR PTE_NORMAL, 0x1200000 OR PTE_NORMAL, 0x1400000 OR PTE_NORMAL, 0x1600000 OR PTE_NORMAL,
     0x1800000 OR PTE_NORMAL, 0x1a00000 OR PTE_NORMAL, 0x1c00000 OR PTE_NORMAL, 0x1e00000 OR PTE_NORMAL,
     0x2000000 OR PTE_NORMAL, 0x2200000 OR PTE_NORMAL, 0x2400000 OR PTE_NORMAL, 0x2600000 OR PTE_NORMAL,
     0x2800000 OR PTE_NORMAL, 0x2a00000 OR PTE_NORMAL, 0x2c00000 OR PTE_NORMAL, 0x2e00000 OR PTE_NORMAL,
     0x3000000 OR PTE_NORMAL, 0x3200000 OR PTE_NORMAL, 0x3400000 OR PTE_NORMAL, 0x3600000 OR PTE_NORMAL,
     0x3800000 OR PTE_NORMAL, 0x3a00000 OR PTE_NORMAL, 0x3c00000 OR PTE_NORMAL, 0x3e00000 OR PTE_NORMAL,
     0x4000000 OR PTE_NORMAL, 0x4200000 OR PTE_NORMAL, 0x4400000 OR PTE_NORMAL, 0x4600000 OR PTE_NORMAL,
     0x4800000 OR PTE_NORMAL, 0x4a00000 OR PTE_NORMAL, 0x4c00000 OR PTE_NORMAL, 0x4e00000 OR PTE_NORMAL,
     0x5000000 OR PTE_NORMAL, 0x5200000 OR PTE_NORMAL, 0x5400000 OR PTE_NORMAL, 0x5600000 OR PTE_NORMAL,
     0x5800000 OR PTE_NORMAL, 0x5a00000 OR PTE_NORMAL, 0x5c00000 OR PTE_NORMAL, 0x5e00000 OR PTE_NORMAL,
     0x6000000 OR PTE_NORMAL, 0x6200000 OR PTE_NORMAL, 0x6400000 OR PTE_NORMAL, 0x6600000 OR PTE_NORMAL,
     0x6800000 OR PTE_NORMAL, 0x6a00000 OR PTE_NORMAL, 0x6c00000 OR PTE_NORMAL, 0x6e00000 OR PTE_NORMAL,
     0x7000000 OR PTE_NORMAL, 0x7200000 OR PTE_NORMAL, 0x7400000 OR PTE_NORMAL, 0x7600000 OR PTE_NORMAL,
     0x7800000 OR PTE_NORMAL, 0x7a00000 OR PTE_NORMAL, 0x7c00000 OR PTE_NORMAL, 0x7e00000 OR PTE_NORMAL,
     0x8000000 OR PTE_NORMAL, 0x8200000 OR PTE_NORMAL, 0x8400000 OR PTE_NORMAL, 0x8600000 OR PTE_NORMAL,
     0x8800000 OR PTE_NORMAL, 0x8a00000 OR PTE_NORMAL, 0x8c00000 OR PTE_NORMAL, 0x8e00000 OR PTE_NORMAL,
     0x9000000 OR PTE_NORMAL, 0x9200000 OR PTE_NORMAL, 0x9400000 OR PTE_NORMAL, 0x9600000 OR PTE_NORMAL,
     0x9800000 OR PTE_NORMAL, 0x9a00000 OR PTE_NORMAL, 0x9c00000 OR PTE_NORMAL, 0x9e00000 OR PTE_NORMAL,
     0xa000000 OR PTE_NORMAL, 0xa200000 OR PTE_NORMAL, 0xa400000 OR PTE_NORMAL, 0xa600000 OR PTE_NORMAL,
     0xa800000 OR PTE_NORMAL, 0xaa00000 OR PTE_NORMAL, 0xac00000 OR PTE_NORMAL, 0xae00000 OR PTE_NORMAL,
     0xb000000 OR PTE_NORMAL, 0xb200000 OR PTE_NORMAL, 0xb400000 OR PTE_NORMAL, 0xb600000 OR PTE_NORMAL,
     0xb800000 OR PTE_NORMAL, 0xba00000 OR PTE_NORMAL, 0xbc00000 OR PTE_NORMAL, 0xbe00000 OR PTE_NORMAL,
     0xc000000 OR PTE_NORMAL, 0xc200000 OR PTE_NORMAL, 0xc400000 OR PTE_NORMAL, 0xc600000 OR PTE_NORMAL,
     0xc800000 OR PTE_NORMAL, 0xca00000 OR PTE_NORMAL, 0xcc00000 OR PTE_NORMAL, 0xce00000 OR PTE_NORMAL,
     0xd000000 OR PTE_NORMAL, 0xd200000 OR PTE_NORMAL, 0xd400000 OR PTE_NORMAL, 0xd600000 OR PTE_NORMAL,
     0xd800000 OR PTE_NORMAL, 0xda00000 OR PTE_NORMAL, 0xdc00000 OR PTE_NORMAL, 0xde00000 OR PTE_NORMAL,
     0xe000000 OR PTE_NORMAL, 0xe200000 OR PTE_NORMAL, 0xe400000 OR PTE_NORMAL, 0xe600000 OR PTE_NORMAL,
     0xe800000 OR PTE_NORMAL, 0xea00000 OR PTE_NORMAL, 0xec00000 OR PTE_NORMAL, 0xee00000 OR PTE_NORMAL,
     0xf000000 OR PTE_NORMAL, 0xf200000 OR PTE_NORMAL, 0xf400000 OR PTE_NORMAL, 0xf600000 OR PTE_NORMAL,
     0xf800000 OR PTE_NORMAL, 0xfa00000 OR PTE_NORMAL, 0xfc00000 OR PTE_NORMAL, 0xfe00000 OR PTE_NORMAL]"

definition kpte_1 :: "u64 list" where
  "kpte_1 = [
     0x10000000 OR PTE_NORMAL, 0x10200000 OR PTE_NORMAL, 0x10400000 OR PTE_NORMAL, 0x10600000 OR PTE_NORMAL,
     0x10800000 OR PTE_NORMAL, 0x10a00000 OR PTE_NORMAL, 0x10c00000 OR PTE_NORMAL, 0x10e00000 OR PTE_NORMAL,
     0x11000000 OR PTE_NORMAL, 0x11200000 OR PTE_NORMAL, 0x11400000 OR PTE_NORMAL, 0x11600000 OR PTE_NORMAL,
     0x11800000 OR PTE_NORMAL, 0x11a00000 OR PTE_NORMAL, 0x11c00000 OR PTE_NORMAL, 0x11e00000 OR PTE_NORMAL,
     0x12000000 OR PTE_NORMAL, 0x12200000 OR PTE_NORMAL, 0x12400000 OR PTE_NORMAL, 0x12600000 OR PTE_NORMAL,
     0x12800000 OR PTE_NORMAL, 0x12a00000 OR PTE_NORMAL, 0x12c00000 OR PTE_NORMAL, 0x12e00000 OR PTE_NORMAL,
     0x13000000 OR PTE_NORMAL, 0x13200000 OR PTE_NORMAL, 0x13400000 OR PTE_NORMAL, 0x13600000 OR PTE_NORMAL,
     0x13800000 OR PTE_NORMAL, 0x13a00000 OR PTE_NORMAL, 0x13c00000 OR PTE_NORMAL, 0x13e00000 OR PTE_NORMAL,
     0x14000000 OR PTE_NORMAL, 0x14200000 OR PTE_NORMAL, 0x14400000 OR PTE_NORMAL, 0x14600000 OR PTE_NORMAL,
     0x14800000 OR PTE_NORMAL, 0x14a00000 OR PTE_NORMAL, 0x14c00000 OR PTE_NORMAL, 0x14e00000 OR PTE_NORMAL,
     0x15000000 OR PTE_NORMAL, 0x15200000 OR PTE_NORMAL, 0x15400000 OR PTE_NORMAL, 0x15600000 OR PTE_NORMAL,
     0x15800000 OR PTE_NORMAL, 0x15a00000 OR PTE_NORMAL, 0x15c00000 OR PTE_NORMAL, 0x15e00000 OR PTE_NORMAL,
     0x16000000 OR PTE_NORMAL, 0x16200000 OR PTE_NORMAL, 0x16400000 OR PTE_NORMAL, 0x16600000 OR PTE_NORMAL,
     0x16800000 OR PTE_NORMAL, 0x16a00000 OR PTE_NORMAL, 0x16c00000 OR PTE_NORMAL, 0x16e00000 OR PTE_NORMAL,
     0x17000000 OR PTE_NORMAL, 0x17200000 OR PTE_NORMAL, 0x17400000 OR PTE_NORMAL, 0x17600000 OR PTE_NORMAL,
     0x17800000 OR PTE_NORMAL, 0x17a00000 OR PTE_NORMAL, 0x17c00000 OR PTE_NORMAL, 0x17e00000 OR PTE_NORMAL,
     0x18000000 OR PTE_NORMAL, 0x18200000 OR PTE_NORMAL, 0x18400000 OR PTE_NORMAL, 0x18600000 OR PTE_NORMAL,
     0x18800000 OR PTE_NORMAL, 0x18a00000 OR PTE_NORMAL, 0x18c00000 OR PTE_NORMAL, 0x18e00000 OR PTE_NORMAL,
     0x19000000 OR PTE_NORMAL, 0x19200000 OR PTE_NORMAL, 0x19400000 OR PTE_NORMAL, 0x19600000 OR PTE_NORMAL,
     0x19800000 OR PTE_NORMAL, 0x19a00000 OR PTE_NORMAL, 0x19c00000 OR PTE_NORMAL, 0x19e00000 OR PTE_NORMAL,
     0x1a000000 OR PTE_NORMAL, 0x1a200000 OR PTE_NORMAL, 0x1a400000 OR PTE_NORMAL, 0x1a600000 OR PTE_NORMAL,
     0x1a800000 OR PTE_NORMAL, 0x1aa00000 OR PTE_NORMAL, 0x1ac00000 OR PTE_NORMAL, 0x1ae00000 OR PTE_NORMAL,
     0x1b000000 OR PTE_NORMAL, 0x1b200000 OR PTE_NORMAL, 0x1b400000 OR PTE_NORMAL, 0x1b600000 OR PTE_NORMAL,
     0x1b800000 OR PTE_NORMAL, 0x1ba00000 OR PTE_NORMAL, 0x1bc00000 OR PTE_NORMAL, 0x1be00000 OR PTE_NORMAL,
     0x1c000000 OR PTE_NORMAL, 0x1c200000 OR PTE_NORMAL, 0x1c400000 OR PTE_NORMAL, 0x1c600000 OR PTE_NORMAL,
     0x1c800000 OR PTE_NORMAL, 0x1ca00000 OR PTE_NORMAL, 0x1cc00000 OR PTE_NORMAL, 0x1ce00000 OR PTE_NORMAL,
     0x1d000000 OR PTE_NORMAL, 0x1d200000 OR PTE_NORMAL, 0x1d400000 OR PTE_NORMAL, 0x1d600000 OR PTE_NORMAL,
     0x1d800000 OR PTE_NORMAL, 0x1da00000 OR PTE_NORMAL, 0x1dc00000 OR PTE_NORMAL, 0x1de00000 OR PTE_NORMAL,
     0x1e000000 OR PTE_NORMAL, 0x1e200000 OR PTE_NORMAL, 0x1e400000 OR PTE_NORMAL, 0x1e600000 OR PTE_NORMAL,
     0x1e800000 OR PTE_NORMAL, 0x1ea00000 OR PTE_NORMAL, 0x1ec00000 OR PTE_NORMAL, 0x1ee00000 OR PTE_NORMAL,
     0x1f000000 OR PTE_NORMAL, 0x1f200000 OR PTE_NORMAL, 0x1f400000 OR PTE_NORMAL, 0x1f600000 OR PTE_NORMAL,
     0x1f800000 OR PTE_NORMAL, 0x1fa00000 OR PTE_NORMAL, 0x1fc00000 OR PTE_NORMAL, 0x1fe00000 OR PTE_NORMAL]"

definition kpte_2 :: "u64 list" where
  "kpte_2 = [
     0x20000000 OR PTE_NORMAL, 0x20200000 OR PTE_NORMAL, 0x20400000 OR PTE_NORMAL, 0x20600000 OR PTE_NORMAL,
     0x20800000 OR PTE_NORMAL, 0x20a00000 OR PTE_NORMAL, 0x20c00000 OR PTE_NORMAL, 0x20e00000 OR PTE_NORMAL,
     0x21000000 OR PTE_NORMAL, 0x21200000 OR PTE_NORMAL, 0x21400000 OR PTE_NORMAL, 0x21600000 OR PTE_NORMAL,
     0x21800000 OR PTE_NORMAL, 0x21a00000 OR PTE_NORMAL, 0x21c00000 OR PTE_NORMAL, 0x21e00000 OR PTE_NORMAL,
     0x22000000 OR PTE_NORMAL, 0x22200000 OR PTE_NORMAL, 0x22400000 OR PTE_NORMAL, 0x22600000 OR PTE_NORMAL,
     0x22800000 OR PTE_NORMAL, 0x22a00000 OR PTE_NORMAL, 0x22c00000 OR PTE_NORMAL, 0x22e00000 OR PTE_NORMAL,
     0x23000000 OR PTE_NORMAL, 0x23200000 OR PTE_NORMAL, 0x23400000 OR PTE_NORMAL, 0x23600000 OR PTE_NORMAL,
     0x23800000 OR PTE_NORMAL, 0x23a00000 OR PTE_NORMAL, 0x23c00000 OR PTE_NORMAL, 0x23e00000 OR PTE_NORMAL,
     0x24000000 OR PTE_NORMAL, 0x24200000 OR PTE_NORMAL, 0x24400000 OR PTE_NORMAL, 0x24600000 OR PTE_NORMAL,
     0x24800000 OR PTE_NORMAL, 0x24a00000 OR PTE_NORMAL, 0x24c00000 OR PTE_NORMAL, 0x24e00000 OR PTE_NORMAL,
     0x25000000 OR PTE_NORMAL, 0x25200000 OR PTE_NORMAL, 0x25400000 OR PTE_NORMAL, 0x25600000 OR PTE_NORMAL,
     0x25800000 OR PTE_NORMAL, 0x25a00000 OR PTE_NORMAL, 0x25c00000 OR PTE_NORMAL, 0x25e00000 OR PTE_NORMAL,
     0x26000000 OR PTE_NORMAL, 0x26200000 OR PTE_NORMAL, 0x26400000 OR PTE_NORMAL, 0x26600000 OR PTE_NORMAL,
     0x26800000 OR PTE_NORMAL, 0x26a00000 OR PTE_NORMAL, 0x26c00000 OR PTE_NORMAL, 0x26e00000 OR PTE_NORMAL,
     0x27000000 OR PTE_NORMAL, 0x27200000 OR PTE_NORMAL, 0x27400000 OR PTE_NORMAL, 0x27600000 OR PTE_NORMAL,
     0x27800000 OR PTE_NORMAL, 0x27a00000 OR PTE_NORMAL, 0x27c00000 OR PTE_NORMAL, 0x27e00000 OR PTE_NORMAL,
     0x28000000 OR PTE_NORMAL, 0x28200000 OR PTE_NORMAL, 0x28400000 OR PTE_NORMAL, 0x28600000 OR PTE_NORMAL,
     0x28800000 OR PTE_NORMAL, 0x28a00000 OR PTE_NORMAL, 0x28c00000 OR PTE_NORMAL, 0x28e00000 OR PTE_NORMAL,
     0x29000000 OR PTE_NORMAL, 0x29200000 OR PTE_NORMAL, 0x29400000 OR PTE_NORMAL, 0x29600000 OR PTE_NORMAL,
     0x29800000 OR PTE_NORMAL, 0x29a00000 OR PTE_NORMAL, 0x29c00000 OR PTE_NORMAL, 0x29e00000 OR PTE_NORMAL,
     0x2a000000 OR PTE_NORMAL, 0x2a200000 OR PTE_NORMAL, 0x2a400000 OR PTE_NORMAL, 0x2a600000 OR PTE_NORMAL,
     0x2a800000 OR PTE_NORMAL, 0x2aa00000 OR PTE_NORMAL, 0x2ac00000 OR PTE_NORMAL, 0x2ae00000 OR PTE_NORMAL,
     0x2b000000 OR PTE_NORMAL, 0x2b200000 OR PTE_NORMAL, 0x2b400000 OR PTE_NORMAL, 0x2b600000 OR PTE_NORMAL,
     0x2b800000 OR PTE_NORMAL, 0x2ba00000 OR PTE_NORMAL, 0x2bc00000 OR PTE_NORMAL, 0x2be00000 OR PTE_NORMAL,
     0x2c000000 OR PTE_NORMAL, 0x2c200000 OR PTE_NORMAL, 0x2c400000 OR PTE_NORMAL, 0x2c600000 OR PTE_NORMAL,
     0x2c800000 OR PTE_NORMAL, 0x2ca00000 OR PTE_NORMAL, 0x2cc00000 OR PTE_NORMAL, 0x2ce00000 OR PTE_NORMAL,
     0x2d000000 OR PTE_NORMAL, 0x2d200000 OR PTE_NORMAL, 0x2d400000 OR PTE_NORMAL, 0x2d600000 OR PTE_NORMAL,
     0x2d800000 OR PTE_NORMAL, 0x2da00000 OR PTE_NORMAL, 0x2dc00000 OR PTE_NORMAL, 0x2de00000 OR PTE_NORMAL,
     0x2e000000 OR PTE_NORMAL, 0x2e200000 OR PTE_NORMAL, 0x2e400000 OR PTE_NORMAL, 0x2e600000 OR PTE_NORMAL,
     0x2e800000 OR PTE_NORMAL, 0x2ea00000 OR PTE_NORMAL, 0x2ec00000 OR PTE_NORMAL, 0x2ee00000 OR PTE_NORMAL,
     0x2f000000 OR PTE_NORMAL, 0x2f200000 OR PTE_NORMAL, 0x2f400000 OR PTE_NORMAL, 0x2f600000 OR PTE_NORMAL,
     0x2f800000 OR PTE_NORMAL, 0x2fa00000 OR PTE_NORMAL, 0x2fc00000 OR PTE_NORMAL, 0x2fe00000 OR PTE_NORMAL]"

definition kpte_3 :: "u64 list" where
  "kpte_3 = [
     0x30000000 OR PTE_NORMAL, 0x30200000 OR PTE_NORMAL, 0x30400000 OR PTE_NORMAL, 0x30600000 OR PTE_NORMAL,
     0x30800000 OR PTE_NORMAL, 0x30a00000 OR PTE_NORMAL, 0x30c00000 OR PTE_NORMAL, 0x30e00000 OR PTE_NORMAL,
     0x31000000 OR PTE_NORMAL, 0x31200000 OR PTE_NORMAL, 0x31400000 OR PTE_NORMAL, 0x31600000 OR PTE_NORMAL,
     0x31800000 OR PTE_NORMAL, 0x31a00000 OR PTE_NORMAL, 0x31c00000 OR PTE_NORMAL, 0x31e00000 OR PTE_NORMAL,
     0x32000000 OR PTE_NORMAL, 0x32200000 OR PTE_NORMAL, 0x32400000 OR PTE_NORMAL, 0x32600000 OR PTE_NORMAL,
     0x32800000 OR PTE_NORMAL, 0x32a00000 OR PTE_NORMAL, 0x32c00000 OR PTE_NORMAL, 0x32e00000 OR PTE_NORMAL,
     0x33000000 OR PTE_NORMAL, 0x33200000 OR PTE_NORMAL, 0x33400000 OR PTE_NORMAL, 0x33600000 OR PTE_NORMAL,
     0x33800000 OR PTE_NORMAL, 0x33a00000 OR PTE_NORMAL, 0x33c00000 OR PTE_NORMAL, 0x33e00000 OR PTE_NORMAL,
     0x34000000 OR PTE_NORMAL, 0x34200000 OR PTE_NORMAL, 0x34400000 OR PTE_NORMAL, 0x34600000 OR PTE_NORMAL,
     0x34800000 OR PTE_NORMAL, 0x34a00000 OR PTE_NORMAL, 0x34c00000 OR PTE_NORMAL, 0x34e00000 OR PTE_NORMAL,
     0x35000000 OR PTE_NORMAL, 0x35200000 OR PTE_NORMAL, 0x35400000 OR PTE_NORMAL, 0x35600000 OR PTE_NORMAL,
     0x35800000 OR PTE_NORMAL, 0x35a00000 OR PTE_NORMAL, 0x35c00000 OR PTE_NORMAL, 0x35e00000 OR PTE_NORMAL,
     0x36000000 OR PTE_NORMAL, 0x36200000 OR PTE_NORMAL, 0x36400000 OR PTE_NORMAL, 0x36600000 OR PTE_NORMAL,
     0x36800000 OR PTE_NORMAL, 0x36a00000 OR PTE_NORMAL, 0x36c00000 OR PTE_NORMAL, 0x36e00000 OR PTE_NORMAL,
     0x37000000 OR PTE_NORMAL, 0x37200000 OR PTE_NORMAL, 0x37400000 OR PTE_NORMAL, 0x37600000 OR PTE_NORMAL,
     0x37800000 OR PTE_NORMAL, 0x37a00000 OR PTE_NORMAL, 0x37c00000 OR PTE_NORMAL, 0x37e00000 OR PTE_NORMAL,
     0x38000000 OR PTE_NORMAL, 0x38200000 OR PTE_NORMAL, 0x38400000 OR PTE_NORMAL, 0x38600000 OR PTE_NORMAL,
     0x38800000 OR PTE_NORMAL, 0x38a00000 OR PTE_NORMAL, 0x38c00000 OR PTE_NORMAL, 0x38e00000 OR PTE_NORMAL,
     0x39000000 OR PTE_NORMAL, 0x39200000 OR PTE_NORMAL, 0x39400000 OR PTE_NORMAL, 0x39600000 OR PTE_NORMAL,
     0x39800000 OR PTE_NORMAL, 0x39a00000 OR PTE_NORMAL, 0x39c00000 OR PTE_NORMAL, 0x39e00000 OR PTE_NORMAL,
     0x3a000000 OR PTE_NORMAL, 0x3a200000 OR PTE_NORMAL, 0x3a400000 OR PTE_NORMAL, 0x3a600000 OR PTE_NORMAL,
     0x3a800000 OR PTE_NORMAL, 0x3aa00000 OR PTE_NORMAL, 0x3ac00000 OR PTE_NORMAL, 0x3ae00000 OR PTE_NORMAL,
     0x3b000000 OR PTE_NORMAL, 0x3b200000 OR PTE_NORMAL, 0x3b400000 OR PTE_NORMAL, 0x3b600000 OR PTE_NORMAL,
     0x3b800000 OR PTE_NORMAL, 0x3ba00000 OR PTE_NORMAL, 0x3bc00000 OR PTE_NORMAL, 0x3be00000 OR PTE_NORMAL,
     0x3c000000 OR PTE_NORMAL, 0x3c200000 OR PTE_NORMAL, 0x3c400000 OR PTE_NORMAL, 0x3c600000 OR PTE_NORMAL,
     0x3c800000 OR PTE_NORMAL, 0x3ca00000 OR PTE_NORMAL, 0x3cc00000 OR PTE_NORMAL, 0x3ce00000 OR PTE_NORMAL,
     0x3d000000 OR PTE_NORMAL, 0x3d200000 OR PTE_NORMAL, 0x3d400000 OR PTE_NORMAL, 0x3d600000 OR PTE_NORMAL,
     0x3d800000 OR PTE_NORMAL, 0x3da00000 OR PTE_NORMAL, 0x3dc00000 OR PTE_NORMAL, 0x3de00000 OR PTE_NORMAL,
     0x3e000000 OR PTE_NORMAL, 0x3e200000 OR PTE_NORMAL, 0x3e400000 OR PTE_NORMAL, 0x3e600000 OR PTE_NORMAL,
     0x3e800000 OR PTE_NORMAL, 0x3ea00000 OR PTE_NORMAL, 0x3ec00000 OR PTE_NORMAL, 0x3ee00000 OR PTE_NORMAL,
     0x3f000000 OR PTE_DEVICE, 0x3f200000 OR PTE_DEVICE, 0x3f400000 OR PTE_DEVICE, 0x3f600000 OR PTE_DEVICE,
     0x3f800000 OR PTE_DEVICE, 0x3fa00000 OR PTE_DEVICE, 0x3fc00000 OR PTE_DEVICE, 0x3fe00000 OR PTE_DEVICE]"

definition kpte :: "u64 list" where
  "kpte = kpte_0 @ kpte_1 @ kpte_2 @ kpte_3"

definition kpud :: "u64 \<Rightarrow> u64 list" where
  "kpud kpte_va = [V2P kpte_va + PTE_TABLE + PTE_P, 0x40000000 OR PTE_DEVICE] @ replicate 510 0"

definition kpgdir :: "u64 \<Rightarrow> u64 list" where
  "kpgdir kpud_va = [V2P kpud_va + PTE_TABLE + PTE_P] @ replicate 511 0"

definition kpte_entry :: "nat \<Rightarrow> u64" where
  "kpte_entry i = of_nat i * BKSIZE OR (if i < 504 then PTE_NORMAL else PTE_DEVICE)"

lemma kpte_0: "kpte_0 = map kpte_entry [0..<128]" by code_simp
lemma kpte_1: "kpte_1 = map kpte_entry [128..<256]" by code_simp
lemma kpte_2: "kpte_2 = map kpte_entry [256..<384]" by code_simp
lemma kpte_3: "kpte_3 = map kpte_entry [384..<512]" by code_simp

section \<open>What the tables mean\<close>

text \<open>
  The translation the MMU performs for these tables: a descriptor with bit 0 clear is invalid; with
  bits 1 and 0 set it names the table of the next level; otherwise, at level 1 or 2, it maps a block
  of 1 GB or 2 MB. \<open>T\<close> gives the tables in physical memory. The result is the physical address and
  the attributes of the block.
\<close>

definition mmu_block :: "nat \<Rightarrow> u64 \<Rightarrow> u64 \<Rightarrow> u64 \<times> u64" where
  "mmu_block n e va = ((e AND NOT (mask n)) + (va AND mask n), PTE_FLAGS e)"

definition mmu_walk :: "(u64 \<Rightarrow> u64 list) \<Rightarrow> u64 list \<Rightarrow> u64 \<Rightarrow> (u64 \<times> u64) option" where
  "mmu_walk T root va =
     (let e0 = root ! unat (PTX 0 va) in
      if e0 AND 3 \<noteq> 3 then None
      else let e1 = T (PTE_ADDR e0) ! unat (PTX 1 va) in
        if e1 AND 1 = 0 then None
        else if e1 AND 2 = 0 then Some (mmu_block 30 e1 va)
        else let e2 = T (PTE_ADDR e1) ! unat (PTX 2 va) in
          if e2 AND 3 \<noteq> 1 then None else Some (mmu_block 21 e2 va))"

lemma unat_PTX: "unat (PTX level va) = unat va div 2 ^ (39 - 9 * level) mod 512"
proof -
  have "PTX level va = take_bit 9 (drop_bit (39 - 9 * level) va)"
    by (simp add: PTX_def take_bit_eq_mask mask_eq_exp_minus_1)
  then show ?thesis by (simp add: unsigned_take_bit_eq unat_drop_bit_eq) (simp add: drop_bit_eq_div take_bit_eq_mod)
qed

lemma unat_kernel_address: "unat pa < 2 ^ 48 \<Longrightarrow> unat (KERNBASE + pa) = 0xFFFF000000000000 + unat pa"
  by (simp add: KERNBASE_def unat_add_lem [THEN iffD1])

lemma div_mod_base: "(2 ^ k * (512 * c) + p) div 2 ^ k mod 512 = p div 2 ^ k mod (512 :: nat)"
  by simp

lemma kernel_indices:
  assumes "unat pa < 2 ^ 31"
  shows "unat (PTX 0 (KERNBASE + pa)) = 0" and "unat (PTX 1 (KERNBASE + pa)) = unat pa div 2 ^ 30"
    and "unat (PTX 2 (KERNBASE + pa)) = unat pa div 2 ^ 21 mod 512"
proof -
  have va: "unat (KERNBASE + pa) = 0xFFFF000000000000 + unat pa" using assms by (simp add: unat_kernel_address)
  show "unat (PTX 0 (KERNBASE + pa)) = 0"
    using assms div_mod_base [of 39 "0xFFFF" "unat pa"] by (simp add: unat_PTX va)
  show "unat (PTX 1 (KERNBASE + pa)) = unat pa div 2 ^ 30"
    using assms div_mod_base [of 30 "0x1FFFE00" "unat pa"] by (simp add: unat_PTX va)
  show "unat (PTX 2 (KERNBASE + pa)) = unat pa div 2 ^ 21 mod 512"
    using assms div_mod_base [of 21 "0x3FFFC0000" "unat pa"] by (simp add: unat_PTX va)
qed

lemma kernel_offset:
  assumes "unat pa < 2 ^ 31" "n \<le> 48"
  shows "(KERNBASE + pa) AND mask n = pa AND mask n"
proof -
  have "(2 ^ n :: nat) dvd 2 ^ 48" using assms(2) by (rule le_imp_power_dvd)
  then have "(2 ^ n :: nat) dvd 0xFFFF000000000000" using dvd_mult2 [of "2 ^ n" "2 ^ 48" "0xFFFF :: nat"] by simp
  then have "(0xFFFF000000000000 + unat pa) mod 2 ^ n = unat pa mod 2 ^ n"
    by (metis mod_add_left_eq mod_0_imp_dvd dvd_imp_mod_0 add_0)
  then have "unat ((KERNBASE + pa) AND mask n) = unat (pa AND mask n)" using assms(1)
    by (simp add: take_bit_eq_mask [symmetric] unsigned_take_bit_eq unat_kernel_address) (simp add: take_bit_eq_mod)
  then show ?thesis by (rule unsigned_word_eqI)
qed

lemma kpte_nth: "kpte ! i = kpte_entry i" if "i < 512"
proof -
  have "[0..<128] @ [128..<256] @ [256..<384] @ [384..<512] = [0..<512 :: nat]"
    using upt_add_eq_append [of 0 384 128] upt_add_eq_append [of 0 256 128] upt_add_eq_append [of 0 128 128]
    by (simp del: upt_rec_numeral)
  then have "kpte = map kpte_entry [0..<512]"
    by (simp only: kpte_def kpte_0 kpte_1 kpte_2 kpte_3 map_append [symmetric])
  then have "kpte ! i = map kpte_entry [0..<512] ! i" by (rule arg_cong)
  also have "\<dots> = kpte_entry i" using that by (subst nth_map_upt) simp_all
  finally show ?thesis .
qed

lemma block_flags:
  fixes w f :: u64
  assumes "f = PTE_NORMAL \<or> f = PTE_DEVICE" and "21 \<le> n"
  shows "(push_bit n w OR f) AND 3 = 1" "(push_bit n w OR f) AND NOT (mask n) = push_bit n w" "PTE_FLAGS (push_bit n w OR f) = f"
proof -
  have low: "push_bit n w AND mask k = 0" if "k \<le> n" for k
    using that by (simp add: take_bit_eq_mask [symmetric] take_bit_push_bit)
  have m: "(3 :: u64) = mask 2" "(0xFFF :: u64) = mask 12" by (simp_all add: mask_eq_exp_minus_1)
  have f: "f = 0x405 \<or> f = 0x401" using assms(1) by (auto simp: PTE_NORMAL_def PTE_DEVICE_def PTE_P_def PTE_AF_def
     MT_NORMAL_def MT_DEVICE_nGnRnE_def)
  have hi: "f AND NOT (mask n) = 0"
  proof (rule bit_word_eqI)
    fix k assume "k < LENGTH(64)"
    have "take_bit 21 f = f" using f by auto
    then have "\<not> bit f k" if "n \<le> k"
      using that assms(2) by (metis bit_take_bit_iff le_trans not_less)
    then show "bit (f AND NOT (mask n)) k = bit (0 :: u64) k" by (cases "n \<le> k") (auto simp: bit_and_iff bit_not_iff bit_mask_iff)
  qed
  have nm: "push_bit n w AND NOT (mask n) = push_bit n w"
    by (rule bit_word_eqI) (auto simp: bit_and_iff bit_not_iff bit_mask_iff bit_push_bit_iff)
  show "(push_bit n w OR f) AND 3 = 1" using low [of 2] f assms(2) by (auto simp: bit.conj_disj_distrib2 m(1) [symmetric])
  show "(push_bit n w OR f) AND NOT (mask n) = push_bit n w" by (simp add: bit.conj_disj_distrib2 hi nm)
  show "PTE_FLAGS (push_bit n w OR f) = f"
    using low [of 12] f assms(2) by (auto simp: PTE_FLAGS_def bit.conj_disj_distrib2 m(2) [symmetric])
qed

lemma table_descriptor:
  fixes a :: u64
  assumes "a AND 0xFFF = 0"
  shows "(a + PTE_TABLE + PTE_P) AND 3 = 3" "PTE_ADDR (a + PTE_TABLE + PTE_P) = a"
    "(a + PTE_TABLE + PTE_P) AND 1 \<noteq> 0" "(a + PTE_TABLE + PTE_P) AND 2 \<noteq> 0"
proof -
  have "a AND 3 = (a AND 0xFFF) AND 3" by (simp add: and.assoc)
  then have z: "a AND 3 = 0" using assms by simp
  then have e: "a + PTE_TABLE + PTE_P = a OR 3"
    using disjunctive_add_eq_or [of a 3] by (simp add: PTE_TABLE_def PTE_P_def add.assoc)
  show "(a + PTE_TABLE + PTE_P) AND 3 = 3" by (simp add: e bit.conj_disj_distrib2 z)
  have "a = (a AND 0xFFF) OR (a AND NOT 0xFFF)" by (simp add: bit.conj_disj_distrib [symmetric])
  then have "a AND NOT 0xFFF = a" using assms by simp
  then show "PTE_ADDR (a + PTE_TABLE + PTE_P) = a" by (simp add: e PTE_ADDR_def bit.conj_disj_distrib2)
  have "(a OR 3) AND 1 = 1" "(a OR 3) AND 2 = 2"
  proof -
    have "a AND 1 = (a AND 3) AND 1" "a AND 2 = (a AND 3) AND 2" by (simp_all add: and.assoc)
    then show "(a OR 3) AND 1 = 1" "(a OR 3) AND 2 = 2" using z by (simp_all add: bit.conj_disj_distrib2)
  qed
  then show "(a + PTE_TABLE + PTE_P) AND 1 \<noteq> 0" "(a + PTE_TABLE + PTE_P) AND 2 \<noteq> 0" by (simp_all add: e)
qed

lemma block_sum: "n < 64 \<Longrightarrow> push_bit n (drop_bit n w) + (w AND mask n) = w" for w :: u64
  by (simp add: take_bit_eq_mask [symmetric] bits_ident)

text \<open>
  C14. The kernel's own tables map the kernel half one to one: the address \<open>KERNBASE + pa\<close> is translated
  to \<open>pa\<close> for every physical address below 2 GB, as ordinary memory below \<open>PHYSTOP\<close> and as device
  memory from there on. Assumed is that the linker places the two tables at page boundaries.
\<close>

theorem kernel_identity_map:
  assumes T: "T (V2P pud) = kpud pte" "T (V2P pte) = kpte" and al: "V2P pud AND 0xFFF = 0" "V2P pte AND 0xFFF = 0"
    and pa: "unat pa < 2 ^ 31"
  shows "mmu_walk T (kpgdir pud) (KERNBASE + pa) = Some (pa, if pa < PHYSTOP then PTE_NORMAL else PTE_DEVICE)"
proof -
  let ?i = "unat pa div 2 ^ 30"
  note ix = kernel_indices [OF pa] and of = kernel_offset [OF pa]
  have d: "unat (drop_bit n pa) = unat pa div 2 ^ n" for n by (simp add: unat_drop_bit_eq) (simp add: drop_bit_eq_div)
  have k0: "kpgdir pud ! 0 = V2P pud + PTE_TABLE + PTE_P" by (simp add: kpgdir_def)
  have lt: "pa < PHYSTOP \<longleftrightarrow> unat pa < 0x3F000000" by (simp add: word_less_nat_alt PHYSTOP_def)
  have "?i < 2" using pa by simp
  then consider "?i = 0" | "?i = 1" by linarith
  then show ?thesis
  proof cases
    case 1
    then have "unat pa < 2 ^ 30" by simp
    then have i: "unat pa div 2 ^ 21 < 512" by simp
    let ?k = "unat pa div 2 ^ 21"
    have e: "kpte_entry ?k = push_bit 21 (drop_bit 21 pa) OR (if ?k < 504 then PTE_NORMAL else PTE_DEVICE)"
    proof -
      have "(of_nat ?k :: u64) = drop_bit 21 pa" unfolding d [symmetric] by (simp add: ucast_id)
      then show ?thesis by (simp add: kpte_entry_def push_bit_eq_mult BKSIZE_def)
    qed
    note b = block_flags [of "if ?k < 504 then PTE_NORMAL else PTE_DEVICE" 21 "drop_bit 21 pa", folded e]
    have lo: "kpte_entry ?k AND 3 = 1" using b(1) by simp
    have "?k < 504 \<longleftrightarrow> pa < PHYSTOP" unfolding lt by (simp add: div_less_iff_less_mult)
    then have "mmu_block 21 (kpte_entry ?k) (KERNBASE + pa) = (pa, if pa < PHYSTOP then PTE_NORMAL else PTE_DEVICE)"
      using b(2,3) block_sum [of 21 pa] of [of 21] by (simp add: mmu_block_def)
    then show ?thesis
      using T ix 1 i k0 lo table_descriptor [OF al(1)] table_descriptor [OF al(2)] kpte_nth [OF i]
      by (simp add: mmu_walk_def kpud_def)
  next
    case 2
    then have "unat (drop_bit 30 pa) = 1" by (simp add: d)
    then have d1: "drop_bit 30 pa = 1" by (simp add: word_unat_eq_iff)
    have e: "0x40000000 OR PTE_DEVICE = push_bit 30 1 OR PTE_DEVICE" by (simp add: push_bit_eq_mult)
    note b = block_flags [of PTE_DEVICE 30 1, folded e]
    have b0: "(0x40000000 OR PTE_DEVICE) AND 1 \<noteq> 0" "(0x40000000 OR PTE_DEVICE) AND 2 = 0" by (simp_all add: mmu_defs)
    have "\<not> pa < PHYSTOP" using 2 unfolding lt by auto
    then have "mmu_block 30 (0x40000000 OR PTE_DEVICE) (KERNBASE + pa) = (pa, if pa < PHYSTOP then PTE_NORMAL else PTE_DEVICE)"
      using b(2,3) block_sum [of 30 pa] of [of 30] d1 by (simp add: mmu_block_def)
    then show ?thesis
      using T ix 2 k0 b0 table_descriptor [OF al(1)] by (simp add: mmu_walk_def kpud_def)
  qed
qed

definition demo_tables :: "u64 \<Rightarrow> u64 list" where
  "demo_tables a = (if a = 0x81000 then kpud (KERNBASE + 0x82000) else kpte)"

theorem kernel_identity_map_witness:
  "mmu_walk demo_tables (kpgdir (KERNBASE + 0x81000)) (KERNBASE + 0x3F201004) = Some (0x3F201004, PTE_DEVICE)"
proof -
  have "mmu_walk demo_tables (kpgdir (KERNBASE + 0x81000)) (KERNBASE + 0x3F201004) =
      Some (0x3F201004, if (0x3F201004 :: u64) < PHYSTOP then PTE_NORMAL else PTE_DEVICE)"
    by (rule kernel_identity_map [where pte = "KERNBASE + 0x82000"]) (simp_all add: demo_tables_def V2P_def)
  then show ?thesis by (simp add: PHYSTOP_def)
qed

end
