(* ===== verification/Vmap.thy ===== *)
theory Vmap
  imports Vm Kpgdir
begin

text \<open>
  The address spaces that \<open>kern/vm.c\<close> builds: the tables reachable from a root as a tree of pages
  (\<open>tab\<close>, \<open>pt_ok\<close>), the entry for an address (\<open>lookup\<close>), and what \<open>pgdir_walk\<close>, \<open>map_region\<close>,
  \<open>pgdir_init\<close> and \<open>uva2ka\<close> do in these terms.
\<close>

unbundle bit_operations_syntax

section \<open>Table entries\<close>

lemma low_bits_clear:
  assumes "(x :: u64) mod 0x1000 = 0" "n < 12"
  shows "\<not> bit x n"
proof -
  have "take_bit 12 x = 0" using assms(1) by (simp add: take_bit_eq_mod)
  then have "bit (take_bit 12 x) n = False" by simp
  then show ?thesis using assms(2) by (simp add: bit_take_bit_iff)
qed

lemma PTE_ADDR_mask: "PTE_ADDR x = x AND NOT (mask 12)"
  by (simp add: PTE_ADDR_def mask_eq_exp_minus_1)

lemma PTE_ADDR_aligned: "x mod 0x1000 = 0 \<Longrightarrow> PTE_ADDR x = x"
proof (rule bit_word_eqI)
  fix n assume a: "x mod 0x1000 = 0" "n < LENGTH(64)"
  show "bit (PTE_ADDR x) n = bit x n"
    using low_bits_clear [OF a(1), of n] a(2) unfolding PTE_ADDR_mask by (auto simp: bit_and_iff bit_not_iff bit_mask_iff)
qed

lemma PTE_ADDR_flags: "x mod 0x1000 = 0 \<Longrightarrow> f AND NOT 0xFFF = 0 \<Longrightarrow> PTE_ADDR (x OR f) = x"
proof -
  assume a: "x mod 0x1000 = 0" "f AND NOT 0xFFF = 0"
  have "PTE_ADDR (x OR f) = PTE_ADDR x OR (f AND NOT 0xFFF)" by (simp add: PTE_ADDR_def bit.conj_disj_distrib2)
  then show ?thesis using a PTE_ADDR_aligned by simp
qed

lemma page_V2P: "page e t \<Longrightarrow> V2P t mod 0x1000 = 0 \<and> t mod 0x1000 = 0"
proof -
  assume p: "page e t"
  have k: "unat KERNBASE < unat t" using p by (simp add: page_def word_less_nat_alt)
  have "unat (V2P t) = unat t - unat KERNBASE" using k by (simp add: V2P_def unat_sub_if')
  moreover have "unat KERNBASE = 4096 * (unat KERNBASE div 4096)" by (simp add: KERNBASE_def)
  moreover have "unat t mod 4096 = 0" by (rule pageD(3) [OF p])
  ultimately have "unat (V2P t) mod 4096 = 0" using k by (metis mod_mult_self1_is_0 dvd_diff_nat dvd_eq_mod_eq_0)
  then have "unat (V2P t mod 0x1000) = 0" by (simp add: unat_mod_distrib)
  moreover have "unat (t mod 0x1000) = 0" using pageD(3) [OF p] by (simp add: unat_mod_distrib)
  ultimately show ?thesis by (simp only: unsigned_eq_0_iff)
qed

lemma table_entry:
  assumes "page e t"
  shows "P2V (PTE_ADDR (V2P (PTE_ADDR t) OR PTE_P OR PTE_TABLE)) = t" "(V2P (PTE_ADDR t) OR PTE_P OR PTE_TABLE) AND PTE_P \<noteq> 0"
proof -
  note a = page_V2P [OF assms]
  have "PTE_ADDR t = t" by (rule PTE_ADDR_aligned [OF a [THEN conjunct2]])
  moreover have "PTE_ADDR (V2P t OR (PTE_P OR PTE_TABLE)) = V2P t" using a by (intro PTE_ADDR_flags) (auto simp: PTE_P_def PTE_TABLE_def)
  ultimately show "P2V (PTE_ADDR (V2P (PTE_ADDR t) OR PTE_P OR PTE_TABLE)) = t" by (simp add: or.assoc)
  have "bit ((V2P (PTE_ADDR t) OR PTE_P OR PTE_TABLE) AND PTE_P) 0" by (simp add: PTE_P_def bit_and_iff bit_or_iff)
  then show "(V2P (PTE_ADDR t) OR PTE_P OR PTE_TABLE) AND PTE_P \<noteq> 0" by (metis bit_0_eq bot_apply bot_bool_def)
qed

section \<open>The tree of tables\<close>

text \<open>\<open>tab m root is\<close> is the table reached from \<open>root\<close> along the indices \<open>is\<close>, if every entry on the way is present.\<close>

definition tab_step :: "mem \<Rightarrow> u64 option \<Rightarrow> nat \<Rightarrow> u64 option" where
  "tab_step m p i = (case p of None \<Rightarrow> None | Some t \<Rightarrow>
     (let e = read64 m (pte_at t (of_nat i)) in if e AND PTE_P \<noteq> 0 then Some (P2V (PTE_ADDR e)) else None))"

definition tab :: "mem \<Rightarrow> u64 \<Rightarrow> nat list \<Rightarrow> u64 option" where
  "tab m root is = foldl (tab_step m) (Some root) is"

lemma tab_Nil [simp]: "tab m root [] = Some root"
  by (simp add: tab_def)

lemma tab_snoc: "tab m root (is @ [i]) = tab_step m (tab m root is) i"
  by (simp add: tab_def)

definition tpath :: "nat list \<Rightarrow> bool" where
  "tpath is \<longleftrightarrow> length is \<le> 3 \<and> (\<forall>i\<in>set is. i < 512)"

definition pt_ok :: "'z memstate_scheme \<Rightarrow> u64 \<Rightarrow> u64 list \<Rightarrow> bool" where
  "pt_ok s root ps \<longleftrightarrow> kmem_ok s ps \<and>
     (\<forall>is t. tpath is \<longrightarrow> tab (mem s) root is = Some t \<longrightarrow> page (kend s) t \<and> t \<notin> set ps) \<and>
     (\<forall>is js t. tpath is \<longrightarrow> tpath js \<longrightarrow> tab (mem s) root is = Some t \<longrightarrow> tab (mem s) root js = Some t \<longrightarrow> is = js)"

lemma unat_pte_at:
  assumes "page e t" "i < 512"
  shows "unat (pte_at t (of_nat i)) = unat t + 8 * i"
proof -
  have "unat (8 * of_nat i :: u64) = 8 * i" using assms(2) unat_of_nat64 [of "8 * i"] by simp
  then show ?thesis using assms(2) pageD(2) [OF assms(1)] by (simp add: pte_at_def) (subst unat_add64, simp_all)
qed

lemma pte_apart:
  assumes "page e t" "page e u" "i < 512" "j < 512" "t \<noteq> u \<or> i \<noteq> j"
  shows "apart (pte_at t (of_nat i)) 8 (pte_at u (of_nat j)) 8"
proof (cases "t = u")
  case True
  then show ?thesis using assms unat_pte_at by (auto simp: apart_def)
next
  case False
  show ?thesis using page_apart [OF assms(1,2) False] assms(3,4)
    by (rule_tac apart_part) (auto simp: unat_pte_at [OF assms(1,3)] unat_pte_at [OF assms(2,4)])
qed

lemma pte_bound: "page e t \<Longrightarrow> i < 512 \<Longrightarrow> unat (pte_at t (of_nat i)) + 8 \<le> 2 ^ 64"
  using pageD(2) [of e t] by (simp add: unat_pte_at)

text \<open>A change of memory that links a new empty table \<open>t\<close> at entry \<open>i\<close> of the table at \<open>is\<close>.\<close>

lemma tab_link:
  assumes "tab m root is = Some p" "tpath (is @ [i])"
    and old: "read64 m (pte_at p (of_nat i)) AND PTE_P = 0"
    and new: "read64 m' (pte_at p (of_nat i)) AND PTE_P \<noteq> 0" "P2V (PTE_ADDR (read64 m' (pte_at p (of_nat i)))) = t"
    and zero: "\<And>j. j < 512 \<Longrightarrow> read64 m' (pte_at t (of_nat j)) AND PTE_P = 0"
    and same: "\<And>js q j. tpath js \<Longrightarrow> tab m root js = Some q \<Longrightarrow> j < 512 \<Longrightarrow> js @ [j] \<noteq> is @ [i] \<Longrightarrow>
      read64 m' (pte_at q (of_nat j)) = read64 m (pte_at q (of_nat j))"
    and "tpath js"
  shows "tab m' root js = (if js = is @ [i] then Some t else tab m root js)"
  using assms(8)
proof (induction js rule: rev_induct)
  case Nil
  then show ?case by simp
next
  case (snoc j js)
  have js: "tpath js" "j < 512" using snoc.prems by (simp_all add: tpath_def)
  note IH = snoc.IH [OF js(1)]
  show ?case
  proof (cases "js = is @ [i]")
    case True
    then have "tab m' root js = Some t" "tab m root js = None"
      using IH assms(1) old by (simp_all add: tab_snoc tab_step_def)
    then have "tab m' root (js @ [j]) = None" "tab m root (js @ [j]) = None"
      unfolding tab_snoc using zero [OF js(2)] by (simp_all add: tab_step_def)
    then show ?thesis using True by simp
  next
    case False
    then have t: "tab m' root js = tab m root js" using IH by simp
    show ?thesis
    proof (cases "js @ [j] = is @ [i]")
      case True
      then have "js = is" "j = i" by simp_all
      then show ?thesis using t assms(1) new by (simp add: tab_snoc tab_step_def)
    next
      case ne: False
      then show ?thesis using t same [OF js(1) _ js(2) ne] by (auto simp: tab_snoc tab_step_def split: option.splits)
    qed
  qed
qed

lemma pt_okD:
  assumes "pt_ok s root ps"
  shows "kmem_ok s ps" "tpath is \<Longrightarrow> tab (mem s) root is = Some t \<Longrightarrow> page (kend s) t \<and> t \<notin> set ps"
    "tpath is \<Longrightarrow> tpath js \<Longrightarrow> tab (mem s) root is = Some t \<Longrightarrow> tab (mem s) root js = Some t \<Longrightarrow> is = js"
  using assms unfolding pt_ok_def by blast+

lemma kmem_ok_write:
  assumes "kmem_ok s ps" "page (kend s) p" "p \<notin> set ps" "i < 512"
  shows "kmem_ok (s\<lparr>mem := write64 (mem s) (pte_at p (of_nat i)) e\<rparr>) ps"
proof -
  have "read64 (write64 (mem s) (pte_at p (of_nat i)) e) q = read64 (mem s) q" if "q \<in> set ps" for q
  proof -
    have q: "page (kend s) q" "q \<noteq> p" using assms that by (auto simp: kmem_ok_def)
    have "apart (pte_at p (of_nat i)) 8 (pte_at q (of_nat 0)) 8" using q assms by (intro pte_apart) auto
    then show ?thesis using pte_bound [OF assms(2,4)] pte_bound [OF q(1), of 0]
      by (intro read_write64_other) (simp_all add: pte_at_def)
  qed
  then show ?thesis using assms(1) flist_frame [of ps "write64 (mem s) (pte_at p (of_nat i)) e" "mem s"] by (simp add: kmem_ok_def)
qed

text \<open>The state after one step of \<open>pgdir_walk\<close> that allocates the table \<open>t\<close>.\<close>

definition linked :: "'z memstate_scheme \<Rightarrow> u64 \<Rightarrow> nat \<Rightarrow> u64 \<Rightarrow> 'z memstate_scheme" where
  "linked s p i t = s\<lparr>free_list := read64 (mem s) t,
     mem := write64 (memset (memset (mem s) t 5 PGSIZE) t 0 PGSIZE) (pte_at p (of_nat i)) (V2P (PTE_ADDR t) OR PTE_P OR PTE_TABLE)\<rparr>"

lemma linked_fields [simp]: "kend (linked s p i t) = kend s"
  by (simp add: linked_def)

lemma linked_reads:
  assumes ok: "kmem_ok s (t # ps)" and p: "page (kend s) p" "p \<noteq> t" "i < 512" and j: "j < 512"
  shows "read64 (mem (linked s p i t)) (pte_at p (of_nat i)) = V2P (PTE_ADDR t) OR PTE_P OR PTE_TABLE"
    "read64 (mem (linked s p i t)) (pte_at t (of_nat j)) = 0"
    "page (kend s) q \<Longrightarrow> q \<noteq> t \<Longrightarrow> q \<noteq> p \<or> j \<noteq> i \<Longrightarrow> read64 (mem (linked s p i t)) (pte_at q (of_nat j)) = read64 (mem s) (pte_at q (of_nat j))"
proof -
  have t: "page (kend s) t" using ok by (simp add: kmem_ok_def)
  note tb = pageD(2) [OF t] and bd = pte_bound
  show "read64 (mem (linked s p i t)) (pte_at p (of_nat i)) = V2P (PTE_ADDR t) OR PTE_P OR PTE_TABLE" by (simp add: linked_def)
  have "read64 (memset (memset (mem s) t 5 PGSIZE) t 0 PGSIZE) (pte_at t (of_nat j)) = 0"
    using tb j by (intro read64_memset_zero) (simp_all add: unat_pte_at [OF t j])
  moreover have "apart (pte_at p (of_nat i)) 8 (pte_at t (of_nat j)) 8" using p t j by (intro pte_apart) auto
  ultimately show "read64 (mem (linked s p i t)) (pte_at t (of_nat j)) = 0"
    using bd [OF p(1,3)] bd [OF t j] by (simp add: linked_def read_write64_other)
  assume q: "page (kend s) q" "q \<noteq> t" "q \<noteq> p \<or> j \<noteq> i"
  have "apart t 4096 q 4096" using q(2) by (intro page_apart [OF t q(1)]) simp
  then have a: "apart t 4096 (pte_at q (of_nat j)) 8" using j by (auto intro: apart_part simp: unat_pte_at [OF q(1) j])
  have "apart (pte_at p (of_nat i)) 8 (pte_at q (of_nat j)) 8" using p q j by (intro pte_apart) auto
  then show "read64 (mem (linked s p i t)) (pte_at q (of_nat j)) = read64 (mem s) (pte_at q (of_nat j))"
    using a tb bd [OF p(1,3)] bd [OF q(1) j] by (simp add: linked_def read_write64_other read64_memset_other)
qed

lemma linked_tab:
  assumes ok: "pt_ok s root (t # ps)" and p: "tab (mem s) root is = Some p" "tpath (is @ [i])"
    and old: "read64 (mem s) (pte_at p (of_nat i)) AND PTE_P = 0"
  shows "tpath js \<Longrightarrow> tab (mem (linked s p i t)) root js = (if js = is @ [i] then Some t else tab (mem s) root js)"
    "pt_ok (linked s p i t) root ps" "tab (mem s) root (is @ [i]) = None"
    "tpath js \<Longrightarrow> tab (mem s) root js = Some q \<Longrightarrow> j < 512 \<Longrightarrow> js @ [j] \<noteq> is @ [i] \<Longrightarrow>
      read64 (mem (linked s p i t)) (pte_at q (of_nat j)) = read64 (mem s) (pte_at q (of_nat j))"
proof -
  note D = pt_okD [OF ok]
  have isp: "tpath is" "i < 512" using p(2) by (simp_all add: tpath_def)
  have pp: "page (kend s) p" "p \<noteq> t" "p \<notin> set ps" using D(2) [OF isp(1) p(1)] by auto
  have t: "page (kend s) t" "t \<notin> set ps" using D(1) by (simp_all add: kmem_ok_def)
  note R = linked_reads [OF D(1) pp(1,2) isp(2)]
  show same: "read64 (mem (linked s p i t)) (pte_at q (of_nat j)) = read64 (mem s) (pte_at q (of_nat j))"
    if "tpath js" "tab (mem s) root js = Some q" "j < 512" "js @ [j] \<noteq> is @ [i]" for js q j
  proof -
    have q: "page (kend s) q" "q \<noteq> t" using D(2) [OF that(1,2)] by auto
    have "q \<noteq> p \<or> j \<noteq> i" using D(3) [OF that(1) isp(1) that(2)] p(1) that(4) by auto
    then show ?thesis by (rule R(3) [OF that(3) q])
  qed
  show none: "tab (mem s) root (is @ [i]) = None" using p(1) old by (simp add: tab_snoc tab_step_def)
  have T: "tab (mem (linked s p i t)) root js = (if js = is @ [i] then Some t else tab (mem s) root js)" if "tpath js" for js
  proof (rule tab_link [OF p(1,2) old _ _ _ same that])
    show "read64 (mem (linked s p i t)) (pte_at p (of_nat i)) AND PTE_P \<noteq> 0"
      "P2V (PTE_ADDR (read64 (mem (linked s p i t)) (pte_at p (of_nat i)))) = t" using R(1) [of 0] table_entry [OF t(1)] by simp_all
    show "read64 (mem (linked s p i t)) (pte_at t (of_nat j)) AND PTE_P = 0" if "j < 512" for j using R(2) [OF that] by simp
  qed
  then show "tpath js \<Longrightarrow> tab (mem (linked s p i t)) root js = (if js = is @ [i] then Some t else tab (mem s) root js)" .
  have k1: "kmem_ok (s\<lparr>free_list := read64 (mem s) t, mem := memset (mem s) t 5 PGSIZE\<rparr>) ps" by (rule kalloc_ok [OF D(1)])
  have k2: "kmem_ok (s\<lparr>free_list := read64 (mem s) t, mem := memset (memset (mem s) t 5 PGSIZE) t 0 PGSIZE\<rparr>) ps"
    using kmem_ok_memset [OF k1, of t 0] t by simp
  have "kmem_ok (linked s p i t) ps"
    unfolding linked_def using kmem_ok_write [OF k2, of p i] pp isp(2) by simp
  moreover have "page (kend s) u \<and> u \<notin> set ps" if "tpath js" "tab (mem (linked s p i t)) root js = Some u" for js u
    using that(2) T [OF that(1)] D(2) [OF that(1)] t by (auto split: if_splits)
  moreover have "js = ks" if "tpath js" "tpath ks" "tab (mem (linked s p i t)) root js = Some u" "tab (mem (linked s p i t)) root ks = Some u" for js ks u
    using that(3,4) T [OF that(1)] T [OF that(2)] D(2) [OF that(1), of t] D(2) [OF that(2), of t] D(3) [OF that(1,2), of u] by (auto split: if_splits)
  ultimately show "pt_ok (linked s p i t) root ps" by (auto simp: pt_ok_def)
qed

section \<open>The walk\<close>

definition vpath :: "u64 \<Rightarrow> nat \<Rightarrow> nat list" where
  "vpath va k = map (\<lambda>l. unat (PTX l va)) [0..<k]"

lemma vpath_Suc: "vpath va (Suc k) = vpath va k @ [unat (PTX k va)]"
  by (simp add: vpath_def)

lemma length_vpath [simp]: "length (vpath va k) = k"
  by (simp add: vpath_def)

lemma PTX_512: "unat (PTX l va) < 512"
  using PTX_less [of l va] by (simp add: word_less_nat_alt)

lemma tpath_vpath: "k \<le> 3 \<Longrightarrow> tpath (vpath va k)"
  using PTX_512 by (auto simp: tpath_def vpath_def)

text \<open>The address of the entry for \<open>va\<close>, and the entry: zero when a table is missing.\<close>

definition leaf :: "mem \<Rightarrow> u64 \<Rightarrow> u64 \<Rightarrow> u64 option" where
  "leaf m root va = map_option (\<lambda>t. pte_at t (PTX 3 va)) (tab m root (vpath va 3))"

definition lookup :: "mem \<Rightarrow> u64 \<Rightarrow> u64 \<Rightarrow> u64" where
  "lookup m root va = (case leaf m root va of None \<Rightarrow> 0 | Some a \<Rightarrow> read64 m a)"

lemma tab_None: "tab m root (vpath va k) = None \<Longrightarrow> k \<le> j \<Longrightarrow> tab m root (vpath va j) = None"
proof (induction "j - k" arbitrary: j)
  case (Suc n)
  then obtain i where j: "j = Suc i" by (cases j) auto
  then have "tab m root (vpath va i) = None" using Suc by auto
  then show ?case by (simp add: j vpath_Suc tab_snoc tab_step_def)
qed simp

lemma walk_loop_read:
  assumes "k \<le> 3" "tab (mem s) root (vpath va k) = Some p"
  shows "pgdir_walk_loop [k..<3] p va False s = Inr (case leaf (mem s) root va of None \<Rightarrow> 0 | Some a \<Rightarrow> a, s)"
  using assms
proof (induction "3 - k" arbitrary: k p)
  case 0
  then show ?case by (simp add: leaf_def kop_simps)
next
  case (Suc n)
  then have k: "k < 3" "[k..<3] = k # [Suc k..<3]" by (simp_all add: upt_conv_Cons)
  let ?e = "read64 (mem s) (pte_at p (PTX k va))"
  have st: "tab (mem s) root (vpath va (Suc k)) = (if ?e AND PTE_P \<noteq> 0 then Some (P2V (PTE_ADDR ?e)) else None)"
    using Suc.prems(2) by (simp add: vpath_Suc tab_snoc tab_step_def)
  show ?case
  proof (cases "?e AND PTE_P = 0")
    case True
    then have "tab (mem s) root (vpath va 3) = None" using tab_None [of "mem s" root va "Suc k" 3] st k(1) by simp
    then show ?thesis using True k(2) by (simp add: kop_simps leaf_def Let_def)
  next
    case False
    then show ?thesis using Suc.hyps st k by (simp add: kop_simps Let_def)
  qed
qed

lemma walk_read: "pgdir_walk root va False s = Inr (case leaf (mem s) root va of None \<Rightarrow> 0 | Some a \<Rightarrow> a, s)"
  using walk_loop_read [of 0 s root va root] by (simp add: pgdir_walk_def vpath_def)

text \<open>What a walk that may allocate leaves: the memory allocator apart, every entry and every table.\<close>

definition mframe :: "'z memstate_scheme \<Rightarrow> 'z memstate_scheme \<Rightarrow> bool" where
  "mframe s t \<longleftrightarrow> t = s\<lparr>mem := mem t, free_list := free_list t\<rparr>"

lemma mframe_refl [simp]: "mframe s s"
  by (simp add: mframe_def)

lemma mframe_trans: "mframe s t \<Longrightarrow> mframe t u \<Longrightarrow> mframe s u"
  by (cases s; cases t; cases u) (auto simp: mframe_def)

lemma mframe_kend: "mframe s t \<Longrightarrow> kend t = kend s"
  by (cases s; cases t) (auto simp: mframe_def)

lemma mframe_linked: "mframe s (linked s p i t)"
  by (simp add: mframe_def linked_def)

definition walked :: "nat \<Rightarrow> u64 \<Rightarrow> u64 \<Rightarrow> 'z memstate_scheme \<Rightarrow> u64 list \<Rightarrow> u64 \<Rightarrow> 'z memstate_scheme \<Rightarrow> bool" where
  "walked c root va s ps a t \<longleftrightarrow> (\<exists>qs. pt_ok t root qs \<and> mframe s t \<and> length ps \<le> length qs + c \<and>
     (\<forall>w. lookup (mem t) root w = lookup (mem s) root w) \<and>
     (if a = 0 then qs = [] else leaf (mem t) root va = Some a))"

lemma linked_lookup:
  assumes ok: "pt_ok s root (t # ps)" and p: "tab (mem s) root is = Some p" "tpath (is @ [i])"
    and old: "read64 (mem s) (pte_at p (of_nat i)) AND PTE_P = 0"
  shows "lookup (mem (linked s p i t)) root w = lookup (mem s) root w"
proof -
  note L = linked_tab [OF ok p old] and D = pt_okD [OF ok]
  have isp: "tpath is" "i < 512" "length is < 3" using p(2) by (simp_all add: tpath_def)
  have pp: "page (kend s) p" "p \<noteq> t" using D(2) [OF isp(1) p(1)] by auto
  note vp = tpath_vpath [of 3 w]
  have x: "(PTX 3 w) = of_nat (unat (PTX 3 w))" by simp
  show ?thesis
  proof (cases "vpath w 3 = is @ [i]")
    case True
    then have "leaf (mem (linked s p i t)) root w = Some (pte_at t (PTX 3 w))" "leaf (mem s) root w = None"
      using L(1) [OF vp] L(3) by (simp_all add: leaf_def)
    moreover have "read64 (mem (linked s p i t)) (pte_at t (PTX 3 w)) = 0"
      using linked_reads(2) [OF D(1) pp isp(2) PTX_512 [of 3 w]] by simp
    ultimately show ?thesis by (simp add: lookup_def)
  next
    case False
    then have t: "tab (mem (linked s p i t)) root (vpath w 3) = tab (mem s) root (vpath w 3)" using L(1) [OF vp] by simp
    show ?thesis
    proof (cases "tab (mem s) root (vpath w 3)")
      case None
      then show ?thesis using t by (simp add: lookup_def leaf_def)
    next
      case (Some q)
      have "length (vpath w 3 @ [unat (PTX 3 w)]) \<noteq> length (is @ [i])" using isp(3) by simp
      then have "vpath w 3 @ [unat (PTX 3 w)] \<noteq> is @ [i]" by metis
      from L(4) [OF vp Some PTX_512 this] show ?thesis using t Some by (simp add: lookup_def leaf_def)
    qed
  qed
qed

lemma walked_mono: "walked c root va s ps a t \<Longrightarrow> c \<le> d \<Longrightarrow> walked d root va s ps a t"
  unfolding walked_def by fastforce

lemma walked_linked:
  assumes "walked c root va (linked s p i t) qs a u" "\<And>w. lookup (mem (linked s p i t)) root w = lookup (mem s) root w"
  shows "walked (Suc c) root va s (t # qs) a u"
  using assms mframe_trans [OF mframe_linked] unfolding walked_def by fastforce

lemma walk_loop_alloc:
  assumes "k \<le> 3" "pt_ok s root ps" "tab (mem s) root (vpath va k) = Some p"
  shows "runs (pgdir_walk_loop [k..<3] p va True) s (walked (3 - k) root va s ps)"
  using assms
proof (induction "3 - k" arbitrary: k p s ps)
  case 0
  then have k: "k = 3" by simp
  have pg: "page (kend s) p" using pt_okD(2) [OF 0(3) tpath_vpath [of 3 va]] 0(4) k by simp
  have "unat (pte_at p (PTX 3 va)) = unat p + 8 * unat (PTX 3 va)" using unat_pte_at [OF pg PTX_512 [of 3 va]] by simp
  then have "pte_at p (PTX 3 va) \<noteq> 0" using pageD(1) [OF pg] by (metis add_eq_0_iff_both_eq_0 unsigned_0 unsigned_eq_0_iff)
  then show ?case using 0 k by (auto simp: leaf_def walked_def intro!: exI [of _ ps])
next
  case (Suc n)
  then have k: "k < 3" "[k..<3] = k # [Suc k..<3]" "n = 3 - Suc k" by (simp_all add: upt_conv_Cons)
  let ?e = "read64 (mem s) (pte_at p (PTX k va))"
  show ?case
  proof (cases "?e AND PTE_P = 0")
    case False
    have "tab (mem s) root (vpath va (Suc k)) = Some (P2V (PTE_ADDR ?e))"
      using Suc.prems(3) False by (simp add: vpath_Suc tab_snoc tab_step_def)
    from Suc.hyps(1) [OF k(3) _ Suc.prems(2) this] k(1)
    have "runs (pgdir_walk_loop [Suc k..<3] (P2V (PTE_ADDR ?e)) va True) s (walked (3 - k) root va s ps)"
      using walked_mono [of "3 - Suc k" root va s ps _ _ "3 - k"] by (auto intro: runs_mono)
    then show ?thesis using False k(2) by (simp add: Let_def)
  next
    case True
    show ?thesis
    proof (cases ps)
      case Nil
      then have "kalloc s = Inr (0, s)" using kalloc_run pt_okD(1) [OF Suc.prems(2)] by fastforce
      then show ?thesis using True k Suc.prems(2) Nil by (auto simp: runs_def kop_simps Let_def walked_def)
    next
      case (Cons t qs)
      have ok: "pt_ok s root (t # qs)" using Suc.prems(2) Cons by simp
      note D = pt_okD [OF ok]
      let ?i = "unat (PTX k va)"
      have t: "page (kend s) t" "t \<noteq> 0" using D(1) pageD(1) by (auto simp: kmem_ok_def)
      have tp: "tpath (vpath va k @ [?i])" using tpath_vpath [of "Suc k" va] k(1) by (simp add: vpath_Suc)
      have old: "read64 (mem s) (pte_at p (of_nat ?i)) AND PTE_P = 0" using True by simp
      note L = linked_tab [OF ok Suc.prems(3) tp old] and lk = linked_lookup [OF ok Suc.prems(3) tp old]
      let ?s = "linked s p ?i t"
      have "tab (mem ?s) root (vpath va (Suc k)) = Some t" using L(1) [OF tp] by (simp add: vpath_Suc)
      from Suc.hyps(1) [OF k(3) _ L(2) this] k(1)
      have IH: "runs (pgdir_walk_loop [Suc k..<3] t va True) ?s (walked (3 - Suc k) root va ?s qs)" by simp
      have sk: "Suc (3 - Suc k) = 3 - k" using k(1) by simp
      have ka: "kalloc s = Inr (t, s\<lparr>free_list := read64 (mem s) t, mem := memset (mem s) t 5 PGSIZE\<rparr>)"
        using kalloc_run [OF D(1)] by simp
      have "pgdir_walk_loop [k..<3] p va True s = pgdir_walk_loop [Suc k..<3] t va True ?s"
        using True t k by (simp add: kop_simps Let_def ka linked_def)
      moreover have "runs (pgdir_walk_loop [Suc k..<3] t va True) ?s (walked (3 - k) root va s ps)"
        using walked_linked [OF _ lk, where c = "3 - Suc k", unfolded sk] by (auto intro: runs_mono [OF IH] simp: Cons)
      ultimately show ?thesis by (simp add: runs_def)
    qed
  qed
qed

lemma walk_alloc:
  assumes "pt_ok s root ps"
  shows "runs (pgdir_walk root va True) s (walked 3 root va s ps)"
  using walk_loop_alloc [of 0 s root ps va root] assms by (simp add: pgdir_walk_def vpath_def)

section \<open>Setting an entry\<close>

text \<open>The number of the page of a virtual address, of which 48 bits count.\<close>

definition vpn :: "u64 \<Rightarrow> nat" where
  "vpn va = unat va div 4096 mod 2 ^ 36"

lemma digits: "x * 512 + d = y * 512 + e \<Longrightarrow> d < 512 \<Longrightarrow> e < 512 \<Longrightarrow> x = y \<and> d = (e :: nat)"
proof -
  assume a: "x * 512 + d = y * 512 + e" "d < 512" "e < 512"
  then have "(x * 512 + d) div 512 = x" "(y * 512 + e) div 512 = y" by simp_all
  then have "x = y" unfolding a(1) by simp
  then show ?thesis using a(1) by simp
qed

lemma vpath_3: "vpath x 3 = [unat (PTX 0 x), unat (PTX 1 x), unat (PTX 2 x)]"
  by (simp add: vpath_def numeral_3_eq_3 numeral_2_eq_2)

lemma vpn_digits: "vpn va = ((unat (PTX 0 va) * 512 + unat (PTX 1 va)) * 512 + unat (PTX 2 va)) * 512 + unat (PTX 3 va)"
proof -
  define n where "n = unat va div 4096"
  have p: "unat (PTX 0 va) = n div 512 div 512 div 512 mod 512" "unat (PTX 1 va) = n div 512 div 512 mod 512"
    "unat (PTX 2 va) = n div 512 mod 512" "unat (PTX 3 va) = n mod 512"
    by (simp_all add: unat_PTX n_def flip: div_mult2_eq)
  have "n mod (512 * (512 * (512 * 512))) = 512 * (512 * (512 * (n div 512 div 512 div 512 mod 512) + n div 512 div 512 mod 512) + n div 512 mod 512) + n mod 512"
    by (simp only: mod_mult2_eq)
  then show ?thesis unfolding vpn_def p n_def [symmetric] by (simp add: mult.commute)
qed

lemma vpath_vpn: "vpath w 3 = vpath v 3 \<and> PTX 3 w = PTX 3 v \<longleftrightarrow> vpn w = vpn v"
proof
  show "vpn w = vpn v" if "vpath w 3 = vpath v 3 \<and> PTX 3 w = PTX 3 v"
    using that unfolding vpn_digits vpath_3 by simp
  assume e: "vpn w = vpn v"
  note l = PTX_512 [of _ w] PTX_512 [of _ v]
  note a = digits [OF e [unfolded vpn_digits] l(1,2)]
  note b = digits [OF a [THEN conjunct1] l(1,2)]
  note c = digits [OF b [THEN conjunct1] l(1,2)]
  show "vpath w 3 = vpath v 3 \<and> PTX 3 w = PTX 3 v"
    using a b c unfolding vpath_3 word_unat_eq_iff by simp
qed

lemma set_entry:
  fixes s :: "'z memstate_scheme" and e :: u64
  assumes ok: "pt_ok s root ps" and a: "leaf (mem s) root va = Some a"
  defines "t \<equiv> s\<lparr>mem := write64 (mem s) a e\<rparr>"
  shows "pt_ok t root ps" "lookup (mem t) root w = (if vpn w = vpn va then e else lookup (mem s) root w)"
proof -
  note D = pt_okD [OF ok]
  obtain p where p: "tab (mem s) root (vpath va 3) = Some p" "a = pte_at p (PTX 3 va)" using a by (auto simp: leaf_def)
  let ?i = "unat (PTX 3 va)"
  have ai: "a = pte_at p (of_nat ?i)" using p(2) by simp
  note tp = tpath_vpath [of 3 va, OF order_refl] and i = PTX_512 [of 3 va]
  have pp: "page (kend s) p" "p \<notin> set ps" using D(2) [OF tp p(1)] by simp_all
  have other: "read64 (mem t) (pte_at q (of_nat j)) = read64 (mem s) (pte_at q (of_nat j))" if "page (kend s) q" "j < 512" "q \<noteq> p \<or> j \<noteq> ?i" for q j
    using pte_apart [OF pp(1) that(1) i that(2)] that pte_bound [OF pp(1) i] pte_bound [OF that(1,2)]
    by (auto simp: t_def ai intro!: read_write64_other)
  have T: "tab (mem t) root js = tab (mem s) root js" if "tpath js" for js
    using that
  proof (induction js rule: rev_induct)
    case (snoc j js)
    have js: "tpath js" "j < 512" "length js < 3" using snoc.prems by (simp_all add: tpath_def)
    show ?case
    proof (cases "tab (mem s) root js")
      case (Some q)
      have "q \<noteq> p" using D(3) [OF js(1) tp Some] p(1) js(3) by (metis length_vpath less_irrefl)
      then show ?thesis using other [of q j] D(2) [OF js(1) Some] js(2) snoc.IH [OF js(1)] Some by (simp add: tab_snoc tab_step_def)
    qed (use snoc.IH [OF js(1)] in \<open>simp add: tab_snoc tab_step_def\<close>)
  qed simp
  have k: "kmem_ok t ps" unfolding t_def ai by (rule kmem_ok_write [OF D(1) pp i])
  then show "pt_ok t root ps" using D(2,3) T by (auto simp: pt_ok_def t_def)
  show "lookup (mem t) root w = (if vpn w = vpn va then e else lookup (mem s) root w)"
  proof (cases "vpn w = vpn va")
    case True
    then have "vpath w 3 = vpath va 3" "PTX 3 w = PTX 3 va" using vpath_vpn by blast+
    then have "leaf (mem t) root w = Some a" using T [OF tp] p by (simp add: leaf_def)
    then show ?thesis using True by (simp add: lookup_def t_def)
  next
    case False
    show ?thesis
    proof (cases "tab (mem s) root (vpath w 3)")
      case None
      then show ?thesis using T [OF tpath_vpath [of 3 w, OF order_refl]] False by (simp add: lookup_def leaf_def)
    next
      case (Some q)
      note tw = tpath_vpath [of 3 w, OF order_refl]
      have "q \<noteq> p \<or> unat (PTX 3 w) \<noteq> ?i" using D(3) [OF tw tp Some] p(1) False vpath_vpn [of w va] by (auto simp: word_unat_eq_iff)
      then show ?thesis using other [of q "unat (PTX 3 w)"] D(2) [OF tw Some] PTX_512 T [OF tw] Some False by (simp add: lookup_def leaf_def)
    qed
  qed
qed

section \<open>Mapping\<close>

definition map_entry :: "u64 \<Rightarrow> u64 \<Rightarrow> u64" where
  "map_entry pa perm = PTE_ADDR pa OR perm OR PTE_P OR PTE_TABLE OR PTE_AF OR PTE_NORMAL"

lemma map_entry_present: "map_entry pa perm AND PTE_P \<noteq> 0"
proof -
  have "bit (map_entry pa perm AND PTE_P) 0" by (simp add: map_entry_def PTE_P_def bit_and_iff bit_or_iff)
  then show ?thesis by (metis bit_0_eq bot_apply bot_bool_def)
qed

text \<open>The code adds no shareability bits of its own.\<close>

lemma map_entry_SH: "map_entry pa perm AND PTE_SH = perm AND PTE_SH"
proof -
  have "(PTE_ADDR pa OR PTE_P OR PTE_TABLE OR PTE_AF OR PTE_NORMAL) AND PTE_SH = 0"
  proof -
    have "NOT 0xFFF AND PTE_SH = 0" "(PTE_P OR PTE_TABLE OR PTE_AF OR PTE_NORMAL) AND PTE_SH = 0"
      by (simp_all add: PTE_SH_def PTE_P_def PTE_TABLE_def PTE_AF_def PTE_NORMAL_def MT_NORMAL_def)
    then show ?thesis by (simp add: PTE_ADDR_def bit.conj_disj_distrib2 and.assoc)
  qed
  moreover have "map_entry pa perm AND PTE_SH =
      (perm AND PTE_SH) OR ((PTE_ADDR pa OR PTE_P OR PTE_TABLE OR PTE_AF OR PTE_NORMAL) AND PTE_SH)"
    by (rule bit_word_eqI) (auto simp: map_entry_def bit_and_iff bit_or_iff)
  ultimately show ?thesis by simp
qed

text \<open>The entries when the \<open>j\<close> pages from page \<open>lo\<close> on are mapped to the frames from \<open>pa\<close> on.\<close>

definition mapping :: "(u64 \<Rightarrow> u64) \<Rightarrow> nat \<Rightarrow> nat \<Rightarrow> u64 \<Rightarrow> u64 \<Rightarrow> u64 \<Rightarrow> u64" where
  "mapping f lo j pa perm w = (if lo \<le> vpn w \<and> vpn w < lo + j then map_entry (pa + of_nat (vpn w - lo) * PGSIZE) perm else f w)"

lemma mapping_SH: "lo \<le> vpn w \<Longrightarrow> vpn w < lo + j \<Longrightarrow> mapping f lo j pa perm w AND PTE_SH = perm AND PTE_SH"
  by (simp add: mapping_def map_entry_SH)

lemma mapping_0 [simp]: "mapping f lo 0 pa perm = f"
  by (auto simp: mapping_def fun_eq_iff)

lemma mapping_Suc:
  assumes "\<And>w. g w = (if vpn w = lo then map_entry pa perm else f w)"
  shows "mapping g (Suc lo) j (pa + PGSIZE) perm = mapping f lo (Suc j) pa perm"
proof
  fix w
  show "mapping g (Suc lo) j (pa + PGSIZE) perm w = mapping f lo (Suc j) pa perm w"
  proof (cases "Suc lo \<le> vpn w \<and> vpn w < Suc lo + j")
    case True
    then obtain d where "vpn w = Suc lo + d" using le_Suc_ex by blast
    then show ?thesis using True by (simp add: mapping_def distrib_right add.assoc)
  next
    case False
    then show ?thesis using assms [of w] by (auto simp: mapping_def)
  qed
qed

lemma map_region_loop_run:
  assumes "pt_ok s root ps" "k < fuel" "unat lst = unat a + 4096 * k" "unat a mod 4096 = 0" "unat lst < 2 ^ 48"
    and "\<And>w. vpn a \<le> vpn w \<Longrightarrow> vpn w \<le> vpn a + k \<Longrightarrow> lookup (mem s) root w AND PTE_P = 0"
  shows "runs (map_region_loop fuel root a lst pa perm) s (\<lambda>r t. \<exists>qs j. pt_ok t root qs \<and> mframe s t \<and>
     (\<forall>w. lookup (mem t) root w = mapping (lookup (mem s) root) (vpn a) j pa perm w) \<and>
     (if r = 0 then j = Suc k else r = -1 \<and> qs = [] \<and> j \<le> k))"
  using assms
proof (induction fuel arbitrary: s ps a pa k)
  case (Suc fuel)
  show ?case
    unfolding map_region_loop.simps
  proof (rule runs_bind [OF walk_alloc [OF Suc.prems(1)]])
    fix p t assume "walked 3 root a s ps p t"
    then obtain qs where W: "pt_ok t root qs" "mframe s t" "\<And>w. lookup (mem t) root w = lookup (mem s) root w"
      "if p = 0 then qs = [] else leaf (mem t) root a = Some p" by (auto simp: walked_def)
    show "runs (if p = 0 then ret (-1) else bind (read_pte p) (\<lambda>e. if e AND PTE_P \<noteq> 0 then panic ''remap''
        else seq (write_pte p (PTE_ADDR pa OR perm OR PTE_P OR PTE_TABLE OR PTE_AF OR PTE_NORMAL))
       (if a = lst then ret 0 else map_region_loop fuel root (a + PGSIZE) lst (pa + PGSIZE) perm))) t
      (\<lambda>r t. \<exists>qs j. pt_ok t root qs \<and> mframe s t \<and> (\<forall>w. lookup (mem t) root w = mapping (lookup (mem s) root) (vpn a) j pa perm w) \<and>
        (if r = 0 then j = Suc k else r = -1 \<and> qs = [] \<and> j \<le> k))"
    proof (cases "p = 0")
      case True
      then show ?thesis using W by (auto intro!: exI [of _ qs] exI [of _ 0])
    next
      case False
      then have lf: "leaf (mem t) root a = Some p" using W(4) by simp
      have "read64 (mem t) p = lookup (mem t) root a" using lf by (simp add: lookup_def)
      then have e: "read64 (mem t) p AND PTE_P = 0" using W(3) Suc.prems(6) [of a] by simp
      let ?u = "t\<lparr>mem := write64 (mem t) p (map_entry pa perm)\<rparr>"
      note S = set_entry [OF W(1) lf, of "map_entry pa perm"]
      have fr: "mframe s ?u" using W(2) by (cases s; cases t) (auto simp: mframe_def)
      have lk: "lookup (mem ?u) root w = (if vpn w = vpn a then map_entry pa perm else lookup (mem s) root w)" for w using S(2) W(3) by simp
      show ?thesis
      proof (cases k)
        case 0
        then have "a = lst" using Suc.prems(3) by (simp add: word_unat_eq_iff)
        moreover have "lookup (mem ?u) root w = mapping (lookup (mem s) root) (vpn a) (Suc 0) pa perm w" for w
          using lk [of w] by (auto simp: mapping_def)
        ultimately show ?thesis using False e S(1) fr 0
          by (auto simp: read_pte_def write_pte_def map_entry_def [symmetric] intro!: exI [of _ qs] exI [of _ "Suc 0"])
      next
        case (Suc k')
        have ne: "a \<noteq> lst" using Suc.prems(3) Suc by auto
        have up: "unat (a + PGSIZE) = unat a + 4096"
          using Suc.prems(3,5) Suc by (subst unat_add64) (simp_all add: PGSIZE_def)
        have vs: "vpn (a + PGSIZE) = Suc (vpn a)"
        proof -
          have "(unat a + 4096) div 4096 = Suc (unat a div 4096)" by simp
          moreover have "Suc (unat a div 4096) < 2 ^ 36" using Suc.prems(3,5) Suc by simp
          ultimately show ?thesis by (simp add: vpn_def up)
        qed
        have "runs (map_region_loop fuel root (a + PGSIZE) lst (pa + PGSIZE) perm) ?u (\<lambda>r t. \<exists>qs j. pt_ok t root qs \<and> mframe ?u t \<and>
           (\<forall>w. lookup (mem t) root w = mapping (lookup (mem ?u) root) (vpn (a + PGSIZE)) j (pa + PGSIZE) perm w) \<and>
           (if r = 0 then j = Suc k' else r = -1 \<and> qs = [] \<and> j \<le> k'))"
        proof (rule Suc.IH [OF S(1)])
          show "k' < fuel" "unat lst = unat (a + PGSIZE) + 4096 * k'" "unat (a + PGSIZE) mod 4096 = 0" "unat lst < 2 ^ 48"
            using Suc.prems(2-5) Suc up by simp_all
          show "lookup (mem ?u) root w AND PTE_P = 0" if "vpn (a + PGSIZE) \<le> vpn w" "vpn w \<le> vpn (a + PGSIZE) + k'" for w
            using that Suc.prems(6) [of w] lk [of w] Suc by (simp add: vs)
        qed
        then have "runs (map_region_loop fuel root (a + PGSIZE) lst (pa + PGSIZE) perm) ?u (\<lambda>r t. \<exists>qs j. pt_ok t root qs \<and> mframe s t \<and>
           (\<forall>w. lookup (mem t) root w = mapping (lookup (mem s) root) (vpn a) j pa perm w) \<and>
           (if r = 0 then j = Suc k else r = -1 \<and> qs = [] \<and> j \<le> k))"
        proof (rule runs_mono, elim exE conjE)
          fix r v rs j
          assume h: "pt_ok v root rs" "mframe ?u v"
            "\<forall>w. lookup (mem v) root w = mapping (lookup (mem ?u) root) (vpn (a + PGSIZE)) j (pa + PGSIZE) perm w"
            "if r = 0 then j = Suc k' else r = -1 \<and> rs = [] \<and> j \<le> k'"
          have "lookup (mem v) root w = mapping (lookup (mem s) root) (vpn a) (Suc j) pa perm w" for w
            using h(3) mapping_Suc [OF lk, of j] by (simp add: vs)
          then show "\<exists>qs j. pt_ok v root qs \<and> mframe s v \<and> (\<forall>w. lookup (mem v) root w = mapping (lookup (mem s) root) (vpn a) j pa perm w) \<and>
             (if r = 0 then j = Suc k else r = -1 \<and> qs = [] \<and> j \<le> k)"
            using h(1,4) mframe_trans [OF fr h(2)] Suc by (intro exI [of _ rs] exI [of _ "Suc j"]) (auto split: if_splits)
        qed
        then show ?thesis using False e ne by (simp add: read_pte_def write_pte_def map_entry_def [symmetric])
      qed
    qed
  qed
qed simp

section \<open>A new address space\<close>

lemma tab_empty:
  assumes "\<And>i. i < 512 \<Longrightarrow> read64 m (pte_at root (of_nat i)) = 0" "tpath js" "js \<noteq> []"
  shows "tab m root js = None"
  using assms(2,3)
proof (induction js rule: rev_induct)
  case (snoc j js)
  then have "tpath js" "j < 512" by (auto simp: tpath_def)
  then show ?case using snoc.IH assms(1) by (cases "js = []") (simp_all add: tab_snoc tab_step_def tab_def [of m root "[j]"])
qed simp

lemma pgdir_init_run:
  assumes "kmem_ok s (root # ps)"
  shows "\<exists>t. pgdir_init s = Inr (root, t) \<and> pt_ok t root ps \<and> mframe s t \<and> (\<forall>w. leaf (mem t) root w = None \<and> lookup (mem t) root w = 0)"
proof -
  let ?t = "s\<lparr>free_list := read64 (mem s) root, mem := memset (memset (mem s) root 5 PGSIZE) root 0 PGSIZE\<rparr>"
  have r: "page (kend s) root" "root \<notin> set ps" "root \<noteq> 0" using assms pageD(1) by (auto simp: kmem_ok_def)
  have z: "read64 (mem ?t) (pte_at root (of_nat i)) = 0" if "i < 512" for i
    using pageD(2) [OF r(1)] that by (auto intro!: read64_memset_zero simp: unat_pte_at [OF r(1) that])
  have T: "tab (mem ?t) root js = (if js = [] then Some root else None)" if "tpath js" for js
    using tab_empty [OF z that] by simp
  have "kmem_ok ?t ps" using kmem_ok_memset [OF kalloc_ok [OF assms], of root 0] r by simp
  then have "pt_ok ?t root ps" using r T by (auto simp: pt_ok_def split: if_splits)
  moreover have "leaf (mem ?t) root w = None \<and> lookup (mem ?t) root w = 0" for w using T [OF tpath_vpath [of 3 w, OF order_refl]] length_vpath [of w 3]
    by (auto simp: lookup_def leaf_def simp del: length_vpath)
  moreover have "pgdir_init s = Inr (root, ?t)" using kalloc_run [OF assms] r by (simp add: pgdir_init_def kop_simps)
  ultimately show ?thesis by (auto simp: mframe_def)
qed

text \<open>
  \<open>pgdir_init\<close> takes a free page and makes it an address space in which nothing is mapped.
\<close>

theorem pgdir_init_empty:
  assumes "kmem_ok s (root # ps)"
  shows "\<exists>t. pgdir_init s = Inr (root, t) \<and> pt_ok t root ps \<and> mframe s t \<and> (\<forall>w. leaf (mem t) root w = None \<and> lookup (mem t) root w = 0)"
  by (rule pgdir_init_run [OF assms])

section \<open>Properties of the mapping\<close>

text \<open>
  C27. Mapping a region sets the entries of exactly its pages, to consecutive frames with the given
  permissions, and leaves every other entry as it was. When the memory runs out it returns \<open>-1\<close> with
  the first pages mapped. The tables stay a tree of pages apart from each other and from the free ones.
  The comment above the routine also asks for the bits \<open>PTE_SH\<close> in every entry; the code does not set
  them: the entries have the shareability bits of \<open>perm\<close>, which are zero in every call of the kernel.
\<close>

theorem map_region_correct:
  assumes "pt_ok s root ps" "0 < sz" "unat va + unat sz \<le> 2 ^ 47"
  defines "n \<equiv> (unat va + unat sz - 1) div 4096 - unat va div 4096"
  assumes "\<forall>w. vpn va \<le> vpn w \<longrightarrow> vpn w \<le> vpn va + n \<longrightarrow> lookup (mem s) root w AND PTE_P = 0"
  shows "runs (map_region root va sz pa perm) s (\<lambda>r t. \<exists>qs j. pt_ok t root qs \<and> mframe s t \<and>
     (\<forall>w. lookup (mem t) root w = mapping (lookup (mem s) root) (vpn va) j pa perm w) \<and>
     (\<forall>w. vpn va \<le> vpn w \<and> vpn w < vpn va + j \<longrightarrow> lookup (mem t) root w AND PTE_SH = perm AND PTE_SH) \<and>
     (if r = 0 then j = n + 1 else r = -1 \<and> qs = [] \<and> j \<le> n))"
proof -
  let ?a = "ROUNDDOWN va PGSIZE" and ?l = "ROUNDDOWN (va + sz - 1) PGSIZE"
  have P: "unat PGSIZE = 4096" by (simp add: PGSIZE_def)
  have sz: "0 < unat sz" using assms(2) by (simp add: word_less_nat_alt)
  have "unat (va + sz) = unat va + unat sz" using assms(3) by (intro unat_add64) simp
  then have e: "unat (va + sz - 1) = unat va + unat sz - 1" using sz by (simp add: unat_sub_if')
  have ua: "unat ?a = unat va div 4096 * 4096" and ul: "unat ?l = (unat va + unat sz - 1) div 4096 * 4096"
    by (simp_all add: unat_ROUNDDOWN P e)
  have le: "unat va div 4096 \<le> (unat va + unat sz - 1) div 4096" using sz by (intro div_le_mono) simp
  then have l: "unat ?l = unat ?a + 4096 * n" unfolding ul ua n_def by (simp add: diff_mult_distrib2 mult.commute)
  have "unat (?l - ?a) = 4096 * n" using l by (simp add: unat_sub_if')
  then have k: "n < Suc (unat (?l - ?a) div unat PGSIZE)" by (simp add: P)
  have b: "unat ?l < 2 ^ 48"
  proof -
    have "unat ?l \<le> unat va + unat sz - 1" unfolding ul by simp
    then show ?thesis using assms(3) sz by simp
  qed
  have v: "vpn ?a = vpn va" by (simp add: vpn_def ua)
  have am: "unat ?a mod 4096 = 0" by (simp add: ua)
  have "lookup (mem s) root w AND PTE_P = 0" if "vpn ?a \<le> vpn w" "vpn w \<le> vpn ?a + n" for w using assms(5) that v by simp
  note R = map_region_loop_run [OF assms(1) k l am b this, of pa perm]
  show ?thesis
    unfolding map_region_def Let_def
    by (rule runs_mono [OF R], assumption, assumption, elim ex_forward) (simp add: v mapping_SH)
qed

text \<open>
  C29. \<open>uva2ka\<close> translates a user address: to the kernel address of its frame when the page is mapped
  for the user, to null when it is mapped otherwise; without a last-level table it reads through a null
  pointer.
\<close>

theorem uva2ka_correct:
  assumes "pt_ok s root ps"
  shows "uva2ka root va s = (if leaf (mem s) root va = None then Inl Fault
    else let e = lookup (mem s) root va in Inr (if e AND PTE_P \<noteq> 0 \<and> e AND PTE_USER \<noteq> 0 then P2V (PTE_ADDR e) else 0, s))"
proof (cases "leaf (mem s) root va")
  case None
  then show ?thesis by (simp add: uva2ka_def kop_simps walk_read read_pte_def)
next
  case (Some a)
  then obtain p where p: "tab (mem s) root (vpath va 3) = Some p" "a = pte_at p (of_nat (unat (PTX 3 va)))" by (auto simp: leaf_def)
  have pg: "page (kend s) p" using pt_okD(2) [OF assms tpath_vpath [of 3 va, OF order_refl] p(1)] by simp
  have "unat a = unat p + 8 * unat (PTX 3 va)" unfolding p(2) by (rule unat_pte_at [OF pg PTX_512])
  then have "a \<noteq> 0" using pageD(1) [OF pg] by (metis add_eq_0_iff_both_eq_0 unsigned_0 unsigned_eq_0_iff)
  then show ?thesis using Some by (simp add: uva2ka_def kop_simps walk_read read_pte_def lookup_def)
qed

lemma demo_space:
  "\<exists>root ps (t :: memstate). pgdir_init demo_kmem = Inr (root, t) \<and> pt_ok t root ps \<and> (\<forall>w. leaf (mem t) root w = None \<and> lookup (mem t) root w = 0)"
proof -
  obtain ps where ps: "kmem_ok demo_kmem ps" "2 \<le> length ps" using demo_kmem by blast
  then obtain root qs where "ps = root # qs" by (cases ps) auto
  then show ?thesis using pgdir_init_run [of demo_kmem root qs] ps(1) by auto
qed

theorem pgdir_init_empty_witness: "\<exists>root t. pgdir_init demo_kmem = Inr (root, t) \<and> lookup (mem t) root 0 = 0"
proof -
  obtain ps where ps: "kmem_ok demo_kmem ps" "2 \<le> length ps" using demo_kmem by blast
  then obtain root qs where "ps = root # qs" by (cases ps) auto
  then show ?thesis using pgdir_init_empty [of demo_kmem root qs] ps(1) by auto
qed

theorem map_region_correct_witness:
  "\<exists>root (t :: memstate) r u. map_region root 0x1004 0x1000 0x80000 PTE_USER t = Inr (r, u) \<and> (r = 0 \<longrightarrow> lookup (mem u) root 0x2000 = map_entry 0x81000 PTE_USER)"
proof -
  obtain root ps and t :: memstate where t: "pt_ok t root ps" "\<And>w. lookup (mem t) root w = 0" using demo_space by blast
  have "runs (map_region root 0x1004 0x1000 0x80000 PTE_USER) t (\<lambda>r u. r = 0 \<longrightarrow> lookup (mem u) root 0x2000 = map_entry 0x81000 PTE_USER)"
    by (rule runs_mono [OF map_region_correct [OF t(1)]]) (auto simp: t(2) mapping_def vpn_def PGSIZE_def)
  then show ?thesis by (auto simp: runs_def)
qed

theorem uva2ka_correct_witness: "\<exists>root (t :: memstate). uva2ka root 0x1000 t = Inl Fault"
proof -
  obtain root ps and t :: memstate where t: "pt_ok t root ps" "leaf (mem t) root 0x1000 = None" using demo_space by blast
  then show ?thesis using uva2ka_correct [OF t(1), of "0x1000"] by auto
qed

end
