(* ===== verification/File.thy ===== *)
theory File
  imports Vm
begin

text \<open>
  Open files, \<open>kern/file.c\<close>, and the kernel's accesses to the memory of the current process that the
  file system calls make. The state adds the table of open files; a file pointer is an index into
  it. \<open>fileread\<close> and \<open>filewrite\<close> pass the caller's address on to \<open>readi\<close> and \<open>writei\<close>, which access it
  byte by byte: a byte that is not mapped, or not writable on a write, faults.
\<close>

unbundle bit_operations_syntax

section \<open>Memory of the current process\<close>

text \<open>
  The translation of the processor for 4 KB pages and four levels: addresses from \<open>KERNBASE\<close> up are
  the kernel's, the others go through the tables of \<open>TTBR0_EL1\<close>. The result is the kernel address
  of the byte.
\<close>

fun table_walk :: "mem \<Rightarrow> nat list \<Rightarrow> u64 \<Rightarrow> u64 \<Rightarrow> u64 option" where
  "table_walk m [] t va = Some (read64 m (pte_at t (PTX 3 va)))"
| "table_walk m (level # levels) t va =
     (let e = read64 m (pte_at t (PTX level va)) in
      if e AND PTE_P = 0 then None else table_walk m levels (P2V (PTE_ADDR e)) va)"

definition translate :: "'z memstate_scheme \<Rightarrow> bool \<Rightarrow> u64 \<Rightarrow> u64 option" where
  "translate s wr va =
     (if va \<ge> KERNBASE then Some va
      else if va \<ge> 0x1000000000000 then None
      else case table_walk (mem s) [0..<3] (P2V (ttbr0 s (this_cpu s))) va of
        None \<Rightarrow> None
      | Some e \<Rightarrow>
          if e AND PTE_P = 0 \<or> wr \<and> e AND PTE_RO \<noteq> 0 then None
          else Some (P2V (PTE_ADDR e) + va mod PGSIZE))"

text \<open>The bytes from \<open>va\<close> up to the first one that cannot be read, at most \<open>n\<close>.\<close>

fun user_bytes :: "'z memstate_scheme \<Rightarrow> u64 \<Rightarrow> nat \<Rightarrow> byte list" where
  "user_bytes s va 0 = []"
| "user_bytes s va (Suc n) =
     (case translate s False va of None \<Rightarrow> [] | Some ka \<Rightarrow> mem s ka # user_bytes s (va + 1) n)"

definition load_user :: "u64 \<Rightarrow> nat \<Rightarrow> ('z memstate_scheme, byte list) kop" where
  "load_user va n =
     bind (get (\<lambda>s. user_bytes s va n)) (\<lambda>bs. if length bs < n then stop Fault else ret bs)"

fun store_user :: "u64 \<Rightarrow> byte list \<Rightarrow> ('z memstate_scheme, unit) kop" where
  "store_user va [] = ret ()"
| "store_user va (b # bs) =
     bind (get (\<lambda>s. translate s True va)) (\<lambda>r.
     case r of
       None \<Rightarrow> stop Fault
     | Some ka \<Rightarrow> seq (set_mem (\<lambda>m. m(ka := b))) (store_user (va + 1) bs))"

section \<open>The table of open files\<close>

definition NFILE :: nat where "NFILE = 100"

declare NFILE_def [const_defs]

datatype filetype = FD_NONE | FD_PIPE | FD_INODE

record file_t =
  f_type :: filetype
  f_ref :: int
  f_readable :: bool
  f_writable :: bool
  f_ip :: "nat option"
  f_off :: u64

record filestate = memstate +
  ftable :: "nat \<Rightarrow> file_t"

definition set_file :: "nat \<Rightarrow> (file_t \<Rightarrow> file_t) \<Rightarrow> ('z filestate_scheme, unit) kop" where
  "set_file f g = upd (\<lambda>s. s\<lparr>ftable := (ftable s)(f := g (ftable s f))\<rparr>)"

abbreviation file_of :: "nat \<Rightarrow> ('z filestate_scheme, file_t) kop" where
  "file_of f \<equiv> get (\<lambda>s. ftable s f)"

lemma set_file_run [kop_simps]:
  "set_file f g s = Inr ((), s\<lparr>ftable := (ftable s)(f := g (ftable s f))\<rparr>)"
  by (simp add: set_file_def kop_simps)

definition fileinit :: "('z filestate_scheme, unit) kop" where
  "fileinit = initlock Lftable ''ftable''"

definition filealloc :: "('z filestate_scheme, nat option) kop" where
  "filealloc =
     seq (acquire Lftable)
     (bind (get (\<lambda>s. List.find (\<lambda>f. f_ref (ftable s f) = 0) [0..<NFILE])) (\<lambda>r.
      case r of
        Some f \<Rightarrow>
          seq (set_file f (\<lambda>x. x\<lparr>f_ref := 1\<rparr>))
          (seq (release Lftable) (ret (Some f)))
      | None \<Rightarrow> seq (release Lftable) (ret None)))"

definition filedup :: "nat \<Rightarrow> ('z filestate_scheme, nat) kop" where
  "filedup f =
     seq (acquire Lftable)
     (bind (file_of f) (\<lambda>x.
      if f_ref x < 1 then panic ''filedup''
      else seq (set_file f (\<lambda>x. x\<lparr>f_ref := f_ref x + 1\<rparr>))
           (seq (release Lftable) (ret f))))"

definition fileclose :: "nat \<Rightarrow> ('z filestate_scheme, unit) kop" where
  "fileclose f =
     seq (acquire Lftable)
     (bind (file_of f) (\<lambda>x.
      if f_ref x < 1 then panic ''fileclose: invalid ref''
      else seq (set_file f (\<lambda>x. x\<lparr>f_ref := f_ref x - 1\<rparr>))
      (bind (file_of f) (\<lambda>ff.
      if f_ref ff > 0 then release Lftable
      else seq (set_file f (\<lambda>x. x\<lparr>f_ref := 0, f_type := FD_NONE\<rparr>))
      (seq (release Lftable)
      (case f_type ff of
         FD_PIPE \<Rightarrow> panic ''fileclose: pipe''
       | FD_INODE \<Rightarrow> seq begin_op (seq (deref (f_ip ff) iput) end_op)
       | FD_NONE \<Rightarrow> ret ()))))))"

text \<open>
  \<open>struct stat\<close> belongs to the C library: \<open>lay st\<close> lists the stores that \<open>stati\<close> makes for the values
  \<open>st\<close>, as offsets into the structure and bytes.
\<close>

type_synonym stat_layout = "stat \<Rightarrow> (nat \<times> byte list) list"

fun store_fields :: "u64 \<Rightarrow> (nat \<times> byte list) list \<Rightarrow> ('z memstate_scheme, unit) kop" where
  "store_fields va [] = ret ()"
| "store_fields va ((k, bs) # fs) = seq (store_user (va + of_nat k) bs) (store_fields va fs)"

definition stati_user :: "stat_layout \<Rightarrow> nat \<Rightarrow> u64 \<Rightarrow> ('z memstate_scheme, unit) kop" where
  "stati_user lay ip va = bind (stati ip) (\<lambda>st. store_fields va (lay st))"

definition filestat :: "stat_layout \<Rightarrow> nat \<Rightarrow> u64 \<Rightarrow> ('z filestate_scheme, int) kop" where
  "filestat lay f va =
     bind (file_of f) (\<lambda>x.
     if f_type x = FD_INODE then
       seq (ilock (f_ip x))
       (seq (deref (f_ip x) (\<lambda>ip. stati_user lay ip va))
       (seq (iunlock (f_ip x))
       (ret 0)))
     else ret (-1))"

text \<open>The value of a 64-bit result stored in an \<open>int\<close>.\<close>

definition to_int :: "int \<Rightarrow> int" where
  "to_int r = sint (word_of_int r :: u32)"

text \<open>\<open>readi\<close> and \<open>writei\<close> on the caller's memory; \<open>writei\<close> may take any byte it can reach.\<close>

definition readi_user :: "(nat \<Rightarrow> 'z memstate_scheme devsw) \<Rightarrow> nat \<Rightarrow> u64 \<Rightarrow> u64 \<Rightarrow> u64 \<Rightarrow> ('z memstate_scheme, int) kop" where
  "readi_user dsw ip va off n =
     bind (readi dsw ip off n) (\<lambda>(r, bs). seq (store_user va bs) (ret r))"

definition writei_user :: "(nat \<Rightarrow> 'z memstate_scheme devsw) \<Rightarrow> nat \<Rightarrow> u64 \<Rightarrow> u64 \<Rightarrow> u64 \<Rightarrow> ('z memstate_scheme, int) kop" where
  "writei_user dsw ip va off n =
     bind (get (\<lambda>s. user_bytes s va (unat n))) (\<lambda>bs. writei dsw ip bs off n)"

definition fileread :: "(nat \<Rightarrow> 'z filestate_scheme devsw) \<Rightarrow> nat \<Rightarrow> u64 \<Rightarrow> u64 \<Rightarrow> ('z filestate_scheme, int) kop" where
  "fileread dsw f va n =
     bind (file_of f) (\<lambda>x.
     if \<not> f_readable x then ret (-1)
     else case f_type x of
       FD_PIPE \<Rightarrow> panic ''fileread: pipe''
     | FD_INODE \<Rightarrow>
         seq (ilock (f_ip x))
         (deref (f_ip x) (\<lambda>ip.
          bind (file_of f) (\<lambda>x.
          bind (readi_user dsw ip va (f_off x) n) (\<lambda>r.
          seq (if to_int r > 0 then set_file f (\<lambda>x. x\<lparr>f_off := f_off x + word_of_int (to_int r)\<rparr>) else ret ())
          (seq (iunlock (Some ip))
          (ret (to_int r)))))))
     | FD_NONE \<Rightarrow> panic ''fileread'')"

text \<open>
  One transaction of \<open>filewrite\<close>: up to \<open>n1\<close> bytes at the file's offset. The loop writes at most
  \<open>max\<close> bytes per transaction; \<open>i\<close> and \<open>n1\<close> are of type \<open>int\<close>. Each round that is not the last makes
  progress, except when \<open>n1\<close> is 0 because \<open>n - i\<close> does not fit its 32 bits: then the loop never ends.
\<close>

definition write_max :: int where
  "write_max = ((int MAXOPBLOCKS - 1 - 1 - 2) div 2) * 512"

definition filewrite_chunk :: "(nat \<Rightarrow> 'z filestate_scheme devsw) \<Rightarrow> nat \<Rightarrow> u64 \<Rightarrow> int \<Rightarrow> ('z filestate_scheme, int) kop" where
  "filewrite_chunk dsw f va n1 =
     seq begin_op
     (bind (file_of f) (\<lambda>x.
     seq (ilock (f_ip x))
     (deref (f_ip x) (\<lambda>ip.
      bind (file_of f) (\<lambda>x.
      bind (writei_user dsw ip va (f_off x) (word_of_int n1)) (\<lambda>r.
      seq (if to_int r > 0 then set_file f (\<lambda>x. x\<lparr>f_off := f_off x + word_of_int (to_int r)\<rparr>) else ret ())
      (seq (iunlock (Some ip))
      (seq end_op
      (ret (to_int r))))))))))"

fun filewrite_loop :: "nat \<Rightarrow> (nat \<Rightarrow> 'z filestate_scheme devsw) \<Rightarrow> nat \<Rightarrow> u64 \<Rightarrow> int \<Rightarrow> int \<Rightarrow> ('z filestate_scheme, int) kop" where
  "filewrite_loop 0 dsw f va n i = stop Diverge"
| "filewrite_loop (Suc fuel) dsw f va n i =
     (if \<not> i < n then ret i
      else let n1 = to_int (n - i); n1 = (if n1 > write_max then write_max else n1) in
        bind (filewrite_chunk dsw f (va + word_of_int i) n1) (\<lambda>r.
        if r < 0 then ret i
        else if r \<noteq> n1 then panic ''filewrite: short filewrite''
        else filewrite_loop fuel dsw f va n (i + r)))"

definition filewrite :: "(nat \<Rightarrow> 'z filestate_scheme devsw) \<Rightarrow> nat \<Rightarrow> u64 \<Rightarrow> u64 \<Rightarrow> ('z filestate_scheme, int) kop" where
  "filewrite dsw f va n =
     bind (file_of f) (\<lambda>x.
     if \<not> f_writable x then ret (-1)
     else case f_type x of
       FD_PIPE \<Rightarrow> panic ''filewrite: pipe''
     | FD_INODE \<Rightarrow>
         bind (filewrite_loop (Suc (nat (sint n))) dsw f va (sint n) 0) (\<lambda>i.
         ret (if i = sint n then sint n else -1))
     | FD_NONE \<Rightarrow> panic ''filewrite'')"

declare filewrite_loop.simps [simp del]

end
