(* ===== verification/Sysarg.thy ===== *)
theory Sysarg
  imports File
begin

text \<open>
  Fetching the arguments of a system call, \<open>kern/syscall.c\<close>. The trap frame lies in memory at the
  address \<open>tf\<close> of the process: 16 bytes of \<open>q0\<close>, five words, then \<open>r0\<close> to \<open>r30\<close>. A result of -1 with
  an out-parameter is the value \<open>None\<close>.
\<close>

definition myproc :: "(nat \<Rightarrow> ('z kstate_scheme, 'a) kop) \<Rightarrow> ('z kstate_scheme, 'a) kop" where
  "myproc f = bind (get thisproc) (\<lambda>p. deref p f)"

lemma myproc_run [kop_simps]: "thisproc s = Some p \<Longrightarrow> myproc f s = f p s"
  by (simp add: myproc_def kop_simps)

text \<open>Words of the trap frame: \<open>tf_reg n\<close> is the offset of \<open>rn\<close>.\<close>

definition tf_elr :: u64 where "tf_elr = 32"
definition tf_spsr :: u64 where "tf_spsr = 40"
definition tf_sp :: u64 where "tf_sp = 48"
definition tf_reg :: "nat \<Rightarrow> u64" where "tf_reg n = 56 + 8 * of_nat n"
definition TF_SIZE :: nat where "TF_SIZE = 304"

definition load_word :: "u64 \<Rightarrow> ('z memstate_scheme, u64) kop" where
  "load_word va = bind (load_user va 8) (\<lambda>bs. ret (le_word bs))"

definition fetchint :: "u64 \<Rightarrow> ('z memstate_scheme, u64 option) kop" where
  "fetchint addr = myproc (\<lambda>p.
     bind (get (\<lambda>s. p_sz (ptable s p))) (\<lambda>sz.
     if addr \<ge> sz \<or> addr + 8 > sz then ret None
     else bind (load_word addr) (\<lambda>w. ret (Some w))))"

text \<open>
  \<open>fetchstr\<close> returns the length and, for the pointer it sets, the characters it points at, up to and
  with the terminating one: the process cannot change them while the call runs.
\<close>

function fetchstr_loop :: "u64 \<Rightarrow> u64 \<Rightarrow> byte list \<Rightarrow> ('z memstate_scheme, byte list option) kop" where
  "fetchstr_loop p ep acc =
     (if p < ep then
        bind (load_user p 1) (\<lambda>bs.
        if bs ! 0 = 0 then ret (Some (acc @ bs)) else fetchstr_loop (p + 1) ep (acc @ bs))
      else ret None)"
  by pat_completeness auto
termination
proof (relation "measure (\<lambda>(p, ep, acc). unat ep - unat p)", goal_cases)
  case (2 p ep acc bs)
  then have l: "unat p < unat ep" by (simp add: word_less_nat_alt)
  then have "unat p + unat (1 :: u64) < 2 ^ 64" using unat_less_64 [of ep] by simp
  then have "unat (p + 1) = unat p + 1" by (subst unat_add64) simp_all
  with l show ?case by simp
qed simp

declare fetchstr_loop.simps [simp del]

definition fetchstr :: "u64 \<Rightarrow> ('z memstate_scheme, int \<times> byte list) kop" where
  "fetchstr addr = myproc (\<lambda>p.
     bind (get (\<lambda>s. p_sz (ptable s p))) (\<lambda>sz.
     if addr \<ge> sz then ret (-1, [])
     else bind (fetchstr_loop addr sz []) (\<lambda>r.
       case r of
         None \<Rightarrow> ret (-1, [])
       | Some bs \<Rightarrow> ret (to_int (int (length bs - 1)), bs))))"

definition argint :: "nat \<Rightarrow> ('z memstate_scheme, u64) kop" where
  "argint n =
     (if n > 3 then panic ''argint: too many system call parameters''
      else myproc (\<lambda>p. get (\<lambda>s. read64 (mem s) (p_tf (ptable s p) + tf_reg n))))"

definition argptr :: "nat \<Rightarrow> u32 \<Rightarrow> ('z memstate_scheme, u64 option) kop" where
  "argptr n len =
     bind (argint n) (\<lambda>i.
     myproc (\<lambda>p.
     bind (get (\<lambda>s. p_sz (ptable s p))) (\<lambda>sz.
     if i \<ge> sz \<or> i + scast len > sz then ret None else ret (Some i))))"

definition argstr :: "nat \<Rightarrow> ('z memstate_scheme, int \<times> byte list) kop" where
  "argstr n = bind (argint n) fetchstr"

end
