(* ===== verification/Sysfile.thy ===== *)
theory Sysfile
  imports Sysarg
begin

text \<open>
  The system calls on files, \<open>kern/sysfile.c\<close>. Flags, sizes and constants of the C library's headers
  are the fields of \<open>libc\<close>, an argument of the calls that use them. Messages printed by \<open>cprintf\<close>
  are left out. The results are those of the routines; \<open>syscall1\<close> stores them in \<open>r0\<close>.
\<close>

unbundle bit_operations_syntax

record libc =
  AT_FDCWD :: int
  O_RDONLY :: u64
  O_WRONLY :: u64
  O_RDWR :: u64
  O_CREAT :: u64
  O_LARGEFILE :: u64
  stat_size :: u32
  stat_fields :: stat_layout

section \<open>Descriptors\<close>

definition argfd :: "nat \<Rightarrow> ('z filestate_scheme, (nat \<times> nat) option) kop" where
  "argfd n =
     bind (argint n) (\<lambda>w.
     let fd = sint w in
     if fd < 0 \<or> fd \<ge> int NOFILE then ret None
     else myproc (\<lambda>p.
       bind (get (\<lambda>s. p_ofile (ptable s p) ! nat fd)) (\<lambda>r.
       case r of None \<Rightarrow> ret None | Some f \<Rightarrow> ret (Some (nat fd, f)))))"

definition set_ofile :: "nat \<Rightarrow> nat \<Rightarrow> nat option \<Rightarrow> ('z kstate_scheme, unit) kop" where
  "set_ofile p fd f = set_proc p (\<lambda>q. q\<lparr>p_ofile := (p_ofile q)[fd := f]\<rparr>)"

definition fdalloc :: "nat \<Rightarrow> ('z kstate_scheme, int) kop" where
  "fdalloc f = myproc (\<lambda>p.
     bind (get (\<lambda>s. List.find (\<lambda>i. p_ofile (ptable s p) ! i = None) [0..<NOFILE])) (\<lambda>r.
     case r of
       None \<Rightarrow> ret (-1)
     | Some i \<Rightarrow> seq (set_ofile p i (Some f)) (ret (int i))))"

definition sys_dup :: "('z filestate_scheme, int) kop" where
  "sys_dup =
     bind (argfd 0) (\<lambda>r.
     case r of
       None \<Rightarrow> ret (-1)
     | Some (_, f) \<Rightarrow>
         bind (fdalloc f) (\<lambda>fd.
         if fd < 0 then ret (-1) else seq (filedup f) (ret fd)))"

text \<open>The size handed to \<open>argptr\<close> is the low 32 bits of the count.\<close>

definition sys_read :: "(nat \<Rightarrow> 'z filestate_scheme devsw) \<Rightarrow> ('z filestate_scheme, int) kop" where
  "sys_read dsw =
     bind (argfd 0) (\<lambda>r.
     case r of
       None \<Rightarrow> ret (-1)
     | Some (_, f) \<Rightarrow>
         bind (argint 2) (\<lambda>n.
         bind (argptr 1 (ucast n)) (\<lambda>a.
         case a of None \<Rightarrow> ret (-1) | Some addr \<Rightarrow> fileread dsw f addr n)))"

definition sys_write :: "(nat \<Rightarrow> 'z filestate_scheme devsw) \<Rightarrow> ('z filestate_scheme, int) kop" where
  "sys_write dsw =
     bind (argfd 0) (\<lambda>r.
     case r of
       None \<Rightarrow> ret (-1)
     | Some (_, f) \<Rightarrow>
         bind (argint 2) (\<lambda>n.
         bind (argptr 1 (ucast n)) (\<lambda>a.
         case a of None \<Rightarrow> ret (-1) | Some addr \<Rightarrow> filewrite dsw f addr n)))"

text \<open>
  The vectors from \<open>p\<close> to \<open>pend\<close>, 16 bytes each. Pointers are compared as addresses; a vector that
  lies where the address space ends is beyond the process.
\<close>

fun writev_loop :: "nat \<Rightarrow> (nat \<Rightarrow> 'z filestate_scheme devsw) \<Rightarrow> nat \<Rightarrow> u64 \<Rightarrow> u64 \<Rightarrow> u64 \<Rightarrow> ('z filestate_scheme, u64) kop" where
  "writev_loop 0 dsw f p pend tot = stop Diverge"
| "writev_loop (Suc fuel) dsw f p pend tot =
     (if \<not> p < pend then ret tot
      else bind (load_word p) (\<lambda>base.
        bind (load_word (p + 8)) (\<lambda>len.
        bind (filewrite dsw f base len) (\<lambda>r.
        writev_loop fuel dsw f (p + 16) pend (tot + word_of_int r)))))"

declare writev_loop.simps [simp del]

text \<open>All three arguments are fetched before any result is tested.\<close>

definition sys_writev :: "(nat \<Rightarrow> 'z filestate_scheme devsw) \<Rightarrow> ('z filestate_scheme, int) kop" where
  "sys_writev dsw =
     bind (argfd 0) (\<lambda>r.
     bind (argint 2) (\<lambda>iovcnt.
     bind (argptr 1 (ucast (iovcnt * 16))) (\<lambda>a.
     case (r, a) of
       (Some (_, f), Some iov) \<Rightarrow>
         bind (writev_loop (unat (iovcnt * 16) div 16 + 2) dsw f iov (iov + iovcnt * 16) 0) (\<lambda>tot.
         ret (sint tot))
     | _ \<Rightarrow> ret (-1))))"

text \<open>\<open>argfd\<close> stores the descriptor through a pointer to an \<open>int\<close>; the descriptors are small.\<close>

definition sys_close :: "('z filestate_scheme, int) kop" where
  "sys_close =
     bind (argfd 0) (\<lambda>r.
     case r of
       None \<Rightarrow> ret (-1)
     | Some (fd, f) \<Rightarrow>
         seq (myproc (\<lambda>p. set_ofile p fd None))
         (seq (fileclose f)
         (ret 0)))"

definition sys_fstat :: "libc \<Rightarrow> ('z filestate_scheme, int) kop" where
  "sys_fstat lc =
     bind (argfd 0) (\<lambda>r.
     case r of
       None \<Rightarrow> ret (-1)
     | Some (_, f) \<Rightarrow>
         bind (argptr 1 (stat_size lc)) (\<lambda>a.
         case a of None \<Rightarrow> ret (-1) | Some st \<Rightarrow> filestat (stat_fields lc) f st))"

definition sys_fstatat :: "libc \<Rightarrow> (nat \<Rightarrow> 'z filestate_scheme devsw) \<Rightarrow> ('z filestate_scheme, int) kop" where
  "sys_fstatat lc dsw =
     bind (argint 0) (\<lambda>dirfd.
     bind (argstr 1) (\<lambda>(r, path).
     if r < 0 then ret (-1)
     else bind (argptr 2 (stat_size lc)) (\<lambda>a.
       case a of
         None \<Rightarrow> ret (-1)
       | Some st \<Rightarrow>
           bind (argint 3) (\<lambda>flags.
           if sint dirfd \<noteq> AT_FDCWD lc then ret (-1)
           else if flags \<noteq> 0 then ret (-1)
           else seq begin_op
             (bind (namei dsw path) (\<lambda>ipp.
              case ipp of
                None \<Rightarrow> seq end_op (ret (-1))
              | Some ip \<Rightarrow>
                  seq (ilock (Some ip))
                  (seq (stati_user (stat_fields lc) ip st)
                  (seq (iunlockput ip)
                  (seq end_op
                  (ret 0))))))))))"

section \<open>Creating and opening\<close>

text \<open>
  The array \<open>name\<close> is not initialised in the code; \<open>nameiparent\<close> sets it before it returns an inode,
  up to the terminator that stops every later reader.
\<close>

definition DOT :: "byte list" where "DOT = [46, 0]"
definition DOTDOT :: "byte list" where "DOTDOT = [46, 46, 0]"

definition create :: "(nat \<Rightarrow> 'z fsstate_scheme devsw) \<Rightarrow> byte list \<Rightarrow> u16 \<Rightarrow> u16 \<Rightarrow> u16 \<Rightarrow> ('z fsstate_scheme, nat option) kop" where
  "create dsw path type major minor =
     bind (nameiparent dsw path (replicate DIRSIZ 0)) (\<lambda>(dpp, name).
     case dpp of
       None \<Rightarrow> ret None
     | Some dp \<Rightarrow>
         seq (ilock (Some dp))
         (bind (dirlookup dsw dp name) (\<lambda>r.
          case r of
            Some (ip, _) \<Rightarrow>
              seq (iunlockput dp)
              (seq (ilock (Some ip))
              (bind (inode_of ip) (\<lambda>i.
               if type = T_FILE \<and> i_type i = T_FILE then ret (Some ip)
               else seq (iunlockput ip) (ret None))))
          | None \<Rightarrow>
              bind (inode_of dp) (\<lambda>d.
              bind (ialloc (i_dev d) type) (\<lambda>ip.
              seq (ilock (Some ip))
              (seq (set_inode ip (\<lambda>i. i\<lparr>i_major := major, i_minor := minor, i_nlink := 1\<rparr>))
              (seq (iupdate ip)
              (seq (if type = T_DIR then
                  seq (set_inode dp (\<lambda>d. d\<lparr>i_nlink := i_nlink d + 1\<rparr>))
                  (seq (iupdate dp)
                  (bind (inode_of ip) (\<lambda>i.
                   bind (dirlink dsw ip DOT (i_inum i)) (\<lambda>r1.
                   if r1 < 0 then panic ''create: dots''
                   else bind (inode_of dp) (\<lambda>d.
                     bind (dirlink dsw ip DOTDOT (i_inum d)) (\<lambda>r2.
                     if r2 < 0 then panic ''create: dots'' else ret ()))))))
                else ret ())
              (bind (inode_of ip) (\<lambda>i.
               bind (dirlink dsw dp name (i_inum i)) (\<lambda>r3.
               if r3 < 0 then panic ''create: dirlink''
               else seq (iunlockput dp)
                 (ret (Some ip)))))))))))))"

text \<open>The inode to open, locked, or \<open>None\<close> when the call is refused (inside the transaction).\<close>

definition open_inode :: "libc \<Rightarrow> (nat \<Rightarrow> 'z fsstate_scheme devsw) \<Rightarrow> byte list \<Rightarrow> u64 \<Rightarrow> ('z fsstate_scheme, nat option) kop" where
  "open_inode lc dsw path omode =
     (if omode AND O_CREAT lc \<noteq> 0 then create dsw path T_FILE 0 0
      else bind (namei dsw path) (\<lambda>ipp.
        case ipp of
          None \<Rightarrow> ret None
        | Some ip \<Rightarrow>
            seq (ilock (Some ip))
            (bind (inode_of ip) (\<lambda>i.
             if i_type i = T_DIR \<and> omode \<noteq> O_RDONLY lc OR O_LARGEFILE lc
             then seq (iunlockput ip) (ret None)
             else ret (Some ip)))))"

definition sys_openat :: "libc \<Rightarrow> (nat \<Rightarrow> 'z filestate_scheme devsw) \<Rightarrow> ('z filestate_scheme, int) kop" where
  "sys_openat lc dsw =
     bind (argint 0) (\<lambda>dirfd.
     bind (argstr 1) (\<lambda>(r, path).
     if r < 0 then ret (-1)
     else bind (argint 2) (\<lambda>omode.
       if sint dirfd \<noteq> AT_FDCWD lc then ret (-1)
       else if omode AND O_LARGEFILE lc = 0 then ret (-1)
       else seq begin_op
         (bind (open_inode lc dsw path omode) (\<lambda>ipp.
          case ipp of
            None \<Rightarrow> seq end_op (ret (-1))
          | Some ip \<Rightarrow>
              bind filealloc (\<lambda>fo.
              case fo of
                None \<Rightarrow> seq (iunlockput ip) (seq end_op (ret (-1)))
              | Some f \<Rightarrow>
                  bind (fdalloc f) (\<lambda>fd.
                  if fd < 0 then
                    seq (fileclose f) (seq (iunlockput ip) (seq end_op (ret (-1))))
                  else
                    seq (iunlock (Some ip))
                    (seq end_op
                    (seq (set_file f (\<lambda>x. x\<lparr>f_type := FD_INODE, f_ip := Some ip, f_off := 0,
                        f_readable := (omode AND O_WRONLY lc = 0),
                        f_writable := (omode AND O_WRONLY lc \<noteq> 0 \<or> omode AND O_RDWR lc \<noteq> 0)\<rparr>))
                    (ret fd))))))))))"

text \<open>What \<open>sys_mkdirat\<close> and \<open>sys_mknodat\<close> share: creating an inode and letting go of it.\<close>

definition create_op :: "(nat \<Rightarrow> 'z filestate_scheme devsw) \<Rightarrow> byte list \<Rightarrow> u16 \<Rightarrow> u16 \<Rightarrow> u16 \<Rightarrow> ('z filestate_scheme, int) kop" where
  "create_op dsw path type major minor =
     seq begin_op
     (bind (create dsw path type major minor) (\<lambda>ipp.
      case ipp of
        None \<Rightarrow> seq end_op (ret (-1))
      | Some ip \<Rightarrow> seq (iunlockput ip) (seq end_op (ret 0))))"

definition sys_mkdirat :: "libc \<Rightarrow> (nat \<Rightarrow> 'z filestate_scheme devsw) \<Rightarrow> ('z filestate_scheme, int) kop" where
  "sys_mkdirat lc dsw =
     bind (argint 0) (\<lambda>dirfd.
     bind (argstr 1) (\<lambda>(r, path).
     if r < 0 then ret (-1)
     else bind (argint 2) (\<lambda>mode.
       if sint dirfd \<noteq> AT_FDCWD lc then ret (-1)
       else if mode \<noteq> 0 then ret (-1)
       else create_op dsw path T_DIR 0 0)))"

definition sys_mknodat :: "libc \<Rightarrow> (nat \<Rightarrow> 'z filestate_scheme devsw) \<Rightarrow> ('z filestate_scheme, int) kop" where
  "sys_mknodat lc dsw =
     bind (argint 0) (\<lambda>dirfd.
     bind (argstr 1) (\<lambda>(r, path).
     if r < 0 then ret (-1)
     else bind (argint 2) (\<lambda>major.
       bind (argint 3) (\<lambda>minor.
       if sint dirfd \<noteq> AT_FDCWD lc then ret (-1)
       else create_op dsw path T_DEV (ucast major) (ucast minor)))))"

definition sys_chdir :: "(nat \<Rightarrow> 'z filestate_scheme devsw) \<Rightarrow> ('z filestate_scheme, int) kop" where
  "sys_chdir dsw =
     bind (get thisproc) (\<lambda>curproc.
     seq begin_op
     (bind (argstr 0) (\<lambda>(r, path).
     bind (if r < 0 then ret None else namei dsw path) (\<lambda>ipp.
     case ipp of
       None \<Rightarrow> seq end_op (ret (-1))
     | Some ip \<Rightarrow>
         seq (ilock (Some ip))
         (bind (inode_of ip) (\<lambda>i.
          if i_type i \<noteq> T_DIR then seq (iunlockput ip) (seq end_op (ret (-1)))
          else seq (iunlock (Some ip))
            (deref curproc (\<lambda>p.
             bind (get (\<lambda>s. p_cwd (ptable s p))) (\<lambda>cwd.
             seq (deref cwd iput)
             (seq end_op
             (seq (set_proc p (\<lambda>q. q\<lparr>p_cwd := Some ip\<rparr>))
             (ret 0))))))))))))"

end
