(* ===== verification/Exec.thy ===== *)
theory Exec
  imports Sysfile
begin

text \<open>
  Replacing the program of a process: \<open>kern/exec.c\<close> and \<open>sys_exec\<close> of \<open>kern/sysfile.c\<close>. The layout
  of ELF headers and the numbers of the ELF standard belong to the C library's \<open>elf.h\<close> and are the
  fields of \<open>elfdefs\<close>: a field of a structure is a function of the structure's bytes. Strings are
  given with their terminators.
\<close>

unbundle bit_operations_syntax

record elfdefs =
  ehdr_size :: u64
  e_phoff :: "byte list \<Rightarrow> u64"
  e_phnum :: "byte list \<Rightarrow> u16"
  e_entry :: "byte list \<Rightarrow> u64"
  phdr_size :: u64
  p_type :: "byte list \<Rightarrow> u32"
  p_offset :: "byte list \<Rightarrow> u64"
  p_vaddr :: "byte list \<Rightarrow> u64"
  p_filesz :: "byte list \<Rightarrow> u64"
  p_memsz :: "byte list \<Rightarrow> u64"
  ELFMAG :: "byte list"
  SELFMAG :: nat
  PT_LOAD :: u32
  AT_PAGESZ :: u64
  AT_NULL :: u64

definition MAXARG :: nat where "MAXARG = 32"

declare MAXARG_def [const_defs]

text \<open>\<open>readi\<close> into a local structure of \<open>n\<close> bytes: \<open>None\<close> when fewer were read.\<close>

definition readi_struct :: "(nat \<Rightarrow> 'z fsstate_scheme devsw) \<Rightarrow> nat \<Rightarrow> u64 \<Rightarrow> u64 \<Rightarrow> ('z fsstate_scheme, byte list option) kop" where
  "readi_struct dsw ip off n =
     bind (readi dsw ip off n) (\<lambda>(r, bs). ret (if of_int r = n then Some bs else None))"

text \<open>
  The program headers: \<open>n\<close> of them are left, the next one at \<open>off\<close>. The result is the size of the new
  image, or \<open>None\<close> for \<open>goto bad\<close>.
\<close>

fun load_segments :: "elfdefs \<Rightarrow> (nat \<Rightarrow> 'z memstate_scheme devsw) \<Rightarrow> nat \<Rightarrow> u64 \<Rightarrow> nat \<Rightarrow> u32 \<Rightarrow> u64 \<Rightarrow>
    ('z memstate_scheme, u64 option) kop" where
  "load_segments ed dsw ip pgdir 0 off sz = ret (Some sz)"
| "load_segments ed dsw ip pgdir (Suc n) off sz =
     bind (readi_struct dsw ip (scast off) (phdr_size ed)) (\<lambda>r.
     case r of
       None \<Rightarrow> ret None
     | Some ph \<Rightarrow>
         if p_type ed ph \<noteq> PT_LOAD ed then load_segments ed dsw ip pgdir n (off + ucast (phdr_size ed)) sz
         else if p_memsz ed ph < p_filesz ed ph then ret None
         else if p_vaddr ed ph + p_memsz ed ph < p_vaddr ed ph then ret None
         else bind (uvm_alloc pgdir sz (p_vaddr ed ph + p_memsz ed ph)) (\<lambda>sz.
           if sz = 0 then ret None
           else bind (uvm_load dsw pgdir (p_vaddr ed ph) ip (p_offset ed ph) (p_filesz ed ph)) (\<lambda>r.
             if r < 0 then ret None
             else load_segments ed dsw ip pgdir n (off + ucast (phdr_size ed)) (scast sz))))"

text \<open>
  The first half of \<open>execve\<close>, up to the release of the file: the new tables if they were made, and
  the entry point and size when the program was loaded.
\<close>

definition exec_load :: "elfdefs \<Rightarrow> (nat \<Rightarrow> 'z memstate_scheme devsw) \<Rightarrow> nat \<Rightarrow> ('z memstate_scheme, u64 \<times> (u64 \<times> u64) option) kop" where
  "exec_load ed dsw ip =
     bind (readi_struct dsw ip 0 (ehdr_size ed)) (\<lambda>r.
     case r of
       None \<Rightarrow> ret (0, None)
     | Some elf \<Rightarrow>
         (case strncmp elf (ELFMAG ed) (SELFMAG ed) of
            None \<Rightarrow> stop Fault
          | Some c \<Rightarrow>
              if c \<noteq> 0 then ret (0, None)
              else bind pgdir_init (\<lambda>pgdir.
                if pgdir = 0 then ret (0, None)
                else bind (load_segments ed dsw ip pgdir (unat (e_phnum ed elf)) (ucast (e_phoff ed elf)) 0) (\<lambda>r.
                  ret (pgdir, map_option (\<lambda>sz. (e_entry ed elf, sz)) r)))))"

text \<open>\<open>copyout\<close> of data that is not in the memory of the model: strings of the old image, locals.\<close>

fun copyout_bytes_loop :: "nat \<Rightarrow> u64 \<Rightarrow> u64 \<Rightarrow> byte list \<Rightarrow> ('z memstate_scheme, int) kop" where
  "copyout_bytes_loop 0 pgdir va bs = stop Diverge"
| "copyout_bytes_loop (Suc fuel) pgdir va bs =
     (if bs = [] then ret 0
      else let va0 = ROUNDDOWN va PGSIZE in
        bind (uva2ka pgdir va0) (\<lambda>pa0.
        if pa0 = 0 then ret (-1)
        else let n = min (length bs) (unat (PGSIZE - (va - va0))) in
          seq (set_mem (store (pa0 + (va - va0)) (take n bs)))
          (copyout_bytes_loop fuel pgdir (va0 + PGSIZE) (drop n bs))))"

definition copyout_bytes :: "u64 \<Rightarrow> u64 \<Rightarrow> byte list \<Rightarrow> ('z memstate_scheme, int) kop" where
  "copyout_bytes pgdir va bs = copyout_bytes_loop (length bs div unat PGSIZE + 3) pgdir va bs"

text \<open>Pushing the argument strings; the result is the stack pointer and the array \<open>ustack\<close>.\<close>

definition MASK3 :: u64 where "MASK3 = - 3"

fun push_args :: "u64 \<Rightarrow> nat \<Rightarrow> byte list list \<Rightarrow> u64 \<Rightarrow> u64 list \<Rightarrow> ('z memstate_scheme, (u64 \<times> u64 list) option) kop" where
  "push_args pgdir argc [] sp ustack = ret (Some (sp, ustack))"
| "push_args pgdir argc (arg # args) sp ustack =
     (if argc \<ge> MAXARG then ret None
      else case strlen arg of
        None \<Rightarrow> stop Fault
      | Some len \<Rightarrow>
          let sp = (sp - (of_nat len + 1)) AND MASK3 in
          bind (copyout_bytes pgdir sp (take (len + 1) arg)) (\<lambda>r.
          if r < 0 then ret None
          else push_args pgdir (argc + 1) args sp (ustack @ [sp])))"

definition set_tf :: "nat \<Rightarrow> u64 \<Rightarrow> u64 \<Rightarrow> ('z memstate_scheme, unit) kop" where
  "set_tf p off w = upd (\<lambda>s. s\<lparr>mem := write64 (mem s) (p_tf (ptable s p) + off) w\<rparr>)"

text \<open>The words below the strings: auxiliary vector, an empty environment, the argument pointers, \<open>argc\<close>.\<close>

definition words_bytes :: "u64 list \<Rightarrow> byte list" where
  "words_bytes ws = concat (map (le_bytes 8) ws)"

definition push_vectors :: "elfdefs \<Rightarrow> nat \<Rightarrow> u64 \<Rightarrow> u64 \<Rightarrow> u64 list \<Rightarrow> ('z memstate_scheme, u64 option) kop" where
  "push_vectors ed p pgdir sp ustack =
     (let argc = length ustack in
      seq (set_tf p (tf_reg 0) (of_nat argc))
      (let sp = (if even argc then sp - 8 else sp) - 32 in
       bind (copyout_bytes pgdir sp (words_bytes [0, AT_PAGESZ ed, PGSIZE, AT_NULL ed])) (\<lambda>r.
       if r < 0 then ret None
       else let sp = sp - 8 in
         bind (copyout_bytes pgdir sp (words_bytes [0])) (\<lambda>r.
         if r < 0 then ret None
         else let sp = sp - (of_nat argc + 1) * 8 in
           seq (set_tf p (tf_reg 1) sp)
           (bind (copyout_bytes pgdir sp (words_bytes (ustack @ [0]))) (\<lambda>r.
            if r < 0 then ret None
            else let sp = sp - 8 in
              bind (get (\<lambda>s. p_tf (ptable s p))) (\<lambda>tf.
              bind (copyout pgdir sp (tf + tf_reg 0) 8) (\<lambda>r.
              if r < 0 then ret None else ret (Some sp)))))))))"

text \<open>The stack of the new image: two pages, of which the lower one is closed to the process.\<close>

definition exec_stack :: "elfdefs \<Rightarrow> nat \<Rightarrow> u64 \<Rightarrow> u64 \<Rightarrow> byte list list \<Rightarrow> ('z memstate_scheme, (u64 \<times> u64) option) kop" where
  "exec_stack ed p pgdir sz argv =
     (let sz = ROUNDUP sz PGSIZE in
      bind (uvm_alloc pgdir sz (sz + 2 * PGSIZE)) (\<lambda>sz.
      if sz = 0 then ret None
      else let sz = scast sz in
        seq (clearpteu pgdir (sz - 2 * PGSIZE))
        (bind (push_args pgdir 0 argv sz []) (\<lambda>r.
         case r of
           None \<Rightarrow> ret None
         | Some (sp, ustack) \<Rightarrow>
             bind (push_vectors ed p pgdir sp ustack) (\<lambda>r.
             ret (map_option (\<lambda>sp. (sz, sp)) r))))))"

definition exec_bad :: "u64 \<Rightarrow> ('z memstate_scheme, unit) kop" where
  "exec_bad pgdir = (if pgdir \<noteq> 0 then vm_free pgdir 1 else ret ())"

definition execve :: "elfdefs \<Rightarrow> (nat \<Rightarrow> 'z memstate_scheme devsw) \<Rightarrow> byte list \<Rightarrow> byte list list \<Rightarrow> ('z memstate_scheme, int) kop" where
  "execve ed dsw path argv =
     seq begin_op
     (bind (namei dsw path) (\<lambda>ipp.
      case ipp of
        None \<Rightarrow> seq end_op (ret (-1))
      | Some ip \<Rightarrow>
          seq (ilock (Some ip))
          (bind (exec_load ed dsw ip) (\<lambda>(pgdir, r).
           case r of
             None \<Rightarrow> seq (exec_bad pgdir) (seq (iunlockput ip) (seq end_op (ret (-1))))
           | Some (entry, sz) \<Rightarrow>
               seq (iunlockput ip)
               (seq end_op
               (myproc (\<lambda>p.
                bind (exec_stack ed p pgdir sz argv) (\<lambda>r.
                case r of
                  None \<Rightarrow> seq (exec_bad pgdir) (ret (-1))
                | Some (sz, sp) \<Rightarrow>
                    bind (get (\<lambda>s. p_pgdir (ptable s p))) (\<lambda>oldpgdir.
                    seq (set_proc p (\<lambda>q. q\<lparr>p_pgdir := pgdir, p_sz := sz\<rparr>))
                    (seq (set_tf p tf_sp sp)
                    (seq (set_tf p tf_elr entry)
                    (seq (uvm_switch p)
                    (seq (vm_free oldpgdir 1)
                    (get (\<lambda>s. to_int (uint (read64 (mem s) (p_tf (ptable s p) + tf_reg 0))))))))))))))))))"

section \<open>The system call\<close>

text \<open>The entries of the caller's \<open>argv\<close>, of which there are at most 63 before the null pointer.\<close>

fun fetch_argv :: "u64 \<Rightarrow> nat list \<Rightarrow> ('z memstate_scheme, byte list list option) kop" where
  "fetch_argv uargv [] = ret None"
| "fetch_argv uargv (i # is) =
     bind (fetchint (uargv + 8 * of_nat i)) (\<lambda>r.
     case r of
       None \<Rightarrow> ret None
     | Some uarg \<Rightarrow>
         if uarg = 0 then ret (Some [])
         else bind (fetchstr uarg) (\<lambda>(r, arg).
           if r < 0 then ret None
           else bind (fetch_argv uargv is) (\<lambda>r. ret (map_option (\<lambda>args. arg # args) r))))"

definition sys_exec :: "elfdefs \<Rightarrow> (nat \<Rightarrow> 'z memstate_scheme devsw) \<Rightarrow> ('z memstate_scheme, int) kop" where
  "sys_exec ed dsw =
     bind (argstr 0) (\<lambda>(r, path).
     if r < 0 then ret (-1)
     else bind (argint 1) (\<lambda>uargv.
       bind (fetch_argv uargv [0..<64]) (\<lambda>r.
       case r of None \<Rightarrow> ret (-1) | Some argv \<Rightarrow> execve ed dsw path argv)))"

declare copyout_bytes_loop.simps [simp del]

end
