(* ===== verification/Procs.thy ===== *)
theory Procs
  imports Exec
begin

text \<open>
  The life of processes, the rest of \<open>kern/proc.c\<close>: making the first ones, \<open>fork\<close>, \<open>exit\<close>, \<open>wait\<close>,
  \<open>growproc\<close>. Addresses that the linker chooses are the fields of \<open>ksyms\<close>. Like \<open>sleep\<close>, a routine
  that switches away ends there; \<open>wait_again\<close> is what runs when the sleeper of \<open>wait\<close> is resumed.
\<close>

unbundle bit_operations_syntax

record ksyms =
  sym_trapret :: u64
  sym_forkret :: u64
  initcode_start :: u64
  initcode_size :: u64

definition proc_init :: "('z kstate_scheme, unit) kop" where
  "proc_init = initlock Lptable ''ptable''"

section \<open>Making a process\<close>

text \<open>
  The kernel stack from its top: the trap frame, the return address \<open>trapret\<close>, the stack pointer to
  resume with, the context of 12 words whose last is \<open>x30\<close>.
\<close>

definition CONTEXT_SIZE :: u64 where "CONTEXT_SIZE = 96"
definition ctx_x30 :: u64 where "ctx_x30 = 88"

definition stack_frame :: "ksyms \<Rightarrow> u64 \<Rightarrow> mem \<Rightarrow> mem" where
  "stack_frame ks kstack m =
     (let tf = kstack + KSTACKSIZE - of_nat TF_SIZE;
          m = write64 m (tf - 8) (sym_trapret ks);
          m = write64 m (tf - 16) (kstack + KSTACKSIZE) in
      write64 m (tf - 16 - CONTEXT_SIZE + ctx_x30) (sym_forkret ks + 8))"

definition proc_alloc :: "ksyms \<Rightarrow> ('z memstate_scheme, nat option) kop" where
  "proc_alloc ks =
     seq (acquire Lptable)
     (bind (get (\<lambda>s. List.find (\<lambda>p. p_state (ptable s p) = UNUSED) [0..<NPROC])) (\<lambda>r.
      case r of
        None \<Rightarrow> seq (release Lptable) (ret None)
      | Some p \<Rightarrow>
          bind kalloc (\<lambda>kstack.
          seq (set_proc p (\<lambda>q. q\<lparr>p_kstack := kstack\<rparr>))
          (if kstack = 0 then seq (release Lptable) (panic ''proc_alloc: cannot alloc kstack.'')
           else let tf = kstack + KSTACKSIZE - of_nat TF_SIZE in
             seq (set_mem (stack_frame ks kstack))
             (bind (get nextpid) (\<lambda>pid.
             seq (set_proc p (\<lambda>q. q\<lparr>p_sz := PGSIZE, p_tf := tf, p_context := tf - 16 - CONTEXT_SIZE,
                 p_state := EMBRYO, p_pid := pid, p_priority := 0, p_cpus_allowed := - 1\<rparr>))
             (seq (upd (\<lambda>s. s\<lparr>nextpid := to_int (nextpid s + 1)\<rparr>))
             (seq (release Lptable)
             (ret (Some p))))))))))"

definition ROOT_PATH :: "byte list" where "ROOT_PATH = [47, 0]"

text \<open>The state is set to \<open>RUNNABLE\<close> before the directory and the size.\<close>

definition user_init :: "ksyms \<Rightarrow> (nat \<Rightarrow> 'z memstate_scheme devsw) \<Rightarrow> ('z memstate_scheme, unit) kop" where
  "user_init ks dsw =
     bind (proc_alloc ks) (\<lambda>r.
     bind pgdir_init (\<lambda>pgdir.
     deref r (\<lambda>p.
     seq (set_proc p (\<lambda>q. q\<lparr>p_pgdir := pgdir\<rparr>))
     (if pgdir = 0 then panic ''user_init: kalloc failed''
      else seq (upd (\<lambda>s. s\<lparr>initproc := Some p\<rparr>))
        (seq (uvm_init pgdir (initcode_start ks) (ucast (initcode_size ks)))
        (seq (set_tf p tf_spsr 0)
        (seq (set_tf p tf_sp PGSIZE)
        (seq (set_tf p tf_elr 0)
        (seq (set_proc p (\<lambda>q. q\<lparr>p_state := RUNNABLE\<rparr>))
        (bind (namei dsw ROOT_PATH) (\<lambda>cwd.
        set_proc p (\<lambda>q. q\<lparr>p_cwd := cwd, p_sz := PGSIZE\<rparr>))))))))))))"

definition user_idle_init :: "ksyms \<Rightarrow> ('z memstate_scheme, unit) kop" where
  "user_idle_init ks =
     bind (proc_alloc ks) (\<lambda>r.
     bind pgdir_init (\<lambda>pgdir.
     deref r (\<lambda>p.
     seq (set_proc p (\<lambda>q. q\<lparr>p_pgdir := pgdir\<rparr>))
     (if pgdir = 0 then panic ''user_idle_init: kalloc failed''
      else seq (upd (\<lambda>s. s\<lparr>initproc := Some p\<rparr>))
        (seq (uvm_init pgdir (initcode_start ks + 0x1c) (ucast (initcode_size ks - 0x1c)))
        (seq (\<lambda>s. set_mem (\<lambda>m. memset m (p_tf (ptable s p)) 0 (of_nat TF_SIZE)) s)
        (seq (set_tf p tf_spsr 0)
        (seq (set_tf p tf_sp PGSIZE)
        (seq (set_tf p (tf_reg 30) 0)
        (seq (set_tf p tf_elr 0)
        (set_proc p (\<lambda>q. q\<lparr>p_state := RUNNABLE, p_sz := PGSIZE\<rparr>))))))))))))"

text \<open>
  The first return of a new process; \<open>tests\<close> stands for the self test \<open>test_file_system\<close>, which runs
  once, in the first process.
\<close>

definition forkret :: "('z fsstate_scheme, unit) kop \<Rightarrow> ('z fsstate_scheme, unit) kop" where
  "forkret tests =
     seq (release Lptable)
     (myproc (\<lambda>p.
      bind (get (\<lambda>s. p_pid (ptable s p))) (\<lambda>pid.
      if pid = 1 then
        seq (iinit ROOTDEV)
        (seq (initlog ROOTDEV)
        (seq raise_priority
        (seq (set_cpus_allowed (NOT 0 XOR 1))
        tests)))
      else ret ())))"

text \<open>The descriptors of the parent, one after the other.\<close>

fun fork_files :: "nat \<Rightarrow> nat \<Rightarrow> nat list \<Rightarrow> ('z filestate_scheme, unit) kop" where
  "fork_files me p [] = ret ()"
| "fork_files me p (i # is) =
     bind (get (\<lambda>s. p_ofile (ptable s me) ! i)) (\<lambda>r.
     seq (case r of
         None \<Rightarrow> ret ()
       | Some f \<Rightarrow> bind (filedup f) (\<lambda>f. set_ofile p i (Some f)))
     (fork_files me p is))"

definition fork :: "ksyms \<Rightarrow> ('z filestate_scheme, int) kop" where
  "fork ks =
     bind (proc_alloc ks) (\<lambda>r.
     case r of
       None \<Rightarrow> ret (-1)
     | Some p \<Rightarrow> myproc (\<lambda>me.
         bind (get (\<lambda>s. ptable s me)) (\<lambda>q.
         bind (copyuvm (p_pgdir q) (p_sz q)) (\<lambda>pgdir.
         seq (set_proc p (\<lambda>q. q\<lparr>p_pgdir := pgdir\<rparr>))
         (if pgdir = 0 then
            bind (get (\<lambda>s. p_kstack (ptable s p))) (\<lambda>kstack.
            seq (kfree kstack)
            (seq (set_proc p (\<lambda>q. q\<lparr>p_kstack := 0, p_state := UNUSED\<rparr>))
            (ret (-1))))
          else
            seq (\<lambda>s. set_proc p (\<lambda>q. q\<lparr>p_sz := p_sz (ptable s me)\<rparr>) s)
            (seq (\<lambda>s. set_mem (\<lambda>m. memcpy m (p_tf (ptable s p)) (p_tf (ptable s me)) (of_nat TF_SIZE)) s)
            (seq (set_tf p (tf_reg 0) 0)
            (seq (set_proc p (\<lambda>q. q\<lparr>p_parent := Some me\<rparr>))
            (seq (fork_files me p [0..<NOFILE])
            (bind (bind (get (\<lambda>s. p_cwd (ptable s me))) idup) (\<lambda>cwd.
            seq (set_proc p (\<lambda>q. q\<lparr>p_cwd := Some cwd\<rparr>))
            (seq (set_proc p (\<lambda>q. q\<lparr>p_state := RUNNABLE\<rparr>))
            (get (\<lambda>s. p_pid (ptable s p)))))))))))))))"

section \<open>The end of a process\<close>

fun exit_files :: "nat list \<Rightarrow> ('z filestate_scheme, unit) kop" where
  "exit_files [] = ret ()"
| "exit_files (fd # fds) =
     seq (myproc (\<lambda>p.
       bind (get (\<lambda>s. p_ofile (ptable s p) ! fd)) (\<lambda>r.
       case r of
         None \<Rightarrow> ret ()
       | Some f \<Rightarrow> seq (fileclose f) (set_ofile p fd None))))
     (exit_files fds)"

text \<open>
  Waking the sleepers on a process. The null pointer is no process's channel, so waking it wakes nobody.
  Then handing the children to \<open>initproc\<close>.
\<close>

definition wakeup_proc :: "nat option \<Rightarrow> ('z kstate_scheme, unit) kop" where
  "wakeup_proc r = (case r of None \<Rightarrow> ret () | Some q \<Rightarrow> wakeup1 (Cproc q))"

fun reparent :: "nat \<Rightarrow> nat list \<Rightarrow> ('z kstate_scheme, unit) kop" where
  "reparent me [] = ret ()"
| "reparent me (p # ps) =
     bind (get (\<lambda>s. ptable s p)) (\<lambda>q.
     seq (if p_parent q = Some me then
         seq (\<lambda>s. set_proc p (\<lambda>q. q\<lparr>p_parent := initproc s\<rparr>) s)
         (if p_state q = ZOMBIE then bind (get initproc) wakeup_proc else ret ())
       else ret ())
     (reparent me ps))"

text \<open>
  \<open>exit\<close> up to the switch, from which it does not come back: letting go of files and directory, then,
  with the process table locked, waking the parent, giving away the children and becoming a zombie.
\<close>

definition exit_hand_over :: "nat \<Rightarrow> ('z kstate_scheme, unit) kop" where
  "exit_hand_over p =
     seq (acquire Lptable)
     (bind (get (\<lambda>s. p_parent (ptable s p))) (\<lambda>parent.
     seq (wakeup_proc parent)
     (seq (reparent p [0..<NPROC])
     (set_proc p (\<lambda>q. q\<lparr>p_state := ZOMBIE\<rparr>)))))"

definition exit_enter :: "('z filestate_scheme, unit) kop" where
  "exit_enter =
     bind (get (\<lambda>s. thisproc s = initproc s)) (\<lambda>isinit.
     if isinit then panic ''init exiting''
     else seq (exit_files [0..<NOFILE])
       (seq begin_op
       (seq (myproc (\<lambda>p. bind (get (\<lambda>s. p_cwd (ptable s p))) (\<lambda>cwd. deref cwd iput)))
       (seq end_op
       (myproc (\<lambda>p.
        seq (set_proc p (\<lambda>q. q\<lparr>p_cwd := None\<rparr>))
        (exit_hand_over p)))))))"

definition exit :: "('z filestate_scheme, unit) kop" where
  "exit = seq exit_enter (seq sched (panic ''zombie exit''))"

text \<open>The scan of \<open>wait\<close>: a zombie child if there is one, else whether there are children.\<close>

fun wait_scan :: "nat \<Rightarrow> (nat \<Rightarrow> proc) \<Rightarrow> nat list \<Rightarrow> bool \<Rightarrow> nat option \<times> bool" where
  "wait_scan me pt [] kids = (None, kids)"
| "wait_scan me pt (p # ps) kids =
     (if p_parent (pt p) \<noteq> Some me then wait_scan me pt ps kids
      else if p_state (pt p) = ZOMBIE then (Some p, True)
      else wait_scan me pt ps True)"

definition reap :: "nat \<Rightarrow> ('z memstate_scheme, int) kop" where
  "reap p =
     bind (get (\<lambda>s. ptable s p)) (\<lambda>q.
     seq (set_proc p (\<lambda>q. q\<lparr>p_killed := False, p_state := UNUSED, p_pid := 0, p_parent := None\<rparr>))
     (seq (vm_free (p_pgdir q) 1)
     (seq (kfree (p_kstack q))
     (seq (release Lptable)
     (ret (p_pid q))))))"

fun wait_loop :: "nat \<Rightarrow> ('z memstate_scheme, int) kop" where
  "wait_loop 0 = stop Diverge"
| "wait_loop (Suc fuel) = myproc (\<lambda>me.
     bind (get (\<lambda>s. wait_scan me (ptable s) [0..<NPROC] False)) (\<lambda>(z, kids).
     case z of
       Some p \<Rightarrow> reap p
     | None \<Rightarrow>
         bind (get (\<lambda>s. p_killed (ptable s me))) (\<lambda>killed.
         if \<not> kids \<or> killed then seq (release Lptable) (ret (-1))
         else seq (sleep (Cproc me) Lptable) (wait_loop fuel))))"

definition wait :: "('z memstate_scheme, int) kop" where
  "wait = seq (acquire Lptable) (wait_loop 2)"

definition wait_again :: "('z memstate_scheme, int) kop" where
  "wait_again = seq (sleep_resume Lptable) (wait_loop 2)"

section \<open>Memory size\<close>

text \<open>\<open>n\<close> is an \<open>int\<close>, sign extended where it is added; the result of \<open>uvm_alloc\<close> is an \<open>int\<close>, too.\<close>

definition growproc :: "u32 \<Rightarrow> ('z memstate_scheme, int) kop" where
  "growproc n = myproc (\<lambda>p.
     bind (get (\<lambda>s. ptable s p)) (\<lambda>q.
     bind (if sint n > 0 then
         bind (uvm_alloc (p_pgdir q) (p_sz q) (p_sz q + scast n)) (\<lambda>r. ret (if r = 0 then None else Some (scast r)))
       else if sint n < 0 then
         bind (uvm_dealloc (p_pgdir q) (p_sz q) (p_sz q + scast n)) (\<lambda>r. ret (if r = 0 then None else Some (scast r)))
       else ret (Some (p_sz q))) (\<lambda>r.
     case r of
       None \<Rightarrow> ret (-1)
     | Some sz \<Rightarrow>
         seq (set_proc p (\<lambda>q. q\<lparr>p_sz := sz\<rparr>))
         (seq (uvm_switch p)
         (ret 0)))))"

definition procdump :: "('s, unit) kop" where
  "procdump = panic ''unimplemented''"

end
