(* ===== verification/Syscall.thy ===== *)
theory Syscall
  imports Procs
begin

text \<open>
  The system calls on processes, \<open>kern/sysproc.c\<close>, and the dispatcher \<open>syscall1\<close> of \<open>kern/syscall.c\<close>.
  The numbers of the calls come from the C library's \<open>syscall.h\<close>: they are the fields of \<open>sysnos\<close>.
\<close>

section \<open>System calls on processes\<close>

definition sys_exit :: "('z filestate_scheme, int) kop" where
  "sys_exit = seq exit (ret 0)"

definition sys_yield :: "('z kstate_scheme, int) kop" where
  "sys_yield = seq yield (ret 0)"

text \<open>\<open>growproc\<close> takes an \<open>int\<close>: the low 32 bits of the argument. The result is a \<open>size_t\<close>.\<close>

definition sys_brk :: "('z memstate_scheme, u64) kop" where
  "sys_brk =
     bind (argint 0) (\<lambda>n.
     myproc (\<lambda>p.
     bind (get (\<lambda>s. p_sz (ptable s p))) (\<lambda>sz.
     bind (growproc (ucast n)) (\<lambda>r.
     if r < 0 then ret (-1) else ret sz))))"

definition sys_clone :: "ksyms \<Rightarrow> ('z filestate_scheme, int) kop" where
  "sys_clone ks =
     bind (argint 0) (\<lambda>flag.
     bind (argint 1) (\<lambda>childstk.
     if flag \<noteq> 17 then ret (-1) else fork ks))"

definition sys_wait4 :: "('z memstate_scheme, int) kop" where
  "sys_wait4 =
     bind (argint 0) (\<lambda>pid.
     bind (argint 1) (\<lambda>wstatus.
     bind (argint 2) (\<lambda>opt.
     bind (argint 3) (\<lambda>rusage.
     if pid \<noteq> -1 \<or> wstatus \<noteq> 0 \<or> opt \<noteq> 0 \<or> rusage \<noteq> 0 then ret (-1) else wait))))"

section \<open>The dispatcher\<close>

record sysnos =
  SYS_set_tid_address :: int
  SYS_gettid :: int
  SYS_ioctl :: int
  SYS_rt_sigprocmask :: int
  SYS_brk :: int
  SYS_execve :: int
  SYS_sched_yield :: int
  SYS_clone :: int
  SYS_wait4 :: int
  SYS_exit_group :: int
  SYS_exit :: int
  SYS_dup :: int
  SYS_chdir :: int
  SYS_fstat :: int
  SYS_newfstatat :: int
  SYS_mkdirat :: int
  SYS_mknodat :: int
  SYS_openat :: int
  SYS_writev :: int
  SYS_read :: int
  SYS_write :: int
  SYS_close :: int

text \<open>
  Storing a result in \<open>r0\<close> of the trap frame and returning it. A result kept in the \<open>int\<close> \<open>tret\<close> loses its
  upper half first.
\<close>

definition set_r0 :: "u64 \<Rightarrow> int \<Rightarrow> ('z memstate_scheme, int) kop" where
  "set_r0 tf r = seq (set_mem (\<lambda>m. write64 m (tf + tf_reg 0) (word_of_int r))) (ret (to_int r))"

definition tret :: "u64 \<Rightarrow> ('z memstate_scheme, int) kop \<Rightarrow> ('z memstate_scheme, int) kop" where
  "tret tf call = bind call (\<lambda>r. set_r0 tf (to_int r))"

definition syscall1 :: "sysnos \<Rightarrow> libc \<Rightarrow> elfdefs \<Rightarrow> ksyms \<Rightarrow> (nat \<Rightarrow> 'z filestate_scheme devsw) \<Rightarrow> u64 \<Rightarrow>
    ('z filestate_scheme, int) kop" where
  "syscall1 no lc ed ks dsw tf = myproc (\<lambda>p.
     seq (set_proc p (\<lambda>q. q\<lparr>p_tf := tf\<rparr>))
     (bind (get (\<lambda>s. to_int (uint (read64 (mem s) (tf + tf_reg 8))))) (\<lambda>sysno.
      if sysno = SYS_set_tid_address no \<or> sysno = SYS_gettid no then
        bind (get (\<lambda>s. p_pid (ptable s p))) (set_r0 tf)
      else if sysno = SYS_ioctl no then
        bind (get (\<lambda>s. read64 (mem s) (tf + tf_reg 1))) (\<lambda>r1.
        if r1 = 0x5413 then ret 0 else panic ''ioctl unimplemented. '')
      else if sysno = SYS_rt_sigprocmask no then set_r0 tf 0
      else if sysno = SYS_brk no then tret tf (bind sys_brk (\<lambda>r. ret (uint r)))
      else if sysno = SYS_execve no then tret tf (sys_exec ed dsw)
      else if sysno = SYS_sched_yield no then tret tf sys_yield
      else if sysno = SYS_clone no then tret tf (sys_clone ks)
      else if sysno = SYS_wait4 no then tret tf sys_wait4
      else if sysno = SYS_exit_group no \<or> sysno = SYS_exit no then tret tf sys_exit
      else if sysno = SYS_dup no then tret tf sys_dup
      else if sysno = SYS_chdir no then tret tf (sys_chdir dsw)
      else if sysno = SYS_fstat no then tret tf (sys_fstat lc)
      else if sysno = SYS_newfstatat no then tret tf (sys_fstatat lc dsw)
      else if sysno = SYS_mkdirat no then tret tf (sys_mkdirat lc dsw)
      else if sysno = SYS_mknodat no then tret tf (sys_mknodat lc dsw)
      else if sysno = SYS_openat no then tret tf (sys_openat lc dsw)
      else if sysno = SYS_writev no then tret tf (sys_writev dsw)
      else if sysno = SYS_read no then tret tf (sys_read dsw)
      else if sysno = SYS_write no then bind (sys_write dsw) (set_r0 tf)
      else if sysno = SYS_close no then tret tf sys_close
      else panic ''Unexpected syscall'')))"

end
