(* ===== verification/Exitwait.thy ===== *)
theory Exitwait
  imports Procs
begin

text \<open>
  \<open>exit\<close> meets \<open>wait\<close>: what the exiting process leaves in the process table, and that its parent's
  scan then finds a zombie.
\<close>

section \<open>The process table after an exit\<close>

text \<open>\<open>adopt ip me ps\<close>: the processes among \<open>ps\<close> whose parent is \<open>me\<close> become children of \<open>ip\<close>.\<close>

definition orphan_zombie :: "nat \<Rightarrow> nat list \<Rightarrow> (nat \<Rightarrow> proc) \<Rightarrow> bool" where
  "orphan_zombie me ps pt \<longleftrightarrow> (\<exists>p\<in>set ps. p_parent (pt p) = Some me \<and> p_state (pt p) = ZOMBIE)"

definition woken_opt :: "nat option \<Rightarrow> (nat \<Rightarrow> proc) \<Rightarrow> (nat \<Rightarrow> proc)" where
  "woken_opt r pt = (case r of None \<Rightarrow> pt | Some q \<Rightarrow> woken (Cproc q) pt)"

definition adopted :: "nat option \<Rightarrow> nat \<Rightarrow> nat list \<Rightarrow> (nat \<Rightarrow> proc) \<Rightarrow> (nat \<Rightarrow> proc)" where
  "adopted ip me ps pt = (\<lambda>p. if p \<in> set ps \<and> p_parent (pt p) = Some me then (pt p)\<lparr>p_parent := ip\<rparr> else pt p)"

lemma wakeup_proc_run [kop_simps]: "wakeup_proc r s = Inr ((), s\<lparr>ptable := woken_opt r (ptable s)\<rparr>)"
  by (cases r) (simp_all add: wakeup_proc_def woken_opt_def kop_simps)

lemma woken_parent [simp]: "p_parent (woken ch pt q) = p_parent (pt q)"
  by (simp add: woken_def)

lemma woken_opt_parent [simp]: "p_parent (woken_opt r pt q) = p_parent (pt q)"
  by (simp add: woken_opt_def split: option.split)

lemma woken_zombie [simp]: "p_state (woken ch pt q) = ZOMBIE \<longleftrightarrow> p_state (pt q) = ZOMBIE"
  by (simp add: woken_def)

lemma woken_opt_zombie [simp]: "p_state (woken_opt r pt q) = ZOMBIE \<longleftrightarrow> p_state (pt q) = ZOMBIE"
  by (simp add: woken_opt_def split: option.split)

lemma woken_twice [simp]: "woken ch (woken ch pt) = woken ch pt"
  by (rule ext) (simp add: woken_def)

lemma woken_opt_twice [simp]: "woken_opt r (woken_opt r pt) = woken_opt r pt"
  by (simp add: woken_opt_def split: option.split)

lemma woken_opt_upd: "woken_opt r (pt(p := (pt p)\<lparr>p_parent := x\<rparr>)) = (woken_opt r pt)(p := (woken_opt r pt p)\<lparr>p_parent := x\<rparr>)"
  by (rule ext) (simp add: woken_opt_def woken_def split: option.split)

lemma woken_opt_adopted: "woken_opt r (adopted ip me ps pt) = adopted ip me ps (woken_opt r pt)"
  by (rule ext) (auto simp: adopted_def woken_opt_def woken_def split: option.split)

lemma reparent_run:
  assumes "initproc s \<noteq> Some me" "distinct ps"
  shows "reparent me ps s = Inr ((), s\<lparr>ptable :=
     adopted (initproc s) me ps (if orphan_zombie me ps (ptable s) then woken_opt (initproc s) (ptable s) else ptable s)\<rparr>)"
  using assms
proof (induction ps arbitrary: s)
  case Nil
  then show ?case by (simp add: kop_simps adopted_def orphan_zombie_def)
next
  case (Cons p ps)
  let ?pt = "ptable s" and ?ip = "initproc s"
  let ?q = "?pt p"
  define pt1 where "pt1 = (if p_parent ?q = Some me then
      (if p_state ?q = ZOMBIE then woken_opt ?ip (?pt(p := ?q\<lparr>p_parent := ?ip\<rparr>)) else ?pt(p := ?q\<lparr>p_parent := ?ip\<rparr>)) else ?pt)"
  have "reparent me (p # ps) s = reparent me ps (s\<lparr>ptable := pt1\<rparr>)"
    by (simp add: kop_simps pt1_def)
  also have "\<dots> = Inr ((), s\<lparr>ptable := adopted ?ip me ps (if orphan_zombie me ps pt1 then woken_opt ?ip pt1 else pt1)\<rparr>)"
    using Cons.IH [of "s\<lparr>ptable := pt1\<rparr>"] Cons.prems by simp
  also have "adopted ?ip me ps (if orphan_zombie me ps pt1 then woken_opt ?ip pt1 else pt1) =
      adopted ?ip me (p # ps) (if orphan_zombie me (p # ps) ?pt then woken_opt ?ip ?pt else ?pt)"
  proof -
    have np: "p \<notin> set ps" using Cons.prems by simp
    have oz: "orphan_zombie me ps pt1 \<longleftrightarrow> orphan_zombie me ps ?pt"
      using np unfolding orphan_zombie_def by (intro bex_cong) (auto simp: pt1_def woken_opt_upd)
    have ad: "adopted ?ip me ps (X(p := (X p)\<lparr>p_parent := ?ip\<rparr>)) = adopted ?ip me (p # ps) X"
      if "p_parent (X p) = Some me" for X
      using np that by (auto simp: adopted_def fun_eq_iff)
    have ad': "adopted ?ip me ps X = adopted ?ip me (p # ps) X" if "p_parent (X p) \<noteq> Some me" for X
      using that by (auto simp: adopted_def fun_eq_iff)
    have oc: "orphan_zombie me (p # ps) ?pt \<longleftrightarrow> p_parent ?q = Some me \<and> p_state ?q = ZOMBIE \<or> orphan_zombie me ps ?pt"
      by (simp add: orphan_zombie_def)
    show ?thesis unfolding oz oc by (auto simp: pt1_def woken_opt_upd ad ad')
  qed
  finally show ?case .
qed

definition after_exit :: "nat \<Rightarrow> 'z kstate_scheme \<Rightarrow> (nat \<Rightarrow> proc)" where
  "after_exit me s =
     (let pt = woken_opt (p_parent (ptable s me)) (ptable s);
          pt = (if orphan_zombie me [0..<NPROC] pt then woken_opt (initproc s) pt else pt);
          pt = adopted (initproc s) me [0..<NPROC] pt in
      pt(me := (pt me)\<lparr>p_state := ZOMBIE\<rparr>))"

lemma exit_hand_over_run:
  assumes "spin_free s" "initproc s \<noteq> Some me"
  shows "exit_hand_over me s = Inr ((), s\<lparr>
     locks := (locks s)(Lptable := (locks s Lptable)\<lparr>lk_locked := True, lk_cpu := Some (this_cpu s)\<rparr>),
     ptable := after_exit me s\<rparr>)"
  using assms by (simp add: exit_hand_over_def kop_simps lock_simps reparent_run after_exit_def Let_def)

section \<open>The scan of \<open>wait\<close>\<close>

lemma wait_scan_Some:
  "\<exists>p\<in>set ps. p_parent (pt p) = Some me \<and> p_state (pt p) = ZOMBIE \<Longrightarrow>
   \<exists>p\<in>set ps. wait_scan me pt ps kids = (Some p, True) \<and> p_parent (pt p) = Some me \<and> p_state (pt p) = ZOMBIE"
  by (induction ps arbitrary: kids) auto

lemma wait_scan_None:
  "\<forall>p\<in>set ps. p_parent (pt p) = Some me \<longrightarrow> p_state (pt p) \<noteq> ZOMBIE \<Longrightarrow>
   wait_scan me pt ps kids = (None, kids \<or> (\<exists>p\<in>set ps. p_parent (pt p) = Some me))"
  by (induction ps arbitrary: kids) auto

lemma after_exit_parent:
  "p_parent (after_exit me s q) = (if q < NPROC \<and> p_parent (ptable s q) = Some me then initproc s else p_parent (ptable s q))"
  by (auto simp: after_exit_def Let_def adopted_def)

lemma after_exit_zombie: "p_state (after_exit me s q) = ZOMBIE \<longleftrightarrow> q = me \<or> p_state (ptable s q) = ZOMBIE"
  by (simp add: after_exit_def Let_def adopted_def)

lemma orphan_zombie_woken [simp]: "orphan_zombie me ps (woken_opt r pt) = orphan_zombie me ps pt"
  by (simp add: orphan_zombie_def)

lemma woken_opt_sleeping:
  assumes "q < NPROC" "p_state (woken_opt r pt q) = SLEEPING" "p_chan (woken_opt r pt q) = Some (Cproc q)"
  shows "p_state (pt q) = SLEEPING \<and> p_chan (pt q) = Some (Cproc q) \<and> r \<noteq> Some q"
  using assms by (auto simp: woken_opt_def woken_def split: option.splits if_splits)

lemma after_exit_sleeping:
  assumes "q < NPROC" "p_state (after_exit me s q) = SLEEPING" "p_chan (after_exit me s q) = Some (Cproc q)"
  shows "q \<noteq> me \<and> p_state (ptable s q) = SLEEPING \<and> p_chan (ptable s q) = Some (Cproc q) \<and>
    p_parent (ptable s me) \<noteq> Some q \<and> (orphan_zombie me [0..<NPROC] (ptable s) \<longrightarrow> initproc s \<noteq> Some q)"
proof -
  let ?pt = "woken_opt (p_parent (ptable s me)) (ptable s)"
  let ?oz = "orphan_zombie me [0..<NPROC] (ptable s)"
  let ?pt2 = "if ?oz then woken_opt (initproc s) ?pt else ?pt"
  have ne: "q \<noteq> me" using assms(2) by (auto simp: after_exit_def Let_def)
  then have "p_state (?pt2 q) = SLEEPING" "p_chan (?pt2 q) = Some (Cproc q)"
    using assms(2,3) by (auto simp: after_exit_def Let_def adopted_def split: if_splits)
  then have "p_state (?pt q) = SLEEPING \<and> p_chan (?pt q) = Some (Cproc q) \<and> (?oz \<longrightarrow> initproc s \<noteq> Some q)"
    using woken_opt_sleeping [OF assms(1)] by (metis (full_types))
  with ne show ?thesis using woken_opt_sleeping [OF assms(1), of "p_parent (ptable s me)" "ptable s"] by simp
qed

lemma after_exit_wakes:
  assumes "p_parent (ptable s me) = Some q" "q < NPROC" "q \<noteq> me"
    "p_state (ptable s q) = SLEEPING" "p_chan (ptable s q) = Some (Cproc q)"
  shows "p_state (after_exit me s q) = RUNNABLE"
  using assms by (simp add: after_exit_def Let_def adopted_def woken_opt_def) (auto simp: woken_def split: option.splits)

section \<open>No lost child\<close>

text \<open>A process that sleeps in \<open>wait\<close>, on its own channel, has no child to collect.\<close>

definition wait_inv :: "(nat \<Rightarrow> proc) \<Rightarrow> bool" where
  "wait_inv pt \<longleftrightarrow> (\<forall>q<NPROC. p_state (pt q) = SLEEPING \<and> p_chan (pt q) = Some (Cproc q) \<longrightarrow>
     (\<forall>z<NPROC. p_parent (pt z) = Some q \<longrightarrow> p_state (pt z) \<noteq> ZOMBIE))"

lemma wait_inv_after_exit:
  assumes "wait_inv (ptable s)" "p_parent (ptable s me) \<noteq> Some me" "initproc s \<noteq> Some me"
  shows "wait_inv (after_exit me s)"
  unfolding wait_inv_def
proof (intro allI impI notI, elim conjE)
  fix q z assume q: "q < NPROC" "p_state (after_exit me s q) = SLEEPING" "p_chan (after_exit me s q) = Some (Cproc q)"
    and z: "z < NPROC" "p_parent (after_exit me s z) = Some q" "p_state (after_exit me s z) = ZOMBIE"
  note S = after_exit_sleeping [OF q]
  show False
  proof (cases "z = me \<or> p_parent (ptable s z) \<noteq> Some me")
    case True
    then have par: "p_parent (ptable s z) = Some q" using z(2) assms(2) by (auto simp: after_exit_parent split: if_splits)
    then have "z \<noteq> me" using S by auto
    then have "p_state (ptable s z) = ZOMBIE" using z(3) by (simp add: after_exit_zombie)
    with par S q(1) z(1) assms(1) show False by (auto simp: wait_inv_def)
  next
    case False
    then have "orphan_zombie me [0..<NPROC] (ptable s)" using z(1,3) by (auto simp: orphan_zombie_def after_exit_zombie)
    moreover have "initproc s = Some q" using False z(1,2) by (simp add: after_exit_parent)
    ultimately show False using S by simp
  qed
qed

lemma wait_sleeps_run:
  assumes "spin_free s" "thisproc s = Some me" "\<not> p_killed (ptable s me)"
    "wait_scan me (ptable s) [0..<NPROC] False = (None, True)"
  shows "wait s = Inl (Switch (s\<lparr>
     locks := (locks s)(Lptable := (locks s Lptable)\<lparr>lk_locked := True, lk_cpu := Some (this_cpu s)\<rparr>),
     ptable := (ptable s)(me := (ptable s me)\<lparr>p_chan := Some (Cproc me), p_state := SLEEPING\<rparr>)\<rparr>))"
proof -
  have "cpu_proc s (this_cpu s) = Some me" using assms(2) by (simp add: thisproc_def)
  then show ?thesis using assms
    by (simp add: wait_def numeral_2_eq_2 sleep_def sleep_enter_eq sched_def kop_simps lock_simps thisproc_def)
qed

text \<open>
  C30. No lost child: a process that sleeps in \<open>wait\<close> has no zombie child. An exiting process keeps that
  so: it becomes a zombie under the table lock, wakes its parent if that sleeps in \<open>wait\<close>, after which
  the parent's scan finds a zombie of its own, and leaves its children, zombies or not, to the first
  process. A parent that finds children but no zombie goes to sleep, keeping it so, too.
\<close>

theorem exit_meets_wait:
  assumes "spin_free s" "thisproc s = Some me" "wait_inv (ptable s)"
    and "initproc s = Some ip" "ip \<noteq> me" "p_parent (ptable s me) = Some q" "me < NPROC" "q < NPROC" "q \<noteq> me"
  shows "(\<exists>t. exit_hand_over me s = Inr ((), t) \<and> holding Lptable t \<and> wait_inv (ptable t) \<and>
      p_state (ptable t me) = ZOMBIE \<and>
      (p_state (ptable s q) = SLEEPING \<and> p_chan (ptable s q) = Some (Cproc q) \<longrightarrow> p_state (ptable t q) = RUNNABLE) \<and>
      (\<exists>z<NPROC. wait_scan q (ptable t) [0..<NPROC] False = (Some z, True) \<and>
         p_parent (ptable t z) = Some q \<and> p_state (ptable t z) = ZOMBIE) \<and>
      (\<forall>r<NPROC. p_parent (ptable t r) = (if p_parent (ptable s r) = Some me then Some ip else p_parent (ptable s r)))) \<and>
    (wait_scan me (ptable s) [0..<NPROC] False = (None, True) \<and> \<not> p_killed (ptable s me) \<longrightarrow>
      (\<exists>u. wait s = Inl (Switch u) \<and> wait_inv (ptable u) \<and> p_state (ptable u me) = SLEEPING \<and>
        p_chan (ptable u me) = Some (Cproc me)))"
proof (intro conjI impI)
  let ?t = "s\<lparr>locks := (locks s)(Lptable := (locks s Lptable)\<lparr>lk_locked := True, lk_cpu := Some (this_cpu s)\<rparr>),
     ptable := after_exit me s\<rparr>"
  have run: "exit_hand_over me s = Inr ((), ?t)" using assms(1,4,5) by (intro exit_hand_over_run) simp_all
  have inv: "wait_inv (after_exit me s)" using assms by (intro wait_inv_after_exit) simp_all
  have par: "p_parent (after_exit me s r) = (if p_parent (ptable s r) = Some me then Some ip else p_parent (ptable s r))"
    if "r < NPROC" for r using that assms(4) by (simp add: after_exit_parent)
  have "\<exists>z\<in>set [0..<NPROC]. p_parent (after_exit me s z) = Some q \<and> p_state (after_exit me s z) = ZOMBIE"
    using assms(6-9) by (intro bexI [of _ me]) (simp_all add: after_exit_parent after_exit_zombie)
  then have scan: "\<exists>z<NPROC. wait_scan q (after_exit me s) [0..<NPROC] False = (Some z, True) \<and>
      p_parent (after_exit me s z) = Some q \<and> p_state (after_exit me s z) = ZOMBIE"
    using wait_scan_Some [of "[0..<NPROC]" "after_exit me s" q False] by auto
  have wake: "p_state (after_exit me s q) = RUNNABLE" if "p_state (ptable s q) = SLEEPING \<and> p_chan (ptable s q) = Some (Cproc q)"
    using that assms(6,8,9) by (intro after_exit_wakes) simp_all
  show "\<exists>t. exit_hand_over me s = Inr ((), t) \<and> holding Lptable t \<and> wait_inv (ptable t) \<and>
      p_state (ptable t me) = ZOMBIE \<and>
      (p_state (ptable s q) = SLEEPING \<and> p_chan (ptable s q) = Some (Cproc q) \<longrightarrow> p_state (ptable t q) = RUNNABLE) \<and>
      (\<exists>z<NPROC. wait_scan q (ptable t) [0..<NPROC] False = (Some z, True) \<and>
         p_parent (ptable t z) = Some q \<and> p_state (ptable t z) = ZOMBIE) \<and>
      (\<forall>r<NPROC. p_parent (ptable t r) = (if p_parent (ptable s r) = Some me then Some ip else p_parent (ptable s r)))"
    using run inv par scan wake by (intro exI [of _ ?t]) (simp add: holding_def after_exit_zombie)
next
  assume w: "wait_scan me (ptable s) [0..<NPROC] False = (None, True) \<and> \<not> p_killed (ptable s me)"
  then have "\<forall>z<NPROC. p_parent (ptable s z) = Some me \<longrightarrow> p_state (ptable s z) \<noteq> ZOMBIE"
    using wait_scan_Some [of "[0..<NPROC]" "ptable s" me False] by (auto simp: Bex_def)
  then have "wait_inv ((ptable s)(me := (ptable s me)\<lparr>p_chan := Some (Cproc me), p_state := SLEEPING\<rparr>))"
    using assms(3) by (auto simp: wait_inv_def)
  then show "\<exists>u. wait s = Inl (Switch u) \<and> wait_inv (ptable u) \<and> p_state (ptable u me) = SLEEPING \<and>
      p_chan (ptable u me) = Some (Cproc me)"
    using wait_sleeps_run [OF assms(1,2)] w by simp
qed

text \<open>A process table with the first process 0, a parent 1 asleep in \<open>wait\<close>, its child 2 and a zombie grandchild 3.\<close>

definition demo_family :: memstate where
  "demo_family = demo_mem\<lparr>this_cpu := 0, cpu_proc := (\<lambda>_. Some 2), initproc := Some 0,
     ptable := (\<lambda>_. demo_proc)(0 := demo_proc\<lparr>p_state := SLEEPING, p_chan := Some (Cproc 0)\<rparr>,
       1 := demo_proc\<lparr>p_state := SLEEPING, p_chan := Some (Cproc 1), p_parent := Some 0\<rparr>,
       2 := demo_proc\<lparr>p_state := RUNNING, p_parent := Some 1\<rparr>,
       3 := demo_proc\<lparr>p_state := ZOMBIE, p_parent := Some 2\<rparr>)\<rparr>"

theorem exit_meets_wait_witness:
  "\<exists>t. exit_hand_over 2 demo_family = Inr ((), t) \<and> wait_inv (ptable t) \<and> p_state (ptable t 1) = RUNNABLE \<and>
     (\<exists>z<NPROC. wait_scan 1 (ptable t) [0..<NPROC] False = (Some z, True)) \<and> p_parent (ptable t 3) = Some 0"
proof -
  have "spin_free demo_family" using demo_mem(1) by (simp add: demo_family_def spin_free_def)
  moreover have "thisproc demo_family = Some 2" "wait_inv (ptable demo_family)"
    by (auto simp: demo_family_def demo_proc_def thisproc_def wait_inv_def)
  moreover have "initproc demo_family = Some 0" "p_parent (ptable demo_family 2) = Some 1"
    "p_parent (ptable demo_family 3) = Some 2"
    "p_state (ptable demo_family 1) = SLEEPING" "p_chan (ptable demo_family 1) = Some (Cproc 1)"
    by (simp_all add: demo_family_def demo_proc_def)
  moreover have "(1::nat) < NPROC" "(2::nat) < NPROC" "(3::nat) < NPROC" by (simp_all add: NPROC_def)
  ultimately show ?thesis using exit_meets_wait [of demo_family 2 0 1] by auto
qed

end
