(* ===== verification/Fdesc.thy ===== *)
theory Fdesc
  imports Procs
begin

text \<open>
  File descriptors and reference counts: the invariant that every open file counts exactly the
  descriptors that refer to it, kept by \<open>sys_dup\<close>, \<open>sys_close\<close> and the copying of descriptors in
  \<open>fork\<close>.
\<close>

section \<open>Counting references\<close>

definition fd_slots :: "(nat \<times> nat) set" where
  "fd_slots = {0..<NPROC} \<times> {0..<NOFILE}"

definition fd_at :: "(nat \<Rightarrow> proc) \<Rightarrow> nat \<times> nat \<Rightarrow> nat option" where
  "fd_at pt x = p_ofile (pt (fst x)) ! snd x"

definition fd_refs :: "(nat \<Rightarrow> proc) \<Rightarrow> nat \<Rightarrow> nat" where
  "fd_refs pt f = card {x \<in> fd_slots. fd_at pt x = Some f}"

definition fd_inv :: "'z filestate_scheme \<Rightarrow> bool" where
  "fd_inv s \<longleftrightarrow>
     (\<forall>f<NFILE. f_ref (ftable s f) = int (fd_refs (ptable s) f)) \<and>
     (\<forall>p<NPROC. length (p_ofile (ptable s p)) = NOFILE) \<and>
     (\<forall>x\<in>fd_slots. \<forall>f. fd_at (ptable s) x = Some f \<longrightarrow> f < NFILE)"

lemma fd_invD:
  assumes "fd_inv s"
  shows "f < NFILE \<Longrightarrow> f_ref (ftable s f) = int (fd_refs (ptable s) f)"
    and "p < NPROC \<Longrightarrow> length (p_ofile (ptable s p)) = NOFILE"
    and "p < NPROC \<Longrightarrow> i < NOFILE \<Longrightarrow> p_ofile (ptable s p) ! i = Some f \<Longrightarrow> f < NFILE"
  using assms by (auto simp: fd_inv_def fd_slots_def fd_at_def)

lemma finite_fd_slots [simp]: "finite fd_slots"
  by (simp add: fd_slots_def)

text \<open>Storing a descriptor in one slot.\<close>

definition put_fd :: "nat \<Rightarrow> nat \<Rightarrow> nat option \<Rightarrow> (nat \<Rightarrow> proc) \<Rightarrow> (nat \<Rightarrow> proc)" where
  "put_fd p i r pt = pt(p := (pt p)\<lparr>p_ofile := (p_ofile (pt p))[i := r]\<rparr>)"

lemma set_ofile_run [kop_simps]: "set_ofile p i r s = Inr ((), s\<lparr>ptable := put_fd p i r (ptable s)\<rparr>)"
  by (simp add: set_ofile_def put_fd_def kop_simps)

lemma fd_at_put:
  assumes "i < length (p_ofile (pt p))"
  shows "fd_at (put_fd p i r pt) x = (if x = (p, i) then r else fd_at pt x)"
  using assms by (cases x) (auto simp: fd_at_def put_fd_def)

lemma put_fd_length: "length (p_ofile (put_fd p i r pt q)) = length (p_ofile (pt q))"
  by (simp add: put_fd_def)

lemma put_fd_self: "p_ofile (put_fd p i r pt p) = (p_ofile (pt p))[i := r]"
  by (simp add: put_fd_def)

lemma put_fd_other: "q \<noteq> p \<Longrightarrow> put_fd p i r pt q = pt q"
  by (simp add: put_fd_def)

lemma fd_refs_put:
  assumes "i < length (p_ofile (pt p))" "p < NPROC" "i < NOFILE" "p_ofile (pt p) ! i = old" "old \<noteq> Some f \<or> r \<noteq> Some f"
  shows "int (fd_refs (put_fd p i r pt) f) = int (fd_refs pt f) + of_bool (r = Some f) - of_bool (old = Some f)"
proof -
  let ?A = "{x \<in> fd_slots. fd_at pt x = Some f}" and ?B = "{x \<in> fd_slots. fd_at (put_fd p i r pt) x = Some f}"
  have in_slots: "(p, i) \<in> fd_slots" using assms(2,3) by (simp add: fd_slots_def)
  have old: "fd_at pt (p, i) = old" using assms(4) by (simp add: fd_at_def)
  have B: "?B = (if r = Some f then insert (p, i) (?A - {(p, i)}) else ?A - {(p, i)})"
    using in_slots by (auto simp: fd_at_put [where pt = pt and r = r and i = i and p = p, OF assms(1)])
  show ?thesis
  proof (cases "old = Some f")
    case True
    then have "(p, i) \<in> ?A" "r \<noteq> Some f" using in_slots old assms(5) by auto
    moreover from this have "card ?A > 0" by (subst card_gt_0_iff) auto
    ultimately show ?thesis using True unfolding fd_refs_def B by (simp add: card_Diff_singleton)
  next
    case False
    then have A: "?A - {(p, i)} = ?A" using old by auto
    have "(p, i) \<notin> ?A" using False old by auto
    then show ?thesis using False unfolding fd_refs_def B A by auto
  qed
qed

section \<open>The operations on one file\<close>

lemma filedup_run:
  assumes "spin_free s" "f_ref (ftable s f) \<ge> 1"
  shows "filedup f s = Inr (f, s\<lparr>ftable := (ftable s)(f := (ftable s f)\<lparr>f_ref := f_ref (ftable s f) + 1\<rparr>)\<rparr>)"
  using assms by (simp add: filedup_def kop_simps lock_simps)

lemma filedup_unused: "spin_free s \<Longrightarrow> f_ref (ftable s f) < 1 \<Longrightarrow> filedup f s = Inl (Panic ''filedup'')"
  by (simp add: filedup_def kop_simps lock_simps)

lemma fileclose_shared:
  assumes "spin_free s" "f_ref (ftable s f) > 1"
  shows "fileclose f s = Inr ((), s\<lparr>ftable := (ftable s)(f := (ftable s f)\<lparr>f_ref := f_ref (ftable s f) - 1\<rparr>)\<rparr>)"
  using assms by (simp add: fileclose_def kop_simps lock_simps)

lemma fileclose_unused: "spin_free s \<Longrightarrow> f_ref (ftable s f) < 1 \<Longrightarrow> fileclose f s = Inl (Panic ''fileclose: invalid ref'')"
  by (simp add: fileclose_def kop_simps lock_simps)

lemma fd_refs_pos:
  assumes "p < NPROC" "i < NOFILE" "p_ofile (pt p) ! i = Some f"
  shows "fd_refs pt f \<ge> 1"
proof -
  have "(p, i) \<in> {x \<in> fd_slots. fd_at pt x = Some f}" using assms by (simp add: fd_slots_def fd_at_def)
  moreover have "finite {x \<in> fd_slots. fd_at pt x = Some f}" by simp
  ultimately have "card {x \<in> fd_slots. fd_at pt x = Some f} > 0" by (subst card_gt_0_iff) blast
  then show ?thesis by (simp add: fd_refs_def)
qed

text \<open>Giving out and taking back one reference keeps the invariant.\<close>

lemma fd_inv_add:
  assumes "fd_inv s" "p < NPROC" "i < NOFILE" "p_ofile (ptable s p) ! i = None" "f < NFILE"
    and "ptable t = put_fd p i (Some f) (ptable s)"
    and "ftable t = (ftable s)(f := (ftable s f)\<lparr>f_ref := f_ref (ftable s f) + 1\<rparr>)"
  shows "fd_inv t"
proof -
  have len: "i < length (p_ofile (ptable s p))" using fd_invD(2) [OF assms(1,2)] assms(3) by simp
  have "f_ref (ftable t g) = int (fd_refs (ptable t) g)" if "g < NFILE" for g
    using fd_refs_put [where pt = "ptable s" and f = g and r = "Some f", OF len assms(2,3,4)] fd_invD(1) [OF assms(1) that] by (auto simp: assms(6,7))
  moreover have "\<forall>x\<in>fd_slots. \<forall>g. fd_at (ptable t) x = Some g \<longrightarrow> g < NFILE"
    using assms(1,5) unfolding fd_inv_def assms(6) fd_at_put [where pt = "ptable s" and p = p and i = i, OF len] by auto
  ultimately show ?thesis using assms(1) by (simp add: fd_inv_def assms(6) put_fd_length)
qed

lemma fd_inv_remove:
  assumes "fd_inv s" "p < NPROC" "i < NOFILE" "p_ofile (ptable s p) ! i = Some f"
    and "ptable t = put_fd p i None (ptable s)"
    and "ftable t = (ftable s)(f := (ftable s f)\<lparr>f_ref := f_ref (ftable s f) - 1\<rparr>)"
  shows "fd_inv t"
proof -
  have len: "i < length (p_ofile (ptable s p))" using fd_invD(2) [OF assms(1,2)] assms(3) by simp
  have "f_ref (ftable t g) = int (fd_refs (ptable t) g)" if "g < NFILE" for g
    using fd_refs_put [where pt = "ptable s" and f = g and r = None, OF len assms(2,3,4)] fd_invD(1) [OF assms(1) that] by (auto simp: assms(5,6))
  moreover have "\<forall>x\<in>fd_slots. \<forall>g. fd_at (ptable t) x = Some g \<longrightarrow> g < NFILE"
    using assms(1) unfolding fd_inv_def assms(5) fd_at_put [where pt = "ptable s" and p = p and i = i, OF len] by auto
  ultimately show ?thesis using assms(1) by (simp add: fd_inv_def assms(5) put_fd_length)
qed

section \<open>Arguments\<close>

lemma argint_run [kop_simps]:
  "thisproc s = Some p \<Longrightarrow> n \<le> 3 \<Longrightarrow> argint n s = Inr (read64 (mem s) (p_tf (ptable s p) + tf_reg n), s)"
  by (simp add: argint_def kop_simps)

text \<open>The descriptor and the file that argument \<open>n\<close> of process \<open>p\<close> names.\<close>

definition fd_arg :: "'z memstate_scheme \<Rightarrow> nat \<Rightarrow> nat \<Rightarrow> (nat \<times> nat) option" where
  "fd_arg s p n =
     (let fd = sint (read64 (mem s) (p_tf (ptable s p) + tf_reg n)) in
      if 0 \<le> fd \<and> fd < int NOFILE then map_option (Pair (nat fd)) (p_ofile (ptable s p) ! nat fd) else None)"

lemma argfd_run [kop_simps]:
  "thisproc s = Some p \<Longrightarrow> n \<le> 3 \<Longrightarrow> argfd n s = Inr (fd_arg s p n, s)"
  by (auto simp: argfd_def fd_arg_def Let_def kop_simps split: option.split)

lemma fd_arg_SomeD: "fd_arg s p n = Some (fd, f) \<Longrightarrow> fd < NOFILE \<and> p_ofile (ptable s p) ! fd = Some f"
  by (auto simp: fd_arg_def Let_def split: if_splits)

lemma fdalloc_run:
  assumes "thisproc s = Some p"
  shows "fdalloc f s = (case List.find (\<lambda>i. p_ofile (ptable s p) ! i = None) [0..<NOFILE] of
     None \<Rightarrow> Inr (-1, s) | Some i \<Rightarrow> Inr (int i, s\<lparr>ptable := put_fd p i (Some f) (ptable s)\<rparr>))"
  using assms by (simp add: fdalloc_def kop_simps split: option.split)

section \<open>Properties\<close>

text \<open>
  C31. \<open>sys_dup\<close>: with every file counting the descriptors that refer to it, the call returns -1 and
  changes nothing when its argument is not an open descriptor or no slot is free; otherwise it returns
  the lowest free descriptor, which now refers to the same file, and counts the reference. Either way
  the counts stay exact.
\<close>

theorem sys_dup_correct:
  assumes "spin_free s" "thisproc s = Some p" "p < NPROC" "fd_inv s"
  shows "\<exists>r t. sys_dup s = Inr (r, t) \<and> fd_inv t \<and>
    (case fd_arg s p 0 of
       None \<Rightarrow> r = -1 \<and> t = s
     | Some (fd, f) \<Rightarrow>
         if \<forall>i<NOFILE. p_ofile (ptable s p) ! i \<noteq> None then r = -1 \<and> t = s
         else \<exists>i<NOFILE. r = int i \<and> p_ofile (ptable s p) ! i = None \<and> (\<forall>j<i. p_ofile (ptable s p) ! j \<noteq> None) \<and>
           p_ofile (ptable t p) = (p_ofile (ptable s p))[i := Some f] \<and>
           ftable t = (ftable s)(f := (ftable s f)\<lparr>f_ref := f_ref (ftable s f) + 1\<rparr>))"
proof (cases "fd_arg s p 0")
  case None
  then show ?thesis using assms by (simp add: sys_dup_def kop_simps)
next
  case (Some a)
  obtain fd f where a: "a = (fd, f)" by (cases a)
  note F = fd_arg_SomeD [OF Some [unfolded a]]
  show ?thesis
  proof (cases "List.find (\<lambda>i. p_ofile (ptable s p) ! i = None) [0..<NOFILE]")
    case None
    then have "\<forall>i<NOFILE. p_ofile (ptable s p) ! i \<noteq> None" by (simp add: find_upt_None)
    then show ?thesis using assms Some a None by (simp add: sys_dup_def kop_simps fdalloc_run)
  next
    case (Some i)
    then have i: "i < NOFILE" "p_ofile (ptable s p) ! i = None" "\<forall>j<i. p_ofile (ptable s p) ! j \<noteq> None"
      by (auto simp: find_upt_Some)
    have f: "f < NFILE" using fd_invD(3) [OF assms(4,3)] F by blast
    have "f_ref (ftable s f) \<ge> 1"
      using fd_invD(1) [OF assms(4) f] fd_refs_pos [of p fd "ptable s" f] assms(3) F by simp
    then have run: "sys_dup s = Inr (int i, s\<lparr>ptable := put_fd p i (Some f) (ptable s),
        ftable := (ftable s)(f := (ftable s f)\<lparr>f_ref := f_ref (ftable s f) + 1\<rparr>)\<rparr>)" (is "_ = Inr (_, ?t)")
      using assms \<open>fd_arg s p 0 = Some a\<close> a Some
      by (simp add: sys_dup_def kop_simps fdalloc_run filedup_run spin_free_def)
    have "fd_inv ?t" using fd_inv_add [OF assms(4,3) i(1,2) f, of ?t] by simp
    then show ?thesis using run i \<open>fd_arg s p 0 = Some a\<close> a by (auto simp: put_fd_self)
  qed
qed

text \<open>
  The loop over the parent's descriptors. \<open>copied me p ks s t\<close>: the descriptors \<open>ks\<close> of \<open>me\<close> are now
  those of \<open>p\<close>, too, and nothing else of the processes and the open files changed but reference counts.
\<close>

definition copied :: "nat \<Rightarrow> nat \<Rightarrow> nat list \<Rightarrow> 'z filestate_scheme \<Rightarrow> 'z filestate_scheme \<Rightarrow> bool" where
  "copied me p ks s t \<longleftrightarrow>
     (\<forall>q. q \<noteq> p \<longrightarrow> ptable t q = ptable s q) \<and> ptable t p = (ptable s p)\<lparr>p_ofile := p_ofile (ptable t p)\<rparr> \<and>
     (\<forall>i<NOFILE. p_ofile (ptable t p) ! i = p_ofile (ptable s (if i \<in> set ks then me else p)) ! i) \<and>
     (\<forall>f. (ftable t f)\<lparr>f_ref := 0\<rparr> = (ftable s f)\<lparr>f_ref := 0\<rparr>)"

lemma fork_files_run:
  assumes "spin_free s" "me < NPROC" "p < NPROC" "me \<noteq> p" "fd_inv s" "distinct ks" "set ks \<subseteq> {0..<NOFILE}"
    and "\<forall>i\<in>set ks. p_ofile (ptable s p) ! i = None"
  shows "\<exists>t. fork_files me p ks s = Inr ((), t) \<and> fd_inv t \<and> spin_free t \<and> copied me p ks s t"
  using assms
proof (induction ks arbitrary: s)
  case Nil
  then show ?case by (simp add: kop_simps copied_def)
next
  case (Cons i ks)
  note [simp] = Cons.prems(4)
  have i: "i < NOFILE" "i \<notin> set ks" "p_ofile (ptable s p) ! i = None" using Cons.prems(6-8) by auto
  show ?case
  proof (cases "p_ofile (ptable s me) ! i")
    case None
    then have "fork_files me p (i # ks) s = fork_files me p ks s" by (simp add: kop_simps)
    moreover obtain t where "fork_files me p ks s = Inr ((), t)" "fd_inv t" "spin_free t" "copied me p ks s t"
      using Cons.IH [of s] Cons.prems by auto
    moreover from this have "copied me p (i # ks) s t" using i None by (auto simp: copied_def)
    ultimately show ?thesis by auto
  next
    case (Some f)
    have f: "f < NFILE" using fd_invD(3) [OF Cons.prems(5,2) i(1) Some] .
    have "f_ref (ftable s f) \<ge> 1"
      using fd_invD(1) [OF Cons.prems(5) f] fd_refs_pos [of me i "ptable s" f] Cons.prems(2) i(1) Some by simp
    have len: "i < length (p_ofile (ptable s p))" using fd_invD(2) [OF Cons.prems(5,3)] i(1) by simp
    define s1 where "s1 = s\<lparr>ftable := (ftable s)(f := (ftable s f)\<lparr>f_ref := f_ref (ftable s f) + 1\<rparr>),
        ptable := put_fd p i (Some f) (ptable s)\<rparr>"
    have "fork_files me p (i # ks) s = fork_files me p ks s1"
      using Some Cons.prems(1) \<open>f_ref (ftable s f) \<ge> 1\<close> by (simp add: kop_simps filedup_run s1_def)
    moreover have "fd_inv s1" using fd_inv_add [OF Cons.prems(5,3) i(1,3) f, of s1] by (simp add: s1_def)
    moreover have "spin_free s1" using Cons.prems(1) by (simp add: s1_def spin_free_def)
    moreover have "\<forall>j\<in>set ks. p_ofile (ptable s1 p) ! j = None"
      using Cons.prems(8) i(2) len by (auto simp: s1_def put_fd_self nth_list_update)
    ultimately obtain t where t: "fork_files me p (i # ks) s = Inr ((), t)" "fd_inv t" "spin_free t" "copied me p ks s1 t"
      using Cons.IH [of s1] Cons.prems by auto
    have "copied me p (i # ks) s t"
      using t(4) Some i len unfolding copied_def s1_def
      by (auto simp: put_fd_self put_fd_other nth_list_update fun_upd_apply put_fd_def split: if_splits)
    with t show ?thesis by auto
  qed
qed

text \<open>
  C32. Descriptors across \<open>fork\<close>: copying the descriptors of a process into a process that has none
  always succeeds; afterwards both name the same files at the same descriptors, every file counts its
  descriptors exactly, and nothing but the child's descriptors and the counts has changed.
\<close>

theorem fork_shares_files:
  assumes "spin_free s" "me < NPROC" "p < NPROC" "me \<noteq> p" "fd_inv s"
    and "p_ofile (ptable s p) = replicate NOFILE None"
  shows "\<exists>t. fork_files me p [0..<NOFILE] s = Inr ((), t) \<and> fd_inv t \<and> spin_free t \<and>
    p_ofile (ptable t p) = p_ofile (ptable s me) \<and>
    (\<forall>q. q \<noteq> p \<longrightarrow> ptable t q = ptable s q) \<and> ptable t p = (ptable s p)\<lparr>p_ofile := p_ofile (ptable s me)\<rparr> \<and>
    (\<forall>f<NFILE. f_ref (ftable t f) = int (fd_refs (ptable t) f) \<and> (ftable t f)\<lparr>f_ref := 0\<rparr> = (ftable s f)\<lparr>f_ref := 0\<rparr>)"
proof -
  obtain t where t: "fork_files me p [0..<NOFILE] s = Inr ((), t)" "fd_inv t" "spin_free t" "copied me p [0..<NOFILE] s t"
    using fork_files_run [OF assms(1-5), of "[0..<NOFILE]"] assms(6) by auto
  have eq: "p_ofile (ptable t p) = p_ofile (ptable s me)"
  proof (rule nth_equalityI)
    show "length (p_ofile (ptable t p)) = length (p_ofile (ptable s me))"
      using fd_invD(2) [OF t(2) assms(3)] fd_invD(2) [OF assms(5,2)] by simp
    show "p_ofile (ptable t p) ! i = p_ofile (ptable s me) ! i" if "i < length (p_ofile (ptable t p))" for i
      using that t(4) fd_invD(2) [OF t(2) assms(3)] by (simp add: copied_def)
  qed
  have "ptable t p = (ptable s p)\<lparr>p_ofile := p_ofile (ptable s me)\<rparr>" using t(4) eq by (simp add: copied_def)
  then show ?thesis using t eq fd_invD(1) [OF t(2)] by (auto simp: copied_def)
qed

text \<open>
  \<open>sys_close\<close> on a file that other descriptors share: the slot becomes free, the file stays open with
  one reference less, and the counts stay exact. On an argument that is no open descriptor the call
  returns -1 and changes nothing; a file is never closed below its references.
\<close>

theorem sys_close_shared:
  assumes "spin_free s" "thisproc s = Some p" "p < NPROC" "fd_inv s"
    and "\<And>fd f. fd_arg s p 0 = Some (fd, f) \<Longrightarrow> fd_refs (ptable s) f > 1"
  shows "\<exists>r t. sys_close s = Inr (r, t) \<and> fd_inv t \<and>
    (case fd_arg s p 0 of
       None \<Rightarrow> r = -1 \<and> t = s
     | Some (fd, f) \<Rightarrow> r = 0 \<and> p_ofile (ptable t p) = (p_ofile (ptable s p))[fd := None] \<and>
         ftable t = (ftable s)(f := (ftable s f)\<lparr>f_ref := f_ref (ftable s f) - 1\<rparr>) \<and> f_ref (ftable t f) \<ge> 1)"
proof (cases "fd_arg s p 0")
  case None
  then show ?thesis using assms by (simp add: sys_close_def kop_simps)
next
  case (Some a)
  obtain fd f where a: "a = (fd, f)" by (cases a)
  note F = fd_arg_SomeD [OF Some [unfolded a]]
  have f: "f < NFILE" using fd_invD(3) [OF assms(4,3)] F by blast
  have "f_ref (ftable s f) > 1" using fd_invD(1) [OF assms(4) f] assms(5) [OF Some [unfolded a]] by simp
  then have run: "sys_close s = Inr (0, s\<lparr>ptable := put_fd p fd None (ptable s),
      ftable := (ftable s)(f := (ftable s f)\<lparr>f_ref := f_ref (ftable s f) - 1\<rparr>)\<rparr>)" (is "_ = Inr (_, ?t)")
    using assms(1,2) Some a by (simp add: sys_close_def kop_simps fileclose_shared spin_free_def)
  have "fd_inv ?t" using fd_inv_remove [OF assms(4,3), of fd f ?t] F by simp
  then show ?thesis using run Some a \<open>f_ref (ftable s f) > 1\<close> by (auto simp: put_fd_self)
qed

text \<open>A 32-bit count added to a 64-bit address, as a signed number.\<close>

lemma uint_of_int64: "0 \<le> k \<Longrightarrow> k < 2 ^ 64 \<Longrightarrow> uint (word_of_int k :: u64) = k"
  by (simp add: uint_word_of_int)

lemma unat_scast_nonneg: "0 \<le> sint (len :: u32) \<Longrightarrow> unat (scast len :: u64) = nat (sint len)"
proof -
  assume n: "0 \<le> sint len"
  have "sint len < 2 ^ 31" using sint_lt [of len] by simp
  then have "uint (word_of_int (sint len) :: u64) = sint len" using n by (intro uint_of_int64) simp_all
  then show ?thesis unfolding scast_eq unat_eq_nat_uint by simp
qed

lemma unat_add_scast_neg:
  assumes "sint (len :: u32) < 0" "nat (- sint len) \<le> unat (a :: u64)"
  shows "unat (a + scast len) = unat a - nat (- sint len)"
proof -
  have u: "int (unat a) = uint a" by simp
  have "uint a < 2 ^ 64" using uint_lt2p [of a] by simp
  then have k: "0 \<le> uint a + sint len" "uint a + sint len < 2 ^ 64"
    using assms u by linarith+
  have "a + scast len = word_of_int (uint a + sint len)" unfolding scast_eq wi_hom_add [symmetric] by simp
  then have "uint (a + scast len) = uint a + sint len" using uint_of_int64 [OF k] by simp
  then have "int (unat (a + scast len)) = int (unat a) + sint len" by (simp only: uint_nat [symmetric] u)
  then show ?thesis using assms by linarith
qed

lemma argptr_run:
  assumes "thisproc s = Some p" "n \<le> 3"
  defines "a \<equiv> read64 (mem s) (p_tf (ptable s p) + tf_reg n)"
  shows "argptr n len s = Inr (if a < p_sz (ptable s p) \<and> a + scast len \<le> p_sz (ptable s p) then Some a else None, s)"
  using assms by (auto simp: argptr_def kop_simps not_less not_le)

text \<open>
  C37. \<open>argptr\<close>: for a size that is not negative as an \<open>int\<close>, a pointer argument is accepted exactly when
  the whole area lies in the memory of the process. A negative size is no protection: it is accepted
  with every pointer into the process that is large enough, wherever the caller's access may end.
\<close>

theorem argptr_in_bounds:
  assumes "thisproc s = Some p" "n \<le> 3" "p_sz (ptable s p) \<le> UADDR_SZ"
  defines "a \<equiv> read64 (mem s) (p_tf (ptable s p) + tf_reg n)" and "sz \<equiv> p_sz (ptable s p)"
  shows "(0 \<le> sint len \<longrightarrow> argptr n len s =
       Inr (if a < sz \<and> unat a + nat (sint len) \<le> unat sz then Some a else None, s)) \<and>
    (sint len < 0 \<and> nat (- sint len) \<le> unat a \<and> a < sz \<longrightarrow> argptr n len s = Inr (Some a, s))"
proof (intro conjI impI)
  have run: "argptr n len s = Inr (if a < sz \<and> a + scast len \<le> sz then Some a else None, s)"
    unfolding a_def sz_def by (rule argptr_run [OF assms(1,2)])
  have sz: "unat sz \<le> 0x10000000" using assms(3) by (simp add: sz_def UADDR_SZ_def word_le_nat_alt)
  show "argptr n len s = Inr (if a < sz \<and> unat a + nat (sint len) \<le> unat sz then Some a else None, s)" if "0 \<le> sint len"
  proof (cases "a < sz")
    case True
    have l: "unat (scast len :: u64) = nat (sint len)" by (rule unat_scast_nonneg [OF that])
    have "sint len < 2 ^ 31" using sint_lt [of len] by simp
    then have "unat a + unat (scast len :: u64) < 2 ^ 64" using True sz that by (simp add: l word_less_nat_alt)
    then have "unat (a + scast len) = unat a + nat (sint len)" by (subst unat_add64) (simp_all add: l)
    then show ?thesis by (simp add: run word_le_nat_alt)
  qed (simp add: run)
  show "argptr n len s = Inr (Some a, s)" if n: "sint len < 0 \<and> nat (- sint len) \<le> unat a \<and> a < sz"
  proof -
    have "unat (a + scast len) = unat a - nat (- sint len)" using n by (intro unat_add_scast_neg) auto
    then have "a + scast len \<le> sz" using n unfolding word_le_nat_alt word_less_nat_alt by linarith
    then show ?thesis using n by (simp add: run)
  qed
qed

text \<open>
  A process 0 whose descriptors 0 and 2 name file 5, a process 1 without descriptors; the trap frame of
  process 0 lies in memory that is zero, so that argument 0 is descriptor 0.
\<close>

definition demo_file :: file_t where
  "demo_file = \<lparr>f_type = FD_NONE, f_ref = 0, f_readable = False, f_writable = False, f_ip = None, f_off = 0\<rparr>"

definition demo_files :: filestate where
  "demo_files = memstate.extend (demo_mem\<lparr>this_cpu := 0, cpu_proc := (\<lambda>_. Some 0),
      ptable := (\<lambda>_. demo_proc\<lparr>p_ofile := replicate NOFILE None\<rparr>)(0 := demo_proc\<lparr>p_ofile := (replicate NOFILE None)[0 := Some 5, 2 := Some 5]\<rparr>)\<rparr>)
    (filestate.fields ((\<lambda>_. demo_file)(5 := demo_file\<lparr>f_type := FD_INODE, f_ref := 2, f_readable := True, f_ip := Some 0\<rparr>)))"

lemma demo_files_fields:
  "mem demo_files = (\<lambda>_. 0)" "locks demo_files = locks demo_mem" "cpu_proc demo_files = (\<lambda>_. Some 0)" "this_cpu demo_files = 0"
  "p_ofile (ptable demo_files q) = (if q = 0 then (replicate NOFILE None)[0 := Some 5, 2 := Some 5] else replicate NOFILE None)"
  "ftable demo_files f = (if f = 5 then demo_file\<lparr>f_type := FD_INODE, f_ref := 2, f_readable := True, f_ip := Some 0\<rparr> else demo_file)"
  by (simp_all add: demo_files_def memstate.extend_def filestate.fields_def demo_mem_def fsstate.extend_def memstate.fields_def)

lemma demo_files_at: "x \<in> fd_slots \<Longrightarrow> fd_at (ptable demo_files) x = (if x = (0, 0) \<or> x = (0, 2) then Some 5 else None)"
  by (cases x) (auto simp: fd_at_def demo_files_fields fd_slots_def NOFILE_def nth_list_update)

lemma demo_files_refs: "fd_refs (ptable demo_files) f = (if f = 5 then 2 else 0)"
proof -
  have "{x \<in> fd_slots. fd_at (ptable demo_files) x = Some f} = (if f = 5 then {(0, 0), (0, 2)} else {})"
    by (auto simp: demo_files_at fd_slots_def NPROC_def NOFILE_def split: if_splits)
  then show ?thesis by (simp add: fd_refs_def)
qed

lemma demo_files: "spin_free demo_files" "thisproc demo_files = Some 0" "fd_inv demo_files"
  "fd_arg demo_files 0 0 = Some (0, 5)"
proof -
  show "spin_free demo_files" using demo_mem(1) by (simp add: spin_free_def demo_files_fields)
  show "thisproc demo_files = Some 0" by (simp add: thisproc_def demo_files_fields)
  show "fd_inv demo_files"
    by (auto simp: fd_inv_def demo_files_refs demo_files_at NFILE_def split: if_splits) (simp_all add: demo_files_fields demo_file_def)
  have "read64 (mem demo_files) a = 0" for a by (simp add: read64_def demo_files_fields upt_rec)
  then show "fd_arg demo_files 0 0 = Some (0, 5)" by (simp add: fd_arg_def demo_files_fields NOFILE_def)
qed

theorem sys_dup_correct_witness:
  "\<exists>t. sys_dup demo_files = Inr (1, t) \<and> fd_inv t \<and> f_ref (ftable t 5) = 3"
proof -
  let ?full = "\<forall>i<NOFILE. p_ofile (ptable demo_files 0) ! i \<noteq> None"
  have "1 < NOFILE \<and> p_ofile (ptable demo_files 0) ! 1 = None" by (simp add: demo_files_fields NOFILE_def)
  then have free: "\<not> ?full" by blast
  have p0: "0 < NPROC" by (simp add: NPROC_def)
  obtain r t where t: "sys_dup demo_files = Inr (r, t)" "fd_inv t" and
      c: "case fd_arg demo_files 0 0 of None \<Rightarrow> r = -1 \<and> t = demo_files | Some (fd, f) \<Rightarrow>
         if ?full then r = -1 \<and> t = demo_files
         else \<exists>i<NOFILE. r = int i \<and> p_ofile (ptable demo_files 0) ! i = None \<and> (\<forall>j<i. p_ofile (ptable demo_files 0) ! j \<noteq> None) \<and>
           p_ofile (ptable t 0) = (p_ofile (ptable demo_files 0))[i := Some f] \<and>
           ftable t = (ftable demo_files)(f := (ftable demo_files f)\<lparr>f_ref := f_ref (ftable demo_files f) + 1\<rparr>)"
    using sys_dup_correct [OF demo_files(1,2) p0 demo_files(3)] by blast
  obtain i where i: "i < NOFILE" "r = int i" "p_ofile (ptable demo_files 0) ! i = None"
      "\<forall>j<i. p_ofile (ptable demo_files 0) ! j \<noteq> None"
      "ftable t = (ftable demo_files)(5 := (ftable demo_files 5)\<lparr>f_ref := f_ref (ftable demo_files 5) + 1\<rparr>)"
    using c unfolding demo_files(4) option.case prod.case if_not_P [OF free] by blast
  have "i \<noteq> 0"
  proof
    assume "i = 0"
    then show False using i(3) by (simp add: demo_files_fields NOFILE_def)
  qed
  moreover have "\<not> 1 < i" using i(4) by (auto simp: demo_files_fields NOFILE_def)
  ultimately have "i = 1" by simp
  then show ?thesis using t i by (auto simp: demo_files_fields)
qed

theorem fork_shares_files_witness:
  "\<exists>t. fork_files 0 1 [0..<NOFILE] demo_files = Inr ((), t) \<and> p_ofile (ptable t 1) ! 2 = Some 5 \<and> fd_inv t"
proof -
  obtain t where "fork_files 0 1 [0..<NOFILE] demo_files = Inr ((), t)" "fd_inv t"
      "p_ofile (ptable t 1) = p_ofile (ptable demo_files 0)"
    using fork_shares_files [of demo_files 0 1] demo_files by (auto simp: NPROC_def demo_files_fields)
  then show ?thesis by (auto simp: demo_files_fields NOFILE_def)
qed

theorem sys_close_shared_witness:
  "\<exists>t. sys_close demo_files = Inr (0, t) \<and> fd_inv t \<and> p_ofile (ptable t 0) ! 0 = None \<and> f_ref (ftable t 5) \<ge> 1"
proof -
  obtain t where "sys_close demo_files = Inr (0, t)" "fd_inv t" "p_ofile (ptable t 0) = (p_ofile (ptable demo_files 0))[0 := None]"
      "f_ref (ftable t 5) \<ge> 1"
    using sys_close_shared [of demo_files 0] demo_files(1-3) by (auto simp: demo_files(4) demo_files_refs NPROC_def)
  then show ?thesis by (auto simp: demo_files_fields NOFILE_def)
qed

text \<open>A process of one page whose argument 1 is the address 4000: 96 bytes fit, 97 do not, -1 bytes do.\<close>

definition demo_args :: memstate where
  "demo_args = demo_mem\<lparr>this_cpu := 0, cpu_proc := (\<lambda>_. Some 0), ptable := (\<lambda>_. demo_proc\<lparr>p_sz := 0x1000, p_tf := 0x100\<rparr>),
     mem := write64 (\<lambda>_. 0) (0x100 + tf_reg 1) 4000\<rparr>"

theorem argptr_in_bounds_witness:
  "argptr 1 96 demo_args = Inr (Some 4000, demo_args) \<and> argptr 1 97 demo_args = Inr (None, demo_args) \<and>
   argptr 1 (-1) demo_args = Inr (Some 4000, demo_args)"
proof -
  have p: "thisproc demo_args = Some 0" "p_sz (ptable demo_args 0) = 0x1000" "p_tf (ptable demo_args 0) = 0x100"
    "mem demo_args = write64 (\<lambda>_. 0) (0x100 + tf_reg 1) 4000"
    by (simp_all add: demo_args_def thisproc_def)
  have a: "read64 (mem demo_args) (p_tf (ptable demo_args 0) + tf_reg 1) = 4000"
    unfolding p by (rule read_write64)
  have "p_sz (ptable demo_args 0) \<le> UADDR_SZ" by (simp add: p UADDR_SZ_def)
  note B = argptr_in_bounds [OF p(1) _ this, of 1, unfolded a p(2)]
  show ?thesis using B [of 96] B [of 97] B [of "-1"] by simp
qed

end
