(* ===== verification/Sh.thy ===== *)
theory Sh
  imports Prelude
begin

text \<open>
  The command parser of the shell, \<open>user/src/sh/main.c\<close>. The text is a list of characters that ends in
  the terminating zero; a pointer into it is an index, \<open>es\<close> that of the terminator. A command is a
  tree of type \<open>'w cmd\<close>, where \<open>'w\<close> stands for words: the parser's words are pairs of indices, the
  start of the word and its end. The state of a parse is the position and the number of bytes handed
  out by \<open>malloc1\<close>; \<open>panic\<close> and the exit of \<open>malloc1\<close> end it. The recursive routines carry fuel.
\<close>

section \<open>Commands\<close>

text \<open>\<open>O_RDONLY\<close> and \<open>O_WRONLY | O_CREAT\<close>.\<close>

datatype omode = ORead | OWriteCreate

datatype 'w cmd =
  EXEC "'w list"
| REDIR "'w cmd" 'w omode nat
| PIPE "'w cmd" "'w cmd"
| LIST "'w cmd" "'w cmd"
| BACK "'w cmd"

definition MAXARGS :: nat where "MAXARGS = 10"
definition MAXN :: nat where "MAXN = 10000"

record shstate =
  sh_pos :: nat
  sh_used :: nat

text \<open>The sizes of the structures on a machine with 64-bit pointers.\<close>

definition malloc1 :: "nat \<Rightarrow> (shstate, unit) kop" where
  "malloc1 sz =
     seq (upd (\<lambda>s. s\<lparr>sh_used := sh_used s + sz\<rparr>))
     (bind (get (\<lambda>s. sh_used s > MAXN)) (\<lambda>full.
      if full then panic ''malloc1: memory used out'' else ret ()))"

definition execcmd :: "(shstate, 'w cmd) kop" where
  "execcmd = seq (malloc1 168) (ret (EXEC []))"

definition redircmd :: "'w cmd \<Rightarrow> 'w \<Rightarrow> omode \<Rightarrow> nat \<Rightarrow> (shstate, 'w cmd) kop" where
  "redircmd c w m fd = seq (malloc1 40) (ret (REDIR c w m fd))"

definition pipecmd :: "'w cmd \<Rightarrow> 'w cmd \<Rightarrow> (shstate, 'w cmd) kop" where
  "pipecmd l r = seq (malloc1 24) (ret (PIPE l r))"

definition listcmd :: "'w cmd \<Rightarrow> 'w cmd \<Rightarrow> (shstate, 'w cmd) kop" where
  "listcmd l r = seq (malloc1 24) (ret (LIST l r))"

definition backcmd :: "'w cmd \<Rightarrow> (shstate, 'w cmd) kop" where
  "backcmd c = seq (malloc1 16) (ret (BACK c))"

text \<open>
  Storing an argument through \<open>cmd\<close>, which points at the \<open>EXEC\<close> inside the redirections made so far.
\<close>

fun add_arg :: "'w \<Rightarrow> 'w cmd \<Rightarrow> 'w cmd" where
  "add_arg w (EXEC ws) = EXEC (ws @ [w])"
| "add_arg w (REDIR c f m fd) = REDIR (add_arg w c) f m fd"
| "add_arg w c = c"

section \<open>Tokens\<close>

definition NUL :: char where "NUL = CHR 0x00"
definition TAB :: char where "TAB = CHR 0x09"

definition whitespace :: string where
  "whitespace = [CHR '' '', CHR 0x09, CHR 0x0D, CHR 0x0A, CHR 0x0B]"

definition symbols :: string where
  "symbols = ''<|>&;()''"

definition is_white :: "char \<Rightarrow> bool" where "is_white c \<longleftrightarrow> c \<in> set whitespace"
definition is_symbol :: "char \<Rightarrow> bool" where "is_symbol c \<longleftrightarrow> c \<in> set symbols"

text \<open>\<open>while (s < es && ...) s++\<close>\<close>

definition advance :: "(char \<Rightarrow> bool) \<Rightarrow> string \<Rightarrow> nat \<Rightarrow> nat \<Rightarrow> nat" where
  "advance P buf es s = s + length (takeWhile P (drop s (take es buf)))"

text \<open>The token at \<open>s\<close>: its kind, where it starts and ends, and where the next one starts.\<close>

definition gettoken :: "string \<Rightarrow> nat \<Rightarrow> nat \<Rightarrow> char \<times> (nat \<times> nat) \<times> nat" where
  "gettoken buf es s =
     (let q = advance is_white buf es s;
          c = buf ! q;
          (tok, eq) =
            (if c = NUL then (c, q)
             else if c \<in> set ''|();&<'' then (c, q + 1)
             else if c = CHR ''>'' then
               (if buf ! (q + 1) = CHR ''>'' then (CHR ''+'', q + 2) else (c, q + 1))
             else (CHR ''a'', advance (\<lambda>c. \<not> is_white c \<and> \<not> is_symbol c) buf es q)) in
      (tok, (q, eq), advance is_white buf es eq))"

definition next_token :: "string \<Rightarrow> nat \<Rightarrow> (shstate, char \<times> (nat \<times> nat)) kop" where
  "next_token buf es = (\<lambda>s.
     let (tok, w, n) = gettoken buf es (sh_pos s) in Inr ((tok, w), s\<lparr>sh_pos := n\<rparr>))"

definition peek :: "string \<Rightarrow> nat \<Rightarrow> string \<Rightarrow> (shstate, bool) kop" where
  "peek buf es toks = (\<lambda>s.
     let n = advance is_white buf es (sh_pos s) in
     Inr (buf ! n \<noteq> NUL \<and> buf ! n \<in> set toks, s\<lparr>sh_pos := n\<rparr>))"

section \<open>The parser\<close>

text \<open>One redirection per round; each consumes at least one character.\<close>

definition redir_of :: "char \<Rightarrow> 'w cmd \<Rightarrow> 'w \<Rightarrow> (shstate, 'w cmd) kop" where
  "redir_of tok c w =
     (if tok = CHR ''<'' then redircmd c w ORead 0
      else if tok = CHR ''>'' then redircmd c w OWriteCreate 1
      else if tok = CHR ''+'' then redircmd c w OWriteCreate 1
      else ret c)"

fun parseredirs :: "nat \<Rightarrow> string \<Rightarrow> nat \<Rightarrow> (nat \<times> nat) cmd \<Rightarrow> (shstate, (nat \<times> nat) cmd) kop" where
  "parseredirs 0 buf es c = stop Diverge"
| "parseredirs (Suc n) buf es c =
     bind (peek buf es ''<>'') (\<lambda>more.
     if \<not> more then ret c
     else bind (next_token buf es) (\<lambda>(tok, _).
       bind (next_token buf es) (\<lambda>(t, w).
       if t \<noteq> CHR ''a'' then panic ''missing file for redirection''
       else bind (redir_of tok c w) (parseredirs n buf es))))"

text \<open>The loop of \<open>parseexec\<close> over the arguments.\<close>

fun parseargs :: "nat \<Rightarrow> string \<Rightarrow> nat \<Rightarrow> nat \<Rightarrow> (nat \<times> nat) cmd \<Rightarrow> (shstate, (nat \<times> nat) cmd) kop" where
  "parseargs 0 buf es argc c = stop Diverge"
| "parseargs (Suc n) buf es argc c =
     bind (peek buf es ''|)&;'') (\<lambda>fin.
     if fin then ret c
     else bind (next_token buf es) (\<lambda>(tok, w).
       if tok = NUL then ret c
       else if tok \<noteq> CHR ''a'' then panic ''syntax''
       else let c = add_arg w c; argc = argc + 1 in
         if argc \<ge> MAXARGS then panic ''too many args''
         else bind (parseredirs n buf es c) (parseargs n buf es argc)))"

text \<open>The loop of \<open>parseline\<close> over the ampersands.\<close>

fun parseamps :: "nat \<Rightarrow> string \<Rightarrow> nat \<Rightarrow> (nat \<times> nat) cmd \<Rightarrow> (shstate, (nat \<times> nat) cmd) kop" where
  "parseamps 0 buf es c = stop Diverge"
| "parseamps (Suc n) buf es c =
     bind (peek buf es ''&'') (\<lambda>amp.
     if \<not> amp then ret c
     else seq (next_token buf es) (bind (backcmd c) (parseamps n buf es)))"

fun parseline :: "nat \<Rightarrow> string \<Rightarrow> nat \<Rightarrow> (shstate, (nat \<times> nat) cmd) kop"
  and parsepipe :: "nat \<Rightarrow> string \<Rightarrow> nat \<Rightarrow> (shstate, (nat \<times> nat) cmd) kop"
  and parseblock :: "nat \<Rightarrow> string \<Rightarrow> nat \<Rightarrow> (shstate, (nat \<times> nat) cmd) kop"
  and parseexec :: "nat \<Rightarrow> string \<Rightarrow> nat \<Rightarrow> (shstate, (nat \<times> nat) cmd) kop" where
  "parseline 0 buf es = stop Diverge"
| "parseline (Suc n) buf es =
     bind (parsepipe n buf es) (\<lambda>c.
     bind (parseamps n buf es c) (\<lambda>c.
     bind (peek buf es '';'') (\<lambda>semi.
     if \<not> semi then ret c
     else seq (next_token buf es) (bind (parseline n buf es) (\<lambda>d. listcmd c d)))))"
| "parsepipe 0 buf es = stop Diverge"
| "parsepipe (Suc n) buf es =
     bind (parseexec n buf es) (\<lambda>c.
     bind (peek buf es ''|'') (\<lambda>bar.
     if \<not> bar then ret c
     else seq (next_token buf es) (bind (parsepipe n buf es) (\<lambda>d. pipecmd c d))))"
| "parseblock 0 buf es = stop Diverge"
| "parseblock (Suc n) buf es =
     bind (peek buf es ''('') (\<lambda>lpar.
     if \<not> lpar then panic ''parseblock''
     else seq (next_token buf es)
       (bind (parseline n buf es) (\<lambda>c.
        bind (peek buf es '')'') (\<lambda>rpar.
        if \<not> rpar then panic ''syntax - missing )''
        else seq (next_token buf es) (parseredirs n buf es c)))))"
| "parseexec 0 buf es = stop Diverge"
| "parseexec (Suc n) buf es =
     bind (peek buf es ''('') (\<lambda>lpar.
     if lpar then parseblock n buf es
     else bind execcmd (\<lambda>c.
       bind (parseredirs n buf es c) (parseargs n buf es 0)))"

text \<open>Zeros behind all words.\<close>

fun nulterminate :: "(nat \<times> nat) cmd \<Rightarrow> string \<Rightarrow> string" where
  "nulterminate (EXEC ws) buf = fold (\<lambda>w b. b[snd w := NUL]) ws buf"
| "nulterminate (REDIR c w m fd) buf = (nulterminate c buf)[snd w := NUL]"
| "nulterminate (PIPE l r) buf = nulterminate r (nulterminate l buf)"
| "nulterminate (LIST l r) buf = nulterminate r (nulterminate l buf)"
| "nulterminate (BACK c) buf = nulterminate c buf"

text \<open>
  \<open>parsecmd\<close> returns the tree and the text as it leaves it. Every routine that recurses consumes a
  character within four calls, so that five rounds of fuel per character are enough.
\<close>

definition parsecmd :: "string \<Rightarrow> (shstate, (nat \<times> nat) cmd \<times> string) kop" where
  "parsecmd buf =
     (let es = length (takeWhile (\<lambda>c. c \<noteq> NUL) buf) in
      bind (parseline (5 * es + 10) buf es) (\<lambda>c.
      bind (peek buf es []) (\<lambda>_.
      bind (get sh_pos) (\<lambda>s.
      if s \<noteq> es then panic ''syntax''
      else ret (c, nulterminate c buf)))))"

definition parse_start :: shstate where
  "parse_start = \<lparr>sh_pos = 0, sh_used = 0\<rparr>"

end
