(* ===== verification/Shparse.thy ===== *)
theory Shparse
  imports Sh
begin

text \<open>
  The shell's parser against a grammar. \<open>tokens\<close> cuts a text into tokens; the inductive relations
  \<open>gline\<close>, \<open>gpipe\<close>, \<open>gexec\<close> say which command a sequence of tokens stands for. The parser ends on
  every text, and the tree it returns is one the grammar gives for the whole text, with each word
  readable as a C string in the text that \<open>nulterminate\<close> leaves.
\<close>

section \<open>Tokens of a text\<close>

definition sub :: "string \<Rightarrow> nat \<times> nat \<Rightarrow> string" where
  "sub buf w = take (snd w - fst w) (drop (fst w) buf)"

text \<open>A text: its only zero up to \<open>es\<close> is at \<open>es\<close>.\<close>

definition is_text :: "string \<Rightarrow> nat \<Rightarrow> bool" where
  "is_text buf es \<longleftrightarrow> es < length buf \<and> buf ! es = NUL \<and> (\<forall>i<es. buf ! i \<noteq> NUL)"

lemma takeWhile_nth_stop: "length (takeWhile P xs) < length xs \<Longrightarrow> \<not> P (xs ! length (takeWhile P xs))"
  by (rule nth_length_takeWhile)

lemma advance_le: "es \<le> length buf \<Longrightarrow> s \<le> es \<Longrightarrow> s \<le> advance P buf es s \<and> advance P buf es s \<le> es"
  using length_takeWhile_le [of P "drop s (take es buf)"] by (simp add: advance_def)

lemma advance_ge: "s \<le> advance P buf es s"
  by (simp add: advance_def)

lemma advance_all:
  assumes "es \<le> length buf" "s \<le> i" "i < advance P buf es s"
  shows "P (buf ! i)"
proof -
  let ?xs = "drop s (take es buf)"
  have "i - s < length (takeWhile P ?xs)" using assms by (simp add: advance_def)
  then have "P (?xs ! (i - s))" using takeWhile_nth [of "i - s" P ?xs] set_takeWhileD nth_mem by metis
  moreover have "i - s < length ?xs" using \<open>i - s < length (takeWhile P ?xs)\<close> length_takeWhile_le [of P ?xs] by linarith
  ultimately show ?thesis using assms by simp
qed

lemma advance_stop:
  assumes "es \<le> length buf" "s \<le> es" "advance P buf es s < es"
  shows "\<not> P (buf ! advance P buf es s)"
proof -
  let ?xs = "drop s (take es buf)"
  have "length (takeWhile P ?xs) < length ?xs" using assms by (simp add: advance_def)
  then have "\<not> P (?xs ! length (takeWhile P ?xs))" by (rule takeWhile_nth_stop)
  then show ?thesis using assms by (simp add: advance_def)
qed

lemma advance_fix:
  assumes "es \<le> length buf" "s \<le> es" "s < es \<Longrightarrow> \<not> P (buf ! s)"
  shows "advance P buf es s = s"
proof (rule ccontr)
  assume "advance P buf es s \<noteq> s"
  then have "s < advance P buf es s" using advance_ge [of s P buf es] by simp
  then show False using advance_all [of es buf s s P] advance_le [of es buf s P] assms by auto
qed

lemma advance_twice [simp]:
  assumes "es \<le> length buf" "s \<le> es"
  shows "advance P buf es (advance P buf es s) = advance P buf es s"
  using assms advance_le [of es buf s P] by (intro advance_fix) (auto dest: advance_stop [OF assms])

definition word_char :: "char \<Rightarrow> bool" where
  "word_char c \<longleftrightarrow> c \<noteq> NUL \<and> \<not> is_white c \<and> \<not> is_symbol c"

lemma specials [simp]:
  "\<not> is_white NUL" "\<not> is_symbol NUL" "\<not> is_white (CHR ''>'')" "is_symbol (CHR ''>'')" "is_symbol (CHR ''<'')"
  "is_symbol (CHR ''|'')" "is_symbol (CHR ''('')" "is_symbol (CHR '')'')" "is_symbol (CHR '';'')" "is_symbol (CHR ''&'')"
  by (simp_all add: is_white_def is_symbol_def whitespace_def symbols_def NUL_def)

lemma is_symbol_cases: "is_symbol c \<longleftrightarrow> c \<in> set ''|();&<'' \<or> c = CHR ''>''"
  by (auto simp: is_symbol_def symbols_def)

lemma kinds [simp]: "CHR ''a'' \<noteq> NUL" "CHR ''+'' \<noteq> NUL" "NUL \<noteq> CHR ''a''" "NUL \<noteq> CHR ''+''" "CHR ''>'' \<noteq> NUL" "NUL \<noteq> CHR ''>''"
  by (simp_all add: NUL_def)

text \<open>What \<open>gettoken\<close> finds, on a text.\<close>

lemma gettoken_end:
  fixes buf es q
  defines "c \<equiv> buf ! q"
  defines "te \<equiv> (if c = NUL then (c, q) else if c \<in> set ''|();&<'' then (c, q + 1)
     else if c = CHR ''>'' then (if buf ! (q + 1) = CHR ''>'' then (CHR ''+'', q + 2) else (c, q + 1))
     else (CHR ''a'', advance (\<lambda>c. \<not> is_white c \<and> \<not> is_symbol c) buf es q))"
  assumes t: "is_text buf es" and q: "q \<le> es" and nw: "q < es \<Longrightarrow> \<not> is_white c"
  shows "fst te = NUL \<longleftrightarrow> q = es" "q = es \<Longrightarrow> snd te = q" "q < es \<Longrightarrow> q < snd te" "snd te \<le> es"
    and "fst te = CHR ''a'' \<Longrightarrow> q < snd te \<and> (\<forall>i. q \<le> i \<longrightarrow> i < snd te \<longrightarrow> word_char (buf ! i)) \<and> \<not> word_char (buf ! snd te)"
proof -
  let ?P = "\<lambda>c. \<not> is_white c \<and> \<not> is_symbol c"
  have len: "es \<le> length buf" "buf ! es = NUL" and nz: "i < es \<Longrightarrow> buf ! i \<noteq> NUL" for i using t by (auto simp: is_text_def)
  have cN: "c = NUL \<longleftrightarrow> q = es" using q len nz [of q] by (cases "q = es") (auto simp: c_def)
  note A = advance_le [OF len(1) q, of ?P]
  show "fst te = NUL \<longleftrightarrow> q = es" "q = es \<Longrightarrow> snd te = q" using cN by (auto simp: te_def NUL_def)
  have word: "q < snd te \<and> snd te \<le> es \<and> (\<forall>i. q \<le> i \<longrightarrow> i < snd te \<longrightarrow> word_char (buf ! i)) \<and> \<not> word_char (buf ! snd te)"
    if w: "q < es" "c \<notin> set ''|();&<''" "c \<noteq> CHR ''>''"
  proof -
    have c: "c \<noteq> NUL" "?P c" using w cN nw by (auto simp: is_symbol_cases)
    have te: "te = (CHR ''a'', advance ?P buf es q)" using w c by (simp add: te_def)
    have gt: "advance ?P buf es q \<noteq> q"
    proof
      assume "advance ?P buf es q = q"
      then show False using advance_stop [OF len(1) q, of ?P] w c by (simp add: c_def)
    qed
    have "word_char (buf ! i)" if "q \<le> i" "i < advance ?P buf es q" for i
      using advance_all [OF len(1) that] nz [of i] that A by (simp add: word_char_def)
    moreover have "\<not> word_char (buf ! advance ?P buf es q)"
      using advance_stop [OF len(1) q, of ?P] A len(2) by (cases "advance ?P buf es q = es") (auto simp: word_char_def)
    ultimately show ?thesis using gt A by (simp add: te)
  qed
  have gg: "q + 2 \<le> es" if "q < es" "buf ! (q + 1) = CHR ''>''"
    using that len(2) by (cases "q + 1 = es") auto
  have cs: "q = es \<and> snd te = q \<or> q < es \<and> snd te = q + 1 \<or> q < es \<and> snd te = q + 2 \<and> q + 2 \<le> es \<or>
      q < es \<and> c \<notin> set ''|();&<'' \<and> c \<noteq> CHR ''>''"
  proof (cases "q = es")
    case False
    then have "q < es" "c \<noteq> NUL" using q cN by auto
    then show ?thesis using gg by (cases "c \<in> set ''|();&<'' \<or> c = CHR ''>''") (auto simp: te_def simp del: list.set)
  qed (use cN in \<open>simp add: te_def\<close>)
  show "q < snd te" if "q < es" using that cs word by auto
  show "snd te \<le> es" using cs word by auto
  show "fst te = CHR ''a'' \<Longrightarrow> q < snd te \<and> (\<forall>i. q \<le> i \<longrightarrow> i < snd te \<longrightarrow> word_char (buf ! i)) \<and> \<not> word_char (buf ! snd te)"
  proof -
    assume a: "fst te = CHR ''a''"
    then have "c \<noteq> NUL" "c \<notin> set ''|();&<''" "c \<noteq> CHR ''>''" by (auto simp: te_def split: if_splits)
    then show ?thesis using word cN q by auto
  qed
qed

lemma gettoken_spec:
  assumes t: "is_text buf es" and s: "s \<le> es" and g: "gettoken buf es s = (tok, (q, eq), n)"
  shows "q = advance is_white buf es s" "q \<le> eq" "eq \<le> n" "n \<le> es"
    and "tok = NUL \<longleftrightarrow> q = es" and "tok \<noteq> NUL \<Longrightarrow> s < n"
    and "tok = CHR ''a'' \<Longrightarrow> q < eq \<and> (\<forall>i. q \<le> i \<longrightarrow> i < eq \<longrightarrow> word_char (buf ! i)) \<and> \<not> word_char (buf ! eq)"
    and "n = advance is_white buf es eq"
proof -
  have len: "es \<le> length buf" using t by (simp add: is_text_def)
  show q: "q = advance is_white buf es s" using g by (simp add: gettoken_def Let_def split: prod.splits)
  have ql: "s \<le> q" "q \<le> es" using advance_le [OF len s, of is_white] q by auto
  have nw: "q < es \<Longrightarrow> \<not> is_white (buf ! q)" using advance_stop [OF len s, of is_white] q by simp
  note E = gettoken_end [OF t ql(2) nw]
  have te: "(tok, eq) = (if buf ! q = NUL then (buf ! q, q) else if buf ! q \<in> set ''|();&<'' then (buf ! q, q + 1)
     else if buf ! q = CHR ''>'' then (if buf ! (q + 1) = CHR ''>'' then (CHR ''+'', q + 2) else (buf ! q, q + 1))
     else (CHR ''a'', advance (\<lambda>c. \<not> is_white c \<and> \<not> is_symbol c) buf es q))"
    and n: "n = advance is_white buf es eq"
    using g unfolding gettoken_def Let_def q [symmetric] by (auto split: if_splits)
  from E [folded te] have F: "tok = NUL \<longleftrightarrow> q = es" "q = es \<Longrightarrow> eq = q" "q < es \<Longrightarrow> q < eq" "eq \<le> es"
    "tok = CHR ''a'' \<Longrightarrow> q < eq \<and> (\<forall>i. q \<le> i \<longrightarrow> i < eq \<longrightarrow> word_char (buf ! i)) \<and> \<not> word_char (buf ! eq)"
    by simp_all
  have ne: "eq \<le> n \<and> n \<le> es" using advance_le [OF len F(4), of is_white] n by simp
  show "q \<le> eq" using F(2,3) ql by fastforce
  show "eq \<le> n" "n \<le> es" using ne by auto
  show "tok = NUL \<longleftrightarrow> q = es" "n = advance is_white buf es eq" using F n by auto
  show "tok \<noteq> NUL \<Longrightarrow> s < n" using F(1,3) ql ne by fastforce
  show "tok = CHR ''a'' \<Longrightarrow> q < eq \<and> (\<forall>i. q \<le> i \<longrightarrow> i < eq \<longrightarrow> word_char (buf ! i)) \<and> \<not> word_char (buf ! eq)" by (rule F(5))
qed

text \<open>The tokens from \<open>s\<close> on: kinds, and the characters of each.\<close>

fun tokens_from :: "nat \<Rightarrow> string \<Rightarrow> nat \<Rightarrow> nat \<Rightarrow> (char \<times> string) list" where
  "tokens_from 0 buf es s = []"
| "tokens_from (Suc k) buf es s =
     (let (tok, w, n) = gettoken buf es s in
      if tok = NUL then [] else (tok, sub buf w) # tokens_from k buf es n)"

definition tokens :: "string \<Rightarrow> nat \<Rightarrow> nat \<Rightarrow> (char \<times> string) list" where
  "tokens buf es s = tokens_from (Suc (es - s)) buf es s"

lemma tokens_from_enough:
  "is_text buf es \<Longrightarrow> s \<le> es \<Longrightarrow> es - s < k \<Longrightarrow> tokens_from k buf es s = tokens buf es s"
proof (induction k arbitrary: s rule: less_induct)
  case (less k)
  obtain j where k: "k = Suc j" using less.prems by (cases k) auto
  obtain tok q eq n where g: "gettoken buf es s = (tok, (q, eq), n)" by (metis prod_cases3 surj_pair)
  note G = gettoken_spec [OF less.prems(1,2) g]
  show ?case
  proof (cases "tok = NUL")
    case False
    then have "s < n" "n \<le> es" using G by auto
    then have "tokens_from j buf es n = tokens buf es n" "tokens_from (es - s) buf es n = tokens buf es n"
      using less k by auto
    then show ?thesis using g False by (simp add: k tokens_def [of buf es s])
  qed (simp add: k g tokens_def)
qed

lemma tokens_step:
  assumes "is_text buf es" "s \<le> es" "gettoken buf es s = (tok, w, n)"
  shows "tokens buf es s = (if tok = NUL then [] else (tok, sub buf w) # tokens buf es n)"
proof (cases "tok = NUL")
  case False
  obtain q eq where w: "w = (q, eq)" by (cases w)
  note G = gettoken_spec [OF assms(1,2) assms(3) [unfolded w]]
  have "tokens_from (es - s) buf es n = tokens buf es n"
    using G(4,6) False assms(2) by (intro tokens_from_enough assms(1)) auto
  then show ?thesis using assms(3) False by (simp add: tokens_def [of buf es s])
qed (simp add: tokens_def assms(3))

lemma tokens_end:
  assumes "is_text buf es"
  shows "tokens buf es es = []"
proof -
  obtain tok q eq n where g: "gettoken buf es es = (tok, (q, eq), n)" by (metis prod_cases3 surj_pair)
  note G = gettoken_spec [OF assms order_refl g]
  have "q = es" using G(1-4) advance_ge [of es is_white buf es] by simp
  then show ?thesis using tokens_step [OF assms order_refl g] G(5) by simp
qed

lemma tokens_skip:
  assumes "is_text buf es" "s \<le> es"
  shows "tokens buf es (advance is_white buf es s) = tokens buf es s"
proof -
  have len: "es \<le> length buf" using assms(1) by (simp add: is_text_def)
  obtain tok w n where g: "gettoken buf es s = (tok, w, n)" by (metis prod_cases3)
  have "gettoken buf es (advance is_white buf es s) = (tok, w, n)"
    using g unfolding gettoken_def advance_twice [OF len assms(2)] .
  then show ?thesis using tokens_step [OF assms g] tokens_step [OF assms(1)] advance_le [OF len assms(2)] by simp
qed

text \<open>What \<open>peek\<close> sees of the first token: its first character.\<close>

definition first_char :: "char \<Rightarrow> char" where
  "first_char k = (if k = CHR ''+'' then CHR ''>'' else k)"

lemma gettoken_kind:
  assumes "gettoken buf es s = (tok, w, n)" "c = buf ! advance is_white buf es s" "is_symbol c"
  shows "first_char tok = c \<and> tok \<noteq> NUL \<and> tok \<noteq> CHR ''a''"
proof -
  have "c \<noteq> NUL" using assms(3) by auto
  show ?thesis
  proof (cases "c = CHR ''>''")
    case True
    then show ?thesis using assms by (auto simp: gettoken_def Let_def first_char_def split: if_splits)
  next
    case False
    then have "c \<in> set ''|();&<''" using assms(3) by (simp add: is_symbol_cases)
    then have "tok = c" using assms(1,2) \<open>c \<noteq> NUL\<close> by (auto simp: gettoken_def Let_def simp del: list.set)
    then show ?thesis using \<open>c \<noteq> NUL\<close> \<open>c \<in> set ''|();&<''\<close> by (auto simp: first_char_def)
  qed
qed

section \<open>The grammar\<close>

type_synonym token = "char \<times> string"

inductive gredirs :: "string cmd \<Rightarrow> token list \<Rightarrow> string cmd \<Rightarrow> token list \<Rightarrow> bool" where
  none: "gredirs c ts c ts"
| inp: "gredirs (REDIR c w ORead 0) ts c' ts' \<Longrightarrow> gredirs c ((CHR ''<'', x) # (CHR ''a'', w) # ts) c' ts'"
| out: "k \<in> {CHR ''>'', CHR ''+''} \<Longrightarrow> gredirs (REDIR c w OWriteCreate 1) ts c' ts' \<Longrightarrow>
    gredirs c ((k, x) # (CHR ''a'', w) # ts) c' ts'"

inductive gargs :: "string cmd \<Rightarrow> token list \<Rightarrow> string cmd \<Rightarrow> token list \<Rightarrow> bool" where
  none: "gargs c ts c ts"
| arg: "gredirs (add_arg w c) ts c1 ts1 \<Longrightarrow> gargs c1 ts1 c2 ts2 \<Longrightarrow> gargs c ((CHR ''a'', w) # ts) c2 ts2"

inductive gamps :: "string cmd \<Rightarrow> token list \<Rightarrow> string cmd \<Rightarrow> token list \<Rightarrow> bool" where
  none: "gamps c ts c ts"
| amp: "gamps (BACK c) ts c' ts' \<Longrightarrow> gamps c ((CHR ''&'', x) # ts) c' ts'"

inductive gline :: "token list \<Rightarrow> string cmd \<Rightarrow> token list \<Rightarrow> bool"
  and gpipe :: "token list \<Rightarrow> string cmd \<Rightarrow> token list \<Rightarrow> bool"
  and gexec :: "token list \<Rightarrow> string cmd \<Rightarrow> token list \<Rightarrow> bool" where
  line: "gpipe ts c ts1 \<Longrightarrow> gamps c ts1 d ts2 \<Longrightarrow> gline ts d ts2"
| line_semi: "gpipe ts c ts1 \<Longrightarrow> gamps c ts1 d ((CHR '';'', x) # ts2) \<Longrightarrow> gline ts2 e ts3 \<Longrightarrow> gline ts (LIST d e) ts3"
| pipe: "gexec ts c ts1 \<Longrightarrow> gpipe ts c ts1"
| pipe_bar: "gexec ts c ((CHR ''|'', x) # ts1) \<Longrightarrow> gpipe ts1 d ts2 \<Longrightarrow> gpipe ts (PIPE c d) ts2"
| simple: "gredirs (EXEC []) ts c ts1 \<Longrightarrow> gargs c ts1 d ts2 \<Longrightarrow> gexec ts d ts2"
| block: "gline ts c ((CHR '')'', y) # ts1) \<Longrightarrow> gredirs c ts1 d ts2 \<Longrightarrow> gexec ((CHR ''('', x) # ts) d ts2"

section \<open>The parser on a text\<close>

text \<open>
  \<open>ends m s Q\<close>: the routine does not run out of fuel, and if it returns, then with \<open>Q\<close>.
\<close>

definition ends :: "('s, 'a) kop \<Rightarrow> 's \<Rightarrow> ('a \<Rightarrow> 's \<Rightarrow> bool) \<Rightarrow> bool" where
  "ends m s Q \<longleftrightarrow> (case m s of Inl e \<Rightarrow> e \<noteq> Diverge | Inr (x, t) \<Rightarrow> Q x t)"

lemma ends_bind:
  assumes "ends m s P" "\<And>x t. P x t \<Longrightarrow> ends (f x) t Q"
  shows "ends (bind m f) s Q"
proof (cases "m s")
  case (Inl e)
  then show ?thesis using assms(1) by (auto simp: ends_def bind_def)
next
  case (Inr r)
  obtain x t where "r = (x, t)" by (cases r)
  then show ?thesis using assms Inr by (simp add: ends_def bind_def)
qed

lemma ends_mono: "ends m s P \<Longrightarrow> (\<And>x t. P x t \<Longrightarrow> Q x t) \<Longrightarrow> ends m s Q"
  by (auto simp: ends_def split: sum.splits prod.splits)

lemma ends_ret [simp]: "ends (ret x) s Q \<longleftrightarrow> Q x s"
  by (simp add: ends_def ret_def)

lemma ends_panic [simp]: "ends (panic msg) s Q"
  by (simp add: ends_def stop_def)

lemma ends_malloc: "ends (malloc1 n) s (\<lambda>_ t. sh_pos t = sh_pos s)"
  by (auto simp: ends_def malloc1_def bind_def upd_def get_def stop_def ret_def)

lemma ends_constructors:
  "ends execcmd s (\<lambda>c t. sh_pos t = sh_pos s \<and> c = EXEC [])"
  "ends (redircmd c w m fd) s (\<lambda>d t. sh_pos t = sh_pos s \<and> d = REDIR c w m fd)"
  "ends (pipecmd c e) s (\<lambda>d t. sh_pos t = sh_pos s \<and> d = PIPE c e)"
  "ends (listcmd c e) s (\<lambda>d t. sh_pos t = sh_pos s \<and> d = LIST c e)"
  "ends (backcmd c) s (\<lambda>d t. sh_pos t = sh_pos s \<and> d = BACK c)"
  by (auto simp: execcmd_def redircmd_def pipecmd_def listcmd_def backcmd_def intro!: ends_bind [OF ends_malloc])

text \<open>Words as the parser makes them.\<close>

definition word_ok :: "string \<Rightarrow> nat \<Rightarrow> nat \<times> nat \<Rightarrow> bool" where
  "word_ok buf es w \<longleftrightarrow> fst w < snd w \<and> snd w \<le> es \<and> (\<forall>i. fst w \<le> i \<longrightarrow> i < snd w \<longrightarrow> word_char (buf ! i)) \<and>
     \<not> word_char (buf ! snd w)"

definition words_ok :: "string \<Rightarrow> nat \<Rightarrow> (nat \<times> nat) cmd \<Rightarrow> bool" where
  "words_ok buf es c \<longleftrightarrow> (\<forall>w\<in>set_cmd c. word_ok buf es w)"

lemma words_ok_simps [simp]:
  "words_ok buf es (EXEC ws) \<longleftrightarrow> (\<forall>w\<in>set ws. word_ok buf es w)"
  "words_ok buf es (REDIR c w m fd) \<longleftrightarrow> words_ok buf es c \<and> word_ok buf es w"
  "words_ok buf es (PIPE c d) \<longleftrightarrow> words_ok buf es c \<and> words_ok buf es d"
  "words_ok buf es (LIST c d) \<longleftrightarrow> words_ok buf es c \<and> words_ok buf es d"
  "words_ok buf es (BACK c) \<longleftrightarrow> words_ok buf es c"
  by (auto simp: words_ok_def)

lemma words_ok_add: "word_ok buf es w \<Longrightarrow> words_ok buf es c \<Longrightarrow> words_ok buf es (add_arg w c)"
  by (induction w c rule: add_arg.induct) auto

lemma map_add_arg [simp]: "map_cmd f (add_arg w c) = add_arg (f w) (map_cmd f c)"
  by (induction w c rule: add_arg.induct) auto

lemma ends_peek:
  assumes t: "is_text buf es" and s: "sh_pos s \<le> es" and T: "\<forall>c\<in>set T. is_symbol c"
  shows "ends (peek buf es T) s (\<lambda>b u. sh_pos s \<le> sh_pos u \<and> sh_pos u \<le> es \<and>
     tokens buf es (sh_pos u) = tokens buf es (sh_pos s) \<and>
     (b \<longrightarrow> (\<exists>k x ts. tokens buf es (sh_pos s) = (k, x) # ts \<and> first_char k \<in> set T \<and> k \<noteq> CHR ''a'')))"
proof -
  have len: "es \<le> length buf" using t by (simp add: is_text_def)
  let ?n = "advance is_white buf es (sh_pos s)"
  obtain tok w n where g: "gettoken buf es (sh_pos s) = (tok, w, n)" by (metis prod_cases3)
  have "\<exists>k x ts. tokens buf es (sh_pos s) = (k, x) # ts \<and> first_char k \<in> set T \<and> k \<noteq> CHR ''a''" if "buf ! ?n \<in> set T"
    using gettoken_kind [OF g refl] that T tokens_step [OF t s g] by fastforce
  then show ?thesis using advance_le [OF len s, of is_white] tokens_skip [OF t s] by (auto simp: ends_def peek_def Let_def)
qed

lemma ends_token:
  assumes t: "is_text buf es" and s: "sh_pos s \<le> es"
  shows "ends (next_token buf es) s (\<lambda>(tok, w) u. sh_pos s \<le> sh_pos u \<and> sh_pos u \<le> es \<and>
     (tok = NUL \<longrightarrow> tokens buf es (sh_pos s) = [] \<and> tokens buf es (sh_pos u) = []) \<and>
     (tok \<noteq> NUL \<longrightarrow> sh_pos s < sh_pos u \<and> tokens buf es (sh_pos s) = (tok, sub buf w) # tokens buf es (sh_pos u)) \<and>
     (tok = CHR ''a'' \<longrightarrow> word_ok buf es w))"
proof -
  obtain tok q eq n where g: "gettoken buf es (sh_pos s) = (tok, (q, eq), n)" by (metis prod_cases3 surj_pair)
  note G = gettoken_spec [OF t s g]
  have "sh_pos s \<le> q" using G(1) advance_ge by metis
  moreover have "tokens buf es n = []" if "tok = NUL"
  proof -
    have "n = es" using that G(2-5) by simp
    then show ?thesis using tokens_end [OF t] by simp
  qed
  ultimately show ?thesis using G tokens_step [OF t s g] by (auto simp: ends_def next_token_def g word_ok_def)
qed

text \<open>What every routine of the parser guarantees besides its share of the derivation.\<close>

definition onward :: "string \<Rightarrow> nat \<Rightarrow> shstate \<Rightarrow> shstate \<Rightarrow> bool" where
  "onward buf es s u \<longleftrightarrow> sh_pos s \<le> sh_pos u \<and> sh_pos u \<le> es"

lemma onward_trans: "onward buf es s t \<Longrightarrow> onward buf es t u \<Longrightarrow> onward buf es s u"
  by (simp add: onward_def)

abbreviation tks :: "string \<Rightarrow> nat \<Rightarrow> shstate \<Rightarrow> token list" where
  "tks buf es s \<equiv> tokens buf es (sh_pos s)"

lemma first_char_symbol: "first_char k = CHR ''&'' \<longleftrightarrow> k = CHR ''&''" "first_char k = CHR '';'' \<longleftrightarrow> k = CHR '';''"
  "first_char k = CHR ''|'' \<longleftrightarrow> k = CHR ''|''" "first_char k = CHR ''('' \<longleftrightarrow> k = CHR ''(''"
  "first_char k = CHR '')'' \<longleftrightarrow> k = CHR '')''" "first_char k = CHR ''<'' \<longleftrightarrow> k = CHR ''<''"
  "first_char k = CHR ''>'' \<longleftrightarrow> k = CHR ''>'' \<or> k = CHR ''+''"
  by (auto simp: first_char_def)

lemma ends_peek_if:
  assumes "is_text buf es" "sh_pos s \<le> es" "\<forall>c\<in>set T. is_symbol c"
    and "\<And>t. onward buf es s t \<Longrightarrow> tks buf es t = tks buf es s \<Longrightarrow> ends m0 t Q"
    and "\<And>t k x ts. onward buf es s t \<Longrightarrow> tks buf es t = tks buf es s \<Longrightarrow> tks buf es s = (k, x) # ts \<Longrightarrow>
       first_char k \<in> set T \<Longrightarrow> k \<noteq> CHR ''a'' \<Longrightarrow> ends m1 t Q"
  shows "ends (bind (peek buf es T) (\<lambda>b. if b then m1 else m0)) s Q"
proof (rule ends_bind [OF ends_peek [OF assms(1-3)]], goal_cases)
  case (1 b t)
  then have o: "onward buf es s t" "tks buf es t = tks buf es s" by (auto simp: onward_def)
  show ?case
  proof (cases b)
    case True
    then obtain k x ts where "tks buf es s = (k, x) # ts" "first_char k \<in> set T" "k \<noteq> CHR ''a''" using 1 by auto
    then show ?thesis using assms(5) [OF o] True by simp
  qed (use assms(4) [OF o] in simp)
qed

lemma ends_peek_unless:
  assumes "is_text buf es" "sh_pos s \<le> es" "\<forall>c\<in>set T. is_symbol c"
    and "\<And>t. onward buf es s t \<Longrightarrow> tks buf es t = tks buf es s \<Longrightarrow> ends m0 t Q"
    and "\<And>t k x ts. onward buf es s t \<Longrightarrow> tks buf es t = tks buf es s \<Longrightarrow> tks buf es s = (k, x) # ts \<Longrightarrow>
       first_char k \<in> set T \<Longrightarrow> k \<noteq> CHR ''a'' \<Longrightarrow> ends m1 t Q"
  shows "ends (bind (peek buf es T) (\<lambda>b. if \<not> b then m0 else m1)) s Q"
proof -
  have "(\<lambda>b. if \<not> b then m0 else m1) = (\<lambda>b. if b then m1 else m0)" by (rule ext) simp
  then show ?thesis by (simp only:) (rule ends_peek_if [OF assms])
qed

lemma ends_next:
  assumes "is_text buf es" "sh_pos s \<le> es"
    and "tks buf es s = [] \<Longrightarrow> (\<And>w u. onward buf es s u \<Longrightarrow> tks buf es u = [] \<Longrightarrow> ends (f (NUL, w)) u Q)"
    and "\<And>k x ts w u. tks buf es s = (k, x) # ts \<Longrightarrow> k \<noteq> NUL \<Longrightarrow> onward buf es s u \<Longrightarrow> sh_pos s < sh_pos u \<Longrightarrow>
       tks buf es u = ts \<Longrightarrow> x = sub buf w \<Longrightarrow> (k = CHR ''a'' \<Longrightarrow> word_ok buf es w) \<Longrightarrow> ends (f (k, w)) u Q"
  shows "ends (bind (next_token buf es) f) s Q"
proof (rule ends_bind [OF ends_token [OF assms(1,2)]], goal_cases)
  case (1 r u)
  obtain k w where r: "r = (k, w)" by (cases r)
  show ?case
  proof (cases "k = NUL")
    case True
    then show ?thesis using 1 assms(3) [of u w] r by (auto simp: onward_def)
  next
    case False
    then show ?thesis using 1 assms(4) [of k "sub buf w" "tks buf es u" u w] r by (auto simp: onward_def)
  qed
qed

lemma ends_take:
  assumes "is_text buf es" "sh_pos s \<le> es" "tks buf es s = (k, x) # ts"
    and "\<And>w u. onward buf es s u \<Longrightarrow> sh_pos s < sh_pos u \<Longrightarrow> tks buf es u = ts \<Longrightarrow> x = sub buf w \<Longrightarrow>
       (k = CHR ''a'' \<Longrightarrow> word_ok buf es w) \<Longrightarrow> ends (f (k, w)) u Q"
  shows "ends (bind (next_token buf es) f) s Q"
  using assms by (intro ends_next [OF assms(1,2)]) auto

lemma ends_if: "(b \<Longrightarrow> ends m s Q) \<Longrightarrow> (\<not> b \<Longrightarrow> ends n s Q) \<Longrightarrow> ends (if b then m else n) s Q"
  by simp

lemma redir_of_ends:
  "k \<in> {CHR ''<'', CHR ''>'', CHR ''+''} \<Longrightarrow> ends (redir_of k c w) s (\<lambda>d t. sh_pos t = sh_pos s \<and>
     d = (if k = CHR ''<'' then REDIR c w ORead 0 else REDIR c w OWriteCreate 1))"
  by (auto simp: redir_of_def intro!: ends_mono [OF ends_constructors(2)])

lemma parseredirs_ends:
  assumes "is_text buf es" "sh_pos s \<le> es" "es - sh_pos s < n" "words_ok buf es c"
  shows "ends (parseredirs n buf es c) s (\<lambda>d u. onward buf es s u \<and> words_ok buf es d \<and>
     gredirs (map_cmd (sub buf) c) (tks buf es s) (map_cmd (sub buf) d) (tks buf es u))"
  using assms
proof (induction n arbitrary: s c)
  case (Suc n)
  note T = Suc.prems(1)
  show ?case unfolding parseredirs.simps
  proof (rule ends_peek_unless [OF T Suc.prems(2)], goal_cases)
    case (2 t)
    then show ?case using Suc.prems(4) by (simp add: onward_def gredirs.none)
  next
    case (3 t k x ts)
    then have k: "k \<in> {CHR ''<'', CHR ''>'', CHR ''+''}" by (auto simp: first_char_symbol)
    have t: "sh_pos t \<le> es" "tks buf es t = (k, x) # ts" using 3 by (auto simp: onward_def)
    show ?case
    proof (rule ends_take [OF T t], unfold prod.case, goal_cases)
      case (1 w1 t1)
      then have t1: "sh_pos t1 \<le> es" "sh_pos s < sh_pos t1" "tks buf es t1 = ts" using 3(1) by (auto simp: onward_def)
      show ?case
      proof (rule ends_next [OF T t1(1)], unfold prod.case, goal_cases)
        case (2 k2 x2 ts2 w2 t2)
        show ?case
        proof (rule ends_if)
          assume "\<not> k2 \<noteq> CHR ''a''"
          then have a: "k2 = CHR ''a''" "word_ok buf es w2" using 2(7) by auto
          show "ends (bind (redir_of k c w2) (parseredirs n buf es)) t2 (\<lambda>d u. onward buf es s u \<and> words_ok buf es d \<and>
             gredirs (map_cmd (sub buf) c) (tks buf es s) (map_cmd (sub buf) d) (tks buf es u))"
          proof (rule ends_bind [OF redir_of_ends [OF k]], goal_cases)
            case (1 c' t3)
            have pos: "sh_pos t3 \<le> es" "es - sh_pos t3 < n" "words_ok buf es c'" "onward buf es s t3"
              using 1 2(3,4) t1(2) a Suc.prems(3,4) by (auto simp: onward_def split: if_splits)
            have ts: "tks buf es s = (k, x) # (CHR ''a'', sub buf w2) # tks buf es t3"
              using 3(2) t(2) t1(3) 2 a 1 by simp
            show ?case
              by (rule ends_mono [OF Suc.IH [OF T pos(1-3)]])
                (use 1 k pos(4) in \<open>auto simp: ts onward_def intro: gredirs.inp gredirs.out split: if_splits\<close>)
          qed
        qed simp
      qed simp
    qed
  qed simp
qed simp

lemma parseamps_ends:
  assumes "is_text buf es" "sh_pos s \<le> es" "es - sh_pos s < n" "words_ok buf es c"
  shows "ends (parseamps n buf es c) s (\<lambda>d u. onward buf es s u \<and> words_ok buf es d \<and>
     gamps (map_cmd (sub buf) c) (tks buf es s) (map_cmd (sub buf) d) (tks buf es u))"
  using assms
proof (induction n arbitrary: s c)
  case (Suc n)
  note T = Suc.prems(1)
  show ?case unfolding parseamps.simps
  proof (rule ends_peek_unless [OF T Suc.prems(2)], goal_cases)
    case (2 t)
    then show ?case using Suc.prems(4) by (simp add: onward_def gamps.none)
  next
    case (3 t k x ts)
    then have k: "k = CHR ''&''" by (auto simp: first_char_symbol)
    have t: "sh_pos t \<le> es" "tks buf es t = (k, x) # ts" using 3 by (auto simp: onward_def)
    show ?case
    proof (rule ends_take [OF T t], rule ends_bind [OF ends_constructors(5)], goal_cases)
      case (1 w t1 d t2)
      have pos: "sh_pos t2 \<le> es" "es - sh_pos t2 < n" "words_ok buf es d" "onward buf es s t2"
        using 1 3(1) Suc.prems(3,4) by (auto simp: onward_def)
      have ts: "tks buf es s = (CHR ''&'', x) # tks buf es t2" using 3(2) t(2) 1 k by simp
      show ?case
        by (rule ends_mono [OF Suc.IH [OF T pos(1-3)]])
          (use 1 pos(4) in \<open>auto simp: ts onward_def intro: gamps.amp\<close>)
    qed
  qed simp
qed simp

lemma parseargs_ends:
  assumes "is_text buf es" "sh_pos s \<le> es" "es - sh_pos s < n" "words_ok buf es c"
  shows "ends (parseargs n buf es argc c) s (\<lambda>d u. onward buf es s u \<and> words_ok buf es d \<and>
     gargs (map_cmd (sub buf) c) (tks buf es s) (map_cmd (sub buf) d) (tks buf es u))"
  using assms
proof (induction n arbitrary: s c argc)
  case (Suc n)
  note T = Suc.prems(1)
  show ?case unfolding parseargs.simps
  proof (rule ends_peek_if [OF T Suc.prems(2)], goal_cases)
    case (3 t k x ts)
    then show ?case using Suc.prems(4) by (simp add: onward_def gargs.none)
  next
    case (2 t)
    then have t: "sh_pos t \<le> es" by (simp add: onward_def)
    show ?case
    proof (rule ends_next [OF T t], unfold prod.case, goal_cases)
      case (1 w u)
      then show ?case using 2 Suc.prems(4) by (auto simp: onward_def intro: gargs.none)
    next
      case (2 k x ts w u)
      show ?case
      proof (rule ends_if)
        assume "k = NUL"
        then show "ends (ret c) u (\<lambda>d u. onward buf es s u \<and> words_ok buf es d \<and>
           gargs (map_cmd (sub buf) c) (tks buf es s) (map_cmd (sub buf) d) (tks buf es u))" using 2(2) by simp
      next
        show "ends (if k \<noteq> CHR ''a'' then panic ''syntax''
            else let c = add_arg w c; argc = argc + 1 in if argc \<ge> MAXARGS then panic ''too many args''
              else bind (parseredirs n buf es c) (parseargs n buf es argc)) u
          (\<lambda>d u. onward buf es s u \<and> words_ok buf es d \<and>
             gargs (map_cmd (sub buf) c) (tks buf es s) (map_cmd (sub buf) d) (tks buf es u))"
        proof (cases "k = CHR ''a'' \<and> \<not> argc + 1 \<ge> MAXARGS")
          case True
          have pos: "sh_pos u \<le> es" "es - sh_pos u < n" "words_ok buf es (add_arg w c)"
            using 2 True \<open>onward buf es s t\<close> Suc.prems(3,4) by (auto simp: onward_def words_ok_add)
          have "ends (bind (parseredirs n buf es (add_arg w c)) (parseargs n buf es (argc + 1))) u
            (\<lambda>d v. onward buf es s v \<and> words_ok buf es d \<and>
               gargs (map_cmd (sub buf) c) (tks buf es s) (map_cmd (sub buf) d) (tks buf es v))"
          proof (rule ends_bind [OF parseredirs_ends [OF T pos]], goal_cases)
            case (1 c1 u1)
            then have pos1: "sh_pos u1 \<le> es" "es - sh_pos u1 < n" "words_ok buf es c1" using pos(2) by (auto simp: onward_def)
            have "tks buf es s = (CHR ''a'', sub buf w) # tks buf es u"
              using True 2(1,5,6) \<open>tks buf es t = tks buf es s\<close> by simp
            then show ?case
              by (intro ends_mono [OF Suc.IH [OF T pos1]])
                (use 1 2(3) \<open>onward buf es s t\<close> in \<open>auto simp: onward_def intro: gargs.arg\<close>)
          qed
          then show ?thesis using True by (simp add: Let_def)
        qed (auto simp: Let_def)
      qed
    qed
  qed simp
qed simp

text \<open>The recursive routines; the fuel counts five calls per character that is left.\<close>

definition derives :: "(token list \<Rightarrow> string cmd \<Rightarrow> token list \<Rightarrow> bool) \<Rightarrow> string \<Rightarrow> nat \<Rightarrow> shstate \<Rightarrow>
    (nat \<times> nat) cmd \<Rightarrow> shstate \<Rightarrow> bool" where
  "derives G buf es s c u \<longleftrightarrow> onward buf es s u \<and> words_ok buf es c \<and> G (tks buf es s) (map_cmd (sub buf) c) (tks buf es u)"

lemma parser_ends:
  assumes T: "is_text buf es"
  shows "(sh_pos s \<le> es \<longrightarrow> 5 * (es - sh_pos s) + 6 \<le> n \<longrightarrow> ends (parseline n buf es) s (derives gline buf es s)) \<and>
    (sh_pos s \<le> es \<longrightarrow> 5 * (es - sh_pos s) + 5 \<le> n \<longrightarrow> ends (parsepipe n buf es) s (derives gpipe buf es s)) \<and>
    (sh_pos s \<le> es \<longrightarrow> 5 * (es - sh_pos s) + 3 \<le> n \<longrightarrow> ends (parseblock n buf es) s (derives gexec buf es s)) \<and>
    (sh_pos s \<le> es \<longrightarrow> 5 * (es - sh_pos s) + 4 \<le> n \<longrightarrow> ends (parseexec n buf es) s (derives gexec buf es s))"
proof (induction n arbitrary: s)
  case (Suc n)
  note line_IH = Suc [THEN conjunct1, rule_format] and pipe_IH = Suc [THEN conjunct2, THEN conjunct1, rule_format]
    and block_IH = Suc [THEN conjunct2, THEN conjunct2, THEN conjunct1, rule_format]
    and exec_IH = Suc [THEN conjunct2, THEN conjunct2, THEN conjunct2, rule_format]
  have "ends (parseline (Suc n) buf es) s (derives gline buf es s)" if s: "sh_pos s \<le> es" "5 * (es - sh_pos s) + 6 \<le> Suc n"
    unfolding parseline.simps
  proof (rule ends_bind [OF pipe_IH], goal_cases)
    case (3 c t)
    then have t: "sh_pos t \<le> es" "es - sh_pos t < n" "words_ok buf es c" using s by (auto simp: derives_def onward_def)
    show ?case
    proof (rule ends_bind [OF parseamps_ends [OF T t]], goal_cases)
      case (1 d u)
      then have u: "sh_pos u \<le> es" by (simp add: onward_def)
      show ?case
      proof (rule ends_peek_unless [OF T u], goal_cases)
        case (2 v)
        then show ?case using 1 3 by (auto simp: derives_def onward_def intro: gline_gpipe_gexec.line)
      next
        case (3 v k x ts)
        then have k: "k = CHR '';''" by (auto simp: first_char_symbol)
        have v: "sh_pos v \<le> es" "tks buf es v = (k, x) # ts" using 3 by (auto simp: onward_def)
        show ?case
        proof (rule ends_take [OF T v], rule ends_bind [OF line_IH], goal_cases)
          case (3 w v1 e v2)
          then show ?case
            using 1 \<open>derives gpipe buf es s c t\<close> \<open>onward buf es u v\<close> \<open>tks buf es u = (k, x) # ts\<close> k
            by (intro ends_mono [OF ends_constructors(4)]) (auto simp: derives_def onward_def intro: gline_gpipe_gexec.line_semi)
        qed (use 1 3(1) \<open>derives gpipe buf es s c t\<close> s in \<open>auto simp: derives_def onward_def\<close>)
      qed simp
    qed
  qed (use s in auto)
  moreover have "ends (parsepipe (Suc n) buf es) s (derives gpipe buf es s)" if s: "sh_pos s \<le> es" "5 * (es - sh_pos s) + 5 \<le> Suc n"
    unfolding parsepipe.simps
  proof (rule ends_bind [OF exec_IH], goal_cases)
    case (3 c u)
    then have u: "sh_pos u \<le> es" by (simp add: derives_def onward_def)
    show ?case
    proof (rule ends_peek_unless [OF T u], goal_cases)
      case (2 v)
      then show ?case using 3 by (auto simp: derives_def onward_def intro: gline_gpipe_gexec.pipe)
    next
      case (3 v k x ts)
      then have k: "k = CHR ''|''" by (auto simp: first_char_symbol)
      have v: "sh_pos v \<le> es" "tks buf es v = (k, x) # ts" using 3 by (auto simp: onward_def)
      show ?case
      proof (rule ends_take [OF T v], rule ends_bind [OF pipe_IH], goal_cases)
        case (3 w v1 e v2)
        then show ?case
          using \<open>derives gexec buf es s c u\<close> \<open>onward buf es u v\<close> \<open>tks buf es u = (k, x) # ts\<close> k
          by (intro ends_mono [OF ends_constructors(3)]) (auto simp: derives_def onward_def intro: gline_gpipe_gexec.pipe_bar)
      qed (use 3(1) \<open>derives gexec buf es s c u\<close> s in \<open>auto simp: derives_def onward_def\<close>)
    qed simp
  qed (use s in auto)
  moreover have "ends (parseblock (Suc n) buf es) s (derives gexec buf es s)" if s: "sh_pos s \<le> es" "5 * (es - sh_pos s) + 3 \<le> Suc n"
    unfolding parseblock.simps
  proof (rule ends_peek_unless [OF T s(1)], goal_cases)
    case (3 t k x ts)
    then have k: "k = CHR ''(''" by (auto simp: first_char_symbol)
    have t: "sh_pos t \<le> es" "tks buf es t = (k, x) # ts" using 3 by (auto simp: onward_def)
    show ?case
    proof (rule ends_take [OF T t], rule ends_bind [OF line_IH], goal_cases)
      case (3 w t1 c t2)
      note H = 3
      then have t2: "sh_pos t2 \<le> es" by (simp add: derives_def onward_def)
      show ?case
      proof (rule ends_peek_unless [OF T t2], goal_cases)
        case (3 v k1 x1 ts1)
        then have k1: "k1 = CHR '')''" by (auto simp: first_char_symbol)
        have v: "sh_pos v \<le> es" "tks buf es v = (k1, x1) # ts1" using 3 by (auto simp: onward_def)
        show ?case
        proof (rule ends_take [OF T v], goal_cases)
          case (1 w1 v1)
          have pos: "sh_pos v1 \<le> es" "es - sh_pos v1 < n" "words_ok buf es c"
            using 1 3(1) H \<open>onward buf es s t\<close> s by (auto simp: derives_def onward_def)
          show ?case
            by (rule ends_mono [OF parseredirs_ends [OF T pos]])
              (use 1 3(1,2,3) H \<open>onward buf es s t\<close> \<open>tks buf es s = (k, x) # ts\<close> k k1 in
                \<open>auto simp: derives_def onward_def intro: gline_gpipe_gexec.block\<close>)
        qed
      qed simp_all
    qed (use 3(1) s in \<open>auto simp: onward_def\<close>)
  qed simp_all
  moreover have "ends (parseexec (Suc n) buf es) s (derives gexec buf es s)" if s: "sh_pos s \<le> es" "5 * (es - sh_pos s) + 4 \<le> Suc n"
    unfolding parseexec.simps
  proof (rule ends_peek_if [OF T s(1)], goal_cases)
    case (2 t)
    show ?case
    proof (rule ends_bind [OF ends_constructors(1)], goal_cases)
      case (1 c t1)
      have pos: "sh_pos t1 \<le> es" "es - sh_pos t1 < n" "words_ok buf es c" using 1 2 s by (auto simp: onward_def)
      show ?case
      proof (rule ends_bind [OF parseredirs_ends [OF T pos]], goal_cases)
        case (1 d t2)
        have pos2: "sh_pos t2 \<le> es" "es - sh_pos t2 < n" "words_ok buf es d" using 1 pos(2) by (auto simp: onward_def)
        show ?case
          by (rule ends_mono [OF parseargs_ends [OF T pos2]])
            (use 1 2 \<open>sh_pos t1 = sh_pos t \<and> c = EXEC []\<close> in
              \<open>auto simp: derives_def onward_def intro: gline_gpipe_gexec.simple\<close>)
      qed
    qed
  next
    case (3 t k x ts)
    then show ?case using s by (intro ends_mono [OF block_IH]) (auto simp: derives_def onward_def)
  qed simp
  ultimately show ?case by blast
qed simp

section \<open>Terminating the words\<close>

lemma fold_nul_length [simp]: "length (fold (\<lambda>w b. b[snd w := NUL]) ws buf) = length buf"
  by (induction ws arbitrary: buf) auto

lemma nth_set: "j < length xs \<Longrightarrow> xs[i := x] ! j = (if i = j then x else xs ! j)"
  by (cases "i = j") auto

lemma fold_nul:
  "i < length buf \<Longrightarrow> fold (\<lambda>w b. b[snd w := NUL]) ws buf ! i = (if \<exists>w\<in>set ws. snd w = i then NUL else buf ! i)"
  by (induction ws arbitrary: buf) (auto simp: nth_set)

lemma nulterminate_length [simp]: "length (nulterminate c buf) = length buf"
  by (induction c buf rule: nulterminate.induct) auto

lemma nulterminate_nth:
  "i < length buf \<Longrightarrow> nulterminate c buf ! i = (if \<exists>w\<in>set_cmd c. snd w = i then NUL else buf ! i)"
  by (induction c buf rule: nulterminate.induct) (auto simp: fold_nul nth_set)

text \<open>The C string at the start of a word.\<close>

definition word_at :: "string \<Rightarrow> nat \<times> nat \<Rightarrow> string" where
  "word_at buf w = takeWhile (\<lambda>c. c \<noteq> NUL) (drop (fst w) buf)"

lemma word_char_NUL [simp]: "\<not> word_char NUL"
  by (simp add: word_char_def)

lemma word_at_terminated:
  assumes "is_text buf es" "words_ok buf es c" "w \<in> set_cmd c"
  shows "word_at (nulterminate c buf) w = sub buf w"
proof -
  obtain q eq where w: "w = (q, eq)" by (cases w)
  have W: "q < eq" "eq \<le> es" "\<And>i. q \<le> i \<Longrightarrow> i < eq \<Longrightarrow> word_char (buf ! i)"
    using assms(2,3) w by (auto simp: words_ok_def word_ok_def)
  have len: "es < length buf" using assms(1) by (simp add: is_text_def)
  let ?b = "nulterminate c buf"
  have keep: "?b ! i = buf ! i" if "q \<le> i" "i < eq" for i
  proof -
    have "snd v \<noteq> i" if "v \<in> set_cmd c" for v
      using W(3) [OF \<open>q \<le> i\<close> \<open>i < eq\<close>] assms(2) that by (auto simp: words_ok_def word_ok_def)
    then show ?thesis using that W(2) len by (auto simp: nulterminate_nth)
  qed
  have "drop q ?b = sub buf w @ drop eq ?b"
  proof -
    have "take (eq - q) (drop q ?b) = take (eq - q) (drop q buf)"
      using W(1,2) len keep by (intro nth_equalityI) auto
    then show ?thesis using W(1) by (metis append_take_drop_id drop_drop fst_conv le_add_diff_inverse2 less_imp_le snd_conv sub_def w)
  qed
  moreover have "\<forall>x\<in>set (sub buf w). x \<noteq> NUL"
  proof
    fix x assume "x \<in> set (sub buf w)"
    then obtain i where "i < eq - q" "x = buf ! (q + i)" using W(1,2) len by (auto simp: sub_def w in_set_conv_nth)
    then have "word_char x" using W(3) [of "q + i"] by simp
    then show "x \<noteq> NUL" by auto
  qed
  moreover have "drop eq ?b = NUL # drop (Suc eq) ?b"
  proof -
    have "?b ! eq = NUL" using assms(3) w W(2) len by (auto simp: nulterminate_nth)
    then show ?thesis using W(2) len by (metis Cons_nth_drop_Suc le_less_trans nulterminate_length)
  qed
  ultimately show ?thesis by (simp add: word_at_def w takeWhile_append2)
qed

section \<open>Properties\<close>

lemma text_of_string:
  assumes "NUL \<in> set buf"
  shows "is_text buf (length (takeWhile (\<lambda>c. c \<noteq> NUL) buf))"
proof -
  let ?t = "takeWhile (\<lambda>c. c \<noteq> NUL) buf"
  have l: "length ?t < length buf"
  proof (rule ccontr)
    assume "\<not> length ?t < length buf"
    then have "length ?t = length buf" using length_takeWhile_le [of "\<lambda>c. c \<noteq> NUL" buf] by linarith
    then have "?t = buf" using takeWhile_eq_take [of "\<lambda>c. c \<noteq> NUL" buf] by simp
    then show False using assms set_takeWhileD by metis
  qed
  then have "buf ! length ?t = NUL" using nth_length_takeWhile by blast
  moreover have "buf ! i \<noteq> NUL" if "i < length ?t" for i
    using that by (metis (mono_tags, lifting) nth_mem set_takeWhileD takeWhile_nth)
  ultimately show ?thesis using l by (simp add: is_text_def)
qed

lemma parsecmd_ends:
  assumes "NUL \<in> set buf" "sh_pos s = 0"
  defines "es \<equiv> length (takeWhile (\<lambda>c. c \<noteq> NUL) buf)"
  shows "ends (parsecmd buf) s (\<lambda>(c, b) u. b = nulterminate c buf \<and> words_ok buf es c \<and>
     gline (tokens buf es 0) (map_cmd (sub buf) c) [])"
proof -
  have T: "is_text buf es" unfolding es_def by (rule text_of_string [OF assms(1)])
  show ?thesis unfolding parsecmd_def Let_def es_def [symmetric]
  proof (rule ends_bind [OF conjunct1 [OF parser_ends [OF T], rule_format]], goal_cases)
    case (3 c t)
    then have t: "sh_pos t \<le> es" by (simp add: derives_def onward_def)
    show ?case
    proof (rule ends_bind [OF ends_peek [OF T t]], goal_cases)
      case (2 b u)
      then have "ends (bind (get sh_pos) (\<lambda>s. if s \<noteq> es then panic ''syntax'' else ret (c, nulterminate c buf))) u
          (\<lambda>(c, b) u. b = nulterminate c buf \<and> words_ok buf es c \<and> gline (tokens buf es 0) (map_cmd (sub buf) c) [])"
        using 3 tokens_end [OF T] assms(2) by (auto simp: ends_def bind_def get_def ret_def stop_def derives_def)
      then show ?case by simp
    qed simp
  qed (use assms(2) in simp_all)
qed

text \<open>
  C33. The shell's parser against its grammar: on every string, the parser either rejects it with a
  message or returns a command that the grammar derives from all tokens of the string, none left over;
  and in the text as \<open>nulterminate\<close> leaves it, each word pointer of the command reads, as a C string,
  the word that the grammar has at that place.
\<close>

theorem sh_parse_correct:
  assumes "NUL \<in> set buf" "parsecmd buf parse_start = Inr ((c, b), t)"
  shows "gline (tokens buf (length (takeWhile (\<lambda>c. c \<noteq> NUL) buf)) 0) (map_cmd (word_at b) c) []"
proof -
  let ?es = "length (takeWhile (\<lambda>c. c \<noteq> NUL) buf)"
  have "ends (parsecmd buf) parse_start (\<lambda>(c, b) u. b = nulterminate c buf \<and> words_ok buf ?es c \<and>
     gline (tokens buf ?es 0) (map_cmd (sub buf) c) [])"
    using parsecmd_ends [OF assms(1), of parse_start] by (simp add: parse_start_def)
  then have E: "b = nulterminate c buf" "words_ok buf ?es c" "gline (tokens buf ?es 0) (map_cmd (sub buf) c) []"
    by (auto simp: ends_def assms(2))
  have "map_cmd (word_at b) c = map_cmd (sub buf) c"
    using word_at_terminated [OF text_of_string [OF assms(1)] E(2)] E(1) by (intro cmd.map_cong0) simp
  with E(3) show ?thesis by simp
qed

text \<open>
  The shell's parser ends on every string: whatever the user types, the recursive routines return
  or stop with a message within the fuel that the length of the string gives.
\<close>

theorem sh_parse_terminates:
  assumes "NUL \<in> set buf"
  shows "parsecmd buf parse_start \<noteq> Inl Diverge"
  using parsecmd_ends [OF assms, of parse_start] by (auto simp: ends_def parse_start_def)

text \<open>\<open>(a<f;b)|c\<close>\<close>

definition demo_line :: string where
  "demo_line = ''(a <f; bc)|d'' @ [CHR 0x0A, CHR 0x00]"

theorem sh_parse_correct_witness:
  "gline (tokens demo_line 13 0) (PIPE (LIST (REDIR (EXEC [''a'']) ''f'' ORead 0) (EXEC [''bc''])) (EXEC [''d''])) []"
proof -
  have run: "case parsecmd demo_line parse_start of
      Inr ((c, b), t) \<Rightarrow> map_cmd (word_at b) c = PIPE (LIST (REDIR (EXEC [''a'']) ''f'' ORead 0) (EXEC [''bc''])) (EXEC [''d''])
    | Inl e \<Rightarrow> False" by code_simp
  have es: "length (takeWhile (\<lambda>c. c \<noteq> NUL) demo_line) = 13" and nul: "NUL \<in> set demo_line"
    by (simp_all add: demo_line_def NUL_def)
  obtain c b t where "parsecmd demo_line parse_start = Inr ((c, b), t)"
      "map_cmd (word_at b) c = PIPE (LIST (REDIR (EXEC [''a'']) ''f'' ORead 0) (EXEC [''bc''])) (EXEC [''d''])"
    using run by (auto split: sum.splits prod.splits)
  then show ?thesis using sh_parse_correct [OF nul, of c b t] es by simp
qed

theorem sh_parse_terminates_witness: "parsecmd demo_line parse_start \<noteq> Inl Diverge"
  by (rule sh_parse_terminates) (simp add: demo_line_def NUL_def)

end
