(* ===== verification/Console.thy ===== *)
theory Console
  imports Procs
begin

text \<open>
  The console, \<open>kern/console.c\<close>: line editing of the input in a circular buffer, the device functions
  for reading and writing, formatted output. The UART is a device: \<open>uart_in\<close> are the characters that
  wait in it, \<open>uart_out\<close> those sent. A reader that sleeps ends in \<open>Switch\<close>; \<open>console_read_again\<close> is what
  it runs when woken.
\<close>

unbundle bit_operations_syntax

section \<open>The state\<close>

definition CONSOLE :: nat where "CONSOLE = 1"
definition INPUT_BUF :: nat where "INPUT_BUF = 128"
definition BACKSPACE :: int where "BACKSPACE = 0x100"

text \<open>Control characters: \<open>C(x)\<close> is \<open>x - '@'\<close>.\<close>

definition ctrl :: "byte \<Rightarrow> byte" where "ctrl x = x - 64"

definition CTRL_D :: byte where "CTRL_D = ctrl 68"
definition CTRL_H :: byte where "CTRL_H = ctrl 72"
definition CTRL_P :: byte where "CTRL_P = ctrl 80"
definition CTRL_U :: byte where "CTRL_U = ctrl 85"
definition DELETE :: byte where "DELETE = 0x7F"
definition NEWLINE :: byte where "NEWLINE = 10"
definition RETURN :: byte where "RETURN = 13"

lemmas char_defs = CTRL_D_def CTRL_H_def CTRL_P_def CTRL_U_def DELETE_def NEWLINE_def RETURN_def ctrl_def

record consstate = filestate +
  panicked :: int
  in_buf :: "byte list"
  in_r :: u64
  in_w :: u64
  in_e :: u64
  uart_in :: "byte list"
  uart_out :: "byte list"

definition uart_putchar :: "byte \<Rightarrow> ('z consstate_scheme, unit) kop" where
  "uart_putchar c = upd (\<lambda>s. s\<lparr>uart_out := uart_out s @ [c]\<rparr>)"

text \<open>\<open>input.buf[i % INPUT_BUF]\<close>\<close>

definition slot :: "u64 \<Rightarrow> nat" where
  "slot i = unat i mod INPUT_BUF"

section \<open>Reading and writing\<close>

definition consputc :: "int \<Rightarrow> ('z consstate_scheme, unit) kop" where
  "consputc c =
     (if c = BACKSPACE then seq (uart_putchar 8) (seq (uart_putchar 32) (uart_putchar 8))
      else uart_putchar (word_of_int c))"

fun consputs :: "byte list \<Rightarrow> ('z consstate_scheme, unit) kop" where
  "consputs [] = ret ()"
| "consputs (c # cs) = seq (consputc (uint c)) (consputs cs)"

text \<open>\<open>n\<close> is compared as the unsigned \<open>size_t\<close>; bytes that the caller does not have fault.\<close>

definition console_write :: "nat \<Rightarrow> byte list \<Rightarrow> u64 \<Rightarrow> ('z consstate_scheme, int) kop" where
  "console_write ip buf n =
     seq (iunlock (Some ip))
     (seq (acquire Lcons)
     (if length buf < unat n then stop Fault
      else seq (consputs (take (unat n) buf))
        (seq (release Lcons)
        (seq (ilock (Some ip))
        (ret (sint n))))))"

text \<open>
  The loop of \<open>console_read\<close>, with \<open>n\<close> bytes still wanted of \<open>target\<close> and \<open>acc\<close> stored. It ends by
  \<open>break\<close> (\<open>True\<close>) or because the process was killed (\<open>False\<close>).
\<close>

fun console_read_loop :: "nat \<Rightarrow> nat \<Rightarrow> nat \<Rightarrow> byte list \<Rightarrow> ('z consstate_scheme, bool \<times> byte list) kop" where
  "console_read_loop 0 target n acc = stop Diverge"
| "console_read_loop (Suc fuel) target n acc =
     (if n = 0 then ret (True, acc)
      else bind (get (\<lambda>s. in_r s = in_w s)) (\<lambda>nothing.
        if nothing then myproc (\<lambda>p.
          bind (get (\<lambda>s. p_killed (ptable s p))) (\<lambda>killed.
          if killed then ret (False, acc)
          else seq (sleep Cinput Lcons) (console_read_loop fuel target n acc)))
        else bind (get (\<lambda>s. in_buf s ! slot (in_r s))) (\<lambda>c.
          seq (upd (\<lambda>s. s\<lparr>in_r := in_r s + 1\<rparr>))
          (if c = CTRL_D then
             seq (if n < target then upd (\<lambda>s. s\<lparr>in_r := in_r s - 1\<rparr>) else ret ()) (ret (True, acc))
           else if c = NEWLINE then ret (True, acc @ [c])
           else console_read_loop fuel target (n - 1) (acc @ [c])))))"

text \<open>The end of \<open>console_read\<close>: the bytes stored, and their number or -1.\<close>

definition console_read_end :: "nat \<Rightarrow> bool \<times> byte list \<Rightarrow> ('z consstate_scheme, int \<times> byte list) kop" where
  "console_read_end ip r =
     seq (release Lcons)
     (seq (ilock (Some ip))
     (ret (if fst r then int (length (snd r)) else -1, snd r)))"

text \<open>A count that is negative as a signed number reads nothing.\<close>

definition console_read :: "nat \<Rightarrow> u64 \<Rightarrow> ('z consstate_scheme, int \<times> byte list) kop" where
  "console_read ip n =
     seq (iunlock (Some ip))
     (seq (acquire Lcons)
     (bind (console_read_loop (nat (sint n) + 2) (nat (sint n)) (nat (sint n)) []) (console_read_end ip)))"

definition console_read_again :: "nat \<Rightarrow> nat \<Rightarrow> nat \<Rightarrow> byte list \<Rightarrow> ('z consstate_scheme, int \<times> byte list) kop" where
  "console_read_again ip target n acc =
     seq (sleep_resume Lcons)
     (bind (console_read_loop (n + 2) target n acc) (console_read_end ip))"

text \<open>The entry that \<open>console_init\<close> makes in the device table.\<close>

definition console_devsw :: "(nat \<Rightarrow> 'z consstate_scheme devsw) \<Rightarrow> (nat \<Rightarrow> 'z consstate_scheme devsw)" where
  "console_devsw dsw = dsw(CONSOLE := \<lparr>dev_read = Some console_read, dev_write = Some console_write\<rparr>)"

section \<open>Input\<close>

text \<open>\<open>C('U')\<close>: the loop that erases the line; \<open>fuel\<close> bounds the characters being edited.\<close>

fun kill_line :: "nat \<Rightarrow> ('z consstate_scheme, unit) kop" where
  "kill_line 0 = stop Diverge"
| "kill_line (Suc fuel) =
     bind (get (\<lambda>s. in_e s \<noteq> in_w s \<and> in_buf s ! slot (in_e s - 1) \<noteq> NEWLINE)) (\<lambda>more.
     if \<not> more then ret ()
     else seq (upd (\<lambda>s. s\<lparr>in_e := in_e s - 1\<rparr>))
       (seq (consputc BACKSPACE)
       (kill_line fuel)))"

definition put_input :: "byte \<Rightarrow> ('z consstate_scheme, unit) kop" where
  "put_input c =
     bind (get (\<lambda>s. c \<noteq> 0 \<and> in_e s - in_r s < of_nat INPUT_BUF)) (\<lambda>room.
     if \<not> room then ret ()
     else let c = (if c = RETURN then NEWLINE else c) in
       seq (upd (\<lambda>s. s\<lparr>in_buf := (in_buf s)[slot (in_e s) := c], in_e := in_e s + 1\<rparr>))
       (seq (consputc (uint c))
       (bind (get (\<lambda>s. c = NEWLINE \<or> c = CTRL_D \<or> in_e s = in_r s + of_nat INPUT_BUF)) (\<lambda>line.
        if line then seq (upd (\<lambda>s. s\<lparr>in_w := in_e s\<rparr>)) (wakeup Cinput) else ret ()))))"

text \<open>One character; the result says whether a process listing was asked for.\<close>

definition console_char :: "byte \<Rightarrow> ('z consstate_scheme, bool) kop" where
  "console_char c =
     (if c = CTRL_P then ret True
      else if c = CTRL_U then seq (kill_line (INPUT_BUF + 1)) (ret False)
      else if c = CTRL_H \<or> c = DELETE then
        bind (get (\<lambda>s. in_e s \<noteq> in_w s)) (\<lambda>more.
        if more then seq (upd (\<lambda>s. s\<lparr>in_e := in_e s - 1\<rparr>)) (seq (consputc BACKSPACE) (ret False))
        else ret False)
      else seq (put_input c) (ret False))"

fun console_chars :: "byte list \<Rightarrow> bool \<Rightarrow> ('z consstate_scheme, bool) kop" where
  "console_chars [] dump = ret dump"
| "console_chars (c # cs) dump =
     seq (upd (\<lambda>s. s\<lparr>uart_in := cs\<rparr>))
     (bind (console_char c) (\<lambda>d. console_chars cs (dump \<or> d)))"

definition console_intr :: "('z consstate_scheme, unit) kop" where
  "console_intr =
     seq (acquire Lcons)
     (bind (get panicked) (\<lambda>p.
      if p \<ge> 0 then seq (release Lcons) (stop Spin)
      else bind (get uart_in) (\<lambda>cs.
        bind (console_chars cs False) (\<lambda>dump.
        seq (release Lcons)
        (if dump then procdump else ret ())))))"

section \<open>Formatted output\<close>

text \<open>The digits of a number, least significant first, and the output of \<open>printint\<close>.\<close>

definition DIGITS :: "byte list" where
  "DIGITS = [48, 49, 50, 51, 52, 53, 54, 55, 56, 57, 97, 98, 99, 100, 101, 102]"

function digits_rev :: "nat \<Rightarrow> nat \<Rightarrow> byte list" where
  "digits_rev b t = DIGITS ! (t mod b) # (if b < 2 \<or> t div b = 0 then [] else digits_rev b (t div b))"
  by pat_completeness auto
termination
proof (relation "measure snd", goal_cases)
  case (2 b t)
  then have "t \<noteq> 0" "1 < b" by (auto intro: ccontr)
  then show ?case by simp
qed simp

declare digits_rev.simps [simp del]

definition printint :: "u64 \<Rightarrow> nat \<Rightarrow> bool \<Rightarrow> byte list" where
  "printint x b sign =
     (if sign \<and> sint x < 0 then 45 # rev (digits_rev b (unat (- x)))
      else rev (digits_rev b (unat x)))"

text \<open>
  An argument of a variadic call: a register, or, for a string conversion, the string that a pointer in
  a register names.
\<close>

datatype vararg = Reg u64 | Str "byte list option"

definition reg :: "vararg \<Rightarrow> u64" where
  "reg a = (case a of Reg w \<Rightarrow> w | Str _ \<Rightarrow> 0)"

text \<open>The text sent for one conversion; \<open>l\<close> counts the letters \<open>l\<close> before it.\<close>

definition NULLSTR :: "byte list" where
  "NULLSTR = [40, 110, 117, 108, 108, 41]"

definition conversion :: "byte \<Rightarrow> nat \<Rightarrow> vararg list \<Rightarrow> byte list \<times> vararg list" where
  "conversion c l ap =
     (let a = (case ap of [] \<Rightarrow> Reg 0 | x # _ \<Rightarrow> x); rest = drop 1 ap; lo = (ucast (reg a) :: u32) in
      if c = 117 then (printint (if l = 2 then reg a else ucast lo) 10 False, rest)
      else if c = 100 then (printint (if l = 2 then reg a else scast lo) 10 True, rest)
      else if c = 120 then (printint (if l = 2 then reg a else ucast lo) 16 False, rest)
      else if c = 112 then (printint (reg a) 16 False, rest)
      else if c = 99 then ([ucast (reg a)], rest)
      else if c = 115 then
        (case a of
           Str (Some s) \<Rightarrow> (takeWhile (\<lambda>c. c \<noteq> 0) s, rest)
         | _ \<Rightarrow> (NULLSTR, rest))
      else if c = 37 then ([37], ap)
      else ([37, c], ap))"

text \<open>
  The format is the list of its characters with the terminating zero. After a percent sign the
  letters \<open>l\<close> are counted; the next character chooses the conversion.
\<close>

function vprintfmt :: "byte list \<Rightarrow> vararg list \<Rightarrow> byte list" where
  "vprintfmt fmt ap =
     (case fmt of
        [] \<Rightarrow> []
      | c # rest \<Rightarrow>
          if c = 0 then []
          else if c \<noteq> 37 then c # vprintfmt rest ap
          else let l = length (takeWhile (\<lambda>c. c = 108) rest) in
            (case drop l rest of
               [] \<Rightarrow> []
             | d # fmt' \<Rightarrow>
                 if d = 0 then []
                 else let (out, ap) = conversion d l ap in out @ vprintfmt fmt' ap))"
  by pat_completeness auto
termination
proof (relation "measure (\<lambda>(fmt, ap). length fmt)", goal_cases)
  case (3 fmt ap c rest l d fmt' out ap')
  have "length (d # fmt') \<le> length rest" unfolding 3(5) [symmetric] by simp
  then show ?case using 3(1) by simp
qed auto

declare vprintfmt.simps [simp del]

text \<open>A string without conversions is sent as it is; \<open>va_start\<close> gives the arguments \<open>ap\<close>.\<close>

definition cprintf :: "byte list \<Rightarrow> vararg list \<Rightarrow> ('z consstate_scheme, unit) kop" where
  "cprintf fmt ap =
     seq (acquire Lcons)
     (bind (get (\<lambda>s. panicked s \<ge> 0 \<and> panicked s \<noteq> int (this_cpu s))) (\<lambda>other.
      if other then seq (release Lcons) (stop Spin)
      else seq (upd (\<lambda>s. s\<lparr>uart_out := uart_out s @ vprintfmt fmt ap\<rparr>)) (release Lcons)))"

text \<open>\<open>panic\<close> up to its final loop: what it prints first, then where it was called.\<close>

definition panic_report :: "byte list \<Rightarrow> vararg list \<Rightarrow> byte list \<Rightarrow> vararg list \<Rightarrow> ('z consstate_scheme, unit) kop" where
  "panic_report fmt ap at_fmt at_args =
     seq (acquire Lcons)
     (bind (get (\<lambda>s. panicked s < 0)) (\<lambda>first.
      if first then
        seq (upd (\<lambda>s. s\<lparr>panicked := int (this_cpu s)\<rparr>))
        (seq (upd (\<lambda>s. s\<lparr>uart_out := uart_out s @ vprintfmt fmt ap\<rparr>))
        (seq (release Lcons)
        (cprintf at_fmt at_args)))
      else seq (release Lcons) (stop Spin)))"

end
