(* ===== verification/Consline.thy ===== *)
theory Consline
  imports Console
begin

text \<open>
  The console's input as a line editor. Abstractly there are the characters that readers may have and
  those of the line being edited, two lists; \<open>console_intr\<close> over the circular buffer refines the
  editor's step on them, and reading takes from the first.
\<close>

section \<open>The editor\<close>

text \<open>\<open>ed_step c (q, l)\<close>: character \<open>c\<close> arrives when \<open>q\<close> is readable and \<open>l\<close> is being edited.\<close>

definition ed_step :: "byte \<Rightarrow> byte list \<times> byte list \<Rightarrow> byte list \<times> byte list" where
  "ed_step c ql = (case ql of (q, l) \<Rightarrow>
     if c = CTRL_P then (q, l)
     else if c = CTRL_U then (q, [])
     else if c = CTRL_H \<or> c = DELETE then (q, butlast l)
     else if c = 0 \<or> length q + length l \<ge> INPUT_BUF then (q, l)
     else let c = (if c = RETURN then NEWLINE else c); l = l @ [c] in
       if c = NEWLINE \<or> c = CTRL_D \<or> length q + length l = INPUT_BUF then (q @ l, []) else (q, l))"

section \<open>The circular buffer\<close>

lemma slot_add: "slot (x + of_nat i) = (slot x + i) mod INPUT_BUF"
proof -
  have "unat (x + of_nat i) = (unat x + i) mod 2 ^ 64"
    by (simp add: unat_word_ariths unat_of_nat mod_add_right_eq)
  moreover have "(unat x + i) mod 2 ^ 64 mod INPUT_BUF = (unat x + i) mod INPUT_BUF"
    by (rule mod_mod_cancel) (simp add: INPUT_BUF_def)
  ultimately show ?thesis by (simp add: slot_def mod_add_left_eq)
qed

lemma slot_less: "slot x < INPUT_BUF"
  by (simp add: slot_def INPUT_BUF_def)

lemma slot_neq: "i < INPUT_BUF \<Longrightarrow> j < INPUT_BUF \<Longrightarrow> i \<noteq> j \<Longrightarrow> slot (x + of_nat i) \<noteq> slot (x + of_nat j)"
  unfolding slot_add using slot_less [of x] by (auto simp: mod_if)

definition window :: "byte list \<Rightarrow> u64 \<Rightarrow> nat \<Rightarrow> byte list" where
  "window buf x n = map (\<lambda>i. buf ! slot (x + of_nat i)) [0..<n]"

lemma window_length [simp]: "length (window buf x n) = n"
  by (simp add: window_def)

lemma window_nth: "i < n \<Longrightarrow> window buf x n ! i = buf ! slot (x + of_nat i)"
  by (simp add: window_def)

lemma window_store:
  assumes "length buf = INPUT_BUF" "n < INPUT_BUF"
  shows "window (buf[slot (x + of_nat n) := c]) x (Suc n) = window buf x n @ [c]"
proof -
  have "buf[slot (x + of_nat n) := c] ! slot (x + of_nat i) = buf ! slot (x + of_nat i)" if "i < n" for i
    using slot_neq [of i n x] that assms by auto
  then show ?thesis using assms slot_less [of "x + of_nat n"] by (simp add: window_def)
qed

lemma window_butlast: "window buf x (n - 1) = butlast (window buf x n)"
  by (cases n) (simp_all add: window_def)

lemma window_tl: "0 < n \<Longrightarrow> window buf (x + 1) (n - 1) = tl (window buf x n)"
  by (cases n) (simp_all add: window_def map_upt_Suc add.assoc del: upt_Suc)

text \<open>The lists behind a state, and when it is well formed.\<close>

definition rw :: "'z consstate_scheme \<Rightarrow> nat" where "rw s = unat (in_w s - in_r s)"
definition re :: "'z consstate_scheme \<Rightarrow> nat" where "re s = unat (in_e s - in_r s)"

definition cons_abs :: "'z consstate_scheme \<Rightarrow> byte list \<times> byte list" where
  "cons_abs s = (take (rw s) (window (in_buf s) (in_r s) (re s)), drop (rw s) (window (in_buf s) (in_r s) (re s)))"

definition cons_ok :: "'z consstate_scheme \<Rightarrow> bool" where
  "cons_ok s \<longleftrightarrow> length (in_buf s) = INPUT_BUF \<and> rw s \<le> re s \<and> re s \<le> INPUT_BUF \<and>
     NEWLINE \<notin> set (snd (cons_abs s))"

lemma e_of_re: "in_e s = in_r s + of_nat (re s)" and w_of_rw: "in_w s = in_r s + of_nat (rw s)"
  by (simp_all add: re_def rw_def)

lemma re_eq: "n < 2 ^ 64 \<Longrightarrow> in_e s = in_r s + of_nat n \<Longrightarrow> re s = n"
  by (simp add: re_def unat_of_nat64)

lemma rw_eq: "n < 2 ^ 64 \<Longrightarrow> in_w s = in_r s + of_nat n \<Longrightarrow> rw s = n"
  by (simp add: rw_def unat_of_nat64)

lemma e_neq_w: "cons_ok s \<Longrightarrow> in_e s = in_w s \<longleftrightarrow> re s = rw s"
  by (metis e_of_re w_of_rw re_def rw_def)

section \<open>The steps\<close>

text \<open>What changes besides the buffer: the output, and the processes that are woken.\<close>

definition cons_frame :: "'z consstate_scheme \<Rightarrow> 'z consstate_scheme \<Rightarrow> bool" where
  "cons_frame s t \<longleftrightarrow> locks t = locks s \<and> this_cpu t = this_cpu s \<and> panicked t = panicked s \<and> in_r t = in_r s \<and>
     (fst (cons_abs t) = fst (cons_abs s) \<and> ptable t = ptable s \<or> ptable t = woken Cinput (ptable s))"

lemma cons_frame_refl: "cons_frame s s"
  by (simp add: cons_frame_def)

lemma woken_idem: "woken ch (woken ch pt) = woken ch pt"
  by (rule ext) (simp add: woken_def)

lemma cons_frame_trans: "cons_frame s t \<Longrightarrow> cons_frame t u \<Longrightarrow> cons_frame s u"
  by (auto simp: cons_frame_def woken_idem)

lemma consputc_run [kop_simps]:
  "consputc c s = Inr ((), s\<lparr>uart_out := uart_out s @ (if c = BACKSPACE then [8, 32, 8] else [word_of_int c])\<rparr>)"
  by (simp add: consputc_def uart_putchar_def kop_simps)

text \<open>Shrinking the line by one character.\<close>

lemma cons_shrink:
  assumes "cons_ok s" "re s \<noteq> rw s"
  defines "t \<equiv> s\<lparr>in_e := in_e s - 1\<rparr>"
  shows "re t = re s - 1" "rw t = rw s" "cons_abs t = (fst (cons_abs s), butlast (snd (cons_abs s)))" "cons_ok t"
proof -
  have r: "rw s < re s" "re s \<le> 128" using assms(1,2) by (auto simp: cons_ok_def INPUT_BUF_def)
  have "in_e t = in_r t + of_nat (re s - 1)" using r e_of_re [of s] by (simp add: t_def of_nat_diff)
  then show re: "re t = re s - 1" using r by (intro re_eq) simp_all
  show rw: "rw t = rw s" by (simp add: t_def rw_def)
  have w: "window (in_buf t) (in_r t) (re t) = butlast (window (in_buf s) (in_r s) (re s))"
    unfolding re using window_butlast [of "in_buf s" "in_r s" "re s"] by (simp add: t_def)
  show a: "cons_abs t = (fst (cons_abs s), butlast (snd (cons_abs s)))"
    unfolding cons_abs_def w rw using r by (simp add: butlast_conv_take drop_take min_absorb1 min_absorb2)
  show "cons_ok t" using assms(1) r by (auto simp: cons_ok_def re rw a dest: in_set_butlastD) (simp_all add: t_def)
qed

lemma cons_same:
  assumes "in_buf t = in_buf s" "in_r t = in_r s" "in_w t = in_w s" "in_e t = in_e s"
  shows "cons_abs t = cons_abs s" "cons_ok t = cons_ok s" "re t = re s" "rw t = rw s"
  using assms by (simp_all add: cons_abs_def cons_ok_def re_def rw_def)

lemma snd_cons_abs: "cons_ok s \<Longrightarrow> length (fst (cons_abs s)) = rw s \<and> length (snd (cons_abs s)) = re s - rw s"
  by (simp add: cons_ok_def cons_abs_def)

lemma last_edited:
  assumes "cons_ok s" "re s \<noteq> rw s"
  shows "in_buf s ! slot (in_e s - 1) = last (snd (cons_abs s))"
proof -
  have r: "rw s < re s" "re s \<le> 128" using assms by (auto simp: cons_ok_def INPUT_BUF_def)
  have "in_e s - 1 = in_r s + of_nat (re s - 1)" using r e_of_re [of s] by (simp add: of_nat_diff)
  then show ?thesis using r by (simp add: cons_abs_def last_conv_nth window_nth add_diff_eq)
qed

lemma kill_line_run:
  assumes "cons_ok s" "re s - rw s < fuel"
  shows "\<exists>t. kill_line fuel s = Inr ((), t) \<and> cons_ok t \<and> cons_frame s t \<and> cons_abs t = (fst (cons_abs s), [])"
  using assms
proof (induction fuel arbitrary: s)
  case (Suc fuel)
  show ?case
  proof (cases "re s = rw s")
    case True
    then have "in_e s = in_w s" "cons_abs s = (fst (cons_abs s), [])"
      using Suc.prems e_neq_w snd_cons_abs by (fastforce intro: prod_eqI)+
    moreover from this have "kill_line (Suc fuel) s = Inr ((), s)" by (simp add: bind_def get_def ret_def)
    ultimately show ?thesis using Suc.prems by (auto simp: cons_frame_refl)
  next
    case False
    let ?t = "s\<lparr>in_e := in_e s - 1, uart_out := uart_out s @ [8, 32, 8]\<rparr>"
    have "last (snd (cons_abs s)) \<in> set (snd (cons_abs s))"
      using False Suc.prems(1) snd_cons_abs [OF Suc.prems(1)] by (intro last_in_set) (auto simp: cons_ok_def)
    then have "last (snd (cons_abs s)) \<noteq> NEWLINE" using Suc.prems(1) by (auto simp: cons_ok_def)
    then have run: "kill_line (Suc fuel) s = kill_line fuel ?t"
      using False e_neq_w [OF Suc.prems(1)] last_edited [OF Suc.prems(1) False] by (simp add: kop_simps)
    note S = cons_shrink [OF Suc.prems(1) False] and E = cons_same [of ?t "s\<lparr>in_e := in_e s - 1\<rparr>", simplified]
    have "rw s \<le> re s" using Suc.prems(1) by (simp add: cons_ok_def)
    then have "re ?t - rw ?t < fuel" unfolding E(3,4) S(1,2) using Suc.prems(2) False by linarith
    then obtain t where t: "kill_line fuel ?t = Inr ((), t)" "cons_ok t" "cons_frame ?t t" "cons_abs t = (fst (cons_abs ?t), [])"
      using Suc.IH [of ?t] S(4) E(2) by auto
    have "cons_frame s t" using t(3) E(1) S(3) by (simp add: cons_frame_def)
    then show ?thesis using run t S(3) E(1) by auto
  qed
qed simp

text \<open>Storing a character, and making the line readable.\<close>

lemma cons_store:
  fixes c :: byte
  assumes "cons_ok s" "re s < INPUT_BUF"
  defines "t \<equiv> s\<lparr>in_buf := (in_buf s)[slot (in_e s) := c], in_e := in_e s + 1\<rparr>"
  shows "re t = Suc (re s)" "rw t = rw s" "cons_abs t = (fst (cons_abs s), snd (cons_abs s) @ [c])" "length (in_buf t) = INPUT_BUF"
proof -
  have r: "rw s \<le> re s" "re s < 128" using assms(1,2) by (auto simp: cons_ok_def INPUT_BUF_def)
  have "in_e t = in_r t + of_nat (Suc (re s))" using e_of_re [of s] by (simp add: t_def add.assoc)
  then show re: "re t = Suc (re s)" using r by (intro re_eq) simp_all
  show rw: "rw t = rw s" by (simp add: t_def rw_def)
  show "length (in_buf t) = INPUT_BUF" using assms(1) by (simp add: t_def cons_ok_def)
  have "window (in_buf t) (in_r t) (re t) = window (in_buf s) (in_r s) (re s) @ [c]"
    unfolding re using window_store [of "in_buf s" "re s" "in_r s" c] assms(1,2) e_of_re [of s]
    by (simp add: t_def cons_ok_def)
  then show "cons_abs t = (fst (cons_abs s), snd (cons_abs s) @ [c])" unfolding cons_abs_def rw using r by simp
qed

lemma cons_commit:
  assumes "length (in_buf s) = INPUT_BUF" "re s \<le> INPUT_BUF" "rw s \<le> re s"
  shows "cons_ok (s\<lparr>in_w := in_e s, ptable := pt\<rparr>) \<and>
    cons_abs (s\<lparr>in_w := in_e s, ptable := pt\<rparr>) = (fst (cons_abs s) @ snd (cons_abs s), [])"
proof -
  let ?t = "s\<lparr>in_w := in_e s, ptable := pt\<rparr>"
  have r: "re ?t = re s" "rw ?t = re s" by (simp_all add: re_def rw_def)
  have a: "cons_abs ?t = (fst (cons_abs s) @ snd (cons_abs s), [])" unfolding cons_abs_def r by simp
  then show ?thesis using assms by (simp add: cons_ok_def r)
qed

lemma put_input_run:
  assumes "cons_ok s" "lk_free (locks s Lptable)" "c \<noteq> CTRL_P" "c \<noteq> CTRL_U" "c \<noteq> CTRL_H" "c \<noteq> DELETE"
  shows "\<exists>t. put_input c s = Inr ((), t) \<and> cons_ok t \<and> cons_frame s t \<and> cons_abs t = ed_step c (cons_abs s)"
proof -
  let ?c = "if c = RETURN then NEWLINE else c"
  have len: "length (fst (cons_abs s)) + length (snd (cons_abs s)) = re s"
    using assms(1) snd_cons_abs [OF assms(1)] by (simp add: cons_ok_def)
  have le: "in_e s - in_r s < of_nat INPUT_BUF \<longleftrightarrow> re s < INPUT_BUF"
    by (simp add: re_def word_less_nat_alt INPUT_BUF_def)
  obtain q l where ql: "cons_abs s = (q, l)" by (cases "cons_abs s")
  show ?thesis
  proof (cases "c \<noteq> 0 \<and> re s < INPUT_BUF")
    case False
    then show ?thesis using assms len by (auto simp: put_input_def kop_simps le cons_frame_refl ed_step_def ql)
  next
    case True
    let ?t = "s\<lparr>in_buf := (in_buf s)[slot (in_e s) := ?c], in_e := in_e s + 1\<rparr>"
    let ?u = "?t\<lparr>uart_out := uart_out s @ (if uint ?c = BACKSPACE then [8, 32, 8] else [word_of_int (uint ?c)])\<rparr>"
    note S = cons_store [OF assms(1) conjunct2 [OF True], of ?c]
    note E = cons_same [of ?u ?t, simplified]
    have re: "re ?u = Suc (re s)" and rw: "rw ?u = rw s" and abs: "cons_abs ?u = (q, l @ [?c])" and lb: "length (in_buf ?u) = INPUT_BUF"
      using S E by (simp_all add: ql)
    have full: "in_e ?u = in_r ?u + of_nat INPUT_BUF \<longleftrightarrow> re ?u = INPUT_BUF"
    proof
      show "re ?u = INPUT_BUF" if "in_e ?u = in_r ?u + of_nat INPUT_BUF" using that by (intro re_eq) (simp_all add: INPUT_BUF_def)
      show "in_e ?u = in_r ?u + of_nat INPUT_BUF" if "re ?u = INPUT_BUF" using e_of_re [of ?u] that by simp
    qed
    define line where "line \<longleftrightarrow> ?c = NEWLINE \<or> ?c = CTRL_D \<or> re ?u = INPUT_BUF"
    have run: "put_input c s = (if line then Inr ((), ?u\<lparr>in_w := in_e ?u, ptable := woken Cinput (ptable s)\<rparr>) else Inr ((), ?u))"
      using True assms(2) full unfolding put_input_def line_def
      by (simp add: kop_simps le wakeup_run Let_def cong: if_cong)
    have bounds: "re ?u \<le> INPUT_BUF" "rw ?u \<le> re ?u" using True assms(1) re rw by (auto simp: cons_ok_def)
    have ed: "ed_step c (cons_abs s) = (if line then (q @ l @ [?c], []) else (q, l @ [?c]))"
      using True assms(3-6) len by (auto simp: ed_step_def ql line_def re Let_def)
    show ?thesis
    proof (cases line)
      case True
      then show ?thesis using run ed abs cons_commit [OF lb bounds, of "woken Cinput (ptable s)"]
        by (auto simp: cons_frame_def)
    next
      case False
      then have "cons_ok ?u" using assms(1) bounds lb abs by (auto simp: cons_ok_def ql line_def)
      then show ?thesis using False run ed abs by (auto simp: cons_frame_def ql)
    qed
  qed
qed

lemma console_char_run:
  assumes "cons_ok s" "lk_free (locks s Lptable)"
  shows "\<exists>t. console_char c s = Inr (c = CTRL_P, t) \<and> cons_ok t \<and> cons_frame s t \<and> cons_abs t = ed_step c (cons_abs s)"
proof -
  consider "c = CTRL_P" | "c = CTRL_U" | "c = CTRL_H \<or> c = DELETE" | "c \<noteq> CTRL_P \<and> c \<noteq> CTRL_U \<and> c \<noteq> CTRL_H \<and> c \<noteq> DELETE" by blast
  then show ?thesis
  proof cases
    case 1
    then show ?thesis using assms by (simp add: console_char_def kop_simps ed_step_def cons_frame_refl split: prod.split)
  next
    case 2
    have "re s - rw s < INPUT_BUF + 1" using assms(1) unfolding cons_ok_def by linarith
    from kill_line_run [OF assms(1) this] 2 show ?thesis
      by (auto simp: console_char_def kop_simps ed_step_def char_defs split: prod.split)
  next
    case 3
    then have c: "c \<noteq> CTRL_P" "c \<noteq> CTRL_U" by (auto simp: char_defs)
    have ed: "ed_step c (cons_abs s) = (fst (cons_abs s), butlast (snd (cons_abs s)))"
      using 3 c by (auto simp: ed_step_def split: prod.split)
    show ?thesis
    proof (cases "re s = rw s")
      case True
      then have e: "in_e s = in_w s" "cons_abs s = (fst (cons_abs s), [])"
        using assms(1) e_neq_w snd_cons_abs by (fastforce intro: prod_eqI)+
      have "ed_step c (cons_abs s) = cons_abs s" using ed e(2) by (metis butlast.simps(1) snd_conv)
      then show ?thesis using 3 c assms e(1) by (simp add: console_char_def kop_simps cons_frame_refl)
    next
      case False
      let ?t = "s\<lparr>in_e := in_e s - 1, uart_out := uart_out s @ [8, 32, 8]\<rparr>"
      have "console_char c s = Inr (False, ?t)"
        using False 3 c e_neq_w [OF assms(1)] by (simp add: console_char_def kop_simps)
      moreover have "cons_ok ?t" "cons_abs ?t = ed_step c (cons_abs s)"
        using cons_shrink [OF assms(1) False] cons_same [of ?t "s\<lparr>in_e := in_e s - 1\<rparr>", simplified] ed by auto
      ultimately show ?thesis using c ed by (auto simp: cons_frame_def)
    qed
  next
    case 4
    then show ?thesis using put_input_run [OF assms, of c] by (auto simp: console_char_def kop_simps)
  qed
qed

lemma console_chars_run:
  assumes "cons_ok s" "lk_free (locks s Lptable)"
  shows "\<exists>t. console_chars cs d s = Inr (d \<or> CTRL_P \<in> set cs, t) \<and> cons_ok t \<and> cons_frame s t \<and>
    cons_abs t = fold ed_step cs (cons_abs s)"
  using assms
proof (induction cs arbitrary: s d)
  case Nil
  then show ?case by (simp add: kop_simps cons_frame_refl)
next
  case (Cons c cs)
  let ?s = "s\<lparr>uart_in := cs\<rparr>"
  note E = cons_same [of ?s s, simplified]
  obtain t where t: "console_char c ?s = Inr (c = CTRL_P, t)" "cons_ok t" "cons_frame ?s t" "cons_abs t = ed_step c (cons_abs s)"
    using console_char_run [of ?s c] Cons.prems E by auto
  have f: "cons_frame s t" using t(3) E(1) by (simp add: cons_frame_def)
  have "lk_free (locks t Lptable)" using f Cons.prems(2) by (simp add: cons_frame_def)
  then obtain u where "console_chars cs (d \<or> c = CTRL_P) t = Inr ((d \<or> c = CTRL_P) \<or> CTRL_P \<in> set cs, u)" "cons_ok u"
      "cons_frame t u" "cons_abs u = fold ed_step cs (cons_abs t)"
    using Cons.IH [OF t(2)] by blast
  then show ?case using t(1,4) cons_frame_trans [OF f] by (auto simp: kop_simps)
qed

section \<open>Reading\<close>

text \<open>
  \<open>read_line began n q\<close>: a reader that wants \<open>n\<close> more characters of \<open>q\<close>, having got some before or not.
  \<open>None\<close>: it waits.
\<close>

fun read_line :: "bool \<Rightarrow> nat \<Rightarrow> byte list \<Rightarrow> (byte list \<times> byte list) option" where
  "read_line began 0 q = Some ([], q)"
| "read_line began (Suc n) [] = None"
| "read_line began (Suc n) (c # q) =
     (if c = CTRL_D then Some ([], if began then c # q else q)
      else if c = NEWLINE then Some ([c], q)
      else map_option (\<lambda>(bs, q). (c # bs, q)) (read_line True n q))"

lemma cons_take:
  assumes "cons_ok s" "fst (cons_abs s) = c # q"
  defines "t \<equiv> s\<lparr>in_r := in_r s + 1\<rparr>"
  shows "in_r s \<noteq> in_w s" "in_buf s ! slot (in_r s) = c" "cons_abs t = (q, snd (cons_abs s))" "cons_ok t"
proof -
  let ?w = "window (in_buf s) (in_r s) (re s)"
  have "rw s \<noteq> 0"
  proof
    assume "rw s = 0"
    then show False using assms(2) by (simp add: cons_abs_def)
  qed
  then have r: "0 < rw s" "rw s \<le> re s" "re s \<le> 128" using assms(1) by (auto simp: cons_ok_def INPUT_BUF_def)
  show "in_r s \<noteq> in_w s" using r(1) by (auto simp: rw_def)
  have tk: "take (rw s) ?w = c # q" using assms(2) by (simp add: cons_abs_def)
  then have "take (rw s) ?w ! 0 = c" by simp
  then have "?w ! 0 = c" using r(1) by simp
  then show "in_buf s ! slot (in_r s) = c" using r window_nth [of 0 "re s" "in_buf s" "in_r s"] by simp
  have re: "re t = re s - 1" using e_of_re [of s] r by (intro re_eq) (auto simp: t_def of_nat_diff)
  have rw: "rw t = rw s - 1" using w_of_rw [of s] r by (intro rw_eq) (auto simp: t_def of_nat_diff)
  have w: "window (in_buf t) (in_r t) (re t) = tl ?w" unfolding re using window_tl [of "re s" "in_buf s" "in_r s"] r by (simp add: t_def)
  have "take (rw s - 1) (tl ?w) = q" unfolding take_tl using tk r(1) by simp
  moreover have "drop (rw s - 1) (tl ?w) = drop (rw s) ?w" using r by (cases "rw s") (simp_all add: drop_Suc)
  ultimately show a: "cons_abs t = (q, snd (cons_abs s))" by (simp add: cons_abs_def w rw)
  show "cons_ok t" using assms(1) r by (auto simp: cons_ok_def re rw a) (simp_all add: t_def)
qed

lemma console_read_loop_run:
  assumes "cons_ok s" "read_line (n < target) n (fst (cons_abs s)) = Some (bs, q)" "n < fuel" "n \<le> target"
  shows "\<exists>t. console_read_loop fuel target n acc s = Inr ((True, acc @ bs), t) \<and> cons_ok t \<and>
    cons_abs t = (q, snd (cons_abs s))"
  using assms
proof (induction fuel arbitrary: s n acc bs)
  case (Suc fuel)
  show ?case
  proof (cases n)
    case 0
    then show ?thesis using Suc.prems by (auto simp: kop_simps intro: prod_eqI)
  next
    case (Suc m)
    then obtain c q1 where c: "fst (cons_abs s) = c # q1" using Suc.prems(2) by (cases "fst (cons_abs s)") auto
    let ?t = "s\<lparr>in_r := in_r s + 1\<rparr>"
    note T = cons_take [OF Suc.prems(1) c]
    have step: "console_read_loop (Suc fuel) target n acc s =
        (if c = CTRL_D then Inr ((True, acc), if n < target then s else ?t)
         else if c = NEWLINE then Inr ((True, acc @ [c]), ?t)
         else console_read_loop fuel target m (acc @ [c]) ?t)"
      using Suc T(1,2) by (simp add: bind_def get_def upd_def ret_def)
    show ?thesis
    proof (cases "c = CTRL_D \<or> c = NEWLINE")
      case True
      then show ?thesis using Suc Suc.prems c T(3,4) unfolding step by (auto simp: char_defs intro: prod_eqI split: if_splits)
    next
      case False
      then obtain bs1 where b: "read_line True m q1 = Some (bs1, q)" "bs = c # bs1"
        using Suc.prems(2) Suc c by (auto split: if_splits)
      have "read_line (m < target) m (fst (cons_abs ?t)) = Some (bs1, q)" using b(1) Suc.prems(4) Suc T(3) by simp
      then obtain t where "console_read_loop fuel target m (acc @ [c]) ?t = Inr ((True, acc @ bs), t)" "cons_ok t"
          "cons_abs t = (q, snd (cons_abs s))"
        using Suc.IH [OF T(4), of m bs1 "acc @ [c]"] Suc.prems(3,4) Suc T(3) b(2) by auto
      then show ?thesis unfolding step using False by auto
    qed
  qed
qed simp

lemma console_intr_run:
  assumes "spin_free s" "cons_ok s" "panicked s < 0"
  shows "if CTRL_P \<in> set (uart_in s) then console_intr s = Inl (Panic ''unimplemented'')
    else \<exists>t. console_intr s = Inr ((), t) \<and> cons_ok t \<and> spin_free t \<and>
      cons_abs t = fold ed_step (uart_in s) (cons_abs s) \<and>
      (fst (cons_abs t) \<noteq> fst (cons_abs s) \<longrightarrow> ptable t = woken Cinput (ptable s))"
proof -
  let ?held = "(locks s Lcons)\<lparr>lk_locked := True, lk_cpu := Some (this_cpu s)\<rparr>"
  let ?s = "s\<lparr>locks := (locks s)(Lcons := ?held)\<rparr>"
  note E = cons_same [of ?s s, simplified]
  have "lk_free (locks ?s Lptable)" using assms(1) by (simp add: spin_free_def)
  then obtain t where t: "console_chars (uart_in s) False ?s = Inr (CTRL_P \<in> set (uart_in s), t)" "cons_ok t"
      "cons_frame ?s t" "cons_abs t = fold ed_step (uart_in s) (cons_abs s)"
    using console_chars_run [of ?s "uart_in s" False] assms(2) E by auto
  let ?t = "t\<lparr>locks := (locks t)(Lcons := (locks t Lcons)\<lparr>lk_cpu := None, lk_locked := False\<rparr>)\<rparr>"
  have lk: "lk_locked (locks t Lcons)" "lk_cpu (locks t Lcons) = Some (this_cpu t)" "locks ?t = locks s"
    using t(3) lk_free_reset [of "locks s Lcons"] assms(1) by (auto simp: cons_frame_def spin_free_def)
  have run: "console_intr s = (if CTRL_P \<in> set (uart_in s) then Inl (Panic ''unimplemented'') else Inr ((), ?t))"
    using assms(1,3) t(1) lk(1,2) by (simp add: console_intr_def procdump_def kop_simps lock_simps)
  have same: "cons_abs ?t = cons_abs t" "cons_ok ?t" using cons_same [of ?t t, simplified] t(2) by auto
  have woke: "ptable ?t = woken Cinput (ptable s)" if "fst (cons_abs ?t) \<noteq> fst (cons_abs s)"
    using that t(3) same(1) E(1) by (auto simp: cons_frame_def)
  have "spin_free ?t" using lk(3) assms(1) by (simp add: spin_free_def)
  then show ?thesis using run same t(4) woke by auto
qed

text \<open>Typing characters that the editor gives no meaning to.\<close>

definition ordinary :: "byte \<Rightarrow> bool" where
  "ordinary c \<longleftrightarrow> c \<notin> {0, CTRL_P, CTRL_U, CTRL_H, CTRL_D, DELETE, NEWLINE, RETURN}"

lemma ed_ordinary:
  "\<forall>c\<in>set cs. ordinary c \<Longrightarrow> length l + length cs < INPUT_BUF \<Longrightarrow> fold ed_step cs ([], l) = ([], l @ cs)"
  by (induction cs arbitrary: l) (auto simp: ed_step_def ordinary_def Let_def)

lemma ed_return: "length cs < INPUT_BUF \<Longrightarrow> ed_step RETURN ([], cs) = (cs @ [NEWLINE], [])"
  by (auto simp: ed_step_def Let_def char_defs)

lemma read_line_ordinary:
  "\<forall>c\<in>set cs. ordinary c \<Longrightarrow> length cs < n \<Longrightarrow> read_line b n (cs @ NEWLINE # q) = Some (cs @ [NEWLINE], q)"
proof (induction cs arbitrary: n b)
  case Nil
  then show ?case by (cases n) (auto simp: char_defs)
next
  case (Cons c cs)
  then show ?case by (cases n) (auto simp: ordinary_def)
qed

section \<open>Properties\<close>

text \<open>
  C35. The console's interrupt handler refines a line editor: from a well-formed buffer, the readable
  characters and the line being edited become what the editor makes of the characters that wait in the
  UART, one after the other; the buffer stays well formed, every lock is free again, and when more has
  become readable, the sleeping readers are awake. A request for a process listing ends in a panic.
\<close>

theorem console_intr_edits:
  assumes "spin_free s" "cons_ok s" "panicked s < 0"
  shows "if CTRL_P \<in> set (uart_in s) then console_intr s = Inl (Panic ''unimplemented'')
    else \<exists>t. console_intr s = Inr ((), t) \<and> cons_ok t \<and> spin_free t \<and>
      cons_abs t = fold ed_step (uart_in s) (cons_abs s) \<and>
      (fst (cons_abs t) \<noteq> fst (cons_abs s) \<longrightarrow> ptable t = woken Cinput (ptable s))"
  using console_intr_run [OF assms] .

text \<open>
  C36. A line that is typed is read back: when nothing waits in the console's buffer and ordinary
  characters arrive, fewer than the buffer holds, followed by the return key, then a reader that asks
  for at least as many bytes gets exactly these characters and a newline, and the buffer is empty again.
\<close>

theorem console_line_read_back:
  assumes "spin_free s" "cons_ok s" "panicked s < 0" "cons_abs s = ([], [])"
    and "uart_in s = cs @ [RETURN]" "\<forall>c\<in>set cs. ordinary c" "length cs < INPUT_BUF" "length cs < n"
  shows "\<exists>t u. console_intr s = Inr ((), t) \<and> ptable t = woken Cinput (ptable s) \<and>
    console_read_loop (n + 2) n n [] t = Inr ((True, cs @ [NEWLINE]), u) \<and> cons_ok u \<and> cons_abs u = ([], [])"
proof -
  have np: "CTRL_P \<notin> set (uart_in s)" using assms(5,6) by (auto simp: ordinary_def char_defs)
  have ed: "fold ed_step (uart_in s) (cons_abs s) = (cs @ [NEWLINE], [])"
    using ed_ordinary [OF assms(6), of "[]"] ed_return [OF assms(7)] assms(4,5,7) by simp
  obtain t where t: "console_intr s = Inr ((), t)" "cons_ok t" "cons_abs t = (cs @ [NEWLINE], [])"
      "ptable t = woken Cinput (ptable s)"
    using console_intr_run [OF assms(1-3)] np ed assms(4) by auto
  have "read_line (n < n) n (fst (cons_abs t)) = Some (cs @ [NEWLINE], [])"
    using read_line_ordinary [OF assms(6,8), of _ "[]"] t(3) by simp
  from console_read_loop_run [OF t(2) this, of "n + 2" "[]"] t show ?thesis by auto
qed

text \<open>An empty console whose UART holds \<open>ls\<close>, a slip that is erased, and the return key.\<close>

definition demo_console :: "byte list \<Rightarrow> consstate" where
  "demo_console cs = filestate.extend
    (memstate.extend demo_mem (filestate.fields (\<lambda>_. \<lparr>f_type = FD_NONE, f_ref = 0, f_readable = False,
       f_writable = False, f_ip = None, f_off = 0\<rparr>)))
    (consstate.fields (-1) (replicate INPUT_BUF 0) 7 7 7 cs [])"

lemma demo_console: "spin_free (demo_console cs)" "cons_ok (demo_console cs)" "panicked (demo_console cs) < 0"
  "cons_abs (demo_console cs) = ([], [])" "uart_in (demo_console cs) = cs"
proof -
  have f: "in_buf (demo_console cs) = replicate INPUT_BUF 0" "in_r (demo_console cs) = 7" "in_w (demo_console cs) = 7"
    "in_e (demo_console cs) = 7" "panicked (demo_console cs) = -1" "uart_in (demo_console cs) = cs" "locks (demo_console cs) = locks demo_mem"
    by (simp_all add: demo_console_def filestate.extend_def memstate.extend_def filestate.fields_def consstate.fields_def)
  show "spin_free (demo_console cs)" using demo_mem(1) f by (simp add: spin_free_def)
  show "cons_abs (demo_console cs) = ([], [])" by (simp add: cons_abs_def rw_def re_def f window_def)
  then show "cons_ok (demo_console cs)" by (simp add: cons_ok_def rw_def re_def f)
  show "panicked (demo_console cs) < 0" "uart_in (demo_console cs) = cs" by (simp_all add: f)
qed

theorem console_intr_edits_witness:
  "\<exists>t. console_intr (demo_console [108, 120, CTRL_H, 115, RETURN]) = Inr ((), t) \<and> cons_abs t = ([108, 115, NEWLINE], [])"
  using console_intr_edits [OF demo_console(1,2,3), of "[108, 120, CTRL_H, 115, RETURN]"]
  by (auto simp: demo_console(4,5) ed_step_def INPUT_BUF_def char_defs)

theorem console_line_read_back_witness:
  "\<exists>t u. console_intr (demo_console ([108, 115] @ [RETURN])) = Inr ((), t) \<and>
     console_read_loop (100 + 2) 100 100 [] t = Inr ((True, [108, 115, NEWLINE]), u)"
  using console_line_read_back [OF demo_console(1,2,3,4,5), of "[108, 115]" 100]
  by (auto simp: ordinary_def char_defs INPUT_BUF_def)

end
