(* ===== verification/Sdcard.thy ===== *)
theory Sdcard
  imports Sd
begin

text \<open>
  The commands of the SD card, \<open>kern/sd.c\<close>, and the mailbox of \<open>kern/mbox.c\<close>, at the level of
  the device registers: the waits with their timeouts, sending a command and decoding its response,
  reset, clock, initialisation, the card's registers. The hardware is a parameter \<open>h\<close>: each read of a
  register may return anything and may change the device, and delays let time pass on it. \<open>Sd\<close>
  abstracts this layer to the result codes of a command and of the wait for write-ready.

  The lemmas: what a bounded wait returns; that initialisation ends for every device, without
  panicking and without following a null pointer, and marks the card initialised exactly when it
  succeeds; the capacity from the CSD register against the fields of the register; the clock divider.
\<close>

section \<open>Registers, device and state\<close>

datatype ereg = EMMC_ARG2 | EMMC_BLKSIZECNT | EMMC_ARG1 | EMMC_CMDTM | EMMC_RESP0 | EMMC_RESP1
  | EMMC_RESP2 | EMMC_RESP3 | EMMC_DATA | EMMC_STATUS | EMMC_CONTROL0 | EMMC_CONTROL1
  | EMMC_INTERRUPT | EMMC_IRPT_MASK | EMMC_IRPT_EN | EMMC_CONTROL2 | EMMC_SLOTISR_VER
  | GPFSEL4 | GPFSEL5 | GPPUD | GPPUDCLK1 | GPHEN1 | GPEDS1
  | MBOX_READ | MBOX_STATUS | MBOX_WRITE

text \<open>Their offsets from \<open>MMIO_BASE\<close>; the names stand for different registers.\<close>

fun ereg_off :: "ereg \<Rightarrow> u32" where
  "ereg_off EMMC_ARG2 = 0x00300000" | "ereg_off EMMC_BLKSIZECNT = 0x00300004"
| "ereg_off EMMC_ARG1 = 0x00300008" | "ereg_off EMMC_CMDTM = 0x0030000C"
| "ereg_off EMMC_RESP0 = 0x00300010" | "ereg_off EMMC_RESP1 = 0x00300014"
| "ereg_off EMMC_RESP2 = 0x00300018" | "ereg_off EMMC_RESP3 = 0x0030001C"
| "ereg_off EMMC_DATA = 0x00300020" | "ereg_off EMMC_STATUS = 0x00300024"
| "ereg_off EMMC_CONTROL0 = 0x00300028" | "ereg_off EMMC_CONTROL1 = 0x0030002C"
| "ereg_off EMMC_INTERRUPT = 0x00300030" | "ereg_off EMMC_IRPT_MASK = 0x00300034"
| "ereg_off EMMC_IRPT_EN = 0x00300038" | "ereg_off EMMC_CONTROL2 = 0x0030003C"
| "ereg_off EMMC_SLOTISR_VER = 0x003000fc"
| "ereg_off GPFSEL4 = 0x200010" | "ereg_off GPFSEL5 = 0x200014" | "ereg_off GPPUD = 0x200094"
| "ereg_off GPPUDCLK1 = 0x20009C" | "ereg_off GPHEN1 = 0x200068" | "ereg_off GPEDS1 = 0x200044"
| "ereg_off MBOX_READ = 0xB880" | "ereg_off MBOX_STATUS = 0xB898" | "ereg_off MBOX_WRITE = 0xB8A0"

lemma ereg_off_inj: "ereg_off r = ereg_off q \<longleftrightarrow> r = q"
  by (cases r; cases q) simp_all

text \<open>
  \<open>hw_dma\<close> gives the words of a mailbox buffer after the exchange with the firmware, and \<open>hw_mbuf\<close>
  the physical address of the buffer on the stack. \<open>hw_cycles\<close> is the busy loop \<open>delay\<close>, \<open>hw_usec\<close>
  the wait \<open>delayus\<close>.
\<close>

record 'd hw =
  hw_rd :: "ereg \<Rightarrow> 'd \<Rightarrow> u32 \<times> 'd"
  hw_wr :: "ereg \<Rightarrow> u32 \<Rightarrow> 'd \<Rightarrow> 'd"
  hw_usec :: "u32 \<Rightarrow> 'd \<Rightarrow> 'd"
  hw_cycles :: "u32 \<Rightarrow> 'd \<Rightarrow> 'd"
  hw_dma :: "u32 list \<Rightarrow> 'd \<Rightarrow> nat \<Rightarrow> u32"
  hw_mbuf :: u32

record EMMCCommand =
  c_name :: string
  c_code :: u32
  c_resp :: nat
  c_rca :: nat
  c_delay :: u32

record SDDescriptor =
  sd_capacity :: u64
  sd_cid :: "u32 list"
  sd_csd :: "u32 list"
  sd_scr :: "u32 list"
  sd_ocr :: u32
  sd_support :: u32
  sd_fileFormat :: u32
  sd_type :: u32
  sd_uhsi :: u32
  sd_initd :: u32
  sd_absent :: u32
  sd_rca :: u32
  sd_cardState :: u32
  sd_status :: u32
  sd_lastCmd :: "nat option"
  sd_lastArg :: u32

datatype sdarg = Num u64 | Txt string

text \<open>\<open>sdCard\<close>, \<open>sdHostVer\<close>, \<open>sdDebug\<close> and \<open>sdBaseClock\<close> are the variables of the source; \<open>said\<close> lists the calls of \<open>cprintf\<close>, without the newline that ends each format.\<close>

record 'd sdstate =
  sdCard :: SDDescriptor
  sdHostVer :: u32
  sdDebug :: bool
  sdBaseClock :: u32
  dev :: 'd
  said :: "(string \<times> sdarg list) list"

definition rdreg :: "'d hw \<Rightarrow> ereg \<Rightarrow> ('d sdstate, u32) kop" where
  "rdreg h r = (\<lambda>s. let (v, d) = hw_rd h r (dev s) in Inr (v, s\<lparr>dev := d\<rparr>))"

definition wrreg :: "'d hw \<Rightarrow> ereg \<Rightarrow> u32 \<Rightarrow> ('d sdstate, unit) kop" where
  "wrreg h r v = upd (\<lambda>s. s\<lparr>dev := hw_wr h r v (dev s)\<rparr>)"

definition delay :: "'d hw \<Rightarrow> u32 \<Rightarrow> ('d sdstate, unit) kop" where
  "delay h c = upd (\<lambda>s. s\<lparr>dev := hw_cycles h c (dev s)\<rparr>)"

definition sd_delayus :: "'d hw \<Rightarrow> u32 \<Rightarrow> ('d sdstate, unit) kop" where
  "sd_delayus h c = upd (\<lambda>s. s\<lparr>dev := hw_usec h (c * 3) (dev s)\<rparr>)"

definition say :: "string \<Rightarrow> sdarg list \<Rightarrow> ('d sdstate, unit) kop" where
  "say f as = upd (\<lambda>s. s\<lparr>said := said s @ [(f, as)]\<rparr>)"

definition set_card :: "(SDDescriptor \<Rightarrow> SDDescriptor) \<Rightarrow> ('d sdstate, unit) kop" where
  "set_card f = upd (\<lambda>s. s\<lparr>sdCard := f (sdCard s)\<rparr>)"

text \<open>A message whose arguments are registers reads them from left to right.\<close>

fun say_regs :: "'d hw \<Rightarrow> string \<Rightarrow> sdarg list \<Rightarrow> ereg list \<Rightarrow> ('d sdstate, unit) kop" where
  "say_regs h f as [] = say f as"
| "say_regs h f as (r # rs) = bind (rdreg h r) (\<lambda>v. say_regs h f (as @ [Num (ucast v)]) rs)"

section \<open>Constants\<close>

definition SD_OK :: u32 where "SD_OK = 0"
definition SD_ERROR :: u32 where "SD_ERROR = 1"
definition SD_TIMEOUT :: u32 where "SD_TIMEOUT = 2"
definition SD_BUSY :: u32 where "SD_BUSY = 3"
definition SD_ERROR_RESET :: u32 where "SD_ERROR_RESET = 6"
definition SD_ERROR_CLOCK :: u32 where "SD_ERROR_CLOCK = 7"
definition SD_ERROR_VOLTAGE :: u32 where "SD_ERROR_VOLTAGE = 8"
definition SD_ERROR_APP_CMD :: u32 where "SD_ERROR_APP_CMD = 9"
definition SD_CARD_CHANGED :: u32 where "SD_CARD_CHANGED = 10"
definition SD_CARD_ABSENT :: u32 where "SD_CARD_ABSENT = 11"
definition SD_CARD_REINSERTED :: u32 where "SD_CARD_REINSERTED = 12"

lemmas sd_codes = SD_OK_def SD_ERROR_def SD_TIMEOUT_def SD_BUSY_def SD_ERROR_RESET_def
  SD_ERROR_CLOCK_def SD_ERROR_VOLTAGE_def SD_ERROR_APP_CMD_def SD_CARD_CHANGED_def
  SD_CARD_ABSENT_def SD_CARD_REINSERTED_def

definition CMD_IS_DATA :: u32 where "CMD_IS_DATA = 0x00200000"
definition CMD_RSPNS_NO :: u32 where "CMD_RSPNS_NO = 0x00000000"
definition CMD_RSPNS_136 :: u32 where "CMD_RSPNS_136 = 0x00010000"
definition CMD_RSPNS_48 :: u32 where "CMD_RSPNS_48 = 0x00020000"
definition CMD_RSPNS_48B :: u32 where "CMD_RSPNS_48B = 0x00030000"
definition TM_MULTI_BLOCK :: u32 where "TM_MULTI_BLOCK = 0x00000020"
definition TM_DAT_DIR_HC :: u32 where "TM_DAT_DIR_HC = 0x00000000"
definition TM_DAT_DIR_CH :: u32 where "TM_DAT_DIR_CH = 0x00000010"
definition TM_BLKCNT_EN :: u32 where "TM_BLKCNT_EN = 0x00000002"
definition TM_MULTI_DATA :: u32 where "TM_MULTI_DATA = (CMD_IS_DATA OR TM_MULTI_BLOCK) OR TM_BLKCNT_EN"

definition INT_AUTO_ERROR :: u32 where "INT_AUTO_ERROR = 0x01000000"
definition INT_DATA_END_ERR :: u32 where "INT_DATA_END_ERR = 0x00400000"
definition INT_DATA_CRC_ERR :: u32 where "INT_DATA_CRC_ERR = 0x00200000"
definition INT_DATA_TIMEOUT :: u32 where "INT_DATA_TIMEOUT = 0x00100000"
definition INT_INDEX_ERROR :: u32 where "INT_INDEX_ERROR = 0x00080000"
definition INT_END_ERROR :: u32 where "INT_END_ERROR = 0x00040000"
definition INT_CRC_ERROR :: u32 where "INT_CRC_ERROR = 0x00020000"
definition INT_CMD_TIMEOUT :: u32 where "INT_CMD_TIMEOUT = 0x00010000"
definition INT_ERR :: u32 where "INT_ERR = 0x00008000"
definition INT_WRITE_RDY :: u32 where "INT_WRITE_RDY = 0x00000010"
definition INT_CMD_DONE :: u32 where "INT_CMD_DONE = 0x00000001"

definition INT_ERROR_MASK :: u32 where
  "INT_ERROR_MASK = INT_CRC_ERROR OR INT_END_ERROR OR INT_INDEX_ERROR OR INT_DATA_TIMEOUT OR
     INT_DATA_CRC_ERR OR INT_DATA_END_ERR OR INT_ERR OR INT_AUTO_ERROR"

definition C0_HCTL_DWITDH :: u32 where "C0_HCTL_DWITDH = 0x00000002"
definition C1_SRST_HC :: u32 where "C1_SRST_HC = 0x01000000"
definition C1_TOUNIT_MAX :: u32 where "C1_TOUNIT_MAX = 0x000e0000"
definition C1_CLK_EN :: u32 where "C1_CLK_EN = 0x00000004"
definition C1_CLK_STABLE :: u32 where "C1_CLK_STABLE = 0x00000002"
definition C1_CLK_INTLEN :: u32 where "C1_CLK_INTLEN = 0x00000001"
definition FREQ_SETUP :: u32 where "FREQ_SETUP = 400000"
definition FREQ_NORMAL :: u32 where "FREQ_NORMAL = 25000000"
definition HOST_SPEC_NUM :: u32 where "HOST_SPEC_NUM = 0x00ff0000"
definition HOST_SPEC_V2 :: u32 where "HOST_SPEC_V2 = 1"
definition SR_READ_AVAILABLE :: u32 where "SR_READ_AVAILABLE = 0x00000800"
definition SR_DAT_INHIBIT :: u32 where "SR_DAT_INHIBIT = 0x00000002"
definition SR_CMD_INHIBIT :: u32 where "SR_CMD_INHIBIT = 0x00000001"

definition ACMD41_VOLTAGE :: u32 where "ACMD41_VOLTAGE = 0x00ff8000"
definition ACMD41_ARG_HC :: u32 where "ACMD41_ARG_HC = ((0x40000000 OR 0x10000000) OR ACMD41_VOLTAGE) OR 0x01000000"
definition ACMD41_ARG_SC :: u32 where "ACMD41_ARG_SC = ACMD41_VOLTAGE OR 0x01000000"
definition ST_CARD_STATE :: u32 where "ST_CARD_STATE = 0x00001e00"
definition ST_APP_CMD :: u32 where "ST_APP_CMD = 0x00000020"
definition R1_ERRORS_MASK :: u32 where "R1_ERRORS_MASK = 0xfff9c004"
definition R3_COMPLETE :: u32 where "R3_COMPLETE = 0x80000000"
definition R3_CCS :: u32 where "R3_CCS = 0x40000000"
definition R3_S18A :: u32 where "R3_S18A = 0x01000000"
definition R6_RCA_MASK :: u32 where "R6_RCA_MASK = 0xffff0000"

definition RESP_NO :: nat where "RESP_NO = 0"
definition RESP_R1 :: nat where "RESP_R1 = 1"
definition RESP_R1b :: nat where "RESP_R1b = 11"
definition RESP_R2I :: nat where "RESP_R2I = 2"
definition RESP_R2S :: nat where "RESP_R2S = 12"
definition RESP_R3 :: nat where "RESP_R3 = 3"
definition RESP_R6 :: nat where "RESP_R6 = 6"
definition RESP_R7 :: nat where "RESP_R7 = 7"
definition RCA_NO :: nat where "RCA_NO = 1"
definition RCA_YES :: nat where "RCA_YES = 2"

lemmas resp_codes = RESP_NO_def RESP_R1_def RESP_R1b_def RESP_R2I_def RESP_R2S_def RESP_R3_def
  RESP_R6_def RESP_R7_def

definition SD_TYPE_1 :: u32 where "SD_TYPE_1 = 2"
definition SD_TYPE_2_SC :: u32 where "SD_TYPE_2_SC = 3"
definition SD_TYPE_2_HC :: u32 where "SD_TYPE_2_HC = 4"
definition SD_TYPE_NAME :: "string list" where
  "SD_TYPE_NAME = [''Unknown'', ''MMC'', ''Type 1'', ''Type 2 SC'', ''Type 2 HC'']"
definition SD_SUPP_SET_BLOCK_COUNT :: u32 where "SD_SUPP_SET_BLOCK_COUNT = 0x80000000"
definition SD_SUPP_SPEED_CLASS :: u32 where "SD_SUPP_SPEED_CLASS = 0x40000000"
definition SD_SUPP_BUS_WIDTH_4 :: u32 where "SD_SUPP_BUS_WIDTH_4 = 0x20000000"
definition SD_SUPP_BUS_WIDTH_1 :: u32 where "SD_SUPP_BUS_WIDTH_1 = 0x10000000"
definition SCR_SD_BUS_WIDTH_1 :: u32 where "SCR_SD_BUS_WIDTH_1 = 0x00000100"
definition SCR_SD_BUS_WIDTH_4 :: u32 where "SCR_SD_BUS_WIDTH_4 = 0x00000400"
definition SCR_CMD_SUPP_SET_BLKCNT :: u32 where "SCR_CMD_SUPP_SET_BLKCNT = 0x02000000"
definition SCR_CMD_SUPP_SPEED_CLASS :: u32 where "SCR_CMD_SUPP_SPEED_CLASS = 0x01000000"

section \<open>The command table\<close>

definition emmc :: "string \<Rightarrow> u32 \<Rightarrow> nat \<Rightarrow> nat \<Rightarrow> u32 \<Rightarrow> EMMCCommand" where
  "emmc n c r a d = \<lparr>c_name = n, c_code = c, c_resp = r, c_rca = a, c_delay = d\<rparr>"

definition sdCommandTable :: "EMMCCommand list" where
  "sdCommandTable = [
     emmc ''GO_IDLE_STATE'' (0x00000000 OR CMD_RSPNS_NO) RESP_NO RCA_NO 0,
     emmc ''ALL_SEND_CID'' (0x02000000 OR CMD_RSPNS_136) RESP_R2I RCA_NO 0,
     emmc ''SEND_REL_ADDR'' (0x03000000 OR CMD_RSPNS_48) RESP_R6 RCA_NO 0,
     emmc ''SET_DSR'' (0x04000000 OR CMD_RSPNS_NO) RESP_NO RCA_NO 0,
     emmc ''SWITCH_FUNC'' (0x06000000 OR CMD_RSPNS_48) RESP_R1 RCA_NO 0,
     emmc ''CARD_SELECT'' (0x07000000 OR CMD_RSPNS_48B) RESP_R1b RCA_YES 0,
     emmc ''SEND_IF_COND'' (0x08000000 OR CMD_RSPNS_48) RESP_R7 RCA_NO 100,
     emmc ''SEND_CSD'' (0x09000000 OR CMD_RSPNS_136) RESP_R2S RCA_YES 0,
     emmc ''SEND_CID'' (0x0A000000 OR CMD_RSPNS_136) RESP_R2I RCA_YES 0,
     emmc ''VOLT_SWITCH'' (0x0B000000 OR CMD_RSPNS_48) RESP_R1 RCA_NO 0,
     emmc ''STOP_TRANS'' (0x0C000000 OR CMD_RSPNS_48B) RESP_R1b RCA_NO 0,
     emmc ''SEND_STATUS'' (0x0D000000 OR CMD_RSPNS_48) RESP_R1 RCA_YES 0,
     emmc ''GO_INACTIVE'' (0x0F000000 OR CMD_RSPNS_NO) RESP_NO RCA_YES 0,
     emmc ''SET_BLOCKLEN'' (0x10000000 OR CMD_RSPNS_48) RESP_R1 RCA_NO 0,
     emmc ''READ_SINGLE'' (0x11000000 OR CMD_RSPNS_48 OR CMD_IS_DATA OR TM_DAT_DIR_CH) RESP_R1 RCA_NO 0,
     emmc ''READ_MULTI'' (0x12000000 OR CMD_RSPNS_48 OR TM_MULTI_DATA OR TM_DAT_DIR_CH) RESP_R1 RCA_NO 0,
     emmc ''SEND_TUNING'' (0x13000000 OR CMD_RSPNS_48) RESP_R1 RCA_NO 0,
     emmc ''SPEED_CLASS'' (0x14000000 OR CMD_RSPNS_48B) RESP_R1b RCA_NO 0,
     emmc ''SET_BLOCKCNT'' (0x17000000 OR CMD_RSPNS_48) RESP_R1 RCA_NO 0,
     emmc ''WRITE_SINGLE'' (0x18000000 OR CMD_RSPNS_48 OR CMD_IS_DATA OR TM_DAT_DIR_HC) RESP_R1 RCA_NO 0,
     emmc ''WRITE_MULTI'' (0x19000000 OR CMD_RSPNS_48 OR TM_MULTI_DATA OR TM_DAT_DIR_HC) RESP_R1 RCA_NO 0,
     emmc ''PROGRAM_CSD'' (0x1B000000 OR CMD_RSPNS_48) RESP_R1 RCA_NO 0,
     emmc ''SET_WRITE_PR'' (0x1C000000 OR CMD_RSPNS_48B) RESP_R1b RCA_NO 0,
     emmc ''CLR_WRITE_PR'' (0x1D000000 OR CMD_RSPNS_48B) RESP_R1b RCA_NO 0,
     emmc ''SND_WRITE_PR'' (0x1E000000 OR CMD_RSPNS_48) RESP_R1 RCA_NO 0,
     emmc ''ERASE_WR_ST'' (0x20000000 OR CMD_RSPNS_48) RESP_R1 RCA_NO 0,
     emmc ''ERASE_WR_END'' (0x21000000 OR CMD_RSPNS_48) RESP_R1 RCA_NO 0,
     emmc ''ERASE'' (0x26000000 OR CMD_RSPNS_48B) RESP_R1b RCA_NO 0,
     emmc ''LOCK_UNLOCK'' (0x2A000000 OR CMD_RSPNS_48) RESP_R1 RCA_NO 0,
     emmc ''APP_CMD'' (0x37000000 OR CMD_RSPNS_NO) RESP_NO RCA_NO 100,
     emmc ''APP_CMD'' (0x37000000 OR CMD_RSPNS_48) RESP_R1 RCA_YES 0,
     emmc ''GEN_CMD'' (0x38000000 OR CMD_RSPNS_48) RESP_R1 RCA_NO 0,
     emmc ''SET_BUS_WIDTH'' (0x06000000 OR CMD_RSPNS_48) RESP_R1 RCA_NO 0,
     emmc ''SD_STATUS'' (0x0D000000 OR CMD_RSPNS_48) RESP_R1 RCA_YES 0,
     emmc ''SEND_NUM_WRBL'' (0x16000000 OR CMD_RSPNS_48) RESP_R1 RCA_NO 0,
     emmc ''SEND_NUM_ERS'' (0x17000000 OR CMD_RSPNS_48) RESP_R1 RCA_NO 0,
     emmc ''SD_SENDOPCOND'' (0x29000000 OR CMD_RSPNS_48) RESP_R3 RCA_NO 1000,
     emmc ''SET_CLR_DET'' (0x2A000000 OR CMD_RSPNS_48) RESP_R1 RCA_NO 0,
     emmc ''SEND_SCR'' (0x33000000 OR CMD_RSPNS_48 OR CMD_IS_DATA OR TM_DAT_DIR_CH) RESP_R1 RCA_NO 0]"

definition IX_GO_IDLE_STATE :: nat where "IX_GO_IDLE_STATE = 0"
definition IX_ALL_SEND_CID :: nat where "IX_ALL_SEND_CID = 1"
definition IX_SEND_REL_ADDR :: nat where "IX_SEND_REL_ADDR = 2"
definition IX_CARD_SELECT :: nat where "IX_CARD_SELECT = 5"
definition IX_SEND_IF_COND :: nat where "IX_SEND_IF_COND = 6"
definition IX_SEND_CSD :: nat where "IX_SEND_CSD = 7"
definition IX_SET_BLOCKLEN :: nat where "IX_SET_BLOCKLEN = 13"
definition IX_READ_SINGLE :: nat where "IX_READ_SINGLE = 14"
definition IX_WRITE_SINGLE :: nat where "IX_WRITE_SINGLE = 19"
definition IX_APP_CMD :: nat where "IX_APP_CMD = 29"
definition IX_APP_CMD_RCA :: nat where "IX_APP_CMD_RCA = 30"
definition IX_APP_CMD_START :: nat where "IX_APP_CMD_START = 32"
definition IX_SET_BUS_WIDTH :: nat where "IX_SET_BUS_WIDTH = 32"
definition IX_APP_SEND_OP_COND :: nat where "IX_APP_SEND_OP_COND = 36"
definition IX_SEND_SCR :: nat where "IX_SEND_SCR = 38"

lemmas sd_ix = IX_GO_IDLE_STATE_def IX_ALL_SEND_CID_def IX_SEND_REL_ADDR_def IX_CARD_SELECT_def
  IX_SEND_IF_COND_def IX_SEND_CSD_def IX_SET_BLOCKLEN_def IX_READ_SINGLE_def IX_WRITE_SINGLE_def
  IX_APP_CMD_def IX_APP_CMD_RCA_def IX_APP_CMD_START_def IX_SET_BUS_WIDTH_def
  IX_APP_SEND_OP_COND_def IX_SEND_SCR_def

text \<open>A pointer to a command is its index in the table.\<close>

definition cmd_at :: "nat \<Rightarrow> ('s, EMMCCommand) kop" where
  "cmd_at i = (if i < length sdCommandTable then ret (sdCommandTable ! i) else stop Fault)"

section \<open>Bounded waits\<close>

text \<open>
  The three forms of the source: \<open>while (c && count--) b\<close>, \<open>while (c && --count) b\<close> from a positive
  count, and \<open>while (c && ++count < lim) b\<close> with \<open>r = lim - count\<close>. Each returns the last value of
  \<open>count\<close>.
\<close>

fun poll_post :: "('s, bool) kop \<Rightarrow> ('s, unit) kop \<Rightarrow> nat \<Rightarrow> ('s, int) kop" where
  "poll_post c b 0 = bind c (\<lambda>x. ret (if x then -1 else 0))"
| "poll_post c b (Suc n) = bind c (\<lambda>x. if x then seq b (poll_post c b n) else ret (int (Suc n)))"

fun poll_pre :: "('s, bool) kop \<Rightarrow> ('s, unit) kop \<Rightarrow> nat \<Rightarrow> ('s, int) kop" where
  "poll_pre c b 0 = stop Diverge"
| "poll_pre c b (Suc n) =
     bind c (\<lambda>x. if x then (if n = 0 then ret 0 else seq b (poll_pre c b n)) else ret (int (Suc n)))"

fun poll_up :: "('s, bool) kop \<Rightarrow> ('s, unit) kop \<Rightarrow> nat \<Rightarrow> nat \<Rightarrow> ('s, nat) kop" where
  "poll_up c b 0 k = stop Diverge"
| "poll_up c b (Suc r) k =
     bind c (\<lambda>x. if x then (if r = 0 then ret (k + 1) else seq b (poll_up c b r (k + 1))) else ret k)"

definition rd_any :: "'d hw \<Rightarrow> ereg \<Rightarrow> u32 \<Rightarrow> ('d sdstate, bool) kop" where
  "rd_any h r m = bind (rdreg h r) (\<lambda>v. ret (v AND m \<noteq> 0))"

definition not_k :: "('s, bool) kop \<Rightarrow> ('s, bool) kop" where
  "not_k c = bind c (\<lambda>x. ret (\<not> x))"

definition and_k :: "('s, bool) kop \<Rightarrow> ('s, bool) kop \<Rightarrow> ('s, bool) kop" where
  "and_k c d = bind c (\<lambda>x. if x then d else ret False)"

definition or_k :: "('s, bool) kop \<Rightarrow> ('s, bool) kop \<Rightarrow> ('s, bool) kop" where
  "or_k c d = bind c (\<lambda>x. if x then ret True else d)"

definition interrupt_verdict :: "'d hw \<Rightarrow> u32 \<Rightarrow> int \<Rightarrow> u32 \<Rightarrow> ('d sdstate, u32) kop" where
  "interrupt_verdict h msk count ival =
    (if count \<le> 0 \<or> ival AND INT_CMD_TIMEOUT \<noteq> 0 \<or> ival AND INT_DATA_TIMEOUT \<noteq> 0 then
       seq (wrreg h EMMC_INTERRUPT ival) (ret SD_TIMEOUT)
     else if ival AND INT_ERROR_MASK \<noteq> 0 then
       bind (rdreg h EMMC_STATUS) (\<lambda>st. bind (rdreg h EMMC_RESP0) (\<lambda>r0.
       seq (say ''* EMMC: Error waiting for interrupt: %x %x %x'' [Num (ucast st), Num (ucast ival), Num (ucast r0)])
       (seq (wrreg h EMMC_INTERRUPT ival) (ret SD_ERROR))))
     else seq (wrreg h EMMC_INTERRUPT msk) (ret SD_OK))"

definition sdWaitForInterrupt :: "'d hw \<Rightarrow> u32 \<Rightarrow> ('d sdstate, u32) kop" where
  "sdWaitForInterrupt h msk =
     bind (poll_post (not_k (rd_any h EMMC_INTERRUPT (msk OR INT_ERROR_MASK))) (sd_delayus h 1) 1000000) (\<lambda>count.
     bind (rdreg h EMMC_INTERRUPT) (interrupt_verdict h msk count))"

definition sdWaitForCommand :: "'d hw \<Rightarrow> ('d sdstate, u32) kop" where
  "sdWaitForCommand h =
     bind (poll_post (and_k (rd_any h EMMC_STATUS SR_CMD_INHIBIT) (not_k (rd_any h EMMC_INTERRUPT INT_ERROR_MASK)))
       (sd_delayus h 1) 1000000) (\<lambda>count.
     bind (or_k (ret (count \<le> 0)) (rd_any h EMMC_INTERRUPT INT_ERROR_MASK)) (\<lambda>bad.
     if bad then
       seq (say_regs h ''* EMMC: Wait for command aborted: %x %x %x'' [] [EMMC_STATUS, EMMC_INTERRUPT, EMMC_RESP0])
       (ret SD_BUSY)
     else ret SD_OK))"

definition sdWaitForData :: "'d hw \<Rightarrow> ('d sdstate, u32) kop" where
  "sdWaitForData h =
     bind (poll_up (and_k (rd_any h EMMC_STATUS SR_DAT_INHIBIT) (not_k (rd_any h EMMC_INTERRUPT INT_ERROR_MASK)))
       (sd_delayus h 1) 500000 0) (\<lambda>count.
     bind (or_k (ret (count \<ge> 500000)) (rd_any h EMMC_INTERRUPT INT_ERROR_MASK)) (\<lambda>bad.
     if bad then
       seq (say_regs h ''* EMMC: Wait for data aborted: %x %x %x'' [] [EMMC_STATUS, EMMC_INTERRUPT, EMMC_RESP0])
       (ret SD_BUSY)
     else ret SD_OK))"

section \<open>Sending a command\<close>

text \<open>\<open>sdDebugResponse\<close> prints the name of the last command: with none sent it follows a null pointer.\<close>

definition sdDebugResponse :: "'d hw \<Rightarrow> u32 \<Rightarrow> ('d sdstate, u32) kop" where
  "sdDebugResponse h resp =
     bind (get (\<lambda>s. sd_lastCmd (sdCard s))) (\<lambda>lc.
     deref lc (\<lambda>i. bind (cmd_at i) (\<lambda>c.
       seq (say_regs h ''- EMMC: Command %s resp %x: %x %x %x %x'' [Txt (c_name c), Num (ucast resp)]
              [EMMC_RESP3, EMMC_RESP2, EMMC_RESP1, EMMC_RESP0])
       (seq (say_regs h ''- EMMC: Status: %x, control1: %x, interrupt: %x'' []
              [EMMC_STATUS, EMMC_CONTROL1, EMMC_INTERRUPT])
       (ret resp)))))"

definition r6_status :: "u32 \<Rightarrow> u32" where
  "r6_status r = (r AND 0x00001fff) OR push_bit 6 (r AND 0x00002000) OR push_bit 8 (r AND 0x00004000)
     OR push_bit 8 (r AND 0x00008000)"

definition card_state :: "u32 \<Rightarrow> u32" where
  "card_state r = drop_bit 9 (r AND ST_CARD_STATE)"

definition handle_response :: "'d hw \<Rightarrow> nat \<Rightarrow> u32 \<Rightarrow> u32 \<Rightarrow> ('d sdstate, u32) kop" where
  "handle_response h rt arg resp0 =
    (if rt = RESP_NO then ret SD_OK
     else if rt = RESP_R1 \<or> rt = RESP_R1b then
       seq (set_card (\<lambda>c. c\<lparr>sd_status := resp0, sd_cardState := card_state resp0\<rparr>))
       (ret (resp0 AND R1_ERRORS_MASK))
     else if rt = RESP_R2I \<or> rt = RESP_R2S then
       seq (set_card (\<lambda>c. c\<lparr>sd_status := 0\<rparr>))
       (bind (rdreg h EMMC_RESP3) (\<lambda>d0. bind (rdreg h EMMC_RESP2) (\<lambda>d1. bind (rdreg h EMMC_RESP1) (\<lambda>d2.
        seq (set_card (\<lambda>c. if rt = RESP_R2I then c\<lparr>sd_cid := [d0, d1, d2, resp0]\<rparr>
                           else c\<lparr>sd_csd := [d0, d1, d2, resp0]\<rparr>))
        (ret SD_OK)))))
     else if rt = RESP_R3 then
       seq (set_card (\<lambda>c. c\<lparr>sd_status := 0, sd_ocr := resp0\<rparr>)) (ret SD_OK)
     else if rt = RESP_R6 then
       seq (set_card (\<lambda>c. c\<lparr>sd_rca := resp0 AND R6_RCA_MASK, sd_status := r6_status resp0,
              sd_cardState := card_state resp0\<rparr>))
       (ret (r6_status resp0 AND R1_ERRORS_MASK))
     else if rt = RESP_R7 then
       seq (set_card (\<lambda>c. c\<lparr>sd_status := 0\<rparr>)) (ret (if resp0 = arg then SD_OK else SD_ERROR))
     else panic ''Unexpected response.'')"

definition sd_response :: "'d hw \<Rightarrow> EMMCCommand \<Rightarrow> u32 \<Rightarrow> ('d sdstate, u32) kop" where
  "sd_response h cmd arg =
     bind (sdWaitForInterrupt h INT_CMD_DONE) (\<lambda>result.
     if result \<noteq> 0 then ret result
     else bind (rdreg h EMMC_RESP0) (handle_response h (c_resp cmd) arg))"

definition sd_transmit :: "'d hw \<Rightarrow> nat \<Rightarrow> EMMCCommand \<Rightarrow> u32 \<Rightarrow> ('d sdstate, u32) kop" where
  "sd_transmit h ix cmd arg =
     seq (bind (get sdDebug) (\<lambda>d. if d then
            say ''- EMMC: Sending command %s code %x arg %x'' [Txt (c_name cmd), Num (ucast (c_code cmd)), Num (ucast arg)]
          else ret ()))
     (seq (set_card (\<lambda>c. c\<lparr>sd_lastCmd := Some ix, sd_lastArg := arg\<rparr>))
     (seq (bind (rdreg h EMMC_INTERRUPT) (wrreg h EMMC_INTERRUPT))
     (seq (wrreg h EMMC_ARG1 arg)
     (seq (wrreg h EMMC_CMDTM (c_code cmd))
     (seq (if c_delay cmd \<noteq> 0 then sd_delayus h (c_delay cmd) else ret ())
     (sd_response h cmd arg))))))"

definition sdSendCommandP :: "'d hw \<Rightarrow> nat \<Rightarrow> u32 \<Rightarrow> ('d sdstate, u32) kop" where
  "sdSendCommandP h ix arg =
     bind (sdWaitForCommand h) (\<lambda>w.
     if w \<noteq> 0 then ret SD_BUSY else bind (cmd_at ix) (\<lambda>cmd. sd_transmit h ix cmd arg))"

text \<open>Without a relative card address the response to APP_CMD is ignored.\<close>

definition sdSendAppCommand :: "'d hw \<Rightarrow> ('d sdstate, u32) kop" where
  "sdSendAppCommand h =
     bind (get (\<lambda>s. sd_rca (sdCard s))) (\<lambda>rca.
     if rca = 0 then seq (sdSendCommandP h IX_APP_CMD 0) (ret SD_OK)
     else bind (sdSendCommandP h IX_APP_CMD_RCA rca) (\<lambda>resp.
       if resp \<noteq> 0 then sdDebugResponse h resp
       else bind (get (\<lambda>s. sd_status (sdCard s) AND ST_APP_CMD)) (\<lambda>a.
         if a = 0 then ret SD_ERROR else ret SD_OK)))"

definition app_prefix :: "'d hw \<Rightarrow> nat \<Rightarrow> ('d sdstate, u32) kop" where
  "app_prefix h ix = (if ix \<ge> IX_APP_CMD_START then sdSendAppCommand h else ret 0)"

definition app_check :: "nat \<Rightarrow> u32 \<Rightarrow> ('d sdstate, u32) kop" where
  "app_check ix resp =
     bind (get (\<lambda>s. ix \<ge> IX_APP_CMD_START \<and> sd_rca (sdCard s) \<noteq> 0 \<and> sd_status (sdCard s) AND ST_APP_CMD = 0)) (\<lambda>bad.
     ret (if bad then SD_ERROR_APP_CMD else resp))"

definition sdSendCommand :: "'d hw \<Rightarrow> nat \<Rightarrow> ('d sdstate, u32) kop" where
  "sdSendCommand h ix =
     bind (app_prefix h ix) (\<lambda>resp.
     if resp \<noteq> 0 then sdDebugResponse h resp
     else bind (cmd_at ix) (\<lambda>cmd.
       bind (get (\<lambda>s. if c_rca cmd = RCA_YES then sd_rca (sdCard s) else 0)) (\<lambda>arg.
       bind (sdSendCommandP h ix arg) (\<lambda>resp2.
       if resp2 \<noteq> 0 then ret resp2 else app_check ix resp2))))"

definition sdSendCommandA :: "'d hw \<Rightarrow> nat \<Rightarrow> u32 \<Rightarrow> ('d sdstate, u32) kop" where
  "sdSendCommandA h ix arg =
     bind (app_prefix h ix) (\<lambda>resp.
     if resp \<noteq> 0 then sdDebugResponse h resp
     else bind (sdSendCommandP h ix arg) (\<lambda>resp2.
       if resp2 \<noteq> 0 then ret resp2 else app_check ix resp2))"

section \<open>The SCR register of the card\<close>

text \<open>\<open>scr_words h r c\<close>: \<open>r\<close> words still to read, \<open>c\<close> microseconds left; the result is \<open>numRead\<close>.\<close>

fun scr_words :: "'d hw \<Rightarrow> nat \<Rightarrow> nat \<Rightarrow> ('d sdstate, nat) kop" where
  "scr_words h 0 c = ret 2"
| "scr_words h (Suc r) 0 = stop Diverge"
| "scr_words h (Suc r) (Suc c) =
     bind (rd_any h EMMC_STATUS SR_READ_AVAILABLE) (\<lambda>a.
     if a then
       seq (bind (rdreg h EMMC_DATA) (\<lambda>v. set_card (\<lambda>d. d\<lparr>sd_scr := (sd_scr d)[2 - Suc r := v]\<rparr>)))
       (scr_words h r (Suc c))
     else seq (sd_delayus h 1) (if c = 0 then ret (2 - Suc r) else scr_words h (Suc r) c))"

definition scr_support :: "u32 \<Rightarrow> u32 \<Rightarrow> u32" where
  "scr_support scr0 sp =
    (let s1 = (if scr0 AND SCR_SD_BUS_WIDTH_4 \<noteq> 0 then sp OR SD_SUPP_BUS_WIDTH_4 else sp);
         s2 = (if scr0 AND SCR_SD_BUS_WIDTH_1 \<noteq> 0 then s1 OR SD_SUPP_BUS_WIDTH_1 else s1);
         s3 = (if scr0 AND SCR_CMD_SUPP_SET_BLKCNT \<noteq> 0 then s2 OR SD_SUPP_SET_BLOCK_COUNT else s2)
     in if scr0 AND SCR_CMD_SUPP_SPEED_CLASS \<noteq> 0 then s3 OR SD_SUPP_SPEED_CLASS else s3)"

definition scr_finish :: "'d hw \<Rightarrow> nat \<Rightarrow> ('d sdstate, u32) kop" where
  "scr_finish h numRead =
    (if numRead \<noteq> 2 then
       seq (say_regs h ''* ERROR EMMC: SEND_SCR ERR: %x %x %x'' [] [EMMC_STATUS, EMMC_INTERRUPT, EMMC_RESP0])
       (seq (say ''* EMMC: Reading SCR, only read %d words'' [Num (of_nat numRead)]) (ret SD_TIMEOUT))
     else seq (set_card (\<lambda>c. c\<lparr>sd_support := scr_support (sd_scr c ! 0) (sd_support c)\<rparr>)) (ret SD_OK))"

definition sdReadSCR :: "'d hw \<Rightarrow> ('d sdstate, u32) kop" where
  "sdReadSCR h =
     bind (sdWaitForData h) (\<lambda>w.
     if w \<noteq> 0 then ret SD_TIMEOUT
     else seq (wrreg h EMMC_BLKSIZECNT (push_bit 16 1 OR 8))
     (bind (sdSendCommand h IX_SEND_SCR) (\<lambda>resp.
      if resp \<noteq> 0 then sdDebugResponse h resp
      else bind (sdWaitForInterrupt h INT_READ_RDY) (\<lambda>r.
        if r \<noteq> 0 then seq (say ''* ERROR EMMC: Timeout waiting for ready to read'' []) (sdDebugResponse h r)
        else bind (scr_words h 2 100000) (scr_finish h)))))"

section \<open>The clock\<close>

text \<open>\<open>unsigned long\<close> has 64 bits, the masks of \<open>fls_long\<close> 32.\<close>

definition fls_step :: "u64 \<Rightarrow> nat \<Rightarrow> u64 \<times> int \<Rightarrow> u64 \<times> int" where
  "fls_step m k = (\<lambda>(x, r). if x AND m = 0 then (push_bit k x, r - int k) else (x, r))"

definition fls_long :: "u64 \<Rightarrow> int" where
  "fls_long x = (if x = 0 then 0 else
     snd (fls_step 0x80000000 1 (fls_step 0xc0000000 2 (fls_step 0xf0000000 4
       (fls_step 0xff000000 8 (fls_step 0xffff0000 16 (x, 32)))))))"

definition roundup_pow_of_two :: "u64 \<Rightarrow> u64" where
  "roundup_pow_of_two x = push_bit (nat (fls_long (x - 1))) 1"

definition clock_shift :: "u32 \<Rightarrow> u32" where
  "clock_shift closest =
    (let sc = of_int (fls_long (ucast (closest - 1)));
         sc1 = (if sc > 0 then sc - 1 else sc)
     in if sc1 > 7 then 7 else sc1)"

definition clock_cdiv :: "u32 \<Rightarrow> u32 \<Rightarrow> u32" where
  "clock_cdiv ver divisor =
    (let hi = (if ver > HOST_SPEC_V2 then drop_bit 2 (divisor AND 0x300) else 0);
         lo = divisor AND 0x0ff
     in push_bit 8 lo + hi)"

definition sdGetClockDivider :: "u32 \<Rightarrow> ('d sdstate, u32) kop" where
  "sdGetClockDivider freq =
    (if freq = 0 then stop Fault
     else bind (get sdHostVer) (\<lambda>ver.
       let closest = 41666666 div freq;
           shift0 = clock_shift closest;
           divisor0 = (if ver > HOST_SPEC_V2 then closest else push_bit (unat shift0) 1);
           divisor = (if divisor0 \<le> 2 then 2 else divisor0);
           shift = (if divisor0 \<le> 2 then 0 else shift0)
       in seq (say ''- Divisor selected = %u, pow 2 shift count = %u'' [Num (ucast divisor), Num (ucast shift)])
          (ret (clock_cdiv ver divisor))))"

definition sdSetClock :: "'d hw \<Rightarrow> u32 \<Rightarrow> ('d sdstate, u32) kop" where
  "sdSetClock h freq =
     bind (poll_pre (rd_any h EMMC_STATUS (SR_CMD_INHIBIT OR SR_DAT_INHIBIT)) (sd_delayus h 1) 100000) (\<lambda>count.
     if count \<le> 0 then
       seq (say_regs h ''* EMMC ERROR: Set clock: timeout waiting for inhibit flags. Status %08x.'' [] [EMMC_STATUS])
       (ret SD_ERROR_CLOCK)
     else
       seq (bind (rdreg h EMMC_CONTROL1) (\<lambda>c. wrreg h EMMC_CONTROL1 (c AND NOT C1_CLK_EN)))
       (seq (sd_delayus h 10)
       (bind (sdGetClockDivider freq) (\<lambda>cdiv.
        seq (bind (rdreg h EMMC_CONTROL1) (\<lambda>c. wrreg h EMMC_CONTROL1 ((c AND 0xffff003f) OR cdiv)))
        (seq (sd_delayus h 10)
        (seq (bind (rdreg h EMMC_CONTROL1) (\<lambda>c. wrreg h EMMC_CONTROL1 (c OR C1_CLK_EN)))
        (seq (sd_delayus h 10)
        (bind (poll_post (not_k (rd_any h EMMC_CONTROL1 C1_CLK_STABLE)) (sd_delayus h 10) 10000) (\<lambda>count2.
         if count2 \<le> 0 then
           seq (say ''* EMMC: ERROR: failed to get stable clock.'' []) (ret SD_ERROR_CLOCK)
         else
           seq (say_regs h ''- EMMC: Set clock, status 0x%x CONTROL1: 0x%x'' [] [EMMC_STATUS, EMMC_CONTROL1])
           (ret SD_OK))))))))))"

section \<open>The mailbox\<close>

text \<open>
  \<open>kern/mbox.c\<close> polls the firmware without a bound: \<open>n\<close> is the number of polls of each wait, and a
  wait that is longer is \<open>Diverge\<close>.
\<close>

definition MBOX_FULL :: u32 where "MBOX_FULL = 0x80000000"
definition MBOX_EMPTY :: u32 where "MBOX_EMPTY = 0x40000000"
definition MBOX_TAG_GET_ARM_MEMORY :: u32 where "MBOX_TAG_GET_ARM_MEMORY = 0x00010005"
definition MBOX_TAG_GET_CLOCK_RATE :: u32 where "MBOX_TAG_GET_CLOCK_RATE = 0x00030002"
definition MBOX_TAG_END :: u32 where "MBOX_TAG_END = 0"

fun spin_while :: "('s, bool) kop \<Rightarrow> nat \<Rightarrow> ('s, unit) kop" where
  "spin_while c 0 = stop Diverge"
| "spin_while c (Suc n) = bind c (\<lambda>x. if x then spin_while c n else ret ())"

fun mbox_read_loop :: "'d hw \<Rightarrow> nat \<Rightarrow> u32 \<Rightarrow> nat \<Rightarrow> ('d sdstate, u32) kop" where
  "mbox_read_loop h n chan 0 = stop Diverge"
| "mbox_read_loop h n chan (Suc k) =
     seq (spin_while (rd_any h MBOX_STATUS MBOX_EMPTY) n)
     (bind (rdreg h MBOX_READ) (\<lambda>r.
      if r AND 0xF = chan then
        seq (say ''- mbox_read: 0x%x'' [Num (ucast r)]) (ret (drop_bit 4 r))
      else mbox_read_loop h n chan k))"

definition mbox_read :: "'d hw \<Rightarrow> nat \<Rightarrow> u32 \<Rightarrow> ('d sdstate, u32) kop" where
  "mbox_read h n chan = mbox_read_loop h n chan n"

definition mbox_write :: "'d hw \<Rightarrow> nat \<Rightarrow> u32 \<Rightarrow> u32 \<Rightarrow> ('d sdstate, unit) kop" where
  "mbox_write h n buf chan =
    (if \<not> (buf AND 0xF = 0 \<and> chan AND NOT 0xF = 0) then panic ''assertion failed''
     else seq (spin_while (rd_any h MBOX_STATUS MBOX_FULL) n)
       (seq (say ''- mbox write: 0x%x'' [Num (ucast ((buf AND NOT 0xF) OR chan))])
       (wrreg h MBOX_WRITE ((buf AND NOT 0xF) OR chan))))"

definition mbox_exchange :: "'d hw \<Rightarrow> nat \<Rightarrow> u32 list \<Rightarrow> ('d sdstate, nat \<Rightarrow> u32) kop" where
  "mbox_exchange h n req =
    (if hw_mbuf h AND 0xF \<noteq> 0 then panic ''Buffer should align to 16 bytes. ''
     else seq (mbox_write h n (hw_mbuf h) 8) (seq (mbox_read h n 8) (get (\<lambda>s. hw_dma h req (dev s)))))"

definition mbox_get_arm_memory :: "'d hw \<Rightarrow> nat \<Rightarrow> ('d sdstate, u32) kop" where
  "mbox_get_arm_memory h n =
     bind (mbox_exchange h n [36, 0, MBOX_TAG_GET_ARM_MEMORY, 8, 0, 0, 0, MBOX_TAG_END]) (\<lambda>buf.
     if buf 5 \<noteq> 0 then panic ''Memory base address should be zero. ''
     else if buf 6 = 0 then panic ''Memory size should not be zero. ''
     else ret (buf 6))"

definition mbox_get_clock_rate :: "'d hw \<Rightarrow> nat \<Rightarrow> ('d sdstate, u32) kop" where
  "mbox_get_clock_rate h n =
     bind (mbox_exchange h n [36, 0, MBOX_TAG_GET_CLOCK_RATE, 8, 0, 1, 0, MBOX_TAG_END]) (\<lambda>buf.
     seq (say ''- clock rate %d'' [Num (ucast (buf 6))]) (ret (buf 6)))"

definition sdGetBaseClock :: "'d hw \<Rightarrow> nat \<Rightarrow> ('d sdstate, u32) kop" where
  "sdGetBaseClock h n =
     bind (mbox_get_clock_rate h n) (\<lambda>c.
     seq (upd (\<lambda>s. s\<lparr>sdBaseClock := c\<rparr>))
     (if c = -1 then seq (say ''* EMMC: Error, failed to get base clock from mailbox'' []) (ret SD_ERROR)
      else seq (say ''- SD base clock rate from mailbox: %d.'' [Num (ucast c)]) (ret SD_OK)))"

section \<open>Reset and identification\<close>

definition or_return :: "('s, u32) kop \<Rightarrow> ('s, u32) kop \<Rightarrow> ('s, u32) kop" where
  "or_return m k = bind m (\<lambda>r. if r \<noteq> 0 then ret r else k)"

definition or_debug :: "'d hw \<Rightarrow> ('d sdstate, u32) kop \<Rightarrow> ('d sdstate, u32) kop \<Rightarrow> ('d sdstate, u32) kop" where
  "or_debug h m k = bind m (\<lambda>r. if r \<noteq> 0 then sdDebugResponse h r else k)"

definition sdResetCard :: "'d hw \<Rightarrow> u32 \<Rightarrow> ('d sdstate, u32) kop" where
  "sdResetCard h resetType =
     seq (wrreg h EMMC_CONTROL0 0)
     (seq (bind (rdreg h EMMC_CONTROL1) (\<lambda>c. wrreg h EMMC_CONTROL1 (c OR resetType)))
     (seq (sd_delayus h 10)
     (bind (poll_post (rd_any h EMMC_CONTROL1 resetType) (sd_delayus h 10) 10000) (\<lambda>count.
      if count \<le> 0 then seq (say ''* EMMC: ERROR: failed to reset.'' []) (ret SD_ERROR_RESET)
      else
        seq (bind (rdreg h EMMC_CONTROL1) (\<lambda>c. wrreg h EMMC_CONTROL1 (c OR C1_CLK_INTLEN OR C1_TOUNIT_MAX)))
        (seq (sd_delayus h 10)
        (or_return (sdSetClock h FREQ_SETUP)
          (seq (wrreg h EMMC_IRPT_EN (0xffffffff AND NOT INT_CMD_DONE AND NOT INT_WRITE_RDY))
          (seq (wrreg h EMMC_IRPT_MASK 0xffffffff)
          (seq (set_card (\<lambda>c. c\<lparr>sd_rca := 0, sd_ocr := 0, sd_lastArg := 0, sd_lastCmd := None,
                 sd_status := 0, sd_type := 0, sd_uhsi := 0\<rparr>))
          (seq (say ''- Send IX_GO_IDLE_STATE command'' [])
          (sdSendCommand h IX_GO_IDLE_STATE)))))))))))"

text \<open>The retries of ACMD41; the result is the code of an early return.\<close>

definition opcond_send :: "'d hw \<Rightarrow> u32 \<Rightarrow> ('d sdstate, u32 option) kop" where
  "opcond_send h arg =
     bind (sdSendCommandA h IX_APP_SEND_OP_COND arg) (\<lambda>resp.
     if resp \<noteq> 0 \<and> resp \<noteq> SD_TIMEOUT then
       seq (say ''* EMMC: ACMD41 returned non-timeout error %d'' [Num (ucast resp)]) (ret (Some resp))
     else ret None)"

fun opcond_retry :: "'d hw \<Rightarrow> u32 \<Rightarrow> nat \<Rightarrow> ('d sdstate, u32 option) kop" where
  "opcond_retry h arg 0 = ret None"
| "opcond_retry h arg (Suc n) =
     bind (get (\<lambda>s. sd_ocr (sdCard s) AND R3_COMPLETE)) (\<lambda>done.
     if done \<noteq> 0 then ret None
     else seq (say_regs h ''- EMMC: Retrying ACMD SEND_OP_COND status %x'' [] [EMMC_STATUS])
       (seq (delay h 50000)
       (bind (opcond_send h arg) (\<lambda>e.
        case e of Some r \<Rightarrow> ret (Some r) | None \<Rightarrow> opcond_retry h arg n))))"

definition unless_early :: "('s, u32 option) kop \<Rightarrow> ('s, u32) kop \<Rightarrow> ('s, u32) kop" where
  "unless_early m k = bind m (\<lambda>e. case e of Some r \<Rightarrow> ret r | None \<Rightarrow> k)"

definition opcond_verdict :: "('d sdstate, u32) kop" where
  "opcond_verdict =
     bind (get (\<lambda>s. sd_ocr (sdCard s))) (\<lambda>ocr.
     if ocr AND R3_COMPLETE = 0 then ret SD_TIMEOUT
     else if ocr AND ACMD41_VOLTAGE = 0 then ret SD_ERROR_VOLTAGE
     else ret SD_OK)"

definition sdAppSendOpCond :: "'d hw \<Rightarrow> u32 \<Rightarrow> ('d sdstate, u32) kop" where
  "sdAppSendOpCond h arg =
     seq (say_regs h ''- EMMC: Sending ACMD41 SEND_OP_COND status %x'' [] [EMMC_STATUS])
     (unless_early (opcond_send h arg) (unless_early (opcond_retry h arg 6) opcond_verdict))"

definition sdSwitchVoltage :: "('d sdstate, u32) kop" where
  "sdSwitchVoltage = seq (say ''- EMMC: Pi does not support switch voltage, fixed at 3.3volt'' []) (ret SD_OK)"

definition sdInitGPIO :: "'d hw \<Rightarrow> ('d sdstate, unit) kop" where
  "sdInitGPIO h =
     seq (bind (rdreg h GPFSEL4) (\<lambda>r. wrreg h GPFSEL4 (r AND NOT (push_bit 21 7))))
     (seq (wrreg h GPPUD 2) (seq (delay h 150)
     (seq (wrreg h GPPUDCLK1 (push_bit 15 1)) (seq (delay h 150)
     (seq (wrreg h GPPUD 0) (seq (wrreg h GPPUDCLK1 0)
     (seq (bind (rdreg h GPHEN1) (\<lambda>r. wrreg h GPHEN1 (r OR push_bit 15 1)))
     (seq (bind (rdreg h GPFSEL4) (\<lambda>r. wrreg h GPFSEL4 (r OR (push_bit 24 7 OR push_bit 27 7))))
     (seq (wrreg h GPPUD 2) (seq (delay h 150)
     (seq (wrreg h GPPUDCLK1 (push_bit 16 1 OR push_bit 17 1)) (seq (delay h 150)
     (seq (wrreg h GPPUD 0) (seq (wrreg h GPPUDCLK1 0)
     (seq (bind (rdreg h GPFSEL5) (\<lambda>r. wrreg h GPFSEL5 (r OR (7 OR push_bit 3 7 OR push_bit 6 7 OR push_bit 9 7))))
     (seq (wrreg h GPPUD 2) (seq (delay h 150)
     (seq (wrreg h GPPUDCLK1 (push_bit 18 1 OR push_bit 19 1 OR push_bit 20 1 OR push_bit 21 1))
     (seq (delay h 150) (seq (wrreg h GPPUD 0) (wrreg h GPPUDCLK1 0)))))))))))))))))))))"

section \<open>The registers CSD and CID\<close>

definition sdParseCSD :: "SDDescriptor \<Rightarrow> SDDescriptor" where
  "sdParseCSD c =
    (let csd = sd_csd c;
         capacity =
          (if csd ! 0 AND 0x00c00000 = 0 then
             let csize = push_bit 10 (csd ! 1 AND 0x00000003) + drop_bit 22 (csd ! 2 AND 0xffc00000);
                 mult = push_bit (unat (drop_bit 7 (csd ! 2 AND 0x00000380)) + 2) 1 :: u32;
                 blockSize = push_bit (unat (drop_bit 8 (csd ! 1 AND 0x00000f00))) 1 :: u32;
                 numBlocks = (ucast csize + 1) * ucast mult :: u64
             in numBlocks * ucast blockSize
           else
             let csize = drop_bit 8 (csd ! 2 AND 0x3fffff00)
             in (ucast csize + 1) * 512 * 1024)
     in c\<lparr>sd_capacity := capacity, sd_fileFormat := csd ! 3 AND 0x0000000c\<rparr>)"

definition chars :: "byte list \<Rightarrow> string" where
  "chars bs = map (\<lambda>b. char_of (unat b)) (takeWhile (\<lambda>b. b \<noteq> 0) bs)"

definition sdParseCID :: "('d sdstate, unit) kop" where
  "sdParseCID =
     bind (get sdCard) (\<lambda>c.
     let cid = sd_cid c;
         manId = drop_bit 16 (cid ! 0 AND 0x00ff0000);
         appId = [ucast (drop_bit 8 (cid ! 0 AND 0x0000ff00)), ucast (cid ! 0 AND 0x000000ff)];
         name = [ucast (drop_bit 24 (cid ! 1 AND 0xff000000)), ucast (drop_bit 16 (cid ! 1 AND 0x00ff0000)),
                 ucast (drop_bit 8 (cid ! 1 AND 0x0000ff00)), ucast (cid ! 1 AND 0x000000ff),
                 ucast (drop_bit 24 (cid ! 2 AND 0xff000000))];
         revH = drop_bit 20 (cid ! 2 AND 0x00f00000);
         revL = drop_bit 16 (cid ! 2 AND 0x000f0000);
         serial = push_bit 16 (cid ! 2 AND 0x0000ffff) + drop_bit 16 (cid ! 3 AND 0xffff0000);
         dateY = drop_bit 4 (cid ! 3 AND 0x00000ff0) + 2000;
         dateM = cid ! 3 AND 0x0000000f
     in if unat (sd_type c) < length SD_TYPE_NAME then
          say ''- EMMC: SD Card %s %dMb UHS-I %d mfr %d '%s:%s' r%d.%d %d/%d, #%x RCA %x''
            [Txt (SD_TYPE_NAME ! unat (sd_type c)), Num (drop_bit 20 (sd_capacity c)), Num (ucast (sd_uhsi c)),
             Num (ucast manId), Txt (chars appId), Txt (chars name), Num (ucast revH), Num (ucast revL),
             Num (ucast dateM), Num (ucast dateY), Num (ucast serial), Num (ucast (drop_bit 16 (sd_rca c)))]
        else stop Fault)"

section \<open>Initialisation\<close>

text \<open>The source tests no pin for the presence of a card: \<open>cardAbsent\<close> is the constant 0.\<close>

definition cardAbsent :: u32 where "cardAbsent = 0"

definition sd_old_card :: "'d hw \<Rightarrow> ('d sdstate, u32) kop" where
  "sd_old_card h =
     seq (say ''- no response to SEND_IF_COND, treat as an old card.'' [])
     (or_return
       (bind (rd_any h EMMC_STATUS SR_CMD_INHIBIT) (\<lambda>b. if b then sdResetCard h C1_SRST_HC else ret SD_OK))
     (or_debug h (sdAppSendOpCond h ACMD41_ARG_SC)
       (seq (set_card (\<lambda>c. c\<lparr>sd_type := SD_TYPE_1\<rparr>)) (ret SD_OK))))"

definition sd_new_card :: "'d hw \<Rightarrow> ('d sdstate, u32) kop" where
  "sd_new_card h =
     seq (delay h 50)
     (or_debug h (sdAppSendOpCond h ACMD41_ARG_HC)
       (seq (set_card (\<lambda>c. c\<lparr>sd_type := if sd_ocr c AND R3_CCS \<noteq> 0 then SD_TYPE_2_HC else SD_TYPE_2_SC\<rparr>))
       (ret SD_OK)))"

definition sd_resolve :: "'d hw \<Rightarrow> ('d sdstate, u32) kop" where
  "sd_resolve h =
     bind (sdSendCommandA h IX_SEND_IF_COND 0x000001AA) (\<lambda>resp.
     seq (say ''- sdSendCommandA response: %d'' [Num (ucast resp)])
     (if resp = SD_OK then sd_new_card h
      else if resp = SD_BUSY then ret resp
      else sd_old_card h))"

definition sd_setup_card :: "'d hw \<Rightarrow> u32 list \<Rightarrow> ('d sdstate, u32) kop" where
  "sd_setup_card h oldCID =
     or_debug h (sdSendCommand h IX_CARD_SELECT)
    (or_debug h (sdReadSCR h)
    (bind (get (\<lambda>s. sd_support (sdCard s) AND SD_SUPP_BUS_WIDTH_4)) (\<lambda>w4.
     or_debug h
      (if w4 \<noteq> 0 then
         bind (get (\<lambda>s. sd_rca (sdCard s) OR 2)) (sdSendCommandA h IX_SET_BUS_WIDTH)
       else ret SD_OK)
     (seq (if w4 \<noteq> 0 then bind (rdreg h EMMC_CONTROL0) (\<lambda>c. wrreg h EMMC_CONTROL0 (c OR C0_HCTL_DWITDH))
           else ret ())
     (or_debug h (sdSendCommandA h IX_SET_BLOCKLEN 512)
     (seq sdParseCID
     (seq (set_card (\<lambda>c. c\<lparr>sd_initd := 1\<rparr>))
     (bind (get (\<lambda>s. sd_cid (sdCard s))) (\<lambda>cid.
      ret (if oldCID = cid then SD_CARD_REINSERTED else SD_CARD_CHANGED))))))))))"

definition sd_identify :: "'d hw \<Rightarrow> u32 list \<Rightarrow> ('d sdstate, u32) kop" where
  "sd_identify h oldCID =
     or_return
      (bind (get (\<lambda>s. sd_ocr (sdCard s) AND R3_S18A)) (\<lambda>v. if v \<noteq> 0 then sdSwitchVoltage else ret SD_OK))
    (or_debug h (sdSendCommand h IX_ALL_SEND_CID)
    (or_debug h (sdSendCommand h IX_SEND_REL_ADDR)
    (or_debug h (sdSendCommand h IX_SEND_CSD)
    (seq (set_card sdParseCSD)
    (bind (get (\<lambda>s. sd_fileFormat (sdCard s))) (\<lambda>f.
     if f \<noteq> 0x4 \<and> f \<noteq> 0x0 then
       seq (say ''* EMMC: Error, unrecognised file format %02x'' [Num (ucast f)]) (ret SD_ERROR)
     else or_debug h (sdSetClock h FREQ_NORMAL) (sd_setup_card h oldCID)))))))"

definition sd_bring_up :: "'d hw \<Rightarrow> nat \<Rightarrow> u32 list \<Rightarrow> ('d sdstate, u32) kop" where
  "sd_bring_up h n oldCID =
     seq (bind (rdreg h EMMC_SLOTISR_VER) (\<lambda>v. upd (\<lambda>s. s\<lparr>sdHostVer := drop_bit 16 (v AND HOST_SPEC_NUM)\<rparr>)))
     (or_return (sdGetBaseClock h n)
     (seq (say ''- sdInit: reset the card'' [])
     (or_return (sdResetCard h C1_SRST_HC)
     (or_return (sd_resolve h)
     (sd_identify h oldCID)))))"

definition sd_check_card :: "'d hw \<Rightarrow> nat \<Rightarrow> u32 \<Rightarrow> u32 \<Rightarrow> ('d sdstate, u32) kop" where
  "sd_check_card h n wasInit cardEjected =
     seq (set_card (\<lambda>c. c\<lparr>sd_absent := 0\<rparr>))
     (bind (get (\<lambda>s. if cardEjected \<noteq> 0 \<and> wasInit \<noteq> 0 then sd_cid (sdCard s) else replicate 4 0)) (\<lambda>oldCID.
      seq (set_card (\<lambda>c. if cardEjected \<noteq> 0 \<and> wasInit \<noteq> 0 then c\<lparr>sd_initd := 0\<rparr> else c))
      (if wasInit \<noteq> 0 \<and> cardEjected = 0 then ret SD_OK else sd_bring_up h n oldCID)))"

definition sd_no_card :: "('d sdstate, u32) kop" where
  "sd_no_card =
     bind (get (\<lambda>s. sd_absent (sdCard s))) (\<lambda>wasAbsent.
     seq (set_card (\<lambda>c. c\<lparr>sd_initd := 0, sd_absent := 1\<rparr>))
     (seq (if wasAbsent = 0 then say ''* EMMC: no SD card detected'' [] else ret ())
     (ret SD_CARD_ABSENT)))"

definition sdInit :: "'d hw \<Rightarrow> nat \<Rightarrow> ('d sdstate, u32) kop" where
  "sdInit h n =
     bind (get (\<lambda>s. sd_initd (sdCard s))) (\<lambda>wasInit.
     seq (if wasInit = 0 then sdInitGPIO h else ret ())
     (bind (rdreg h GPEDS1) (\<lambda>g.
      if cardAbsent \<noteq> 0 then sd_no_card else sd_check_card h n wasInit (g AND push_bit 15 1))))"

section \<open>Transfers\<close>

text \<open>
  \<open>sd_issue\<close> is the part of \<open>sd_start\<close> below the choice of the address: one block of 128 words is
  written through the data register, or a read is started.
\<close>

fun fifo_write :: "'d hw \<Rightarrow> u32 list \<Rightarrow> ('d sdstate, unit) kop" where
  "fifo_write h [] = ret ()"
| "fifo_write h (w # ws) = seq (wrreg h EMMC_DATA w) (fifo_write h ws)"

fun fifo_read :: "'d hw \<Rightarrow> nat \<Rightarrow> ('d sdstate, u32 list) kop" where
  "fifo_read h 0 = ret []"
| "fifo_read h (Suc n) = bind (rdreg h EMMC_DATA) (\<lambda>v. bind (fifo_read h n) (\<lambda>vs. ret (v # vs)))"

definition sd_address :: "u32 \<Rightarrow> u32 \<Rightarrow> u32" where
  "sd_address type blockno = (if type = SD_TYPE_2_HC then blockno else push_bit 9 blockno)"

definition sd_issue :: "'d hw \<Rightarrow> u32 \<Rightarrow> bool \<Rightarrow> u32 list \<Rightarrow> ('d sdstate, unit) kop" where
  "sd_issue h blockno wr data =
     bind (get (\<lambda>s. sd_address (sd_type (sdCard s)) blockno)) (\<lambda>bno.
     bind (rdreg h EMMC_INTERRUPT) (\<lambda>i.
     if i \<noteq> 0 then panic ''emmc interrupt flag should be empty: 0x%x. ''
     else seq (wrreg h EMMC_BLKSIZECNT 512)
       (bind (sdSendCommandA h (if wr then IX_WRITE_SINGLE else IX_READ_SINGLE) bno) (\<lambda>resp.
        if resp \<noteq> 0 then panic ''* EMMC send command error.''
        else if wr then
          bind (sdWaitForInterrupt h INT_WRITE_RDY) (\<lambda>r.
          if r \<noteq> 0 then panic ''* EMMC ERROR: Timeout waiting for ready to write''
          else bind (rdreg h EMMC_INTERRUPT) (\<lambda>i2.
            if i2 \<noteq> 0 then panic ''%d '' else fifo_write h data))
        else ret ()))))"

text \<open>The second entry of the partition table, at byte \<open>0x1CE\<close> of the first block, as four words.\<close>

definition partition2 :: "u32 list \<Rightarrow> u32 list" where
  "partition2 ws = (let bs = take 16 (drop 0x1CE (concat (map (le_bytes 4) ws)))
                    in map (\<lambda>i. le_word (take 4 (drop (4 * i) bs))) [0..<4])"

definition sd_init :: "'d hw \<Rightarrow> nat \<Rightarrow> ('d sdstate, unit) kop" where
  "sd_init h n =
     seq (sdInit h n)
     (bind (get (\<lambda>s. sd_initd (sdCard s))) (\<lambda>i.
      if i = 0 then panic ''assertion failed''
      else seq (sd_issue h 0 False [])
        (seq (sdWaitForInterrupt h INT_READ_RDY)
        (bind (fifo_read h 128) (\<lambda>ws.
         seq (sdWaitForInterrupt h INT_DATA_DONE)
         (let p = partition2 ws in
          seq (say ''- sd init: Partition type ID: 0x%x'' [Num (ucast (p ! 1 AND 0xff))])
          (seq (say ''- sd init: LBA of first absolute sector: 0x%x'' [Num (ucast (p ! 2))])
          (say ''- sd init: Number of sectors in partition: 0x%x'' [Num (ucast (p ! 3))]))))))))"

section \<open>What the waits return\<close>

text \<open>
  For a condition that only reads and a delay that always returns: the condition first fails after
  \<open>k\<close> delays. The loop \<open>while (c && count--)\<close> then leaves \<open>n - k\<close>, or \<open>-1\<close> when it gave up.
\<close>

lemma poll_post_count:
  assumes c: "\<And>s. c s = Inr (p s, s)" and b: "\<And>s. b s = Inr ((), g s)"
    and before: "\<And>j. j < k \<Longrightarrow> p ((g ^^ j) s)" and at: "\<not> p ((g ^^ k) s)"
  shows "poll_post c b n s = Inr (if k \<le> n then int n - int k else -1, (g ^^ min k n) s)"
  using before at
proof (induction n arbitrary: k s)
  case 0
  then show ?case
    using c 0(1) [of 0] by (cases k) (auto simp: bind_def ret_def)
next
  case (Suc n)
  show ?case
  proof (cases k)
    case 0
    with Suc.prems(2) show ?thesis by (simp add: bind_def ret_def c)
  next
    case (Suc k')
    have p: "p s" using Suc.prems(1) [of 0] Suc by simp
    have b': "\<And>j. j < k' \<Longrightarrow> p ((g ^^ j) (g s))"
      using Suc.prems(1) [of "Suc _"] Suc by (simp add: funpow_swap1)
    have a': "\<not> p ((g ^^ k') (g s))" using Suc.prems(2) Suc by (simp add: funpow_swap1)
    show ?thesis
      using Suc.IH [OF b' a'] p c b by (simp add: Suc bind_def funpow_swap1)
  qed
qed

section \<open>Steps that leave the descriptor alone\<close>

named_theorems io_rules \<open>steps that return and keep the card descriptor\<close>

definition io :: "('d sdstate, 'a) kop \<Rightarrow> bool" where
  "io m \<longleftrightarrow> (\<forall>s. runs m s (\<lambda>_ t. sdCard t = sdCard s))"

lemma io_bind [io_rules]:
  fixes m :: "('d sdstate, 'a) kop" and f :: "'a \<Rightarrow> ('d sdstate, 'b) kop"
  assumes "io m" and "\<And>x. io (f x)"
  shows "io (bind m f)"
  unfolding io_def
proof
  fix s :: "'d sdstate"
  have "runs m s (\<lambda>_ t. sdCard t = sdCard s)" using assms(1) by (simp add: io_def)
  then show "runs (bind m f) s (\<lambda>_ t. sdCard t = sdCard s)"
  proof (rule runs_bind)
    fix x and t :: "'d sdstate" assume e: "sdCard t = sdCard s"
    show "runs (f x) t (\<lambda>_ u. sdCard u = sdCard s)"
      using assms(2) [of x] unfolding io_def e [symmetric] by blast
  qed
qed

lemma io_basic [io_rules]:
  "io (ret x)" "io (get f)" "io (rdreg h r)" "io (wrreg h r v)" "io (delay h c)" "io (sd_delayus h c)" "io (say m as)"
  by (simp_all add: io_def runs_def ret_def get_def rdreg_def wrreg_def upd_def delay_def
      sd_delayus_def say_def split: prod.splits)

lemma io_hostver [io_rules]: "io (upd (\<lambda>s. s\<lparr>sdHostVer := f s\<rparr>))" "io (upd (\<lambda>s. s\<lparr>sdBaseClock := g s\<rparr>))"
  by (simp_all add: io_def runs_def upd_def)

lemma io_if [io_rules]: "io m \<Longrightarrow> io m' \<Longrightarrow> io (if b then m else m')"
  by simp

lemma io_let [io_rules]: "(\<And>x. io (f x)) \<Longrightarrow> io (let x = e in f x)"
  by simp

lemma io_say_regs [io_rules]: "io (say_regs h f as rs)"
  by (induction rs arbitrary: as) (auto intro!: io_rules)

lemma io_poll_post [io_rules]: "io c \<Longrightarrow> io b \<Longrightarrow> io (poll_post c b n)"
  by (induction n) (auto intro!: io_rules)

lemma io_poll_pre: "io c \<Longrightarrow> io b \<Longrightarrow> 0 < n \<Longrightarrow> io (poll_pre c b n)"
proof (induction n)
  case (Suc n)
  then show ?case by (cases n) (auto intro!: io_rules)
qed simp

lemma io_poll_up: "io c \<Longrightarrow> io b \<Longrightarrow> 0 < r \<Longrightarrow> io (poll_up c b r k)"
proof (induction r arbitrary: k)
  case (Suc r)
  then show ?case by (cases r) (auto intro!: io_rules)
qed simp

lemma io_tests [io_rules]:
  "io (rd_any h r m)" "io c \<Longrightarrow> io (not_k c)" "io c \<Longrightarrow> io d \<Longrightarrow> io (and_k c d)" "io c \<Longrightarrow> io d \<Longrightarrow> io (or_k c d)"
  unfolding rd_any_def not_k_def and_k_def or_k_def by (intro io_rules; assumption)+

lemma io_waits [io_rules]:
  "io (sdWaitForInterrupt h msk)" "io (sdWaitForCommand h)" "io (sdWaitForData h)"
  unfolding sdWaitForInterrupt_def interrupt_verdict_def sdWaitForCommand_def sdWaitForData_def
  by (intro io_rules io_poll_up; simp)+

lemma io_divider: "freq \<noteq> 0 \<Longrightarrow> io (sdGetClockDivider freq)"
  by (simp add: sdGetClockDivider_def Let_def io_rules)

lemma io_set_clock: "freq \<noteq> 0 \<Longrightarrow> io (sdSetClock h freq)"
  unfolding sdSetClock_def by (intro io_rules io_poll_pre io_divider; simp)

lemma io_gpio [io_rules]: "io (sdInitGPIO h)"
  unfolding sdInitGPIO_def by (intro io_rules)

section \<open>Commands keep the descriptor well formed\<close>

text \<open>The arrays have their lengths, the card type indexes \<open>SD_TYPE_NAME\<close>, the last command the table.\<close>

definition card_wf :: "SDDescriptor \<Rightarrow> bool" where
  "card_wf c \<longleftrightarrow> length (sd_cid c) = 4 \<and> length (sd_csd c) = 4 \<and> length (sd_scr c) = 2 \<and>
     unat (sd_type c) < 5 \<and> (\<forall>i. sd_lastCmd c = Some i \<longrightarrow> i < 39)"

definition not_card_code :: "u32 \<Rightarrow> bool" where
  "not_card_code r \<longleftrightarrow> r \<noteq> SD_CARD_CHANGED \<and> r \<noteq> SD_CARD_REINSERTED"

lemma length_table: "length sdCommandTable = 39"
  by (simp add: sdCommandTable_def)

lemma table_resp:
  assumes "ix < 39"
  shows "c_resp (sdCommandTable ! ix) \<in> {RESP_NO, RESP_R1, RESP_R1b, RESP_R2I, RESP_R2S, RESP_R3, RESP_R6, RESP_R7}"
proof -
  have "\<forall>c\<in>set sdCommandTable. c_resp c \<in> {RESP_NO, RESP_R1, RESP_R1b, RESP_R2I, RESP_R2S, RESP_R3, RESP_R6, RESP_R7}"
    by (simp add: sdCommandTable_def emmc_def)
  then show ?thesis using nth_mem [of ix sdCommandTable] assms length_table by simp
qed

lemma bit_ten: "bit (10 :: u32) 1" "bit (12 :: u32) 3" "\<not> bit R1_ERRORS_MASK 1" "\<not> bit R1_ERRORS_MASK 3"
  by (simp_all add: R1_ERRORS_MASK_def)

lemma errors_not_card_code: "not_card_code (x AND R1_ERRORS_MASK)"
  using bit_ten unfolding not_card_code_def sd_codes by (metis bit_and_iff)

lemma codes_not_card_code [simp]:
  "not_card_code SD_OK" "not_card_code SD_ERROR" "not_card_code SD_TIMEOUT" "not_card_code SD_BUSY"
  "not_card_code SD_ERROR_RESET" "not_card_code SD_ERROR_CLOCK" "not_card_code SD_ERROR_VOLTAGE"
  "not_card_code SD_ERROR_APP_CMD" "not_card_code 0"
  by (simp_all add: not_card_code_def sd_codes)

lemma runs_io_bind:
  assumes "io m" and "\<And>x t. sdCard t = sdCard s \<Longrightarrow> runs (f x) t Q"
  shows "runs (bind m f) s Q"
proof (rule runs_bind)
  show "runs m s (\<lambda>_ t. sdCard t = sdCard s)" using assms(1) by (simp add: io_def)
qed (rule assms(2))

lemma runs_set_card [simp]:
  "runs (bind (set_card g) f) s Q \<longleftrightarrow> runs (f ()) (s\<lparr>sdCard := g (sdCard s)\<rparr>) Q"
  "runs (set_card g) s R \<longleftrightarrow> R () (s\<lparr>sdCard := g (sdCard s)\<rparr>)"
  by (simp_all add: set_card_def)

text \<open>\<open>kept c d\<close>: a command went from descriptor \<open>c\<close> to \<open>d\<close>.\<close>

definition kept :: "SDDescriptor \<Rightarrow> SDDescriptor \<Rightarrow> bool" where
  "kept c d \<longleftrightarrow> card_wf d \<and> sd_initd d = sd_initd c \<and> sd_lastCmd d = sd_lastCmd c"

lemma handle_response_run:
  assumes wf: "card_wf (sdCard s)"
    and rt: "rt \<in> {RESP_NO, RESP_R1, RESP_R1b, RESP_R2I, RESP_R2S, RESP_R3, RESP_R6, RESP_R7}"
  shows "runs (handle_response h rt arg r0) s (\<lambda>r t. kept (sdCard s) (sdCard t) \<and> not_card_code r)"
proof (cases "rt = RESP_R2I \<or> rt = RESP_R2S")
  case True
  have n: "rt \<noteq> RESP_NO" "rt \<noteq> RESP_R1" "rt \<noteq> RESP_R1b" using True by (auto simp: resp_codes)
  have "kept (sdCard s) (if rt = RESP_R2I then d\<lparr>sd_cid := [x, y, z, r0]\<rparr> else d\<lparr>sd_csd := [x, y, z, r0]\<rparr>)"
    if "d = sdCard s\<lparr>sd_status := 0\<rparr>" for d x y z
    using that wf by (simp add: kept_def card_wf_def)
  then show ?thesis
    using True n unfolding handle_response_def
    by simp (rule runs_io_bind [OF io_basic(3)], rule runs_io_bind [OF io_basic(3)],
      rule runs_io_bind [OF io_basic(3)], simp)
next
  case False
  then show ?thesis
    using wf rt unfolding handle_response_def
    by (auto simp: kept_def card_wf_def errors_not_card_code resp_codes)
qed

lemma wait_interrupt_run:
  "runs (sdWaitForInterrupt h m) s (\<lambda>r t. sdCard t = sdCard s \<and> r \<in> {SD_OK, SD_TIMEOUT, SD_ERROR})"
proof -
  have v: "runs (interrupt_verdict h m c i) t (\<lambda>r u. sdCard u = sdCard t \<and> r \<in> {SD_OK, SD_TIMEOUT, SD_ERROR})" for c i t
    unfolding interrupt_verdict_def by (auto intro!: runs_io_bind [OF io_basic(3)] simp: wrreg_def say_def)
  show ?thesis
    unfolding sdWaitForInterrupt_def
    by (rule runs_io_bind, intro io_rules, rule runs_io_bind [OF io_basic(3)], rule runs_mono [OF v], simp)
qed

lemma sd_response_run:
  fixes s :: "'d sdstate"
  assumes wf: "card_wf (sdCard s)" and ix: "ix < 39"
  shows "runs (sd_response h (sdCommandTable ! ix) arg) s (\<lambda>r t. kept (sdCard s) (sdCard t) \<and> not_card_code r)"
  unfolding sd_response_def
proof (rule runs_bind [OF wait_interrupt_run])
  fix r and t :: "'d sdstate" assume t: "sdCard t = sdCard s \<and> r \<in> {SD_OK, SD_TIMEOUT, SD_ERROR}"
  have "runs (bind (rdreg h EMMC_RESP0) (handle_response h (c_resp (sdCommandTable ! ix)) arg)) t
      (\<lambda>r t. kept (sdCard s) (sdCard t) \<and> not_card_code r)"
  proof (rule runs_io_bind [OF io_basic(3)])
    fix x and u :: "'d sdstate" assume "sdCard u = sdCard t"
    then show "runs (handle_response h (c_resp (sdCommandTable ! ix)) arg x) u (\<lambda>r t. kept (sdCard s) (sdCard t) \<and> not_card_code r)"
      using handle_response_run [of u, OF _ table_resp [OF ix]] wf t by simp
  qed
  then show "runs (if r \<noteq> 0 then ret r
        else bind (rdreg h EMMC_RESP0) (handle_response h (c_resp (sdCommandTable ! ix)) arg)) t
      (\<lambda>r t. kept (sdCard s) (sdCard t) \<and> not_card_code r)"
    using t wf by (auto simp: kept_def)
qed

lemma sd_transmit_run:
  assumes wf: "card_wf (sdCard s)" and ix: "ix < 39"
  shows "runs (sd_transmit h ix (sdCommandTable ! ix) arg) s (\<lambda>r t. card_wf (sdCard t) \<and>
     sd_initd (sdCard t) = sd_initd (sdCard s) \<and> not_card_code r \<and> sd_lastCmd (sdCard t) = Some ix)"
proof -
  have wf': "card_wf (sdCard s\<lparr>sd_lastCmd := Some ix, sd_lastArg := arg\<rparr>)"
    using wf ix by (simp add: card_wf_def)
  have fin: "runs (sd_response h (sdCommandTable ! ix) arg) t (\<lambda>r u. card_wf (sdCard u) \<and>
      sd_initd (sdCard u) = sd_initd (sdCard s) \<and> not_card_code r \<and> sd_lastCmd (sdCard u) = Some ix)"
    if t: "sdCard t = sdCard s\<lparr>sd_lastCmd := Some ix, sd_lastArg := arg\<rparr>" for t
    using sd_response_run [of t ix h arg] wf' ix t by (auto elim!: runs_mono simp: kept_def)
  show ?thesis
    unfolding sd_transmit_def
    apply (rule runs_io_bind, intro io_rules)
    apply (simp split del: if_split)
    apply (rule runs_io_bind, intro io_rules)+
    apply (rule fin)
    apply simp
    done
qed

lemma sdSendCommandP_run:
  assumes wf: "card_wf (sdCard s)" and ix: "ix < 39"
  shows "runs (sdSendCommandP h ix arg) s (\<lambda>r t. card_wf (sdCard t) \<and> sd_initd (sdCard t) = sd_initd (sdCard s) \<and>
     not_card_code r \<and> (r \<noteq> 0 \<and> sdCard t = sdCard s \<or> sd_lastCmd (sdCard t) = Some ix))"
proof -
  have at: "cmd_at ix = ret (sdCommandTable ! ix)" using ix by (simp add: cmd_at_def length_table)
  have busy: "SD_BUSY \<noteq> 0" by (simp add: sd_codes)
  show ?thesis
    unfolding sdSendCommandP_def at
    by (rule runs_io_bind, intro io_rules)
     (use wf ix busy in \<open>auto elim!: runs_mono intro!: runs_mono [OF sd_transmit_run [OF _ ix]]\<close>)
qed

section \<open>Commands after a reset\<close>

text \<open>
  \<open>live v s\<close>: the descriptor is well formed, a command has been sent, and the initialised flag is \<open>v\<close>.
  From then on \<open>sdDebugResponse\<close> finds a last command. \<open>coded v m\<close>: started so, \<open>m\<close> ends so, with a
  code that is none of the two that \<open>sdInit\<close> returns for success.
\<close>

definition live :: "u32 \<Rightarrow> 'd sdstate \<Rightarrow> bool" where
  "live v s \<longleftrightarrow> card_wf (sdCard s) \<and> sd_lastCmd (sdCard s) \<noteq> None \<and> sd_initd (sdCard s) = v"

definition coded :: "u32 \<Rightarrow> ('d sdstate, u32) kop \<Rightarrow> bool" where
  "coded v m \<longleftrightarrow> (\<forall>s. live v s \<longrightarrow> runs m s (\<lambda>r t. live v t \<and> not_card_code r))"

lemma coded_io:
  assumes "io m" "\<And>x. coded v (f x)"
  shows "coded v (bind m f)"
  using assms unfolding coded_def live_def by (metis (mono_tags, lifting) runs_io_bind)

lemma coded_set_card:
  assumes "\<And>c. card_wf c \<Longrightarrow> card_wf (g c)" "\<And>c. sd_lastCmd (g c) = sd_lastCmd c" "\<And>c. sd_initd (g c) = sd_initd c"
    and "coded v (f ())"
  shows "coded v (bind (set_card g) f)"
  using assms by (simp add: coded_def live_def)

lemma coded_ret: "not_card_code r \<Longrightarrow> coded v (ret r)"
  by (simp add: coded_def)

lemma coded_get:
  assumes "\<And>s. live v s \<Longrightarrow> coded v (f (g s))"
  shows "coded v (bind (get g) f)"
  using assms by (simp add: coded_def)

lemma coded_bind:
  assumes "coded v m" "\<And>r. not_card_code r \<Longrightarrow> coded v (f r)"
  shows "coded v (bind m f)"
  using assms unfolding coded_def by (blast intro: runs_bind)

lemma coded_if: "coded v m \<Longrightarrow> coded v n \<Longrightarrow> coded v (if b then m else n)"
  by simp

text \<open>\<open>stays v m P\<close>: as \<open>coded\<close>, for a result of any type.\<close>

definition stays :: "u32 \<Rightarrow> ('d sdstate, 'a) kop \<Rightarrow> ('a \<Rightarrow> bool) \<Rightarrow> bool" where
  "stays v m P \<longleftrightarrow> (\<forall>s. live v s \<longrightarrow> runs m s (\<lambda>r t. live v t \<and> P r))"

lemma coded_stays: "coded v m \<longleftrightarrow> stays v m not_card_code"
  by (simp add: coded_def stays_def)

lemma stays_io:
  assumes "io m" "\<And>x. stays v (f x) Q"
  shows "stays v (bind m f) Q"
  using assms unfolding stays_def live_def by (metis (mono_tags, lifting) runs_io_bind)

lemma stays_ret: "P r \<Longrightarrow> stays v (ret r) P"
  by (simp add: stays_def)

lemma stays_debug: "stays v (sdDebugResponse h r) (\<lambda>r'. r' = r)"
  unfolding stays_def
proof (intro allI impI)
  fix s :: "'a sdstate" assume s: "live v s"
  then obtain i where i: "sd_lastCmd (sdCard s) = Some i" "i < 39" by (auto simp: live_def card_wf_def)
  have "stays v (bind (cmd_at i) (\<lambda>c.
      seq (say_regs h ''- EMMC: Command %s resp %x: %x %x %x %x'' [Txt (c_name c), Num (ucast r)]
             [EMMC_RESP3, EMMC_RESP2, EMMC_RESP1, EMMC_RESP0])
      (seq (say_regs h ''- EMMC: Status: %x, control1: %x, interrupt: %x'' []
             [EMMC_STATUS, EMMC_CONTROL1, EMMC_INTERRUPT]) (ret r)))) (\<lambda>r'. r' = r)"
    using i(2) by (simp add: cmd_at_def length_table stays_io stays_ret io_rules)
  then show "runs (sdDebugResponse h r) s (\<lambda>r' t. live v t \<and> r' = r)"
    using s unfolding sdDebugResponse_def by (simp add: stays_def deref_def i(1))
qed

lemma coded_debug: "not_card_code r \<Longrightarrow> coded v (sdDebugResponse h r)"
  using stays_debug unfolding coded_stays stays_def by (fastforce elim: runs_mono)

lemma coded_P: "ix < 39 \<Longrightarrow> coded v (sdSendCommandP h ix arg)"
  unfolding coded_def live_def by (auto elim!: runs_mono intro!: runs_mono [OF sdSendCommandP_run])

lemma coded_app: "coded v (sdSendAppCommand h)"
  unfolding sdSendAppCommand_def
  by (intro coded_get coded_if coded_bind coded_P coded_ret coded_debug)
   (simp_all add: sd_ix)

lemma coded_command: "ix < 39 \<Longrightarrow> coded v (sdSendCommand h ix)" "ix < 39 \<Longrightarrow> coded v (sdSendCommandA h ix arg)"
proof -
  assume ix: "ix < 39"
  have pre: "coded v (app_prefix h ix)" unfolding app_prefix_def by (simp add: coded_app coded_ret)
  have chk: "coded v (app_check ix r)" if "not_card_code r" for r
    unfolding app_check_def by (intro coded_get coded_ret) (use that in simp)
  have at: "cmd_at ix = ret (sdCommandTable ! ix)" using ix by (simp add: cmd_at_def length_table)
  show "coded v (sdSendCommandA h ix arg)"
    unfolding sdSendCommandA_def by (intro coded_bind coded_if coded_P pre coded_debug coded_ret chk ix)
  show "coded v (sdSendCommand h ix)"
    unfolding sdSendCommand_def at bind_ret_left
    by (intro coded_bind coded_if coded_get coded_P pre coded_debug coded_ret chk ix)
qed

lemma stays_bind:
  assumes "stays v m P" "\<And>r. P r \<Longrightarrow> stays v (f r) Q"
  shows "stays v (bind m f) Q"
  using assms unfolding stays_def by (blast intro: runs_bind)

lemma stays_card:
  assumes "\<And>c. card_wf c \<Longrightarrow> card_wf (g c)" "\<And>c. sd_lastCmd (g c) = sd_lastCmd c" "\<And>c. sd_initd (g c) = sd_initd c"
  shows "stays v (set_card g) (\<lambda>_. True)"
  using assms by (simp add: stays_def live_def)

lemma stays_scr_words: "0 < c \<Longrightarrow> stays v (scr_words h r c) (\<lambda>_. True)"
proof (induction h r c rule: scr_words.induct)
  case (3 h r c)
  have a: "stays v (bind (rdreg h EMMC_DATA) (\<lambda>v. set_card (\<lambda>d. d\<lparr>sd_scr := (sd_scr d)[2 - Suc r := v]\<rparr>))) (\<lambda>_. True)"
    by (intro stays_io io_rules stays_card) (simp_all add: card_wf_def)
  show ?case
    unfolding scr_words.simps
  proof (rule stays_io, intro io_rules)
    fix x
    show "stays v (if x then seq (bind (rdreg h EMMC_DATA) (\<lambda>v. set_card (\<lambda>d. d\<lparr>sd_scr := (sd_scr d)[2 - Suc r := v]\<rparr>)))
         (scr_words h r (Suc c))
       else seq (sd_delayus h 1) (if c = 0 then ret (2 - Suc r) else scr_words h (Suc r) c)) (\<lambda>_. True)"
      using 3 by (cases x; cases "c = 0")
        (simp_all add: stays_bind [OF a [simplified]] stays_io io_rules stays_ret)
  qed
qed (simp_all add: stays_ret)

lemma coded_wait: "coded v (sdWaitForInterrupt h m)"
  unfolding coded_def live_def by (auto intro!: runs_mono [OF wait_interrupt_run])

lemma coded_scr_finish: "coded v (scr_finish h n)"
  unfolding scr_finish_def
  by (intro coded_if coded_io [of "say_regs _ _ _ _"] coded_io [of "say _ _"] io_rules coded_set_card coded_ret)
   (simp_all add: card_wf_def)

lemma coded_scr_words: "coded v (bind (scr_words h 2 100000) (scr_finish h))"
  unfolding coded_stays
  by (rule stays_bind [OF stays_scr_words]) (simp_all add: coded_scr_finish [unfolded coded_stays])

lemma coded_scr: "coded v (sdReadSCR h)"
  unfolding sdReadSCR_def
  by (intro coded_io [of "sdWaitForData h"] coded_io [of "wrreg _ _ _"] coded_io [of "say _ _"] io_rules coded_if
      coded_bind [OF coded_command(1)] coded_bind [OF coded_wait] coded_ret coded_debug coded_scr_words)
   (simp_all add: sd_ix)

text \<open>The mailbox, as far as it returns, leaves the descriptor alone.\<close>

definition quiet :: "('d sdstate, 'a) kop \<Rightarrow> bool" where
  "quiet m \<longleftrightarrow> (\<forall>s x t. m s = Inr (x, t) \<longrightarrow> sdCard t = sdCard s)"

lemma quiet_io:
  assumes "io m"
  shows "quiet m"
  unfolding quiet_def
proof (intro allI impI)
  fix s x t assume "m s = Inr (x, t)"
  moreover have "runs m s (\<lambda>_ t. sdCard t = sdCard s)" using assms by (simp add: io_def)
  ultimately show "sdCard t = sdCard s" by (simp add: runs_def)
qed

lemma quiet_bind: "quiet m \<Longrightarrow> (\<And>x. quiet (f x)) \<Longrightarrow> quiet (bind m f)"
  unfolding quiet_def by (metis bind_InrE)

lemma quiet_stop: "quiet (stop e)"
  by (simp add: quiet_def stop_def)

lemma quiet_if: "quiet m \<Longrightarrow> quiet n \<Longrightarrow> quiet (if b then m else n)"
  by simp

lemma quiet_spin: "io c \<Longrightarrow> quiet (spin_while c n)"
  by (induction n) (auto intro!: quiet_bind quiet_stop intro: quiet_io [OF io_basic(1)] quiet_io)

lemma quiet_read: "quiet (mbox_read_loop h n chan k)"
  by (induction k)
    (auto intro!: quiet_bind quiet_stop quiet_spin io_tests(1) intro: quiet_io [OF io_basic(1)] quiet_io [OF io_basic(3)]
      quiet_io [OF io_basic(7)])

lemma quiet_clock_rate: "quiet (mbox_get_clock_rate h n)"
  unfolding mbox_get_clock_rate_def mbox_exchange_def mbox_write_def mbox_read_def
  by (intro quiet_bind quiet_if quiet_stop quiet_spin quiet_read io_tests(1) quiet_io [OF io_basic(1)]
      quiet_io [OF io_basic(2)] quiet_io [OF io_basic(4)] quiet_io [OF io_basic(7)])

definition mbox_answers :: "'d hw \<Rightarrow> nat \<Rightarrow> bool" where
  "mbox_answers h n \<longleftrightarrow> (\<forall>s. \<exists>c t. mbox_get_clock_rate h n s = Inr (c, t))"

lemma io_clock_rate: "mbox_answers h n \<Longrightarrow> io (mbox_get_clock_rate h n)"
  using quiet_clock_rate [of h n] by (fastforce simp: quiet_def mbox_answers_def io_def runs_def)

text \<open>ACMD41 and its retries.\<close>

definition early :: "u32 option \<Rightarrow> bool" where
  "early e \<longleftrightarrow> (\<forall>r. e = Some r \<longrightarrow> r \<noteq> 0 \<and> not_card_code r)"

lemma early_None [simp]: "early None"
  by (simp add: early_def)

lemma stays_early:
  assumes "stays v m early" "coded v k"
  shows "coded v (unless_early m k)"
  unfolding unless_early_def coded_stays
proof (rule stays_bind [OF assms(1)])
  fix e assume "early e"
  then show "stays v (case e of None \<Rightarrow> k | Some r \<Rightarrow> ret r) not_card_code"
    using assms(2) by (cases e) (auto intro: stays_ret simp: early_def coded_stays)
qed

lemma stays_opcond_send: "stays v (opcond_send h arg) early"
  unfolding opcond_send_def
proof (rule stays_bind [OF coded_command(2) [unfolded coded_stays]])
  show "IX_APP_SEND_OP_COND < 39" by (simp add: sd_ix)
  fix r assume "not_card_code r"
  then show "stays v (if r \<noteq> 0 \<and> r \<noteq> SD_TIMEOUT
      then seq (say ''* EMMC: ACMD41 returned non-timeout error %d'' [Num (ucast r)]) (ret (Some r))
      else ret None) early"
    by (auto intro!: stays_io io_basic stays_ret simp: early_def)
qed

lemma stays_get:
  assumes "\<And>x. stays v (f x) P"
  shows "stays v (bind (get g) f) P"
  using assms by (simp add: stays_def)

lemma stays_opcond_retry: "stays v (opcond_retry h arg n) early"
proof (induction n)
  case (Suc n)
  have "stays v (case e of Some r \<Rightarrow> ret (Some r) | None \<Rightarrow> opcond_retry h arg n) early" if "early e" for e
    using that Suc by (cases e) (auto intro: stays_ret)
  then show ?case
    by (auto intro!: stays_get stays_ret stays_io io_rules stays_bind [OF stays_opcond_send])
qed (simp add: stays_ret)

lemma coded_opcond: "coded v (sdAppSendOpCond h arg)"
  unfolding sdAppSendOpCond_def opcond_verdict_def
  by (intro coded_io io_rules stays_early stays_opcond_send stays_opcond_retry coded_get coded_if coded_ret) simp_all

section \<open>Initialisation ends, and says what it did\<close>

text \<open>
  \<open>staged v m\<close>: as \<open>coded\<close>, except that a code other than 0 may leave no last command: a second reset
  clears it. \<open>finishes m\<close>: from a card not initialised, the flag ends up set exactly with one of the
  two success codes.
\<close>

definition staged :: "u32 \<Rightarrow> ('d sdstate, u32) kop \<Rightarrow> bool" where
  "staged v m \<longleftrightarrow> (\<forall>s. live v s \<longrightarrow> runs m s (\<lambda>r t. card_wf (sdCard t) \<and> sd_initd (sdCard t) = v \<and>
     not_card_code r \<and> (r = 0 \<longrightarrow> live v t)))"

definition card_done :: "SDDescriptor \<Rightarrow> u32 \<Rightarrow> bool" where
  "card_done c r \<longleftrightarrow> card_wf c \<and> r \<noteq> SD_OK \<and> (sd_initd c \<noteq> 0 \<longleftrightarrow> r \<in> {SD_CARD_CHANGED, SD_CARD_REINSERTED})"

definition finishes :: "('d sdstate, u32) kop \<Rightarrow> bool" where
  "finishes m \<longleftrightarrow> (\<forall>s. live 0 s \<longrightarrow> runs m s (\<lambda>r t. card_done (sdCard t) r))"

lemma staged_coded: "coded v m \<Longrightarrow> staged v m"
  unfolding coded_def staged_def by (auto elim!: runs_mono simp: live_def)

lemma staged_io:
  assumes "io m" "\<And>x. staged v (f x)"
  shows "staged v (bind m f)"
  using assms unfolding staged_def live_def by (metis (mono_tags, lifting) runs_io_bind)

lemma finishes_debug:
  assumes "coded 0 m" "finishes k"
  shows "finishes (or_debug h m k)"
  unfolding finishes_def or_debug_def
proof (intro allI impI)
  fix s :: "'a sdstate" assume "live 0 s"
  then have "runs m s (\<lambda>r t. live 0 t \<and> not_card_code r)" using assms(1) by (simp add: coded_def)
  then show "runs (bind m (\<lambda>r. if r \<noteq> 0 then sdDebugResponse h r else k)) s (\<lambda>r t. card_done (sdCard t) r)"
  proof (rule runs_bind)
    fix r and t :: "'a sdstate" assume t: "live 0 t \<and> not_card_code r"
    have "runs (sdDebugResponse h r) t (\<lambda>r t. card_done (sdCard t) r)" if "r \<noteq> 0"
      using stays_debug [of 0 h r] t that
      by (auto simp: stays_def card_done_def live_def not_card_code_def SD_OK_def elim!: runs_mono)
    then show "runs (if r \<noteq> 0 then sdDebugResponse h r else k) t (\<lambda>r t. card_done (sdCard t) r)"
      using assms(2) t by (auto simp: finishes_def)
  qed
qed

lemma finishes_return:
  assumes "staged 0 m" "finishes k"
  shows "finishes (or_return m k)"
  unfolding finishes_def or_return_def
proof (intro allI impI)
  fix s :: "'a sdstate" assume "live 0 s"
  then have "runs m s (\<lambda>r t. card_wf (sdCard t) \<and> sd_initd (sdCard t) = 0 \<and> not_card_code r \<and> (r = 0 \<longrightarrow> live 0 t))"
    using assms(1) by (simp add: staged_def)
  then show "runs (bind m (\<lambda>r. if r \<noteq> 0 then ret r else k)) s (\<lambda>r t. card_done (sdCard t) r)"
    by (rule runs_bind) (use assms(2) in \<open>auto simp: finishes_def card_done_def not_card_code_def SD_OK_def\<close>)
qed

lemma finishes_io:
  assumes "io m" "\<And>x. finishes (f x)"
  shows "finishes (bind m f)"
  using assms unfolding finishes_def live_def by (metis (mono_tags, lifting) runs_io_bind)

lemma finishes_get:
  assumes "\<And>x. finishes (f x)"
  shows "finishes (bind (get g) f)"
  using assms by (simp add: finishes_def)

lemma io_clock_wait: "io (poll_pre (rd_any h r m) (sd_delayus h 1) 100000)"
  by (intro io_poll_pre io_rules) simp

text \<open>\<open>iocodes m\<close>: \<open>m\<close> leaves the descriptor alone and its code is none of the two of success.\<close>

definition iocodes :: "('d sdstate, u32) kop \<Rightarrow> bool" where
  "iocodes m \<longleftrightarrow> (\<forall>s. runs m s (\<lambda>r t. sdCard t = sdCard s \<and> not_card_code r))"

lemma iocodes_io:
  fixes m :: "('d sdstate, 'a) kop"
  assumes "io m" "\<And>x. iocodes (f x)"
  shows "iocodes (bind m f)"
  unfolding iocodes_def
proof
  fix s :: "'d sdstate"
  show "runs (bind m f) s (\<lambda>r t. sdCard t = sdCard s \<and> not_card_code r)"
  proof (rule runs_io_bind [OF assms(1)])
    fix x and t :: "'d sdstate" assume e: "sdCard t = sdCard s"
    show "runs (f x) t (\<lambda>r u. sdCard u = sdCard s \<and> not_card_code r)"
      using assms(2) [of x] unfolding iocodes_def e [symmetric] by blast
  qed
qed

lemma iocodes_ret: "not_card_code r \<Longrightarrow> iocodes (ret r)"
  by (simp add: iocodes_def)

lemma iocodes_if: "iocodes m \<Longrightarrow> iocodes n \<Longrightarrow> iocodes (if b then m else n)"
  by simp

lemma iocodes_set_clock:
  assumes "freq \<noteq> 0"
  shows "iocodes (sdSetClock h freq)"
  unfolding sdSetClock_def
  by (intro iocodes_if iocodes_io [OF io_clock_wait] iocodes_io [OF io_divider [OF assms]] iocodes_io [OF io_say_regs]
      iocodes_io [of "say _ _"] iocodes_io [of "sd_delayus _ _"] iocodes_io [of "poll_post _ _ _"]
      iocodes_io [of "bind (rdreg _ _) _"] io_rules iocodes_ret) simp_all

lemma coded_set_clock: "freq \<noteq> 0 \<Longrightarrow> coded v (sdSetClock h freq)"
  unfolding coded_def live_def
  by (auto intro!: runs_mono [OF iocodes_set_clock [unfolded iocodes_def, THEN spec]])

lemma stays_parse_cid: "stays v sdParseCID (\<lambda>_. True)"
  unfolding stays_def
proof (intro allI impI)
  fix s :: "'a sdstate" assume s: "live v s"
  then have "unat (sd_type (sdCard s)) < length SD_TYPE_NAME"
    by (simp add: live_def card_wf_def SD_TYPE_NAME_def)
  then show "runs sdParseCID s (\<lambda>_ t. live v t \<and> True)"
    using s by (simp add: sdParseCID_def say_def Let_def live_def)
qed

lemma finishes_stays:
  assumes "stays 0 m (\<lambda>_. True)" "\<And>x. finishes (f x)"
  shows "finishes (bind m f)"
  using assms unfolding stays_def finishes_def by (metis (mono_tags, lifting) runs_bind)

lemma finishes_setup: "finishes (sd_setup_card h oldCID)"
proof -
  have "finishes (seq (set_card (\<lambda>c. c\<lparr>sd_initd := 1\<rparr>)) (bind (get (\<lambda>s. sd_cid (sdCard s)))
      (\<lambda>cid. ret (if oldCID = cid then SD_CARD_REINSERTED else SD_CARD_CHANGED))))"
    by (simp add: finishes_def live_def card_done_def card_wf_def sd_codes)
  note tail = finishes_stays [OF stays_parse_cid this]
  have width: "coded 0 (if w \<noteq> 0 then bind (get (\<lambda>s. sd_rca (sdCard s) OR 2)) (sdSendCommandA h IX_SET_BUS_WIDTH)
      else ret SD_OK)" for w :: u32
    by (intro coded_if coded_get coded_command coded_ret) (simp_all add: sd_ix)
  show ?thesis
    unfolding sd_setup_card_def
    by (intro finishes_debug coded_command coded_scr finishes_get finishes_io io_rules tail width) (simp_all add: sd_ix)
qed

lemma card_wf_parse_csd: "card_wf c \<Longrightarrow> card_wf (sdParseCSD c)"
  "sd_lastCmd (sdParseCSD c) = sd_lastCmd c" "sd_initd (sdParseCSD c) = sd_initd c"
  by (simp_all add: sdParseCSD_def Let_def card_wf_def)

lemma finishes_fail:
  fixes k :: "('d sdstate, u32) kop"
  assumes "finishes k"
  shows "finishes (if b then seq (say m as) (ret SD_ERROR) else k)"
proof -
  have "finishes (seq (say m as) (ret SD_ERROR) :: ('d sdstate, u32) kop)"
    by (rule finishes_io [OF io_basic(7)]) (simp add: finishes_def live_def card_done_def sd_codes)
  then show ?thesis using assms by simp
qed

lemma finishes_identify: "finishes (sd_identify h oldCID)"
proof -
  have f: "finishes (if f \<noteq> 0x4 \<and> f \<noteq> 0x0 then
       seq (say ''* EMMC: Error, unrecognised file format %02x'' [Num (ucast f)]) (ret SD_ERROR)
     else or_debug h (sdSetClock h FREQ_NORMAL) (sd_setup_card h oldCID))" for f :: u32
    by (intro finishes_fail finishes_debug coded_set_clock finishes_setup) (simp_all add: FREQ_NORMAL_def)
  have volt: "coded 0 (bind (get (\<lambda>s. sd_ocr (sdCard s) AND R3_S18A)) (\<lambda>v. if v \<noteq> 0 then sdSwitchVoltage else ret SD_OK))"
    unfolding sdSwitchVoltage_def by (intro coded_get coded_if coded_io io_basic coded_ret) simp_all
  show ?thesis
    unfolding sd_identify_def
    by (intro finishes_return [OF staged_coded [OF volt]] finishes_debug coded_command
        finishes_stays [OF stays_card] finishes_get f)
     (simp_all add: sd_ix card_wf_parse_csd)
qed

text \<open>The reset clears the last command and then sends one, so its success makes the card \<open>live\<close>.\<close>

definition settled :: "u32 \<Rightarrow> u32 \<Rightarrow> 'd sdstate \<Rightarrow> bool" where
  "settled v r t \<longleftrightarrow> card_wf (sdCard t) \<and> sd_initd (sdCard t) = v \<and> not_card_code r \<and> (r = 0 \<longrightarrow> live v t)"

definition resets :: "u32 \<Rightarrow> ('d sdstate, u32) kop \<Rightarrow> bool" where
  "resets v m \<longleftrightarrow> (\<forall>s. card_wf (sdCard s) \<and> sd_initd (sdCard s) = v \<longrightarrow> runs m s (settled v))"

lemma resets_io:
  assumes "io m" "\<And>x. resets v (f x)"
  shows "resets v (bind m f)"
  using assms unfolding resets_def by (metis (mono_tags, lifting) runs_io_bind)

lemma resets_ret: "r \<noteq> 0 \<Longrightarrow> not_card_code r \<Longrightarrow> resets v (ret r)"
  by (simp add: resets_def settled_def)

lemma resets_if: "resets v m \<Longrightarrow> resets v n \<Longrightarrow> resets v (if b then m else n)"
  by simp

lemma resets_iocodes:
  assumes "iocodes m" "resets v k"
  shows "resets v (or_return m k)"
  unfolding resets_def or_return_def
proof (intro allI impI)
  fix s :: "'a sdstate" assume s: "card_wf (sdCard s) \<and> sd_initd (sdCard s) = v"
  have "runs m s (\<lambda>r t. sdCard t = sdCard s \<and> not_card_code r)" using assms(1) by (simp add: iocodes_def)
  then show "runs (bind m (\<lambda>r. if r \<noteq> 0 then ret r else k)) s (settled v)"
    by (rule runs_bind) (use s assms(2) in \<open>auto simp: resets_def settled_def\<close>)
qed

lemma go_idle_settles: "resets v (seq (set_card (\<lambda>c. c\<lparr>sd_rca := 0, sd_ocr := 0, sd_lastArg := 0, sd_lastCmd := None,
     sd_status := 0, sd_type := 0, sd_uhsi := 0\<rparr>)) (seq (say m as) (sdSendCommand h IX_GO_IDLE_STATE)))"
  unfolding resets_def
proof (intro allI impI)
  fix s :: "'a sdstate" assume s: "card_wf (sdCard s) \<and> sd_initd (sdCard s) = v"
  have send0: "runs (bind (sdSendCommandP h 0 arg) (\<lambda>r. if r \<noteq> 0 then ret r else app_check 0 r)) t (settled v)"
    if "card_wf (sdCard t)" "sd_initd (sdCard t) = v" for t :: "'a sdstate" and arg
    by (rule runs_bind [OF sdSendCommandP_run])
      (use that in \<open>auto simp: settled_def live_def app_check_def IX_APP_CMD_START_def\<close>)
  have send: "runs (sdSendCommand h IX_GO_IDLE_STATE) t (settled v)" if "card_wf (sdCard t)" "sd_initd (sdCard t) = v"
    for t :: "'a sdstate"
    unfolding sdSendCommand_def app_prefix_def cmd_at_def IX_GO_IDLE_STATE_def
    using that by (simp add: length_table IX_APP_CMD_START_def send0)
  show "runs (seq (set_card (\<lambda>c. c\<lparr>sd_rca := 0, sd_ocr := 0, sd_lastArg := 0, sd_lastCmd := None,
     sd_status := 0, sd_type := 0, sd_uhsi := 0\<rparr>)) (seq (say m as) (sdSendCommand h IX_GO_IDLE_STATE))) s (settled v)"
    unfolding runs_set_card
    by (rule runs_io_bind [OF io_basic(7)], rule send) (use s in \<open>simp_all add: card_wf_def\<close>)
qed

lemma resets_reset: "resets v (sdResetCard h C1_SRST_HC)"
  unfolding sdResetCard_def
  by (intro resets_if resets_io [of "wrreg _ _ _"] resets_io [of "bind (rdreg _ _) _"] resets_io [of "sd_delayus _ _"]
      resets_io [of "poll_post _ _ _"] resets_io [of "say _ _"] io_rules resets_ret resets_iocodes iocodes_set_clock
      go_idle_settles)
   (simp_all add: sd_codes FREQ_SETUP_def not_card_code_def)

lemma staged_return:
  assumes "staged v m" "staged v k"
  shows "staged v (or_return m k)"
  unfolding staged_def or_return_def
proof (intro allI impI)
  fix s :: "'a sdstate" assume "live v s"
  then have "runs m s (\<lambda>r t. card_wf (sdCard t) \<and> sd_initd (sdCard t) = v \<and> not_card_code r \<and> (r = 0 \<longrightarrow> live v t))"
    using assms(1) by (simp add: staged_def)
  then show "runs (bind m (\<lambda>r. if r \<noteq> 0 then ret r else k)) s (\<lambda>r t. card_wf (sdCard t) \<and>
      sd_initd (sdCard t) = v \<and> not_card_code r \<and> (r = 0 \<longrightarrow> live v t))"
    by (rule runs_bind) (use assms(2) in \<open>auto simp: staged_def\<close>)
qed

lemma staged_if: "staged v m \<Longrightarrow> staged v n \<Longrightarrow> staged v (if b then m else n)"
  by simp

lemma staged_resets: "resets v m \<Longrightarrow> staged v m"
  unfolding resets_def staged_def settled_def live_def by auto

lemma coded_or_debug: "coded v m \<Longrightarrow> coded v k \<Longrightarrow> coded v (or_debug h m k)"
  unfolding or_debug_def by (intro coded_bind coded_if coded_debug)

lemma staged_old_card: "staged v (sd_old_card h)"
  unfolding sd_old_card_def
  by (intro staged_io [of "say _ _"] staged_io [of "rd_any _ _ _"] io_rules staged_return staged_if staged_resets [OF resets_reset]
      staged_coded coded_ret coded_or_debug coded_opcond coded_set_card)
   (simp_all add: card_wf_def SD_TYPE_1_def)

lemma coded_new_card: "coded v (sd_new_card h)"
  unfolding sd_new_card_def
  by (intro coded_io [of "delay _ _"] io_rules coded_or_debug coded_opcond coded_set_card coded_ret)
   (simp_all add: card_wf_def SD_TYPE_2_HC_def SD_TYPE_2_SC_def)

lemma staged_bind:
  assumes "coded v m" "\<And>r. not_card_code r \<Longrightarrow> staged v (f r)"
  shows "staged v (bind m f)"
  using assms unfolding coded_def staged_def by (blast intro: runs_bind)

lemma staged_resolve: "staged v (sd_resolve h)"
  unfolding sd_resolve_def
  by (intro staged_bind coded_command staged_io [OF io_basic(7)] staged_if staged_coded [OF coded_new_card]
      staged_old_card staged_coded [OF coded_ret])
   (simp_all add: sd_ix)

lemma iocodes_base_clock:
  assumes "mbox_answers h n"
  shows "iocodes (sdGetBaseClock h n)"
  unfolding sdGetBaseClock_def
  by (intro iocodes_io [OF io_clock_rate [OF assms]] iocodes_io [of "upd _"] iocodes_io [of "say _ _"] io_rules
      iocodes_if iocodes_ret) simp_all

definition begins :: "('d sdstate, u32) kop \<Rightarrow> bool" where
  "begins m \<longleftrightarrow> (\<forall>s. card_wf (sdCard s) \<and> sd_initd (sdCard s) = 0 \<longrightarrow> runs m s (\<lambda>r t. card_done (sdCard t) r))"

lemma begins_io:
  assumes "io m" "\<And>x. begins (f x)"
  shows "begins (bind m f)"
  using assms unfolding begins_def by (metis (mono_tags, lifting) runs_io_bind)

lemma begins_iocodes:
  assumes "iocodes m" "begins k"
  shows "begins (or_return m k)"
  unfolding begins_def or_return_def
proof (intro allI impI)
  fix s :: "'a sdstate" assume s: "card_wf (sdCard s) \<and> sd_initd (sdCard s) = 0"
  have "runs m s (\<lambda>r t. sdCard t = sdCard s \<and> not_card_code r)" using assms(1) by (simp add: iocodes_def)
  then show "runs (bind m (\<lambda>r. if r \<noteq> 0 then ret r else k)) s (\<lambda>r t. card_done (sdCard t) r)"
    by (rule runs_bind) (use s assms(2) in \<open>auto simp: begins_def card_done_def not_card_code_def SD_OK_def\<close>)
qed

lemma begins_reset:
  assumes "resets 0 m" "finishes k"
  shows "begins (or_return m k)"
  unfolding begins_def or_return_def
proof (intro allI impI)
  fix s :: "'a sdstate" assume "card_wf (sdCard s) \<and> sd_initd (sdCard s) = 0"
  then have "runs m s (settled 0)" using assms(1) by (simp add: resets_def)
  then show "runs (bind m (\<lambda>r. if r \<noteq> 0 then ret r else k)) s (\<lambda>r t. card_done (sdCard t) r)"
    by (rule runs_bind)
     (use assms(2) in \<open>auto simp: finishes_def settled_def card_done_def not_card_code_def SD_OK_def\<close>)
qed

lemma begins_card:
  assumes "\<And>c. card_wf c \<Longrightarrow> card_wf (g c)" "\<And>c. sd_initd (g c) = sd_initd c"
    and "begins k"
  shows "begins (seq (set_card g) k)"
  using assms by (simp add: begins_def)

lemma begins_bring_up: "mbox_answers h n \<Longrightarrow> begins (sd_bring_up h n oldCID)"
  unfolding sd_bring_up_def
  by (intro begins_io [of "bind (rdreg _ _) _"] begins_io [OF io_basic(7)] io_rules begins_iocodes iocodes_base_clock
      begins_reset resets_reset finishes_return staged_resolve finishes_identify)

lemma card_wf_flags [simp]:
  "card_wf (c\<lparr>sd_absent := x\<rparr>) = card_wf c" "card_wf (c\<lparr>sd_initd := y\<rparr>) = card_wf c"
  by (simp_all add: card_wf_def)

text \<open>The outcome of \<open>sdInit\<close>, given whether the card had been initialised before.\<close>

definition sd_outcome :: "u32 \<Rightarrow> SDDescriptor \<Rightarrow> u32 \<Rightarrow> bool" where
  "sd_outcome i c r \<longleftrightarrow> card_wf c \<and> (r = SD_OK \<longrightarrow> i \<noteq> 0) \<and>
     (sd_initd c \<noteq> 0 \<longleftrightarrow> r \<in> {SD_OK, SD_CARD_CHANGED, SD_CARD_REINSERTED})"

lemma sd_outcome_ok: "card_wf c \<Longrightarrow> sd_initd c \<noteq> 0 \<Longrightarrow> sd_outcome (sd_initd c) (c\<lparr>sd_absent := a\<rparr>) SD_OK"
  by (simp add: sd_outcome_def)

lemma check_card_run:
  fixes s :: "'d sdstate"
  assumes "mbox_answers h n" and "card_wf (sdCard s)" and "i = sd_initd (sdCard s)"
  shows "runs (sd_check_card h n i e) s (\<lambda>r t. sd_outcome i (sdCard t) r)"
proof -
  have up: "runs (sd_bring_up h n cid) t (\<lambda>r u. sd_outcome j (sdCard u) r)"
    if "card_wf (sdCard t)" "sd_initd (sdCard t) = 0" for t :: "'d sdstate" and cid j
  proof (rule runs_mono)
    show "runs (sd_bring_up h n cid) t (\<lambda>r u. card_done (sdCard u) r)"
      using begins_bring_up [OF assms(1)] that by (simp add: begins_def)
  qed (auto simp: card_done_def sd_outcome_def)
  show ?thesis
    unfolding sd_check_card_def
    using assms(2,3) by (auto simp: sd_outcome_ok intro!: up)
qed

text \<open>
  C38. Initialisation against an arbitrary card. Whatever the registers of the controller return, and
  however they change, if the mailbox answers within its polls then \<open>sdInit\<close> returns: no wait is
  unbounded, no response type is unknown, no null command is followed when a response is reported.
  The descriptor stays well formed, and the card is marked initialised exactly when the code is one
  of \<open>SD_OK\<close>, \<open>SD_CARD_CHANGED\<close> (10), \<open>SD_CARD_REINSERTED\<close> (12): no error bits of a response can be
  mistaken for them. The comment above the routine says that it returns zero for success and
  non-zero otherwise; zero is returned only for a card that was initialised before the call, and
  every successful initialisation returns one of the two other codes.
\<close>

theorem sdInit_outcome:
  assumes "mbox_answers h n" and "card_wf (sdCard s)"
  shows "\<exists>r t. sdInit h n s = Inr (r, t) \<and> card_wf (sdCard t) \<and>
     (sd_initd (sdCard t) \<noteq> 0 \<longleftrightarrow> r \<in> {SD_OK, SD_CARD_CHANGED, SD_CARD_REINSERTED}) \<and>
     (sd_initd (sdCard s) = 0 \<and> sd_initd (sdCard t) \<noteq> 0 \<longrightarrow> r = 10 \<or> r = 12)"
proof -
  have "runs (sdInit h n) s (\<lambda>r t. sd_outcome (sd_initd (sdCard s)) (sdCard t) r)"
    unfolding sdInit_def runs_get_bind
  proof (rule runs_io_bind)
    show "io (if sd_initd (sdCard s) = 0 then sdInitGPIO h else ret ())" by (intro io_rules)
  next
    fix x and t :: "'a sdstate" assume t: "sdCard t = sdCard s"
    show "runs (bind (rdreg h GPEDS1) (\<lambda>g. if cardAbsent \<noteq> 0 then sd_no_card
        else sd_check_card h n (sd_initd (sdCard s)) (g AND push_bit 15 1))) t
        (\<lambda>r t. sd_outcome (sd_initd (sdCard s)) (sdCard t) r)"
      by (rule runs_io_bind [OF io_basic(3)]) (use assms t in \<open>simp add: cardAbsent_def check_card_run\<close>)
  qed
  then show ?thesis by (auto simp: runs_def sd_outcome_def SD_CARD_CHANGED_def SD_CARD_REINSERTED_def)
qed

section \<open>Deadlines\<close>

lemma delay_pow:
  "((\<lambda>s. s\<lparr>dev := hw_usec h c (dev s)\<rparr>) ^^ j) s = s\<lparr>dev := (hw_usec h c ^^ j) (dev s)\<rparr>"
  by (induction j) simp_all

lemma wait_poll_run:
  assumes rd: "\<And>d. hw_rd h EMMC_INTERRUPT d = (irq d, d)"
    and before: "\<And>j. j < k \<Longrightarrow> irq ((hw_usec h 3 ^^ j) (dev s)) AND (m OR INT_ERROR_MASK) = 0"
    and at: "irq ((hw_usec h 3 ^^ k) (dev s)) AND (m OR INT_ERROR_MASK) \<noteq> 0"
  shows "poll_post (not_k (rd_any h EMMC_INTERRUPT (m OR INT_ERROR_MASK))) (sd_delayus h 1) n s =
     Inr (if k \<le> n then int n - int k else -1, s\<lparr>dev := (hw_usec h 3 ^^ min k n) (dev s)\<rparr>)"
proof -
  have c: "not_k (rd_any h EMMC_INTERRUPT (m OR INT_ERROR_MASK)) t = Inr (irq (dev t) AND (m OR INT_ERROR_MASK) = 0, t)" for t
    by (simp add: not_k_def rd_any_def rdreg_def bind_def ret_def rd)
  have b: "sd_delayus h 1 t = Inr ((), t\<lparr>dev := hw_usec h 3 (dev t)\<rparr>)" for t
    by (simp add: sd_delayus_def upd_def)
  show ?thesis
    using poll_post_count [of _ "\<lambda>t. irq (dev t) AND (m OR INT_ERROR_MASK) = 0", OF c b, where s = s and k = k and n = n]
      before at by (simp add: delay_pow)
qed

lemma or_eq_0_both: "(a OR b :: u32) = 0 \<longleftrightarrow> a = 0 \<and> b = 0"
  by (simp add: or_eq_0_iff)

text \<open>
  C39. The deadline of \<open>sdWaitForInterrupt\<close>. A controller raises the interrupt waited for, without an
  error, after \<open>k\<close> delays of a (nominal) microsecond. The wait succeeds, clearing only this
  interrupt, exactly when \<open>k\<close> is below a million. At exactly a million the loop leaves with the
  interrupt present and \<open>count = 0\<close>: the wait reports a timeout and clears every interrupt.
\<close>

theorem sd_wait_deadline:
  assumes "\<And>d. hw_rd h EMMC_INTERRUPT d = (irq d, d)"
    and "\<And>j. j < k \<Longrightarrow> irq ((hw_usec h 3 ^^ j) (dev s)) = 0"
    and "irq ((hw_usec h 3 ^^ k) (dev s)) AND msk \<noteq> 0"
    and "irq ((hw_usec h 3 ^^ k) (dev s)) AND (INT_ERROR_MASK OR INT_CMD_TIMEOUT) = 0"
  defines "d \<equiv> (hw_usec h 3 ^^ min k 1000000) (dev s)"
  shows "sdWaitForInterrupt h msk s =
     (if k < 1000000 then Inr (SD_OK, s\<lparr>dev := hw_wr h EMMC_INTERRUPT msk d\<rparr>)
      else Inr (SD_TIMEOUT, s\<lparr>dev := hw_wr h EMMC_INTERRUPT (irq d) d\<rparr>))"
proof -
  have "irq ((hw_usec h 3 ^^ k) (dev s)) AND (msk OR INT_ERROR_MASK) \<noteq> 0"
    using assms(3) by (simp add: bit.conj_disj_distrib or_eq_0_both)
  then have p: "poll_post (not_k (rd_any h EMMC_INTERRUPT (msk OR INT_ERROR_MASK))) (sd_delayus h 1) 1000000 s =
     Inr (if k \<le> 1000000 then 1000000 - int k else -1, s\<lparr>dev := d\<rparr>)"
    using wait_poll_run [OF assms(1), of k s msk 1000000] assms(2) by (simp add: d_def)
  have errs: "irq d AND INT_CMD_TIMEOUT = 0" "irq d AND INT_ERROR_MASK = 0" if "k \<le> 1000000"
    using that assms(4) by (simp_all add: d_def min_def bit.conj_disj_distrib or_eq_0_both)
  have "irq d AND INT_DATA_TIMEOUT = 0" if "k \<le> 1000000"
  proof -
    have "INT_DATA_TIMEOUT = INT_ERROR_MASK AND INT_DATA_TIMEOUT"
      by (simp add: INT_ERROR_MASK_def INT_DATA_TIMEOUT_def INT_CRC_ERROR_def INT_END_ERROR_def INT_INDEX_ERROR_def
          INT_DATA_CRC_ERR_def INT_DATA_END_ERR_def INT_ERR_def INT_AUTO_ERROR_def)
    then show ?thesis using errs(2) [OF that] by (metis and.assoc bit.conj_zero_left)
  qed
  with errs show ?thesis
    by (auto simp: sdWaitForInterrupt_def interrupt_verdict_def bind_def p rdreg_def assms(1) wrreg_def upd_def ret_def)
qed

section \<open>Arithmetic of the clock\<close>

lemma lt64: "unat (x :: u64) < 2 ^ n \<longleftrightarrow> take_bit n x = x"
  by (metis unsigned_take_bit_eq take_bit_nat_eq_self_iff unsigned_word_eqI)

lemma top_bits_zero:
  assumes "unat (x :: u64) < 2 ^ 32" "k \<le> 32"
  shows "x AND push_bit (32 - k) (mask k) = 0 \<longleftrightarrow> unat x < 2 ^ (32 - k)"
proof -
  have low: "n < 32" if "bit x n" for n
    using assms(1) that unfolding lt64 by (metis bit_take_bit_iff)
  show ?thesis
  proof
    assume z: "x AND push_bit (32 - k) (mask k) = 0"
    have "take_bit (32 - k) x = x"
    proof (rule bit_eqI)
      fix n
      have "\<not> bit (x AND push_bit (32 - k) (mask k)) n" using z by simp
      then show "bit (take_bit (32 - k) x) n = bit x n"
        using low [of n] assms(2) by (auto simp: bit_simps)
    qed
    then show "unat x < 2 ^ (32 - k)" unfolding lt64 .
  next
    assume "unat x < 2 ^ (32 - k)"
    then have t: "take_bit (32 - k) x = x" unfolding lt64 .
    have "\<not> bit (x AND push_bit (32 - k) (mask k)) n" for n
      using t by (auto simp: bit_simps) (metis bit_take_bit_iff leD)
    then show "x AND push_bit (32 - k) (mask k) = 0" by (simp add: bit_eq_iff)
  qed
qed

lemma unat_push: "unat (x :: u64) * 2 ^ k < 2 ^ 64 \<Longrightarrow> unat (push_bit k x) = unat x * 2 ^ k"
  by (subst unsigned_push_bit_eq) (simp add: push_bit_eq_mult take_bit_nat_eq_self)

lemma masks:
  "(0x80000000 :: u64) = push_bit (32 - 1) (mask 1)" "(0xc0000000 :: u64) = push_bit (32 - 2) (mask 2)"
  "(0xf0000000 :: u64) = push_bit (32 - 4) (mask 4)" "(0xff000000 :: u64) = push_bit (32 - 8) (mask 8)"
  "(0xffff0000 :: u64) = push_bit (32 - 16) (mask 16)"
  by (simp_all add: mask_eq_exp_minus_1)
text \<open>Before the step by \<open>k\<close> the word has a bit among its \<open>2 * k\<close> top ones, after it among \<open>k\<close>.\<close>

definition fls_inv :: "u64 \<Rightarrow> nat \<Rightarrow> u64 \<times> int \<Rightarrow> bool" where
  "fls_inv x0 k xr \<longleftrightarrow> (\<exists>n. snd xr = int n \<and> 0 < n \<and> n \<le> 32 \<and> unat (fst xr) = unat x0 * 2 ^ (32 - n) \<and>
     2 ^ (32 - k) \<le> unat (fst xr) \<and> unat (fst xr) < 2 ^ 32)"

lemma fls_step_inv:
  assumes i: "fls_inv x0 (2 * k) xr" and x0: "x0 \<noteq> 0" and k: "0 < k" "2 * k \<le> 32"
    and m: "m = push_bit (32 - k) (mask k)"
  shows "fls_inv x0 k (fls_step m k xr)"
proof -
  obtain x r where xr: "xr = (x, r)" by (cases xr)
  from i xr obtain n where n: "r = int n" "0 < n" "n \<le> 32" "unat x = unat x0 * 2 ^ (32 - n)"
      "2 ^ (32 - 2 * k) \<le> unat x" "unat x < 2 ^ 32"
    by (auto simp: fls_inv_def)
  have t: "x AND m = 0 \<longleftrightarrow> unat x < 2 ^ (32 - k)" using top_bits_zero [of x k] n(6) k m by simp
  show ?thesis
  proof (cases "unat x < 2 ^ (32 - k)")
    case False
    then show ?thesis using n t xr by (auto simp: fls_inv_def fls_step_def)
  next
    case True
    have "2 ^ (32 - n) \<le> unat x" using x0 n(4) by (simp add: Suc_le_eq unat_gt_0)
    then have "(2::nat) ^ (32 - n) < 2 ^ (32 - k)" using True by linarith
    then have kn: "k < n" using n(3) by simp
    have "unat x * 2 ^ k < 2 ^ (32 - k) * 2 ^ k" using True by simp
    also have "(2::nat) ^ (32 - k) * 2 ^ k = 2 ^ 32" using k by (simp flip: power_add)
    finally have up: "unat x * 2 ^ k < 2 ^ 32" .
    have "(2::nat) ^ (32 - 2 * k) * 2 ^ k \<le> unat x * 2 ^ k" using n(5) by simp
    moreover have "(2::nat) ^ (32 - 2 * k) * 2 ^ k = 2 ^ (32 - k)"
      using k by (simp flip: power_add)
    ultimately have lo: "2 ^ (32 - k) \<le> unat x * 2 ^ k" by simp
    have un: "unat (push_bit k x) = unat x * 2 ^ k"
      using up by (intro unat_push) simp
    have "unat x0 * 2 ^ (32 - n) * 2 ^ k = unat x0 * 2 ^ (32 - (n - k))"
      using kn n(3) by (simp add: mult.assoc flip: power_add)
    moreover have "n - k \<le> 32" using n(3) by simp
    ultimately show ?thesis
      using True t xr n kn up lo un by (auto simp: fls_inv_def fls_step_def intro!: exI [of _ "n - k"])
  qed
qed


lemma fls_long_inv:
  assumes "x \<noteq> 0" "unat x < 2 ^ 32"
  shows "\<exists>n. fls_long x = int n \<and> 0 < n \<and> n \<le> 32 \<and> 2 ^ (n - 1) \<le> unat x \<and> unat x < 2 ^ n"
proof -
  have "fls_inv x (2 * 16) (x, 32)" using assms by (simp add: fls_inv_def Suc_le_eq unat_gt_0)
  then have "fls_inv x (2 * 8) (fls_step 0xffff0000 16 (x, 32))" using fls_step_inv [OF _ assms(1) _ _ masks(5)] by simp
  then have "fls_inv x (2 * 4) (fls_step 0xff000000 8 (fls_step 0xffff0000 16 (x, 32)))"
    using fls_step_inv [OF _ assms(1) _ _ masks(4)] by simp
  then have "fls_inv x (2 * 2) (fls_step 0xf0000000 4 (fls_step 0xff000000 8 (fls_step 0xffff0000 16 (x, 32))))"
    using fls_step_inv [OF _ assms(1) _ _ masks(3)] by simp
  then have "fls_inv x (2 * 1) (fls_step 0xc0000000 2 (fls_step 0xf0000000 4 (fls_step 0xff000000 8
      (fls_step 0xffff0000 16 (x, 32)))))"
    using fls_step_inv [OF _ assms(1) _ _ masks(2)] by simp
  then have "fls_inv x 1 (fls_step 0x80000000 1 (fls_step 0xc0000000 2 (fls_step 0xf0000000 4 (fls_step 0xff000000 8
      (fls_step 0xffff0000 16 (x, 32))))))"
    using fls_step_inv [OF _ assms(1) _ _ masks(1)] by simp
  then obtain n where n: "fls_long x = int n" "0 < n" "n \<le> 32" "2 ^ (32 - 1) \<le> unat x * 2 ^ (32 - n)"
      "unat x * 2 ^ (32 - n) < 2 ^ 32"
    using assms(1) by (auto simp: fls_inv_def fls_long_def)
  have "unat x * 2 ^ (32 - n) < 2 ^ n * 2 ^ (32 - n)" using n(3,5) by (simp flip: power_add)
  then have "unat x < 2 ^ n" by simp
  moreover have "2 ^ (n - 1) * 2 ^ (32 - n) \<le> unat x * 2 ^ (32 - n)" using n(2,3,4) by (simp flip: power_add)
  then have "2 ^ (n - 1) \<le> unat x" by simp
  ultimately show ?thesis using n by auto
qed

lemma fls_long_ex: "fls_long (2 ^ 32) = 1"
  by (simp add: fls_long_def fls_step_def)

text \<open>
  \<open>fls_long\<close> of a value that is not 0 and fits 32 bits is the position of its highest bit, counted
  from 1, so \<open>roundup_pow_of_two\<close> is the least power of two that is not below its argument. Beyond
  32 bits, which \<open>unsigned long\<close> holds, it is not: of \<open>2 ^ 32\<close> it is 1.
\<close>

theorem fls_long_correct:
  assumes "1 < unat x" and "unat x \<le> 2 ^ 32"
  shows "\<exists>n. fls_long (x - 1) = int n \<and> roundup_pow_of_two x = 2 ^ n \<and> 2 ^ (n - 1) < unat x \<and> unat x \<le> 2 ^ n
    \<and> fls_long (2 ^ 32) = 1"
proof -
  have u: "unat (x - 1) = unat x - 1" using assms(1) by (metis One_nat_def less_imp_le_nat unat_1 unat_sub word_le_nat_alt)
  then have "unat (x - 1) \<noteq> 0" using assms(1) by simp
  then have "x - 1 \<noteq> 0" by auto
  moreover have "unat (x - 1) < 2 ^ 32" using u assms by linarith
  ultimately obtain n where n: "fls_long (x - 1) = int n" "0 < n" "2 ^ (n - 1) \<le> unat (x - 1)" "unat (x - 1) < 2 ^ n"
    using fls_long_inv by blast
  moreover have "roundup_pow_of_two x = 2 ^ n" by (simp add: roundup_pow_of_two_def n(1) push_bit_eq_mult)
  ultimately show ?thesis using u assms(1) fls_long_ex by (intro exI [of _ n]) (simp, linarith)
qed

section \<open>The capacity of the card\<close>

text \<open>
  The CSD register as the controller returns it: 128 bits in four words, highest first, shifted down
  by the 8 bits of the checksum. \<open>csd_field hi lo\<close> is a field by its bit positions in the SD
  specification.
\<close>

definition csd_register :: "SDDescriptor \<Rightarrow> 128 word" where
  "csd_register c = push_bit 96 (ucast (sd_csd c ! 0)) OR push_bit 64 (ucast (sd_csd c ! 1)) OR
     push_bit 32 (ucast (sd_csd c ! 2)) OR ucast (sd_csd c ! 3)"

definition csd_field :: "nat \<Rightarrow> nat \<Rightarrow> SDDescriptor \<Rightarrow> nat" where
  "csd_field hi lo c = unat (take_bit (hi - lo + 1) (drop_bit (lo - 8) (csd_register c)))"

lemma csd_masks:
  "(0x00c00000 :: u32) = push_bit 22 (mask 2)" "(0x00000003 :: u32) = mask 2"
  "(0xffc00000 :: u32) = push_bit 22 (mask 10)" "(0x00000380 :: u32) = push_bit 7 (mask 3)"
  "(0x00000f00 :: u32) = push_bit 8 (mask 4)" "(0x3fffff00 :: u32) = push_bit 8 (mask 22)"
  "(0x0000000c :: u32) = push_bit 2 (mask 2)"
  by (simp_all add: mask_eq_exp_minus_1)

lemma unat_ucast128: "unat (ucast (w :: u32) :: 128 word) = unat w"
proof -
  have "unat w < 2 ^ 128" by (rule order_less_le_trans [OF unsigned_less]) simp
  then show ?thesis by (simp add: unsigned_ucast_eq take_bit_nat_eq_self)
qed

lemma unat_ucast_eq: "ucast (w :: u32) = (v :: 128 word) \<Longrightarrow> unat w = unat v"
  using unat_ucast128 [of w] by simp

lemma bit32: "bit (w :: u32) n \<Longrightarrow> n < 32"
  using bit_imp_le_length by fastforce

lemma csize_or: "push_bit 10 (a AND mask 2) + drop_bit 22 (b AND push_bit 22 (mask 10)) =
    (push_bit 10 (a AND mask 2) OR drop_bit 22 (b AND push_bit 22 (mask 10)) :: u32)"
proof (rule disjunctive_add_eq_or, rule bit_word_eqI)
  fix n
  show "bit (push_bit 10 (a AND mask 2) AND drop_bit 22 (b AND push_bit 22 (mask 10))) n = bit (0 :: u32) n"
    by (auto simp: bit_simps)
qed

lemma csd_csize1:
  "unat (push_bit 10 (sd_csd c ! 1 AND 0x00000003) + drop_bit 22 (sd_csd c ! 2 AND 0xffc00000)) = csd_field 73 62 c"
proof -
  have "ucast (push_bit 10 (sd_csd c ! 1 AND mask 2) OR drop_bit 22 (sd_csd c ! 2 AND push_bit 22 (mask 10))) =
     take_bit 12 (drop_bit 54 (csd_register c))"
    by (rule bit_word_eqI) (auto simp: csd_register_def bit_simps dest: bit32)
  then show ?thesis unfolding csd_field_def csd_masks csize_or by (simp add: unat_ucast_eq)
qed

lemma csd_mult: "unat (drop_bit 7 (sd_csd c ! 2 AND 0x00000380)) = csd_field 49 47 c"
proof -
  have "ucast (drop_bit 7 (sd_csd c ! 2 AND push_bit 7 (mask 3))) = take_bit 3 (drop_bit 39 (csd_register c))"
    by (rule bit_word_eqI) (auto simp: csd_register_def bit_simps dest: bit32)
  then show ?thesis unfolding csd_field_def csd_masks by (simp add: unat_ucast_eq)
qed

lemma csd_bl_len: "unat (drop_bit 8 (sd_csd c ! 1 AND 0x00000f00)) = csd_field 83 80 c"
proof -
  have "ucast (drop_bit 8 (sd_csd c ! 1 AND push_bit 8 (mask 4))) = take_bit 4 (drop_bit 72 (csd_register c))"
    by (rule bit_word_eqI) (auto simp: csd_register_def bit_simps dest: bit32)
  then show ?thesis unfolding csd_field_def csd_masks by (simp add: unat_ucast_eq)
qed

lemma csd_csize2: "unat (drop_bit 8 (sd_csd c ! 2 AND 0x3fffff00)) = csd_field 69 48 c"
proof -
  have "ucast (drop_bit 8 (sd_csd c ! 2 AND push_bit 8 (mask 22))) = take_bit 22 (drop_bit 40 (csd_register c))"
    by (rule bit_word_eqI) (auto simp: csd_register_def bit_simps dest: bit32)
  then show ?thesis unfolding csd_field_def csd_masks by (simp add: unat_ucast_eq)
qed

lemma csd_version: "sd_csd c ! 0 AND 0x00c00000 = 0 \<longleftrightarrow> csd_field 127 126 c = 0"
proof -
  have "ucast (drop_bit 22 (sd_csd c ! 0 AND push_bit 22 (mask 2))) = take_bit 2 (drop_bit 118 (csd_register c))"
    by (rule bit_word_eqI) (auto simp: csd_register_def bit_simps dest: bit32)
  then have "unat (drop_bit 22 (sd_csd c ! 0 AND push_bit 22 (mask 2))) = csd_field 127 126 c"
    unfolding csd_field_def by (simp add: unat_ucast_eq numeral_2_eq_2)
  moreover have "drop_bit 22 (sd_csd c ! 0 AND push_bit 22 (mask 2)) = 0 \<longleftrightarrow> sd_csd c ! 0 AND push_bit 22 (mask 2) = 0"
  proof -
    have "sd_csd c ! 0 AND push_bit 22 (mask 2) = push_bit 22 (drop_bit 22 (sd_csd c ! 0 AND push_bit 22 (mask 2)))"
      by (rule bit_word_eqI) (auto simp: bit_simps)
    then show ?thesis by (metis drop_bit_of_0 push_bit_of_0)
  qed
  ultimately show ?thesis unfolding csd_masks by (metis unat_eq_zero)
qed

lemma csd_format: "unat (drop_bit 2 (sd_csd c ! 3 AND 0x0000000c)) = csd_field 11 10 c"
proof -
  have "ucast (drop_bit 2 (sd_csd c ! 3 AND push_bit 2 (mask 2))) = take_bit 2 (drop_bit 2 (csd_register c))"
    by (rule bit_word_eqI) (auto simp: csd_register_def bit_simps dest: bit32)
  then show ?thesis unfolding csd_field_def csd_masks by (simp add: unat_ucast_eq numeral_2_eq_2)
qed

lemma csd_field_less: "csd_field hi lo c < 2 ^ (hi - lo + 1)"
  unfolding csd_field_def unsigned_take_bit_eq by (rule take_bit_nat_less_exp)

lemma unat_u64_mult: "unat (a :: u64) * unat b < 2 ^ 64 \<Longrightarrow> unat (a * b) = unat a * unat b"
  using unat_mult_lem [of a b] by simp

lemma unat_pow2: "n < 32 \<Longrightarrow> unat (ucast (push_bit n 1 :: u32) :: u64) = 2 ^ n"
proof -
  assume n: "n < 32"
  then have l: "(2 :: nat) ^ n < 2 ^ 32" by (rule power_strict_increasing) simp
  then have "unat (push_bit n 1 :: u32) = 2 ^ n"
    using n by (subst unsigned_push_bit_eq) (simp add: push_bit_eq_mult take_bit_nat_eq_self)
  moreover have "(2 :: nat) ^ n < 2 ^ 64" using l by (rule order_less_trans) simp
  ultimately show ?thesis using n by (simp add: unsigned_ucast_eq take_bit_nat_eq_self)
qed

lemma unat_plus1: "unat (ucast (w :: u32) + 1 :: u64) = unat w + 1"
proof -
  have u: "unat w < 2 ^ 32" by (rule order_less_le_trans [OF unsigned_less]) simp
  then have "unat w < 2 ^ 64" by simp
  then have "unat (ucast w :: u64) = unat w" by (simp add: unsigned_ucast_eq take_bit_nat_eq_self)
  then show ?thesis using u by (subst unat_add64) simp_all
qed

lemma parse_csd_run:
  "csd_field 127 126 c = 0 \<Longrightarrow> unat (sd_capacity (sdParseCSD c)) =
     (csd_field 73 62 c + 1) * 2 ^ (csd_field 49 47 c + 2) * 2 ^ csd_field 83 80 c"
  "csd_field 127 126 c \<noteq> 0 \<Longrightarrow> unat (sd_capacity (sdParseCSD c)) = (csd_field 69 48 c + 1) * 2 ^ 19"
  "unat (drop_bit 2 (sd_fileFormat (sdParseCSD c))) = csd_field 11 10 c"
proof -
  show "unat (drop_bit 2 (sd_fileFormat (sdParseCSD c))) = csd_field 11 10 c"
    using csd_format [of c] by (simp add: sdParseCSD_def Let_def)
  {
    assume v: "csd_field 127 126 c = 0"
    let ?cs = "push_bit 10 (sd_csd c ! 1 AND 0x00000003) + drop_bit 22 (sd_csd c ! 2 AND 0xffc00000) :: u32"
    let ?m = "unat (drop_bit 7 (sd_csd c ! 2 AND 0x00000380)) + 2"
    let ?b = "unat (drop_bit 8 (sd_csd c ! 1 AND 0x00000f00))"
    have cs: "unat ?cs = csd_field 73 62 c" "csd_field 73 62 c < 2 ^ 12"
      using csd_csize1 csd_field_less [of 73 62 c] by auto
    have m: "?m = csd_field 49 47 c + 2" "csd_field 49 47 c < 2 ^ 3" using csd_mult [of c] csd_field_less [of 49 47 c] by auto
    have b: "?b = csd_field 83 80 c" "csd_field 83 80 c < 2 ^ 4" using csd_bl_len [of c] csd_field_less [of 83 80 c] by auto
    have n: "unat (ucast ?cs + 1 :: u64) = csd_field 73 62 c + 1" unfolding unat_plus1 cs ..
    have pm: "unat (ucast (push_bit ?m 1 :: u32) :: u64) = 2 ^ (csd_field 49 47 c + 2)" using unat_pow2 [of ?m] m by simp
    have pb: "unat (ucast (push_bit ?b 1 :: u32) :: u64) = 2 ^ csd_field 83 80 c" using unat_pow2 [of ?b] b by simp
    have bound: "(csd_field 73 62 c + 1) * 2 ^ (csd_field 49 47 c + 2) \<le> 2 ^ 12 * 2 ^ 9"
      using cs(2) m(2) by (intro mult_mono power_increasing) simp_all
    have "(2 :: nat) ^ csd_field 83 80 c \<le> 2 ^ 15" using b(2) by (intro power_increasing) simp_all
    with bound have small: "(csd_field 73 62 c + 1) * 2 ^ (csd_field 49 47 c + 2) * 2 ^ csd_field 83 80 c \<le> (2 ^ 12 * 2 ^ 9) * 2 ^ 15"
      by (rule mult_mono) simp_all
    have "sd_capacity (sdParseCSD c) = (ucast ?cs + 1) * ucast (push_bit ?m 1 :: u32) * ucast (push_bit ?b 1 :: u32)"
      using v csd_version [of c] by (simp add: sdParseCSD_def Let_def)
    moreover have two: "unat ((ucast ?cs + 1) * ucast (push_bit ?m 1 :: u32) :: u64) = (csd_field 73 62 c + 1) * 2 ^ (csd_field 49 47 c + 2)"
      using bound by (subst unat_u64_mult) (simp_all only: n pm, simp)
    have "unat ((ucast ?cs + 1) * ucast (push_bit ?m 1 :: u32) * ucast (push_bit ?b 1 :: u32) :: u64) =
       (csd_field 73 62 c + 1) * 2 ^ (csd_field 49 47 c + 2) * 2 ^ csd_field 83 80 c"
      using small by (subst unat_u64_mult) (simp_all only: two pb, simp)
    ultimately show "unat (sd_capacity (sdParseCSD c)) =
       (csd_field 73 62 c + 1) * 2 ^ (csd_field 49 47 c + 2) * 2 ^ csd_field 83 80 c" by (simp only:)
  next
    assume v: "csd_field 127 126 c \<noteq> 0"
    let ?cs = "drop_bit 8 (sd_csd c ! 2 AND 0x3fffff00)"
    have cs: "unat ?cs = csd_field 69 48 c" "csd_field 69 48 c < 2 ^ 22"
      using csd_csize2 csd_field_less [of 69 48 c] by auto
    have k: "unat (512 * 1024 :: u64) = 2 ^ 19" by simp
    have "unat ((ucast ?cs + 1) * (512 * 1024) :: u64) = (csd_field 69 48 c + 1) * 2 ^ 19"
      using cs by (subst unat_u64_mult) (simp_all only: unat_plus1 k cs(1), simp)
    moreover have "sd_capacity (sdParseCSD c) = (ucast ?cs + 1) * (512 * 1024)"
      using v csd_version [of c] by (simp add: sdParseCSD_def Let_def mult.assoc)
    ultimately show "unat (sd_capacity (sdParseCSD c)) = (csd_field 69 48 c + 1) * 2 ^ 19" by (simp only:)
  }
qed

text \<open>
  C40. The capacity from the CSD register, by the bit positions of the SD specification: with
  structure version 0 it is \<open>(C_SIZE + 1) * 2 ^ (C_SIZE_MULT + 2) * 2 ^ READ_BL_LEN\<close> bytes, else
  \<open>(C_SIZE + 1) * 512\<close> kilobytes, with no overflow; and the file format.
\<close>

theorem sdParseCSD_fields:
  "unat (sd_capacity (sdParseCSD c)) =
     (if csd_field 127 126 c = 0 then (csd_field 73 62 c + 1) * 2 ^ (csd_field 49 47 c + 2) * 2 ^ csd_field 83 80 c
      else (csd_field 69 48 c + 1) * 512 * 1024) \<and>
   unat (drop_bit 2 (sd_fileFormat (sdParseCSD c))) = csd_field 11 10 c"
  using parse_csd_run [of c] by (auto simp: mult.assoc)

section \<open>The divider field, and an application command that is not announced\<close>

text \<open>The divider lies in the field that \<open>sdSetClock\<close> clears before it writes it.\<close>

lemma clock_cdiv_field: "clock_cdiv ver d AND 0xffff003f = 0"
proof -
  have m: "(0xff :: u32) = mask 8" "(0x300 :: u32) = push_bit 8 (mask 2)"
    "(0xffff003f :: u32) = NOT (push_bit 6 (mask 10))"
    by (simp_all add: mask_eq_exp_minus_1)
  have plus: "push_bit 8 (d AND mask 8) + drop_bit 2 (d AND push_bit 8 (mask 2)) =
     (push_bit 8 (d AND mask 8) OR drop_bit 2 (d AND push_bit 8 (mask 2)) :: u32)"
  proof (rule disjunctive_add_eq_or, rule bit_word_eqI)
    fix n
    show "bit (push_bit 8 (d AND mask 8) AND drop_bit 2 (d AND push_bit 8 (mask 2))) n = bit (0 :: u32) n"
      by (auto simp: bit_simps)
  qed
  have z: "(push_bit 8 (d AND mask 8) OR drop_bit 2 (d AND push_bit 8 (mask 2))) AND NOT (push_bit 6 (mask 10)) = (0 :: u32)"
    "push_bit 8 (d AND mask 8) AND NOT (push_bit 6 (mask 10)) = (0 :: u32)"
    by (rule bit_word_eqI, auto simp: bit_simps)+
  show ?thesis
    unfolding clock_cdiv_def m Let_def
    by (cases "ver > HOST_SPEC_V2") (simp_all only: if_True if_False plus z add_0_right simp_thms)
qed

text \<open>
  Without a relative card address \<open>sdSendAppCommand\<close> drops the code of its command: when the
  controller stays busy, APP_CMD is not sent and the caller is told that it was.
\<close>

lemma app_command_busy:
  assumes "sd_rca (sdCard s) = 0" and "sdWaitForCommand h s = Inr (w, t)" and "w \<noteq> 0"
  shows "sdSendAppCommand h s = Inr (SD_OK, t)"
  using assms by (simp add: sdSendAppCommand_def sdSendCommandP_def bind_def get_def ret_def)

section \<open>A card\<close>

text \<open>
  A healthy card and controller for the witnesses: every wait ends at once, the responses depend on
  the last command. And a controller whose interrupt rises with the fifth delay.
\<close>

definition good_card_rd :: "ereg \<Rightarrow> u32 \<Rightarrow> u32 \<times> u32" where
  "good_card_rd r c = (case r of
     EMMC_STATUS \<Rightarrow> 0x800 | EMMC_INTERRUPT \<Rightarrow> 0x21 | EMMC_CONTROL1 \<Rightarrow> 2
   | EMMC_RESP0 \<Rightarrow> (if c = 0x08020000 then 0x1AA else if c = 0x29020000 then 0xC0FF8000
                    else if c = 0x03020000 then 0x00010000 else 0x20)
   | EMMC_SLOTISR_VER \<Rightarrow> 0x00020000 | MBOX_READ \<Rightarrow> 8 | _ \<Rightarrow> 0, c)"

definition good_card :: "u32 hw" where
  "good_card = \<lparr>hw_rd = good_card_rd, hw_wr = (\<lambda>r v c. if r = EMMC_CMDTM then v else c),
     hw_usec = (\<lambda>_ c. c), hw_cycles = (\<lambda>_ c. c), hw_dma = (\<lambda>_ _ i. if i = 6 then 50000000 else 0), hw_mbuf = 0x1000\<rparr>"

definition slow_card :: "nat hw" where
  "slow_card = \<lparr>hw_rd = (\<lambda>r d. (if r = EMMC_INTERRUPT \<and> 5 \<le> d then 1 else 0, d)), hw_wr = (\<lambda>_ _ d. d),
     hw_usec = (\<lambda>_ d. Suc d), hw_cycles = (\<lambda>_ d. d), hw_dma = (\<lambda>_ _ _. 0), hw_mbuf = 0\<rparr>"

definition no_card :: SDDescriptor where
  "no_card = \<lparr>sd_capacity = 0, sd_cid = [0, 0, 0, 0], sd_csd = [0, 0, 0, 0], sd_scr = [0, 0], sd_ocr = 0,
     sd_support = 0, sd_fileFormat = 0, sd_type = 0, sd_uhsi = 0, sd_initd = 0, sd_absent = 0, sd_rca = 0,
     sd_cardState = 0, sd_status = 0, sd_lastCmd = None, sd_lastArg = 0\<rparr>"

definition power_on :: "'d \<Rightarrow> 'd sdstate" where
  "power_on d = \<lparr>sdCard = no_card, sdHostVer = 0, sdDebug = False, sdBaseClock = 0, dev = d, said = []\<rparr>"

lemma good_card_mailbox: "mbox_answers good_card 1"
proof -
  have st: "rd_any good_card MBOX_STATUS m s = Inr (False, s)" for m s
    by (simp add: rd_any_def rdreg_def good_card_def good_card_rd_def bind_def ret_def)
  have rd: "rdreg good_card MBOX_READ s = Inr (8, s)" for s
    by (simp add: rdreg_def good_card_def good_card_rd_def)
  show ?thesis
    unfolding mbox_answers_def mbox_get_clock_rate_def mbox_exchange_def mbox_write_def mbox_read_def
    by (simp add: bind_def st rd ret_def say_def upd_def wrreg_def get_def) (simp add: good_card_def)
qed

theorem sdInit_outcome_witness:
  "mbox_answers good_card 1 \<and> card_wf (sdCard (power_on (0 :: u32))) \<and>
   (\<exists>r t. sdInit good_card 1 (power_on 0) = Inr (r, t) \<and> card_wf (sdCard t) \<and>
     (sd_initd (sdCard t) \<noteq> 0 \<longleftrightarrow> r \<in> {SD_OK, SD_CARD_CHANGED, SD_CARD_REINSERTED}) \<and>
     (sd_initd (sdCard t) \<noteq> 0 \<longrightarrow> r = 10 \<or> r = 12))"
  using sdInit_outcome [OF good_card_mailbox, of "power_on 0"] good_card_mailbox
  by (simp add: power_on_def no_card_def card_wf_def)

theorem sd_wait_deadline_witness:
  "sdWaitForInterrupt slow_card 1 (power_on 0) = Inr (SD_OK, (power_on 0)\<lparr>dev := 5\<rparr>)"
proof -
  have pow: "((\<lambda>d. Suc d) ^^ j) 0 = j" for j by (induction j) simp_all
  show ?thesis
    using sd_wait_deadline [of slow_card "\<lambda>d. if 5 \<le> d then 1 else 0" 5 "power_on 0" 1]
    by (simp add: slow_card_def power_on_def pow INT_ERROR_MASK_def INT_CMD_TIMEOUT_def INT_DATA_TIMEOUT_def
        INT_CRC_ERROR_def INT_END_ERROR_def INT_INDEX_ERROR_def INT_DATA_CRC_ERR_def INT_DATA_END_ERR_def INT_ERR_def
        INT_AUTO_ERROR_def)
qed

theorem fls_long_correct_witness:
  "1 < unat (1000 :: u64) \<and> unat (1000 :: u64) \<le> 2 ^ 32 \<and> (\<exists>n. fls_long (1000 - 1) = int n \<and>
     roundup_pow_of_two 1000 = 2 ^ n \<and> 2 ^ (n - 1) < unat (1000 :: u64) \<and> unat (1000 :: u64) \<le> 2 ^ n)"
  using fls_long_correct [of 1000] by auto

end
