(* ===== verification/Mkfs.thy ===== *)
theory Mkfs
  imports Fpath
begin

text \<open>
  The builder of the file system image, \<open>user/src/mkfs/main.c\<close>, which runs on the host. The state is
  the image file as a list of sectors, the super block and the two counters. The files it copies are
  the parameter \<open>host\<close>: opening a path gives the blocks that \<open>read\<close> returns one after the other.
  \<open>assert\<close> and \<open>exit(1)\<close> are panics with their text; host errors of \<open>lseek\<close> and \<open>write\<close> on the image
  are not considered, reading past its end is. Messages and the opening of the image are left out.

  The lemmas: the image refines a table of files, each a list of bytes, that \<open>ialloc\<close> and \<open>iappend\<close>
  extend; a finished image satisfies what the theorems about the kernel's file system assume of the
  disk, and holds the content of every file.
\<close>

unbundle bit_operations_syntax

section \<open>The image\<close>

record mkfs =
  img :: "byte list list"
  freeinode :: u32
  freeblock :: u32
  mk_sb :: superblock

definition FSSIZE :: u32 where "FSSIZE = 1000"
definition NINODES :: u32 where "NINODES = 200"
definition nbitmap :: u32 where "nbitmap = FSSIZE div (512 * 8) + 1"
definition ninodeblocks :: u32 where "ninodeblocks = NINODES div IPB + 1"
definition nlog :: u32 where "nlog = of_nat LOGSIZE"
definition mk_nmeta :: u32 where "mk_nmeta = 2 + nlog + ninodeblocks + nbitmap"

definition zeroes :: "byte list" where "zeroes = replicate BSIZE 0"

text \<open>The words whose bytes lie in memory least significant first, on the little-endian host.\<close>

definition xshort :: "u16 \<Rightarrow> u16" where "xshort x = le_word [ucast x, ucast (drop_bit 8 x)]"

definition xint :: "u32 \<Rightarrow> u32" where
  "xint x = le_word [ucast x, ucast (drop_bit 8 x), ucast (drop_bit 16 x), ucast (drop_bit 24 x)]"

text \<open>A write past the end of the file extends it, with zeros between.\<close>

definition wsect :: "u32 \<Rightarrow> byte list \<Rightarrow> (mkfs, unit) kop" where
  "wsect sec buf = upd (\<lambda>m. m\<lparr>img := (img m @ replicate (Suc (unat sec) - length (img m)) zeroes)[unat sec := buf]\<rparr>)"

definition rsect :: "u32 \<Rightarrow> (mkfs, byte list) kop" where
  "rsect sec = (\<lambda>m. if unat sec < length (img m) then Inr (img m ! unat sec, m) else Inl (Panic ''read''))"

definition winode :: "u32 \<Rightarrow> dinode \<Rightarrow> (mkfs, unit) kop" where
  "winode inum ip =
     bind (get (\<lambda>m. IBLOCK inum (mk_sb m))) (\<lambda>bn.
     bind (rsect bn) (\<lambda>buf.
     wsect bn (write_dinode (dinode_off inum) ip buf)))"

definition rinode :: "u32 \<Rightarrow> (mkfs, dinode) kop" where
  "rinode inum =
     bind (get (\<lambda>m. IBLOCK inum (mk_sb m))) (\<lambda>bn.
     bind (rsect bn) (\<lambda>buf. ret (read_dinode (dinode_off inum) buf)))"

definition zero_dinode :: dinode where
  "zero_dinode = \<lparr>di_type = 0, di_major = 0, di_minor = 0, di_nlink = 0, di_size = 0, di_addrs = replicate 13 0\<rparr>"

definition mk_ialloc :: "u16 \<Rightarrow> (mkfs, u32) kop" where
  "mk_ialloc type =
     bind (get freeinode) (\<lambda>inum.
     seq (upd (\<lambda>m. m\<lparr>freeinode := freeinode m + 1\<rparr>))
     (seq (winode inum (zero_dinode\<lparr>di_type := xshort type, di_nlink := xshort 1, di_size := xint 0\<rparr>))
     (ret inum)))"

text \<open>\<open>buf[i/8] = buf[i/8] | (0x1 << (i%8))\<close> for each \<open>i < used\<close>.\<close>

definition mk_bitmap :: "nat \<Rightarrow> byte list" where
  "mk_bitmap used = foldl (\<lambda>buf i. buf[i div 8 := buf ! (i div 8) OR push_bit (i mod 8) 1]) zeroes [0..<used]"

definition mk_balloc :: "u32 \<Rightarrow> (mkfs, unit) kop" where
  "mk_balloc used =
    (if \<not> unat used < BSIZE * 8 then panic ''used < BSIZE*8''
     else bind (get (\<lambda>m. sb_bmapstart (mk_sb m))) (\<lambda>b. wsect b (mk_bitmap (unat used))))"

section \<open>Appending to a file\<close>

definition new_block :: "(mkfs, u32) kop" where
  "new_block = bind (get freeblock) (\<lambda>b. seq (upd (\<lambda>m. m\<lparr>freeblock := freeblock m + 1\<rparr>)) (ret (xint b)))"

text \<open>The block \<open>fbn\<close> of the file of \<open>din\<close>, allocated where it is missing, with the inode afterwards.\<close>

definition append_block :: "dinode \<Rightarrow> nat \<Rightarrow> (mkfs, u32 \<times> dinode) kop" where
  "append_block din fbn =
    (if fbn < NDIRECT then
       bind (if xint (di_addrs din ! fbn) = 0 then
               bind new_block (\<lambda>b. ret (din\<lparr>di_addrs := (di_addrs din)[fbn := b]\<rparr>))
             else ret din) (\<lambda>d.
       ret (xint (di_addrs d ! fbn), d))
     else
       bind (if xint (di_addrs din ! NDIRECT) = 0 then
               bind new_block (\<lambda>b. ret (din\<lparr>di_addrs := (di_addrs din)[NDIRECT := b]\<rparr>))
             else ret din) (\<lambda>d.
       bind (rsect (xint (di_addrs d ! NDIRECT))) (\<lambda>indirect.
       if get32 (4 * (fbn - NDIRECT)) indirect = 0 then
         bind new_block (\<lambda>b.
         seq (wsect (xint (di_addrs d ! NDIRECT)) (put32 (4 * (fbn - NDIRECT)) b indirect))
         (ret (xint b, d)))
       else ret (xint (get32 (4 * (fbn - NDIRECT)) indirect), d))))"

text \<open>Each round of the loop copies at least one byte: the fuel is the number of bytes and one.\<close>

fun append_loop :: "nat \<Rightarrow> dinode \<Rightarrow> u32 \<Rightarrow> byte list \<Rightarrow> (mkfs, dinode \<times> u32) kop" where
  "append_loop 0 din off p = stop Diverge"
| "append_loop (Suc k) din off p =
    (if p = [] then ret (din, off)
     else
       let fbn = off div 512 in
       if \<not> unat fbn < MAXFILE then panic ''fbn < MAXFILE''
       else bind (append_block din (unat fbn)) (\<lambda>(x, d).
         let n1 = min (length p) (unat ((fbn + 1) * 512 - off)) in
         bind (rsect x) (\<lambda>buf.
         seq (wsect x (splice (unat (off - fbn * 512)) (take n1 p) buf))
         (append_loop k d (off + of_nat n1) (drop n1 p)))))"

definition iappend :: "u32 \<Rightarrow> byte list \<Rightarrow> (mkfs, unit) kop" where
  "iappend inum p =
     bind (rinode inum) (\<lambda>din.
     bind (append_loop (Suc (length p)) din (xint (di_size din)) p) (\<lambda>(d, off).
     winode inum (d\<lparr>di_size := xint off\<rparr>)))"

section \<open>The program\<close>

text \<open>The last element of a path: \<open>argv[i]\<close> moves to the end, \<open>j\<close> counts the characters after the last slash.\<close>

fun base_count :: "byte list \<Rightarrow> int \<Rightarrow> int" where
  "base_count [] j = j"
| "base_count (c # cs) j = base_count cs ((if c = 47 then -1 else j) + 1)"

definition base_name :: "byte list \<Rightarrow> byte list" where
  "base_name path = drop (nat (int (length path) - base_count path 0)) path"

definition skip_underscore :: "byte list \<Rightarrow> byte list" where
  "skip_underscore name = (case name of c # cs \<Rightarrow> if c = 95 then cs else name | [] \<Rightarrow> [])"

text \<open>A zeroed directory entry with its name copied by the \<open>strncpy\<close> of the host.\<close>

definition mk_dirent :: "u32 \<Rightarrow> byte list \<Rightarrow> byte list" where
  "mk_dirent inum name =
     write_dirent \<lparr>de_inum = xshort (ucast inum), de_name = take DIRSIZ (takeWhile (\<lambda>c. c \<noteq> 0) name @ replicate DIRSIZ 0)\<rparr>"

fun append_chunks :: "u32 \<Rightarrow> byte list list \<Rightarrow> (mkfs, unit) kop" where
  "append_chunks inum [] = ret ()"
| "append_chunks inum (c # cs) = (if c = [] then ret () else seq (iappend inum c) (append_chunks inum cs))"

definition add_file :: "(byte list \<Rightarrow> byte list list option) \<Rightarrow> u32 \<Rightarrow> byte list \<Rightarrow> (mkfs, unit) kop" where
  "add_file host rootino path =
    (let name = base_name path in
     if 47 \<in> set name then panic ''index(argv[i], '/') == 0''
     else case host path of
       None \<Rightarrow> panic ''open''
     | Some chunks \<Rightarrow>
         bind (mk_ialloc T_FILE) (\<lambda>inum.
         seq (iappend rootino (mk_dirent inum (skip_underscore name)))
         (append_chunks inum chunks)))"

fun add_files :: "(byte list \<Rightarrow> byte list list option) \<Rightarrow> u32 \<Rightarrow> byte list list \<Rightarrow> (mkfs, unit) kop" where
  "add_files host rootino [] = ret ()"
| "add_files host rootino (p # ps) = seq (add_file host rootino p) (add_files host rootino ps)"

fun zero_sectors :: "nat list \<Rightarrow> (mkfs, unit) kop" where
  "zero_sectors [] = ret ()"
| "zero_sectors (i # is) = seq (wsect (of_nat i) zeroes) (zero_sectors is)"

definition mk_superblock :: superblock where
  "mk_superblock = \<lparr>sb_size = xint FSSIZE, sb_nblocks = xint (FSSIZE - mk_nmeta), sb_ninodes = xint NINODES,
     sb_nlog = xint nlog, sb_logstart = xint 2, sb_inodestart = xint (2 + nlog),
     sb_bmapstart = xint (2 + nlog + ninodeblocks)\<rparr>"

definition mk_format :: "(mkfs, unit) kop" where
  "mk_format =
     seq (upd (\<lambda>m. m\<lparr>img := [], mk_sb := mk_superblock, freeblock := mk_nmeta\<rparr>))
     (seq (zero_sectors [0..<unat FSSIZE])
     (wsect 1 (write_superblock mk_superblock zeroes)))"

definition fix_root :: "u32 \<Rightarrow> (mkfs, unit) kop" where
  "fix_root rootino =
     bind (rinode rootino) (\<lambda>din.
     winode rootino (din\<lparr>di_size := xint ((xint (di_size din) div 512 + 1) * 512)\<rparr>))"

definition mkfs_main :: "(byte list \<Rightarrow> byte list list option) \<Rightarrow> byte list list \<Rightarrow> (mkfs, unit) kop" where
  "mkfs_main host files =
     seq mk_format
     (bind (mk_ialloc T_DIR) (\<lambda>rootino.
      if rootino \<noteq> ROOTINO then panic ''rootino == ROOTINO''
      else seq (iappend rootino (mk_dirent rootino [46]))
        (seq (iappend rootino (mk_dirent rootino [46, 46]))
        (seq (add_files host rootino files)
        (seq (fix_root rootino)
        (bind (get freeblock) mk_balloc))))))"

definition mkfs0 :: mkfs where
  "mkfs0 = \<lparr>img = [], freeinode = 1, freeblock = 0,
     mk_sb = \<lparr>sb_size = 0, sb_nblocks = 0, sb_ninodes = 0, sb_nlog = 0, sb_logstart = 0, sb_inodestart = 0, sb_bmapstart = 0\<rparr>\<rparr>"

section \<open>Arithmetic of the host\<close>

lemma xshort_id [simp]: "xshort x = x"
  by (rule bit_word_eqI) (auto simp: xshort_def bit_simps)

lemma xint_id [simp]: "xint x = x"
proof (rule bit_word_eqI)
  fix n :: nat
  consider "n < 8" | "8 \<le> n" "n < 16" | "16 \<le> n" "n < 24" | "24 \<le> n" by linarith
  then show "bit (xint x) n = bit x n"
    by cases (auto simp: xint_def bit_simps dest: bit_imp_le_length)
qed

lemma mk_sb_eq: "mk_superblock = \<lparr>sb_size = 1000, sb_nblocks = 941, sb_ninodes = 200, sb_nlog = 30, sb_logstart = 2,
     sb_inodestart = 32, sb_bmapstart = 58\<rparr>"
  by (simp add: mk_superblock_def FSSIZE_def mk_nmeta_def nlog_def ninodeblocks_def nbitmap_def NINODES_def LOGSIZE_def IPB_def)

lemma mk_sb_wf: "sb_wf mk_superblock" "nmeta mk_superblock = 59" "bmap_blocks mk_superblock = {58}"
proof -
  show "sb_wf mk_superblock" "nmeta mk_superblock = 59" by (simp_all add: mk_sb_eq sb_wf_def nmeta_def LOGSIZE_def)
  have "b = 58" if "unat b = 58" for b :: u32 using that by (simp add: word_unat_eq_iff)
  then show "bmap_blocks mk_superblock = {58}" by (auto simp: bmap_blocks_def mk_sb_eq)
qed

section \<open>The image as a store of blocks\<close>

definition view :: "mkfs \<Rightarrow> u32 \<Rightarrow> byte list" where
  "view m b = (if unat b < length (img m) then img m ! unat b else zeroes)"

definition img_ok :: "mkfs \<Rightarrow> bool" where
  "img_ok m \<longleftrightarrow> length (img m) = 1000 \<and> (\<forall>b\<in>set (img m). length b = BSIZE)"

lemma rsect_run: "img_ok m \<Longrightarrow> unat b < 1000 \<Longrightarrow> rsect b m = Inr (view m b, m)"
  by (simp add: rsect_def view_def img_ok_def)

lemma length_view: "img_ok m \<Longrightarrow> length (view m b) = BSIZE"
  by (simp add: view_def img_ok_def zeroes_def)

definition put_sect :: "u32 \<Rightarrow> byte list \<Rightarrow> mkfs \<Rightarrow> mkfs" where
  "put_sect b buf m = m\<lparr>img := (img m)[unat b := buf]\<rparr>"

lemma wsect_run: "img_ok m \<Longrightarrow> unat b < 1000 \<Longrightarrow> wsect b buf m = Inr ((), put_sect b buf m)"
  by (simp add: wsect_def upd_def put_sect_def img_ok_def)

lemma put_sect_ok: "img_ok m \<Longrightarrow> length buf = BSIZE \<Longrightarrow> img_ok (put_sect b buf m)"
  by (auto simp: img_ok_def put_sect_def dest: set_update_subset_insert [THEN subsetD])

lemma view_put: "img_ok m \<Longrightarrow> unat b < 1000 \<Longrightarrow> view (put_sect b buf m) = (view m)(b := buf)"
  by (rule ext) (auto simp: view_def put_sect_def img_ok_def nth_list_update word_unat_eq_iff)

lemma put_sect_fields [simp]:
  "freeinode (put_sect b buf m) = freeinode m" "freeblock (put_sect b buf m) = freeblock m" "mk_sb (put_sect b buf m) = mk_sb m"
  by (simp_all add: put_sect_def)

lemma view_fields [simp]: "view (m\<lparr>freeblock := x\<rparr>) = view m" "view (m\<lparr>freeinode := i\<rparr>) = view m"
  "img_ok (m\<lparr>freeblock := x\<rparr>) = img_ok m" "img_ok (m\<lparr>freeinode := i\<rparr>) = img_ok m"
  by (auto simp: view_def img_ok_def fun_eq_iff)

section \<open>A file on the image\<close>

text \<open>
  \<open>fbs v d k\<close> is block \<open>k\<close> of the file of the disk inode \<open>d\<close>, as the kernel finds it. \<open>file_rep v n d c\<close>:
  the blocks of the file are exactly those its content \<open>c\<close> needs, are different data blocks below the
  next free one \<open>n\<close>, and hold \<open>c\<close> followed by zeros.
\<close>

definition as_inode :: "dinode \<Rightarrow> inode" where
  "as_inode d = load_part d \<lparr>i_dev = 0, i_inum = 0, i_ref = 0, i_valid = True, i_type = 0, i_major = 0, i_minor = 0,
     i_nlink = 0, i_size = 0, i_addrs = []\<rparr>"

definition fbs :: "(u32 \<Rightarrow> byte list) \<Rightarrow> dinode \<Rightarrow> nat \<Rightarrow> u32" where
  "fbs v d k = fb v (as_inode d) k"

lemma fbs_eq: "fbs v d k = (if k = 140 then di_addrs d ! 12 else if k < 12 then di_addrs d ! k
     else if di_addrs d ! 12 = 0 then 0 else get32 (4 * (k - 12)) (v (di_addrs d ! 12)))"
  by (simp add: fbs_def fb_def as_inode_def load_part_def NDIRECT_def)

definition file_rep :: "(u32 \<Rightarrow> byte list) \<Rightarrow> nat \<Rightarrow> dinode \<Rightarrow> byte list \<Rightarrow> bool" where
  "file_rep v n d c \<longleftrightarrow> length (di_addrs d) = 13 \<and> length c \<le> 140 * 512 \<and>
     (\<forall>k<140. fbs v d k \<noteq> 0 \<longleftrightarrow> k * 512 < length c) \<and> (fbs v d 140 \<noteq> 0 \<longleftrightarrow> 12 * 512 < length c) \<and>
     (\<forall>k\<le>140. fbs v d k \<noteq> 0 \<longrightarrow> 59 \<le> unat (fbs v d k) \<and> unat (fbs v d k) < n) \<and>
     (\<forall>j\<le>140. \<forall>k\<le>140. fbs v d j \<noteq> 0 \<longrightarrow> fbs v d j = fbs v d k \<longrightarrow> j = k) \<and>
     (\<forall>i. i div 512 * 512 < length c \<longrightarrow> v (fbs v d (i div 512)) ! (i mod 512) = (if i < length c then c ! i else 0))"

lemma file_repD:
  assumes "file_rep v n d c"
  shows "length (di_addrs d) = 13" "length c \<le> 140 * 512" "k < 140 \<Longrightarrow> fbs v d k \<noteq> 0 \<longleftrightarrow> k * 512 < length c"
    "fbs v d 140 \<noteq> 0 \<longleftrightarrow> 12 * 512 < length c"
    "k \<le> 140 \<Longrightarrow> fbs v d k \<noteq> 0 \<Longrightarrow> 59 \<le> unat (fbs v d k) \<and> unat (fbs v d k) < n"
    "j \<le> 140 \<Longrightarrow> k \<le> 140 \<Longrightarrow> fbs v d j \<noteq> 0 \<Longrightarrow> fbs v d j = fbs v d k \<Longrightarrow> j = k"
    "i div 512 * 512 < length c \<Longrightarrow> v (fbs v d (i div 512)) ! (i mod 512) = (if i < length c then c ! i else 0)"
  using assms by (simp_all add: file_rep_def)

lemma fbs_cong:
  assumes "di_addrs d' = di_addrs d" "di_addrs d ! 12 \<noteq> 0 \<Longrightarrow> w (di_addrs d ! 12) = v (di_addrs d ! 12)"
  shows "fbs w d' k = fbs v d k"
  using assms by (simp add: fbs_eq)

text \<open>The representation depends only on the blocks of the file.\<close>

lemma file_rep_frame:
  assumes r: "file_rep v n d c" and s: "\<And>k. k \<le> 140 \<Longrightarrow> fbs v d k \<noteq> 0 \<Longrightarrow> w (fbs v d k) = v (fbs v d k)"
    and n: "n \<le> n'" and a: "di_addrs d' = di_addrs d"
  shows "file_rep w n' d' c" and "fbs w d' k = fbs v d k"
proof -
  have e: "fbs w d' k = fbs v d k" for k
    by (rule fbs_cong [OF a]) (use s [of 140] in \<open>simp add: fbs_eq\<close>)
  show "fbs w d' k = fbs v d k" by (rule e)
  have b: "w (fbs v d (i div 512)) = v (fbs v d (i div 512))" if "i div 512 * 512 < length c" for i
  proof -
    have "i div 512 < 140" using that file_repD(2) [OF r] by linarith
    then show ?thesis using s [of "i div 512"] file_repD(3) [OF r, of "i div 512"] that by simp
  qed
  show "file_rep w n' d' c"
    using r n a b unfolding file_rep_def e by (fastforce intro: order_less_le_trans)
qed

section \<open>Allocating the next block of a file\<close>

text \<open>The blocks that a file of \<open>z\<close> bytes has, and those that the next byte needs.\<close>

definition nb :: "nat \<Rightarrow> nat" where
  "nb z = (z + 511) div 512 + (if 12 * 512 < z then 1 else 0)"

definition need :: "nat \<Rightarrow> nat" where
  "need z = (if z mod 512 = 0 then (if z div 512 = 12 then 2 else 1) else 0)"

definition fresh :: "mkfs \<Rightarrow> bool" where
  "fresh m \<longleftrightarrow> 59 \<le> unat (freeblock m) \<and> (\<forall>b. unat (freeblock m) \<le> unat b \<longrightarrow> view m b = zeroes)"

lemma unat_inc: "unat (b :: u32) < 1000 \<Longrightarrow> unat (b + 1) = unat b + 1"
  by (subst unat_add32) simp_all

lemma get32_zeroes: "o4 + 4 \<le> 512 \<Longrightarrow> get32 o4 zeroes = 0"
  unfolding zeroes_def using get32_zeros [of o4] by (simp add: BSIZE_def)

definition appended :: "mkfs \<Rightarrow> dinode \<Rightarrow> nat \<Rightarrow> u32 \<Rightarrow> dinode \<Rightarrow> mkfs \<Rightarrow> bool" where
  "appended m d z x d' m' \<longleftrightarrow> img_ok m' \<and> unat (freeblock m') = unat (freeblock m) + need z \<and>
     mk_sb m' = mk_sb m \<and> freeinode m' = freeinode m \<and> length (di_addrs d') = 13 \<and> d' = d\<lparr>di_addrs := di_addrs d'\<rparr> \<and>
     (\<forall>k\<le>140. fbs (view m') d' k = (if k = z div 512 then x else if k = 140 \<and> z = 12 * 512 then freeblock m else fbs (view m) d k)) \<and>
     x \<noteq> 0 \<and> (z mod 512 \<noteq> 0 \<longrightarrow> x = fbs (view m) d (z div 512)) \<and>
     (z mod 512 = 0 \<longrightarrow> unat x = unat (freeblock m) + need z - 1) \<and>
     (\<forall>b. b = 0 \<or> b \<noteq> fbs (view m') d' 140 \<longrightarrow> view m' b = view m b)"

lemma new_block_run: "new_block m = Inr (freeblock m, m\<lparr>freeblock := freeblock m + 1\<rparr>)"
  by (simp add: new_block_def bind_def get_def upd_def ret_def)

lemma append_block_old:
  assumes "img_ok m" "file_rep (view m) n d c" "n \<le> 1000" "length c < 140 * 512" "length c mod 512 \<noteq> 0"
  shows "append_block d (length c div 512) m = Inr ((fbs (view m) d (length c div 512), d), m)"
proof -
  let ?k = "length c div 512"
  have k: "?k < 140" "?k * 512 < length c" using assms(4,5) by (auto, metis div_times_less_eq_dividend le_neq_implies_less mod_mult_self1_is_0 mult.commute)
  have nz: "fbs (view m) d ?k \<noteq> 0" using file_repD(3) [OF assms(2) k(1)] k(2) by simp
  show ?thesis
  proof (cases "?k < 12")
    case True
    then show ?thesis using nz by (simp add: append_block_def NDIRECT_def fbs_eq bind_def ret_def)
  next
    case False
    have i: "di_addrs d ! 12 \<noteq> 0" using nz False k(1) by (auto simp: fbs_eq split: if_splits)
    then have "unat (di_addrs d ! 12) < 1000" using file_repD(5) [OF assms(2), of 140] assms(3) by (simp add: fbs_eq)
    then show ?thesis
      using nz False k(1) i by (simp add: append_block_def NDIRECT_def fbs_eq bind_def ret_def rsect_run [OF assms(1)])
  qed
qed

lemma append_block_direct:
  assumes "img_ok m" "fresh m" "file_rep (view m) n d c" "length c < 12 * 512" "length c mod 512 = 0" "unat (freeblock m) < 1000"
  shows "\<exists>x d' m'. append_block d (length c div 512) m = Inr ((x, d'), m') \<and> appended m d (length c) x d' m'"
proof -
  let ?k = "length c div 512"
  have k: "?k < 12" "?k * 512 = length c" "?k \<noteq> 12" using assms(4,5) by auto
  have "fbs (view m) d ?k = 0" using file_repD(3) [OF assms(3), of ?k] k by auto
  then have z: "di_addrs d ! ?k = 0" using k(1) by (simp add: fbs_eq)
  have l: "length (di_addrs d) = 13" by (rule file_repD(1) [OF assms(3)])
  have f: "freeblock m \<noteq> 0" using assms(2) by (auto simp: fresh_def)
  have run: "append_block d ?k m = Inr ((freeblock m, d\<lparr>di_addrs := (di_addrs d)[?k := freeblock m]\<rparr>), m\<lparr>freeblock := freeblock m + 1\<rparr>)"
    using k(1) z l by (simp add: append_block_def NDIRECT_def bind_def ret_def new_block_run)
  have "appended m d (length c) (freeblock m) (d\<lparr>di_addrs := (di_addrs d)[?k := freeblock m]\<rparr>) (m\<lparr>freeblock := freeblock m + 1\<rparr>)"
    using assms k l f by (auto simp: appended_def need_def unat_inc fbs_eq nth_list_update)
  then show ?thesis using run by blast
qed

lemma append_block_first_indirect:
  assumes "img_ok m" "fresh m" "file_rep (view m) n d c" "length c = 12 * 512" "unat (freeblock m) + 2 \<le> 1000"
  shows "\<exists>x d' m'. append_block d (length c div 512) m = Inr ((x, d'), m') \<and> appended m d (length c) x d' m'"
proof -
  let ?b = "freeblock m" and ?d = "d\<lparr>di_addrs := (di_addrs d)[12 := freeblock m]\<rparr>"
  let ?m = "put_sect (freeblock m) (put32 0 (freeblock m + 1) zeroes) (m\<lparr>freeblock := freeblock m + 1 + 1\<rparr>)"
  have z: "di_addrs d ! 12 = 0" using file_repD(4) [OF assms(3)] assms(4) by (simp add: fbs_eq)
  have l: "length (di_addrs d) = 13" by (rule file_repD(1) [OF assms(3)])
  have u: "unat (?b + 1) = unat ?b + 1" "unat (?b + 1 + 1) = unat ?b + 2" "unat ?b < 1000"
    using assms(5) unat_inc [of ?b] unat_inc [of "?b + 1"] by auto
  have f: "?b \<noteq> 0" "?b + 1 \<noteq> 0" "?b + 1 \<noteq> ?b" using assms(2) u(1) by (auto simp: fresh_def)
  have v: "view m ?b = zeroes" using assms(2) by (simp add: fresh_def)
  have lz: "length zeroes = 512" by (simp add: zeroes_def BSIZE_def)
  have run: "append_block d (length c div 512) m = Inr ((?b + 1, ?d), ?m)"
    using l assms(1,4) u v get32_zeroes [of 0] z
    by (simp add: append_block_def NDIRECT_def bind_def ret_def new_block_run rsect_run wsect_run)
  have vm: "view ?m = (view m)(?b := put32 0 (?b + 1) zeroes)" using view_put [of "m\<lparr>freeblock := ?b + 1 + 1\<rparr>" ?b] assms(1) u(3) by simp
  have z0: "fbs (view m) d k = 0" if "12 \<le> k" "k \<le> 140" for k using z that by (auto simp: fbs_eq)
  have g: "get32 (4 * (k - 12)) (put32 0 (?b + 1) zeroes) = 0" if "12 < k" "k < 140" for k
    using that lz by (subst get_put_other(4)) (simp_all add: get32_zeroes)
  have "fbs (view ?m) ?d k = (if k = 12 then ?b + 1 else if k = 140 then ?b else fbs (view m) d k)" if "k \<le> 140" for k
    using that l f vm lz z0 [of k] g [of k] by (auto simp: fbs_eq nth_list_update)
  then have "appended m d (length c) (?b + 1) ?d ?m"
    using assms u f vm l lz by (auto simp: appended_def need_def put_sect_ok BSIZE_def)
  then show ?thesis using run by blast
qed

lemma append_block_entry:
  assumes "img_ok m" "fresh m" "file_rep (view m) (unat (freeblock m)) d c" "12 * 512 < length c" "length c < 140 * 512"
    "length c mod 512 = 0" "unat (freeblock m) < 1000"
  shows "\<exists>x d' m'. append_block d (length c div 512) m = Inr ((x, d'), m') \<and> appended m d (length c) x d' m'"
proof -
  let ?k = "length c div 512" and ?b = "freeblock m" and ?a = "di_addrs d ! 12"
  let ?m = "put_sect ?a (put32 (4 * (?k - 12)) ?b (view m ?a)) (m\<lparr>freeblock := ?b + 1\<rparr>)"
  have k: "12 < ?k" "?k < 140" "?k * 512 = length c" "?k \<noteq> 12" using assms(4-6) by auto
  have a: "?a \<noteq> 0" "unat ?a < unat ?b" using file_repD(4) [OF assms(3)] file_repD(5) [OF assms(3), of 140] assms(4) by (auto simp: fbs_eq)
  then have a1: "unat ?a < 1000" using assms(7) by simp
  have l: "length (di_addrs d) = 13" by (rule file_repD(1) [OF assms(3)])
  have lv: "length (view m ?a) = 512" using length_view [OF assms(1)] by (simp add: BSIZE_def)
  have "fbs (view m) d ?k = 0" using file_repD(3) [OF assms(3), of ?k] k by auto
  then have g: "get32 (4 * (?k - 12)) (view m ?a) = 0" using k a(1) by (simp add: fbs_eq)
  have run: "append_block d ?k m = Inr ((?b, d), ?m)"
    using k a(1) g assms(1) a1
    by (simp add: append_block_def NDIRECT_def bind_def ret_def new_block_run rsect_run wsect_run)
  have vm: "view ?m = (view m)(?a := put32 (4 * (?k - 12)) ?b (view m ?a))" using view_put [of "m\<lparr>freeblock := ?b + 1\<rparr>" ?a] assms(1) a1 by simp
  have o: "get32 (4 * (j - 12)) (put32 (4 * (?k - 12)) ?b (view m ?a)) = get32 (4 * (j - 12)) (view m ?a)"
    if "12 \<le> j" "j < 140" "j \<noteq> ?k" for j
  proof -
    have "4 * (j - 12) + 4 \<le> 4 * (?k - 12) \<or> 4 * (?k - 12) + 4 \<le> 4 * (j - 12)"
      using that(1,3) k(1) by (cases "j < ?k") auto
    then show ?thesis using that k(1,2) lv by (intro get_put_other(4)) auto
  qed
  have "get32 (4 * (?k - 12)) (put32 (4 * (?k - 12)) ?b (view m ?a)) = ?b" using k lv by (intro get_put_same) auto
  then have e: "fbs (view ?m) d j = (if j = ?k then ?b else fbs (view m) d j)" if "j \<le> 140" for j
    using that a(1) vm k o [of j] by (auto simp: fbs_eq)
  have f: "?b \<noteq> 0" using assms(2) by (auto simp: fresh_def)
  have "appended m d (length c) ?b d ?m"
    using e assms f k lv a(1) l vm by (auto simp: appended_def need_def unat_inc put_sect_ok BSIZE_def fbs_eq)
  then show ?thesis using run by blast
qed

lemma append_block_run:
  assumes "img_ok m" "fresh m" "file_rep (view m) (unat (freeblock m)) d c" "length c < 140 * 512"
    "unat (freeblock m) + need (length c) \<le> 1000"
  shows "\<exists>x d' m'. append_block d (length c div 512) m = Inr ((x, d'), m') \<and> appended m d (length c) x d' m'"
proof -
  consider "length c mod 512 \<noteq> 0" | "length c mod 512 = 0" "length c < 12 * 512" | "length c = 12 * 512"
    | "length c mod 512 = 0" "12 * 512 < length c" by linarith
  then show ?thesis
  proof cases
    case 1
    have k: "length c div 512 < 140" "length c div 512 * 512 < length c"
      using assms(4) 1 by (auto, metis div_times_less_eq_dividend le_neq_implies_less mod_mult_self1_is_0 mult.commute)
    have "fbs (view m) d (length c div 512) \<noteq> 0" using file_repD(3) [OF assms(3) k(1)] k(2) by simp
    moreover have "length c \<noteq> 12 * 512" using 1 by auto
    ultimately have "appended m d (length c) (fbs (view m) d (length c div 512)) d m"
      using assms(1) 1 file_repD(1) [OF assms(3)] by (auto simp: appended_def need_def)
    moreover have "append_block d (length c div 512) m = Inr ((fbs (view m) d (length c div 512), d), m)"
      using assms(5) by (intro append_block_old [OF assms(1,3) _ assms(4) 1]) simp
    ultimately show ?thesis by blast
  next
    case 2
    then show ?thesis using append_block_direct [OF assms(1-3) 2(2,1)] assms(5) by (simp add: need_def split: if_splits)
  next
    case 3
    then show ?thesis using append_block_first_indirect [OF assms(1-3) 3] assms(5) by (simp add: need_def)
  next
    case 4
    then show ?thesis using append_block_entry [OF assms(1-3) 4(2) assms(4) 4(1)] assms(5) by (simp add: need_def split: if_splits)
  qed
qed

text \<open>What the blocks of the file are after the allocation.\<close>

lemma appended_blocks:
  assumes r: "file_rep (view m) (unat (freeblock m)) d c" and a: "appended m d (length c) x d' m'" and z: "length c < 140 * 512"
    and f: "fresh m" and n1: "0 < n1" "n1 \<le> 512 - length c mod 512"
  shows "k < 140 \<Longrightarrow> fbs (view m') d' k \<noteq> 0 \<longleftrightarrow> k * 512 < length c + n1"
    and "fbs (view m') d' 140 \<noteq> 0 \<longleftrightarrow> 12 * 512 < length c + n1"
    and "k \<le> 140 \<Longrightarrow> fbs (view m') d' k \<noteq> 0 \<Longrightarrow> 59 \<le> unat (fbs (view m') d' k) \<and> unat (fbs (view m') d' k) < unat (freeblock m')"
    and "j \<le> 140 \<Longrightarrow> k \<le> 140 \<Longrightarrow> fbs (view m') d' j \<noteq> 0 \<Longrightarrow> fbs (view m') d' j = fbs (view m') d' k \<Longrightarrow> j = k"
    and "x = fbs (view m') d' (length c div 512)"
proof -
  let ?z = "length c" and ?n = "unat (freeblock m)"
  have eq: "\<And>k. k \<le> 140 \<Longrightarrow> fbs (view m') d' k = (if k = ?z div 512 then x else if k = 140 \<and> ?z = 12 * 512 then freeblock m else fbs (view m) d k)"
    and x: "x \<noteq> 0" "?z mod 512 \<noteq> 0 \<Longrightarrow> x = fbs (view m) d (?z div 512)" "?z mod 512 = 0 \<Longrightarrow> unat x = ?n + need ?z - 1"
    and fb': "unat (freeblock m') = ?n + need ?z"
    using a by (auto simp: appended_def)
  have b: "?z div 512 < 140" using z by (simp add: less_mult_imp_div_less)
  have f59: "59 \<le> ?n" using f by (simp add: fresh_def)
  then have fz: "freeblock m \<noteq> 0" by auto
  show "x = fbs (view m') d' (?z div 512)" using eq [of "?z div 512"] b by simp
  show "fbs (view m') d' k \<noteq> 0 \<longleftrightarrow> k * 512 < ?z + n1" if "k < 140" for k
  proof -
    have "k * 512 < ?z + n1 \<longleftrightarrow> k = ?z div 512 \<or> k * 512 < ?z"
    proof -
      have "?z = 512 * (?z div 512) + ?z mod 512" by simp
      then have "?z + n1 \<le> 512 * (?z div 512) + 512" "512 * (?z div 512) < ?z + n1" using n1 mod_less_divisor [of 512 ?z] by linarith+
      then have u: "?z + n1 \<le> 512 * q + 512" "512 * q < ?z + n1" "512 * q \<le> ?z" if "q = ?z div 512" for q
        using that n1 mult_div_mod_eq [of 512 ?z] by auto
      show ?thesis using u [OF refl] n1 by (cases k "?z div 512" rule: linorder_cases) linarith+
    qed
    then show ?thesis using eq [of k] file_repD(3) [OF r that] x(1) that by auto
  qed
  show "fbs (view m') d' 140 \<noteq> 0 \<longleftrightarrow> 12 * 512 < ?z + n1"
  proof -
    have "12 * 512 < ?z + n1 \<longleftrightarrow> 12 * 512 \<le> ?z"
    proof -
      have "?z + n1 \<le> 512 * (?z div 512) + 512" using n1 mod_less_divisor [of 512 ?z] mult_div_mod_eq [of 512 ?z] by linarith
      moreover have "?z < 12 * 512 \<Longrightarrow> ?z div 512 < 12" by (simp add: less_mult_imp_div_less)
      ultimately show ?thesis using n1 by (cases "?z < 12 * 512") auto
    qed
    then show ?thesis using eq [of 140] file_repD(4) [OF r] b fz by (cases "?z = 12 * 512") auto
  qed
  have range: "59 \<le> unat (fbs (view m') d' k) \<and> unat (fbs (view m') d' k) < unat (freeblock m') \<and>
      (unat (fbs (view m') d' k) < ?n \<longrightarrow> fbs (view m') d' k = fbs (view m) d k) \<and>
      (?n \<le> unat (fbs (view m') d' k) \<longrightarrow> ?z mod 512 = 0 \<and>
        (k = ?z div 512 \<and> unat (fbs (view m') d' k) = ?n + need ?z - 1 \<or> k = 140 \<and> ?z = 12 * 512 \<and> unat (fbs (view m') d' k) = ?n))"
    if k: "k \<le> 140" "fbs (view m') d' k \<noteq> 0" for k
  proof -
    have old: "fbs (view m) d k \<noteq> 0 \<Longrightarrow> 59 \<le> unat (fbs (view m) d k) \<and> unat (fbs (view m) d k) < ?n"
      by (rule file_repD(5) [OF r k(1)])
    have nz: "?z mod 512 = 0 \<Longrightarrow> 1 \<le> need ?z" by (simp add: need_def)
    show ?thesis
    proof (cases "k = ?z div 512")
      case True
      then have "fbs (view m') d' k = x" using eq k(1) by simp
      then show ?thesis using True x old nz f59 fb' by (cases "?z mod 512 = 0") auto
    next
      case False
      then show ?thesis using eq [OF k(1)] k(2) old f59 fb' by (auto simp: need_def)
    qed
  qed
  show "59 \<le> unat (fbs (view m') d' k) \<and> unat (fbs (view m') d' k) < unat (freeblock m')" if "k \<le> 140" "fbs (view m') d' k \<noteq> 0" for k
    using range [OF that] by simp
  show "j = k" if jk: "j \<le> 140" "k \<le> 140" "fbs (view m') d' j \<noteq> 0" "fbs (view m') d' j = fbs (view m') d' k" for j k
  proof (cases "unat (fbs (view m') d' j) < ?n")
    case True
    then have "fbs (view m) d j = fbs (view m) d k" "fbs (view m) d j \<noteq> 0"
      using range [OF jk(1,3)] range [OF jk(2)] jk(3,4) by auto
    then show ?thesis using file_repD(6) [OF r jk(1,2)] by simp
  next
    case False
    then show ?thesis using range [OF jk(1,3)] range [OF jk(2)] jk(3,4) by (auto simp: need_def split: if_splits)
  qed
qed

section \<open>Appending bytes\<close>

lemma nb_step:
  assumes "0 < n1" "n1 \<le> 512 - z mod 512"
  shows "nb (z + n1) = nb z + need z"
proof -
  obtain q r where z: "z = 512 * q + r" "r < 512" "r = z mod 512" "q = z div 512"
    using mult_div_mod_eq [of 512 z] mod_less_divisor [of 512 z] by (metis zero_less_numeral)
  have "(z + n1 + 511) div 512 = q + 1" using z(1,2) assms by (intro div_nat_eqI) (simp_all add: z(3) [symmetric])
  moreover have "(z + 511) div 512 = (if r = 0 then q else q + 1)" using z(1,2) by (intro div_nat_eqI) simp_all
  moreover have "12 * 512 < z + n1 \<longleftrightarrow> 12 \<le> q" using z(1,2) assms by (auto simp: z(3) [symmetric])
  moreover have "12 * 512 < z \<longleftrightarrow> 12 \<le> q \<and> \<not> (q = 12 \<and> r = 0)" using z(1,2) by auto
  ultimately show ?thesis by (auto simp: nb_def need_def z(3,4) [symmetric])
qed

text \<open>
  \<open>extended m d c m' d' c'\<close>: the content of the file of \<open>d\<close> grew from \<open>c\<close> to \<open>c'\<close>; it took blocks only from
  the free ones, in order, and no block of anything else changed.
\<close>

definition extended :: "mkfs \<Rightarrow> dinode \<Rightarrow> byte list \<Rightarrow> mkfs \<Rightarrow> dinode \<Rightarrow> byte list \<Rightarrow> bool" where
  "extended m d c m' d' c' \<longleftrightarrow> img_ok m' \<and> fresh m' \<and> mk_sb m' = mk_sb m \<and> freeinode m' = freeinode m \<and>
     d' = d\<lparr>di_addrs := di_addrs d'\<rparr> \<and> file_rep (view m') (unat (freeblock m')) d' c' \<and>
     unat (freeblock m') + nb (length c) = unat (freeblock m) + nb (length c') \<and>
     (\<forall>k\<le>140. fbs (view m') d' k = fbs (view m) d k \<or> unat (freeblock m) \<le> unat (fbs (view m') d' k)) \<and>
     (\<forall>b. unat b < unat (freeblock m) \<longrightarrow> (\<forall>k\<le>140. fbs (view m) d k \<noteq> 0 \<longrightarrow> fbs (view m) d k \<noteq> b) \<longrightarrow> view m' b = view m b)"

lemma extended_refl: "img_ok m \<Longrightarrow> fresh m \<Longrightarrow> file_rep (view m) (unat (freeblock m)) d c \<Longrightarrow> extended m d c m d c"
  by (simp add: extended_def)

lemma extended_trans:
  assumes a: "extended m d c m1 d1 c1" and b: "extended m1 d1 c1 m2 d2 c2" and n: "nb (length c) \<le> nb (length c1)"
  shows "extended m d c m2 d2 c2"
proof -
  have le: "unat (freeblock m) \<le> unat (freeblock m1)" using a n by (simp add: extended_def)
  have "fbs (view m2) d2 k = fbs (view m) d k \<or> unat (freeblock m) \<le> unat (fbs (view m2) d2 k)" if "k \<le> 140" for k
    using a b le that unfolding extended_def by (metis order_trans)
  moreover have "view m2 x = view m x" if x: "unat x < unat (freeblock m)" "\<forall>k\<le>140. fbs (view m) d k \<noteq> 0 \<longrightarrow> fbs (view m) d k \<noteq> x" for x
  proof -
    have "fbs (view m1) d1 k \<noteq> x" if "k \<le> 140" "fbs (view m1) d1 k \<noteq> 0" for k
      using a that x unfolding extended_def by (metis not_le)
    then have "view m2 x = view m1 x" using b x(1) le unfolding extended_def by (metis order_less_le_trans)
    also have "view m1 x = view m x" using a x unfolding extended_def by blast
    finally show ?thesis .
  qed
  ultimately show ?thesis using a b unfolding extended_def by (cases d; cases d1; cases d2) auto
qed

lemma append_write:
  assumes r: "file_rep (view m) (unat (freeblock m)) d c" and f: "fresh m" and a: "appended m d (length c) x d' m'"
    and ok: "img_ok m" and z: "length c < 140 * 512" and bs: "bs \<noteq> []" "length bs \<le> 512 - length c mod 512"
    and cap: "unat (freeblock m') \<le> 1000"
  shows "extended m d c (put_sect x (splice (length c mod 512) bs (view m' x)) m') d' (c @ bs)"
proof -
  let ?z = "length c" and ?q = "length c div 512" and ?i = "fbs (view m') d' 140" and ?b = "splice (length c mod 512) bs (view m' x)"
  let ?m = "put_sect x ?b m'"
  have n1: "0 < length bs" using bs(1) by simp
  note ab = appended_blocks [OF r a z f n1 bs(2)]
  have ok': "img_ok m'" and x0: "x \<noteq> 0" and di: "d' = d\<lparr>di_addrs := di_addrs d'\<rparr>" and l: "length (di_addrs d') = 13"
    and fb': "unat (freeblock m') = unat (freeblock m) + need ?z" and fr: "mk_sb m' = mk_sb m" "freeinode m' = freeinode m"
    and eq: "\<And>k. k \<le> 140 \<Longrightarrow> fbs (view m') d' k = (if k = ?q then x else if k = 140 \<and> ?z = 12 * 512 then freeblock m else fbs (view m) d k)"
    and xo: "?z mod 512 \<noteq> 0 \<Longrightarrow> x = fbs (view m) d ?q" "?z mod 512 = 0 \<Longrightarrow> unat x = unat (freeblock m) + need ?z - 1"
    and vo: "\<And>b. b = 0 \<or> b \<noteq> ?i \<Longrightarrow> view m' b = view m b"
    using a by (auto simp: appended_def)
  have qb: "?q < 140" using z by (simp add: less_mult_imp_div_less)
  have zm: "512 * ?q + ?z mod 512 = ?z" "?z mod 512 < 512" by simp_all
  have xq: "x = fbs (view m') d' ?q" by (rule ab(5))
  have xi: "x \<noteq> ?i" using ab(4) [of ?q 140] qb x0 xq by auto
  have xr: "59 \<le> unat x" "unat x < unat (freeblock m')" using ab(3) [of ?q] qb x0 xq by auto
  have x1: "unat x < 1000" using xr(2) cap by simp
  have lv: "length (view m' x) = 512" using length_view [OF ok'] by (simp add: BSIZE_def)
  have bl: "?z mod 512 + length bs \<le> 512" using bs(2) zm(2) by linarith
  have vm: "view ?m = (view m')(x := ?b)" by (rule view_put [OF ok' x1])
  have mok: "img_ok ?m" using put_sect_ok [OF ok'] bl lv by (simp add: BSIZE_def)
  have e: "fbs (view ?m) d' k = fbs (view m') d' k" for k
    by (rule fbs_cong [OF refl]) (use xi in \<open>auto simp: vm fbs_eq\<close>)
  have vx: "view m' x = view m x" using vo xi by simp
  have need: "?z mod 512 = 0 \<Longrightarrow> 1 \<le> need ?z" by (simp add: need_def)
  have ir: "?i \<noteq> 0 \<Longrightarrow> unat ?i < unat (freeblock m')" using ab(3) [of 140] by simp
  have fresh: "fresh ?m"
  proof -
    have "view m' b = zeroes \<and> b \<noteq> x" if "unat (freeblock m') \<le> unat b" for b
    proof -
      have "b = 0 \<or> b \<noteq> ?i" using ir that by (cases "?i = 0") auto
      then show ?thesis using vo [of b] f that fb' xr(2) by (auto simp: fresh_def)
    qed
    then show ?thesis using f fb' by (simp add: fresh_def vm)
  qed
  have content: "view ?m (fbs (view m') d' (i div 512)) ! (i mod 512) = (if i < ?z + length bs then (c @ bs) ! i else 0)"
    if i: "i div 512 * 512 < ?z + length bs" for i
  proof (cases "i div 512 = ?q")
    case True
    have im: "i = 512 * ?q + i mod 512" "i mod 512 < 512" using True by (metis mult_div_mod_eq) simp
    have "view m x ! (i mod 512) = (if i < ?z then c ! i else 0)"
    proof (cases "?z mod 512 = 0")
      case True
      then have "view m x = zeroes" using xo(2) need f by (simp add: fresh_def)
      moreover have "\<not> i < ?z" using True im(1) zm(1) by linarith
      ultimately show ?thesis by (simp add: zeroes_def BSIZE_def)
    next
      case False
      have "i div 512 * 512 < ?z" using False True zm(1) by linarith
      then show ?thesis using file_repD(7) [OF r, of i] True xo(1) [OF False] by simp
    qed
    moreover have "?z mod 512 \<le> i mod 512 \<longleftrightarrow> ?z \<le> i" "i mod 512 < ?z mod 512 + length bs \<longleftrightarrow> i < ?z + length bs"
      "i mod 512 - ?z mod 512 = i - ?z" using im(1) zm(1) by linarith+
    moreover have "view ?m (fbs (view m') d' (i div 512)) = ?b" by (simp add: vm True xq [symmetric])
    then have "view ?m (fbs (view m') d' (i div 512)) ! (i mod 512) =
        (if ?z mod 512 \<le> i mod 512 \<and> i mod 512 < ?z mod 512 + length bs then bs ! (i mod 512 - ?z mod 512) else view m x ! (i mod 512))"
      using bl lv im(2) by (simp add: nth_splice flip: vx)
    ultimately show ?thesis by (auto simp: nth_append)
  next
    case False
    have kq: "i div 512 < ?q"
    proof (rule ccontr)
      assume "\<not> i div 512 < ?q"
      then have "?q + 1 \<le> i div 512" using False by simp
      then show False using i bl zm by linarith
    qed
    then have k: "i div 512 * 512 < ?z" "i < ?z" "i div 512 < 140" using zm qb mult_div_mod_eq [of 512 i] mod_less_divisor [of 512 i] by linarith+
    have old: "fbs (view m') d' (i div 512) = fbs (view m) d (i div 512)" using eq [of "i div 512"] False k(3) by simp
    have nz: "fbs (view m') d' (i div 512) \<noteq> 0" using ab(1) [OF k(3)] i by simp
    then have "fbs (view m') d' (i div 512) \<noteq> x" "fbs (view m') d' (i div 512) \<noteq> ?i"
      using ab(4) [of "i div 512" ?q] ab(4) [of "i div 512" 140] False xq k(3) qb by auto
    then show ?thesis using vo file_repD(7) [OF r k(1)] k(2) by (simp add: vm old nth_append)
  qed
  have rep: "file_rep (view ?m) (unat (freeblock m')) d' (c @ bs)"
  proof -
    have "?z + length bs \<le> 140 * 512" using bl zm qb by linarith
    then show ?thesis using l ab(1-4) content unfolding file_rep_def e length_append by (auto split: if_splits)
  qed
  have tr: "fbs (view ?m) d' k = fbs (view m) d k \<or> unat (freeblock m) \<le> unat (fbs (view ?m) d' k)" if "k \<le> 140" for k
    unfolding e using eq [OF that] xo need by (cases "?z mod 512 = 0") auto
  have frame: "view ?m b = view m b" if b: "unat b < unat (freeblock m)" "\<forall>k\<le>140. fbs (view m) d k \<noteq> 0 \<longrightarrow> fbs (view m) d k \<noteq> b" for b
  proof -
    have "b \<noteq> x" using b(1) spec [OF b(2), of ?q] xo need qb x0 by (cases "?z mod 512 = 0") auto
    moreover have "b = 0 \<or> b \<noteq> ?i" using tr [of 140] b unfolding e by (cases "?i = 0") auto
    ultimately show ?thesis using vo by (auto simp: vm)
  qed
  have "unat (freeblock m') + nb ?z = unat (freeblock m) + nb (length (c @ bs))" using nb_step [OF n1 bs(2)] fb' by simp
  then show ?thesis
    using mok fresh fr di rep tr frame unfolding extended_def by simp
qed

lemma nb_mono: "y \<le> z \<Longrightarrow> nb y \<le> nb z"
  unfolding nb_def by (intro add_mono div_le_mono) auto

lemma off_parts512:
  assumes "z < 140 * 512"
  shows "unat ((of_nat z :: u32) div 512) = z div 512" "unat (((of_nat z :: u32) div 512 + 1) * 512 - of_nat z) = 512 - z mod 512"
    "unat ((of_nat z :: u32) - (of_nat z div 512) * 512) = z mod 512"
proof -
  have u: "unat (of_nat z :: u32) = z" using assms by (simp add: unat_of_nat32)
  show d: "unat ((of_nat z :: u32) div 512) = z div 512" by (simp add: unat_div_distrib u)
  have q: "(of_nat z :: u32) div 512 = of_nat (z div 512)" by (simp add: word_unat_eq_iff d unat_of_nat32) (use assms in \<open>simp add: unat_of_nat32\<close>)
  have zz: "512 * (z div 512) \<le> z" "z \<le> 512 * (z div 512) + 512" "512 * (z div 512) + 512 - z = 512 - z mod 512"
    "z - 512 * (z div 512) = z mod 512"
    using mult_div_mod_eq [of 512 z] mod_less_divisor [of 512 z] by linarith+
  have "((of_nat z :: u32) div 512 + 1) * 512 - of_nat z = of_nat (512 * (z div 512) + 512 - z)"
    unfolding q using zz(2) by (subst of_nat_diff) (simp_all add: algebra_simps)
  then show "unat (((of_nat z :: u32) div 512 + 1) * 512 - of_nat z) = 512 - z mod 512"
    unfolding zz(3) by (simp only:) (rule unat_of_nat32, simp)
  have "(of_nat z :: u32) - (of_nat z div 512) * 512 = of_nat (z - 512 * (z div 512))"
    unfolding q using zz(1) by (subst of_nat_diff) (simp_all add: algebra_simps)
  then show "unat ((of_nat z :: u32) - (of_nat z div 512) * 512) = z mod 512" by (simp add: zz(4) unat_of_nat32)
qed

lemma append_loop_run:
  assumes "img_ok m" "fresh m" "file_rep (view m) (unat (freeblock m)) d c" "length c + length p \<le> 140 * 512"
    "unat (freeblock m) + nb (length c + length p) \<le> 1000 + nb (length c)" "length p < k"
  shows "\<exists>d' m'. append_loop k d (of_nat (length c)) p m = Inr ((d', of_nat (length c + length p)), m') \<and> extended m d c m' d' (c @ p)"
  using assms
proof (induction k arbitrary: m d c p)
  case (Suc k)
  show ?case
  proof (cases "p = []")
    case True
    then show ?thesis using Suc.prems by (auto simp: ret_def intro: extended_refl)
  next
    case False
    let ?z = "length c" and ?n1 = "min (length p) (512 - length c mod 512)"
    have z: "?z < 140 * 512" using False Suc.prems(4) by (cases p) auto
    have n1: "0 < ?n1" "?n1 \<le> 512 - ?z mod 512" "?n1 \<le> length p" using False by auto
    note op = off_parts512 [OF z]
    have nb1: "nb (?z + ?n1) = nb ?z + need ?z" by (rule nb_step [OF n1(1,2)])
    have nb2: "nb (?z + ?n1) \<le> nb (?z + length p)" by (rule nb_mono) simp
    have cap: "unat (freeblock m) + need ?z \<le> 1000" using Suc.prems(5) nb1 nb2 by linarith
    obtain x d1 m1 where ab: "append_block d (?z div 512) m = Inr ((x, d1), m1)" and ap: "appended m d ?z x d1 m1"
      using append_block_run [OF Suc.prems(1-3) z cap] by blast
    have fb1: "unat (freeblock m1) = unat (freeblock m) + need ?z" and ok1: "img_ok m1" using ap by (auto simp: appended_def)
    let ?bs = "take ?n1 p" and ?m2 = "put_sect x (splice (?z mod 512) (take ?n1 p) (view m1 x)) m1"
    have bs: "?bs \<noteq> []" "length ?bs \<le> 512 - ?z mod 512" "length ?bs = ?n1" using False by auto
    have ex: "extended m d c ?m2 d1 (c @ ?bs)"
      using fb1 cap by (intro append_write [OF Suc.prems(3,2) ap Suc.prems(1) z bs(1,2)]) simp
    have x1: "unat x < 1000"
    proof -
      have "x \<noteq> 0" and xq: "x = fbs (view m1) d1 (?z div 512)" using ap appended_blocks(5) [OF Suc.prems(3) ap z Suc.prems(2) n1(1,2)]
        by (auto simp: appended_def)
      then have "unat x < unat (freeblock m1)"
        using appended_blocks(3) [OF Suc.prems(3) ap z Suc.prems(2) n1(1,2), of "?z div 512"] z by (simp add: less_mult_imp_div_less)
      then show ?thesis using fb1 cap by simp
    qed
    have l: "length (c @ ?bs) + length (drop ?n1 p) = ?z + length p" using bs(3) n1(3) by simp
    have l1: "(of_nat (length (c @ ?bs)) :: u32) = of_nat ?z + of_nat ?n1" by (simp only: length_append bs(3) of_nat_add)
    have cp: "(c @ ?bs) @ drop ?n1 p = c @ p" by simp
    have "\<exists>d' m'. append_loop k d1 (of_nat (length (c @ ?bs))) (drop ?n1 p) ?m2 =
        Inr ((d', of_nat (length (c @ ?bs) + length (drop ?n1 p))), m') \<and> extended ?m2 d1 (c @ ?bs) m' d' ((c @ ?bs) @ drop ?n1 p)"
    proof (rule Suc.IH)
      show "img_ok ?m2" "fresh ?m2" "file_rep (view ?m2) (unat (freeblock ?m2)) d1 (c @ ?bs)" using ex unfolding extended_def by blast+
      show "length (c @ ?bs) + length (drop ?n1 p) \<le> 140 * 512" unfolding l by (rule Suc.prems(4))
      have "unat (freeblock ?m2) = unat (freeblock m) + need ?z" "nb (length (c @ ?bs)) = nb ?z + need ?z"
        using fb1 nb1 bs(3) by (simp_all only: put_sect_fields length_append)
      then show "unat (freeblock ?m2) + nb (length (c @ ?bs) + length (drop ?n1 p)) \<le> 1000 + nb (length (c @ ?bs))"
        unfolding l using Suc.prems(5) by linarith
      show "length (drop ?n1 p) < k" unfolding length_drop using Suc.prems(6) n1(1,3) by linarith
    qed
    then obtain d' m' where lo: "append_loop k d1 (of_nat ?z + of_nat ?n1) (drop ?n1 p) ?m2 = Inr ((d', of_nat (?z + length p)), m')"
      and ex2: "extended ?m2 d1 (c @ ?bs) m' d' (c @ p)" unfolding l l1 cp by blast
    have "nb ?z \<le> nb (length (c @ ?bs))" by (rule nb_mono) simp
    then have "extended m d c m' d' (c @ p)" by (rule extended_trans [OF ex ex2])
    moreover have "append_loop (Suc k) d (of_nat ?z) p m = Inr ((d', of_nat (?z + length p)), m')"
      using False ab z lo op rsect_run [OF ok1 x1] wsect_run [OF ok1 x1]
      by (simp add: Let_def bind_def MAXFILE_def less_mult_imp_div_less)
    ultimately show ?thesis by blast
  qed
qed simp

section \<open>The image as a table of files\<close>

text \<open>
  The abstract state is the list of the files so far, type and content; the inode of entry \<open>i\<close> is \<open>i + 1\<close>.
  \<open>img_rep m F\<close>: the image of \<open>m\<close> holds exactly \<open>F\<close>, in different blocks taken one after the other behind
  the meta blocks; the other inodes are free, the boot block, the log and the bitmap are zero.
\<close>

type_synonym ftable = "(u16 \<times> byte list) list"

definition blocks :: "ftable \<Rightarrow> nat" where
  "blocks F = sum_list (map (\<lambda>f. nb (length (snd f))) F)"

definition ino :: "nat \<Rightarrow> u32" where
  "ino i = of_nat (Suc i)"

abbreviation din :: "mkfs \<Rightarrow> nat \<Rightarrow> dinode" where
  "din m i \<equiv> dinode_at (view m) mk_superblock (ino i)"

definition inode_rep :: "mkfs \<Rightarrow> dinode \<Rightarrow> u16 \<times> byte list \<Rightarrow> bool" where
  "inode_rep m d f \<longleftrightarrow> di_type d = fst f \<and> di_major d = 0 \<and> di_minor d = 0 \<and> di_nlink d = 1 \<and>
     di_size d = of_nat (length (snd f)) \<and> file_rep (view m) (unat (freeblock m)) d (snd f)"

definition apart :: "mkfs \<Rightarrow> dinode \<Rightarrow> dinode \<Rightarrow> bool" where
  "apart m d e \<longleftrightarrow> (\<forall>k\<le>140. \<forall>l\<le>140. fbs (view m) d k \<noteq> 0 \<longrightarrow> fbs (view m) d k \<noteq> fbs (view m) e l)"

definition img_rep :: "mkfs \<Rightarrow> ftable \<Rightarrow> bool" where
  "img_rep m F \<longleftrightarrow> img_ok m \<and> fresh m \<and> mk_sb m = mk_superblock \<and> length F < 200 \<and> unat (freeinode m) = length F + 1 \<and>
     unat (freeblock m) = 59 + blocks F \<and> unat (freeblock m) \<le> 1000 \<and> view m 1 = write_superblock mk_superblock zeroes \<and>
     (\<forall>b. unat b < 59 \<and> b \<noteq> 1 \<and> \<not> (32 \<le> unat b \<and> unat b < 58) \<longrightarrow> view m b = zeroes) \<and>
     (\<forall>i<length F. inode_rep m (din m i) (F ! i)) \<and> (\<forall>i. length F \<le> i \<and> i < 199 \<longrightarrow> din m i = zero_dinode) \<and>
     (\<forall>i<length F. \<forall>j<length F. i \<noteq> j \<longrightarrow> apart m (din m i) (din m j))"

lemma img_repD:
  assumes "img_rep m F"
  shows "img_ok m" "fresh m" "mk_sb m = mk_superblock" "length F < 200" "unat (freeinode m) = length F + 1"
    "unat (freeblock m) = 59 + blocks F" "unat (freeblock m) \<le> 1000" "view m 1 = write_superblock mk_superblock zeroes"
    "unat b < 59 \<Longrightarrow> b \<noteq> 1 \<Longrightarrow> \<not> (32 \<le> unat b \<and> unat b < 58) \<Longrightarrow> view m b = zeroes"
    "i < length F \<Longrightarrow> inode_rep m (din m i) (F ! i)" "length F \<le> i \<Longrightarrow> i < 199 \<Longrightarrow> din m i = zero_dinode"
    "i < length F \<Longrightarrow> j < length F \<Longrightarrow> i \<noteq> j \<Longrightarrow> apart m (din m i) (din m j)"
  using assms by (simp_all add: img_rep_def)

lemma unat_inum: "i < 199 \<Longrightarrow> unat (ino i) = Suc i"
  unfolding ino_def by (rule unat_of_nat32) simp

lemma inum_small:
  assumes "i < 199"
  shows "ino i < sb_ninodes mk_superblock" "unat (IBLOCK (ino i) mk_superblock) = 32 + Suc i div 8"
    "32 \<le> unat (IBLOCK (ino i) mk_superblock)" "unat (IBLOCK (ino i) mk_superblock) < 58"
proof -
  show a: "ino i < sb_ninodes mk_superblock" using assms unat_inum [OF assms] by (simp add: word_less_nat_alt mk_sb_eq)
  show b: "unat (IBLOCK (ino i) mk_superblock) = 32 + Suc i div 8"
    using assms unat_IBLOCK [OF mk_sb_wf(1) a] unat_inum [OF assms] by (simp add: mk_sb_eq)
  show "32 \<le> unat (IBLOCK (ino i) mk_superblock)" "unat (IBLOCK (ino i) mk_superblock) < 58" using assms unfolding b by simp_all
qed

lemma rinode_run:
  assumes "img_ok m" "mk_sb m = mk_superblock" "i < 199"
  shows "rinode (ino i) m = Inr (din m i, m)"
  using inum_small [OF assms(3)] assms(1,2) rsect_run [OF assms(1), of "IBLOCK (ino i) mk_superblock"]
  by (simp add: rinode_def bind_def get_def ret_def dinode_at_def)

definition put_inode :: "nat \<Rightarrow> dinode \<Rightarrow> mkfs \<Rightarrow> mkfs" where
  "put_inode i d m = put_sect (IBLOCK (ino i) mk_superblock)
     (write_dinode (dinode_off (ino i)) d (view m (IBLOCK (ino i) mk_superblock))) m"

lemma put_inode_run:
  assumes "img_ok m" "mk_sb m = mk_superblock" "i < 199" "length (di_addrs d) = 13"
  shows "winode (ino i) d m = Inr ((), put_inode i d m)" "img_ok (put_inode i d m)"
    "j < 199 \<Longrightarrow> din (put_inode i d m) j = (if j = i then d else din m j)"
    "unat b < 32 \<or> 58 \<le> unat b \<Longrightarrow> view (put_inode i d m) b = view m b"
    "mk_sb (put_inode i d m) = mk_superblock" "freeblock (put_inode i d m) = freeblock m" "freeinode (put_inode i d m) = freeinode m"
proof -
  let ?b = "IBLOCK (ino i) mk_superblock" and ?n = "ino i"
  note n = inum_small [OF assms(3)] and l = length_view [OF assms(1), of ?b]
  have b1: "unat ?b < 1000" using n by simp
  show "winode (ino i) d m = Inr ((), put_inode i d m)"
    using assms(1,2) b1 rsect_run [OF assms(1) b1] wsect_run [OF assms(1) b1]
    by (simp add: winode_def bind_def get_def ret_def put_inode_def)
  show "img_ok (put_inode i d m)"
    using l assms(4) dinode_off_bound [of ?n] by (simp add: put_inode_def put_sect_ok [OF assms(1)] NDIRECT_def)
  have v: "view (put_inode i d m) = (view m)(?b := write_dinode (dinode_off ?n) d (view m ?b))"
    unfolding put_inode_def by (rule view_put [OF assms(1) b1])
  show "view (put_inode i d m) b = view m b" if "unat b < 32 \<or> 58 \<le> unat b" using that n by (auto simp: v)
  show "din (put_inode i d m) j = (if j = i then d else din m j)" if j: "j < 199"
  proof -
    have "ino j = ino i \<longleftrightarrow> j = i"
    proof -
      have "unat (ino i) = Suc i" "unat (ino j) = Suc j" using assms(3) j by (simp_all only: unat_inum)
      then show ?thesis by (metis Suc_inject)
    qed
    moreover have a: "length (di_addrs d) = NDIRECT + 1" using assms(4) by (simp add: NDIRECT_def)
    ultimately show ?thesis
      unfolding v using dinode_at_write [where v = "view m", OF mk_sb_wf(1) n(1) l a inum_small(1) [OF j]] by simp
  qed
  show "mk_sb (put_inode i d m) = mk_superblock" "freeblock (put_inode i d m) = freeblock m" "freeinode (put_inode i d m) = freeinode m"
    using assms(2) by (simp_all add: put_inode_def)
qed

lemma blocks_update: "i < length F \<Longrightarrow> blocks (F[i := f]) + nb (length (snd (F ! i))) = blocks F + nb (length (snd f))"
  by (induction F arbitrary: i) (auto simp: blocks_def split: nat.split)

lemma inode_rep_frame:
  assumes "inode_rep m d f" "\<And>k. k \<le> 140 \<Longrightarrow> fbs (view m) d k \<noteq> 0 \<Longrightarrow> view m' (fbs (view m) d k) = view m (fbs (view m) d k)"
    and "unat (freeblock m) \<le> unat (freeblock m')"
  shows "inode_rep m' d f" and "fbs (view m') d k = fbs (view m) d k"
proof -
  have r: "file_rep (view m) (unat (freeblock m)) d (snd f)" using assms(1) by (simp add: inode_rep_def)
  show "fbs (view m') d k = fbs (view m) d k" by (rule file_rep_frame(2) [OF r assms(2,3) refl])
  show "inode_rep m' d f" using assms(1) file_rep_frame(1) [OF r assms(2,3) refl] by (simp add: inode_rep_def)
qed

lemma inode_repD:
  assumes "inode_rep m d f"
  shows "file_rep (view m) (unat (freeblock m)) d (snd f)" "length (di_addrs d) = 13"
    "k \<le> 140 \<Longrightarrow> fbs (view m) d k \<noteq> 0 \<Longrightarrow> 59 \<le> unat (fbs (view m) d k) \<and> unat (fbs (view m) d k) < unat (freeblock m)"
  using assms file_repD(1,5) by (auto simp: inode_rep_def)

text \<open>Extending one file, then writing its inode back, leaves a table with that file changed.\<close>

lemma extended_table:
  assumes r: "img_rep m F" and i: "i < length F" and e: "extended m (din m i) (snd (F ! i)) m1 d c"
    and b: "unat (freeblock m1) \<le> 1000" and g: "length (snd (F ! i)) \<le> length c"
  shows "img_rep (put_inode i (d\<lparr>di_size := of_nat (length c)\<rparr>) m1) (F[i := (fst (F ! i), c)])"
proof -
  let ?d = "d\<lparr>di_size := of_nat (length c)\<rparr>"
  let ?m = "put_inode i ?d m1" and ?F = "F[i := (fst (F ! i), c)]"
  note D = img_repD [OF r] and E = e [unfolded extended_def]
  have i1: "i < 199" using i D(4) by simp
  have ri: "inode_rep m (din m i) (F ! i)" by (rule D(10) [OF i])
  have ok1: "img_ok m1" and sb1: "mk_sb m1 = mk_superblock" and fr: "file_rep (view m1) (unat (freeblock m1)) d c" and f1: "fresh m1"
    and de: "d = (din m i)\<lparr>di_addrs := di_addrs d\<rparr>" and fi: "freeinode m1 = freeinode m"
    and tr: "\<And>k. k \<le> 140 \<Longrightarrow> fbs (view m1) d k = fbs (view m) (din m i) k \<or> unat (freeblock m) \<le> unat (fbs (view m1) d k)"
    and nbs: "unat (freeblock m1) + nb (length (snd (F ! i))) = unat (freeblock m) + nb (length c)"
    using E D(3) by simp_all
  have l: "length (di_addrs ?d) = 13" using file_repD(1) [OF fr] by simp
  note P = put_inode_run [OF ok1 sb1 i1 l]
  have inc: "unat (freeblock m) \<le> unat (freeblock m1)" using nbs nb_mono [OF g] by linarith
  have low: "view m1 b = view m b" if "unat b < 59" for b
  proof -
    have "fbs (view m) (din m i) k \<noteq> b" if "k \<le> 140" "fbs (view m) (din m i) k \<noteq> 0" for k
      using inode_repD(3) [OF ri that] \<open>unat b < 59\<close> by auto
    then show ?thesis using E that D(6) by auto
  qed
  have dat: "dinode_at (view m1) mk_superblock (ino j) = din m j" if "j < 199" for j
    using low inum_small(4) [OF that] by (simp add: dinode_at_def)
  have dj: "din ?m j = (if j = i then ?d else din m j)" if "j < 199" for j using P(3) [OF that] dat [OF that] by simp
  have other: "view ?m (fbs (view m) (din m j) k) = view m (fbs (view m) (din m j) k)"
    if j: "j < length F" "j \<noteq> i" and k: "k \<le> 140" "fbs (view m) (din m j) k \<noteq> 0" for j k
  proof -
    let ?b = "fbs (view m) (din m j) k"
    have rg: "59 \<le> unat ?b" "unat ?b < unat (freeblock m)" using inode_repD(3) [OF D(10) [OF j(1)] k] by simp_all
    have "\<forall>l\<le>140. fbs (view m) (din m i) l \<noteq> 0 \<longrightarrow> fbs (view m) (din m i) l \<noteq> ?b"
      using D(12) [OF i j(1)] j(2) k(1) by (auto simp: apart_def)
    then have "view m1 ?b = view m ?b" using E rg(2) by blast
    then show ?thesis using P(4) rg(1) by simp
  qed
  have self: "view ?m (fbs (view m1) d k) = view m1 (fbs (view m1) d k)" if "k \<le> 140" "fbs (view m1) d k \<noteq> 0" for k
    using P(4) file_repD(5) [OF fr that] by simp
  have fs: "fbs (view ?m) ?d k = fbs (view m1) d k" for k by (rule file_rep_frame(2) [OF fr self order_refl]) simp_all
  have fo: "fbs (view ?m) (din m j) k = fbs (view m) (din m j) k" if "j < length F" "j \<noteq> i" for j k
    using other [OF that] inc by (intro inode_rep_frame(2) [OF D(10) [OF that(1)]]) (simp_all add: P)
  have reps: "inode_rep ?m (din ?m j) (?F ! j)" if j: "j < length F" for j
  proof (cases "j = i")
    case True
    have "file_rep (view ?m) (unat (freeblock ?m)) ?d c" using fr self by (intro file_rep_frame(1) [OF fr]) (simp_all add: P)
    moreover have "di_type d = di_type (din m i)" "di_major d = di_major (din m i)" "di_minor d = di_minor (din m i)" "di_nlink d = di_nlink (din m i)"
      by (subst de, simp)+
    ultimately show ?thesis using True i dj [OF i1] ri by (auto simp: inode_rep_def)
  next
    case False
    have "inode_rep ?m (din m j) (F ! j)" using other [OF j False] inc by (intro inode_rep_frame(1) [OF D(10) [OF j]]) (simp_all add: P)
    then show ?thesis using False dj [of j] j D(4) by simp
  qed
  have ap: "apart ?m (din ?m j) (din ?m j')" if j: "j < length F" "j' < length F" "j \<noteq> j'" for j j'
  proof -
    have rg: "unat (fbs (view m) (din m j) k) < unat (freeblock m)" if "j < length F" "k \<le> 140" "fbs (view m) (din m j) k \<noteq> 0" for j k
      using inode_repD(3) [OF D(10) [OF that(1)] that(2,3)] by simp
    have am: "apart m (din m j) (din m j')" by (rule D(12) [OF j])
    consider "j = i" "j' \<noteq> i" | "j \<noteq> i" "j' = i" | "j \<noteq> i" "j' \<noteq> i" using j(3) by auto
    then show ?thesis
    proof cases
      case 1
      have "fbs (view m1) d k \<noteq> fbs (view m) (din m j') l" if "k \<le> 140" "l \<le> 140" "fbs (view m1) d k \<noteq> 0" for k l
        using tr [OF that(1)] am rg [OF j(2) that(2)] that 1(1) unfolding apart_def by (metis not_le)
      then show ?thesis using 1 dj [of j] dj [of j'] j D(4) by (simp add: apart_def fs fo)
    next
      case 2
      have "fbs (view m) (din m j) k \<noteq> fbs (view m1) d l" if "k \<le> 140" "l \<le> 140" "fbs (view m) (din m j) k \<noteq> 0" for k l
        using tr [OF that(2)] am rg [OF j(1) that(1,3)] that 2(2) unfolding apart_def by (metis not_le)
      then show ?thesis using 2 dj [of j] dj [of j'] j D(4) by (simp add: apart_def fs fo)
    next
      case 3
      then show ?thesis using am dj [of j] dj [of j'] j D(4) by (simp add: apart_def fo)
    qed
  qed
  have free: "din ?m j = zero_dinode" if "length F \<le> j" "j < 199" for j
    using dj [OF that(2)] D(11) [OF that] that(1) i by simp
  have low2: "view ?m b = view m b" if "unat b < 59" "\<not> (32 \<le> unat b \<and> unat b < 58)" for b
    using P(4) [of b] low [OF that(1)] that(2) by auto
  have "fresh ?m" using f1 P(4) by (auto simp: fresh_def P)
  moreover have "unat (freeblock m1) = 59 + blocks ?F" using nbs blocks_update [OF i, of "(fst (F ! i), c)"] D(6) by simp
  ultimately show ?thesis
    using P(2,5-7) D(4,5,8) b fi low2 low2 [of 1] D(9) reps free ap unfolding img_rep_def length_list_update by simp
qed

theorem iappend_run:
  assumes r: "img_rep m F" and i: "i < length F" and F': "F' = F[i := (fst (F ! i), snd (F ! i) @ p)]"
    and z: "length (snd (F ! i)) + length p \<le> 140 * 512" and b: "59 + blocks F' \<le> 1000"
  shows "\<exists>m'. iappend (ino i) p m = Inr ((), m') \<and> img_rep m' F'"
proof -
  let ?c = "snd (F ! i)"
  note D = img_repD [OF r]
  have i1: "i < 199" using i D(4) by simp
  have ri: "inode_rep m (din m i) (F ! i)" by (rule D(10) [OF i])
  have sz: "di_size (din m i) = of_nat (length ?c)" using ri by (simp add: inode_rep_def)
  have bl: "blocks F' + nb (length ?c) = blocks F + nb (length ?c + length p)" using blocks_update [OF i] by (simp add: F')
  have "unat (freeblock m) + nb (length ?c + length p) \<le> 1000 + nb (length ?c)" using bl b D(6) by linarith
  then obtain d m1 where lo: "append_loop (Suc (length p)) (din m i) (of_nat (length ?c)) p m = Inr ((d, of_nat (length ?c + length p)), m1)"
    and e: "extended m (din m i) ?c m1 d (?c @ p)"
    using append_loop_run [OF D(1,2) inode_repD(1) [OF ri] z _ lessI] by blast
  let ?d = "d\<lparr>di_size := of_nat (length (?c @ p))\<rparr>"
  have ok1: "img_ok m1" "mk_sb m1 = mk_superblock" and l: "length (di_addrs ?d) = 13"
    and fb1: "unat (freeblock m1) + nb (length ?c) = unat (freeblock m) + nb (length ?c + length p)"
    using e D(3) file_repD(1) by (auto simp: extended_def)
  have b1: "unat (freeblock m1) \<le> 1000" using fb1 bl b D(6) by linarith
  have "iappend (ino i) p m = Inr ((), put_inode i ?d m1)"
    using put_inode_run(1) [OF ok1 i1 l] lo rinode_run [OF D(1,3) i1] by (simp add: iappend_def bind_def sz del: append_loop.simps)
  moreover have "img_rep (put_inode i ?d m1) F'" unfolding F' by (rule extended_table [OF r i e b1]) simp
  ultimately show ?thesis by blast
qed

lemma file_rep_Nil: "59 \<le> n \<Longrightarrow> di_addrs d = replicate 13 0 \<Longrightarrow> file_rep v n d [] \<and> fbs v d k = 0"
  unfolding file_rep_def by (auto simp: fbs_eq)

theorem mk_ialloc_run:
  assumes r: "img_rep m F" and n: "length F < 199"
  shows "\<exists>m'. mk_ialloc t m = Inr (ino (length F), m') \<and> img_rep m' (F @ [(t, [])])"
proof -
  let ?n = "length F" and ?d = "zero_dinode\<lparr>di_type := t, di_nlink := 1\<rparr>"
  let ?m1 = "m\<lparr>freeinode := freeinode m + 1\<rparr>"
  let ?m = "put_inode ?n ?d ?m1"
  note D = img_repD [OF r]
  have ok1: "img_ok ?m1" "mk_sb ?m1 = mk_superblock" and l: "length (di_addrs ?d) = 13" using D(1,3) by (simp_all add: zero_dinode_def)
  note P = put_inode_run [OF ok1 n l]
  have fi: "freeinode m = ino ?n" using D(5) n by (simp add: word_unat_eq_iff unat_inum)
  have fi1: "unat (freeinode m + 1) = ?n + 2" using D(5) n by (subst unat_inc) simp_all
  have run: "mk_ialloc t m = Inr (ino ?n, ?m)"
    using P(1) by (simp add: mk_ialloc_def bind_def get_def upd_def ret_def fi zero_dinode_def)
  have f59: "59 \<le> unat (freeblock m)" using D(6) by simp
  have dj: "din ?m j = (if j = ?n then ?d else din m j)" if "j < 199" for j using P(3) [OF that] by simp
  have keep: "view ?m b = view m b" if "unat b < 32 \<or> 58 \<le> unat b" for b using P(4) [OF that] by simp
  have same: "view ?m (fbs (view m) (din m j) k) = view m (fbs (view m) (din m j) k)"
    if "j < ?n" "k \<le> 140" "fbs (view m) (din m j) k \<noteq> 0" for j k
    using inode_repD(3) [OF D(10) [OF that(1)] that(2,3)] by (intro keep) simp
  have fo: "fbs (view ?m) (din m j) k = fbs (view m) (din m j) k" if "j < ?n" for j k
    using same [OF that] by (intro inode_rep_frame(2) [OF D(10) [OF that]]) (simp_all add: P)
  have new: "file_rep (view ?m) (unat (freeblock m)) ?d [] \<and> fbs (view ?m) ?d k = 0" for k
    by (rule file_rep_Nil [OF f59]) (simp add: zero_dinode_def)
  have reps: "inode_rep ?m (din ?m j) ((F @ [(t, [])]) ! j)" if j: "j < Suc ?n" for j
  proof (cases "j = ?n")
    case True
    have "di_major ?d = 0" "di_minor ?d = 0" "di_size ?d = 0" by (simp_all add: zero_dinode_def)
    then show ?thesis using True new n dj [of j] by (simp add: inode_rep_def P)
  next
    case False
    then have j: "j < ?n" using j by simp
    have "inode_rep ?m (din m j) (F ! j)" using same [OF j] by (intro inode_rep_frame(1) [OF D(10) [OF j]]) (simp_all add: P)
    then show ?thesis using j n dj [of j] by (simp add: nth_append)
  qed
  have ap: "apart ?m (din ?m j) (din ?m j')" if j: "j < Suc ?n" "j' < Suc ?n" "j \<noteq> j'" for j j'
  proof (cases "j = ?n \<or> j' = ?n")
    case True
    then show ?thesis using j n dj [of j] dj [of j'] new by (auto simp: apart_def)
  next
    case False
    then have "j < ?n" "j' < ?n" using j by auto
    then show ?thesis using D(12) [of j j'] j(3) n dj [of j] dj [of j'] by (simp add: apart_def fo)
  qed
  have "view ?m b = zeroes" if "unat b < 59 \<and> b \<noteq> 1 \<and> \<not> (32 \<le> unat b \<and> unat b < 58)" for b
    using that keep [of b] D(9) [of b] by (cases "unat b < 32") auto
  moreover have "view ?m 1 = write_superblock mk_superblock zeroes" using keep [of 1] D(8) by simp
  moreover have "fresh ?m" using D(2) f59 keep by (auto simp: fresh_def P)
  moreover have "blocks (F @ [(t, [])]) = blocks F" by (simp add: blocks_def nb_def)
  ultimately have "img_rep ?m (F @ [(t, [])])"
    using P(2,5-7) D(3,6,7) n fi1 reps ap D(11) dj unfolding img_rep_def length_append_singleton by simp
  then show ?thesis using run by blast
qed

section \<open>Formatting\<close>

lemma length_zeroes [simp]: "length zeroes = 512"
  by (simp add: zeroes_def BSIZE_def)

lemma zero_sectors_run:
  "k \<le> n \<Longrightarrow> n \<le> 1000 \<Longrightarrow> img m = replicate k zeroes \<Longrightarrow> zero_sectors [k..<n] m = Inr ((), m\<lparr>img := replicate n zeroes\<rparr>)"
proof (induction "n - k" arbitrary: k m)
  case 0
  then show ?case by (simp add: ret_def)
next
  case (Suc d)
  then have k: "k < n" by simp
  have u: "unat (of_nat k :: u32) = k" using Suc.prems(2) k by (intro unat_of_nat32) simp
  have "(replicate k zeroes @ [zeroes])[k := zeroes] = replicate (Suc k) zeroes"
    using list_update_length [of "replicate k zeroes" zeroes "[]" zeroes] by (metis length_replicate replicate_append_same replicate_Suc)
  then have w: "wsect (of_nat k) zeroes m = Inr ((), m\<lparr>img := replicate (Suc k) zeroes\<rparr>)"
    using Suc.prems(3) by (simp add: wsect_def upd_def u)
  have "zero_sectors [Suc k..<n] (m\<lparr>img := replicate (Suc k) zeroes\<rparr>) = Inr ((), m\<lparr>img := replicate n zeroes\<rparr>)"
    using Suc.hyps(1) [of "Suc k" "m\<lparr>img := replicate (Suc k) zeroes\<rparr>"] Suc.hyps(2) Suc.prems(2) k by simp
  then show ?case using w k by (simp add: upt_conv_Cons bind_def)
qed

lemma get16_zeroes: "o4 + 2 \<le> 512 \<Longrightarrow> get16 o4 zeroes = 0"
proof -
  assume "o4 + 2 \<le> 512"
  then have "slice o4 2 zeroes = replicate 2 0" by (simp add: slice_def drop_replicate zeroes_def BSIZE_def)
  then show ?thesis by (simp add: get16_def numeral_eq_Suc)
qed

lemma read_dinode_zeroes:
  assumes "o4 + 64 \<le> 512"
  shows "read_dinode o4 zeroes = zero_dinode"
proof -
  have "gets32 (o4 + 12) 13 zeroes = replicate 13 0"
    using assms by (intro nth_equalityI) (auto simp: gets32_def get32_zeroes)
  then show ?thesis using assms by (simp add: read_dinode_def zero_dinode_def NDIRECT_def get16_zeroes get32_zeroes)
qed

lemma mk_format_run:
  assumes "freeinode m = 1"
  shows "\<exists>m'. mk_format m = Inr ((), m') \<and> img_rep m' []"
proof -
  let ?m = "m\<lparr>mk_sb := mk_superblock, freeblock := mk_nmeta, img := replicate 1000 zeroes\<rparr>"
  let ?sbb = "write_superblock mk_superblock zeroes"
  have z: "zero_sectors [0..<unat FSSIZE] (m\<lparr>img := [], mk_sb := mk_superblock, freeblock := mk_nmeta\<rparr>) = Inr ((), ?m)"
    using zero_sectors_run [of 0 1000 "m\<lparr>img := [], mk_sb := mk_superblock, freeblock := mk_nmeta\<rparr>"] by (simp add: FSSIZE_def)
  have ok: "img_ok ?m" by (simp add: img_ok_def BSIZE_def)
  have run: "mk_format m = Inr ((), put_sect 1 ?sbb ?m)"
    using z wsect_run [OF ok, of 1 ?sbb] by (simp add: mk_format_def bind_def upd_def)
  have nm: "unat mk_nmeta = 59" by (simp add: mk_nmeta_def nlog_def ninodeblocks_def nbitmap_def NINODES_def FSSIZE_def LOGSIZE_def IPB_def)
  have "view ?m b = zeroes" for b by (simp add: view_def)
  then have v: "view (put_sect 1 ?sbb ?m) = (\<lambda>b. if b = 1 then ?sbb else zeroes)" using view_put [OF ok, of 1 ?sbb] by auto
  have d: "din (put_sect 1 ?sbb ?m) i = zero_dinode" if "i < 199" for i
  proof -
    have "IBLOCK (ino i) mk_superblock \<noteq> 1" using inum_small(3) [OF that] by auto
    then show ?thesis using dinode_off_bound [of "ino i"] by (simp add: dinode_at_def v read_dinode_zeroes BSIZE_def)
  qed
  have "img_ok (put_sect 1 ?sbb ?m)" by (rule put_sect_ok [OF ok]) (simp add: BSIZE_def write_superblock_def)
  then have "img_rep (put_sect 1 ?sbb ?m) []" using assms nm d by (auto simp: img_rep_def fresh_def v blocks_def)
  then show ?thesis using run by blast
qed

section \<open>Adding the files\<close>

lemma base_count_eq:
  "base_count p j = (if 47 \<in> set p then int (length (takeWhile (\<lambda>c. c \<noteq> 47) (rev p))) else j + int (length p))"
  by (induction p arbitrary: j) (auto simp: takeWhile_append)

text \<open>The base name is what follows the last slash, so the assertion on it cannot fail.\<close>

lemma base_name_eq: "base_name p = rev (takeWhile (\<lambda>c. c \<noteq> 47) (rev p))"
proof (cases "47 \<in> set p")
  case True
  have l: "length (takeWhile (\<lambda>c. c \<noteq> 47) (rev p)) \<le> length p" using length_takeWhile_le [of "\<lambda>c. c \<noteq> 47" "rev p"] by simp
  have "rev (takeWhile (\<lambda>c. c \<noteq> 47) (rev p)) = rev (take (length (takeWhile (\<lambda>c. c \<noteq> 47) (rev p))) (rev p))"
    by (simp add: takeWhile_eq_take [symmetric])
  then show ?thesis using True l by (simp add: base_name_def base_count_eq nat_diff_distrib rev_take flip: of_nat_diff)
next
  case False
  then have "takeWhile (\<lambda>c. c \<noteq> 47) (rev p) = rev p" by (auto simp: takeWhile_eq_all_conv)
  moreover have "base_name p = p" using False by (simp add: base_name_def base_count_eq)
  ultimately show ?thesis by (simp only: rev_rev_ident)
qed

lemma base_name_no_slash: "47 \<notin> set (base_name p)"
  using set_takeWhileD [of 47 "\<lambda>c. c \<noteq> 47" "rev p"] by (auto simp: base_name_eq)

definition file_data :: "byte list list \<Rightarrow> byte list" where
  "file_data chunks = concat (takeWhile (\<lambda>c. c \<noteq> []) chunks)"

lemma file_data_simps [simp]: "file_data [] = []" "file_data (c # cs) = (if c = [] then [] else c @ file_data cs)"
  by (simp_all add: file_data_def)

definition table_append :: "ftable \<Rightarrow> nat \<Rightarrow> byte list \<Rightarrow> ftable" where
  "table_append F i p = F[i := (fst (F ! i), snd (F ! i) @ p)]"

definition table_add :: "(byte list \<Rightarrow> byte list list option) \<Rightarrow> ftable \<Rightarrow> byte list \<Rightarrow> ftable" where
  "table_add host F path =
     table_append F 0 (mk_dirent (ino (length F)) (skip_underscore (base_name path))) @ [(T_FILE, file_data (the (host path)))]"

lemma length_ftable [simp]: "length (table_append F i p) = length F" "length (table_add host F path) = Suc (length F)"
  by (simp_all add: table_append_def table_add_def)

lemma blocks_append_le: "i < length F \<Longrightarrow> length p \<le> length q \<Longrightarrow> blocks (table_append F i p) \<le> blocks (table_append F i q)"
  using blocks_update [of i F "(fst (F ! i), snd (F ! i) @ p)"] blocks_update [of i F "(fst (F ! i), snd (F ! i) @ q)"]
    nb_mono [of "length (snd (F ! i)) + length p" "length (snd (F ! i)) + length q"]
  by (simp add: table_append_def)

lemma blocks_le: "i < length F \<Longrightarrow> blocks F \<le> blocks (table_append F i p)"
  using blocks_append_le [of i F "[]" p] by (simp add: table_append_def)

lemma append_chunks_run:
  "img_rep m F \<Longrightarrow> i < length F \<Longrightarrow> length (snd (F ! i)) + length (file_data cs) \<le> 140 * 512 \<Longrightarrow>
     59 + blocks (table_append F i (file_data cs)) \<le> 1000 \<Longrightarrow>
     \<exists>m'. append_chunks (ino i) cs m = Inr ((), m') \<and> img_rep m' (table_append F i (file_data cs))"
proof (induction cs arbitrary: m F)
  case Nil
  then show ?case by (simp add: ret_def table_append_def)
next
  case (Cons c cs)
  show ?case
  proof (cases "c = []")
    case True
    then show ?thesis using Cons.prems by (simp add: ret_def table_append_def)
  next
    case False
    let ?F = "table_append F i c"
    have eq: "table_append ?F i (file_data cs) = table_append F i (file_data (c # cs))"
      using False Cons.prems(2) by (simp add: table_append_def)
    have "blocks ?F \<le> blocks (table_append ?F i (file_data cs))" using Cons.prems(2) by (intro blocks_le) simp
    then have "59 + blocks ?F \<le> 1000" using Cons.prems(4) unfolding eq by linarith
    then obtain m1 where m1: "iappend (ino i) c m = Inr ((), m1)" "img_rep m1 ?F"
      using iappend_run [OF Cons.prems(1,2) refl, of c] Cons.prems(3) False by (auto simp: table_append_def)
    have "length (snd (?F ! i)) + length (file_data cs) \<le> 140 * 512"
      using Cons.prems(2,3) False by (simp add: table_append_def)
    then obtain m' where "append_chunks (ino i) cs m1 = Inr ((), m')" "img_rep m' (table_append F i (file_data (c # cs)))"
      using Cons.IH [OF m1(2)] Cons.prems(2,4) unfolding eq by auto
    then show ?thesis using m1(1) False by (simp add: bind_def)
  qed
qed

lemma length_mk_dirent [simp]: "length (mk_dirent inum name) = 16"
  by (simp add: mk_dirent_def write_dirent_def DIRSIZ_def)

lemma rootino: "ROOTINO = ino 0"
  by (simp add: ROOTINO_def ino_def)

lemma add_file_run:
  assumes r: "img_rep m F" and F: "F \<noteq> []" "length F < 199" and h: "host path = Some cs"
    and z: "length (snd (F ! 0)) + 16 \<le> 140 * 512" "length (file_data cs) \<le> 140 * 512"
    and b: "59 + blocks (table_add host F path) \<le> 1000"
  shows "\<exists>m'. add_file host ROOTINO path m = Inr ((), m') \<and> img_rep m' (table_add host F path)"
proof -
  let ?n = "length F" and ?e = "mk_dirent (ino (length F)) (skip_underscore (base_name path))"
  let ?F1 = "F @ [(T_FILE, [])]"
  let ?F2 = "table_append ?F1 0 ?e"
  have eq: "table_append ?F2 ?n (file_data cs) = table_add host F path"
    using F(1) h by (auto simp: table_append_def table_add_def nth_append list_update_append split: nat.splits)
  have b2: "59 + blocks ?F2 \<le> 1000" using blocks_le [of ?n ?F2 "file_data cs"] b unfolding eq by simp
  obtain m1 where m1: "mk_ialloc T_FILE m = Inr (ino ?n, m1)" "img_rep m1 ?F1" using mk_ialloc_run [OF r F(2)] by blast
  have "length (snd (?F1 ! 0)) + length ?e \<le> 140 * 512" using z(1) F(1) by (simp add: nth_append)
  then obtain m2 where m2: "iappend ROOTINO ?e m1 = Inr ((), m2)" "img_rep m2 ?F2"
    using iappend_run [OF m1(2) _ refl, of 0 ?e] b2 unfolding rootino by (auto simp: table_append_def)
  have "snd (?F2 ! ?n) = []" using F(1) by (simp add: table_append_def)
  then obtain m' where m': "append_chunks (ino ?n) cs m2 = Inr ((), m')" "img_rep m' (table_add host F path)"
    using append_chunks_run [OF m2(2), of ?n cs] z(2) b unfolding eq by auto
  have "add_file host ROOTINO path m = Inr ((), m')"
    using m1(1) m2(1) m'(1) h base_name_no_slash [of path] by (simp add: add_file_def Let_def bind_def)
  then show ?thesis using m'(2) by blast
qed

lemma blocks_snoc: "blocks (F @ [f]) = blocks F + nb (length (snd f))"
  by (simp add: blocks_def)

lemma blocks_le_add: "F \<noteq> [] \<Longrightarrow> blocks F \<le> blocks (table_add host F path)"
  using blocks_le [of 0 F] by (simp add: table_add_def blocks_snoc trans_le_add1)

lemma blocks_le_foldl: "F \<noteq> [] \<Longrightarrow> blocks F \<le> blocks (foldl (table_add host) F ps)"
proof (induction ps arbitrary: F)
  case (Cons p ps)
  have "table_add host F p \<noteq> []" by (simp add: table_add_def)
  then show ?case using Cons.IH [of "table_add host F p"] blocks_le_add [OF Cons.prems, of host p] by simp
qed simp

lemma root_grows:
  "F \<noteq> [] \<Longrightarrow> length (snd (table_add host F path ! 0)) = length (snd (F ! 0)) + 16"
  by (cases F) (simp_all add: table_add_def table_append_def)

lemma add_files_run:
  "img_rep m F \<Longrightarrow> F \<noteq> [] \<Longrightarrow> length F + length ps < 200 \<Longrightarrow> length (snd (F ! 0)) + 16 * length ps \<le> 140 * 512 \<Longrightarrow>
     \<forall>p\<in>set ps. \<exists>cs. host p = Some cs \<and> length (file_data cs) \<le> 140 * 512 \<Longrightarrow>
     59 + blocks (foldl (table_add host) F ps) \<le> 1000 \<Longrightarrow>
     \<exists>m'. add_files host ROOTINO ps m = Inr ((), m') \<and> img_rep m' (foldl (table_add host) F ps)"
proof (induction ps arbitrary: m F)
  case Nil
  then show ?case by (simp add: ret_def)
next
  case (Cons p ps)
  let ?F = "table_add host F p"
  have ne: "?F \<noteq> []" by (simp add: table_add_def)
  have b: "59 + blocks ?F \<le> 1000" using blocks_le_foldl [OF ne, of host ps] Cons.prems(6) by simp
  obtain cs where h: "host p = Some cs" "length (file_data cs) \<le> 140 * 512" using Cons.prems(5) by auto
  have n: "length F < 199" using Cons.prems(3) by simp
  have z: "length (snd (F ! 0)) + 16 \<le> 140 * 512" using Cons.prems(4) by simp
  obtain m1 where m1: "add_file host ROOTINO p m = Inr ((), m1)" "img_rep m1 ?F"
    using add_file_run [OF Cons.prems(1,2) n h(1) z h(2) b] by blast
  have "length (snd (?F ! 0)) + 16 * length ps \<le> 140 * 512"
    unfolding root_grows [OF Cons.prems(2)] using Cons.prems(4) by simp
  then obtain m' where "add_files host ROOTINO ps m1 = Inr ((), m')" "img_rep m' (foldl (table_add host) F (p # ps))"
    using Cons.IH [OF m1(2) ne] Cons.prems(3,5,6) by auto
  then show ?case using m1(1) by (simp add: bind_def)
qed

section \<open>The bitmap\<close>

lemma mk_bitmap_Suc: "mk_bitmap (Suc n) = bm_set n (mk_bitmap n)"
  by (simp add: mk_bitmap_def bm_set_def bm_mask_def)

lemma length_mk_bitmap [simp]: "length (mk_bitmap n) = 512"
  by (induction n) (simp_all add: mk_bitmap_Suc bm_set_def, simp add: mk_bitmap_def)

lemma mk_bitmap_used: "n \<le> 4096 \<Longrightarrow> b < 4096 \<Longrightarrow> bm_used (mk_bitmap n) b \<longleftrightarrow> b < n"
proof (induction n)
  case 0
  then show ?case by (simp add: mk_bitmap_def bm_used_def zeroes_def BSIZE_def)
next
  case (Suc n)
  then show ?case using bm_bits(2) [of n "mk_bitmap n" b] by (auto simp: mk_bitmap_Suc BSIZE_def)
qed

section \<open>The finished image\<close>

lemma file_rep_bytes:
  assumes "file_rep v n d c" "k < 140 * 512"
  shows "fbyte v (as_inode d) k = (if k < length c then c ! k else 0)"
proof -
  have k: "k div 512 < 140" "k div 512 * 512 \<le> k" using assms(2) by (simp_all add: less_mult_imp_div_less)
  have e: "fb v (as_inode d) (k div 512) = fbs v d (k div 512)" by (simp add: fbs_def)
  show ?thesis
  proof (cases "k div 512 * 512 < length c")
    case True
    then show ?thesis using file_repD(3) [OF assms(1) k(1)] file_repD(7) [OF assms(1) True] by (simp add: fbyte_def BSIZE_def e)
  next
    case False
    then have "\<not> k < length c" using k(2) by linarith
    then show ?thesis using False file_repD(3) [OF assms(1) k(1)] by (simp add: fbyte_def BSIZE_def e)
  qed
qed

text \<open>
  What the kernel finds on the disk \<open>v\<close>, in its own terms: a well-formed super block, an empty log, a bitmap
  with exactly the meta blocks and the blocks of the files marked, the files of \<open>F\<close> with their types and
  bytes, in blocks of their own, and otherwise free inodes. \<open>root_size\<close> is the size the directory is
  rounded up to; its bytes behind the entries are zero, that is, free entries.
\<close>

definition root_size :: "nat \<Rightarrow> nat" where
  "root_size z = (z div 512 + 1) * 512"

definition holds_file :: "(u32 \<Rightarrow> byte list) \<Rightarrow> superblock \<Rightarrow> inode \<Rightarrow> u16 \<Rightarrow> byte list \<Rightarrow> bool" where
  "holds_file v sb d t c \<longleftrightarrow> i_type d = t \<and> i_nlink d = 1 \<and> file_ok v sb d \<and> map (fbyte v d) [0..<unat (i_size d)] = c"

definition fs_image :: "(u32 \<Rightarrow> byte list) \<Rightarrow> ftable \<Rightarrow> bool" where
  "fs_image v F \<longleftrightarrow> (let sb = read_superblock (v 1); inode = (\<lambda>i. as_inode (dinode_at v sb (ino i))) in
     sb_wf sb \<and> get32 0 (v (sb_logstart sb)) = 0 \<and> meta_used v sb \<and>
     (\<forall>b. b < sb_size sb \<longrightarrow> (blk_used v sb b \<longleftrightarrow> unat b < nmeta sb + blocks F)) \<and>
     (let c = snd (F ! 0) in holds_file v sb (inode 0) (fst (F ! 0)) (c @ replicate (root_size (length c) - length c) 0) \<and>
       unat (i_size (inode 0)) = root_size (length c) \<and> (\<forall>k<140. fb v (inode 0) k \<noteq> 0 \<longleftrightarrow> k * 512 < length c)) \<and>
     (\<forall>i<length F. 0 < i \<longrightarrow> holds_file v sb (inode i) (fst (F ! i)) (snd (F ! i)) \<and> no_holes v (inode i)) \<and>
     (\<forall>i. length F \<le> i \<and> i < 199 \<longrightarrow> i_type (inode i) = 0) \<and>
     (\<forall>i<length F. \<forall>j<length F. \<forall>k\<le>140. \<forall>l\<le>140. i \<noteq> j \<longrightarrow> fb v (inode i) k \<noteq> 0 \<longrightarrow> fb v (inode i) k \<noteq> fb v (inode j) l))"

lemma as_inode_simps [simp]:
  "i_type (as_inode d) = di_type d" "i_nlink (as_inode d) = di_nlink d" "i_size (as_inode d) = di_size d" "i_addrs (as_inode d) = di_addrs d"
  by (simp_all add: as_inode_def load_part_def)

lemma holds_file_rep:
  assumes r: "file_rep v n d c" and b: "n \<le> 1000" and sb: "nmeta sb = 59" "sb_size sb = 1000"
    and u: "\<And>b. b < 1000 \<Longrightarrow> blk_used v sb b \<longleftrightarrow> unat b < n" and t: "di_type d = t" "di_nlink d = 1"
    and z: "length c \<le> unat (di_size d)" "unat (di_size d) \<le> 140 * 512"
  shows "holds_file v sb (as_inode d) t (c @ replicate (unat (di_size d) - length c) 0)"
proof -
  have "data_blk v sb (fbs v d k)" if "k \<le> 140" "fbs v d k \<noteq> 0" for k
    using file_repD(5) [OF r that] b sb u [of "fbs v d k"] by (auto simp: data_blk_def word_less_nat_alt)
  then have "file_ok v sb (as_inode d)"
    using file_repD(1,6) [OF r] by (auto simp: file_ok_def fbs_def [symmetric] NDIRECT_def)
  moreover have "map (fbyte v (as_inode d)) [0..<unat (di_size d)] = c @ replicate (unat (di_size d) - length c) 0"
    using z file_rep_bytes [OF r] by (intro nth_equalityI) (auto simp: nth_append)
  ultimately show ?thesis using t by (simp add: holds_file_def)
qed

lemma root_size_bounds: "z < 140 * 512 \<Longrightarrow> z \<le> root_size z" "z < 140 * 512 \<Longrightarrow> root_size z \<le> 140 * 512"
proof -
  have "512 * (z div 512) + z mod 512 = z" "z mod 512 < 512" by simp_all
  then have "z \<le> 512 * (z div 512) + 512" by linarith
  then show "z \<le> root_size z" by (simp add: root_size_def)
  show "z < 140 * 512 \<Longrightarrow> root_size z \<le> 140 * 512" using less_mult_imp_div_less [of z 140 512] by (simp add: root_size_def)
qed

lemma dinode_at_other: "IBLOCK i sb \<noteq> b \<Longrightarrow> dinode_at (v(b := x)) sb i = dinode_at v sb i"
  by (simp add: dinode_at_def)

lemma fs_image_intro:
  assumes r: "img_rep m F" and F: "F \<noteq> []" "length (snd (F ! 0)) < 140 * 512"
    and sb: "read_superblock (v 1) = mk_superblock" and z: "v 2 = zeroes"
    and dj: "\<And>j. j < 199 \<Longrightarrow> dinode_at v mk_superblock (ino j) =
      (if j = 0 then (din m 0)\<lparr>di_size := of_nat (root_size (length (snd (F ! 0))))\<rparr> else din m j)"
    and used: "\<And>b. b < 1000 \<Longrightarrow> blk_used v mk_superblock b \<longleftrightarrow> unat b < unat (freeblock m)"
    and same: "\<And>b. 59 \<le> unat b \<Longrightarrow> v b = view m b"
  shows "fs_image v F"
proof -
  note D = img_repD [OF r]
  let ?c = "snd (F ! 0)" and ?n = "unat (freeblock m)" and ?sb = mk_superblock
  let ?d = "\<lambda>j. dinode_at v mk_superblock (ino j)"
  have small: "i < length F \<Longrightarrow> i < 199" for i using D(4) by simp
  have rs: "length ?c \<le> root_size (length ?c)" "root_size (length ?c) \<le> 140 * 512" by (rule root_size_bounds [OF F(2)])+
  have sbs: "nmeta ?sb = 59" "sb_size ?sb = 1000" "sb_logstart ?sb = 2" by (simp_all add: mk_sb_eq nmeta_def)
  have meta: "meta_used v ?sb"
    unfolding meta_used_def sbs(1) using used D(6) by (auto simp: word_less_nat_alt unat_of_nat32)
  have logz: "get32 0 (v 2) = 0" by (simp add: z get32_zeroes)
  have dd: "di_addrs (?d i) = di_addrs (din m i)" "di_type (?d i) = fst (F ! i)" "di_nlink (?d i) = 1"
    "unat (di_size (?d i)) = (if i = 0 then root_size (length ?c) else length (snd (F ! i)))" if i: "i < length F" for i
  proof -
    have "length (snd (F ! i)) \<le> 140 * 512" using file_repD(2) inode_repD(1) [OF D(10) [OF i]] by blast
    then show "di_addrs (?d i) = di_addrs (din m i)" "di_type (?d i) = fst (F ! i)" "di_nlink (?d i) = 1"
      "unat (di_size (?d i)) = (if i = 0 then root_size (length ?c) else length (snd (F ! i)))"
      using D(10) [OF i] dj [OF small [OF i]] rs(2) by (cases "i = 0"; simp add: inode_rep_def unat_of_nat32)+
  qed
  have fr: "file_rep v ?n (?d i) (snd (F ! i))" "fb v (as_inode (?d i)) k = fbs (view m) (din m i) k" if i: "i < length F" for i k
  proof -
    have s: "v (fbs (view m) (din m i) k) = view m (fbs (view m) (din m i) k)" if "k \<le> 140" "fbs (view m) (din m i) k \<noteq> 0" for k
      using inode_repD(3) [OF D(10) [OF i] that] by (intro same) simp
    note f = file_rep_frame [OF inode_repD(1) [OF D(10) [OF i]] s order_refl dd(1) [OF i]]
    show "file_rep v ?n (?d i) (snd (F ! i))" by (rule f(1))
    show "fb v (as_inode (?d i)) k = fbs (view m) (din m i) k" using f(2) by (simp add: fbs_def)
  qed
  have holds: "holds_file v ?sb (as_inode (?d i)) (fst (F ! i)) (snd (F ! i) @ replicate (unat (di_size (?d i)) - length (snd (F ! i))) 0)"
    if i: "i < length F" for i
    using file_repD(2) [OF fr(1) [OF i]] rs dd(4) [OF i]
    by (intro holds_file_rep [OF fr(1) [OF i] D(7) sbs(1,2) used dd(2,3) [OF i]]) (auto split: if_splits)
  have nh: "no_holes v (as_inode (?d i))" if i: "i < length F" "0 < i" for i
  proof -
    have "fb v (as_inode (?d i)) k \<noteq> 0" if k: "k * 512 < length (snd (F ! i))" for k
    proof -
      have "k < 140" using k file_repD(2) [OF fr(1) [OF i(1)]] by linarith
      then show ?thesis using file_repD(3) [OF fr(1) [OF i(1)]] k by (simp add: fbs_def)
    qed
    then show ?thesis using dd(4) [OF i(1)] i(2) file_repD(2) [OF fr(1) [OF i(1)]]
      by (simp add: no_holes_def max_bytes_def MAXFILE_def BSIZE_def)
  qed
  have free: "i_type (as_inode (?d i)) = 0" if "length F \<le> i" "i < 199" for i
    using dj [OF that(2)] D(11) [OF that] F(1) that(1) by (auto simp: zero_dinode_def)
  have disj: "fb v (as_inode (?d i)) k \<noteq> fb v (as_inode (?d j)) l"
    if "i < length F" "j < length F" "k \<le> 140" "l \<le> 140" "i \<noteq> j" "fb v (as_inode (?d i)) k \<noteq> 0" for i j k l
    using D(12) [OF that(1,2,5)] that by (simp add: apart_def fr(2))
  have "holds_file v ?sb (as_inode (?d 0)) (fst (F ! 0)) (?c @ replicate (root_size (length ?c) - length ?c) 0)"
    using holds [of 0] dd(4) [of 0] F(1) by simp
  moreover have "holds_file v ?sb (as_inode (?d i)) (fst (F ! i)) (snd (F ! i))" if "i < length F" "0 < i" for i
    using holds [OF that(1)] dd(4) [OF that(1)] that(2) by simp
  moreover have "fb v (as_inode (?d 0)) k \<noteq> 0 \<longleftrightarrow> k * 512 < length ?c" if "k < 140" for k
    using file_repD(3) [OF fr(1) [of 0] that] F(1) by (simp add: fbs_def)
  moreover have "unat (i_size (as_inode (?d 0))) = root_size (length ?c)" using dd(4) [of 0] F(1) by simp
  ultimately show ?thesis
    using used D(6) meta logz mk_sb_wf nh free disj unfolding fs_image_def Let_def sb sbs by simp
qed

text \<open>Rounding up the size of the root and writing the bitmap.\<close>

definition finish :: "(mkfs, unit) kop" where
  "finish = seq (fix_root ROOTINO) (bind (get freeblock) mk_balloc)"

lemma finish_run:
  assumes r: "img_rep m F" and F: "F \<noteq> []" "length (snd (F ! 0)) < 140 * 512"
  shows "\<exists>m'. finish m = Inr ((), m') \<and> img_ok m' \<and> fs_image (view m') F"
proof -
  note D = img_repD [OF r]
  let ?c = "snd (F ! 0)" and ?n = "unat (freeblock m)" and ?sb = mk_superblock
  let ?d = "(din m 0)\<lparr>di_size := of_nat (root_size (length ?c))\<rparr>"
  let ?m1 = "put_inode 0 ?d m" and ?m2 = "put_sect 58 (mk_bitmap ?n) (put_inode 0 ?d m)"
  have F0: "0 < length F" using F(1) by simp
  have l: "length (di_addrs ?d) = 13" using inode_repD(2) [OF D(10) [OF F0]] by simp
  have sz: "di_size (din m 0) = of_nat (length ?c)" using D(10) [OF F0] by (simp add: inode_rep_def)
  have q: "length ?c div 512 < 140" using F(2) by (simp add: less_mult_imp_div_less)
  have off: "(of_nat (length ?c) :: u32) div 512 = of_nat (length ?c div 512)"
    using off_parts512(1) [OF F(2)] q by (simp add: word_unat_eq_iff unat_of_nat32)
  have sz1: "di_size (din m 0) div 512 * 512 + 512 = (of_nat (root_size (length ?c)) :: u32)"
    unfolding sz off by (simp add: root_size_def algebra_simps)
  have i0: "(0::nat) < 199" by simp
  note P = put_inode_run [OF D(1,3) i0 l]
  have v2: "view ?m2 = (view ?m1)(58 := mk_bitmap ?n)" by (rule view_put [OF P(2)]) simp
  have bs: "sb_bmapstart ?sb = 58" by (simp add: mk_sb_eq)
  have "fix_root ROOTINO m = Inr ((), ?m1)"
    using rinode_run [OF D(1,3) i0] P(1) unfolding rootino by (simp add: fix_root_def bind_def sz1)
  then have run: "finish m = Inr ((), ?m2)"
    using D(7) wsect_run [OF P(2), of 58 "mk_bitmap ?n"]
    by (simp add: finish_def bind_def get_def mk_balloc_def P(5,6) BSIZE_def bs)
  have ok2: "img_ok ?m2" by (rule put_sect_ok [OF P(2)]) (simp add: BSIZE_def)
  have "fs_image (view ?m2) F"
  proof (rule fs_image_intro [OF r F])
    show "read_superblock (view ?m2 1) = ?sb" using P(4) [of 1] D(8) read_write_superblock [of zeroes ?sb] by (simp add: v2)
    show "view ?m2 2 = zeroes" using P(4) [of 2] D(9) [of 2] by (simp add: v2)
    show "dinode_at (view ?m2) ?sb (ino j) = (if j = 0 then ?d else din m j)" if "j < 199" for j
    proof -
      have "IBLOCK (ino j) ?sb \<noteq> 58" using inum_small(4) [OF that] by auto
      then have "dinode_at (view ?m2) ?sb (ino j) = din ?m1 j" unfolding v2 by (rule dinode_at_other)
      also have "\<dots> = (if j = 0 then ?d else din m j)" by (rule P(3) [OF that])
      finally show ?thesis .
    qed
    show "blk_used (view ?m2) ?sb b \<longleftrightarrow> unat b < ?n" if "b < 1000" for b
    proof -
      have "unat b < 1000" using that by (simp add: word_less_nat_alt)
      then have "unat (BBLOCK b ?sb) = 58" "unat (b mod BPB) = unat b"
        using unat_BBLOCK [OF mk_sb_wf(1), of b] that by (simp_all add: mk_sb_eq unat_mod_distrib BPB_def)
      then have "BBLOCK b ?sb = 58" "unat (b mod BPB) = unat b" by (simp_all add: word_unat_eq_iff)
      then show ?thesis using mk_bitmap_used [of ?n "unat b"] D(7) \<open>unat b < 1000\<close> by (simp add: blk_used_def v2)
    qed
    show "view ?m2 b = view m b" if "59 \<le> unat b" for b using P(4) [of b] that by (auto simp: v2)
  qed
  then show ?thesis using run ok2 by blast
qed

section \<open>The whole program\<close>

definition mk_table :: "(byte list \<Rightarrow> byte list list option) \<Rightarrow> byte list list \<Rightarrow> ftable" where
  "mk_table host files = foldl (table_add host) [(T_DIR, mk_dirent ROOTINO [46] @ mk_dirent ROOTINO [46, 46])] files"

lemma mk_table_root:
  "mk_table host files \<noteq> [] \<and> length (snd (mk_table host files ! 0)) = 16 * (2 + length files)"
proof -
  have "F \<noteq> [] \<Longrightarrow> foldl (table_add host) F ps \<noteq> [] \<and>
      length (snd (foldl (table_add host) F ps ! 0)) = length (snd (F ! 0)) + 16 * length ps" for F ps
  proof (induction ps arbitrary: F)
    case (Cons p ps)
    have "table_add host F p \<noteq> []" by (simp add: table_add_def)
    then show ?case using Cons.IH [of "table_add host F p"] root_grows [OF Cons.prems] by simp
  qed simp
  then show ?thesis by (simp add: mk_table_def)
qed

lemma mkfs_run:
  assumes n: "length files < 199" and h: "\<forall>p\<in>set files. \<exists>cs. host p = Some cs \<and> length (file_data cs) \<le> 140 * 512"
    and b: "59 + blocks (mk_table host files) \<le> 1000"
  shows "\<exists>m. mkfs_main host files mkfs0 = Inr ((), m) \<and> length (img m) = unat FSSIZE \<and> fs_image (view m) (mk_table host files)"
proof -
  let ?e = "mk_dirent ROOTINO [46]" and ?e2 = "mk_dirent ROOTINO [46, 46]"
  have b1: "blocks [(T_DIR, ?e @ ?e2)] = 1" "blocks [(T_DIR, ?e)] = 1" by (simp_all add: blocks_def nb_def)
  obtain m0 where m0: "mk_format mkfs0 = Inr ((), m0)" "img_rep m0 []" using mk_format_run [of mkfs0] by (auto simp: mkfs0_def)
  obtain m1 where m1: "mk_ialloc T_DIR m0 = Inr (ROOTINO, m1)" "img_rep m1 [(T_DIR, [])]"
    using mk_ialloc_run [OF m0(2), of T_DIR] by (auto simp: rootino)
  obtain m2 where m2: "iappend ROOTINO ?e m1 = Inr ((), m2)" "img_rep m2 [(T_DIR, ?e)]"
    using iappend_run [OF m1(2), of 0 "[(T_DIR, ?e)]" ?e] b1 by (auto simp: rootino)
  obtain m3 where m3: "iappend ROOTINO ?e2 m2 = Inr ((), m3)" "img_rep m3 [(T_DIR, ?e @ ?e2)]"
    using iappend_run [OF m2(2), of 0 "[(T_DIR, ?e @ ?e2)]" ?e2] b1 by (auto simp: rootino)
  obtain m4 where m4: "add_files host ROOTINO files m3 = Inr ((), m4)" "img_rep m4 (mk_table host files)"
    using add_files_run [OF m3(2) _ _ _ h] n b by (auto simp: mk_table_def)
  have "length (snd (mk_table host files ! 0)) < 140 * 512" using mk_table_root [of host files] n by simp
  then obtain m where m: "finish m4 = Inr ((), m)" "img_ok m" "fs_image (view m) (mk_table host files)"
    using finish_run [OF m4(2)] mk_table_root [of host files] by blast
  have "mkfs_main host files mkfs0 = Inr ((), m)"
    using m0(1) m1(1) m2(1) m3(1) m4(1) m(1) by (simp add: mkfs_main_def finish_def bind_def)
  then show ?thesis using m by (auto simp: img_ok_def FSSIZE_def)
qed

section \<open>The root directory\<close>

definition root_names :: "byte list list \<Rightarrow> byte list list" where
  "root_names files = [46] # [46, 46] # map (skip_underscore \<circ> base_name) files"

text \<open>Entry \<open>k\<close> of the root: \<open>.\<close> and \<open>..\<close> name the root itself, the files follow in order.\<close>

definition root_entry :: "byte list list \<Rightarrow> nat \<Rightarrow> byte list" where
  "root_entry files k = mk_dirent (of_nat (max 1 k)) (root_names files ! k)"

lemma length_root_entries [simp]: "length (concat (map (root_entry files) ks)) = 16 * length ks"
  by (induction ks) (simp_all add: root_entry_def)

lemma length_mk_table: "length (mk_table host files) = Suc (length files)"
  by (induction files rule: rev_induct) (simp_all add: mk_table_def)

lemma mk_table_entries:
  "snd (mk_table host files ! 0) = concat (map (root_entry files) [0..<2 + length files])"
proof (induction files rule: rev_induct)
  case Nil
  show ?case by (simp add: mk_table_def root_entry_def root_names_def upt_rec ROOTINO_def)
next
  case (snoc p files)
  let ?n = "2 + length files"
  have "mk_table host (files @ [p]) = table_add host (mk_table host files) p" by (simp add: mk_table_def)
  moreover have "mk_table host files \<noteq> []" using mk_table_root by blast
  ultimately have "snd (mk_table host (files @ [p]) ! 0) =
      snd (mk_table host files ! 0) @ mk_dirent (ino (Suc (length files))) (skip_underscore (base_name p))"
    using length_mk_table [of host files] by (cases "mk_table host files") (auto simp: table_add_def table_append_def)
  moreover have "mk_dirent (ino (Suc (length files))) (skip_underscore (base_name p)) = root_entry (files @ [p]) ?n"
    by (simp add: root_entry_def root_names_def ino_def nth_append)
  moreover have "root_names (files @ [p]) = root_names files @ [skip_underscore (base_name p)]" "length (root_names files) = ?n"
    by (simp_all add: root_names_def)
  then have "root_entry files k = root_entry (files @ [p]) k" if "k < ?n" for k
    using that by (simp add: root_entry_def nth_append)
  then have "map (root_entry files) [0..<?n] = map (root_entry (files @ [p])) [0..<?n]" by simp
  moreover have "[0..<2 + length (files @ [p])] = [0..<?n] @ [?n]" by simp
  ultimately show ?case using snoc.IH by (simp only: map_append concat_append list.map concat.simps append_Nil2)
qed

lemma slice_concat:
  "k < length ds \<Longrightarrow> \<forall>d\<in>set ds. length d = 16 \<Longrightarrow> slice (16 * k) 16 (concat ds @ xs) = ds ! k"
proof (induction ds arbitrary: k)
  case (Cons d ds)
  then show ?case by (cases k) (simp_all add: slice_def)
qed simp

lemma read_mk_dirent:
  "read_dirent (mk_dirent i name) = \<lparr>de_inum = ucast i, de_name = take DIRSIZ (takeWhile (\<lambda>c. c \<noteq> 0) name @ replicate DIRSIZ 0)\<rparr>"
  unfolding mk_dirent_def xshort_id by (rule read_write_dirent) simp

lemma name_of_padded:
  "name_of n (take n (takeWhile (\<lambda>c. c \<noteq> 0) s) @ replicate (n - length (takeWhile (\<lambda>c. c \<noteq> 0) s)) 0) = name_of n s"
proof -
  have z: "takeWhile (\<lambda>c. c \<noteq> 0) (t @ replicate k 0) = t" if "\<forall>x\<in>set t. x \<noteq> 0" for t :: "byte list" and k
    using that by (induction t) (cases k; simp)+
  have "\<forall>x\<in>set (take n (takeWhile (\<lambda>c. c \<noteq> 0) s)). x \<noteq> 0" by (auto dest: in_set_takeD set_takeWhileD)
  from z [OF this] show ?thesis by (simp add: name_of_def)
qed

text \<open>The entries, as the kernel reads them from the image.\<close>

lemma root_entries:
  assumes h: "holds_file v sb d t (c @ replicate z 0)" and sz: "unat (i_size d) = length c + z"
    and c: "c = concat (map (root_entry files) [0..<2 + length files])" and n: "length files < 199"
  shows "k < 2 + length files \<Longrightarrow> de_inum (entry v d k) = of_nat (max 1 k) \<and> name_of DIRSIZ (de_name (entry v d k)) = name_of DIRSIZ (root_names files ! k)"
    and "2 + length files \<le> k \<Longrightarrow> 16 * k + 16 \<le> unat (i_size d) \<Longrightarrow> de_inum (entry v d k) = 0"
proof -
  let ?n = "2 + length files"
  have l: "length c = 16 * ?n" unfolding c by (simp del: upt_Suc)
  have e: "entry v d k = read_dirent (slice (16 * k) 16 (c @ replicate z 0))" if "16 * k + 16 \<le> unat (i_size d)" for k
  proof -
    have "map (fbyte v d) [16 * k..<16 * k + 16] = slice (16 * k) 16 (map (fbyte v d) [0..<unat (i_size d)])"
      using that by (simp add: slice_def drop_map take_map)
    then show ?thesis using h by (simp add: entry_def holds_file_def)
  qed
  show "de_inum (entry v d k) = of_nat (max 1 k) \<and> name_of DIRSIZ (de_name (entry v d k)) = name_of DIRSIZ (root_names files ! k)" if k: "k < ?n"
  proof -
    have "slice (16 * k) 16 (c @ replicate z 0) = root_entry files k"
    proof -
      have "slice (16 * k) 16 (c @ replicate z 0) = map (root_entry files) [0..<?n] ! k"
        unfolding c using k by (intro slice_concat) (simp, auto simp: root_entry_def)
      then show ?thesis using nth_map_upt [of k ?n 0 "root_entry files"] k by (simp only: add_0 diff_zero)
    qed
    moreover have "16 * k + 16 \<le> unat (i_size d)" using k l sz by simp
    moreover have "ucast (of_nat (max 1 k) :: u32) = (of_nat (max 1 k) :: u16)"
      using k n by (simp add: unsigned_of_nat take_bit_nat_eq_self)
    ultimately show ?thesis using e [of k] by (simp add: root_entry_def read_mk_dirent name_of_padded)
  qed
  show "de_inum (entry v d k) = 0" if "?n \<le> k" "16 * k + 16 \<le> unat (i_size d)"
  proof -
    have "slice (16 * k) 16 (c @ replicate z 0) = replicate 16 0"
      using that l sz by (simp add: slice_def)
    then show ?thesis using e [OF that(2)] by (simp add: read_dirent_def get16_def slice_def numeral_eq_Suc)
  qed
qed

text \<open>The table in closed form: the root, then the files in the order of the arguments.\<close>

definition image_files :: "(byte list \<Rightarrow> byte list list option) \<Rightarrow> byte list list \<Rightarrow> ftable" where
  "image_files host files = (T_DIR, concat (map (root_entry files) [0..<2 + length files])) # map (\<lambda>p. (T_FILE, file_data (the (host p)))) files"

lemma mk_table_eq: "mk_table host files = image_files host files"
proof -
  have "fst (mk_table host files ! 0) = T_DIR \<and> tl (mk_table host files) = map (\<lambda>p. (T_FILE, file_data (the (host p)))) files"
  proof (induction files rule: rev_induct)
    case (snoc p files)
    have "mk_table host (files @ [p]) = table_add host (mk_table host files) p" by (simp add: mk_table_def)
    then show ?case using snoc.IH mk_table_root [of host files]
      by (cases "mk_table host files") (auto simp: table_add_def table_append_def)
  qed (simp add: mk_table_def)
  then show ?thesis using mk_table_entries [of host files] mk_table_root [of host files]
    by (cases "mk_table host files") (auto simp: image_files_def prod_eq_iff)
qed

lemma all_blocks: "(\<forall>k\<le>z div 512. k * 512 < z) \<longleftrightarrow> z mod 512 \<noteq> (0::nat)"
proof
  assume "\<forall>k\<le>z div 512. k * 512 < z"
  then have "z div 512 * 512 < z" by blast
  then show "z mod 512 \<noteq> 0" using div_mult_mod_eq [of z 512] by linarith
next
  assume "z mod 512 \<noteq> 0"
  then have "z div 512 * 512 < z" using div_mult_mod_eq [of z 512] by linarith
  then show "\<forall>k\<le>z div 512. k * 512 < z" by (metis le_less_trans mult_le_mono1)
qed

abbreviation root_inode :: "mkfs \<Rightarrow> inode" where
  "root_inode m \<equiv> as_inode (dinode_at (view m) (read_superblock (view m 1)) ROOTINO)"

lemma fs_image_root:
  assumes "fs_image (view m) (image_files host files)" and n: "length files < 199"
  shows "i_type (root_inode m) = T_DIR" "unat (i_size (root_inode m)) = root_size (16 * (2 + length files))"
    "k < 140 \<Longrightarrow> fb (view m) (root_inode m) k \<noteq> 0 \<longleftrightarrow> k * 512 < 16 * (2 + length files)"
    "k < 2 + length files \<Longrightarrow> de_inum (entry (view m) (root_inode m) k) = of_nat (max 1 k) \<and>
       name_of DIRSIZ (de_name (entry (view m) (root_inode m) k)) = name_of DIRSIZ (root_names files ! k)"
    "2 + length files \<le> k \<Longrightarrow> 16 * k + 16 \<le> unat (i_size (root_inode m)) \<Longrightarrow> de_inum (entry (view m) (root_inode m) k) = 0"
proof -
  let ?c = "concat (map (root_entry files) [0..<2 + length files])"
  have r: "image_files host files ! 0 = (T_DIR, ?c)" by (simp only: image_files_def nth_Cons_0)
  have l: "length ?c = 16 * (2 + length files)" by (simp del: upt_Suc)
  have f: "holds_file (view m) (read_superblock (view m 1)) (root_inode m) T_DIR (?c @ replicate (root_size (length ?c) - length ?c) 0)"
    "unat (i_size (root_inode m)) = root_size (length ?c)" "\<forall>k<140. fb (view m) (root_inode m) k \<noteq> 0 \<longleftrightarrow> k * 512 < length ?c"
    using assms(1) unfolding fs_image_def Let_def r fst_conv snd_conv rootino by blast+
  have "length ?c < 140 * 512" using n unfolding l by simp
  then have b: "length ?c \<le> root_size (length ?c)" by (rule root_size_bounds(1))
  show "i_type (root_inode m) = T_DIR" using f(1) by (simp add: holds_file_def)
  show "unat (i_size (root_inode m)) = root_size (16 * (2 + length files))" using f(2) unfolding l .
  show "k < 140 \<Longrightarrow> fb (view m) (root_inode m) k \<noteq> 0 \<longleftrightarrow> k * 512 < 16 * (2 + length files)" using f(3) unfolding l by blast
  have z: "unat (i_size (root_inode m)) = length ?c + (root_size (length ?c) - length ?c)" using f(2) b by simp
  note e = root_entries [OF f(1) z refl n]
  show "k < 2 + length files \<Longrightarrow> de_inum (entry (view m) (root_inode m) k) = of_nat (max 1 k) \<and>
       name_of DIRSIZ (de_name (entry (view m) (root_inode m) k)) = name_of DIRSIZ (root_names files ! k)" by (rule e(1))
  show "2 + length files \<le> k \<Longrightarrow> 16 * k + 16 \<le> unat (i_size (root_inode m)) \<Longrightarrow> de_inum (entry (view m) (root_inode m) k) = 0"
    by (rule e(2))
qed

text \<open>The program cannot run out of blocks or inodes under these conditions on its arguments.\<close>

definition image_fits :: "(byte list \<Rightarrow> byte list list option) \<Rightarrow> byte list list \<Rightarrow> bool" where
  "image_fits host files \<longleftrightarrow> length files < 199 \<and> (\<forall>p\<in>set files. \<exists>cs. host p = Some cs \<and> length (file_data cs) \<le> MAXFILE * BSIZE) \<and>
     59 + blocks (image_files host files) \<le> unat FSSIZE"

lemma image_run:
  assumes "image_fits host files"
  shows "\<exists>m. mkfs_main host files mkfs0 = Inr ((), m) \<and> length (img m) = unat FSSIZE \<and> fs_image (view m) (image_files host files)"
  using assms mkfs_run [of files host] by (simp add: image_fits_def mk_table_eq MAXFILE_def BSIZE_def FSSIZE_def)

text \<open>
  C17. Host files that fit: the program ends normally, and the kernel finds on its image a well-formed super
  block, an empty log, a bitmap that marks exactly the blocks in use, every file with its bytes and no holes,
  and the root directory with one entry for each.
\<close>

theorem mkfs_image:
  assumes "image_fits host files"
  shows "\<exists>m. mkfs_main host files mkfs0 = Inr ((), m) \<and> length (img m) = unat FSSIZE \<and> fs_image (view m) (image_files host files)"
  by (rule image_run [OF assms])

definition demo_host :: "byte list \<Rightarrow> byte list list option" where
  "demo_host p = (if p = [98, 47, 95, 115, 104] then Some [replicate 512 7, [1, 2, 3]] else None)"

lemma demo_fits: "image_fits demo_host [[98, 47, 95, 115, 104]]"
  by (simp add: image_fits_def demo_host_def image_files_def blocks_def nb_def MAXFILE_def BSIZE_def FSSIZE_def del: upt_Suc)

theorem mkfs_image_witness:
  "\<exists>m. mkfs_main demo_host [[98, 47, 95, 115, 104]] mkfs0 = Inr ((), m) \<and> length (img m) = unat FSSIZE \<and>
     fs_image (view m) (image_files demo_host [[98, 47, 95, 115, 104]])"
  by (rule mkfs_image [OF demo_fits])

text \<open>
  C18. The search of the kernel's \<open>dirlookup\<close> through the root of the image is the search through the list of
  the names given to the program, and entry \<open>k\<close> leads to the inode of the file.
\<close>

theorem mkfs_lookup:
  assumes "image_fits host files"
  shows "\<exists>m. mkfs_main host files mkfs0 = Inr ((), m) \<and> i_type (root_inode m) = T_DIR \<and>
    (\<forall>name. List.find (matches (view m) (root_inode m) name) [0..<unat (i_size (root_inode m)) div 16] =
       List.find (\<lambda>k. name_of DIRSIZ name = name_of DIRSIZ (root_names files ! k)) [0..<2 + length files]) \<and>
    (\<forall>k<2 + length files. de_inum (entry (view m) (root_inode m) k) = of_nat (max 1 k))"
proof -
  let ?n = "2 + length files"
  obtain m where run: "mkfs_main host files mkfs0 = Inr ((), m)" and im: "fs_image (view m) (image_files host files)"
    using image_run [OF assms] by blast
  have n: "length files < 199" using assms by (simp add: image_fits_def)
  note R = fs_image_root [OF im n]
  let ?N = "unat (i_size (root_inode m)) div 16"
  have "16 * ?n \<le> root_size (16 * ?n)" using n by (intro root_size_bounds) simp
  then have N: "?n \<le> ?N" unfolding R(2) by (metis div_le_mono nonzero_mult_div_cancel_left zero_neq_numeral)
  have in_dir: "matches (view m) (root_inode m) name k \<longleftrightarrow> name_of DIRSIZ name = name_of DIRSIZ (root_names files ! k)" if "k < ?n" for name k
  proof -
    have "unat (of_nat (max 1 k) :: u16) = max 1 k" using that n by (simp add: unsigned_of_nat take_bit_nat_eq_self)
    then have "(of_nat (max 1 k) :: u16) \<noteq> 0" by (metis max.cobounded1 not_one_le_zero unsigned_0)
    then show ?thesis using R(4) [OF that] by (simp add: matches_def)
  qed
  have behind: "\<not> matches (view m) (root_inode m) name k" if "?n \<le> k" "k < ?N" for name k
    using R(5) [OF that(1)] that(2) by (simp add: matches_def)
  have "List.find (matches (view m) (root_inode m) name) [0..<?N] =
      List.find (\<lambda>k. name_of DIRSIZ name = name_of DIRSIZ (root_names files ! k)) [0..<?n]" for name
  proof -
    have "[0..<?N] = [0..<?n] @ [?n..<?N]" using N by (metis le0 upt_append)
    moreover have "List.find (matches (view m) (root_inode m) name) [?n..<?N] = None" using behind by (auto simp: find_None_iff)
    moreover have "List.find (matches (view m) (root_inode m) name) [0..<?n] =
        List.find (\<lambda>k. name_of DIRSIZ name = name_of DIRSIZ (root_names files ! k)) [0..<?n]" 
      by (intro find_cong in_dir) (simp only: set_upt atLeastLessThan_iff)
    ultimately show ?thesis by (simp only: find_append) (simp split: option.split)
  qed
  then show ?thesis using run R(1,4) by blast
qed

theorem mkfs_lookup_witness:
  "\<exists>m. mkfs_main demo_host [[98, 47, 95, 115, 104]] mkfs0 = Inr ((), m) \<and> i_type (root_inode m) = T_DIR \<and>
    List.find (matches (view m) (root_inode m) [115, 104, 0]) [0..<unat (i_size (root_inode m)) div 16] = Some 2 \<and>
    de_inum (entry (view m) (root_inode m) 2) = 2"
proof -
  have "List.find (\<lambda>k. name_of DIRSIZ [115, 104, 0] = name_of DIRSIZ (root_names [[98, 47, 95, 115, 104]] ! k)) [0..<3] = Some 2"
    by (simp add: root_names_def name_of_def DIRSIZ_def upt_rec base_name_def skip_underscore_def)
  moreover have "2 + length [[98, 47, 95, 115, 104]] = 3" "(2 :: nat) < 3" "of_nat (max 1 2) = (2 :: u16)" by simp_all
  ultimately show ?thesis using mkfs_lookup [OF demo_fits] by metis
qed

text \<open>
  C19. The size of the root is rounded up to the block after its last entry. When the entries end at a block
  boundary, that block was never allocated: the root has a hole.
\<close>

theorem mkfs_root_hole:
  assumes "image_fits host files"
  shows "\<exists>m. mkfs_main host files mkfs0 = Inr ((), m) \<and> (no_holes (view m) (root_inode m) \<longleftrightarrow> (2 + length files) mod 32 \<noteq> 0)"
proof -
  let ?z = "16 * (2 + length files)"
  obtain m where run: "mkfs_main host files mkfs0 = Inr ((), m)" and im: "fs_image (view m) (image_files host files)"
    using image_run [OF assms] by blast
  have n: "length files < 199" using assms by (simp add: image_fits_def)
  note R = fs_image_root [OF im n]
  have q: "?z = 512 * (?z div 512) + ?z mod 512" "?z div 512 < 140" using n by simp_all
  have m32: "?z mod 512 = 16 * ((2 + length files) mod 32)" using mult_mod_right [of 16 "2 + length files" 32] by simp
  have "no_holes (view m) (root_inode m) \<longleftrightarrow> (\<forall>k. k * 512 < root_size ?z \<longrightarrow> fb (view m) (root_inode m) k \<noteq> 0)"
    unfolding no_holes_def R(2) max_bytes_def MAXFILE_def BSIZE_def using root_size_bounds(2) [of ?z] n by simp
  also have "\<dots> \<longleftrightarrow> (\<forall>k\<le>?z div 512. k * 512 < ?z)"
    using R(3) q(2) by (auto simp: root_size_def)
  also have "\<dots> \<longleftrightarrow> ?z mod 512 \<noteq> 0" by (rule all_blocks)
  finally show ?thesis using run m32 by auto
qed

theorem mkfs_root_hole_witness:
  "\<exists>m. mkfs_main (\<lambda>p. Some []) (replicate 30 [97]) mkfs0 = Inr ((), m) \<and> \<not> no_holes (view m) (root_inode m)"
proof -
  have f: "image_fits (\<lambda>p. Some []) (replicate 30 [97])"
    by (simp add: image_fits_def image_files_def blocks_def nb_def FSSIZE_def map_replicate sum_list_replicate del: upt_Suc)
  show ?thesis using mkfs_root_hole [OF f] by auto
qed

end
