(* ===== verification/Shexec.thy ===== *)
theory Shexec
  imports Shparse Sched
begin

text \<open>
  The rest of the shell, \<open>user/src/sh/main.c\<close>: \<open>runcmd\<close>, \<open>getcmd\<close> and \<open>main\<close>. A user program is a value
  of type \<open>prog\<close>: the calls it makes on the system, each with the continuation that takes its result;
  \<open>None\<close> is the result of a call that fails. What the system does with the calls is the function
  \<open>run\<close>, for the calls the shell uses: descriptors are the lowest free ones, a child starts with a copy
  of its parent's table, \<open>fgets\<close> reads up to a newline. Which files open and which programs start
  is the parameter \<open>env\<close>. The diagnostics that the shell prints are left out.

  The lemmas: \<open>runcmd\<close> starts the simple commands of a parsed line with the descriptors that their place
  in it demands, and none besides; a session does so line by line.
\<close>

section \<open>Programs\<close>

datatype oflags = RdWr | Flags omode

datatype prog =
  Exit nat
| Execv "string list" prog
| Open string oflags "nat option \<Rightarrow> prog"
| Close nat prog
| Dup nat prog
| Pipe "(nat \<times> nat) option \<Rightarrow> prog"
| Fork "nat option \<Rightarrow> prog"
| Wait prog
| Chdir string prog
| Gets nat "string \<Rightarrow> prog"
| Fuel

definition sh_panic :: prog where "sh_panic = Exit 1"

definition fork1 :: "(nat \<Rightarrow> prog) \<Rightarrow> prog" where
  "fork1 k = Fork (\<lambda>r. case r of None \<Rightarrow> sh_panic | Some pid \<Rightarrow> k pid)"

text \<open>
  The children never return from \<open>runcmd\<close>, so what follows the test is the parent's. A null command and a
  command of another type, which the parser never makes, have no counterpart.
\<close>

fun runcmd :: "string cmd \<Rightarrow> prog" where
  "runcmd (EXEC ws) = (if ws = [] then Exit 0 else Execv ws (Exit 0))"
| "runcmd (REDIR c w m fd) =
     Close fd (Open w (Flags m) (\<lambda>r. case r of None \<Rightarrow> Exit 1 | Some _ \<Rightarrow> runcmd c))"
| "runcmd (LIST l r) = fork1 (\<lambda>pid. if pid = 0 then runcmd l else Wait (runcmd r))"
| "runcmd (PIPE l r) =
     Pipe (\<lambda>p. case p of None \<Rightarrow> sh_panic | Some (p0, p1) \<Rightarrow>
       fork1 (\<lambda>pid. if pid = 0 then Close 1 (Dup p1 (Close p0 (Close p1 (runcmd l))))
       else fork1 (\<lambda>pid. if pid = 0 then Close 0 (Dup p0 (Close p0 (Close p1 (runcmd r))))
       else Close p0 (Close p1 (Wait (Wait (Exit 0)))))))"
| "runcmd (BACK c) = fork1 (\<lambda>pid. if pid = 0 then runcmd c else Exit 0)"

text \<open>\<open>getcmd\<close> clears the buffer and reads a line into it; \<open>None\<close> is its result -1.\<close>

definition sh_nbuf :: nat where "sh_nbuf = 100"

definition getcmd :: "nat \<Rightarrow> (string option \<Rightarrow> prog) \<Rightarrow> prog" where
  "getcmd nbuf k = Gets nbuf (\<lambda>line. let buf = line @ replicate (nbuf - length line) NUL in
     k (if buf ! 0 = NUL then None else Some buf))"

definition c_strlen :: "string \<Rightarrow> nat" where
  "c_strlen buf = length (takeWhile (\<lambda>c. c \<noteq> NUL) buf)"

definition is_cd :: "string \<Rightarrow> bool" where
  "is_cd buf \<longleftrightarrow> buf ! 0 = CHR ''c'' \<and> buf ! 1 = CHR ''d'' \<and> buf ! 2 = CHR '' ''"

definition cd_dir :: "string \<Rightarrow> string" where
  "cd_dir buf = takeWhile (\<lambda>c. c \<noteq> NUL) (drop 3 (buf[c_strlen buf - 1 := NUL]))"

definition run_line :: "string \<Rightarrow> prog" where
  "run_line buf = (case parsecmd buf parse_start of Inr ((c, b), _) \<Rightarrow> runcmd (map_cmd (word_at b) c) | Inl _ \<Rightarrow> sh_panic)"

text \<open>The loops of \<open>main\<close> carry fuel: opening the console ends after a few rounds, the other loop after the last line.\<close>

fun open_console :: "nat \<Rightarrow> prog \<Rightarrow> prog" where
  "open_console 0 k = Fuel"
| "open_console (Suc n) k = Open ''console'' RdWr (\<lambda>r. case r of None \<Rightarrow> k
     | Some fd \<Rightarrow> if fd \<ge> 3 then Close fd k else open_console n k)"

fun sh_loop :: "nat \<Rightarrow> prog" where
  "sh_loop 0 = Fuel"
| "sh_loop (Suc n) = getcmd sh_nbuf (\<lambda>r. case r of None \<Rightarrow> Exit 0
     | Some buf \<Rightarrow> if is_cd buf then Chdir (cd_dir buf) (sh_loop n)
         else fork1 (\<lambda>pid. if pid = 0 then run_line buf else Wait (sh_loop n)))"

definition sh_main :: "nat \<Rightarrow> prog" where
  "sh_main n = open_console (NOFILE + 1) (sh_loop n)"

section \<open>What the calls do\<close>

text \<open>A pipe is named by the place in the tree of processes where it was made.\<close>

datatype fdobj = FileObj string oflags | PipeRd "bool list" | PipeWr "bool list" | Other nat

type_synonym fdtab = "nat \<Rightarrow> fdobj option"

record ust =
  fds :: fdtab
  place :: "bool list"
  input :: string

record env =
  starts :: "string list \<Rightarrow> bool"
  opens :: "string \<Rightarrow> oflags \<Rightarrow> bool"

datatype event = Started "string list" fdtab | Cd string | OutOfFuel

definition free_fd :: "fdtab \<Rightarrow> nat option" where
  "free_fd f = List.find (\<lambda>k. f k = None) [0..<NOFILE]"

definition line_len :: "nat \<Rightarrow> string \<Rightarrow> nat" where
  "line_len n s = min (n - 1) (let l = length (takeWhile (\<lambda>c. c \<noteq> CHR 0x0A) s) in if l < length s then l + 1 else l)"

primrec run :: "env \<Rightarrow> prog \<Rightarrow> ust \<Rightarrow> event list" where
  "run e (Exit n) s = []"
| "run e (Execv ws k) s = (if starts e ws then [Started ws (fds s)] else run e k s)"
| "run e (Open path m k) s = (case free_fd (fds s) of
     Some d \<Rightarrow> if opens e path m then run e (k (Some d)) (s\<lparr>fds := (fds s)(d \<mapsto> FileObj path m)\<rparr>) else run e (k None) s
   | None \<Rightarrow> run e (k None) s)"
| "run e (Close d k) s = run e k (s\<lparr>fds := (fds s)(d := None)\<rparr>)"
| "run e (Dup d k) s = run e k (case (fds s d, free_fd (fds s)) of
     (Some x, Some d') \<Rightarrow> s\<lparr>fds := (fds s)(d' \<mapsto> x)\<rparr> | _ \<Rightarrow> s)"
| "run e (Pipe k) s = (case free_fd (fds s) of None \<Rightarrow> run e (k None) s
   | Some p0 \<Rightarrow> (let f = (fds s)(p0 \<mapsto> PipeRd (place s)) in case free_fd f of None \<Rightarrow> run e (k None) s
     | Some p1 \<Rightarrow> run e (k (Some (p0, p1))) (s\<lparr>fds := f(p1 \<mapsto> PipeWr (place s))\<rparr>)))"
| "run e (Fork k) s = run e (k (Some 0)) (s\<lparr>place := True # place s\<rparr>) @ run e (k (Some 1)) (s\<lparr>place := False # place s\<rparr>)"
| "run e (Wait k) s = run e k s"
| "run e (Chdir d k) s = Cd d # run e k s"
| "run e (Gets n k) s = (let l = line_len n (input s) in run e (k (take l (input s))) (s\<lparr>input := drop l (input s)\<rparr>))"
| "run e Fuel s = [OutOfFuel]"

section \<open>The commands of a line\<close>

text \<open>
  The processes a command stands for: each simple command with its descriptors. The two sides of a
  pipe share the pipe of their node and have nothing else of it.
\<close>

fun wires :: "env \<Rightarrow> bool list \<Rightarrow> fdtab \<Rightarrow> string cmd \<Rightarrow> event list" where
  "wires e p f (EXEC ws) = (if ws \<noteq> [] \<and> starts e ws then [Started ws f] else [])"
| "wires e p f (REDIR c w m fd) = (if opens e w (Flags m) then wires e p (f(fd \<mapsto> FileObj w (Flags m))) c else [])"
| "wires e p f (LIST l r) = wires e (True # p) f l @ wires e (False # p) f r"
| "wires e p f (PIPE l r) = wires e (True # p) (f(1 \<mapsto> PipeWr p)) l @ wires e (True # False # p) (f(0 \<mapsto> PipeRd p)) r"
| "wires e p f (BACK c) = wires e (True # p) f c"

fun redirs_ok :: "'w cmd \<Rightarrow> bool" where
  "redirs_ok (EXEC ws) \<longleftrightarrow> True"
| "redirs_ok (REDIR c w m fd) \<longleftrightarrow> fd \<le> 1 \<and> redirs_ok c"
| "redirs_ok (LIST l r) \<longleftrightarrow> redirs_ok l \<and> redirs_ok r"
| "redirs_ok (PIPE l r) \<longleftrightarrow> redirs_ok l \<and> redirs_ok r"
| "redirs_ok (BACK c) \<longleftrightarrow> redirs_ok c"

text \<open>Exactly the three standard descriptors are open.\<close>

definition std :: "fdtab \<Rightarrow> bool" where
  "std f \<longleftrightarrow> (\<forall>d. f d \<noteq> None \<longleftrightarrow> d < 3)"

lemma stdD: "std f \<Longrightarrow> 3 \<le> d \<Longrightarrow> f d = None" "std f \<Longrightarrow> d < 3 \<Longrightarrow> f d \<noteq> None"
  by (metis std_def not_less) (simp add: std_def)

lemma free_fd_eq: "f d = None \<Longrightarrow> \<forall>k<d. f k \<noteq> None \<Longrightarrow> d < NOFILE \<Longrightarrow> free_fd f = Some d"
  unfolding free_fd_def find_upt_Some by auto

lemma runcmd_wires:
  "std (fds s) \<Longrightarrow> redirs_ok c \<Longrightarrow> run e (runcmd c) s = wires e (place s) (fds s) c"
proof (induction c arbitrary: s)
  case (EXEC ws)
  then show ?case by simp
next
  case (REDIR c w m fd)
  then have fd: "fd = 0 \<or> fd = 1" by auto
  let ?f = "(fds s)(fd := None)"
  have "free_fd ?f = Some fd" using fd REDIR.prems(1) by (intro free_fd_eq) (auto simp: std_def NOFILE_def)
  moreover have "std ((fds s)(fd \<mapsto> FileObj w (Flags m)))" using fd REDIR.prems(1) by (auto simp: std_def)
  then have "run e (runcmd c) (s\<lparr>fds := (fds s)(fd \<mapsto> FileObj w (Flags m))\<rparr>) = wires e (place s) ((fds s)(fd \<mapsto> FileObj w (Flags m))) c"
    using REDIR.prems(2) by (subst REDIR.IH) simp_all
  ultimately show ?case by simp
next
  case (PIPE l r)
  let ?p = "place s" and ?f = "fds s"
  let ?g = "?f(3 \<mapsto> PipeRd ?p, 4 \<mapsto> PipeWr ?p)"
  have n: "?f 3 = None" "?f 4 = None" using stdD(1) [OF PIPE.prems(1)] by simp_all
  have a: "free_fd ?f = Some 3" using PIPE.prems(1) by (intro free_fd_eq) (auto simp: std_def NOFILE_def)
  have b: "free_fd (?f(3 \<mapsto> PipeRd ?p)) = Some 4" using PIPE.prems(1) n by (intro free_fd_eq) (auto simp: std_def NOFILE_def)
  have c: "free_fd (?g(1 := None)) = Some 1" "free_fd (?g(0 := None)) = Some 0"
    using PIPE.prems(1) n by (auto intro!: free_fd_eq simp: std_def NOFILE_def)
  have d: "?g(1 := None, 1 \<mapsto> PipeWr ?p, 3 := None, 4 := None) = ?f(1 \<mapsto> PipeWr ?p)"
    "?g(0 := None, 0 \<mapsto> PipeRd ?p, 3 := None, 4 := None) = ?f(0 \<mapsto> PipeRd ?p)"
    using n by auto
  have s: "std (?f(1 \<mapsto> PipeWr ?p))" "std (?f(0 \<mapsto> PipeRd ?p))" using PIPE.prems(1) by (auto simp: std_def)
  have "run e (runcmd l) (s\<lparr>place := True # ?p, fds := ?f(1 \<mapsto> PipeWr ?p)\<rparr>) = wires e (True # ?p) (?f(1 \<mapsto> PipeWr ?p)) l"
    "run e (runcmd r) (s\<lparr>place := True # False # ?p, fds := ?f(0 \<mapsto> PipeRd ?p)\<rparr>) = wires e (True # False # ?p) (?f(0 \<mapsto> PipeRd ?p)) r"
    using PIPE.prems(2) s by (subst PIPE.IH; simp)+
  then show ?case using a b c d by (simp add: fork1_def)
next
  case (LIST l r)
  then show ?case by (simp add: fork1_def)
next
  case (BACK c)
  then show ?case by (simp add: fork1_def)
qed


section \<open>Lines\<close>

lemma redirs_ok_map [simp]: "redirs_ok (map_cmd g c) = redirs_ok c"
  by (induction c) simp_all

lemma redirs_ok_add [simp]: "redirs_ok (add_arg w c) = redirs_ok c"
  by (induction c rule: add_arg.induct) simp_all

lemma gredirs_ok: "gredirs c ts d ts' \<Longrightarrow> redirs_ok c \<Longrightarrow> redirs_ok d"
  by (induction rule: gredirs.induct) auto

lemma gargs_ok: "gargs c ts d ts' \<Longrightarrow> redirs_ok c \<Longrightarrow> redirs_ok d"
  by (induction rule: gargs.induct) (auto dest: gredirs_ok)

lemma gamps_ok: "gamps c ts d ts' \<Longrightarrow> redirs_ok c \<Longrightarrow> redirs_ok d"
  by (induction rule: gamps.induct) auto

lemma grammar_ok:
  "gline ts c ts' \<Longrightarrow> redirs_ok c" "gpipe ts c ts' \<Longrightarrow> redirs_ok c" "gexec ts c ts' \<Longrightarrow> redirs_ok c"
  by (induction rule: gline_gpipe_gexec.inducts) (auto dest: gredirs_ok gargs_ok gamps_ok)

text \<open>A line as the parser leaves it: the command with its words read as C strings, if it parses.\<close>

definition line_cmd :: "string \<Rightarrow> string cmd option" where
  "line_cmd buf = (case parsecmd buf parse_start of Inr ((c, b), _) \<Rightarrow> Some (map_cmd (word_at b) c) | Inl _ \<Rightarrow> None)"

lemma line_cmd_ok: "NUL \<in> set buf \<Longrightarrow> line_cmd buf = Some c \<Longrightarrow> redirs_ok c"
  using parsecmd_ends [of buf parse_start] grammar_ok(1)
  by (fastforce simp: line_cmd_def ends_def parse_start_def split: sum.splits prod.splits)

definition line_jobs :: "env \<Rightarrow> bool list \<Rightarrow> fdtab \<Rightarrow> string \<Rightarrow> event list" where
  "line_jobs e p f buf = (case line_cmd buf of Some c \<Rightarrow> wires e p f c | None \<Rightarrow> [])"

lemma run_line_jobs: "std (fds s) \<Longrightarrow> NUL \<in> set buf \<Longrightarrow> run e (run_line buf) s = line_jobs e (place s) (fds s) buf"
  using line_cmd_ok [of buf]
  by (auto simp: run_line_def line_jobs_def line_cmd_def sh_panic_def runcmd_wires split: sum.splits prod.splits)

text \<open>A line the user types: it ends in a newline, fits the buffer and has no zero in it.\<close>

definition typed :: "string \<Rightarrow> bool" where
  "typed w \<longleftrightarrow> NUL \<notin> set w \<and> CHR 0x0A \<notin> set w \<and> length w + 1 < sh_nbuf"

definition line_buf :: "string \<Rightarrow> string" where
  "line_buf w = w @ CHR 0x0A # replicate (sh_nbuf - length w - 1) NUL"

fun session :: "env \<Rightarrow> bool list \<Rightarrow> fdtab \<Rightarrow> string list \<Rightarrow> event list" where
  "session e p f [] = []"
| "session e p f (w # ws) = (if take 3 w = ''cd '' then Cd (drop 3 w) # session e p f ws
     else line_jobs e (True # p) f (line_buf w) @ session e (False # p) f ws)"

lemma gets_line:
  assumes "typed w"
  shows "line_len sh_nbuf (w @ CHR 0x0A # rest) = length w + 1"
proof -
  have "takeWhile (\<lambda>c. c \<noteq> CHR 0x0A) (w @ CHR 0x0A # rest) = w" using assms by (subst takeWhile_append2) (auto simp: typed_def)
  then show ?thesis using assms by (auto simp: line_len_def typed_def min_def)
qed

lemma cd_line:
  assumes "typed w"
  shows "is_cd (line_buf w) \<longleftrightarrow> take 3 w = ''cd ''" "take 3 w = ''cd '' \<Longrightarrow> cd_dir (line_buf w) = drop 3 w"
    "line_buf w ! 0 \<noteq> NUL" "NUL \<in> set (line_buf w)"
proof -
  let ?b = "line_buf w"
  have nz: "\<forall>c\<in>set w. c \<noteq> NUL" and l: "length w + 1 < sh_nbuf" using assms by (auto simp: typed_def)
  have z: "replicate (sh_nbuf - length w - 1) NUL = NUL # replicate (sh_nbuf - length w - 2) NUL"
    using l by (metis Suc_diff_Suc add_2_eq_Suc' diff_diff_left less_diff_conv one_add_one plus_1_eq_Suc replicate_Suc add.commute)
  show c: "is_cd ?b \<longleftrightarrow> take 3 w = ''cd ''"
    by (cases w; cases "tl w"; cases "tl (tl w)") (auto simp: is_cd_def line_buf_def numeral_eq_Suc)
  show "?b ! 0 \<noteq> NUL" using nz by (cases w) (auto simp: line_buf_def NUL_def)
  show "NUL \<in> set ?b" unfolding line_buf_def z by simp
  show "cd_dir ?b = drop 3 w" if "take 3 w = ''cd ''"
  proof -
    have "length (take 3 w) = 3" by (simp only: that) simp
    then have l3: "3 \<le> length w" by simp
    have t: "takeWhile (\<lambda>c. c \<noteq> NUL) ?b = w @ [CHR 0x0A]"
      unfolding line_buf_def z using nz by (subst takeWhile_append2) (auto simp: NUL_def)
    have u: "?b[c_strlen ?b - 1 := NUL] = w @ NUL # replicate (sh_nbuf - length w - 1) NUL"
      unfolding c_strlen_def t by (simp add: line_buf_def)
    show ?thesis unfolding cd_dir_def u using l3 nz by (auto simp: takeWhile_append dest: in_set_dropD)
  qed
qed

lemma sh_loop_session:
  "std (fds s) \<Longrightarrow> list_all typed ws \<Longrightarrow> input s = concat (map (\<lambda>w. w @ [CHR 0x0A]) ws) \<Longrightarrow> length ws < n \<Longrightarrow>
     run e (sh_loop n) s = session e (place s) (fds s) ws"
proof (induction ws arbitrary: n s)
  case Nil
  then show ?case by (cases n) (simp_all add: getcmd_def line_len_def sh_nbuf_def)
next
  case (Cons w ws)
  obtain k where k: "n = Suc k" "length ws < k" using Cons.prems(4) by (cases n) auto
  have t: "typed w" "list_all typed ws" using Cons.prems(2) by simp_all
  let ?rest = "concat (map (\<lambda>w. w @ [CHR 0x0A]) ws)"
  have i: "input s = w @ CHR 0x0A # ?rest" using Cons.prems(3) by simp
  have b: "(w @ [CHR 0x0A]) @ replicate (sh_nbuf - length (w @ [CHR 0x0A])) NUL = line_buf w" by (simp add: line_buf_def)
  let ?s = "s\<lparr>input := ?rest\<rparr>"
  have "run e (sh_loop n) s = run e (if is_cd (line_buf w) then Chdir (cd_dir (line_buf w)) (sh_loop k)
      else fork1 (\<lambda>pid. if pid = 0 then run_line (line_buf w) else Wait (sh_loop k))) ?s"
    using gets_line [OF t(1), of ?rest] cd_line(3) [OF t(1)] b by (simp add: k(1) getcmd_def i Let_def)
  also have "\<dots> = session e (place s) (fds s) (w # ws)"
    using cd_line [OF t(1)] run_line_jobs [of "?s\<lparr>place := True # place s\<rparr>" "line_buf w" e] Cons.prems(1)
      Cons.IH [of ?s k] Cons.IH [of "?s\<lparr>place := False # place s\<rparr>" k] t(2) k(2)
    by (simp add: fork1_def)
  finally show ?case .
qed


section \<open>The session\<close>

definition with_console :: "fdtab \<Rightarrow> fdtab" where
  "with_console f = (\<lambda>d. if d < 3 \<and> f d = None then Some (FileObj ''console'' RdWr) else f d)"

text \<open>The descriptors below \<open>k\<close> are open, and no others.\<close>

definition open_below :: "nat \<Rightarrow> fdtab \<Rightarrow> bool" where
  "open_below k f \<longleftrightarrow> (\<forall>d. f d \<noteq> None \<longleftrightarrow> d < k)"

lemma open_console_run:
  "k \<le> 3 \<Longrightarrow> opens e ''console'' RdWr \<Longrightarrow> open_below k (fds s) \<Longrightarrow> 3 - k < n \<Longrightarrow>
     run e (open_console n q) s = run e q (s\<lparr>fds := with_console (fds s)\<rparr>)"
proof (induction n arbitrary: s k)
  case (Suc n)
  let ?f = "fds s" and ?c = "FileObj ''console'' RdWr"
  have k: "?f k = None" "\<forall>j<k. ?f j \<noteq> None" using Suc.prems(3) by (auto simp: open_below_def)
  have a: "free_fd ?f = Some k" using k Suc.prems(1) by (intro free_fd_eq) (auto simp: NOFILE_def)
  show ?case
  proof (cases "k = 3")
    case True
    then have "with_console ?f = ?f" using k(2) by (auto simp: with_console_def)
    moreover have "?f(k := None) = ?f" using k(1) by auto
    ultimately show ?thesis using a Suc.prems(2) True by simp
  next
    case False
    have "open_below (Suc k) (?f(k \<mapsto> ?c))" using Suc.prems(3) by (auto simp: open_below_def)
    then have "run e (open_console n q) (s\<lparr>fds := ?f(k \<mapsto> ?c)\<rparr>) = run e q (s\<lparr>fds := with_console (?f(k \<mapsto> ?c))\<rparr>)"
      using Suc.prems(1,2,4) False by (subst Suc.IH [of "Suc k"]) simp_all
    moreover have "with_console (?f(k \<mapsto> ?c)) = with_console ?f" using False Suc.prems(1) k(1) by (auto simp: with_console_def)
    ultimately show ?thesis using a Suc.prems(1,2) False by simp
  qed
qed simp

lemma std_console: "open_below k f \<Longrightarrow> k \<le> 3 \<Longrightarrow> std (with_console f)"
  by (auto simp: std_def with_console_def open_below_def)

lemma wires_std: "std f \<Longrightarrow> redirs_ok c \<Longrightarrow> Started a g \<in> set (wires e p f c) \<Longrightarrow> std g"
proof (induction c arbitrary: f p)
  case (REDIR c w m fd)
  then have "std (f(fd \<mapsto> FileObj w (Flags m)))" by (auto simp: std_def)
  then show ?case using REDIR by (auto split: if_splits)
next
  case (PIPE l r)
  then have "std (f(1 \<mapsto> PipeWr p))" "std (f(0 \<mapsto> PipeRd p))" by (auto simp: std_def)
  then show ?case using PIPE by auto
qed (auto split: if_splits)

lemma session_std: "std f \<Longrightarrow> list_all typed ws \<Longrightarrow> Started a g \<in> set (session e p f ws) \<Longrightarrow> std g"
proof (induction ws arbitrary: p)
  case (Cons w ws)
  have "redirs_ok c" if "line_cmd (line_buf w) = Some c" for c
    using line_cmd_ok [OF cd_line(4) that] Cons.prems(2) by simp
  then have "std g" if "Started a g \<in> set (line_jobs e (True # p) f (line_buf w))"
    using that wires_std [OF Cons.prems(1)] by (cases "line_cmd (line_buf w)") (auto simp: line_jobs_def)
  then show ?case using Cons.IH [OF Cons.prems(1), of p] Cons.IH [OF Cons.prems(1), of "False # p"] Cons.prems(2,3)
    by (auto split: if_splits)
qed simp

text \<open>
  C34. What a session of the shell does: after opening the console on the standard descriptors that are missing,
  it takes the lines one by one; \<open>cd\<close> acts in the shell itself, and of every other line that parses each simple
  command is started with standard input and output where the redirections and pipes of the line put
  them, and with no other descriptor open.
\<close>

theorem sh_session:
  assumes "open_below k f" "k \<le> 3" "opens e ''console'' RdWr" "list_all typed ws" "length ws < n"
  shows "run e (sh_main n) \<lparr>fds = f, place = p, input = concat (map (\<lambda>w. w @ [CHR 0x0A]) ws)\<rparr> = session e p (with_console f) ws \<and>
    (\<forall>a g. Started a g \<in> set (session e p (with_console f) ws) \<longrightarrow> std g)"
proof -
  have s: "std (with_console f)" by (rule std_console [OF assms(1,2)])
  have "run e (sh_main n) \<lparr>fds = f, place = p, input = concat (map (\<lambda>w. w @ [CHR 0x0A]) ws)\<rparr> = session e p (with_console f) ws"
    using assms s by (simp add: sh_main_def open_console_run [of k] NOFILE_def sh_loop_session)
  then show ?thesis using session_std [OF s assms(4)] by blast
qed

theorem sh_session_witness:
  "run \<lparr>starts = \<lambda>_. True, opens = \<lambda>_ _. True\<rparr> (sh_main 3)
     \<lparr>fds = Map.empty, place = [], input = ''cd d'' @ CHR 0x0A # ''a|b>f'' @ [CHR 0x0A]\<rparr> =
   [Cd ''d'',
    Started [''a''] [0 \<mapsto> FileObj ''console'' RdWr, 1 \<mapsto> PipeWr [True], 2 \<mapsto> FileObj ''console'' RdWr],
    Started [''b''] [0 \<mapsto> PipeRd [True], 1 \<mapsto> FileObj ''f'' (Flags OWriteCreate), 2 \<mapsto> FileObj ''console'' RdWr]]"
proof -
  have cmd: "line_cmd (line_buf ''a|b>f'') = Some (PIPE (EXEC [''a'']) (REDIR (EXEC [''b'']) ''f'' OWriteCreate 1))" by code_simp
  have typed: "list_all typed [''cd d'', ''a|b>f'']" by code_simp
  have tab: "with_console Map.empty = [0 \<mapsto> FileObj ''console'' RdWr, 1 \<mapsto> FileObj ''console'' RdWr, 2 \<mapsto> FileObj ''console'' RdWr]"
    by (auto simp: with_console_def)
  have "open_below 0 Map.empty" by (simp add: open_below_def)
  from sh_session [OF this _ _ typed, of "\<lparr>starts = \<lambda>_. True, opens = \<lambda>_ _. True\<rparr>" 3 "[]"]
  show ?thesis by (simp add: line_jobs_def cmd tab fun_upd_twist)
qed

end
