(* ===== verification/Trap.thy ===== *)
theory Trap
  imports Syscall Consline
begin

text \<open>
  The entry of the kernel, \<open>kern/trap.c\<close>: what an exception or interrupt leads to. The registers the
  handler reads, the exception syndrome and the pending interrupts, are arguments; acknowledging the
  timers only writes device registers and is left out, as are the messages on unexpected interrupts.

  The lemmas: a timer interrupt takes the CPU from the running process, which then yields to every
  process that has not used up its time.
\<close>

unbundle bit_operations_syntax

definition AUX_INT :: u32 where "AUX_INT = push_bit 29 1"
definition VC_ARASANSDIO_INT :: u32 where "VC_ARASANSDIO_INT = push_bit 30 1"
definition IRQ_TIMER :: u32 where "IRQ_TIMER = push_bit 11 1"
definition IRQ_GPU :: u32 where "IRQ_GPU = push_bit 8 1"
definition IRQ_CNTPNSIRQ :: u32 where "IRQ_CNTPNSIRQ = push_bit 1 1"

definition EC_SHIFT :: nat where "EC_SHIFT = 26"
definition EC_UNKNOWN :: u32 where "EC_UNKNOWN = 0x00"
definition EC_SVC64 :: u32 where "EC_SVC64 = 0x15"
definition ISS_MASK :: u64 where "ISS_MASK = 0xFFFFFF"

definition uart_intr :: "('z consstate_scheme, unit) kop" where
  "uart_intr = console_intr"

text \<open>The values of the interrupt sources of this CPU and of the two pending registers.\<close>

definition interrupt :: "u32 \<Rightarrow> u32 \<Rightarrow> u32 \<Rightarrow> ('z consstate_scheme, unit) kop" where
  "interrupt src p1 p2 =
     bind (get thisproc) (\<lambda>proc.
     if src AND IRQ_CNTPNSIRQ \<noteq> 0 then timer
     else if src AND IRQ_TIMER \<noteq> 0 then ret ()
     else if src AND IRQ_GPU \<noteq> 0 then
       (if p1 AND AUX_INT \<noteq> 0 then uart_intr
        else if p2 AND VC_ARASANSDIO_INT \<noteq> 0 then sd_intr
        else ret ())
     else deref proc (\<lambda>_. ret ()))"

text \<open>\<open>esr\<close> is the exception syndrome, \<open>irq\<close> the three registers of \<open>interrupt\<close>.\<close>

definition trap :: "sysnos \<Rightarrow> libc \<Rightarrow> elfdefs \<Rightarrow> ksyms \<Rightarrow> (nat \<Rightarrow> 'z consstate_scheme devsw) \<Rightarrow>
    u64 \<Rightarrow> u32 \<times> u32 \<times> u32 \<Rightarrow> u64 \<Rightarrow> ('z consstate_scheme, unit) kop" where
  "trap no lc ed ks dsw esr irq tf =
    (let ec = ucast (drop_bit EC_SHIFT esr); iss = esr AND ISS_MASK in
     if ec = EC_UNKNOWN then (case irq of (src, p1, p2) \<Rightarrow> interrupt src p1 p2)
     else if ec = EC_SVC64 then
       (if iss = 0 then seq (syscall1 no lc ed ks dsw tf) (ret ()) else ret ())
     else panic ''trap: unexpected irq.'')"

section \<open>Preemption\<close>

definition preempted :: "'z kstate_scheme \<Rightarrow> nat \<Rightarrow> 'z kstate_scheme" where
  "preempted s p = s\<lparr>ptable := (ptable s)(p := (ptable s p)\<lparr>p_priority := 0, p_state := RUNNABLE\<rparr>),
     cpu_proc := (cpu_proc s)(this_cpu s := None)\<rparr>"

lemma timer_run:
  fixes s :: "'z kstate_scheme"
  assumes "spin_free s" "thisproc s = Some p" "p_priority (ptable s p) \<in> {0, 1}"
  shows "\<exists>t. timer s = Inl (Switch t) \<and> scheduler_return t = Inr ((), preempted s p)"
proof -
  let ?q = "(ptable s p)\<lparr>p_priority := 0\<rparr>" and ?c = "this_cpu s"
  let ?s = "s\<lparr>ptable := (ptable s)(p := ?q)\<rparr>"
  let ?l = "(locks s Lptable)\<lparr>lk_locked := True, lk_cpu := Some ?c\<rparr>"
  let ?t = "?s\<lparr>locks := (locks s)(Lptable := ?l), ptable := (ptable s)(p := ?q\<lparr>p_state := RUNNABLE\<rparr>)\<rparr>"
  have same: "(ptable s p)\<lparr>p_priority := 0\<rparr> = ptable s p" if "p_priority (ptable s p) = 0" using that by (cases "ptable s p") simp
  have d: "drop_priority s = Inr ((), ?s)"
    using assms by (auto simp: drop_priority_def kop_simps lock_simps same)
  have tp: "thisproc ?s = Some p" using assms(2) by (simp add: thisproc_def)
  have "yield ?s = Inl (Switch ?t)"
    using assms(1) tp by (simp add: yield_def yield_enter_eq sched_def kop_simps lock_simps thisproc_def holding_def)
  then have "timer s = Inl (Switch ?t)" by (simp add: timer_def kop_simps d)
  moreover have "scheduler_return ?t = Inr ((), preempted s p)"
    using assms(1) by (simp add: scheduler_return_def set_cpu_proc_def kop_simps lock_simps preempted_def)
  ultimately show ?thesis by blast
qed

text \<open>The next choice of the scheduler falls on another process while one of the higher priority can run here.\<close>

lemma preempted_yields:
  assumes "q < NPROC" "runnable_on (this_cpu s) 1 (ptable s q)" "q \<noteq> p"
  shows "\<exists>r. scheduler_select (this_cpu s) (ptable (preempted s p)) = Some r \<and> r \<noteq> p \<and> runnable_on (this_cpu s) 1 (ptable s r)"
proof -
  let ?pt = "ptable (preempted s p)"
  have e: "runnable_on (this_cpu s) 1 (?pt r) \<longleftrightarrow> r \<noteq> p \<and> runnable_on (this_cpu s) 1 (ptable s r)" for r
    by (auto simp: preempted_def runnable_on_def)
  obtain r where r: "scheduler_scan (this_cpu s) 1 ?pt = Some r"
    using assms e [of q] find_upt_None [of "\<lambda>r. runnable_on (this_cpu s) 1 (?pt r)" NPROC]
    by (cases "scheduler_scan (this_cpu s) 1 ?pt") (auto simp: scheduler_scan_def)
  then have "runnable_on (this_cpu s) 1 (?pt r)" by (simp only: scheduler_scan_def find_upt_Some)
  moreover have "scheduler_select (this_cpu s) ?pt = Some r" by (simp add: scheduler_select_def r)
  ultimately show ?thesis using e by blast
qed

text \<open>
  C12. A timer interrupt ends the turn of the running process: the handler switches to the scheduler, which
  finds every lock free, the process runnable at the low priority and everything else as it was; and as long as
  another process of the high priority can run on this CPU, the scheduler chooses such a process.
\<close>

theorem timer_preempts:
  fixes s :: "'z consstate_scheme"
  assumes "spin_free s" "thisproc s = Some p" "p_priority (ptable s p) \<in> {0, 1}"
    and "ucast (drop_bit EC_SHIFT esr) = EC_UNKNOWN" "bit src 1"
  shows "\<exists>t. trap no lc ed ks dsw esr (src, p1, p2) tf s = Inl (Switch t) \<and> scheduler_return t = Inr ((), preempted s p) \<and>
    spin_free (preempted s p) \<and> (\<forall>q<NPROC. q \<noteq> p \<and> runnable_on (this_cpu s) 1 (ptable s q) \<longrightarrow>
      (\<exists>r. scheduler_select (this_cpu s) (ptable (preempted s p)) = Some r \<and> r \<noteq> p \<and> runnable_on (this_cpu s) 1 (ptable s r)))"
proof -
  have "src AND IRQ_CNTPNSIRQ \<noteq> 0" using assms(5) by (simp add: IRQ_CNTPNSIRQ_def bit_iff_and_push_bit_not_eq_0)
  then have "trap no lc ed ks dsw esr (src, p1, p2) tf s = timer s"
    using assms(4) by (simp add: trap_def interrupt_def kop_simps)
  moreover have "spin_free (preempted s p)" using assms(1) by (simp add: preempted_def spin_free_def)
  ultimately show ?thesis using timer_run [OF assms(1-3)] preempted_yields [of _ s p] by fastforce
qed

text \<open>CPU 0 runs process 1, the others wait with the same priority.\<close>

definition demo_trap :: consstate where
  "demo_trap = (demo_console [])\<lparr>this_cpu := 0, cpu_proc := (\<lambda>_. Some 1),
     ptable := (\<lambda>_. demo_proc\<lparr>p_state := RUNNABLE, p_priority := 1, p_cpus_allowed := -1\<rparr>)\<rparr>"

theorem timer_preempts_witness:
  "\<forall>no lc ed ks dsw. \<exists>t. trap no lc ed ks dsw 0 (2, 0, 0) 0 demo_trap = Inl (Switch t) \<and>
     (\<exists>r. scheduler_select 0 (ptable (preempted demo_trap 1)) = Some r \<and> r \<noteq> 1)"
proof (intro allI)
  fix no :: sysnos and lc :: libc and ed :: elfdefs and ks :: ksyms and dsw :: "nat \<Rightarrow> consstate devsw"
  have d: "spin_free demo_trap" "thisproc demo_trap = Some 1" "p_priority (ptable demo_trap 1) \<in> {0, 1}" "this_cpu demo_trap = 0"
    using demo_console(1) by (simp_all add: demo_trap_def spin_free_def thisproc_def)
  have e: "ucast (drop_bit EC_SHIFT (0 :: u64)) = EC_UNKNOWN" "bit (2 :: u32) 1" by (simp_all add: EC_UNKNOWN_def bit_numeral_rec)
  have q: "(0 :: nat) < NPROC" "runnable_on (this_cpu demo_trap) 1 (ptable demo_trap 0)"
    by (simp_all add: NPROC_def runnable_on_def demo_trap_def)
  show "\<exists>t. trap no lc ed ks dsw 0 (2, 0, 0) 0 demo_trap = Inl (Switch t) \<and>
     (\<exists>r. scheduler_select 0 (ptable (preempted demo_trap 1)) = Some r \<and> r \<noteq> 1)"
    using timer_preempts [OF d(1-3) e, of no lc ed ks dsw 0 0 0] q d(4) by (metis zero_neq_one)
qed

end
