(* ===== verification/Spec2Isabelle.thy ===== *)
theory Spec2Isabelle
  imports Fpath Vmap Syscall Exitwait Fdesc Shparse Consline Sdcard Mkfs Shexec Trap
begin

text \<open>
  A verification development of a small Unix-like kernel for ARM64 (\<open>src/kern\<close>, \<open>src/inc\<close>), a
  descendant of xv6: processes and scheduling, locks, paging, an SD card driver, a buffer cache, a
  redo log, a file system, and the system calls over them.

  How the program is modelled. A routine is a function of the state that ends in one of these ways:
  it returns a value and a new state; it panics; it hands the CPU to the scheduler in a state
  (\<open>Switch\<close>); it waits for ever for a lock (\<open>Spin\<close>); it accesses memory it must not (\<open>Fault\<close>); or
  the fuel of a loop runs out (\<open>Diverge\<close>). The state is a record that grows with the layers of the
  kernel: \<open>kstate\<close> (CPUs, process table, locks), \<open>biostate\<close> (buffers, request queue, disk),
  \<open>logstate\<close> (\<open>struct log\<close>), \<open>fsstate\<close> (super block, inode cache), \<open>memstate\<close> (memory, free pages),
  \<open>filestate\<close> (open files), \<open>consstate\<close> (console). A routine of one layer works on every extension of its state. Machine
  integers are words of their width; an \<open>int\<close> that only counts is an integer, with its conversions
  to and from words written out. Arrays of C objects are functions from indices, pointers into them
  indices, null pointers \<open>None\<close>; pages, tables and user memory are bytes at addresses. Messages
  printed on the console are left out, panics keep their text.

  The theories, in the order of the layers, with the source they model:

  Foundations. \<open>Prelude\<close> has the outcomes, the combinators and rewrite rules, byte encodings, rings
  of linked nodes. \<open>CString\<close>: \<open>inc/string.h\<close>. \<open>Klist\<close>: \<open>inc/list.h\<close>. \<open>Mmu\<close>: \<open>inc/mmu.h\<close>,
  \<open>inc/memlayout.h\<close>, \<open>inc/types.h\<close>. \<open>Machine\<close>: the state of \<open>inc/proc.h\<close>, \<open>inc/spinlock.h\<close>,
  \<open>inc/sleeplock.h\<close>.

  Concurrency. \<open>Spinlock\<close>: \<open>kern/spinlock.c\<close>, one CPU at a time and as interleaved steps of any
  number of CPUs, with mutual exclusion. \<open>Sched\<close>: \<open>scheduler\<close>, \<open>sched\<close>, \<open>sleep\<close>, \<open>wakeup\<close>, \<open>yield\<close>,
  priorities of \<open>kern/proc.c\<close>, \<open>kern/timer.c\<close>; routines that call \<open>swtch\<close> are split there, and the
  stretches between are lists of actions, one per statement, that the routines run in order.
  \<open>Sleeplock\<close>: \<open>kern/sleeplock.c\<close>, and the system in which CPUs interleave these actions with each
  other and with the schedulers' switches (\<open>smp_exec\<close>), where no wakeup is lost.

  Storage. \<open>Sd\<close>: the request queue and interrupt handler of \<open>kern/sd.c\<close>, which refine a server that
  carries out its requests in order; the card is a parameter of the state, with what the driver relies
  on as named hypotheses. \<open>Sdcard\<close>: the commands of the card at
  the level of the controller's registers, and the mailbox of \<open>kern/mbox.c\<close>, for an arbitrary device. \<open>Bio\<close> models \<open>kern/bio.c\<close>; \<open>Bcache\<close>
  proves that it refines a store of blocks, which the locale \<open>block_cache\<close> offers to the layers above.
  \<open>Layout\<close>: the structures of \<open>inc/fs.h\<close> as bytes. \<open>Log\<close> models \<open>kern/log.c\<close> and describes its disk
  writes; \<open>Txn\<close> proves atomicity of a commit under crashes, recovery, absorption,
  and what the reservation of log space by \<open>begin_op\<close> guarantees to interleaved operations.

  File system (\<open>kern/fs.c\<close>). \<open>Fs\<close> holds all routines. \<open>Falloc\<close>: the bitmap. \<open>Finode\<close>: the inode cache
  and inodes on disk. \<open>Fcontent\<close> and \<open>Fwrite\<close>: the block map, reading and writing bytes. \<open>Fpath\<close>:
  path elements, the walk, directory lookup.

  Memory. \<open>Kpgdir\<close>: the static tables of \<open>kern/kpgdir.c\<close>, all entries, with the translation they
  give. \<open>Kalloc\<close>: \<open>kern/kalloc.c\<close> with the free list in memory, and the locale \<open>page_allocator\<close>. \<open>Vm\<close>:
  \<open>kern/vm.c\<close>. \<open>Vmap\<close>: what the tables map, and that \<open>map_region\<close> changes exactly that.

  Processes and system calls. \<open>File\<close>: \<open>kern/file.c\<close> and the kernel's access to user memory. \<open>Sysarg\<close>:
  argument fetching of \<open>kern/syscall.c\<close>. \<open>Sysfile\<close>: \<open>kern/sysfile.c\<close>. \<open>Exec\<close>: \<open>kern/exec.c\<close> and
  \<open>sys_exec\<close>. \<open>Procs\<close>: the rest of \<open>kern/proc.c\<close>. \<open>Syscall\<close>: \<open>kern/sysproc.c\<close> and \<open>syscall1\<close>. \<open>Exitwait\<close>:
  how \<open>exit\<close> meets \<open>wait\<close>. \<open>Fdesc\<close>: descriptors and reference counts. \<open>Console\<close>: \<open>kern/console.c\<close>.
  \<open>Consline\<close>: its input buffer as a line editor. \<open>Trap\<close>: the dispatch of \<open>kern/trap.c\<close>, and preemption.

  User programs. \<open>Sh\<close>: the command parser of the shell, \<open>user/src/sh/main.c\<close>. \<open>Shparse\<close>: the grammar it
  implements, its termination, and the strings the executor sees. \<open>Shexec\<close>: the execution of commands as
  programs of system calls, and the descriptors each command of a line is started with.

  The image. \<open>Mkfs\<close>: \<open>user/src/mkfs/main.c\<close>, the host program that builds the disk; what it leaves is a
  well-formed file system in the terms of \<open>Falloc\<close>, \<open>Finode\<close>, \<open>Fcontent\<close> and \<open>Fpath\<close>, with every file on it.

  Parameters. What is not under \<open>src\<close> is an argument: the device table \<open>devsw\<close>, constants and layouts
  of the C library (\<open>libc\<close>, \<open>elfdefs\<close>, \<open>sysnos\<close>), addresses the linker chooses (\<open>ksyms\<close>, \<open>kend\<close>), the card
  (\<open>sd_send\<close> and the other card fields of \<open>biostate\<close>), the device registers (\<open>hw\<close>), the files of the host (\<open>host\<close>),
  which files open and which programs start for the shell (\<open>env\<close>).

  Loops. A loop over a fixed range is recursion over the list of its indices. Where the source's
  bound is not structural the loop carries fuel, computed by its caller from the arguments, or has a
  termination proof. The bounded waits of \<open>Sdcard\<close> recurse on
  their count; only the mailbox polls without a bound, and carries fuel. Fuel is more than enough: the waiting loops of \<open>acquiresleep\<close>, \<open>begin_op\<close>, \<open>sdrw\<close>
  and \<open>wait\<close> switch away in their first round (2 rounds); the scans of the buffer ring visit each
  buffer once; loops over pages or entries get the number of pages or entries and a few more;
  the shell's main loop gets more rounds than there are lines; \<open>namex\<close>
  consumes a character of the path per round, and is the recursion over its elements (\<open>namex_terminates\<close>).
  A step of a system of several CPUs is one action; calls of the log's routines by several operations
  (\<open>log_used\<close>) are one step each, as they hold the log's lock.

  What is proved. Each text block with an id C1, C2, ... states one property, ahead of its theorem.
  The lemmas before it give the effect of each routine on the states the callers ensure (\<open>*_run\<close>), the
  invariants (\<open>bio_inv\<close>, \<open>log_ok\<close>, \<open>fs_inv\<close>, \<open>icache_ok\<close>, \<open>kmem_ok\<close>, \<open>pt_ok\<close>, \<open>wait_inv\<close>, \<open>fd_inv\<close>), and
  demonstration states at which every hypothesis is met.

  Not modelled: the UART, clock and interrupt setup code, which only read and write device
  registers; \<open>sd_test\<close>, a benchmark; \<open>main\<close> and the assembly files,
  which glue the parts together; the self tests; the small programs \<open>cat\<close>, \<open>ls\<close> and \<open>init\<close>
  under \<open>user\<close>; the vendored boot files.
\<close>

end
